(* ===== verification/Prelude.thy ===== *)
theory Prelude
  imports Main "HOL-Library.Word" "HOL-Library.Sublist"
begin

text \<open>
  What every component theory shares: C strings and the part of the C library the daemon
  calls on them, with the generic lemmas about lists that carry the component proofs.

  A C string is a \<open>string\<close> (a list of bytes, since \<open>char\<close> is exactly one byte) that holds
  the bytes before the terminating NUL; a pointer into a string is the suffix it points at.
  A write through \<open>snprintf\<close> into a buffer of \<open>n\<close> bytes keeps the first \<open>n - 1\<close> bytes.
  The daemon never calls \<open>setlocale\<close>, so \<open>ctype.h\<close> is the one of the "C" locale (ASCII).
  \<open>int\<close> is 32 bits, \<open>long\<close> and \<open>size_t\<close> are 64 bits (LP64).
\<close>

section \<open>Fact collections\<close>

named_theorems cstr_simps "facts about the C string helpers"
named_theorems ctype_simps "definitions of the ctype predicates"

section \<open>Bytes and ctype.h\<close>

abbreviation byte :: "char \<Rightarrow> nat" where
  "byte c \<equiv> of_char c"

definition c_isdigit :: "char \<Rightarrow> bool" where [ctype_simps]:
  "c_isdigit c \<longleftrightarrow> 48 \<le> byte c \<and> byte c \<le> 57"

definition c_isupper :: "char \<Rightarrow> bool" where [ctype_simps]:
  "c_isupper c \<longleftrightarrow> 65 \<le> byte c \<and> byte c \<le> 90"

definition c_islower :: "char \<Rightarrow> bool" where [ctype_simps]:
  "c_islower c \<longleftrightarrow> 97 \<le> byte c \<and> byte c \<le> 122"

definition c_isalpha :: "char \<Rightarrow> bool" where [ctype_simps]:
  "c_isalpha c \<longleftrightarrow> c_isupper c \<or> c_islower c"

definition c_isalnum :: "char \<Rightarrow> bool" where [ctype_simps]:
  "c_isalnum c \<longleftrightarrow> c_isalpha c \<or> c_isdigit c"

definition c_isspace :: "char \<Rightarrow> bool" where [ctype_simps]:
  "c_isspace c \<longleftrightarrow> byte c = 32 \<or> (9 \<le> byte c \<and> byte c \<le> 13)"

definition c_tolower :: "char \<Rightarrow> char" where
  "c_tolower c = (if c_isupper c then char_of (byte c + 32) else c)"

definition c_toupper :: "char \<Rightarrow> char" where
  "c_toupper c = (if c_islower c then char_of (byte c - 32) else c)"

lemma byte_char_of: "n < 256 \<Longrightarrow> byte (char_of n) = n"
  by simp

lemma char_eq_byte: "c = d \<longleftrightarrow> byte c = byte d"
  by simp

lemma byte_tolower: "byte (c_tolower c) = (if c_isupper c then byte c + 32 else byte c)"
  by (auto simp: c_tolower_def ctype_simps)

lemma byte_toupper: "byte (c_toupper c) = (if c_islower c then byte c - 32 else byte c)"
  by (auto simp: c_toupper_def ctype_simps)

lemma c_tolower_idem [simp]: "c_tolower (c_tolower c) = c_tolower c"
  by (rule of_char_eqI [where 'a = nat]) (auto simp: byte_tolower ctype_simps)

lemma c_toupper_idem [simp]: "c_toupper (c_toupper c) = c_toupper c"
  by (rule of_char_eqI [where 'a = nat]) (auto simp: byte_toupper ctype_simps)

text \<open>
  A character that is not a letter is its own lower and upper case, and nothing else maps
  to it; the separators of the wire protocol are all of this kind.
\<close>

lemma c_tolower_eq_nonalpha [simp]:
  assumes "\<not> c_isalpha d"
  shows "c_tolower c = d \<longleftrightarrow> c = d"
  using assms unfolding char_eq_byte byte_tolower by (auto simp: ctype_simps)

lemma c_toupper_eq_nonalpha [simp]:
  assumes "\<not> c_isalpha d"
  shows "c_toupper c = d \<longleftrightarrow> c = d"
  using assms unfolding char_eq_byte byte_toupper by (auto simp: ctype_simps)

lemma c_tolower_nonalpha [simp]: "\<not> c_isalpha d \<Longrightarrow> c_tolower d = d"
  by (simp add: c_tolower_def c_isalpha_def)

lemma c_toupper_nonalpha [simp]: "\<not> c_isalpha d \<Longrightarrow> c_toupper d = d"
  by (simp add: c_toupper_def c_isalpha_def)

lemma c_tolower_eq_nonalpha2 [simp]: "\<not> c_isalpha d \<Longrightarrow> d = c_tolower c \<longleftrightarrow> d = c"
  by (metis c_tolower_eq_nonalpha)

lemma c_toupper_eq_nonalpha2 [simp]: "\<not> c_isalpha d \<Longrightarrow> d = c_toupper c \<longleftrightarrow> d = c"
  by (metis c_toupper_eq_nonalpha)

section \<open>string.h and strings.h\<close>

text \<open>\<open>strcasecmp(s, t) == 0\<close>, and \<open>strncasecmp(s, lit, strlen(lit)) == 0\<close>.\<close>

definition strcaseeq :: "string \<Rightarrow> string \<Rightarrow> bool" where
  "strcaseeq s t \<longleftrightarrow> map c_tolower s = map c_tolower t"

definition starts_nocase :: "string \<Rightarrow> string \<Rightarrow> bool" where
  "starts_nocase lit s \<longleftrightarrow> map c_tolower (take (length lit) s) = map c_tolower lit"

text \<open>\<open>strncmp(s, lit, strlen(lit)) == 0\<close>.\<close>

definition starts_with :: "string \<Rightarrow> string \<Rightarrow> bool" where
  "starts_with lit s \<longleftrightarrow> take (length lit) s = lit"

text \<open>\<open>snprintf(out, n, "%s", s)\<close>: what ends up in the buffer.\<close>

definition clip :: "nat \<Rightarrow> string \<Rightarrow> string" where
  "clip n s = take (n - 1) s"

text \<open>
  \<open>strchr(s, c)\<close>: \<open>None\<close> for NULL, else the bytes before the hit and the bytes after it.
\<close>

fun split_chr :: "char \<Rightarrow> string \<Rightarrow> (string \<times> string) option" where
  "split_chr c [] = None"
| "split_chr c (x # xs) =
     (if x = c then Some ([], xs)
      else map_option (\<lambda>(a, b). (x # a, b)) (split_chr c xs))"

text \<open>\<open>strrchr(s, c)\<close>, split the same way at the last hit.\<close>

definition split_rchr :: "char \<Rightarrow> string \<Rightarrow> (string \<times> string) option" where
  "split_rchr c s = map_option (\<lambda>(a, b). (rev b, rev a)) (split_chr c (rev s))"

text \<open>\<open>strstr(s, pat)\<close>, split at the first occurrence.\<close>

fun split_str :: "string \<Rightarrow> string \<Rightarrow> (string \<times> string) option" where
  "split_str pat s =
     (if starts_with pat s then Some ([], drop (length pat) s)
      else case s of [] \<Rightarrow> None
           | x # xs \<Rightarrow> map_option (\<lambda>(a, b). (x # a, b)) (split_str pat xs))"

declare split_str.simps [simp del]

text \<open>The tokens \<open>strtok_r\<close> yields: maximal non-empty runs without a delimiter.\<close>

function strtok :: "(char \<Rightarrow> bool) \<Rightarrow> string \<Rightarrow> string list" where
  "strtok d s =
     (case dropWhile d s of
        [] \<Rightarrow> []
      | x # xs \<Rightarrow> takeWhile (\<lambda>c. \<not> d c) (x # xs) # strtok d (dropWhile (\<lambda>c. \<not> d c) xs))"
  by pat_completeness auto
termination
proof (relation "measure (length \<circ> snd)", simp_all)
  fix d :: "char \<Rightarrow> bool" and s x xs
  assume "dropWhile d s = x # xs"
  then have "length (x # xs) \<le> length s" by (metis length_dropWhile_le)
  moreover have "length (dropWhile (\<lambda>c. \<not> d c) xs) \<le> length xs" by (rule length_dropWhile_le)
  ultimately show "length (dropWhile (\<lambda>c. \<not> d c) xs) < length s" by simp
qed

declare strtok.simps [simp del]

subsection \<open>Lemmas\<close>

lemma split_chr_None_iff [cstr_simps]: "split_chr c s = None \<longleftrightarrow> c \<notin> set s"
  by (induction s) auto

lemma split_chr_SomeD:
  "split_chr c s = Some (a, b) \<Longrightarrow> s = a @ c # b \<and> c \<notin> set a"
  by (induction s arbitrary: a) (auto split: if_splits)

lemma split_chr_append [simp]:
  "c \<notin> set a \<Longrightarrow> split_chr c (a @ c # b) = Some (a, b)"
  by (induction a) auto

lemma split_chr_notin [simp]: "c \<notin> set s \<Longrightarrow> split_chr c s = None"
  by (simp add: split_chr_None_iff)

lemma split_chr_Some_iff:
  "split_chr c s = Some (a, b) \<longleftrightarrow> s = a @ c # b \<and> c \<notin> set a"
  by (auto dest: split_chr_SomeD)

lemma split_chr_length: "split_chr c s = Some (a, b) \<Longrightarrow> length b < length s"
  by (auto dest: split_chr_SomeD)

lemma split_rchr_SomeD:
  "split_rchr c s = Some (a, b) \<Longrightarrow> s = a @ c # b \<and> c \<notin> set b"
  by (auto simp: split_rchr_def split_chr_Some_iff rev_eq_append_conv)

lemma split_rchr_append [simp]:
  "c \<notin> set b \<Longrightarrow> split_rchr c (a @ c # b) = Some (a, b)"
  by (simp add: split_rchr_def)

lemma split_rchr_notin [simp]: "c \<notin> set s \<Longrightarrow> split_rchr c s = None"
  by (simp add: split_rchr_def)

lemma starts_with_append [simp]: "starts_with p (p @ s)"
  by (simp add: starts_with_def)

lemma starts_with_prefix: "starts_with p s \<longleftrightarrow> prefix p s"
  by (auto simp: starts_with_def prefix_def) (metis append_take_drop_id)

lemma in_set_tl: "x \<in> set (tl xs) \<Longrightarrow> x \<in> set xs"
  by (cases xs) auto

lemma clip_id [simp]: "length s < n \<Longrightarrow> clip n s = s"
  by (simp add: clip_def)

lemma length_clip: "length (clip n s) \<le> n - 1"
  by (simp add: clip_def)

lemma set_clip: "set (clip n s) \<subseteq> set s"
  by (simp add: clip_def set_take_subset)

lemma strcaseeq_refl [simp]: "strcaseeq s s"
  by (simp add: strcaseeq_def)

lemma strcaseeq_sym: "strcaseeq s t \<longleftrightarrow> strcaseeq t s"
  by (auto simp: strcaseeq_def)

lemma strcaseeq_trans: "strcaseeq s t \<Longrightarrow> strcaseeq t u \<Longrightarrow> strcaseeq s u"
  by (simp add: strcaseeq_def)

lemma strcaseeq_length: "strcaseeq s t \<Longrightarrow> length s = length t"
  unfolding strcaseeq_def by (rule map_eq_imp_length_eq)

lemma strtok_tokens: "t \<in> set (strtok d s) \<Longrightarrow> t \<noteq> [] \<and> (\<forall>c \<in> set t. \<not> d c) \<and> set t \<subseteq> set s"
proof (induction d s rule: strtok.induct)
  case (1 d s)
  show ?case
  proof (cases "dropWhile d s")
    case Nil
    with "1.prems" show ?thesis by (subst (asm) strtok.simps) simp
  next
    case (Cons x xs)
    have x: "\<not> d x" using Cons by (metis dropWhile_eq_Cons_conv)
    have sub: "set (x # xs) \<subseteq> set s" using Cons by (metis set_dropWhileD subsetI)
    from "1.prems" Cons have
      "t = takeWhile (\<lambda>c. \<not> d c) (x # xs) \<or> t \<in> set (strtok d (dropWhile (\<lambda>c. \<not> d c) xs))"
      by (subst (asm) strtok.simps) simp
    then show ?thesis
    proof
      assume "t = takeWhile (\<lambda>c. \<not> d c) (x # xs)"
      with x sub show ?thesis by (auto dest: set_takeWhileD)
    next
      assume "t \<in> set (strtok d (dropWhile (\<lambda>c. \<not> d c) xs))"
      from "1.IH" [OF Cons this] sub show ?thesis by (auto dest: set_dropWhileD)
    qed
  qed
qed

text \<open>Tokens joined by one delimiter are found again, one by one.\<close>

lemma strtok_single:
  assumes "t \<noteq> []" and "\<forall>c \<in> set t. \<not> d c"
  shows "strtok d t = [t]"
proof -
  from assms obtain x xs where t: "t = x # xs" by (cases t) auto
  from assms t have 1: "dropWhile d (x # xs) = x # xs" and 2: "takeWhile (\<lambda>c. \<not> d c) xs = xs"
    and 3: "dropWhile (\<lambda>c. \<not> d c) xs = []" and 4: "\<not> d x"
    by (auto simp: takeWhile_eq_all_conv dropWhile_eq_Nil_conv)
  show ?thesis
    unfolding t strtok.simps [of d "x # xs"] 1 by (simp add: 2 3 4 strtok.simps [of d "[]"])
qed

lemma strtok_append:
  "d e \<Longrightarrow> strtok d (a @ e # b) = strtok d a @ strtok d b"
proof (induction d a rule: strtok.induct)
  case (1 d s)
  show ?case
  proof (cases "dropWhile d s")
    case Nil
    then have all: "\<forall>c \<in> set s. d c" by (simp add: dropWhile_eq_Nil_conv)
    then have "dropWhile d (s @ e # b) = dropWhile d b"
      using "1.prems" by (simp add: dropWhile_append2)
    then have "strtok d (s @ e # b) = strtok d b"
      by (simp only: strtok.simps [of d "s @ e # b"] strtok.simps [of d b])
    then show ?thesis
      unfolding strtok.simps [of d s] Nil by simp
  next
    case (Cons x xs)
    then have x: "\<not> d x" by (metis dropWhile_eq_Cons_conv)
    have dw: "dropWhile d (s @ e # b) = x # (xs @ e # b)"
      using Cons by (metis append_Cons dropWhile_append1 dropWhile_eq_Nil_conv list.distinct(1))
    show ?thesis
    proof (cases "\<exists>c \<in> set xs. d c")
      case True
      then have "takeWhile (\<lambda>c. \<not> d c) (xs @ e # b) = takeWhile (\<lambda>c. \<not> d c) xs"
        and "dropWhile (\<lambda>c. \<not> d c) (xs @ e # b) = dropWhile (\<lambda>c. \<not> d c) xs @ e # b"
        by auto
      with 1 Cons dw x show ?thesis
        by (simp add: strtok.simps [of d "s @ e # b"] strtok.simps [of d s])
    next
      case False
      then have all: "\<forall>c \<in> set xs. \<not> d c" by blast
      then have tw: "takeWhile (\<lambda>c. \<not> d c) (xs @ e # b) = xs"
        and dw': "dropWhile (\<lambda>c. \<not> d c) (xs @ e # b) = e # b"
        and xs: "takeWhile (\<lambda>c. \<not> d c) xs = xs" "dropWhile (\<lambda>c. \<not> d c) xs = []"
        using "1.prems" by (auto simp: takeWhile_eq_all_conv)
      have "strtok d (e # b) = strtok d b"
        using "1.prems" by (simp add: strtok.simps [of d "e # b"] strtok.simps [of d b])
      then show ?thesis
        unfolding strtok.simps [of d "s @ e # b"] strtok.simps [of d s] dw Cons
        by (simp add: x tw dw' xs strtok.simps [of d "[]"])
    qed
  qed
qed

lemma strtok_Nil [simp]: "strtok d [] = []"
  by (simp add: strtok.simps)


section \<open>Numbers in text: strtol and \%d\<close>

definition LONG_MAX :: int where "LONG_MAX = 2 ^ 63 - 1"
definition LONG_MIN :: int where "LONG_MIN = - (2 ^ 63)"

definition digit_val :: "char \<Rightarrow> nat" where
  "digit_val c = byte c - 48"

definition digit_char :: "nat \<Rightarrow> char" where
  "digit_char n = char_of (48 + n)"

fun read_digits :: "nat \<Rightarrow> string \<Rightarrow> nat \<times> string" where
  "read_digits n [] = (n, [])"
| "read_digits n (c # s) =
     (if c_isdigit c then read_digits (10 * n + digit_val c) s else (n, c # s))"

text \<open>
  \<open>strtol(s, \&e, 10)\<close>: \<open>None\<close> when there is nothing to convert (\<open>e == s\<close>), else the
  value, clamped to \<open>long\<close>, and the text at \<open>e\<close>.
\<close>

definition strtol :: "string \<Rightarrow> (int \<times> string) option" where
  "strtol s =
     (let s1 = dropWhile c_isspace s;
          neg = (take 1 s1 = ''-'');
          s2 = (if take 1 s1 = ''-'' \<or> take 1 s1 = ''+'' then drop 1 s1 else s1)
      in case s2 of
           [] \<Rightarrow> None
         | c # r \<Rightarrow>
             if c_isdigit c then
               (let (n, e) = read_digits 0 s2;
                    v = (if neg then - int n else int n)
                in Some (max LONG_MIN (min LONG_MAX v), e))
             else None)"

definition atol :: "string \<Rightarrow> int" where
  "atol s = (case strtol s of None \<Rightarrow> 0 | Some (v, e) \<Rightarrow> v)"

fun show_nat :: "nat \<Rightarrow> string" where
  "show_nat n = (if n < 10 then [digit_char n] else show_nat (n div 10) @ [digit_char (n mod 10)])"

declare show_nat.simps [simp del]

definition show_int :: "int \<Rightarrow> string" where
  "show_int i = (if i < 0 then CHR ''-'' # show_nat (nat (- i)) else show_nat (nat i))"

text \<open>\<open>\%0wd\<close> of a non-negative number.\<close>

definition show_pad :: "nat \<Rightarrow> nat \<Rightarrow> string" where
  "show_pad w n = replicate (w - length (show_nat n)) CHR ''0'' @ show_nat n"

lemma digit_char_val: "n < 10 \<Longrightarrow> digit_val (digit_char n) = n \<and> c_isdigit (digit_char n)"
  by (simp add: digit_val_def digit_char_def ctype_simps)

lemma show_nat_digits: "list_all c_isdigit (show_nat n) \<and> show_nat n \<noteq> []"
proof (induction n rule: show_nat.induct)
  case (1 n)
  then show ?case
    by (cases "n < 10") (simp_all add: show_nat.simps [of n] digit_char_val)
qed

lemma show_nat_nonempty [simp]: "show_nat n \<noteq> []"
  using show_nat_digits by blast

lemma read_digits_append:
  "list_all c_isdigit a \<Longrightarrow> read_digits n (a @ b) = read_digits (fst (read_digits n a)) b"
  by (induction a arbitrary: n) auto

lemma read_digits_stop: "\<not> c_isdigit (hd (b @ [CHR 0x00])) \<Longrightarrow> read_digits n b = (n, b)"
  by (cases b) auto

lemma read_show_nat: "fst (read_digits 0 (show_nat n)) = n"
proof (induction n rule: show_nat.induct)
  case (1 n)
  show ?case
  proof (cases "n < 10")
    case True
    then show ?thesis by (simp add: show_nat.simps [of n] digit_char_val)
  next
    case False
    then have "read_digits 0 (show_nat n) =
        read_digits (fst (read_digits 0 (show_nat (n div 10)))) [digit_char (n mod 10)]"
      using show_nat_digits [of "n div 10"] by (simp add: show_nat.simps [of n] read_digits_append)
    with 1 False show ?thesis by (simp add: digit_char_val)
  qed
qed

lemma read_show_nat_append:
  "\<not> c_isdigit (hd (b @ [CHR 0x00])) \<Longrightarrow> read_digits 0 (show_nat n @ b) = (n, b)"
  using show_nat_digits [of n] by (simp add: read_digits_append read_show_nat read_digits_stop)

lemma read_digits_zeros: "read_digits 0 (replicate k CHR ''0'' @ s) = read_digits 0 s"
  by (induction k) (simp_all add: ctype_simps digit_val_def)

lemma read_show_pad_append:
  "\<not> c_isdigit (hd (b @ [CHR 0x00])) \<Longrightarrow> read_digits 0 (show_pad w n @ b) = (n, b)"
  by (simp add: show_pad_def read_digits_zeros read_show_nat_append)

lemma show_pad_digits: "list_all c_isdigit (show_pad w n) \<and> show_pad w n \<noteq> []"
  using show_nat_digits [of n] by (auto simp: show_pad_def list_all_iff ctype_simps)

text \<open>A number that starts with a digit is read as is.\<close>

lemma strtol_digit:
  assumes "c_isdigit (hd (s @ [CHR 0x00]))"
  shows "strtol s = Some (min LONG_MAX (int (fst (read_digits 0 s))), snd (read_digits 0 s))"
proof -
  from assms obtain c r where s: "s = c # r" and c: "c_isdigit c"
    by (cases s) (auto simp: ctype_simps)
  from c have ns: "\<not> c_isspace c" "c \<noteq> CHR ''-''" "c \<noteq> CHR ''+''" by (auto simp: ctype_simps)
  have "min LONG_MAX (int n) = max LONG_MIN (min LONG_MAX (int n))" for n
    by (simp add: LONG_MAX_def LONG_MIN_def)
  then show ?thesis using c ns by (simp add: strtol_def s case_prod_beta)
qed

lemma strtol_show_nat:
  assumes "\<not> c_isdigit (hd (b @ [CHR 0x00]))" and "int n \<le> LONG_MAX"
  shows "strtol (show_nat n @ b) = Some (int n, b)"
proof -
  have "c_isdigit (hd ((show_nat n @ b) @ [CHR 0x00]))"
    using show_nat_digits [of n] by (cases "show_nat n") auto
  from strtol_digit [OF this] read_show_nat_append [OF assms(1), of n] assms(2) show ?thesis by simp
qed

section \<open>Tables keyed by a field\<close>

lemma eq_key_imp_eq: "distinct (map f xs) \<Longrightarrow> x \<in> set xs \<Longrightarrow> y \<in> set xs \<Longrightarrow> f x = f y \<Longrightarrow> x = y"
  by (simp add: distinct_map inj_on_def)

lemma find_unique_key:
  "distinct (map f xs) \<Longrightarrow> x \<in> set xs \<Longrightarrow> f x = k \<Longrightarrow> find (\<lambda>y. f y = k) xs = Some x"
  by (induction xs) auto

end
