(* ===== verification/Wire.thy ===== *)
theory Wire
  imports Prelude "HOL-Library.Monad_Syntax"
begin

text \<open>
  The wire format of src/src/proto.c: \<open>irc_parse_line\<close> (a line into tags, prefix, command
  and parameters), \<open>irc_escape\<close> and \<open>irc_build\<close> (the other direction, into a buffer of a
  given size), and the insertion of a server-time tag into a built line. The lemmas give
  the full functional description of the builder against an unbounded serialisation
  (\<open>wire\<close>), the round trip through the parser for arbitrary parameter contents, and the
  shape of everything the parser can return.
\<close>

section \<open>Messages\<close>

definition IRC_MAX_PARAMS :: nat where "IRC_MAX_PARAMS = 32"
definition IRC_MAX_TAGS :: nat where "IRC_MAX_TAGS = 32"
definition MAX_RAW_TOKENS :: nat where "MAX_RAW_TOKENS = 300"

lemmas wire_limits = IRC_MAX_PARAMS_def IRC_MAX_TAGS_def MAX_RAW_TOKENS_def

type_synonym irc_tag = "string \<times> string"

record irc_message =
  msg_tags :: "irc_tag list"
  msg_prefix :: "string option"
  msg_command :: string
  msg_params :: "string list"

abbreviation BACKSLASH :: char where "BACKSLASH \<equiv> CHR 0x5C"
abbreviation CR :: char where "CR \<equiv> CHR 0x0D"
abbreviation LF :: char where "LF \<equiv> CHR 0x0A"
abbreviation SP :: char where "SP \<equiv> CHR '' ''"

section \<open>Parsing\<close>

definition unescape_tag_char :: "char \<Rightarrow> char" where
  "unescape_tag_char c =
     (if c = BACKSLASH then BACKSLASH else if c = CHR '':'' then CHR '';''
      else if c = CHR ''s'' then SP else if c = CHR ''r'' then CR
      else if c = CHR ''n'' then LF else c)"

fun unescape_tag_value :: "string \<Rightarrow> string" where
  "unescape_tag_value [] = []"
| "unescape_tag_value [c] = [c]"
| "unescape_tag_value (c # d # s) =
     (if c = BACKSLASH then unescape_tag_char d # unescape_tag_value s
      else c # unescape_tag_value (d # s))"

definition parse_tag :: "string \<Rightarrow> irc_tag" where
  "parse_tag part =
     (case split_chr CHR ''='' part of
        None \<Rightarrow> (part, [])
      | Some (k, v) \<Rightarrow> (k, unescape_tag_value v))"

definition parse_tag_section :: "string \<Rightarrow> (irc_tag list \<times> string) option" where
  "parse_tag_section line =
     (if take 1 line = ''@'' then
        (case split_chr SP line of
           None \<Rightarrow> None
         | Some (sec, rest) \<Rightarrow>
             (let tags = map parse_tag (take IRC_MAX_TAGS (strtok (\<lambda>c. c = CHR '';'') (drop 1 sec)))
              in if rest = [] then None else Some (tags, rest)))
      else Some ([], line))"

definition parse_prefix_section :: "string \<Rightarrow> (string option \<times> string) option" where
  "parse_prefix_section line =
     (if take 1 line = '':'' then
        (case split_chr SP line of
           None \<Rightarrow> None
         | Some (p, rest) \<Rightarrow> Some (Some (drop 1 p), rest))
      else Some (None, line))"

text \<open>At most \<open>n\<close> splits at single spaces; the last token keeps what is left.\<close>

fun split_raw :: "nat \<Rightarrow> string \<Rightarrow> string list" where
  "split_raw 0 s = [s]"
| "split_raw (Suc n) s =
     (case split_chr SP s of None \<Rightarrow> [s] | Some (a, b) \<Rightarrow> a # split_raw n b)"

definition parse_words :: "irc_tag list \<Rightarrow> string option \<Rightarrow> string \<Rightarrow> irc_message option" where
  "parse_words tags pfx line =
     (let (body, trailing) =
            (case split_str '' :'' line of None \<Rightarrow> (line, None) | Some (a, b) \<Rightarrow> (a, Some b));
          raw = split_raw (MAX_RAW_TOKENS - 1) body
      in if length raw = MAX_RAW_TOKENS \<and> SP \<in> set (last raw) then None
         else case raw of
           [] \<Rightarrow> None
         | cmd # rest \<Rightarrow>
             if cmd = [] then None
             else let ps = take IRC_MAX_PARAMS (filter (\<lambda>p. p \<noteq> []) rest);
                      ps' = (case trailing of None \<Rightarrow> ps
                             | Some t \<Rightarrow> if length ps < IRC_MAX_PARAMS then ps @ [t] else ps)
                  in Some \<lparr>msg_tags = tags, msg_prefix = pfx,
                           msg_command = map c_toupper cmd, msg_params = ps'\<rparr>)"

definition irc_parse_line :: "string \<Rightarrow> irc_message option" where
  "irc_parse_line line =
     (if line = [] then None
      else do {
        (tags, line1) \<leftarrow> parse_tag_section line;
        (pfx, line2) \<leftarrow> parse_prefix_section line1;
        if line2 = [] then None else parse_words tags pfx line2
      })"

section \<open>Building\<close>

text \<open>The C loops, with \<open>room\<close> for what is left of the output buffer (\<open>outsz - o\<close>).\<close>

fun irc_escape :: "nat \<Rightarrow> string \<Rightarrow> string" where
  "irc_escape room [] = []"
| "irc_escape room (c # s) =
     (if room \<le> 1 then []
      else if c = CR \<or> c = LF then irc_escape room s
      else c # irc_escape (room - 1) s)"

definition escape_tag_char :: "char \<Rightarrow> string" where
  "escape_tag_char c =
     (if c = BACKSLASH then [BACKSLASH, BACKSLASH] else if c = CHR '';'' then [BACKSLASH, CHR '':'']
      else if c = SP then [BACKSLASH, CHR ''s''] else if c = CR then [BACKSLASH, CHR ''r'']
      else if c = LF then [BACKSLASH, CHR ''n''] else [c])"

fun escape_tag_value :: "nat \<Rightarrow> string \<Rightarrow> string" where
  "escape_tag_value room [] = []"
| "escape_tag_value room (c # s) =
     (if room \<le> 2 then []
      else escape_tag_char c @ escape_tag_value (room - length (escape_tag_char c)) s)"

definition append_str :: "nat \<Rightarrow> string \<Rightarrow> string \<Rightarrow> string option" where
  "append_str outsz s out = (if length out + length s \<ge> outsz then None else Some (out @ s))"

definition append_escaped :: "nat \<Rightarrow> string \<Rightarrow> string \<Rightarrow> string option" where
  "append_escaped outsz s out = append_str outsz (irc_escape 1024 s) out"

fun build_tags :: "nat \<Rightarrow> bool \<Rightarrow> irc_tag list \<Rightarrow> string \<Rightarrow> string option" where
  "build_tags outsz first [] out = Some out"
| "build_tags outsz first ((k, v) # ts) out = do {
     out1 \<leftarrow> (if first then Some out else append_str outsz '';'' out);
     out2 \<leftarrow> append_str outsz k out1;
     out3 \<leftarrow> (if v = [] then Some out2
              else do { o3 \<leftarrow> append_str outsz ''='' out2;
                        append_str outsz (escape_tag_value 1024 v) o3 });
     build_tags outsz False ts out3
   }"

definition mid_param :: "string \<Rightarrow> string" where
  "mid_param p =
     (let m = irc_escape 512 p;
          m1 = (if m = [] then ''*'' else m);
          m2 = (if hd m1 = CHR '':'' then CHR ''_'' # tl m1 else m1)
      in map (\<lambda>c. if c = SP then CHR ''_'' else c) m2)"

fun build_params :: "nat \<Rightarrow> string list \<Rightarrow> string \<Rightarrow> string option" where
  "build_params outsz [] out = Some out"
| "build_params outsz (p # ps) out = do {
     out1 \<leftarrow> append_str outsz '' '' out;
     out2 \<leftarrow> append_str outsz (mid_param p) out1;
     build_params outsz ps out2
   }"

definition build_trailing :: "nat \<Rightarrow> string option \<Rightarrow> string \<Rightarrow> string option" where
  "build_trailing outsz trailing out =
     (case trailing of
        None \<Rightarrow> Some out
      | Some t \<Rightarrow> do {
          out1 \<leftarrow> append_str outsz '' :'' out;
          let tbuf = irc_escape 1024 t;
          Some (out1 @ take (outsz - 1 - length out1) tbuf)
        })"

definition irc_build ::
  "nat \<Rightarrow> irc_tag list \<Rightarrow> string option \<Rightarrow> string \<Rightarrow> string list \<Rightarrow> string option \<Rightarrow> string option"
where
  "irc_build outsz tags pfx command params trailing =
     (if outsz = 0 then None
      else do {
        out1 \<leftarrow> (if tags = [] then Some []
                 else do { t0 \<leftarrow> append_str outsz ''@'' [];
                           t1 \<leftarrow> build_tags outsz True tags t0;
                           append_str outsz '' '' t1 });
        out2 \<leftarrow> (case pfx of None \<Rightarrow> Some out1
                 | Some p \<Rightarrow> do { p0 \<leftarrow> append_str outsz '':'' out1;
                                  p1 \<leftarrow> append_escaped outsz p p0;
                                  append_str outsz '' '' p1 });
        out3 \<leftarrow> append_escaped outsz command out2;
        out4 \<leftarrow> build_params outsz params out3;
        build_trailing outsz trailing out4
      })"

section \<open>Escaping\<close>

lemma irc_escape_eq: "irc_escape n s = take (n - 1) (filter (\<lambda>c. c \<noteq> CR \<and> c \<noteq> LF) s)"
proof (induction n s rule: irc_escape.induct)
  case (2 room c s)
  then show ?case
    by (cases "room \<le> 1") (auto simp: take_Cons' not_le)
qed simp

lemma irc_escape_length: "length (irc_escape n s) \<le> n - 1"
  by (simp add: irc_escape_eq)

lemma irc_escape_set: "set (irc_escape n s) \<subseteq> set s - {CR, LF}"
  by (auto simp: irc_escape_eq dest!: in_set_takeD)

lemma irc_escape_id:
  "length s < n \<Longrightarrow> CR \<notin> set s \<Longrightarrow> LF \<notin> set s \<Longrightarrow> irc_escape n s = s"
  unfolding irc_escape_eq by (subst filter_True) auto

lemma irc_escape_in:
  "c \<in> set (irc_escape n s) \<Longrightarrow> c \<in> set s \<and> c \<noteq> CR \<and> c \<noteq> LF"
  using irc_escape_set by fastforce

lemma escape_tag_value_eq:
  "2 * length v + 2 < n + 1 \<Longrightarrow> escape_tag_value n v = concat (map escape_tag_char v)"
proof (induction n v rule: escape_tag_value.induct)
  case (2 room c s)
  have "length (escape_tag_char c) \<le> 2" by (simp add: escape_tag_char_def)
  with 2 show ?case by simp
qed simp

lemma escape_tag_char_sep:
  "d \<in> {SP, CHR '';'', CR, LF} \<Longrightarrow> d \<notin> set (escape_tag_char c)"
  by (auto simp: escape_tag_char_def)

lemma escape_tag_value_set:
  "d \<in> {SP, CHR '';'', CR, LF} \<Longrightarrow> d \<notin> set (escape_tag_value n v)"
  by (induction n v rule: escape_tag_value.induct) (use escape_tag_char_sep in auto)

lemma escape_tag_value_room: "0 < n \<Longrightarrow> length (escape_tag_value n v) < n"
proof (induction n v rule: escape_tag_value.induct)
  case (2 room c s)
  have l: "length (escape_tag_char c) \<le> 2" by (simp add: escape_tag_char_def)
  show ?case
  proof (cases "room \<le> 2")
    case False
    with l have "0 < room - length (escape_tag_char c)" by linarith
    with "2.IH" False have
      "length (escape_tag_value (room - length (escape_tag_char c)) s) < room - length (escape_tag_char c)"
      by blast
    with False show ?thesis by simp
  qed (use 2 in simp)
qed simp

lemma unescape_escape_char:
  "unescape_tag_value (escape_tag_char c @ s) = c # unescape_tag_value s"
  by (cases s) (auto simp: escape_tag_char_def unescape_tag_char_def)

lemma unescape_concat_escape: "unescape_tag_value (concat (map escape_tag_char v)) = v"
  by (induction v) (simp_all add: unescape_escape_char)

section \<open>The builder against the unbounded serialisation\<close>

definition wire_tag :: "irc_tag \<Rightarrow> string" where
  "wire_tag kv = fst kv @ (if snd kv = [] then [] else CHR ''='' # escape_tag_value 1024 (snd kv))"

fun wire_tag_list :: "irc_tag list \<Rightarrow> string" where
  "wire_tag_list [] = []"
| "wire_tag_list [t] = wire_tag t"
| "wire_tag_list (t # u # ts) = wire_tag t @ CHR '';'' # wire_tag_list (u # ts)"

definition wire_tags :: "irc_tag list \<Rightarrow> string" where
  "wire_tags ts = (if ts = [] then [] else CHR ''@'' # wire_tag_list ts @ '' '')"

definition wire_prefix :: "string option \<Rightarrow> string" where
  "wire_prefix p = (case p of None \<Rightarrow> [] | Some q \<Rightarrow> CHR '':'' # irc_escape 1024 q @ '' '')"

definition wire_params :: "string list \<Rightarrow> string" where
  "wire_params ps = concat (map (\<lambda>p. SP # mid_param p) ps)"

definition wire_trailing :: "string option \<Rightarrow> string" where
  "wire_trailing t = (case t of None \<Rightarrow> [] | Some s \<Rightarrow> '' :'' @ irc_escape 1024 s)"

definition wire_head ::
  "irc_tag list \<Rightarrow> string option \<Rightarrow> string \<Rightarrow> string list \<Rightarrow> string" where
  "wire_head ts p c ps = wire_tags ts @ wire_prefix p @ irc_escape 1024 c @ wire_params ps"

definition wire ::
  "irc_tag list \<Rightarrow> string option \<Rightarrow> string \<Rightarrow> string list \<Rightarrow> string option \<Rightarrow> string" where
  "wire ts p c ps t = wire_head ts p c ps @ wire_trailing t"

lemma append_str_if:
  "append_str sz s out = (if length (out @ s) < sz then Some (out @ s) else None)"
  by (simp add: append_str_def)

lemma wire_tag_list_Cons:
  "ts \<noteq> [] \<Longrightarrow> wire_tag_list (t # ts) = wire_tag t @ CHR '';'' # wire_tag_list ts"
  by (cases ts) auto

lemma build_tags_eq:
  assumes "length out < sz"
  shows "build_tags sz first ts out =
     (let s = (if first \<or> ts = [] then wire_tag_list ts else CHR '';'' # wire_tag_list ts)
      in if length (out @ s) < sz then Some (out @ s) else None)"
  using assms
proof (induction sz first ts out rule: build_tags.induct)
  case (2 sz first k v ts out)
  let ?p = "(if first then [] else '';'') @ wire_tag (k, v)"
  have step: "build_tags sz first ((k, v) # ts) out =
      (if length (out @ ?p) < sz then build_tags sz False ts (out @ ?p) else None)"
    by (auto simp: append_str_if wire_tag_def)
  have IH: "build_tags sz False ts (out @ ?p) =
     (let s = (if ts = [] then wire_tag_list ts else CHR '';'' # wire_tag_list ts)
      in if length ((out @ ?p) @ s) < sz then Some ((out @ ?p) @ s) else None)"
    if "length (out @ ?p) < sz"
    using that 2
    by (cases "v = []"; cases first) (auto simp: append_str_if wire_tag_def Let_def split: if_splits)
  show ?case
    unfolding step using IH
    by (cases "ts = []") (auto simp: Let_def wire_tag_list_Cons)
qed simp

lemma build_params_eq:
  "length out < sz \<Longrightarrow> build_params sz ps out =
     (if length (out @ wire_params ps) < sz then Some (out @ wire_params ps) else None)"
proof (induction sz ps out rule: build_params.induct)
  case (2 sz p ps out)
  then show ?case
    by (auto simp: append_str_if wire_params_def)
qed (simp add: wire_params_def)


lemma irc_build_eq:
  assumes "0 < sz"
  shows "irc_build sz ts p c ps t =
    (if length (wire_head ts p c ps @ (if t = None then [] else '' :'')) < sz
     then Some (take (sz - 1) (wire ts p c ps t)) else None)"
proof -
  let ?o1 = "wire_tags ts"
  have 1: "(if ts = [] then Some [] else do { t0 \<leftarrow> append_str sz ''@'' [];
              t1 \<leftarrow> build_tags sz True ts t0; append_str sz '' '' t1 }) =
           (if length ?o1 < sz then Some ?o1 else None)"
    using assms by (auto simp: append_str_if build_tags_eq wire_tags_def Let_def)
  let ?o2 = "?o1 @ wire_prefix p"
  have 2: "(case p of None \<Rightarrow> Some ?o1 | Some q \<Rightarrow> do { p0 \<leftarrow> append_str sz '':'' ?o1;
              p1 \<leftarrow> append_escaped sz q p0; append_str sz '' '' p1 }) =
           (if length ?o2 < sz then Some ?o2 else None)" if "length ?o1 < sz"
    using that by (auto simp: append_str_if append_escaped_def wire_prefix_def split: option.split)
  let ?o3 = "?o2 @ irc_escape 1024 c"
  have 3: "append_escaped sz c ?o2 = (if length ?o3 < sz then Some ?o3 else None)"
    by (simp add: append_str_if append_escaped_def)
  have 4: "build_params sz ps ?o3 = (if length (?o3 @ wire_params ps) < sz
             then Some (?o3 @ wire_params ps) else None)" if "length ?o3 < sz"
    using build_params_eq [OF that] .
  have h: "wire_head ts p c ps = ?o3 @ wire_params ps" by (simp add: wire_head_def)
  have 5: "build_trailing sz t h =
      (if length (h @ (if t = None then [] else '' :'')) < sz
       then Some (take (sz - 1) (h @ wire_trailing t)) else None)" if "length h < sz" for h
    using that
    by (auto simp: build_trailing_def wire_trailing_def append_str_if take_Cons' split: option.split)
  show ?thesis
    unfolding irc_build_def 1
    using assms 2 3 4 5 [of "wire_head ts p c ps"]
    by (auto simp: h wire_def)
qed

text \<open>Every byte the builder emits comes from a tag key, a tag value, or escaped text.\<close>

lemma wire_tag_list_set:
  "c \<in> set (wire_tag_list ts) \<Longrightarrow>
     c = CHR '';'' \<or> (\<exists>kv \<in> set ts. c \<in> set (wire_tag kv))"
  by (induction ts rule: wire_tag_list.induct) auto

lemma wire_no_crlf:
  assumes "\<forall>kv \<in> set ts. d \<notin> set (fst kv)" and "d \<in> {CR, LF}"
  shows "d \<notin> set (wire ts p c ps t)"
proof -
  have esc: "d \<notin> set (irc_escape n s)" for n s
    using assms(2) by (auto dest: irc_escape_in)
  have "d \<notin> set (wire_tag kv)" if "kv \<in> set ts" for kv
    using that assms escape_tag_value_set [of d] by (auto simp: wire_tag_def)
  then have 1: "d \<notin> set (wire_tags ts)"
    using assms(2) by (auto simp: wire_tags_def dest: wire_tag_list_set)
  have 2: "d \<notin> set (mid_param q)" for q
    using esc [of 512 q] assms(2)
    by (auto simp: mid_param_def Let_def dest: in_set_tl split: if_splits)
  show ?thesis
    using 1 2 esc assms(2)
    by (auto simp: wire_def wire_head_def wire_prefix_def wire_params_def wire_trailing_def
        split: option.splits)
qed

text \<open>A C string ends at its first NUL, so it has none in it.\<close>

definition c_string :: "string \<Rightarrow> bool" where
  "c_string s \<longleftrightarrow> CHR 0x00 \<notin> set s"

lemma escape_tag_value_in: "d \<in> set (escape_tag_value n v) \<Longrightarrow> d \<in> set v \<union> {BACKSLASH, CHR '':'', CHR ''s'', CHR ''r'', CHR ''n''}"
  by (induction n v rule: escape_tag_value.induct) (auto simp: escape_tag_char_def split: if_splits)

lemma wire_no_nul:
  assumes "c_string c" and "list_all c_string ps" and "list_all (\<lambda>(k, v). c_string k \<and> c_string v) ts"
    and "pred_option c_string p" and "pred_option c_string t"
  shows "c_string (wire ts p c ps t)"
proof -
  have esc: "c_string (irc_escape n s)" if "c_string s" for n s
    using that by (auto simp: c_string_def dest: irc_escape_in)
  have "CHR 0x00 \<notin> set (wire_tag kv)" if "kv \<in> set ts" for kv
    using that assms(3) escape_tag_value_in [of "CHR 0x00" 1024 "snd kv"] by (cases kv) (auto simp: wire_tag_def c_string_def list_all_iff)
  then have 1: "c_string (wire_tags ts)"
    by (auto simp: c_string_def wire_tags_def dest: wire_tag_list_set)
  have 2: "CHR 0x00 \<notin> set (mid_param q)" if "c_string q" for q
    using esc [OF that, of 512] by (auto simp: c_string_def mid_param_def Let_def dest: in_set_tl split: if_splits)
  have 3: "CHR 0x00 \<notin> set (wire_params ps)" using 2 assms(2) by (auto simp: wire_params_def list_all_iff)
  show ?thesis
    using 1 3 esc assms by (auto simp: c_string_def wire_def wire_head_def wire_prefix_def wire_trailing_def split: option.splits)
qed

section \<open>The round trip\<close>

text \<open>A marker-free text: no parameter in it can be taken for the trailing one.\<close>

definition no_marker :: "string \<Rightarrow> bool" where
  "no_marker s \<longleftrightarrow> split_str '' :'' s = None"

lemma split_str_colon_Cons:
  "split_str '' :'' (x # xs) =
     (if x = SP \<and> take 1 xs = '':'' then Some ([], tl xs)
      else map_option (\<lambda>(a, b). (x # a, b)) (split_str '' :'' xs))"
  by (subst split_str.simps) (cases xs; auto simp: starts_with_def)

lemma no_marker_Nil [simp]: "no_marker []"
  by (simp add: no_marker_def split_str.simps starts_with_def)

lemma no_marker_Cons:
  "no_marker (x # xs) \<longleftrightarrow> \<not> (x = SP \<and> take 1 xs = '':'') \<and> no_marker xs"
  by (auto simp: no_marker_def split_str_colon_Cons)

lemma no_marker_word: "SP \<notin> set w \<Longrightarrow> no_marker s \<Longrightarrow> no_marker (w @ s)"
  by (induction w) (auto simp: no_marker_Cons)

lemma split_str_no_marker:
  "no_marker s \<Longrightarrow> split_str '' :'' (s @ '' :'' @ t) = Some (s, t)"
proof (induction s)
  case (Cons x xs)
  then have "\<not> (x = SP \<and> take 1 (xs @ '' :'' @ t) = '':'')"
    by (cases xs) (auto simp: no_marker_Cons)
  with Cons show ?case by (simp add: split_str_colon_Cons no_marker_Cons)
qed (simp add: split_str_colon_Cons)

lemma split_str_colon_SomeD:
  "split_str '' :'' s = Some (a, b) \<Longrightarrow> s = a @ '' :'' @ b \<and> no_marker a"
proof (induction s arbitrary: a)
  case Nil
  then show ?case by (simp add: split_str.simps starts_with_def)
next
  case (Cons x xs)
  show ?case
  proof (cases "x = SP \<and> take 1 xs = '':''")
    case True
    with Cons.prems show ?thesis by (cases xs) (auto simp: split_str_colon_Cons)
  next
    case False
    with Cons.prems obtain a' where a: "a = x # a'" and s: "split_str '' :'' xs = Some (a', b)"
      by (auto simp: split_str_colon_Cons)
    from Cons.IH [OF s] False a show ?thesis
      by (cases a') (auto simp: no_marker_Cons)
  qed
qed

lemma mid_param_shape:
  "mid_param p \<noteq> [] \<and> hd (mid_param p) \<noteq> CHR '':'' \<and> SP \<notin> set (mid_param p)"
  by (cases "irc_escape 512 p") (auto simp: mid_param_def Let_def)

lemma mid_param_nonempty [simp]: "mid_param p \<noteq> []"
  using mid_param_shape by blast

lemma mid_param_no_space [simp]: "SP \<notin> set (mid_param p)"
  using mid_param_shape by blast

lemma no_marker_params: "no_marker (wire_params ps)"
proof (induction ps)
  case (Cons p ps)
  have "take 1 (mid_param p @ wire_params ps) \<noteq> '':''"
    using mid_param_shape [of p] by (cases "mid_param p") auto
  with Cons show ?case
    by (auto simp: wire_params_def no_marker_Cons intro: no_marker_word)
qed (simp add: wire_params_def)

lemma split_raw_params:
  assumes "SP \<notin> set w" and "length ps \<le> n"
  shows "split_raw n (w @ wire_params ps) = w # map mid_param ps"
  using assms
proof (induction ps arbitrary: w n)
  case Nil
  then show ?case by (cases n) (simp_all add: wire_params_def)
next
  case (Cons p ps)
  then obtain m where n: "n = Suc m" by (cases n) auto
  have "wire_params (p # ps) = SP # mid_param p @ wire_params ps"
    by (simp add: wire_params_def)
  with Cons n show ?case by simp
qed

definition wire_command_ok :: "string \<Rightarrow> bool" where
  "wire_command_ok c \<longleftrightarrow> c \<noteq> [] \<and> length c < 1024 \<and> list_all (\<lambda>x. c_isupper x \<or> c_isdigit x) c"

definition wire_tag_ok :: "irc_tag \<Rightarrow> bool" where
  "wire_tag_ok kv \<longleftrightarrow> fst kv \<noteq> [] \<and> SP \<notin> set (fst kv) \<and> CHR '';'' \<notin> set (fst kv) \<and>
     CHR ''='' \<notin> set (fst kv) \<and> length (snd kv) \<le> 511"

lemma upper_or_digit_char:
  "c_isupper x \<or> c_isdigit x \<Longrightarrow>
     c_toupper x = x \<and> x \<noteq> SP \<and> x \<noteq> CR \<and> x \<noteq> LF \<and> x \<noteq> CHR '':'' \<and> x \<noteq> CHR ''@''"
  by (auto simp: c_toupper_def ctype_simps)

lemma wire_command:
  assumes "wire_command_ok c"
  shows "irc_escape 1024 c = c" "map c_toupper c = c" "SP \<notin> set c"
    "take 1 (c @ s) \<noteq> '':''" "take 1 (c @ s) \<noteq> ''@''"
proof -
  have *: "c_toupper x = x \<and> x \<noteq> SP \<and> x \<noteq> CR \<and> x \<noteq> LF \<and> x \<noteq> CHR '':'' \<and> x \<noteq> CHR ''@''"
    if "x \<in> set c" for x
    using that assms by (intro upper_or_digit_char) (auto simp: wire_command_ok_def list_all_iff)
  show "irc_escape 1024 c = c"
    using assms * by (intro irc_escape_id) (auto simp: wire_command_ok_def)
  show "map c_toupper c = c" using * by (simp add: map_idI)
  show "SP \<notin> set c" using * by blast
  show "take 1 (c @ s) \<noteq> '':''" "take 1 (c @ s) \<noteq> ''@''"
    using assms * by (cases c; auto simp: wire_command_ok_def)+
qed

lemma parse_wire_words:
  assumes "wire_command_ok c" and "length ps + (if t = None then 0 else 1) \<le> IRC_MAX_PARAMS"
  shows "parse_words ts p (c @ wire_params ps @ wire_trailing t) =
     Some \<lparr>msg_tags = ts, msg_prefix = p, msg_command = c,
           msg_params = map mid_param ps @ map (irc_escape 1024) (case t of None \<Rightarrow> [] | Some x \<Rightarrow> [x])\<rparr>"
proof -
  note cmd = wire_command [OF assms(1)]
  have nm: "no_marker (c @ wire_params ps)"
    by (rule no_marker_word [OF cmd(3) no_marker_params])
  have sp: "(case split_str '' :'' (c @ wire_params ps @ wire_trailing t) of
       None \<Rightarrow> (c @ wire_params ps @ wire_trailing t, None) | Some (a, b) \<Rightarrow> (a, Some b))
     = (c @ wire_params ps, map_option (irc_escape 1024) t)"
  proof (cases t)
    case None
    with nm show ?thesis by (simp add: wire_trailing_def no_marker_def)
  next
    case (Some x)
    with split_str_no_marker [OF nm, of "irc_escape 1024 x"] show ?thesis
      by (simp add: wire_trailing_def)
  qed
  have le: "length ps \<le> 32" using assms(2) by (simp add: IRC_MAX_PARAMS_def)
  have raw: "split_raw 299 (c @ wire_params ps) = c # map mid_param ps"
    using le by (intro split_raw_params cmd(3)) simp
  have flt: "filter (\<lambda>p. p \<noteq> []) (map mid_param ps) = map mid_param ps"
    by (rule filter_True) auto
  from assms(1) have "c \<noteq> []" by (simp add: wire_command_ok_def)
  with le assms(2) cmd(2) show ?thesis
    unfolding parse_words_def sp
    by (cases t) (auto simp: raw flt wire_limits Let_def split: option.split)
qed

lemma wire_tag_no_sep:
  assumes "wire_tag_ok kv"
  shows "wire_tag kv \<noteq> []" "SP \<notin> set (wire_tag kv)" "CHR '';'' \<notin> set (wire_tag kv)"
    "parse_tag (wire_tag kv) = kv"
proof -
  show "wire_tag kv \<noteq> []" using assms by (simp add: wire_tag_ok_def wire_tag_def)
  show "SP \<notin> set (wire_tag kv)" "CHR '';'' \<notin> set (wire_tag kv)"
    using assms escape_tag_value_set [of SP] escape_tag_value_set [of "CHR '';''"]
    by (auto simp: wire_tag_ok_def wire_tag_def)
  have "escape_tag_value 1024 (snd kv) = concat (map escape_tag_char (snd kv))"
    using assms by (intro escape_tag_value_eq) (simp add: wire_tag_ok_def)
  with assms show "parse_tag (wire_tag kv) = kv"
    by (cases kv) (auto simp: parse_tag_def wire_tag_def wire_tag_ok_def unescape_concat_escape)
qed

lemma strtok_wire_tags:
  "list_all wire_tag_ok ts \<Longrightarrow> strtok (\<lambda>c. c = CHR '';'') (wire_tag_list ts) = map wire_tag ts"
proof (induction ts rule: wire_tag_list.induct)
  case (2 t)
  then have "wire_tag_ok t" by simp
  from wire_tag_no_sep(1,3) [OF this] show ?case by (auto intro!: strtok_single)
next
  case (3 t u ts)
  then have "wire_tag_ok t" by simp
  note tok = wire_tag_no_sep(1,3) [OF this]
  have "strtok (\<lambda>c. c = CHR '';'') (wire_tag t @ CHR '';'' # wire_tag_list (u # ts)) =
      wire_tag t # strtok (\<lambda>c. c = CHR '';'') (wire_tag_list (u # ts))"
    using tok strtok_single [of "wire_tag t" "\<lambda>c. c = CHR '';''"]
    by (subst strtok_append) auto
  with 3 show ?case by simp
qed (simp add: strtok.simps)

lemma wire_tag_list_no_space: "list_all wire_tag_ok ts \<Longrightarrow> SP \<notin> set (wire_tag_list ts)"
  using wire_tag_no_sep(2) by (auto simp: list_all_iff dest: wire_tag_list_set)

lemma parse_wire_tags:
  assumes "list_all wire_tag_ok ts" and "length ts \<le> IRC_MAX_TAGS" and "rest \<noteq> []"
    and "ts = [] \<Longrightarrow> take 1 rest \<noteq> ''@''"
  shows "parse_tag_section (wire_tags ts @ rest) = Some (ts, rest)"
proof (cases "ts = []")
  case True
  with assms(4) show ?thesis by (simp add: wire_tags_def parse_tag_section_def)
next
  case False
  let ?l = "wire_tag_list ts"
  have sp: "split_chr SP (wire_tags ts @ rest) = Some (CHR ''@'' # ?l, rest)"
    using False wire_tag_list_no_space [OF assms(1)]
    by (simp add: wire_tags_def split_chr_Some_iff)
  have mp: "map parse_tag (map wire_tag ts) = ts"
    using assms(1) wire_tag_no_sep(4) by (simp add: list_all_iff map_idI)
  have "take 1 (wire_tags ts @ rest) = ''@''" using False by (simp add: wire_tags_def)
  with sp mp assms(2,3) show ?thesis
    by (simp add: parse_tag_section_def strtok_wire_tags [OF assms(1)])
qed

lemma parse_wire_prefix:
  assumes "\<And>q. p = Some q \<Longrightarrow> SP \<notin> set q" and "take 1 rest \<noteq> '':''"
  shows "parse_prefix_section (wire_prefix p @ rest) = Some (map_option (irc_escape 1024) p, rest)"
proof (cases p)
  case (Some q)
  with assms(1) have "SP \<notin> set (irc_escape 1024 q)" by (auto dest: irc_escape_in)
  then have "split_chr SP (wire_prefix p @ rest) = Some (CHR '':'' # irc_escape 1024 q, rest)"
    using Some by (simp add: wire_prefix_def)
  with Some show ?thesis by (simp add: parse_prefix_section_def wire_prefix_def)
qed (use assms(2) in \<open>simp add: parse_prefix_section_def wire_prefix_def\<close>)

text \<open>The parser inverts the serialisation, whatever the parameters contain.\<close>

lemma parse_wire:
  assumes "list_all wire_tag_ok ts" and "length ts \<le> IRC_MAX_TAGS"
    and "\<And>q. p = Some q \<Longrightarrow> SP \<notin> set q"
    and "wire_command_ok c" and "length ps + (if t = None then 0 else 1) \<le> IRC_MAX_PARAMS"
  shows "irc_parse_line (wire ts p c ps t) =
     Some \<lparr>msg_tags = ts, msg_prefix = map_option (irc_escape 1024) p, msg_command = c,
           msg_params = map mid_param ps @ map (irc_escape 1024) (case t of None \<Rightarrow> [] | Some x \<Rightarrow> [x])\<rparr>"
proof -
  note cmd = wire_command [OF assms(4)]
  let ?words = "c @ wire_params ps @ wire_trailing t"
  let ?rest = "wire_prefix p @ ?words"
  have c0: "c \<noteq> []" using assms(4) by (simp add: wire_command_ok_def)
  have w: "wire ts p c ps t = wire_tags ts @ ?rest"
    by (simp add: wire_def wire_head_def cmd(1))
  have "take 1 ?rest \<noteq> ''@''"
    using cmd(5) [of "wire_params ps @ wire_trailing t"]
    by (cases p) (simp_all add: wire_prefix_def)
  then have 1: "parse_tag_section (wire_tags ts @ ?rest) = Some (ts, ?rest)"
    using c0 by (intro parse_wire_tags assms(1,2)) auto
  have 2: "parse_prefix_section ?rest = Some (map_option (irc_escape 1024) p, ?words)"
    by (rule parse_wire_prefix [OF assms(3) cmd(4)])
  have 3: "wire_tags ts @ ?rest \<noteq> []" "?words \<noteq> []" using c0 by auto
  show ?thesis
    unfolding irc_parse_line_def w using 1 2 3 parse_wire_words [OF assms(4,5)] by simp
qed


section \<open>What the parser can return\<close>

lemma split_raw_length: "length (split_raw n s) \<le> Suc n"
  by (induction n s rule: split_raw.induct) (auto split: option.split)

lemma split_raw_nonempty [simp]: "split_raw n s \<noteq> []"
  by (cases n) (auto split: option.split)

lemma split_raw_no_space:
  "w \<in> set (split_raw n s) \<Longrightarrow>
     \<not> (length (split_raw n s) = Suc n \<and> SP \<in> set (last (split_raw n s))) \<Longrightarrow> SP \<notin> set w"
proof (induction n s arbitrary: w rule: split_raw.induct)
  case (2 n s)
  show ?case
  proof (cases "split_chr SP s")
    case None
    with "2.prems" show ?thesis by (simp add: split_chr_None_iff)
  next
    case (Some ab)
    then obtain a b where ab: "split_chr SP s = Some (a, b)" by (cases ab) auto
    then have na: "SP \<notin> set a" by (auto dest: split_chr_SomeD)
    from ab have eq: "split_raw (Suc n) s = a # split_raw n b" by simp
    from "2.prems"(1) eq consider "w = a" | "w \<in> set (split_raw n b)" by auto
    then show ?thesis
    proof cases
      case 2
      have "\<not> (length (split_raw n b) = Suc n \<and> SP \<in> set (last (split_raw n b)))"
        using "2.prems"(2) unfolding eq by simp
      with "2.IH" [OF ab refl 2] show ?thesis by blast
    qed (use na in simp)
  qed
qed simp

lemma no_marker_append: "no_marker (a @ b) \<Longrightarrow> no_marker a \<and> no_marker b"
proof (induction a)
  case (Cons x a)
  then show ?case by (cases a) (auto simp: no_marker_Cons)
qed simp

lemma split_raw_hd: "take 1 (hd (split_raw n s)) = '':'' \<Longrightarrow> take 1 s = '':''"
proof (cases n)
  case (Suc k)
  assume *: "take 1 (hd (split_raw n s)) = '':''"
  show ?thesis
  proof (cases "split_chr SP s")
    case (Some ab)
    then obtain a b where ab: "split_chr SP s = Some (a, b)" by (cases ab) auto
    with * Suc show ?thesis by (cases a) (auto dest: split_chr_SomeD)
  qed (use * Suc in simp)
qed simp

lemma split_raw_no_colon:
  "no_marker s \<Longrightarrow> p \<in> set (tl (split_raw n s)) \<Longrightarrow> take 1 p \<noteq> '':''"
proof (induction n s arbitrary: p rule: split_raw.induct)
  case (2 n s)
  show ?case
  proof (cases "split_chr SP s")
    case (Some ab)
    then obtain a b where ab: "split_chr SP s = Some (a, b)" by (cases ab) auto
    then have s: "s = a @ SP # b" by (auto dest: split_chr_SomeD)
    with "2.prems"(1) have nb: "no_marker b" and tb: "take 1 b \<noteq> '':''"
      using no_marker_append [of a "SP # b"] by (auto simp: no_marker_Cons)
    from "2.prems"(2) ab have "p = hd (split_raw n b) \<or> p \<in> set (tl (split_raw n b))"
      by (cases "split_raw n b") auto
    with "2.IH" [OF ab refl nb] tb split_raw_hd [of n b] show ?thesis by auto
  qed (use "2.prems" in simp)
qed simp

definition mid_shape :: "string \<Rightarrow> bool" where
  "mid_shape p \<longleftrightarrow> p \<noteq> [] \<and> SP \<notin> set p \<and> take 1 p \<noteq> '':''"

lemma parse_words_shape:
  assumes "parse_words tags pfx line = Some m"
  shows "msg_tags m = tags \<and> msg_prefix m = pfx \<and> msg_command m \<noteq> [] \<and> SP \<notin> set (msg_command m) \<and>
     length (msg_params m) \<le> IRC_MAX_PARAMS \<and> list_all mid_shape (butlast (msg_params m))"
proof -
  define tr where "tr = map_option snd (split_str '' :'' line)"
  define body where "body = (case split_str '' :'' line of None \<Rightarrow> line | Some (a, b) \<Rightarrow> a)"
  define raw where "raw = split_raw 299 body"
  define ps where "ps = take IRC_MAX_PARAMS (filter (\<lambda>p. p \<noteq> []) (tl raw))"
  have nm: "no_marker body"
    by (auto simp: body_def no_marker_def split: option.splits dest: split_str_colon_SomeD)
  have sp: "(case split_str '' :'' line of None \<Rightarrow> (line, None) | Some (a, b) \<Rightarrow> (a, Some b)) = (body, tr)"
    by (auto simp: body_def tr_def split: option.split)
  obtain cmd rest where raw: "raw = cmd # rest"
    unfolding raw_def by (cases "split_raw 299 body") auto
  then have sr: "split_raw 299 body = cmd # rest" by (simp add: raw_def)
  have psr: "take IRC_MAX_PARAMS (filter (\<lambda>p. p \<noteq> []) rest) = ps" by (simp add: ps_def raw)
  let ?m = "\<lparr>msg_tags = tags, msg_prefix = pfx, msg_command = map c_toupper cmd,
       msg_params = (case tr of None \<Rightarrow> ps | Some t \<Rightarrow> if length ps < IRC_MAX_PARAMS then ps @ [t] else ps)\<rparr>"
  have eq: "parse_words tags pfx line =
      (if length raw = 300 \<and> SP \<in> set (last raw) then None else if cmd = [] then None else Some ?m)"
    unfolding parse_words_def sp raw psr [symmetric] by (simp add: Let_def MAX_RAW_TOKENS_def sr)
  from assms have ok: "\<not> (length raw = 300 \<and> SP \<in> set (last raw))" "cmd \<noteq> []" and m: "m = ?m"
    unfolding eq by (auto split: if_splits)
  have nosp: "SP \<notin> set w" if "w \<in> set raw" for w
    using split_raw_no_space [of w 299 body] that ok(1) unfolding raw_def by simp
  have "p \<in> set (filter (\<lambda>p. p \<noteq> []) (tl raw))" if "p \<in> set ps" for p
    using that by (auto simp: ps_def dest: in_set_takeD)
  then have mid: "mid_shape p" if "p \<in> set ps" for p
    using that nosp split_raw_no_colon [OF nm, of p 299]
    by (auto simp: mid_shape_def raw_def dest: in_set_tl)
  have "raw \<noteq> []" by (simp add: raw_def)
  then have cmd: "SP \<notin> set (map c_toupper cmd)"
  proof -
    have "c_toupper x \<noteq> SP" if "x \<in> set cmd" for x
      using nosp [of cmd] that by (auto simp: raw ctype_simps)
    then show ?thesis by force
  qed
  have len: "length ps \<le> IRC_MAX_PARAMS" by (simp add: ps_def)
  have "list_all mid_shape (butlast (msg_params m))"
    using mid by (auto simp: m list_all_iff butlast_append split: option.splits dest: in_set_butlastD)
  with ok cmd len show ?thesis
    by (auto simp: m split: option.splits)
qed

lemma parse_tag_section_bound:
  "parse_tag_section line = Some (tags, rest) \<Longrightarrow> length tags \<le> IRC_MAX_TAGS"
  by (auto simp: parse_tag_section_def Let_def split: if_splits option.splits)

section \<open>The server-time tag\<close>

text \<open>
  \<open>irc_time_tag_insert\<close>: what to insert and where, \<open>None\<close> where the C function returns 0.
  \<open>ts\<close> is the current time as \<open>irc_iso8601_now\<close> prints it (24 bytes, so the tag always
  fits the 48-byte buffer of the callers).
\<close>

function section_has_time :: "string \<Rightarrow> bool" where
  "section_has_time t =
     (if t = [] then False
      else if starts_with ''time'' t \<and> (length t = 4 \<or> t ! 4 = CHR ''='' \<or> t ! 4 = CHR '';'') then True
      else case split_chr CHR '';'' t of None \<Rightarrow> False | Some (a, r) \<Rightarrow> section_has_time r)"
  by pat_completeness auto
termination
  by (relation "measure length") (auto dest: split_chr_length)

declare section_has_time.simps [simp del]

definition irc_time_tag_insert :: "string \<Rightarrow> string \<Rightarrow> (string \<times> nat) option" where
  "irc_time_tag_insert ts line =
     (if take 1 line \<noteq> ''@'' then Some (''@time='' @ ts @ '' '', 0)
      else case split_chr SP line of
        None \<Rightarrow> None
      | Some (sec, rest) \<Rightarrow>
          if section_has_time (drop 1 sec) then None
          else Some ('';time='' @ ts, length sec))"

definition irc_add_time_tag :: "nat \<Rightarrow> string \<Rightarrow> string \<Rightarrow> string" where
  "irc_add_time_tag linesz ts line =
     (case irc_time_tag_insert ts line of
        None \<Rightarrow> line
      | Some (tag, at) \<Rightarrow>
          if length line + length tag \<ge> linesz then line
          else take at line @ tag @ drop at line)"

lemma section_has_time_snoc:
  "section_has_time t \<Longrightarrow> section_has_time (s @ CHR '';'' # t)"
proof (induction s rule: section_has_time.induct)
  case (1 s)
  show ?case
  proof (cases "split_chr CHR '';'' s")
    case None
    then have "split_chr CHR '';'' (s @ CHR '';'' # t) = Some (s, t)"
      by (simp add: split_chr_None_iff)
    with "1.prems" show ?thesis by (subst section_has_time.simps) simp
  next
    case (Some ab)
    then obtain a b where ab: "split_chr CHR '';'' s = Some (a, b)" by (cases ab) auto
    then have s: "s = a @ CHR '';'' # b" and na: "CHR '';'' \<notin> set a"
      by (auto dest: split_chr_SomeD)
    from na have sp: "split_chr CHR '';'' (s @ CHR '';'' # t) = Some (a, b @ CHR '';'' # t)"
      by (simp add: s)
    show ?thesis
    proof (cases "section_has_time (b @ CHR '';'' # t)")
      case True
      with sp show ?thesis by (subst section_has_time.simps) (simp add: s)
    next
      case False
      have "s \<noteq> []" by (simp add: s)
      with "1.IH" [OF _ _ ab refl "1.prems"] False
      have "starts_with ''time'' s \<and> (length s = 4 \<or> s ! 4 = CHR ''='' \<or> s ! 4 = CHR '';'')"
        by blast
      with \<open>s \<noteq> []\<close> show ?thesis
        by (subst section_has_time.simps)
           (auto simp: starts_with_def nth_append)
    qed
  qed
qed

lemma section_has_time_self: "section_has_time (''time='' @ ts)"
  by (subst section_has_time.simps) (simp add: starts_with_def)


lemma parse_line_tags:
  assumes "parse_tag_section line = Some (ts, rest)" and "irc_parse_line line = Some m"
  shows "msg_tags m = ts"
  using assms by (auto simp: irc_parse_line_def dest: parse_words_shape split: if_splits bind_splits)

lemma unescape_no_backslash: "BACKSLASH \<notin> set v \<Longrightarrow> unescape_tag_value v = v"
  by (induction v rule: unescape_tag_value.induct) auto

lemma parse_tag_time:
  "list_all (\<lambda>c. c \<noteq> SP \<and> c \<noteq> CHR '';'' \<and> c \<noteq> BACKSLASH) ts \<Longrightarrow> parse_tag (''time='' @ ts) = (''time'', ts)"
  using unescape_no_backslash [of ts] by (auto simp: parse_tag_def list_all_iff)

lemma strtok_time:
  "list_all (\<lambda>c. c \<noteq> SP \<and> c \<noteq> CHR '';'' \<and> c \<noteq> BACKSLASH) ts \<Longrightarrow>
     strtok (\<lambda>c. c = CHR '';'') (''time='' @ ts) = [''time='' @ ts]"
  by (rule strtok_single) (auto simp: list_all_iff)

text \<open>The rest of the line is parsed the same way whatever tags stand before it.\<close>

lemma parse_words_tags:
  "parse_words ts2 pfx l = map_option (\<lambda>m. m\<lparr>msg_tags := ts2\<rparr>) (parse_words ts1 pfx l)"
  by (auto simp: parse_words_def Let_def split: prod.split list.split)

lemma parse_after_tags:
  assumes "parse_tag_section l1 = Some (ts1, rest)" and "parse_tag_section l2 = Some (ts2, rest)"
    and "l1 \<noteq> []" and "l2 \<noteq> []" and "irc_parse_line l1 = Some m"
  shows "irc_parse_line l2 = Some (m\<lparr>msg_tags := ts2\<rparr>)"
proof -
  from assms obtain pfx l where p: "parse_prefix_section rest = Some (pfx, l)" and l: "l \<noteq> []"
    and w: "parse_words ts1 pfx l = Some m"
    by (auto simp: irc_parse_line_def split: bind_splits if_splits)
  from w have "parse_words ts2 pfx l = Some (m\<lparr>msg_tags := ts2\<rparr>)"
    by (simp add: parse_words_tags [of ts2 _ _ ts1])
  with p l assms show ?thesis by (simp add: irc_parse_line_def)
qed

section \<open>Properties\<close>

text \<open>
  C3. The exact result of \<open>irc_build\<close> on every input: it fails exactly when the part that
  must not be cut (everything but the trailing text) does not fit the buffer, and otherwise
  it writes the serialisation of the message cut to \<open>outsz - 1\<close> bytes, so it never writes
  past the buffer.
\<close>

theorem irc_build_exact:
  "irc_build sz ts p c ps t =
    (if length (wire_head ts p c ps @ (if t = None then [] else '' :'')) < sz
     then Some (take (sz - 1) (wire ts p c ps t)) else None)"
proof (cases "sz = 0")
  case True
  then show ?thesis by (simp add: irc_build_def)
next
  case False
  then show ?thesis by (intro irc_build_eq) simp
qed

text \<open>
  C1. A line that \<open>irc_build\<close> made without truncating it is parsed back by
  \<open>irc_parse_line\<close> into the message it was built from, for parameters and a trailing text
  with arbitrary (attacker-chosen) contents: no parameter can add, drop or shift another,
  each arrives as \<open>mid_param\<close> (the defanged parameter), the trailing text without its CR
  and LF bytes.
\<close>

theorem irc_build_parse_roundtrip:
  assumes "list_all wire_tag_ok ts" and "length ts \<le> IRC_MAX_TAGS"
    and "SP \<notin> set (case p of None \<Rightarrow> [] | Some q \<Rightarrow> q)"
    and "wire_command_ok c" and "length ps + (if t = None then 0 else 1) \<le> IRC_MAX_PARAMS"
    and "length (wire ts p c ps t) < sz"
    and "irc_build sz ts p c ps t = Some line"
  shows "irc_parse_line line =
     Some \<lparr>msg_tags = ts, msg_prefix = map_option (irc_escape 1024) p, msg_command = c,
           msg_params = map mid_param ps @ map (irc_escape 1024) (case t of None \<Rightarrow> [] | Some x \<Rightarrow> [x])\<rparr>"
proof -
  have "line = wire ts p c ps t"
    using assms(6,7) irc_build_eq [of sz ts p c ps t] by (auto split: if_splits)
  then show ?thesis using parse_wire [OF assms(1,2) _ assms(4,5)] assms(3) by simp
qed

theorem irc_build_parse_roundtrip_witness:
  "irc_parse_line ''@account=bob :srv PRIVMSG #a_b _x :hi there'' =
     Some \<lparr>msg_tags = [(''account'', ''bob'')], msg_prefix = Some ''srv'', msg_command = ''PRIVMSG'',
           msg_params = [''#a_b'', ''_x'', ''hi there'']\<rparr>"
  using irc_build_parse_roundtrip [of "[(''account'', ''bob'')]" "Some ''srv''" "''PRIVMSG''"
      "[''#a b'', '':x'']" "Some ''hi there''" 512 "''@account=bob :srv PRIVMSG #a_b _x :hi there''"]
  by code_simp

text \<open>
  C2. No line injection: whatever a client manages to get into a prefix, command, parameter,
  tag value or trailing text, the line \<open>irc_build\<close> returns holds no CR and no LF byte, as
  long as the tag keys (chosen by the daemon) hold none; and no NUL, which would end the line early,
  when its arguments are C strings, that is, hold none.
\<close>

theorem irc_build_no_injection:
  assumes "\<forall>kv \<in> set ts. CR \<notin> set (fst kv) \<and> LF \<notin> set (fst kv)"
    and "irc_build sz ts p c ps t = Some line"
  shows "CR \<notin> set line \<and> LF \<notin> set line \<and>
    (c_string c \<and> list_all c_string ps \<and> list_all (\<lambda>(k, v). c_string k \<and> c_string v) ts \<and>
     pred_option c_string p \<and> pred_option c_string t \<longrightarrow> c_string line)"
proof -
  have "0 < sz" using assms(2) by (cases sz) (auto simp: irc_build_def)
  with assms(2) have l: "set line \<subseteq> set (wire ts p c ps t)"
    using set_take_subset by (fastforce simp: irc_build_eq split: if_splits)
  moreover have "CR \<notin> set (wire ts p c ps t)" "LF \<notin> set (wire ts p c ps t)"
    using assms(1) wire_no_crlf [of ts CR] wire_no_crlf [of ts LF] by blast+
  ultimately show ?thesis using wire_no_nul [of c ps ts p t] by (auto simp: c_string_def)
qed

theorem irc_build_no_injection_witness:
  "irc_build 64 [] (Some ''s'') ''QUIT'' [] (Some [CHR ''x'', CR, LF, CHR ''y'']) = Some '':s QUIT :xy'' \<and>
   CR \<notin> set '':s QUIT :xy'' \<and> LF \<notin> set '':s QUIT :xy'' \<and> c_string '':s QUIT :xy''"
proof -
  have b: "irc_build 64 [] (Some ''s'') ''QUIT'' [] (Some [CHR ''x'', CR, LF, CHR ''y'']) = Some '':s QUIT :xy''"
    by (simp add: irc_build_def append_escaped_def append_str_def build_trailing_def)
  with irc_build_no_injection [OF _ b] show ?thesis by (simp add: c_string_def)
qed

text \<open>
  C22. What any client can make the parser return: at most 32 tags and 32 parameters, a
  non-empty command without spaces, and only the last parameter may be empty, contain a
  space or start with a colon.
\<close>

theorem irc_parse_line_shape:
  assumes "irc_parse_line line = Some m"
  shows "length (msg_tags m) \<le> IRC_MAX_TAGS \<and> length (msg_params m) \<le> IRC_MAX_PARAMS \<and>
     msg_command m \<noteq> [] \<and> SP \<notin> set (msg_command m) \<and> list_all mid_shape (butlast (msg_params m))"
proof -
  from assms obtain ts l1 p l2 where 1: "parse_tag_section line = Some (ts, l1)"
    and 2: "parse_words ts p l2 = Some m"
    by (auto simp: irc_parse_line_def split: if_splits bind_splits)
  from parse_words_shape [OF 2] parse_tag_section_bound [OF 1] show ?thesis by auto
qed

theorem irc_parse_line_shape_witness:
  "irc_parse_line ''@a=b :n!u@h privmsg  #c :: x'' =
     Some \<lparr>msg_tags = [(''a'', ''b'')], msg_prefix = Some ''n!u@h'', msg_command = ''PRIVMSG'',
           msg_params = [''#c'', '': x'']\<rparr> \<and> list_all mid_shape (butlast [''#c'', '': x''])"
proof -
  have p: "irc_parse_line ''@a=b :n!u@h privmsg  #c :: x'' =
     Some \<lparr>msg_tags = [(''a'', ''b'')], msg_prefix = Some ''n!u@h'', msg_command = ''PRIVMSG'',
           msg_params = [''#c'', '': x'']\<rparr>"
    by code_simp
  from irc_parse_line_shape [OF p] p show ?thesis by simp
qed

text \<open>
  Adding the server-time tag to a line that carries none changes nothing but the tags:
  the line still parses, to the same prefix, command and parameters, with the time tag
  behind the tags it had (within the limit of 32).
\<close>

theorem irc_add_time_tag_parse:
  assumes "irc_parse_line line = Some m" and "irc_time_tag_insert ts line = Some (tag, at)"
    and "length line + length tag < linesz"
    and "ts \<noteq> []" and "list_all (\<lambda>c. c \<noteq> SP \<and> c \<noteq> CHR '';'' \<and> c \<noteq> BACKSLASH) ts"
  shows "\<exists>extra. (extra = [(''time'', ts)] \<or> IRC_MAX_TAGS \<le> length (msg_tags m) \<and> extra = []) \<and>
     irc_parse_line (irc_add_time_tag linesz ts line) = Some (m\<lparr>msg_tags := msg_tags m @ extra\<rparr>)"
proof (cases "take 1 line = ''@''")
  case False
  with assms(2,3) have new: "irc_add_time_tag linesz ts line = ''@time='' @ ts @ SP # line"
    by (auto simp: irc_time_tag_insert_def irc_add_time_tag_def)
  have ne: "line \<noteq> []" using assms(1) by (auto simp: irc_parse_line_def)
  have old: "parse_tag_section line = Some ([], line)" using False by (simp add: parse_tag_section_def)
  have "SP \<notin> set ts" using assms(5) by (auto simp: list_all_iff)
  then have sp: "split_chr SP (''@time='' @ ts @ SP # line) = Some (''@time='' @ ts, line)" by simp
  have "parse_tag_section (''@time='' @ ts @ SP # line) = Some ([(''time'', ts)], line)"
    unfolding parse_tag_section_def sp
    using ne strtok_time [OF assms(5)] parse_tag_time [OF assms(5)] by (simp add: wire_limits)
  from parse_after_tags [OF old this ne _ assms(1)] parse_line_tags [OF old assms(1)]
  show ?thesis unfolding new by auto
next
  case True
  with assms(2) obtain sec rest where sp: "split_chr SP line = Some (sec, rest)"
    and tag: "tag = '';time='' @ ts" "at = length sec"
    by (auto simp: irc_time_tag_insert_def split: option.splits if_splits)
  then have line: "line = sec @ SP # rest" and ns: "SP \<notin> set sec" by (auto dest: split_chr_SomeD)
  from True ns obtain sec' where sec: "sec = CHR ''@'' # sec'" by (cases sec) (auto simp: line)
  let ?new = "sec @ '';time='' @ ts @ SP # rest"
  have new: "irc_add_time_tag linesz ts line = ?new"
    using assms(2,3) by (auto simp: irc_add_time_tag_def line tag)
  let ?toks = "strtok (\<lambda>c. c = CHR '';'') sec'"
  have rest: "rest \<noteq> []"
    using assms(1) True sp by (auto simp: irc_parse_line_def parse_tag_section_def Let_def split: if_splits)
  then have old: "parse_tag_section line = Some (map parse_tag (take IRC_MAX_TAGS ?toks), rest)"
    using True sp by (simp add: parse_tag_section_def sec)
  have ntk: "strtok (\<lambda>c. c = CHR '';'') (sec' @ '';time='' @ ts) = ?toks @ [''time='' @ ts]"
    using strtok_time [OF assms(5)] strtok_append [of "\<lambda>c. c = CHR '';''" "CHR '';''" sec' "''time='' @ ts"]
    by simp
  have "SP \<notin> set (sec @ '';time='' @ ts)" using ns assms(5) by (auto simp: list_all_iff)
  then have spn: "split_chr SP ?new = Some (sec @ '';time='' @ ts, rest)"
    using split_chr_append [of SP "sec @ '';time='' @ ts" rest] by simp
  have newp: "parse_tag_section ?new =
      Some (map parse_tag (take IRC_MAX_TAGS (?toks @ [''time='' @ ts])), rest)"
    unfolding parse_tag_section_def spn using rest ntk by (simp add: sec)
  have m: "msg_tags m = map parse_tag (take IRC_MAX_TAGS ?toks)" by (rule parse_line_tags [OF old assms(1)])
  have "irc_parse_line ?new = Some (m\<lparr>msg_tags := map parse_tag (take IRC_MAX_TAGS (?toks @ [''time='' @ ts]))\<rparr>)"
    using parse_after_tags [OF old newp _ _ assms(1)] by (simp add: line sec)
  moreover have "map parse_tag (take IRC_MAX_TAGS (?toks @ [''time='' @ ts])) =
      msg_tags m @ (if length ?toks < IRC_MAX_TAGS then [(''time'', ts)] else [])"
    using parse_tag_time [OF assms(5)] by (simp add: m take_Cons' split: if_split)
  moreover have "length ?toks < IRC_MAX_TAGS \<or> IRC_MAX_TAGS \<le> length (msg_tags m)"
    by (auto simp: m)
  ultimately show ?thesis unfolding new by (auto split: if_splits)
qed

theorem irc_add_time_tag_parse_witness:
  "\<exists>extra. (extra = [(''time'', ''T'')] \<or> IRC_MAX_TAGS \<le> length [(''a'', ''b'')] \<and> extra = []) \<and>
     irc_parse_line (irc_add_time_tag 512 ''T'' ''@a=b PING :x'') =
       Some \<lparr>msg_tags = [(''a'', ''b'')] @ extra, msg_prefix = None, msg_command = ''PING'', msg_params = [''x'']\<rparr>"
proof -
  have p: "irc_parse_line ''@a=b PING :x'' =
      Some \<lparr>msg_tags = [(''a'', ''b'')], msg_prefix = None, msg_command = ''PING'', msg_params = [''x'']\<rparr>"
    by code_simp
  have i: "irc_time_tag_insert ''T'' ''@a=b PING :x'' = Some ('';time=T'', 4)" by code_simp
  from irc_add_time_tag_parse [OF p i, of 512] show ?thesis by simp
qed

text \<open>
  The tag is added at most once: a second pass over the result is the identity.
\<close>

theorem irc_add_time_tag_idem:
  assumes "irc_add_time_tag n1 ts1 line \<noteq> line" and ns: "SP \<notin> set ts1"
  shows "irc_add_time_tag n2 ts2 (irc_add_time_tag n1 ts1 line) = irc_add_time_tag n1 ts1 line"
proof -
  from assms obtain tag at where i: "irc_time_tag_insert ts1 line = Some (tag, at)"
    and new: "irc_add_time_tag n1 ts1 line = take at line @ tag @ drop at line"
    by (auto simp: irc_add_time_tag_def split: option.splits if_splits prod.splits)
  have "irc_time_tag_insert ts2 (take at line @ tag @ drop at line) = None"
  proof (cases "take 1 line = ''@''")
    case False
    with i have *: "take at line @ tag @ drop at line = (''@time='' @ ts1) @ SP # line"
      by (simp add: irc_time_tag_insert_def)
    have "split_chr SP ((''@time='' @ ts1) @ SP # line) = Some (''@time='' @ ts1, line)"
      using ns by (intro split_chr_append) simp
    then show ?thesis unfolding * by (simp add: irc_time_tag_insert_def section_has_time_self [simplified])
  next
    case True
    with i obtain sec rest where sp: "split_chr SP line = Some (sec, rest)"
      and tag: "tag = '';time='' @ ts1" "at = length sec"
      by (auto simp: irc_time_tag_insert_def split: option.splits if_splits)
    then have line: "line = sec @ SP # rest" and nsec: "SP \<notin> set sec" by (auto dest: split_chr_SomeD)
    from True nsec obtain sec' where sec: "sec = CHR ''@'' # sec'" by (cases sec) (auto simp: line)
    have "split_chr SP ((sec @ '';time='' @ ts1) @ SP # rest) = Some (sec @ '';time='' @ ts1, rest)"
      using ns nsec by (intro split_chr_append) simp
    then show ?thesis
      using section_has_time_snoc [OF section_has_time_self, of sec' ts1]
      by (simp add: line tag sec irc_time_tag_insert_def)
  qed
  then show ?thesis unfolding new by (simp add: irc_add_time_tag_def)
qed

theorem irc_add_time_tag_idem_witness:
  "irc_add_time_tag 99 ''U'' (irc_add_time_tag 99 ''T'' ''@a :s PING'') = ''@a;time=T :s PING''"
proof -
  have a: "irc_add_time_tag 99 ''T'' ''@a :s PING'' = ''@a;time=T :s PING''" by code_simp
  from irc_add_time_tag_idem [of 99 "''T''" "''@a :s PING''" 99 "''U''"] show ?thesis
    by (simp add: a)
qed

end
