(* ===== verification/Names.thy ===== *)
theory Names
  imports Wire
begin

text \<open>
  The validators and text helpers of src/src/proto.c: nick, user, channel and host names,
  ASCII case folding, the visible tail of a partly masked host, strict UTF-8 and the JSON
  string writer. The lemmas show that every valid name survives the wire as a middle
  parameter, that folding is the equality of the name indexes, that the UTF-8 checker
  accepts exactly the encodings of Unicode scalar values, and that a written JSON string
  reads back.
\<close>

unbundle bit_operations_syntax

section \<open>Names\<close>

definition is_nick_special :: "char \<Rightarrow> bool" where
  "is_nick_special c \<longleftrightarrow> c = BACKSLASH \<or> c = CHR ''^'' \<or> c = CHR ''['' \<or> c = CHR '']'' \<or>
     c = CHR 0x60 \<or> c = CHR ''{'' \<or> c = CHR ''|'' \<or> c = CHR ''_''"

definition irc_valid_nick :: "string \<Rightarrow> int \<Rightarrow> bool" where
  "irc_valid_nick nick max_len =
     (case nick of
        [] \<Rightarrow> False
      | c0 # cs \<Rightarrow>
          \<not> int (length nick) > max_len \<and> (c_isalpha c0 \<or> is_nick_special c0) \<and>
          list_all (\<lambda>c. c_isalnum c \<or> is_nick_special c \<or> c = CHR ''-'') cs)"

definition irc_valid_user :: "string \<Rightarrow> int \<Rightarrow> bool" where
  "irc_valid_user user max_len =
     (case user of
        [] \<Rightarrow> False
      | c0 # cs \<Rightarrow>
          \<not> int (length user) > max_len \<and> (c_isalnum c0 \<or> c0 = CHR ''_'') \<and>
          list_all (\<lambda>c. c_isalnum c \<or> c = CHR ''_'' \<or> c = CHR ''-'') cs)"

definition bad_chan_char :: "char \<Rightarrow> bool" where
  "bad_chan_char c \<longleftrightarrow> byte c \<le> 0x20 \<or> byte c = 0x7f \<or> c = CHR '','' \<or> c = CHR '':'' \<or>
     c = CHR ''*'' \<or> c = CHR ''?'' \<or> c = CHR ''!'' \<or> c = CHR ''@'' \<or> c = BACKSLASH"

definition irc_valid_channel :: "string \<Rightarrow> int \<Rightarrow> bool" where
  "irc_valid_channel chan max_len =
     (case chan of
        [] \<Rightarrow> False
      | c0 # cs \<Rightarrow>
          \<not> int (length chan) > max_len \<and> c0 = CHR ''#'' \<and>
          \<not> (length chan < 2 \<or> length chan - 1 > 49) \<and> list_all (\<lambda>c. \<not> bad_chan_char c) cs)"

definition irc_valid_host :: "string \<Rightarrow> bool" where
  "irc_valid_host host \<longleftrightarrow>
     \<not> (length host < 1 \<or> length host > 253 \<or> take 1 host = '':'') \<and>
     list_all (\<lambda>c. c_isalnum c \<or> c = CHR ''.'' \<or> c = CHR ''-'' \<or> c = CHR '':'') host"

definition irc_casefold :: "nat \<Rightarrow> string \<Rightarrow> string" where
  "irc_casefold outsz s = map c_tolower (take (outsz - 1) s)"

text \<open>
  \<open>irc_host_tail\<close> walks from the end of the host: \<open>rp\<close> is the reversed part still to look
  at, \<open>suf\<close> the suffix behind it (\<open>host + i\<close>).
\<close>

fun host_tail_loop :: "int \<Rightarrow> int \<Rightarrow> string \<Rightarrow> string \<Rightarrow> string option" where
  "host_tail_loop keep dots [] suf = None"
| "host_tail_loop keep dots (c # rp) suf =
     (if c = CHR ''.'' then
        (if dots + 1 = keep then Some suf else host_tail_loop keep (dots + 1) rp (c # suf))
      else host_tail_loop keep dots rp (c # suf))"

definition irc_host_tail :: "string \<Rightarrow> int \<Rightarrow> nat \<Rightarrow> string" where
  "irc_host_tail host keep_labels outsz =
     clip outsz
       (if keep_labels > 0
        then (case host_tail_loop keep_labels 0 (rev host) [] of None \<Rightarrow> host | Some shown \<Rightarrow> shown)
        else host)"

subsection \<open>Valid names are safe on the wire\<close>

lemma mid_param_id:
  assumes "length s < 512" and "mid_shape s" and "CR \<notin> set s" and "LF \<notin> set s"
  shows "mid_param s = s"
proof -
  have "irc_escape 512 s = s" using assms by (intro irc_escape_id) auto
  moreover have "map (\<lambda>c. if c = SP then CHR ''_'' else c) s = s"
    using assms(2) by (intro map_idI) (auto simp: mid_shape_def)
  ultimately show ?thesis
    using assms(2) by (cases s) (auto simp: mid_param_def mid_shape_def)
qed

lemma wire_safe_name:
  assumes "s \<noteq> []" and "length s < 512" and "take 1 s \<noteq> '':''" and "\<forall>c \<in> set s. 32 < byte c"
  shows "mid_param s = s"
proof (rule mid_param_id)
  have "SP \<notin> set s" "CR \<notin> set s" "LF \<notin> set s" using assms(4) by force+
  with assms show "mid_shape s" "CR \<notin> set s" "LF \<notin> set s" by (auto simp: mid_shape_def)
qed (fact assms(2))

lemma nick_char_graph:
  "c_isalnum c \<or> is_nick_special c \<or> c = CHR ''-'' \<Longrightarrow> 32 < byte c \<and> c \<noteq> CHR '':''"
  by (auto simp: ctype_simps is_nick_special_def)

lemma valid_nick_chars:
  "irc_valid_nick s n \<Longrightarrow> s \<noteq> [] \<and> int (length s) \<le> n \<and>
     (\<forall>c \<in> set s. c_isalnum c \<or> is_nick_special c \<or> c = CHR ''-'')"
  by (auto simp: irc_valid_nick_def list_all_iff c_isalnum_def split: list.splits)

lemma valid_user_chars:
  "irc_valid_user s n \<Longrightarrow> s \<noteq> [] \<and> int (length s) \<le> n \<and>
     (\<forall>c \<in> set s. c_isalnum c \<or> is_nick_special c \<or> c = CHR ''-'')"
proof -
  assume v: "irc_valid_user s n"
  have "is_nick_special CHR ''_''" by (simp add: is_nick_special_def)
  with v show ?thesis by (cases s) (simp_all add: irc_valid_user_def list_all_iff, blast)
qed

lemma valid_channel_chars:
  "irc_valid_channel s n \<Longrightarrow>
     s \<noteq> [] \<and> hd s = CHR ''#'' \<and> length s \<le> 50 \<and> (\<forall>c \<in> set s. \<not> bad_chan_char c)"
  by (auto simp: irc_valid_channel_def list_all_iff bad_chan_char_def split: list.splits)

lemma valid_host_chars:
  "irc_valid_host s \<Longrightarrow> s \<noteq> [] \<and> length s \<le> 253 \<and> take 1 s \<noteq> '':'' \<and> (\<forall>c \<in> set s. 32 < byte c)"
  by (auto simp: irc_valid_host_def list_all_iff ctype_simps)

subsection \<open>Case folding\<close>

lemma irc_casefold_idem: "irc_casefold n (irc_casefold n s) = irc_casefold n s"
  by (simp add: irc_casefold_def take_map comp_def)

lemma irc_casefold_eq_iff:
  "length s < n \<Longrightarrow> length t < n \<Longrightarrow> irc_casefold n s = irc_casefold n t \<longleftrightarrow> strcaseeq s t"
  by (simp add: irc_casefold_def strcaseeq_def)

lemma is_nick_special_tolower: "is_nick_special c \<Longrightarrow> c_tolower c = c"
  by (auto simp: is_nick_special_def c_tolower_def ctype_simps)

lemma c_isalnum_tolower: "c_isalnum c \<Longrightarrow> c_isalnum (c_tolower c)"
  by (auto simp: ctype_simps byte_tolower)

lemma c_isalpha_tolower: "c_isalpha c \<Longrightarrow> c_isalpha (c_tolower c)"
  by (auto simp: ctype_simps byte_tolower)

lemma c_tolower_not_bad: "\<not> bad_chan_char c \<Longrightarrow> \<not> bad_chan_char (c_tolower c)"
  by (auto simp: bad_chan_char_def byte_tolower ctype_simps)

lemma nick_char_tolower:
  assumes "c_isalnum c \<or> is_nick_special c \<or> c = CHR ''-''"
  shows "c_isalnum (c_tolower c) \<or> is_nick_special (c_tolower c) \<or> c_tolower c = CHR ''-''"
proof -
  have "\<not> c_isalpha (CHR ''-'')" by (simp add: ctype_simps)
  with assms show ?thesis using c_isalnum_tolower is_nick_special_tolower by auto
qed

lemma casefold_nick: "irc_valid_nick s n \<Longrightarrow> irc_valid_nick (map c_tolower s) n"
  using nick_char_tolower c_isalpha_tolower is_nick_special_tolower
  by (cases s) (simp_all add: irc_valid_nick_def list_all_iff, metis)

lemma casefold_channel:
  assumes "irc_valid_channel s n"
  shows "irc_valid_channel (map c_tolower s) n"
proof -
  have "\<not> c_isalpha (CHR ''#'')" by (simp add: ctype_simps)
  with assms show ?thesis
    using c_tolower_not_bad by (cases s) (simp_all add: irc_valid_channel_def list_all_iff)
qed

subsection \<open>The host tail\<close>

lemma host_tail_loop_Some:
  assumes "host_tail_loop keep dots rp suf = Some shown" and "dots < keep"
    and "int (count_list suf CHR ''.'') = dots"
  shows "\<exists>a. rev rp @ suf = a @ CHR ''.'' # shown \<and> int (count_list shown CHR ''.'') = keep - 1"
  using assms
proof (induction keep dots rp suf rule: host_tail_loop.induct)
  case (2 keep dots c rp suf)
  show ?case
  proof (cases "c = CHR ''.''")
    case dot: True
    show ?thesis
    proof (cases "dots + 1 = keep")
      case True
      with dot 2 show ?thesis by auto
    next
      case False
      with dot 2 show ?thesis by simp
    qed
  next
    case False
    with 2 show ?thesis by simp
  qed
qed simp

lemma host_tail_loop_None:
  assumes "host_tail_loop keep dots rp suf = None" and "dots < keep"
    and "int (count_list suf CHR ''.'') = dots"
  shows "int (count_list (rev rp @ suf) CHR ''.'') < keep"
  using assms
proof (induction keep dots rp suf rule: host_tail_loop.induct)
  case (2 keep dots c rp suf)
  then show ?case by (auto split: if_splits)
qed simp

section \<open>UTF-8\<close>

text \<open>One lead byte and \<open>n\<close> continuation bytes; the end of the string reads as NUL.\<close>

fun utf8_cont :: "nat \<Rightarrow> nat \<Rightarrow> string \<Rightarrow> (nat \<times> string) option" where
  "utf8_cont 0 cp s = Some (cp, s)"
| "utf8_cont (Suc n) cp [] = None"
| "utf8_cont (Suc n) cp (p # s) =
     (if byte p AND 0xC0 \<noteq> 0x80 then None
      else utf8_cont n (push_bit 6 cp OR (byte p AND 0x3F)) s)"

definition utf8_char :: "char \<Rightarrow> string \<Rightarrow> string option" where
  "utf8_char ch s =
     (let c = byte ch;
          tail = (\<lambda>n mn cp0.
            case utf8_cont n cp0 s of
              None \<Rightarrow> None
            | Some (cp, rest) \<Rightarrow>
                if cp < mn \<or> cp > 0x10FFFF \<or> (cp \<ge> 0xD800 \<and> cp \<le> 0xDFFF) then None else Some rest)
      in if c < 0x80 then Some s
         else if c AND 0xE0 = 0xC0 then tail 1 0x80 (c AND 0x1F)
         else if c AND 0xF0 = 0xE0 then tail 2 0x800 (c AND 0x0F)
         else if c AND 0xF8 = 0xF0 then tail 3 0x10000 (c AND 0x07)
         else None)"

lemma utf8_cont_length: "utf8_cont n cp s = Some (cp', r) \<Longrightarrow> length r \<le> length s"
  by (induction n cp s rule: utf8_cont.induct) (auto split: if_splits)

lemma utf8_char_length: "utf8_char c s = Some r \<Longrightarrow> length r \<le> length s"
  by (auto simp: utf8_char_def Let_def split: if_splits option.splits dest: utf8_cont_length)

function irc_utf8_valid :: "string \<Rightarrow> bool" where
  "irc_utf8_valid [] = True"
| "irc_utf8_valid (c # s) =
     (case utf8_char c s of None \<Rightarrow> False | Some rest \<Rightarrow> irc_utf8_valid rest)"
  by pat_completeness auto
termination
  by (relation "measure length") (auto dest: utf8_char_length)

text \<open>The specification: Unicode scalar values and their encoding (RFC 3629).\<close>

definition scalar :: "nat \<Rightarrow> bool" where
  "scalar cp \<longleftrightarrow> cp < 0xD800 \<or> 0xDFFF < cp \<and> cp \<le> 0x10FFFF"

definition utf8_encode :: "nat \<Rightarrow> nat list" where
  "utf8_encode cp =
     (if cp < 0x80 then [cp]
      else if cp < 0x800 then [0xC0 + cp div 64, 0x80 + cp mod 64]
      else if cp < 0x10000 then [0xE0 + cp div 4096, 0x80 + cp div 64 mod 64, 0x80 + cp mod 64]
      else [0xF0 + cp div 262144, 0x80 + cp div 4096 mod 64, 0x80 + cp div 64 mod 64, 0x80 + cp mod 64])"

subsection \<open>The bit tests as ranges\<close>

lemma and_low_mask: "(c :: nat) AND mask k = c mod 2 ^ k"
  by (simp add: take_bit_eq_mod flip: take_bit_eq_mask)

lemma and_high_mask: "(c :: nat) AND push_bit n (mask k) = (c div 2 ^ n mod 2 ^ k) * 2 ^ n"
proof -
  have "c AND push_bit n (mask k) = push_bit n (drop_bit n c AND mask k)"
    by (rule bit_eqI) (auto simp: bit_simps)
  then show ?thesis
    by (simp add: and_low_mask push_bit_eq_mult drop_bit_eq_div)
qed

lemma low_bits: "(c :: nat) AND 0x1F = c mod 32" "c AND 0x0F = c mod 16" "c AND 0x07 = c mod 8"
  "c AND 0x3F = c mod 64"
  using and_low_mask [of c 5] and_low_mask [of c 4] and_low_mask [of c 3] and_low_mask [of c 6]
  by (simp_all add: mask_eq_exp_minus_1)

lemma div_eq_range: "0 < m \<Longrightarrow> (c :: nat) div m = q \<longleftrightarrow> q * m \<le> c \<and> c < Suc q * m"
  by (metis div_less_iff_less_mult less_eq_div_iff_mult_less_eq le_antisym less_Suc_eq_le order_refl)

lemma byte_tests:
  assumes "c < (256 :: nat)"
  shows "c AND 0xE0 = 0xC0 \<longleftrightarrow> 192 \<le> c \<and> c < 224" "c AND 0xF0 = 0xE0 \<longleftrightarrow> 224 \<le> c \<and> c < 240"
    "c AND 0xF8 = 0xF0 \<longleftrightarrow> 240 \<le> c \<and> c < 248" "c AND 0xC0 = 0x80 \<longleftrightarrow> 128 \<le> c \<and> c < 192"
proof -
  have "c AND 0xE0 = c div 32 mod 8 * 32" "c AND 0xF0 = c div 16 mod 16 * 16"
    "c AND 0xF8 = c div 8 mod 32 * 8" "c AND 0xC0 = c div 64 mod 4 * 64"
    using and_high_mask [of c 5 3] and_high_mask [of c 4 4] and_high_mask [of c 3 5] and_high_mask [of c 6 2]
    by (simp_all add: mask_eq_exp_minus_1 push_bit_eq_mult)
  moreover have "c div 32 < 8" "c div 16 < 16" "c div 8 < 32" "c div 64 < 4" using assms by simp_all
  ultimately show "c AND 0xE0 = 0xC0 \<longleftrightarrow> 192 \<le> c \<and> c < 224" "c AND 0xF0 = 0xE0 \<longleftrightarrow> 224 \<le> c \<and> c < 240"
    "c AND 0xF8 = 0xF0 \<longleftrightarrow> 240 \<le> c \<and> c < 248" "c AND 0xC0 = 0x80 \<longleftrightarrow> 128 \<le> c \<and> c < 192"
    by (simp_all add: div_eq_range)
qed

lemma shift_in: "push_bit 6 cp OR (p AND 0x3F) = cp * 64 + (p :: nat) mod 64"
proof -
  have "push_bit 6 cp OR take_bit 6 p = push_bit 6 cp + take_bit 6 p"
    by (rule disjunctive_add [symmetric]) (auto simp: bit_simps)
  then show ?thesis by (simp add: low_bits push_bit_eq_mult take_bit_eq_mod)
qed


subsection \<open>One character at a time\<close>

lemma cont_payload: "128 \<le> n \<Longrightarrow> n < 192 \<Longrightarrow> (n :: nat) mod 64 = n - 128"
  by (rule mod_nat_eqI) auto

lemma lead_payload:
  "192 \<le> n \<Longrightarrow> n < 224 \<Longrightarrow> (n :: nat) mod 32 = n - 192"
  "224 \<le> n \<Longrightarrow> n < 240 \<Longrightarrow> (n :: nat) mod 16 = n - 224"
  "240 \<le> n \<Longrightarrow> n < 248 \<Longrightarrow> (n :: nat) mod 8 = n - 240"
  by (rule mod_nat_eqI; auto)+

lemma utf8_cont_Suc:
  "utf8_cont (Suc n) cp s = (case s of [] \<Rightarrow> None
     | p # s' \<Rightarrow> if 128 \<le> byte p \<and> byte p < 192 then utf8_cont n (cp * 64 + (byte p - 128)) s' else None)"
  by (cases s) (simp_all add: byte_tests shift_in cont_payload)

lemma utf8_char_eq:
  "utf8_char ch s =
     (let c = byte ch;
          tail = (\<lambda>n mn cp0.
            case utf8_cont n cp0 s of
              None \<Rightarrow> None
            | Some (cp, rest) \<Rightarrow> if mn \<le> cp \<and> scalar cp then Some rest else None)
      in if c < 128 then Some s
         else if 192 \<le> c \<and> c < 224 then tail (Suc 0) 128 (c - 192)
         else if 224 \<le> c \<and> c < 240 then tail (Suc (Suc 0)) 2048 (c - 224)
         else if 240 \<le> c \<and> c < 248 then tail (Suc (Suc (Suc 0))) 65536 (c - 240)
         else None)"
proof -
  have sc: "cp < mn \<or> cp > 0x10FFFF \<or> (cp \<ge> 0xD800 \<and> cp \<le> 0xDFFF) \<longleftrightarrow> \<not> (mn \<le> cp \<and> scalar cp)" for cp mn
    by (auto simp: scalar_def)
  show ?thesis
    unfolding utf8_char_def Let_def byte_tests [OF nat_of_char_less_256] low_bits sc
    by (auto simp: lead_payload numeral_2_eq_2 numeral_3_eq_3 split: option.split)
qed

lemma digit64: "d < 64 \<Longrightarrow> (x * 64 + d) div 64 = x" "d < 64 \<Longrightarrow> (x * 64 + d) mod 64 = (d :: nat)"
  by simp_all

lemma utf8_char_sound:
  assumes "utf8_char ch s = Some rest"
  shows "\<exists>cp. scalar cp \<and> map byte (ch # s) = utf8_encode cp @ map byte rest"
proof -
  consider (one) "byte ch < 128" | (two) "192 \<le> byte ch" "byte ch < 224"
    | (three) "224 \<le> byte ch" "byte ch < 240" | (four) "240 \<le> byte ch" "byte ch < 248"
    using assms by (auto simp: utf8_char_eq Let_def split: if_splits)
  then show ?thesis
  proof cases
    case one
    with assms show ?thesis
      by (intro exI [of _ "byte ch"]) (auto simp: utf8_char_eq scalar_def utf8_encode_def)
  next
    case two
    define a where "a = byte ch - 192"
    have a: "byte ch = 192 + a" "a < 32" using two by (simp_all add: a_def)
    from two assms obtain p where s: "s = p # rest" and p: "128 \<le> byte p" "byte p < 192"
      and cp: "128 \<le> a * 64 + (byte p - 128)" "scalar (a * 64 + (byte p - 128))"
      by (auto simp: utf8_char_eq utf8_cont_Suc a_def Let_def split: if_splits list.splits)
    define b where "b = byte p - 128"
    have b: "byte p = 128 + b" "b < 64" using p by (simp_all add: b_def)
    have "utf8_encode (a * 64 + b) = [192 + a, 128 + b]"
      using cp a b by (simp add: utf8_encode_def)
    with a b cp s show ?thesis by (intro exI [of _ "a * 64 + b"]) simp
  next
    case three
    define a where "a = byte ch - 224"
    have a: "byte ch = 224 + a" "a < 16" using three by (simp_all add: a_def)
    from three assms obtain p q where s: "s = p # q # rest" and p: "128 \<le> byte p" "byte p < 192"
      and q: "128 \<le> byte q" "byte q < 192"
      and cp: "2048 \<le> (a * 64 + (byte p - 128)) * 64 + (byte q - 128)"
         "scalar ((a * 64 + (byte p - 128)) * 64 + (byte q - 128))"
      by (auto simp: utf8_char_eq utf8_cont_Suc a_def Let_def split: if_splits list.splits)
    define b where "b = byte p - 128"
    define d where "d = byte q - 128"
    have b: "byte p = 128 + b" "b < 64" and d: "byte q = 128 + d" "d < 64"
      using p q by (simp_all add: b_def d_def)
    let ?cp = "(a * 64 + b) * 64 + d"
    have 1: "?cp div 64 = a * 64 + b" "?cp mod 64 = d" using digit64 [OF d(2)] by blast+
    moreover have "?cp div 4096 = a" using div_mult2_eq [of ?cp 64 64] b unfolding 1 by simp
    moreover have "?cp div 64 mod 64 = b" using b unfolding 1 by simp
    moreover have "2048 \<le> ?cp" "?cp < 65536" using cp a b d by simp_all
    ultimately have "utf8_encode ?cp = [224 + a, 128 + b, 128 + d]"
      unfolding utf8_encode_def by simp
    with a b d cp s show ?thesis by (intro exI [of _ ?cp]) simp
  next
    case four
    define a where "a = byte ch - 240"
    have a: "byte ch = 240 + a" "a < 8" using four by (simp_all add: a_def)
    from four assms obtain p q r where s: "s = p # q # r # rest" and p: "128 \<le> byte p" "byte p < 192"
      and q: "128 \<le> byte q" "byte q < 192" and r: "128 \<le> byte r" "byte r < 192"
      and cp: "65536 \<le> ((a * 64 + (byte p - 128)) * 64 + (byte q - 128)) * 64 + (byte r - 128)"
         "scalar (((a * 64 + (byte p - 128)) * 64 + (byte q - 128)) * 64 + (byte r - 128))"
      by (auto simp: utf8_char_eq utf8_cont_Suc a_def Let_def split: if_splits list.splits)
    define b where "b = byte p - 128"
    define d where "d = byte q - 128"
    define e where "e = byte r - 128"
    have b: "byte p = 128 + b" "b < 64" and d: "byte q = 128 + d" "d < 64" and e: "byte r = 128 + e" "e < 64"
      using p q r by (simp_all add: b_def d_def e_def)
    let ?cp = "((a * 64 + b) * 64 + d) * 64 + e"
    have 1: "?cp div 64 = (a * 64 + b) * 64 + d" "?cp mod 64 = e" using digit64 [OF e(2)] by blast+
    have 2: "((a * 64 + b) * 64 + d) div 64 = a * 64 + b" "((a * 64 + b) * 64 + d) mod 64 = d"
      using digit64 [OF d(2)] by blast+
    have 3: "?cp div 4096 = a * 64 + b" using div_mult2_eq [of ?cp 64 64] unfolding 1 2 by simp
    have "?cp div 262144 = a" using div_mult2_eq [of ?cp 4096 64] b unfolding 3 by simp
    then have "?cp div 262144 = a" "?cp div 4096 mod 64 = b" "?cp div 64 mod 64 = d" "?cp mod 64 = e"
      unfolding 3 unfolding 1 2 using b by simp_all
    moreover have "65536 \<le> ?cp" using cp a b d e by simp
    ultimately have "utf8_encode ?cp = [240 + a, 128 + b, 128 + d, 128 + e]"
      unfolding utf8_encode_def by simp
    with a b d e cp s show ?thesis by (intro exI [of _ ?cp]) simp
  qed
qed

lemma utf8_char_complete:
  assumes "scalar cp" and "map byte (ch # s) = utf8_encode cp @ map byte rest"
  shows "utf8_char ch s = Some rest"
proof -
  have inj: "map byte x = map byte y \<Longrightarrow> x = y" for x y
    using injD [OF inj_mapI [OF inj_of_char [where 'a = nat]]] by blast
  consider (one) "cp < 128" | (two) "128 \<le> cp" "cp < 2048" | (three) "2048 \<le> cp" "cp < 65536"
    | (four) "65536 \<le> cp" "cp \<le> 0x10FFFF"
    using assms(1)
    by (cases "cp < 128"; cases "cp < 2048"; cases "cp < 65536") (auto simp: scalar_def not_less)
  then show ?thesis
  proof cases
    case one
    with assms show ?thesis by (auto simp: utf8_encode_def utf8_char_eq dest: inj)
  next
    case two
    with assms obtain p s' where s: "s = p # s'" and c: "byte ch = 192 + cp div 64"
      and p: "byte p = 128 + cp mod 64" and r: "map byte s' = map byte rest"
      by (auto simp: utf8_encode_def)
    have "cp div 64 * 64 + cp mod 64 = cp" "cp div 64 < 32" using two by simp_all
    with two assms(1) s c p inj [OF r] show ?thesis by (simp add: utf8_char_eq utf8_cont_Suc Let_def)
  next
    case three
    with assms obtain p q s' where s: "s = p # q # s'" and c: "byte ch = 224 + cp div 4096"
      and p: "byte p = 128 + cp div 64 mod 64" "byte q = 128 + cp mod 64" and r: "map byte s' = map byte rest"
      by (auto simp: utf8_encode_def)
    have "(cp div 4096 * 64 + cp div 64 mod 64) * 64 + cp mod 64 = cp" "cp div 4096 < 16"
      using three div_mult_mod_eq [of cp 64] div_mult_mod_eq [of "cp div 64" 64] div_mult2_eq [of cp 64 64]
      by simp_all
    with three assms(1) s c p inj [OF r] show ?thesis by (simp add: utf8_char_eq utf8_cont_Suc Let_def)
  next
    case four
    with assms obtain p q t s' where s: "s = p # q # t # s'" and c: "byte ch = 240 + cp div 262144"
      and p: "byte p = 128 + cp div 4096 mod 64" "byte q = 128 + cp div 64 mod 64" "byte t = 128 + cp mod 64"
      and r: "map byte s' = map byte rest"
      by (auto simp: utf8_encode_def)
    have "((cp div 262144 * 64 + cp div 4096 mod 64) * 64 + cp div 64 mod 64) * 64 + cp mod 64 = cp"
      using div_mult_mod_eq [of cp 64] div_mult_mod_eq [of "cp div 64" 64]
        div_mult_mod_eq [of "cp div 4096" 64] div_mult2_eq [of cp 64 64] div_mult2_eq [of cp 4096 64]
      by simp
    moreover have "cp div 262144 < 8" using four by simp
    ultimately show ?thesis using four assms(1) s c p inj [OF r] by (simp add: utf8_char_eq utf8_cont_Suc Let_def)
  qed
qed

lemma utf8_encode_nonempty [simp]: "utf8_encode cp \<noteq> []"
  by (simp add: utf8_encode_def)

section \<open>JSON strings\<close>

definition hex_digit :: "nat \<Rightarrow> char" where
  "hex_digit n = ''0123456789abcdef'' ! n"

definition json_escape_char :: "char \<Rightarrow> string" where
  "json_escape_char c =
     (if c = CHR 0x22 then [BACKSLASH, CHR 0x22]
      else if c = BACKSLASH then [BACKSLASH, BACKSLASH]
      else if c = LF then [BACKSLASH, CHR ''n'']
      else if c = CR then [BACKSLASH, CHR ''r'']
      else if c = CHR 0x09 then [BACKSLASH, CHR ''t'']
      else if byte c < 0x20
        then BACKSLASH # CHR ''u'' # ''00'' @ [hex_digit (byte c div 16), hex_digit (byte c mod 16)]
      else [c])"

definition json_put_string :: "string \<Rightarrow> string" where
  "json_put_string s = CHR 0x22 # concat (map json_escape_char s) @ [CHR 0x22]"

text \<open>The reader of RFC 8259 string literals, for the escapes of one-byte code points.\<close>

definition hex_value :: "char \<Rightarrow> nat option" where
  "hex_value c = (if c_isdigit c then Some (byte c - 48)
     else if 97 \<le> byte c \<and> byte c \<le> 102 then Some (byte c - 87)
     else if 65 \<le> byte c \<and> byte c \<le> 70 then Some (byte c - 55) else None)"

fun json_read_body :: "nat \<Rightarrow> string \<Rightarrow> (string \<times> string) option" where
  "json_read_body 0 s = None"
| "json_read_body (Suc n) [] = None"
| "json_read_body (Suc n) (c # s) =
     (if c = CHR 0x22 then Some ([], s)
      else if byte c < 0x20 then None
      else if c \<noteq> BACKSLASH then map_option (apfst ((#) c)) (json_read_body n s)
      else case s of
        [] \<Rightarrow> None
      | e # s1 \<Rightarrow>
          if e = CHR ''u'' then
            (case s1 of
               a # b # x # y # s2 \<Rightarrow>
                 (case (hex_value a, hex_value b, hex_value x, hex_value y) of
                    (Some 0, Some 0, Some h, Some l) \<Rightarrow>
                      map_option (apfst ((#) (char_of (16 * h + l)))) (json_read_body n s2)
                  | _ \<Rightarrow> None)
             | _ \<Rightarrow> None)
          else
            (case map_of [(CHR 0x22, CHR 0x22), (BACKSLASH, BACKSLASH), (CHR ''n'', LF),
                          (CHR ''r'', CR), (CHR ''t'', CHR 0x09)] e of
               None \<Rightarrow> None
             | Some d \<Rightarrow> map_option (apfst ((#) d)) (json_read_body n s1)))"

definition json_read_string :: "string \<Rightarrow> (string \<times> string) option" where
  "json_read_string s = (case s of [] \<Rightarrow> None
     | c # r \<Rightarrow> if c = CHR 0x22 then json_read_body (length r) r else None)"

lemma json_read_char:
  "json_read_body (Suc n) (json_escape_char c @ s) = map_option (apfst ((#) c)) (json_read_body n s)"
proof -
  have h: "hex_value (hex_digit k) = Some k" if "k < 16" for k
  proof -
    from that have "k \<in> set [0..<16]" by simp
    moreover have "list_all (\<lambda>k. hex_value (hex_digit k) = Some k) [0..<16]" by code_simp
    ultimately show ?thesis by (simp only: list_all_iff)
  qed
  have z: "hex_value CHR ''0'' = Some 0" by (simp add: hex_value_def ctype_simps)
  have m: "16 * (byte c div 16) + byte c mod 16 = byte c" by simp
  have "\<not> byte c < 32" if "c \<in> {CHR 0x22, BACKSLASH}" using that by auto
  then show ?thesis
    using h [of "byte c div 16"] h [of "byte c mod 16"] z m
    by (auto simp: json_escape_char_def)
qed

lemma json_read_concat:
  "length s < n \<Longrightarrow>
     json_read_body n (concat (map json_escape_char s) @ CHR 0x22 # rest) = Some (s, rest)"
proof (induction s arbitrary: n)
  case Nil
  then show ?case by (cases n) auto
next
  case (Cons c s)
  then obtain m where n: "n = Suc m" "length s < m" by (cases n) auto
  with Cons.IH [of m] show ?case by (simp add: json_read_char)
qed


section \<open>Properties\<close>

text \<open>
  Every name that a validator accepts goes out on the wire unchanged when it is used as
  a middle parameter: the defanging of \<open>irc_build\<close> (empty, space, leading colon, CR, LF,
  over-long) never applies to a valid nick, user, channel or host.
\<close>

theorem valid_names_wire_safe:
  assumes "irc_valid_channel s n \<or> irc_valid_host s \<or> (irc_valid_nick s n \<or> irc_valid_user s n) \<and> n < 512"
  shows "mid_param s = s"
proof -
  have name: ?thesis if "s \<noteq> [] \<and> int (length s) \<le> n \<and>
      (\<forall>c \<in> set s. c_isalnum c \<or> is_nick_special c \<or> c = CHR ''-'')" "n < 512"
  proof (rule wire_safe_name)
    have g: "\<forall>c \<in> set s. 32 < byte c \<and> c \<noteq> CHR '':''" using that(1) nick_char_graph by blast
    then show "\<forall>c \<in> set s. 32 < byte c" by blast
    from g show "take 1 s \<noteq> '':''" by (cases s) auto
  qed (use that in auto)
  have chan: ?thesis if "irc_valid_channel s n"
  proof (rule wire_safe_name)
    have "32 < byte c \<and> c \<noteq> CHR '':''" if "\<not> bad_chan_char c" for c
      using that unfolding bad_chan_char_def by linarith
    with valid_channel_chars [OF that] have g: "\<forall>c \<in> set s. 32 < byte c \<and> c \<noteq> CHR '':''" by blast
    then show "\<forall>c \<in> set s. 32 < byte c" by blast
    from g show "take 1 s \<noteq> '':''" by (cases s) auto
  qed (use valid_channel_chars [OF that] in auto)
  have host: ?thesis if "irc_valid_host s"
    using valid_host_chars [OF that] by (intro wire_safe_name) auto
  from assms show ?thesis
    using name chan host valid_nick_chars [of s n] valid_user_chars [of s n] by (elim disjE conjE) simp_all
qed

theorem valid_names_wire_safe_witness:
  "irc_valid_channel ''#chan.b~x'' 50 \<and> mid_param ''#chan.b~x'' = ''#chan.b~x''"
proof -
  have "irc_valid_channel ''#chan.b~x'' 50" by code_simp
  with valid_names_wire_safe [of "''#chan.b~x''" 50] show ?thesis by blast
qed

text \<open>
  Case folding is compatible with validity and idempotent, so the casefolded name a
  client or channel is indexed under is itself a valid name and folds to itself.
\<close>

theorem casefold_valid:
  assumes "irc_valid_nick s n \<or> irc_valid_channel s n" and "length s < sz"
  shows "(irc_valid_nick s n \<longrightarrow> irc_valid_nick (irc_casefold sz s) n) \<and>
         (irc_valid_channel s n \<longrightarrow> irc_valid_channel (irc_casefold sz s) n) \<and>
         irc_casefold sz (irc_casefold sz s) = irc_casefold sz s"
proof -
  have f: "irc_casefold sz s = map c_tolower s" using assms(2) by (simp add: irc_casefold_def)
  show ?thesis
    using casefold_nick casefold_channel irc_casefold_idem [of sz s] unfolding f by blast
qed

theorem casefold_valid_witness:
  "irc_valid_nick ''Guest[1]'' 30 \<and> irc_valid_nick (irc_casefold 64 ''Guest[1]'') 30"
proof -
  have "irc_valid_nick ''Guest[1]'' 30" by code_simp
  with casefold_valid [of "''Guest[1]''" 30 64] show ?thesis by simp
qed

text \<open>
  The visible remainder of a partly masked host shows at most \<open>keep_labels\<close> labels
  (fewer than \<open>keep_labels\<close> dots) and is always an end of the real host.
\<close>

theorem host_tail_hides:
  assumes "0 < keep" and "length host < sz"
  shows "int (count_list (irc_host_tail host keep sz) CHR ''.'') < keep \<and>
     suffix (irc_host_tail host keep sz) host"
proof (cases "host_tail_loop keep 0 (rev host) []")
  case None
  with host_tail_loop_None [OF None] assms show ?thesis by (simp add: irc_host_tail_def)
next
  case (Some shown)
  from host_tail_loop_Some [OF Some] assms(1) obtain a
    where a: "host = a @ CHR ''.'' # shown" "int (count_list shown CHR ''.'') = keep - 1" by auto
  with assms have "length shown < sz" by simp
  with Some assms a show ?thesis by (auto simp: irc_host_tail_def suffix_def)
qed

theorem host_tail_hides_witness:
  "irc_host_tail ''dsl-host.dyn.orange.es'' 2 256 = ''orange.es'' \<and>
   int (count_list ''orange.es'' CHR ''.'') < 2 \<and> suffix ''orange.es'' ''dsl-host.dyn.orange.es''"
proof -
  have e: "irc_host_tail ''dsl-host.dyn.orange.es'' 2 256 = ''orange.es''" by code_simp
  from host_tail_hides [of 2 "''dsl-host.dyn.orange.es''" 256] show ?thesis unfolding e by simp
qed

text \<open>
  C20. \<open>irc_utf8_valid\<close> accepts exactly the byte strings that are the UTF-8 encoding of a
  sequence of Unicode scalar values: no overlong forms, no surrogates, nothing past
  U+10FFFF, no truncated sequence; and every such encoding is accepted.
\<close>

theorem irc_utf8_valid_iff:
  "irc_utf8_valid s \<longleftrightarrow>
     (\<exists>cps. list_all scalar cps \<and> map byte s = concat (map utf8_encode cps))"
proof
  show "irc_utf8_valid s \<Longrightarrow> \<exists>cps. list_all scalar cps \<and> map byte s = concat (map utf8_encode cps)"
  proof (induction s rule: irc_utf8_valid.induct)
    case 1
    then show ?case by (intro exI [of _ "[]"]) simp
  next
    case (2 c s)
    then obtain rest where r: "utf8_char c s = Some rest" "irc_utf8_valid rest"
      by (auto split: option.splits)
    from "2.IH" [OF r] obtain cps
      where cps: "list_all scalar cps" "map byte rest = concat (map utf8_encode cps)" by blast
    from utf8_char_sound [OF r(1)] obtain cp
      where "scalar cp" "map byte (c # s) = utf8_encode cp @ map byte rest" by blast
    with cps show ?case by (intro exI [of _ "cp # cps"]) simp
  qed
next
  assume "\<exists>cps. list_all scalar cps \<and> map byte s = concat (map utf8_encode cps)"
  then obtain cps where "list_all scalar cps" "map byte s = concat (map utf8_encode cps)" by blast
  then show "irc_utf8_valid s"
  proof (induction cps arbitrary: s)
    case (Cons cp cps)
    then obtain c s' where s: "s = c # s'" by (cases s) auto
    define rest where "rest = drop (length (utf8_encode cp)) s"
    have rest: "map byte rest = concat (map utf8_encode cps)"
      using Cons.prems(2) by (simp add: rest_def drop_map [symmetric])
    have "map byte (c # s') = utf8_encode cp @ map byte rest"
      using Cons.prems(2) rest s by simp
    with Cons.prems(1) have "utf8_char c s' = Some rest" by (intro utf8_char_complete) auto
    moreover have "irc_utf8_valid rest" using Cons.IH [OF _ rest] Cons.prems(1) by simp
    ultimately show ?case by (simp add: s)
  qed simp
qed

text \<open>
  What \<open>json_put_string\<close> writes is a JSON string literal that reads back as the string
  it was given, whatever bytes that holds and whatever follows in the file.
\<close>

theorem json_put_string_roundtrip:
  "json_read_string (json_put_string s @ rest) = Some (s, rest)"
proof -
  have "length s \<le> length (concat (map json_escape_char s))"
    by (induction s) (auto simp: json_escape_char_def)
  then show ?thesis
    using json_read_concat [of s "length (concat (map json_escape_char s) @ CHR 0x22 # rest)" rest]
    by (simp add: json_read_string_def json_put_string_def)
qed

end
