(* ===== verification/Masks.thy ===== *)
theory Masks
  imports Names
begin

text \<open>
  The mask matchers of src/src/proto.c: the iterative glob matcher with one backtracking
  point, the display ident, nick!user@host and user@host masks, CIDR masks over parsed
  addresses, the key per-IP limits count by, and ban durations. The glob matcher is proved
  sound against a declarative matching relation for every input, and complete for texts
  without a star.
\<close>

section \<open>Globs\<close>

abbreviation STAR :: char where "STAR \<equiv> CHR ''*''"

text \<open>
  \<open>glob_loop p t star\<close>: the pattern and text still to look at, and the backtracking point
  (the pattern behind the last star and the text position \<open>star_t\<close>), \<open>None\<close> for NULL.
\<close>

function glob_loop :: "string \<Rightarrow> string \<Rightarrow> (string \<times> string) option \<Rightarrow> bool" where
  "glob_loop p [] star = (dropWhile (\<lambda>c. c = STAR) p = [])"
| "glob_loop p (t # ts) star =
     (if p \<noteq> [] \<and> (c_tolower (hd p) = c_tolower t \<or> hd p = CHR ''?'')
        then glob_loop (tl p) ts star
      else if p \<noteq> [] \<and> hd p = STAR
        then glob_loop (tl p) (t # ts) (Some (tl p, t # ts))
      else case star of
        None \<Rightarrow> False
      | Some (sp, st) \<Rightarrow>
          (case st of [] \<Rightarrow> False | c # st' \<Rightarrow> glob_loop sp st' (Some (sp, st'))))"
  by pat_completeness auto
termination
proof (relation "measures
    [\<lambda>(p, t, star). case star of None \<Rightarrow> Suc (length t) | Some (sp, st) \<Rightarrow> max (length t) (length st),
     \<lambda>(p, t, star). length p + length t]", goal_cases)
  case (2 p t ts star)
  then show ?case by (cases p; cases star) auto
next
  case (3 p t ts star)
  then show ?case by (cases p; cases star) auto
qed auto

definition irc_glob_match :: "string \<Rightarrow> string \<Rightarrow> bool" where
  "irc_glob_match pattern txt = glob_loop pattern txt None"

text \<open>The meaning of a pattern: a star stands for any text, a question mark for any byte.\<close>

fun glob_spec :: "string \<Rightarrow> string \<Rightarrow> bool" where
  "glob_spec [] t = (t = [])"
| "glob_spec (c # p) t =
     (if c = STAR then \<exists>u. suffix u t \<and> glob_spec p u
      else t \<noteq> [] \<and> (c_tolower c = c_tolower (hd t) \<or> c = CHR ''?'') \<and> glob_spec p (tl t))"

lemma glob_spec_star_suffix: "glob_spec (STAR # p) u \<Longrightarrow> suffix u t \<Longrightarrow> glob_spec (STAR # p) t"
  by (auto intro: suffix_order.trans)

lemma glob_spec_starI: "suffix u t \<Longrightarrow> glob_spec p u \<Longrightarrow> glob_spec (STAR # p) t"
  by auto

lemma glob_spec_append: "glob_spec q t \<Longrightarrow> glob_spec (p @ q) (p @ t)"
  by (induction p) (auto intro!: exI suffix_ConsI)

lemma glob_spec_Nil: "glob_spec p [] \<longleftrightarrow> dropWhile (\<lambda>c. c = STAR) p = []"
  by (induction p) auto

lemma glob_spec_prefix:
  "STAR \<notin> set u \<Longrightarrow> glob_spec (u @ p) t \<Longrightarrow> length u \<le> length t \<and> glob_spec p (drop (length u) t)"
proof (induction u arbitrary: t)
  case (Cons c u)
  then obtain d t' where "t = d # t'" and "glob_spec (u @ p) t'" by (cases t) auto
  with Cons show ?case by auto
qed simp

lemma glob_loop_sound:
  "glob_loop p t star \<Longrightarrow>
     glob_spec p t \<or> (\<exists>sp st u. star = Some (sp, st) \<and> suffix u st \<and> glob_spec sp u)"
proof (induction p t star rule: glob_loop.induct)
  case (1 p star)
  then show ?case by (simp add: glob_spec_Nil)
next
  case (2 p t ts star)
  consider (lit) "p \<noteq> []" "c_tolower (hd p) = c_tolower t \<or> hd p = CHR ''?''"
    | (star) "\<not> (p \<noteq> [] \<and> (c_tolower (hd p) = c_tolower t \<or> hd p = CHR ''?''))" "p \<noteq> [] \<and> hd p = STAR"
    | (retry) "\<not> (p \<noteq> [] \<and> (c_tolower (hd p) = c_tolower t \<or> hd p = CHR ''?''))" "\<not> (p \<noteq> [] \<and> hd p = STAR)"
    by blast
  then show ?case
  proof cases
    case lit
    then obtain c p' where p: "p = c # p'" by (cases p) auto
    from lit 2 have "glob_spec p' ts \<or> (\<exists>sp st u. star = Some (sp, st) \<and> suffix u st \<and> glob_spec sp u)"
      by (simp add: p)
    moreover have "glob_spec p (t # ts)" if "glob_spec p' ts"
    proof (cases "c = STAR")
      case True
      with that show ?thesis by (auto simp: p intro!: exI [of _ ts] suffix_ConsI)
    next
      case False
      with lit that show ?thesis by (simp add: p)
    qed
    ultimately show ?thesis by blast
  next
    case star
    then obtain p' where p: "p = STAR # p'" by (cases p) auto
    from star "2.prems" have "glob_loop p' (t # ts) (Some (p', t # ts))" by (simp add: p)
    with "2.IH"(2) [OF star] have "glob_spec p' (t # ts) \<or> (\<exists>u. suffix u (t # ts) \<and> glob_spec p' u)"
      by (simp add: p)
    then show ?thesis by (auto simp: p)
  next
    case retry
    with "2.prems" obtain sp c st' where s: "star = Some (sp, c # st')"
      and l: "glob_loop sp st' (Some (sp, st'))"
      by (auto split: option.splits list.splits prod.splits)
    from "2.IH"(3) [OF retry s refl refl l] have "\<exists>u. suffix u st' \<and> glob_spec sp u" by auto
    then show ?thesis unfolding s by (auto intro: suffix_ConsI)
  qed
qed

text \<open>
  What ties the backtracking point to the current position: the pattern since the star is
  star-free and as long as the text since \<open>star_t\<close>.
\<close>

definition glob_inv :: "string \<Rightarrow> string \<Rightarrow> (string \<times> string) option \<Rightarrow> bool" where
  "glob_inv p t star \<longleftrightarrow> STAR \<notin> set t \<and>
     (\<forall>sp st. star = Some (sp, st) \<longrightarrow> STAR \<notin> set st \<and>
        (\<exists>u w. sp = u @ p \<and> st = w @ t \<and> length u = length w \<and> STAR \<notin> set u))"

lemma glob_inv_star: "STAR \<notin> set t \<Longrightarrow> glob_inv p t (Some (p, t))"
  by (auto simp: glob_inv_def)

lemma glob_inv_step:
  assumes "glob_inv (c # p) (d # t) star" and "c \<noteq> STAR"
  shows "glob_inv p t star"
proof -
  have "\<exists>u' w'. sp = u' @ p \<and> st = w' @ t \<and> length u' = length w' \<and> STAR \<notin> set u'"
    if "sp = u @ c # p" "st = w @ d # t" "length u = length w" "STAR \<notin> set u" for sp st u w
    using that assms(2) by (intro exI [of _ "u @ [c]"] exI [of _ "w @ [d]"]) auto
  with assms(1) show ?thesis unfolding glob_inv_def by (auto 0 4)
qed

lemma suffix_by_length:
  "suffix a t \<Longrightarrow> suffix b t \<Longrightarrow> length a \<le> length b \<Longrightarrow> suffix a b"
  by (rule suffix_length_suffix)

definition later_match :: "(string \<times> string) option \<Rightarrow> bool" where
  "later_match star \<longleftrightarrow> (\<exists>sp st u. star = Some (sp, st) \<and> strict_suffix u st \<and> glob_spec sp u)"

lemma later_match_absorbed:
  assumes "glob_inv (STAR # p) t star" and "later_match star"
  shows "glob_spec (STAR # p) t"
proof -
  from assms obtain u w v where st: "star = Some (u @ STAR # p, w @ t)" and len: "length u = length w"
    and ns: "STAR \<notin> set u" and v: "strict_suffix v (w @ t)" and m: "glob_spec (u @ STAR # p) v"
    by (auto simp: glob_inv_def later_match_def)
  from glob_spec_prefix [OF ns m] have d: "glob_spec (STAR # p) (drop (length u) v)" by blast
  have "suffix (drop (length u) v) t"
  proof (rule suffix_by_length)
    show "suffix (drop (length u) v) (w @ t)"
      using v by (meson strict_suffix_def suffix_drop suffix_order.trans)
    show "suffix t (w @ t)" by (simp add: suffix_def)
    have "length v < length (w @ t)" using v by (rule suffix_length_less)
    then show "length (drop (length u) v) \<le> length t" using len by simp
  qed
  with d show ?thesis by (rule glob_spec_star_suffix)
qed

lemma later_match_end:
  assumes "glob_inv p [] star"
  shows "\<not> later_match star"
proof
  assume "later_match star"
  with assms obtain u w v where len: "length u = length w"
    and ns: "STAR \<notin> set u" and v: "strict_suffix v w" and m: "glob_spec (u @ p) v"
    by (auto simp: glob_inv_def later_match_def)
  from glob_spec_prefix [OF ns m] suffix_length_less [OF v] len show False by simp
qed

lemma suffix_of_Cons: "suffix u t \<longleftrightarrow> u = t \<or> strict_suffix u t"
  by (auto simp: strict_suffix_def)

lemma strict_suffix_Cons: "strict_suffix u (c # t) \<longleftrightarrow> suffix u t"
  by (auto simp: strict_suffix_def suffix_Cons dest: suffix_length_le)

lemma glob_loop_complete:
  "glob_inv p t star \<Longrightarrow> glob_spec p t \<or> later_match star \<Longrightarrow> glob_loop p t star"
proof (induction p t star rule: glob_loop.induct)
  case (1 p star)
  with later_match_end show ?case by (auto simp: glob_spec_Nil)
next
  case (2 p t ts star)
  from "2.prems"(1) have nt: "t \<noteq> STAR" and nts: "STAR \<notin> set (t # ts)" by (auto simp: glob_inv_def)
  have sl: "\<not> c_isalpha STAR" by (simp add: ctype_simps)
  consider (lit) "p \<noteq> []" "c_tolower (hd p) = c_tolower t \<or> hd p = CHR ''?''"
    | (star) "\<not> (p \<noteq> [] \<and> (c_tolower (hd p) = c_tolower t \<or> hd p = CHR ''?''))" "p \<noteq> [] \<and> hd p = STAR"
    | (retry) "\<not> (p \<noteq> [] \<and> (c_tolower (hd p) = c_tolower t \<or> hd p = CHR ''?''))" "\<not> (p \<noteq> [] \<and> hd p = STAR)"
    by blast
  then show ?case
  proof cases
    case lit
    then obtain c p' where p: "p = c # p'" by (cases p) auto
    have c: "c \<noteq> STAR" using lit nt sl by (auto simp: p)
    from glob_inv_step [OF "2.prems"(1) [unfolded p] c] have "glob_inv p' ts star" .
    moreover have "glob_spec p' ts \<or> later_match star" using "2.prems"(2) c by (auto simp: p)
    ultimately show ?thesis using "2.IH"(1) lit by (simp add: p)
  next
    case star
    then obtain p' where p: "p = STAR # p'" by (cases p) auto
    have "glob_spec (STAR # p') (t # ts)"
      using "2.prems" later_match_absorbed unfolding p by blast
    then have "glob_spec p' (t # ts) \<or> later_match (Some (p', t # ts))"
      by (auto simp: later_match_def suffix_of_Cons [of _ "t # ts"])
    with "2.IH"(2) [OF star] glob_inv_star [OF nts] star show ?thesis by (simp add: p)
  next
    case retry
    have "\<not> glob_spec p (t # ts)" using retry by (cases p) auto
    with "2.prems"(2) obtain sp st u where s: "star = Some (sp, st)" "strict_suffix u st" "glob_spec sp u"
      by (auto simp: later_match_def)
    then obtain c st' where st: "st = c # st'" by (cases st) auto
    from "2.prems"(1) s st have ns: "STAR \<notin> set st'" by (auto simp: glob_inv_def)
    have "glob_spec sp st' \<or> later_match (Some (sp, st'))"
      using s st by (auto simp: strict_suffix_Cons suffix_of_Cons [of _ st'] later_match_def)
    from "2.IH"(3) [OF retry s(1) refl st glob_inv_star [OF ns] this]
    have "glob_loop sp st' (Some (sp, st'))" .
    then show ?thesis
      by (subst glob_loop.simps(2)) (simp only: retry if_False s(1) st option.case prod.case list.case)
  qed
qed


text \<open>With a pattern and a text that are equal, every byte is matched literally.\<close>

lemma glob_loop_refl: "glob_loop s s star"
  by (induction s) simp_all

section \<open>nick!user@host\<close>

definition irc_ident_for :: "nat \<Rightarrow> string \<Rightarrow> bool \<Rightarrow> string" where
  "irc_ident_for outsz user ident_confirmed =
     (if user = [] then []
      else if ident_confirmed \<or> take 1 user = ''~'' then clip outsz user
      else clip outsz (CHR ''~'' # user))"

definition irc_prefix_for :: "nat \<Rightarrow> string \<Rightarrow> string \<Rightarrow> string \<Rightarrow> string" where
  "irc_prefix_for outsz nick user host =
     (if user \<noteq> []
      then clip outsz (nick @ ''!'' @ irc_ident_for 128 user False @ ''@'' @ host)
      else clip outsz (nick @ ''@'' @ host))"

definition irc_mask_match :: "string \<Rightarrow> string \<Rightarrow> string \<Rightarrow> string \<Rightarrow> bool \<Rightarrow> bool" where
  "irc_mask_match nick user host msk ident_confirmed =
     (if CHR ''!'' \<notin> set msk \<and> CHR ''@'' \<notin> set msk then irc_glob_match msk nick
      else let ident = irc_ident_for 128 user ident_confirmed;
               full = clip 451 (nick @ ''!'' @ ident @ ''@'' @ host)
           in irc_glob_match msk full)"

section \<open>IP addresses\<close>

text \<open>
  \<open>inet_pton\<close> and \<open>inet_ntop\<close> belong to the operating system: an address is the list of its
  bytes in network order, and the four functions are a parameter of the model. What is
  assumed of them where a lemma needs it: parsed addresses have 4 or 16 bytes, printing is
  inverted by parsing, an IPv6 text is no IPv4 text, and a zero in front of a leading colon
  denotes the same address.
\<close>

type_synonym u8 = "8 word"

record inet =
  inet_pton4 :: "string \<Rightarrow> u8 list option"
  inet_pton6 :: "string \<Rightarrow> u8 list option"
  inet_ntop4 :: "u8 list \<Rightarrow> string option"
  inet_ntop6 :: "u8 list \<Rightarrow> string option"

definition inet_ok :: "inet \<Rightarrow> bool" where
  "inet_ok I \<longleftrightarrow>
     (\<forall>s b. inet_pton4 I s = Some b \<longrightarrow> length b = 4) \<and>
     (\<forall>s b. inet_pton6 I s = Some b \<longrightarrow> length b = 16) \<and>
     (\<forall>b s. length b = 4 \<longrightarrow> inet_ntop4 I b = Some s \<longrightarrow> inet_pton4 I s = Some b) \<and>
     (\<forall>b s. length b = 16 \<longrightarrow> inet_ntop6 I b = Some s \<longrightarrow>
        inet_pton4 I s = None \<and> inet_pton6 I s = Some b) \<and>
     (\<forall>s. take 1 s = '':'' \<longrightarrow>
        inet_pton4 I (CHR ''0'' # s) = inet_pton4 I s \<and> inet_pton6 I (CHR ''0'' # s) = inet_pton6 I s)"

definition parse_ip :: "inet \<Rightarrow> string \<Rightarrow> (nat \<times> u8 list) option" where
  "parse_ip I ip =
     (case inet_pton4 I ip of
        Some b \<Rightarrow> Some (4, b)
      | None \<Rightarrow> (case inet_pton6 I ip of Some b \<Rightarrow> Some (6, b) | None \<Rightarrow> None))"

definition MAPPED :: "u8 list" where
  "MAPPED = [0, 0, 0, 0, 0, 0, 0, 0, 0, 0, 0xff, 0xff]"

definition format_ip :: "inet \<Rightarrow> nat \<Rightarrow> u8 list \<Rightarrow> nat \<Rightarrow> string option" where
  "format_ip I fam buf outsz =
     (let (fam1, buf1) = (if fam = 6 \<and> take 12 buf = MAPPED then (4, drop 12 buf) else (fam, buf))
      in case (if fam1 = 4 then inet_ntop4 I buf1 else inet_ntop6 I buf1) of
           None \<Rightarrow> None
         | Some tmp \<Rightarrow>
             (let out = (if take 1 tmp = '':'' then CHR ''0'' # tmp else tmp)
              in if length out \<ge> outsz then None else Some out))"

definition irc_ip_normalize :: "inet \<Rightarrow> string \<Rightarrow> nat \<Rightarrow> string option" where
  "irc_ip_normalize I ip outsz =
     (case parse_ip I ip of None \<Rightarrow> None | Some (fam, buf) \<Rightarrow> format_ip I fam buf outsz)"

definition prefix_hit :: "u8 list \<Rightarrow> u8 list \<Rightarrow> nat \<Rightarrow> bool" where
  "prefix_hit a b bits =
     (let whole = bits div 8; rest = bits mod 8
      in if take whole a \<noteq> take whole b then False
         else if rest = 0 then True
         else let m = push_bit (8 - rest) (0xff :: u8)
              in a ! whole AND m = b ! whole AND m)"

definition irc_ip_mask_match :: "inet \<Rightarrow> string \<Rightarrow> string \<Rightarrow> bool" where
  "irc_ip_mask_match I msk ip =
     (case split_chr CHR ''/'' msk of
        None \<Rightarrow> irc_glob_match msk ip
      | Some (net, r) \<Rightarrow>
          if length net \<ge> 64 \<or> \<not> (r \<noteq> [] \<and> c_isdigit (hd r)) then False
          else (case strtol r of
                  None \<Rightarrow> False
                | Some (bits, e) \<Rightarrow>
                    (case (parse_ip I net, parse_ip I ip) of
                       (Some (nf, nb), Some (ifam, ib)) \<Rightarrow>
                         if e \<noteq> [] \<or> nf \<noteq> ifam \<or> bits < 0 \<or> bits > (if nf = 4 then 32 else 128) then False
                         else prefix_hit nb ib (nat bits)
                     | _ \<Rightarrow> False)))"

definition irc_host_mask_match :: "inet \<Rightarrow> string \<Rightarrow> string \<Rightarrow> string \<Rightarrow> bool" where
  "irc_host_mask_match I user host msk =
     (let at = split_rchr CHR ''@'' msk;
          hostpart = (case at of None \<Rightarrow> msk | Some (u, h) \<Rightarrow> h);
          full = clip 451 (user @ ''@'' @ host)
      in if CHR ''/'' \<in> set hostpart then
           (let um = clip 128 (case at of None \<Rightarrow> ''*'' | Some (u, h) \<Rightarrow> u)
            in irc_glob_match um user \<and> irc_ip_mask_match I hostpart host)
         else if CHR ''@'' \<in> set msk then irc_glob_match msk full
         else irc_glob_match (clip 320 (''*@'' @ msk)) full)"

definition limit_byte :: "int \<Rightarrow> nat \<Rightarrow> u8 \<Rightarrow> u8" where
  "limit_byte prefix6 i b =
     (let keep = prefix6 - int i * 8
      in b AND (if keep \<ge> 8 then 0xff else if keep \<le> 0 then 0 else push_bit (nat (8 - keep)) 0xff))"

definition irc_ip_limit_key :: "inet \<Rightarrow> string \<Rightarrow> int \<Rightarrow> nat \<Rightarrow> string" where
  "irc_ip_limit_key I ip prefix6 outsz =
     (case parse_ip I ip of
        Some (fam, b) \<Rightarrow>
          if fam \<noteq> 6 \<or> prefix6 \<le> 0 \<or> prefix6 \<ge> 128 then clip outsz ip
          else (case format_ip I 6 (map (\<lambda>i. limit_byte prefix6 i (b ! i)) [0..<16]) 64 of
                  None \<Rightarrow> clip outsz ip
                | Some net \<Rightarrow> clip outsz (net @ ''/'' @ show_int prefix6))
      | None \<Rightarrow> clip outsz ip)"

subsection \<open>Address prefixes bit by bit\<close>

text \<open>Bit \<open>i\<close> of an address, counted from its first bit on the wire.\<close>

definition addr_bit :: "u8 list \<Rightarrow> nat \<Rightarrow> bool" where
  "addr_bit a i = bit (a ! (i div 8)) (7 - i mod 8)"

lemma high_mask_bit:
  "r < 8 \<Longrightarrow> n < 8 \<Longrightarrow> bit (push_bit (8 - r) (0xff :: u8)) n \<longleftrightarrow> 8 - r \<le> n"
proof -
  assume *: "r < 8" "n < 8"
  have ff: "(0xff :: u8) = mask 8" by (simp add: mask_eq_exp_minus_1)
  show ?thesis
    unfolding ff bit_push_bit_iff bit_mask_iff using * by auto
qed

lemma high_mask_eq:
  fixes x y :: u8
  assumes "0 < r" and "r < 8"
  shows "x AND push_bit (8 - r) 0xff = y AND push_bit (8 - r) 0xff \<longleftrightarrow>
     (\<forall>j < r. bit x (7 - j) = bit y (7 - j))" (is "?l = ?r")
proof
  assume l: ?l
  show ?r
  proof (intro allI impI)
    fix j assume j: "j < r"
    from l have "bit (x AND push_bit (8 - r) 0xff) (7 - j) = bit (y AND push_bit (8 - r) 0xff) (7 - j)"
      by simp
    moreover have "8 - r \<le> 7 - j" "7 - j < 8" using j assms by linarith+
    ultimately show "bit x (7 - j) = bit y (7 - j)"
      using assms(2) by (simp add: bit_and_iff high_mask_bit)
  qed
next
  assume r: ?r
  show ?l
  proof (rule bit_word_eqI)
    fix n assume "n < LENGTH(8)"
    then have n: "n < 8" by simp
    have "bit x n = bit y n" if "8 - r \<le> n"
      using r [rule_format, of "7 - n"] that n assms by simp
    with n assms show "bit (x AND push_bit (8 - r) 0xff) n = bit (y AND push_bit (8 - r) 0xff) n"
      by (auto simp: bit_and_iff high_mask_bit)
  qed
qed

lemma byte_eq_bits: "(x :: u8) = y \<longleftrightarrow> (\<forall>j < 8. bit x (7 - j) = bit y (7 - j))"
proof
  assume r: "\<forall>j < 8. bit x (7 - j) = bit y (7 - j)"
  show "x = y"
  proof (rule bit_word_eqI)
    fix n assume "n < LENGTH(8)"
    then show "bit x n = bit y n" using r [rule_format, of "7 - n"] by simp
  qed
qed simp

lemma take_eq_bits:
  assumes "length a = length b" and "n \<le> length a"
  shows "take n a = take n b \<longleftrightarrow> (\<forall>i < 8 * n. addr_bit a i = addr_bit b i)" (is "?l = ?r")
proof
  assume l: ?l
  show ?r
  proof (intro allI impI)
    fix i assume "i < 8 * n"
    then have "i div 8 < n" by auto
    then have "a ! (i div 8) = b ! (i div 8)" using l by (metis nth_take)
    then show "addr_bit a i = addr_bit b i" by (simp add: addr_bit_def)
  qed
next
  assume r: ?r
  have "a ! k = b ! k" if "k < n" for k
  proof -
    have "bit (a ! k) (7 - j) = bit (b ! k) (7 - j)" if "j < 8" for j
      using r [rule_format, of "8 * k + j"] that \<open>k < n\<close> by (simp add: addr_bit_def)
    then show ?thesis by (simp add: byte_eq_bits)
  qed
  then show ?l using assms by (simp add: list_eq_iff_nth_eq)
qed

lemma all_less_add:
  "(\<forall>i < a + (b :: nat). P i) \<longleftrightarrow> (\<forall>i < a. P i) \<and> (\<forall>j < b. P (a + j))" (is "?l \<longleftrightarrow> ?r")
proof
  assume r: ?r
  show ?l
  proof (intro allI impI)
    fix i assume i: "i < a + b"
    show "P i"
    proof (cases "i < a")
      case False
      then obtain j where "i = a + j" by (metis le_add_diff_inverse not_le)
      with r i show ?thesis by simp
    qed (use r in blast)
  qed
qed simp

lemma prefix_hit_bits:
  assumes len: "length a = length b" and bits: "bits \<le> 8 * length a"
  shows "prefix_hit a b bits \<longleftrightarrow> (\<forall>i < bits. addr_bit a i = addr_bit b i)"
proof -
  define w r where "w = bits div 8" and "r = bits mod 8"
  have b: "bits = 8 * w + r" "r < 8" by (simp_all add: w_def r_def)
  have w: "w \<le> length a" using bits by (simp add: w_def)
  have split: "(\<forall>i < bits. addr_bit a i = addr_bit b i) \<longleftrightarrow>
      (\<forall>i < 8 * w. addr_bit a i = addr_bit b i) \<and> (\<forall>j < r. addr_bit a (8 * w + j) = addr_bit b (8 * w + j))"
    unfolding b(1) by (rule all_less_add)
  have tail: "addr_bit x (8 * w + j) = bit (x ! w) (7 - j)" if "j < r" for x j
    using that b(2) by (simp add: addr_bit_def)
  show ?thesis
  proof (cases "r = 0")
    case True
    then show ?thesis
      using take_eq_bits [OF len w] split by (simp add: prefix_hit_def Let_def w_def r_def)
  next
    case False
    then have "(\<forall>j < r. addr_bit a (8 * w + j) = addr_bit b (8 * w + j)) \<longleftrightarrow>
        a ! w AND push_bit (8 - r) 0xff = b ! w AND push_bit (8 - r) 0xff"
      using high_mask_eq [of r "a ! w" "b ! w"] b(2) tail by simp
    with False show ?thesis
      using take_eq_bits [OF len w] split by (simp add: prefix_hit_def Let_def w_def [symmetric] r_def [symmetric])
  qed
qed

lemma limit_byte_bit:
  assumes "j < 8" and "0 \<le> p"
  shows "bit (limit_byte p i b) (7 - j) \<longleftrightarrow> int (8 * i + j) < p \<and> bit b (7 - j)"
proof -
  have f: "bit (0xff :: u8) n" if "n < 8" for n
  proof -
    have "(0xff :: u8) = mask 8" by (simp add: mask_eq_exp_minus_1)
    then show ?thesis using that by (simp only: bit_mask_iff) simp
  qed
  consider "p - int i * 8 \<ge> 8" | "p - int i * 8 \<le> 0" | "0 < p - int i * 8" "p - int i * 8 < 8" by linarith
  then show ?thesis
  proof cases
    case 1
    with assms f [of "7 - j"] show ?thesis by (auto simp: limit_byte_def Let_def bit_and_iff)
  next
    case 2
    with assms show ?thesis by (auto simp: limit_byte_def Let_def bit_simps)
  next
    case 3
    define k where "k = nat (p - int i * 8)"
    with 3 have k: "0 < k" "k < 8" "p = int (8 * i + k)" "nat (8 - (p - int i * 8)) = 8 - k" by auto
    have "limit_byte p i b = b AND push_bit (8 - k) 0xff"
      using 3 k(4) by (simp add: limit_byte_def Let_def)
    with k assms show ?thesis by (auto simp: bit_and_iff high_mask_bit)
  qed
qed


lemma addr_bits_ext: "length a = 16 \<Longrightarrow> length b = 16 \<Longrightarrow> a = b \<longleftrightarrow> (\<forall>i < 128. addr_bit a i = addr_bit b i)"
  using take_eq_bits [of a b 16] by simp

definition masked :: "int \<Rightarrow> u8 list \<Rightarrow> u8 list" where
  "masked p b = map (\<lambda>i. limit_byte p i (b ! i)) [0..<16]"

lemma length_masked [simp]: "length (masked p b) = 16"
  by (simp add: masked_def)

lemma masked_bit:
  assumes "i < 128" and "0 \<le> p"
  shows "addr_bit (masked p b) i \<longleftrightarrow> int i < p \<and> addr_bit b i"
proof -
  have "i div 8 < 16" "i mod 8 < 8" "8 * (i div 8) + i mod 8 = i" using assms(1) by simp_all
  then show ?thesis
    using limit_byte_bit [of "i mod 8" p "i div 8" "b ! (i div 8)"] assms(2)
    by (simp add: addr_bit_def masked_def)
qed

lemma masked_eq_iff:
  assumes "0 \<le> p" and "p < 128"
  shows "masked p b1 = masked p b2 \<longleftrightarrow> (\<forall>i < nat p. addr_bit b1 i = addr_bit b2 i)"
proof -
  have "masked p b1 = masked p b2 \<longleftrightarrow> (\<forall>i < 128. addr_bit (masked p b1) i = addr_bit (masked p b2) i)"
    by (rule addr_bits_ext) simp_all
  also have "\<dots> \<longleftrightarrow> (\<forall>i < 128. int i < p \<longrightarrow> addr_bit b1 i = addr_bit b2 i)"
    using assms(1) by (auto simp: masked_bit)
  also have "\<dots> \<longleftrightarrow> (\<forall>i < nat p. addr_bit b1 i = addr_bit b2 i)"
    using assms by (auto simp: zless_nat_conj nat_less_iff)
  finally show ?thesis .
qed

lemma inet_okD:
  assumes "inet_ok I"
  shows "length b = 4 \<Longrightarrow> inet_ntop4 I b = Some s \<Longrightarrow> inet_pton4 I s = Some b"
    and "length b = 16 \<Longrightarrow> inet_ntop6 I b = Some s \<Longrightarrow> inet_pton4 I s = None \<and> inet_pton6 I s = Some b"
    and "inet_pton4 I (if take 1 s = '':'' then CHR ''0'' # s else s) = inet_pton4 I s"
    and "inet_pton6 I (if take 1 s = '':'' then CHR ''0'' # s else s) = inet_pton6 I s"
proof -
  note ok = assms [unfolded inet_ok_def]
  show "length b = 4 \<Longrightarrow> inet_ntop4 I b = Some s \<Longrightarrow> inet_pton4 I s = Some b" using ok by blast
  show "length b = 16 \<Longrightarrow> inet_ntop6 I b = Some s \<Longrightarrow> inet_pton4 I s = None \<and> inet_pton6 I s = Some b"
    using ok by blast
  have z: "inet_pton4 I (CHR ''0'' # s) = inet_pton4 I s \<and> inet_pton6 I (CHR ''0'' # s) = inet_pton6 I s"
    if "take 1 s = '':''" using ok that by blast
  then show "inet_pton4 I (if take 1 s = '':'' then CHR ''0'' # s else s) = inet_pton4 I s"
    "inet_pton6 I (if take 1 s = '':'' then CHR ''0'' # s else s) = inet_pton6 I s"
    by (cases "take 1 s = '':''"; simp)+
qed

lemma format_ip_parse:
  assumes "inet_ok I" and "length b = 16" and "format_ip I 6 b n = Some t"
  shows "parse_ip I t = Some (if take 12 b = MAPPED then (4, drop 12 b) else (6, b))"
proof (cases "take 12 b = MAPPED")
  case True
  with assms(3) obtain tmp where tmp: "inet_ntop4 I (drop 12 b) = Some tmp"
    and t: "t = (if take 1 tmp = '':'' then CHR ''0'' # tmp else tmp)"
    by (auto simp: format_ip_def Let_def split: option.splits if_splits)
  have "length (drop 12 b) = 4" using assms(2) by simp
  with tmp inet_okD(1) [OF assms(1)] have "inet_pton4 I tmp = Some (drop 12 b)" by blast
  moreover have "inet_pton4 I t = inet_pton4 I tmp" unfolding t by (rule inet_okD(3) [OF assms(1)])
  ultimately show ?thesis using True by (simp add: parse_ip_def)
next
  case False
  with assms(3) obtain tmp where tmp: "inet_ntop6 I b = Some tmp"
    and t: "t = (if take 1 tmp = '':'' then CHR ''0'' # tmp else tmp)"
    by (auto simp: format_ip_def Let_def split: option.splits if_splits)
  from inet_okD(2) [OF assms(1,2) tmp] have "inet_pton4 I tmp = None" "inet_pton6 I tmp = Some b" by blast+
  moreover have "inet_pton4 I t = inet_pton4 I tmp" "inet_pton6 I t = inet_pton6 I tmp"
    unfolding t by (rule inet_okD(3,4) [OF assms(1)])+
  ultimately show ?thesis using False by (simp add: parse_ip_def)
qed

lemma format_ip_inj:
  assumes "inet_ok I" and "length b1 = 16" and "length b2 = 16"
    and "format_ip I 6 b1 n = Some t" and "format_ip I 6 b2 n = Some t"
  shows "b1 = b2"
proof -
  from format_ip_parse [OF assms(1,2,4)] format_ip_parse [OF assms(1,3,5)]
  have "(if take 12 b1 = MAPPED then (4, drop 12 b1) else (6 :: nat, b1)) =
        (if take 12 b2 = MAPPED then (4, drop 12 b2) else (6, b2))" by simp
  then show ?thesis
    using append_take_drop_id [of 12 b1] append_take_drop_id [of 12 b2]
    by (cases "take 12 b1 = MAPPED"; cases "take 12 b2 = MAPPED") simp_all
qed

section \<open>Durations\<close>

fun duration_digits :: "int \<Rightarrow> string \<Rightarrow> int \<times> string" where
  "duration_digits n [] = (n, [])"
| "duration_digits n (c # s) =
     (if c_isdigit c then
        duration_digits
          ((if n > (LONG_MAX - 9) div 10 then (LONG_MAX - 9) div 10 else n) * 10 + int (digit_val c)) s
      else (n, c # s))"

definition duration_unit :: "char \<Rightarrow> int option" where
  "duration_unit c =
     map_of [(CHR ''s'', 1), (CHR ''m'', 60), (CHR ''h'', 3600), (CHR ''d'', 86400), (CHR ''w'', 604800)]
       (c_tolower c)"

definition irc_parse_duration :: "string \<Rightarrow> int" where
  "irc_parse_duration token =
     (case token of
        [] \<Rightarrow> - 1
      | c # r \<Rightarrow>
          if \<not> c_isdigit c then - 1
          else (let (n, p) = duration_digits 0 token;
                    scaled = (\<lambda>mult. if n > LONG_MAX div mult then LONG_MAX else n * mult)
                in case p of
                     [] \<Rightarrow> scaled 1
                   | u # rest \<Rightarrow>
                       (case duration_unit u of
                          None \<Rightarrow> - 1
                        | Some mult \<Rightarrow> if rest \<noteq> [] then - 1 else scaled mult)))"

lemma digit_val_le: "c_isdigit c \<Longrightarrow> digit_val c \<le> 9"
  unfolding digit_val_def c_isdigit_def by linarith

lemma duration_digits_range:
  "0 \<le> n \<Longrightarrow> n \<le> LONG_MAX \<Longrightarrow> 0 \<le> fst (duration_digits n s) \<and> fst (duration_digits n s) \<le> LONG_MAX"
proof (induction n s rule: duration_digits.induct)
  case (2 n c s)
  show ?case
  proof (cases "c_isdigit c")
    case True
    let ?n = "(if n > (LONG_MAX - 9) div 10 then (LONG_MAX - 9) div 10 else n) * 10 + int (digit_val c)"
    have "0 \<le> ?n \<and> ?n \<le> LONG_MAX"
      using digit_val_le [OF True] 2(2) by (auto simp: LONG_MAX_def)
    with "2.IH" [OF True] True show ?thesis by simp
  qed (use 2 in simp)
qed simp

lemma duration_unit_pos: "duration_unit c = Some m \<Longrightarrow> 1 \<le> m"
  by (auto simp: duration_unit_def split: if_splits)

lemma read_digits_ge: "n \<le> fst (read_digits n s)"
  by (induction n s rule: read_digits.induct) auto

lemma duration_digits_exact:
  "int (fst (read_digits n s)) \<le> LONG_MAX - 9 \<Longrightarrow>
     duration_digits (int n) s = (int (fst (read_digits n s)), snd (read_digits n s))"
proof (induction n s rule: read_digits.induct)
  case (2 n c s)
  show ?case
  proof (cases "c_isdigit c")
    case True
    have "10 * n + digit_val c \<le> fst (read_digits n (c # s))"
      using read_digits_ge [of "10 * n + digit_val c" s] True by simp
    then have "int (10 * n + digit_val c) \<le> LONG_MAX - 9" using "2.prems" by linarith
    then have "\<not> int n > (LONG_MAX - 9) div 10" by (simp add: LONG_MAX_def)
    then have "duration_digits (int n) (c # s) = duration_digits (int (10 * n + digit_val c)) s"
      using True by (simp add: algebra_simps)
    with 2 True show ?thesis by simp
  qed simp
qed simp

section \<open>Properties\<close>

text \<open>
  Soundness of the glob matcher on every input: when \<open>irc_glob_match\<close> says yes, the
  pattern describes the text (a star for any text, a question mark for any byte, ASCII case
  ignored).
\<close>

theorem irc_glob_match_sound:
  "irc_glob_match p t \<Longrightarrow> glob_spec p t"
  unfolding irc_glob_match_def using glob_loop_sound [of p t None] by blast

theorem irc_glob_match_sound_witness:
  "irc_glob_match ''*.example.?om'' ''a.b.EXAMPLE.com'' \<and> glob_spec ''*.example.?om'' ''a.b.EXAMPLE.com''"
proof -
  have m: "irc_glob_match ''*.example.?om'' ''a.b.EXAMPLE.com''" by code_simp
  with irc_glob_match_sound [OF m] show ?thesis by blast
qed

text \<open>
  C19. Correctness of the single backtracking point: for a text without a star (every valid
  nick, user, host and channel name) the loop decides exactly the declarative relation, so
  remembering only the last star loses no match.
\<close>

theorem irc_glob_match_iff:
  assumes "STAR \<notin> set t"
  shows "irc_glob_match p t \<longleftrightarrow> glob_spec p t"
proof
  show "irc_glob_match p t \<Longrightarrow> glob_spec p t"
    unfolding irc_glob_match_def using glob_loop_sound [of p t None] by blast
  show "glob_spec p t \<Longrightarrow> irc_glob_match p t"
    unfolding irc_glob_match_def
    by (rule glob_loop_complete) (use assms in \<open>auto simp: glob_inv_def\<close>)
qed

theorem irc_glob_match_iff_witness:
  "irc_glob_match ''a*b*c'' ''axbybzc'' \<longleftrightarrow> glob_spec ''a*b*c'' ''axbybzc''"
  by (rule irc_glob_match_iff) simp

text \<open>
  The restriction to star-free texts is needed: a star in the text that meets a star in
  the pattern is taken as a literal match and no backtracking point is set, so a text that
  begins with a star evades a pattern that describes it. (Realnames may hold stars, and the
  r: extban and the spam filters match them with this function.)
\<close>

theorem irc_glob_match_star_text:
  "glob_spec (STAR # p @ [STAR]) (STAR # SP # p @ s) \<and>
     (irc_glob_match ''*spam*'' ''* spam'' \<longleftrightarrow> False) \<and> (irc_glob_match ''*spam*'' '' spam'' \<longleftrightarrow> True)"
proof (intro conjI)
  have "glob_spec [STAR] s" by (rule glob_spec_starI [of "[]"]) simp_all
  then have "glob_spec (p @ [STAR]) (p @ s)" by (rule glob_spec_append)
  then show "glob_spec (STAR # p @ [STAR]) (STAR # SP # p @ s)"
    by (intro glob_spec_starI [of "p @ s"]) (simp_all add: suffix_Cons)
qed code_simp+

text \<open>
  A \<open>*!*@host\<close> mask, the canonical form of a host ban, hits every client on that host,
  whatever its nick and ident, confirmed or not.
\<close>

theorem host_ban_hits:
  assumes "STAR \<notin> set nick" and "STAR \<notin> set user" and "STAR \<notin> set host"
    and "length nick + length user + length host < 448" and "length user < 127"
  shows "irc_mask_match nick user host (''*!*@'' @ host) confirmed"
proof -
  let ?ident = "irc_ident_for 128 user confirmed"
  let ?full = "nick @ ''!'' @ ?ident @ ''@'' @ host"
  have id: "length ?ident \<le> Suc (length user)" "STAR \<notin> set ?ident"
    using assms(2) by (auto simp: irc_ident_for_def clip_def dest: in_set_takeD split: if_splits)
  have "glob_spec host host"
    using glob_loop_sound [OF glob_loop_refl, of host None] by blast
  then have "glob_spec (''*!*@'' @ host) ?full"
    using glob_spec_starI [of "CHR ''@'' # host" "?ident @ CHR ''@'' # host" "CHR ''@'' # host"]
      glob_spec_starI [of "CHR ''!'' # ?ident @ CHR ''@'' # host" ?full "CHR ''!'' # STAR # CHR ''@'' # host"]
    by (simp add: suffix_def)
  moreover have "clip 451 ?full = ?full" using id(1) assms(4) by (intro clip_id) simp
  moreover have "STAR \<notin> set ?full" using assms(1,3) id(2) by simp
  ultimately show ?thesis
    unfolding irc_mask_match_def irc_glob_match_def
    by (simp add: Let_def) (rule glob_loop_complete, auto simp: glob_inv_def)
qed

theorem host_ban_hits_witness:
  "irc_mask_match ''bob'' ''me'' ''h.example'' (''*!*@'' @ ''h.example'') False"
  by (rule host_ban_hits) simp_all

text \<open>
  The byte-and-mask comparison of CIDR masks: \<open>prefix_hit\<close> holds exactly when the first
  \<open>bits\<close> bits of the two addresses, in network order, are equal.
\<close>

theorem prefix_hit_iff:
  assumes "length a = length b" and "bits \<le> 8 * length a"
  shows "prefix_hit a b bits \<longleftrightarrow> (\<forall>i < bits. addr_bit a i = addr_bit b i)"
  using assms by (rule prefix_hit_bits)

theorem prefix_hit_iff_witness:
  "prefix_hit [203, 0, 113, 7] [203, 0, 112, 9] 23 \<longleftrightarrow>
     (\<forall>i < 23. addr_bit [203, 0, 113, 7] i = addr_bit [203, 0, 112, 9] i)"
  by (rule prefix_hit_iff) simp_all

text \<open>
  Per-IP limits count a whole IPv6 prefix as one: two IPv6 addresses share a limit key
  exactly when their first \<open>prefix6\<close> bits agree, so an address inside a customer's prefix
  can neither escape its counter nor be charged to another prefix's.
\<close>

theorem limit_key_iff:
  assumes "inet_ok I"
    and "parse_ip I ip1 = Some (6, b1)" and "parse_ip I ip2 = Some (6, b2)"
    and "0 < p" and "p < 128"
    and "format_ip I 6 (masked p b1) 64 = Some t1" and "format_ip I 6 (masked p b2) 64 = Some t2"
    and "length t1 + 5 \<le> outsz" and "length t2 + 5 \<le> outsz"
  shows "irc_ip_limit_key I ip1 p outsz = irc_ip_limit_key I ip2 p outsz \<longleftrightarrow>
     (\<forall>i < nat p. addr_bit b1 i = addr_bit b2 i)"
proof -
  have len: "length (show_int p) \<le> 3"
    using assms(4,5) by (simp add: show_int_def show_nat.simps)
  have key: "irc_ip_limit_key I ip p outsz = t @ ''/'' @ show_int p"
    if "parse_ip I ip = Some (6, b)" "format_ip I 6 (masked p b) 64 = Some t" "length t + 5 \<le> outsz"
    for ip b t
    using that len assms(4,5) by (simp add: irc_ip_limit_key_def masked_def)
  have "t1 = t2 \<longleftrightarrow> masked p b1 = masked p b2"
    using format_ip_inj [OF assms(1), of "masked p b1" "masked p b2" 64] assms(6,7) by auto
  with key [OF assms(2,6,8)] key [OF assms(3,7,9)] masked_eq_iff [of p b1 b2] assms(4,5)
  show ?thesis by simp
qed

definition demo_inet :: inet where
  "demo_inet = \<lparr>
     inet_pton4 = (\<lambda>s. if length s = 5 \<and> take 1 s = ''4'' then Some (map (\<lambda>c. word_of_nat (byte c)) (tl s)) else None),
     inet_pton6 = (\<lambda>s. if length s = 17 \<and> take 1 s = ''6'' then Some (map (\<lambda>c. word_of_nat (byte c)) (tl s)) else None),
     inet_ntop4 = (\<lambda>b. Some (CHR ''4'' # map (\<lambda>w. char_of (unat w)) b)),
     inet_ntop6 = (\<lambda>b. Some (CHR ''6'' # map (\<lambda>w. char_of (unat w)) b))\<rparr>"

lemma demo_inet_ok: "inet_ok demo_inet"
proof -
  have "unat w mod 256 = unat w" for w :: u8 using unsigned_less [of w, where 'a = nat] by simp
  then show ?thesis by (auto simp: inet_ok_def demo_inet_def comp_def take_Suc_conv_app_nth take_Cons')
qed

theorem limit_key_iff_witness:
  "irc_ip_limit_key demo_inet ''6AAAAAAAABBBBBBBB'' 64 64 = irc_ip_limit_key demo_inet ''6AAAAAAAACCCCCCCC'' 64 64"
proof -
  let ?b1 = "[65, 65, 65, 65, 65, 65, 65, 65, 66, 66, 66, 66, 66, 66, 66, 66] :: u8 list"
  let ?b2 = "[65, 65, 65, 65, 65, 65, 65, 65, 67, 67, 67, 67, 67, 67, 67, 67] :: u8 list"
  let ?m = "[65, 65, 65, 65, 65, 65, 65, 65, 0, 0, 0, 0, 0, 0, 0, 0] :: u8 list"
  let ?t = "CHR ''6'' # map (\<lambda>w :: u8. char_of (unat w)) ?m"
  have p: "parse_ip demo_inet ''6AAAAAAAABBBBBBBB'' = Some (6, ?b1)"
    "parse_ip demo_inet ''6AAAAAAAACCCCCCCC'' = Some (6, ?b2)"
    by (simp_all add: parse_ip_def demo_inet_def)
  have m: "masked 64 ?b1 = ?m" "masked 64 ?b2 = ?m"
    by (simp_all add: masked_def limit_byte_def upt_rec)
  have f: "format_ip demo_inet 6 (masked 64 ?b1) 64 = Some ?t" "format_ip demo_inet 6 (masked 64 ?b2) 64 = Some ?t"
    unfolding m by (simp_all add: format_ip_def demo_inet_def MAPPED_def)
  have b: "\<forall>i < 64. addr_bit ?b1 i = addr_bit ?b2 i"
    using masked_eq_iff [of 64 ?b1 ?b2] m by simp
  from limit_key_iff [OF demo_inet_ok p _ _ f, of 64] b show ?thesis by simp
qed

lemma parse_duration_unit:
  assumes a: "duration_unit u = Some m \<and> int n \<le> LONG_MAX - 9"
  shows "irc_parse_duration (show_nat n @ [u]) = min LONG_MAX (int n * m)"
proof -
  from a have m: "1 \<le> m" using duration_unit_pos by blast
  have nu: "\<not> c_isdigit u" using a by (auto simp: duration_unit_def c_tolower_def ctype_simps split: if_splits)
  have rd: "read_digits 0 (show_nat n @ [u]) = (n, [u])"
    using nu by (intro read_show_nat_append) simp
  then have d: "duration_digits 0 (show_nat n @ [u]) = (int n, [u])"
    using duration_digits_exact [of 0 "show_nat n @ [u]"] a by simp
  obtain c r where s: "show_nat n @ [u] = c # r" "c_isdigit c"
    using show_nat_digits [of n] by (cases "show_nat n") auto
  have "(if LONG_MAX div m < int n then LONG_MAX else int n * m) = min LONG_MAX (int n * m)"
  proof (cases "LONG_MAX div m < int n")
    case True
    then have "(LONG_MAX div m + 1) * m \<le> int n * m" using m by (intro mult_right_mono) auto
    moreover have "LONG_MAX < (LONG_MAX div m + 1) * m"
      unfolding distrib_right using m div_mult_mod_eq [of LONG_MAX m] pos_mod_bound [of m LONG_MAX] by linarith
    ultimately show ?thesis using True by simp
  next
    case False
    then have "int n * m \<le> LONG_MAX div m * m" using m by (intro mult_right_mono) auto
    also have "\<dots> \<le> LONG_MAX" using m div_mult_mod_eq [of LONG_MAX m] pos_mod_sign [of m LONG_MAX] by linarith
    finally show ?thesis using False by simp
  qed
  then show ?thesis
    using d a s by (simp add: irc_parse_duration_def)
qed

text \<open>
  Ban durations never overflow: whatever a client types, the result is \<open>-1\<close> (not a
  duration) or lies between 0 and \<open>LONG_MAX\<close>, and a decimal number with a unit is read as
  exactly the product, saturated at \<open>LONG_MAX\<close>.
\<close>

theorem parse_duration_correct:
  "irc_parse_duration token \<in> {- 1} \<union> {0..LONG_MAX} \<and>
   (duration_unit u = Some m \<and> int n \<le> LONG_MAX - 9 \<longrightarrow>
      irc_parse_duration (show_nat n @ [u]) = min LONG_MAX (int n * m))"
proof (intro conjI impI)
  have r: "0 \<le> fst (duration_digits 0 token) \<and> fst (duration_digits 0 token) \<le> LONG_MAX"
    by (rule duration_digits_range) (simp_all add: LONG_MAX_def)
  have sc: "(if LONG_MAX div m < n then LONG_MAX else n * m) \<in> {0..LONG_MAX}"
    if "0 \<le> n" "1 \<le> m" for n m :: int
  proof (cases "LONG_MAX div m < n")
    case False
    then have "n * m \<le> LONG_MAX div m * m" using that by (intro mult_right_mono) auto
    also have "\<dots> \<le> LONG_MAX" using that div_mult_mod_eq [of LONG_MAX m] pos_mod_sign [of m LONG_MAX] by linarith
    finally show ?thesis using that False by simp
  qed (simp add: LONG_MAX_def)
  obtain n q where d: "duration_digits 0 token = (n, q)" by fastforce
  with r have n: "0 \<le> n" by simp
  show "irc_parse_duration token \<in> {- 1} \<union> {0..LONG_MAX}"
  proof (cases token)
    case (Cons c s)
    show ?thesis
      using sc [OF n, of 1] sc [OF n] duration_unit_pos
      unfolding irc_parse_duration_def d Let_def prod.case
      by (auto simp: Cons simp del: duration_digits.simps split: list.split option.split)
  qed (simp add: irc_parse_duration_def)
qed (auto intro: parse_duration_unit)

theorem parse_duration_correct_witness:
  "irc_parse_duration (show_nat 12 @ ''h'') = 43200"
proof -
  have "duration_unit CHR ''h'' = Some 3600 \<and> int 12 \<le> LONG_MAX - 9" by code_simp
  with parse_duration_correct [of "[]" "CHR ''h''" 3600 12] show ?thesis by (simp add: LONG_MAX_def)
qed

end
