(* ===== verification/Streams.thy ===== *)
theory Streams
  imports Masks
begin

text \<open>
  Decoders of byte streams that arrive in arbitrary pieces. The interface \<open>stream_decoder\<close>
  states what such a decoder owes its caller (it consumes what it was given, and more input
  never changes a verdict); its client lemma says that the frames of a stream do not depend
  on how the stream was cut. Provided by the PROXY protocol v2 header parser of
  src/src/proto.c here and by the WebSocket frame decoder in theory Websocket.
\<close>

datatype 'r decoded = NeedMore | Bad | Frame 'r nat

text \<open>The frames at the start of a buffer: what was decoded, what is left, and whether it is malformed.\<close>

fun frames :: "nat \<Rightarrow> ('b list \<Rightarrow> 'r decoded) \<Rightarrow> 'b list \<Rightarrow> 'r list \<times> 'b list \<times> bool" where
  "frames 0 d bs = ([], bs, False)"
| "frames (Suc n) d bs =
     (case d bs of
        NeedMore \<Rightarrow> ([], bs, False)
      | Bad \<Rightarrow> ([], bs, True)
      | Frame r k \<Rightarrow>
          (case frames n d (drop k bs) of (rs, rest, bad) \<Rightarrow> (r # rs, rest, bad)))"

definition decode_all :: "('b list \<Rightarrow> 'r decoded) \<Rightarrow> 'b list \<Rightarrow> 'r list \<times> 'b list \<times> bool" where
  "decode_all d bs = frames (length bs) d bs"

text \<open>
  A connection that reads its input chunk by chunk: the undecoded rest is carried over, and
  malformed input ends it (nothing is kept then).
\<close>

fun feed :: "('b list \<Rightarrow> 'r decoded) \<Rightarrow> 'b list \<Rightarrow> 'b list list \<Rightarrow> 'r list \<times> 'b list \<times> bool" where
  "feed d carry [] = ([], carry, False)"
| "feed d carry (c # cs) =
     (case decode_all d (carry @ c) of (rs, rest, bad) \<Rightarrow>
        if bad then (rs, [], True)
        else (case feed d rest cs of (rs2, rest2, bad2) \<Rightarrow> (rs @ rs2, rest2, bad2)))"

locale stream_decoder =
  fixes decode :: "'b list \<Rightarrow> 'r decoded"
  assumes decode_Nil: "decode [] = NeedMore"
    and consumed: "decode bs = Frame r n \<Longrightarrow> 0 < n \<and> n \<le> length bs"
    and more_frame: "decode bs = Frame r n \<Longrightarrow> decode (bs @ tl2) = Frame r n"
    and more_bad: "decode bs = Bad \<Longrightarrow> decode (bs @ tl2) = Bad"
begin

lemma frames_enough:
  "length bs \<le> n \<Longrightarrow> frames n decode bs = decode_all decode bs"
proof (induction "length bs" arbitrary: bs n rule: less_induct)
  case less
  show ?case
  proof (cases "decode bs")
    case (Frame r k)
    from consumed [OF Frame] have k: "0 < k" "k \<le> length bs" by auto
    then obtain m where n: "n = Suc m" "length (drop k bs) \<le> m"
      using less.prems by (cases n) auto
    obtain l where l: "length bs = Suc l" using k by (cases "length bs") auto
    have "length (drop k bs) \<le> l" using k l by (simp del: length_0_conv)
    then have "frames m decode (drop k bs) = decode_all decode (drop k bs)"
      "frames l decode (drop k bs) = decode_all decode (drop k bs)"
      using less.hyps [of "drop k bs"] k n(2) by auto
    with Frame show ?thesis by (simp add: decode_all_def [of _ bs] n l)
  next
    case NeedMore
    then show ?thesis by (cases n; cases "length bs") (simp_all add: decode_all_def)
  next
    case Bad
    then have "bs \<noteq> []" using decode_Nil by auto
    with Bad less.prems show ?thesis by (cases n; cases "length bs") (simp_all add: decode_all_def)
  qed
qed

lemma decode_all_unfold:
  "decode_all decode bs =
     (case decode bs of
        NeedMore \<Rightarrow> ([], bs, False)
      | Bad \<Rightarrow> ([], bs, True)
      | Frame r k \<Rightarrow>
          (case decode_all decode (drop k bs) of (rs, rest, bad) \<Rightarrow> (r # rs, rest, bad)))"
proof (cases "length bs")
  case 0
  then show ?thesis by (simp add: decode_all_def decode_Nil)
next
  case (Suc l)
  have "frames l decode (drop k bs) = decode_all decode (drop k bs)" if "decode bs = Frame r k" for r k
    using consumed [OF that] Suc by (auto intro!: frames_enough)
  with Suc show ?thesis by (auto simp: decode_all_def [of _ bs] split: decoded.split)
qed

lemma decode_all_append:
  "decode_all decode bs = (rs, rest, False) \<Longrightarrow>
     decode_all decode (bs @ tl2) =
       (case decode_all decode (rest @ tl2) of (rs2, rest2, bad) \<Rightarrow> (rs @ rs2, rest2, bad))"
proof (induction "length bs" arbitrary: bs rs rule: less_induct)
  case less
  show ?case
  proof (cases "decode bs")
    case (Frame r k)
    from consumed [OF Frame] have k: "0 < k" "k \<le> length bs" by auto
    from less.prems Frame obtain rs' where rs: "rs = r # rs'"
      and d: "decode_all decode (drop k bs) = (rs', rest, False)"
      by (subst (asm) decode_all_unfold) (auto split: prod.splits)
    have "decode_all decode (drop k bs @ tl2) =
        (case decode_all decode (rest @ tl2) of (rs2, rest2, bad) \<Rightarrow> (rs' @ rs2, rest2, bad))"
      using less.hyps [OF _ d] k by simp
    with more_frame [OF Frame] k rs show ?thesis
      by (subst decode_all_unfold) (auto split: prod.splits)
  next
    case NeedMore
    with less.prems show ?thesis by (subst (asm) decode_all_unfold) (auto split: prod.splits)
  next
    case Bad
    with less.prems show ?thesis by (subst (asm) decode_all_unfold) simp
  qed
qed

lemma decode_all_bad_append:
  "decode_all decode bs = (rs, rest, True) \<Longrightarrow>
     fst (decode_all decode (bs @ tl2)) = rs \<and> snd (snd (decode_all decode (bs @ tl2)))"
proof (induction "length bs" arbitrary: bs rs rule: less_induct)
  case less
  show ?case
  proof (cases "decode bs")
    case (Frame r k)
    from consumed [OF Frame] have k: "0 < k" "k \<le> length bs" by auto
    from less.prems Frame obtain rs' where rs: "rs = r # rs'"
      and d: "decode_all decode (drop k bs) = (rs', rest, True)"
      by (subst (asm) decode_all_unfold) (auto split: prod.splits)
    have "fst (decode_all decode (drop k bs @ tl2)) = rs' \<and> snd (snd (decode_all decode (drop k bs @ tl2)))"
      using less.hyps [OF _ d] k by simp
    with more_frame [OF Frame] k rs show ?thesis
      by (subst (1 2) decode_all_unfold) (auto split: prod.splits)
  next
    case NeedMore
    with less.prems show ?thesis by (subst (asm) decode_all_unfold) simp
  next
    case Bad
    with less.prems more_bad [OF Bad, of tl2] show ?thesis
      by (subst (asm) decode_all_unfold, subst (1 2) decode_all_unfold) simp
  qed
qed

lemma decode_all_rest:
  "decode_all decode bs = (rs, rest, False) \<Longrightarrow> decode rest = NeedMore"
proof (induction "length bs" arbitrary: bs rs rule: less_induct)
  case less
  show ?case
  proof (cases "decode bs")
    case (Frame r k)
    from consumed [OF Frame] have k: "0 < k" "k \<le> length bs" by auto
    from less.prems Frame obtain rs' where "decode_all decode (drop k bs) = (rs', rest, False)"
      by (subst (asm) decode_all_unfold) (auto split: prod.splits)
    from less.hyps [OF _ this] k show ?thesis by simp
  qed (use less.prems in \<open>(subst (asm) decode_all_unfold, simp)+\<close>)
qed

lemma feed_concat:
  assumes "decode carry = NeedMore"
  shows "feed decode carry cs =
      (let (rs, rest, bad) = decode_all decode (carry @ concat cs) in (rs, if bad then [] else rest, bad))"
  using assms
proof (induction cs arbitrary: carry)
  case Nil
  then show ?case by (simp add: decode_all_unfold [of carry])
next
  case (Cons c cs)
  obtain rs rest bad where d: "decode_all decode (carry @ c) = (rs, rest, bad)" by (metis prod_cases3)
  show ?case
  proof (cases bad)
    case True
    with d decode_all_bad_append [of "carry @ c" rs rest "concat cs"] show ?thesis
      by (auto simp: Let_def split: prod.splits)
  next
    case False
    with d have "decode_all decode (carry @ c) = (rs, rest, False)" by simp
    from decode_all_append [OF this, of "concat cs"] Cons.IH [OF decode_all_rest [OF this]] d False
    show ?thesis by (simp add: Let_def split: prod.splits)
  qed
qed

end

section \<open>The PROXY protocol v2 header\<close>

record proxy_header =
  px_ip :: string
  px_port :: nat

definition PROXY_SIG :: "u8 list" where
  "PROXY_SIG = [0x0D, 0x0A, 0x0D, 0x0A, 0, 0x0D, 0x0A, 0x51, 0x55, 0x49, 0x54, 0x0A]"

definition be16 :: "u8 \<Rightarrow> u8 \<Rightarrow> nat" where
  "be16 hi lo = push_bit 8 (unat hi) OR unat lo"

fun show_hex :: "nat \<Rightarrow> string" where
  "show_hex n = (if n < 16 then [hex_digit n] else show_hex (n div 16) @ [hex_digit (n mod 16)])"

declare show_hex.simps [simp del]

definition show_ip4 :: "u8 list \<Rightarrow> string" where
  "show_ip4 a = show_nat (unat (a ! 0)) @ ''.'' @ show_nat (unat (a ! 1)) @ ''.'' @
     show_nat (unat (a ! 2)) @ ''.'' @ show_nat (unat (a ! 3))"

text \<open>The loop that prints eight 16-bit groups while more than 5 bytes are left in \<open>ip\<close>.\<close>

fun show_ip6 :: "u8 list \<Rightarrow> nat \<Rightarrow> nat \<Rightarrow> nat \<Rightarrow> string" where
  "show_ip6 a 0 i left = []"
| "show_ip6 a (Suc n) i left =
     (if left \<le> 5 then []
      else let s = (if i = 0 then [] else '':'') @ show_hex (be16 (a ! (2 * i)) (a ! (2 * i + 1)))
           in s @ show_ip6 a n (Suc i) (left - length s))"

definition irc_proxy_v2_parse :: "nat \<Rightarrow> u8 list \<Rightarrow> proxy_header decoded" where
  "irc_proxy_v2_parse ipsz buf =
     (let len = length buf; cmp = (if len < 12 then len else 12)
      in if take cmp buf \<noteq> take cmp PROXY_SIG then Bad
         else if len < 16 then NeedMore
         else if drop_bit 4 (buf ! 12) \<noteq> 2 then Bad
         else let alen = be16 (buf ! 14) (buf ! 15)
         in if alen > 512 then Bad
            else if len < 16 + alen then NeedMore
            else let consumed = 16 + alen; cmd = buf ! 12 AND 0x0f
            in if cmd = 0 then Frame \<lparr>px_ip = [], px_port = 0\<rparr> consumed
               else if cmd \<noteq> 1 then Bad
               else let a = take alen (drop 16 buf)
               in if buf ! 13 = 0x11 \<and> alen \<ge> 12
                    then Frame \<lparr>px_ip = clip ipsz (show_ip4 a), px_port = be16 (a ! 8) (a ! 9)\<rparr> consumed
                  else if buf ! 13 = 0x21 \<and> alen \<ge> 36
                    then Frame \<lparr>px_ip = show_ip6 a 8 0 ipsz, px_port = be16 (a ! 32) (a ! 33)\<rparr> consumed
                  else Bad)"

lemma proxy_more_frame:
  assumes "irc_proxy_v2_parse z bs = Frame r n"
  shows "irc_proxy_v2_parse z (bs @ tl2) = Frame r n"
proof -
  from assms have len: "16 + be16 (bs ! 14) (bs ! 15) \<le> length bs" "16 \<le> length bs"
    by (auto simp: irc_proxy_v2_parse_def Let_def split: if_splits)
  then have idx: "(bs @ tl2) ! i = bs ! i" if "i < 16" for i using that by (simp add: nth_append)
  have sec: "take (be16 (bs ! 14) (bs ! 15)) (drop 16 (bs @ tl2)) = take (be16 (bs ! 14) (bs ! 15)) (drop 16 bs)"
    using len by simp
  have sig: "take 12 (bs @ tl2) = take 12 bs" using len by simp
  show ?thesis
    using assms len unfolding irc_proxy_v2_parse_def Let_def
    by (simp add: idx sec sig split: if_splits)
qed

lemma proxy_more_bad:
  assumes "irc_proxy_v2_parse z bs = Bad"
  shows "irc_proxy_v2_parse z (bs @ tl2) = Bad"
proof -
  define cmp where "cmp = (if length bs < 12 then length bs else 12)"
  define cmp2 where "cmp2 = (if length (bs @ tl2) < 12 then length (bs @ tl2) else 12)"
  show ?thesis
  proof (cases "take cmp bs = take cmp PROXY_SIG")
    case False
    have le: "cmp \<le> cmp2" by (auto simp: cmp_def cmp2_def)
    have "take cmp2 (bs @ tl2) \<noteq> take cmp2 PROXY_SIG"
    proof
      assume "take cmp2 (bs @ tl2) = take cmp2 PROXY_SIG"
      then have "take cmp (take cmp2 (bs @ tl2)) = take cmp (take cmp2 PROXY_SIG)" by simp
      then have "take cmp (bs @ tl2) = take cmp PROXY_SIG" using le by (simp only: take_take min_absorb1)
      with False show False by (auto simp: cmp_def split: if_splits)
    qed
    then have "take cmp2 (bs @ tl2) = take cmp2 PROXY_SIG \<longleftrightarrow> False" by blast
    then show ?thesis
      unfolding irc_proxy_v2_parse_def Let_def cmp2_def [symmetric] by (simp only: if_True not_False_eq_True)
  next
    case True
    with assms have len: "16 \<le> length bs"
      by (auto simp: irc_proxy_v2_parse_def Let_def cmp_def split: if_splits)
    then have idx: "(bs @ tl2) ! i = bs ! i" if "i < 16" for i using that by (simp add: nth_append)
    have sig: "take 12 (bs @ tl2) = take 12 bs" using len by simp
    have sec: "take (be16 (bs ! 14) (bs ! 15)) (drop 16 (bs @ tl2)) = take (be16 (bs ! 14) (bs ! 15)) (drop 16 bs)"
      if "16 + be16 (bs ! 14) (bs ! 15) \<le> length bs"
      using that by simp
    show ?thesis
      using assms len sec unfolding irc_proxy_v2_parse_def Let_def
      by (simp add: idx sig split: if_splits)
  qed
qed

interpretation px: stream_decoder "irc_proxy_v2_parse ipsz" for ipsz
proof
  show "irc_proxy_v2_parse ipsz [] = NeedMore" by (simp add: irc_proxy_v2_parse_def)
  show "0 < n \<and> n \<le> length bs" if "irc_proxy_v2_parse ipsz bs = Frame r n" for bs r n
    using that by (auto simp: irc_proxy_v2_parse_def Let_def split: if_splits)
qed (rule proxy_more_frame proxy_more_bad, assumption)+

section \<open>Properties\<close>

text \<open>
  The PROXY v2 parser may be called again on every read: once it has accepted or refused
  a header, the bytes that arrive behind it change neither the verdict nor the address, and
  an accepted header never claims more bytes than were received.
\<close>

theorem proxy_v2_incremental:
  "(case irc_proxy_v2_parse z buf of
      NeedMore \<Rightarrow> True
    | Bad \<Rightarrow> irc_proxy_v2_parse z (buf @ tl2) = Bad
    | Frame h n \<Rightarrow> irc_proxy_v2_parse z (buf @ tl2) = Frame h n \<and> 16 \<le> n \<and> n \<le> length buf \<and> n \<le> 528)"
proof (cases "irc_proxy_v2_parse z buf")
  case (Frame h n)
  then have "16 \<le> n \<and> n \<le> 528" by (auto simp: irc_proxy_v2_parse_def Let_def split: if_splits)
  with Frame px.more_frame [OF Frame] px.consumed [OF Frame] show ?thesis by simp
qed (use px.more_bad in auto)

end
