(* ===== verification/Websocket.thy ===== *)
theory Websocket
  imports Streams
begin

text \<open>
  src/src/ws.c: the HTTP upgrade handshake and the RFC 6455 frame codec. Frames are lists of
  bytes (\<open>8 word\<close>); the frame decoder provides the \<open>stream_decoder\<close> interface of theory
  Streams. SHA-1 with base64 belongs to OpenSSL and is the parameter \<open>sha1_b64\<close>. The last
  part takes the position of a client: it builds masked frames and reads the server's.
\<close>

unbundle bit_operations_syntax

definition WS_MAX_PAYLOAD :: nat where "WS_MAX_PAYLOAD = 4000"

definition WS_GUID :: string where "WS_GUID = ''258EAFA5-E914-47DA-95CA-C5AB0DC85B11''"

abbreviation CRLF :: string where "CRLF \<equiv> [CR, LF]"

section \<open>The handshake\<close>

definition ws_accept_key :: "(string \<Rightarrow> string) \<Rightarrow> string \<Rightarrow> nat \<Rightarrow> string option" where
  "ws_accept_key sha1_b64 client_key outsz =
     (let buf = client_key @ WS_GUID
      in if length buf = 0 \<or> length buf \<ge> 128 then None
         else if outsz < 29 then None
         else let b = sha1_b64 buf
              in if b = [] \<or> length b \<ge> outsz then None else Some b)"

definition is_blank :: "char \<Rightarrow> bool" where
  "is_blank c \<longleftrightarrow> c = SP \<or> c = CHR 0x09"

text \<open>One header line: its value if the line is the header \<open>name\<close>.\<close>

definition header_line :: "string \<Rightarrow> nat \<Rightarrow> string \<Rightarrow> string option" where
  "header_line name outsz line =
     (let nl = length name
      in if length line > nl \<and> starts_nocase name line \<and> line ! nl = CHR '':''
         then (let v = dropWhile is_blank (drop (nl + 1) line);
                   w = rev (dropWhile is_blank (rev v))
               in Some (if length w \<ge> outsz then take (outsz - 1) w else w))
         else None)"

function header_value :: "string \<Rightarrow> string \<Rightarrow> nat \<Rightarrow> string option" where
  "header_value req name outsz =
     (if req = [] then None
      else case split_str CRLF req of
             None \<Rightarrow> header_line name outsz req
           | Some (line, rest) \<Rightarrow>
               (case header_line name outsz line of
                  Some v \<Rightarrow> Some v
                | None \<Rightarrow> header_value rest name outsz))"
  by pat_completeness auto

lemma split_str_SomeD:
  "split_str p s = Some (a, b) \<Longrightarrow> s = a @ p @ b"
proof (induction p s arbitrary: a rule: split_str.induct)
  case (1 p s)
  show ?case
  proof (cases "starts_with p s")
    case True
    with "1.prems" show ?thesis
      by (subst (asm) split_str.simps) (auto simp: starts_with_def, metis append_take_drop_id)
  next
    case False
    with "1.prems" obtain x xs where s: "s = x # xs" by (subst (asm) split_str.simps) (auto split: list.splits)
    with False "1.prems" obtain a' where a: "a = x # a'" and "split_str p xs = Some (a', b)"
      by (subst (asm) split_str.simps) auto
    with "1.IH" [OF False s] s show ?thesis by simp
  qed
qed

termination header_value
proof (relation "measure (\<lambda>(req, _, _). length req)", simp)
  fix req name :: string and outsz :: nat and x :: "string \<times> string" and a b
  assume "split_str CRLF req = Some x" and "(a, b) = x"
  then have "split_str CRLF req = Some (a, b)" by simp
  from split_str_SomeD [OF this]
  show "((b, name, outsz), req, name, outsz) \<in> measure (\<lambda>(req, _, _). length req)" by simp
qed

declare header_value.simps [simp del]

record ws_request =
  wr_key :: string
  wr_origin :: string
  wr_text_proto :: bool
  wr_https :: bool
  wr_forwarded :: string

definition or_empty :: "string option \<Rightarrow> string" where
  "or_empty v = (case v of None \<Rightarrow> [] | Some s \<Rightarrow> s)"

definition list_sep :: "char \<Rightarrow> bool" where
  "list_sep c \<longleftrightarrow> c = CHR '','' \<or> is_blank c"

definition ws_parse_request :: "string \<Rightarrow> ws_request option" where
  "ws_parse_request req =
     (if \<not> starts_with ''GET '' req then None
      else case header_value req ''Upgrade'' 32 of
        None \<Rightarrow> None
      | Some upgrade \<Rightarrow>
          if \<not> strcaseeq upgrade ''websocket'' then None
          else case header_value req ''Sec-WebSocket-Key'' 64 of
            None \<Rightarrow> None
          | Some key \<Rightarrow>
              if key = [] then None
              else let
                origin = or_empty (header_value req ''Origin'' 256);
                sub = or_empty (header_value req ''Sec-WebSocket-Protocol'' 128);
                text = (\<exists>t \<in> set (strtok list_sep sub). strcaseeq t ''text.ircv3.net'');
                forwarded = (case header_value req ''X-Forwarded-For'' 256 of
                               Some f \<Rightarrow> f
                             | None \<Rightarrow> or_empty (header_value req ''X-Real-IP'' 256));
                proto = or_empty (header_value req ''X-Forwarded-Proto'' 64);
                https = (proto \<noteq> [] \<and> (\<forall>t \<in> set (strtok list_sep proto). strcaseeq t ''https''))
              in Some \<lparr>wr_key = key, wr_origin = origin, wr_text_proto = text,
                       wr_https = https, wr_forwarded = forwarded\<rparr>)"

text \<open>
  The walk from the right of a forwarded list; \<open>buf\<close> is the part not yet given up. The
  result is \<open>out\<close> and whether it is non-empty (the C function returns 0) or not (-1).
\<close>

definition forwarded_entry :: "string \<Rightarrow> string" where
  "forwarded_entry v = takeWhile (\<lambda>c. \<not> is_blank c) (dropWhile is_blank v)"

function ws_forwarded_loop :: "inet \<Rightarrow> string list \<Rightarrow> nat \<Rightarrow> string \<Rightarrow> string option" where
  "ws_forwarded_loop I globs outsz buf =
     (let comma = split_rchr CHR '','' buf;
          v = forwarded_entry (case comma of None \<Rightarrow> buf | Some (l, r) \<Rightarrow> r);
          out = clip outsz v;
          trusted = (\<exists>g \<in> set globs. irc_ip_mask_match I g v)
      in case comma of
           None \<Rightarrow> if out \<noteq> [] then Some out else None
         | Some (l, r) \<Rightarrow>
             if \<not> trusted then (if out \<noteq> [] then Some out else None)
             else ws_forwarded_loop I globs outsz l)"
  by pat_completeness auto
termination
  by (relation "measure (\<lambda>(_, _, _, buf). length buf)") (auto dest: split_rchr_SomeD [OF sym] split_rchr_SomeD)

declare ws_forwarded_loop.simps [simp del]

definition ws_forwarded_client :: "inet \<Rightarrow> string \<Rightarrow> string list \<Rightarrow> nat \<Rightarrow> string option" where
  "ws_forwarded_client I lst globs outsz = ws_forwarded_loop I globs outsz (clip 256 lst)"

definition ws_build_response :: "(string \<Rightarrow> string) \<Rightarrow> string \<Rightarrow> bool \<Rightarrow> nat \<Rightarrow> string option" where
  "ws_build_response sha1_b64 client_key text_proto outsz =
     (case ws_accept_key sha1_b64 client_key 64 of
        None \<Rightarrow> None
      | Some acc \<Rightarrow>
          (let r = ''HTTP/1.1 101 Switching Protocols'' @ CRLF @ ''Upgrade: websocket'' @ CRLF @
                   ''Connection: Upgrade'' @ CRLF @ ''Sec-WebSocket-Accept: '' @ acc @ CRLF @
                   (if text_proto then ''Sec-WebSocket-Protocol: text.ircv3.net'' @ CRLF else []) @ CRLF
           in if length r < outsz then Some r else None))"

section \<open>Frames\<close>

definition ws_frame_header :: "nat \<Rightarrow> nat \<Rightarrow> u8 list" where
  "ws_frame_header opcode len =
     (let b0 = 0x80 OR (word_of_nat opcode AND 0x0f) :: u8
      in if len < 126 then [b0, word_of_nat len]
         else if len \<le> 0xffff then [b0, 126, word_of_nat (drop_bit 8 len), word_of_nat len]
         else [b0, 127] @ map (\<lambda>i. word_of_nat (drop_bit (8 * i) len)) (rev [0..<8]))"

definition ws_encode_frame :: "nat \<Rightarrow> u8 list \<Rightarrow> u8 list" where
  "ws_encode_frame opcode payload = ws_frame_header opcode (length payload) @ payload"

record ws_frame =
  wf_opcode :: nat
  wf_fin :: bool
  wf_payload :: "u8 list"

text \<open>The length field: \<open>Frame len h\<close> when it is complete, \<open>h\<close> the offset of the mask.\<close>

definition be64 :: "u8 list \<Rightarrow> 64 word" where
  "be64 bs = foldl (\<lambda>l b. push_bit 8 l OR ucast b) 0 bs"

definition ws_length :: "u8 list \<Rightarrow> nat decoded" where
  "ws_length buf =
     (let inlen = length buf; len = unat (buf ! 1 AND 0x7f)
      in if len = 126 then
           (if inlen < 4 then NeedMore else Frame (be16 (buf ! 2) (buf ! 3)) 4)
         else if len = 127 then
           (if inlen < 10 then NeedMore
            else let l = be64 (take 8 (drop 2 buf))
                 in if unat l > WS_MAX_PAYLOAD then Bad else Frame (unat l) 10)
         else Frame len 2)"

text \<open>The key stream applied to a payload: \<open>p[i] ^= mask[i \& 3]\<close>.\<close>

definition ws_unmask :: "u8 list \<Rightarrow> u8 list \<Rightarrow> u8 list" where
  "ws_unmask key p = map (\<lambda>i. p ! i XOR key ! (i AND 3)) [0..<length p]"

definition ws_decode_frame :: "u8 list \<Rightarrow> ws_frame decoded" where
  "ws_decode_frame buf =
     (let inlen = length buf
      in if inlen < 2 then NeedMore
         else if buf ! 0 AND 0x70 \<noteq> 0 then Bad
         else let fin = (buf ! 0 AND 0x80 \<noteq> 0); opcode = unat (buf ! 0 AND 0x0f)
         in if buf ! 1 AND 0x80 = 0 then Bad
         else case ws_length buf of
             NeedMore \<Rightarrow> NeedMore
           | Bad \<Rightarrow> Bad
           | Frame len h \<Rightarrow>
               if len > WS_MAX_PAYLOAD then Bad
               else if opcode \<ge> 8 \<and> (len > 125 \<or> \<not> fin) then Bad
               else if inlen < h + 4 + len then NeedMore
               else Frame \<lparr>wf_opcode = opcode, wf_fin = fin,
                           wf_payload = ws_unmask (take 4 (drop h buf)) (take len (drop (h + 4) buf))\<rparr>
                          (h + 4 + len))"

text \<open>
  The input buffer after a call: the payload of a decoded frame is unmasked in place, so the
  buffer itself now holds the plain bytes behind the (unchanged) header and mask.
\<close>

definition ws_buffer_after :: "u8 list \<Rightarrow> u8 list" where
  "ws_buffer_after buf =
     (case ws_decode_frame buf of
        Frame f n \<Rightarrow> take (n - length (wf_payload f)) buf @ wf_payload f @ drop n buf
      | _ \<Rightarrow> buf)"

section \<open>The frame decoder is a stream decoder\<close>

lemma ws_length_append:
  "2 \<le> length bs \<Longrightarrow> ws_length bs \<noteq> NeedMore \<Longrightarrow> ws_length (bs @ tl2) = ws_length bs"
  by (cases bs) (auto simp: ws_length_def Let_def nth_append split: if_splits)

lemma ws_length_pos: "ws_length bs = Frame len h \<Longrightarrow> 2 \<le> h"
  by (auto simp: ws_length_def Let_def split: if_splits)

lemma ws_more_frame:
  assumes "ws_decode_frame bs = Frame r n"
  shows "ws_decode_frame (bs @ tl2) = Frame r n"
proof -
  from assms have len: "2 \<le> length bs" and l: "ws_length bs \<noteq> NeedMore"
    by (auto simp: ws_decode_frame_def Let_def split: if_splits decoded.splits)
  then have idx: "(bs @ tl2) ! 0 = bs ! 0" "(bs @ tl2) ! Suc 0 = bs ! Suc 0"
    by (auto simp: nth_append)
  show ?thesis
    using assms ws_length_append [OF len l] len unfolding ws_decode_frame_def Let_def
    by (auto simp: idx split: if_splits decoded.splits)
qed

lemma ws_more_bad:
  assumes "ws_decode_frame bs = Bad"
  shows "ws_decode_frame (bs @ tl2) = Bad"
proof -
  from assms have len: "2 \<le> length bs"
    by (auto simp: ws_decode_frame_def Let_def split: if_splits decoded.splits)
  then have idx: "(bs @ tl2) ! 0 = bs ! 0" "(bs @ tl2) ! Suc 0 = bs ! Suc 0"
    by (auto simp: nth_append)
  show ?thesis
  proof (cases "ws_length bs = NeedMore")
    case True
    with assms len show ?thesis unfolding ws_decode_frame_def Let_def by (simp add: idx split: if_splits)
  next
    case False
    show ?thesis
      using assms ws_length_append [OF len False] len unfolding ws_decode_frame_def Let_def
      by (auto simp: idx split: if_splits decoded.splits)
  qed
qed

interpretation ws: stream_decoder ws_decode_frame
proof
  show "ws_decode_frame [] = NeedMore" by (simp add: ws_decode_frame_def)
  show "0 < n \<and> n \<le> length bs" if "ws_decode_frame bs = Frame r n" for bs r n
    using that by (auto simp: ws_decode_frame_def Let_def split: if_splits decoded.splits)
qed (rule ws_more_frame ws_more_bad, assumption)+

lemma length_ws_unmask [simp]: "length (ws_unmask k p) = length p"
  by (simp add: ws_unmask_def)

lemma ws_unmask_involutive [simp]: "ws_unmask k (ws_unmask k p) = p"
  by (rule nth_equalityI) (simp_all add: ws_unmask_def xor.assoc)

section \<open>The client's side\<close>

text \<open>How a browser frames a message: final bit and opcode, masked length, key, masked payload.\<close>

definition client_header :: "ws_frame \<Rightarrow> u8 list" where
  "client_header f =
     (let b0 = (if wf_fin f then 0x80 else 0) OR word_of_nat (wf_opcode f) :: u8; len = length (wf_payload f)
      in if len < 126 then [b0, 0x80 OR word_of_nat len]
         else [b0, 0xFE, word_of_nat (len div 256), word_of_nat (len mod 256)])"

definition client_frame :: "u8 list \<Rightarrow> ws_frame \<Rightarrow> u8 list" where
  "client_frame key f = client_header f @ key @ ws_unmask key (wf_payload f)"

definition sendable :: "ws_frame \<Rightarrow> bool" where
  "sendable f \<longleftrightarrow> wf_opcode f < 16 \<and> length (wf_payload f) \<le> WS_MAX_PAYLOAD \<and>
     (8 \<le> wf_opcode f \<longrightarrow> wf_fin f \<and> length (wf_payload f) \<le> 125)"

lemma small_byte_and_check:
  "\<forall>n \<in> set [0..<128]. (0x80 OR word_of_nat n :: u8) AND 0x7f = word_of_nat n \<and>
     (0x80 OR word_of_nat n :: u8) AND 0x80 \<noteq> 0 \<and> unat (word_of_nat n :: u8) = n"
  by code_simp

lemma small_byte_and:
  assumes "n < 128"
  shows "(0x80 OR word_of_nat n :: u8) AND 0x7f = word_of_nat n"
    and "(0x80 OR word_of_nat n :: u8) AND 0x80 \<noteq> 0"
    and "unat (word_of_nat n :: u8) = n"
  using small_byte_and_check [rule_format, of n] assms by simp_all

lemma opcode_byte_check:
  "\<forall>n \<in> set [0..<16]. \<forall>b \<in> {False, True}.
     let w = (if b then 0x80 else 0) OR word_of_nat n :: u8
     in w AND 0x70 = 0 \<and> (w AND 0x80 \<noteq> 0) = b \<and> unat (w AND 0x0f) = n"
  by code_simp

lemma opcode_byte:
  assumes "n < 16"
  shows "((if b then 0x80 else 0) OR word_of_nat n :: u8) AND 0x70 = 0"
    and "((if b then 0x80 else 0) OR word_of_nat n :: u8) AND 0x80 \<noteq> 0 \<longleftrightarrow> b"
    and "unat (((if b then 0x80 else 0) OR word_of_nat n :: u8) AND 0x0f) = n"
  using opcode_byte_check [rule_format, of n b] assms by (simp_all add: Let_def)

lemma be16_bytes:
  assumes "n < 65536"
  shows "be16 (word_of_nat (n div 256)) (word_of_nat (n mod 256)) = n"
proof -
  have "push_bit 8 (n div 256) OR n mod 256 = n div 256 * 256 + n mod 256"
  proof -
    have "push_bit 8 (n div 256) + n mod 256 = push_bit 8 (n div 256) OR n mod 256"
    proof (rule disjunctive_add)
      have "n mod 256 = take_bit 8 n" by (simp add: take_bit_eq_mod)
      then show "\<not> bit (push_bit 8 (n div 256)) i \<or> \<not> bit (n mod 256) i" for i
        by (simp only: bit_push_bit_iff bit_take_bit_iff) auto
    qed
    then show ?thesis by (simp add: push_bit_eq_mult)
  qed
  with assms show ?thesis by (simp add: be16_def unsigned_of_nat take_bit_nat_eq_self push_bit_eq_mult)
qed

lemma client_decode:
  assumes f: "sendable f" and k: "length key = 4"
  shows "ws_decode_frame (client_frame key f @ tl2) = Frame f (length (client_frame key f))"
proof -
  define len where "len = length (wf_payload f)"
  define h where "h = (if len < 126 then 2 else 4 :: nat)"
  define buf where "buf = client_frame key f @ tl2"
  have len: "len \<le> 4000" "wf_opcode f < 16" "8 \<le> wf_opcode f \<longrightarrow> wf_fin f \<and> len \<le> 125"
    using f by (auto simp: sendable_def WS_MAX_PAYLOAD_def len_def)
  have hl: "length (client_header f) = h" by (simp add: client_header_def Let_def h_def len_def)
  then have flen: "length (client_frame key f) = h + 4 + len"
    by (simp add: client_frame_def k len_def)
  have b0: "buf ! 0 = (if wf_fin f then 0x80 else 0) OR word_of_nat (wf_opcode f)"
    by (simp add: buf_def client_frame_def client_header_def Let_def)
  have b1: "buf ! 1 = (if len < 126 then 0x80 OR word_of_nat len else 0xFE)"
    by (simp add: buf_def client_frame_def client_header_def Let_def len_def)
  have m: "buf ! 1 AND 0x80 \<noteq> 0" using b1 small_byte_and(2) [of len] by simp
  have l: "ws_length buf = Frame len h"
  proof (cases "len < 126")
    case True
    with b1 small_byte_and [of len] show ?thesis by (simp add: ws_length_def h_def)
  next
    case False
    then have "be16 (buf ! 2) (buf ! 3) = len"
      using be16_bytes [of len] len by (simp add: buf_def client_frame_def client_header_def Let_def len_def)
    with False b1 flen show ?thesis by (simp add: ws_length_def h_def buf_def)
  qed
  have key: "take 4 (drop h buf) = key"
    and pay: "take len (drop (h + 4) buf) = ws_unmask key (wf_payload f)"
    using hl k by (simp_all add: buf_def client_frame_def len_def)
  have n: "\<not> length buf < h + 4 + len" "\<not> length buf < 2" by (simp_all add: buf_def flen h_def)
  have rsv: "\<not> buf ! 0 AND 0x70 \<noteq> 0" and fin: "(buf ! 0 AND 0x80 \<noteq> 0) = wf_fin f"
    and op: "unat (buf ! 0 AND 0x0f) = wf_opcode f"
    unfolding b0 using opcode_byte [OF len(2)] by blast+
  have ok: "\<not> WS_MAX_PAYLOAD < len" "\<not> (8 \<le> wf_opcode f \<and> (125 < len \<or> \<not> wf_fin f))"
    using len by (auto simp: WS_MAX_PAYLOAD_def)
  show ?thesis
    unfolding buf_def [symmetric] ws_decode_frame_def Let_def fin op l decoded.case key pay
    by (simp only: if_False n rsv m ok simp_thms ws_unmask_involutive flen) simp
qed

lemma client_stream:
  assumes "\<forall>(key, f) \<in> set kfs. length key = 4 \<and> sendable f"
  shows "decode_all ws_decode_frame (concat (map (\<lambda>(key, f). client_frame key f) kfs)) = (map snd kfs, [], False)"
  using assms
proof (induction kfs)
  case Nil
  then show ?case by (simp add: decode_all_def)
next
  case (Cons kf kfs)
  obtain key f where kf: "kf = (key, f)" by (cases kf)
  have "ws_decode_frame (client_frame key f @ concat (map (\<lambda>(key, f). client_frame key f) kfs)) =
      Frame f (length (client_frame key f))"
    using Cons.prems by (intro client_decode) (auto simp: kf)
  with Cons show ?case by (subst ws.decode_all_unfold) (simp add: kf)
qed

text \<open>A client's reading of a server frame: opcode, payload and what follows.\<close>

definition big_endian :: "u8 list \<Rightarrow> nat" where
  "big_endian bs = foldl (\<lambda>n b. n * 256 + unat b) 0 bs"

definition client_read :: "u8 list \<Rightarrow> (nat \<times> u8 list \<times> u8 list) option" where
  "client_read bs =
     (case bs of
        b0 # b1 # r \<Rightarrow>
          (let k = (if b1 = 126 then 2 else if b1 = 127 then 8 else 0);
               len = (if k = 0 then unat b1 else big_endian (take k r))
           in if b0 AND 0x80 = 0 \<or> b1 AND 0x80 \<noteq> 0 \<or> length r < k + len then None
              else Some (unat (b0 AND 0x0f), take len (drop k r), drop (k + len) r))
      | _ \<Rightarrow> None)"

lemma big_endian_bytes:
  "foldl (\<lambda>n b. n * 256 + unat b) a (map (\<lambda>i. word_of_nat (drop_bit (8 * i) n) :: u8) (rev [0..<k])) =
     a * 256 ^ k + n mod 256 ^ k"
proof (induction k arbitrary: a)
  case (Suc k)
  have "unat (word_of_nat (drop_bit (8 * k) n) :: u8) = n div 256 ^ k mod 256"
    by (simp add: unsigned_of_nat take_bit_eq_mod drop_bit_eq_div power_mult)
  moreover have "n mod 256 ^ Suc k = n div 256 ^ k mod 256 * 256 ^ k + n mod 256 ^ k"
    by (metis add.commute mod_mult2_eq mult.commute power_Suc2)
  moreover have "foldl (\<lambda>n b. n * 256 + unat b) a
        (map (\<lambda>i. word_of_nat (drop_bit (8 * i) n) :: u8) (rev [0..<Suc k])) =
      (a * 256 + unat (word_of_nat (drop_bit (8 * k) n) :: u8)) * 256 ^ k + n mod 256 ^ k"
    using Suc.IH by simp
  ultimately show ?case by (simp add: algebra_simps)
qed simp

lemma plain_len_byte_check:
  "\<forall>n \<in> set [0..<126]. (word_of_nat n :: u8) AND 0x80 = 0 \<and> unat (word_of_nat n :: u8) = n \<and>
     (word_of_nat n :: u8) \<noteq> 126 \<and> (word_of_nat n :: u8) \<noteq> 127"
  by code_simp

lemma server_byte_check:
  "\<forall>n \<in> set [0..<16]. let w = 0x80 OR (word_of_nat n AND 0x0f) :: u8 in w AND 0x80 \<noteq> 0 \<and> unat (w AND 0x0f) = n"
  by code_simp

lemma server_frame_read:
  assumes op: "opcode < 16" and len: "length p < 2 ^ 64"
  shows "client_read (ws_encode_frame opcode p @ rest) = Some (opcode, p, rest)"
proof -
  define b0 where "b0 = (0x80 OR (word_of_nat opcode AND 0x0f) :: u8)"
  have b0: "b0 AND 0x80 \<noteq> 0" "unat (b0 AND 0x0f) = opcode"
    using server_byte_check [rule_format, of opcode] op by (simp_all add: Let_def b0_def)
  consider "length p < 126" | "126 \<le> length p" "length p \<le> 0xffff" | "0xffff < length p" by linarith
  then show ?thesis
  proof cases
    case 1
    with plain_len_byte_check [rule_format, of "length p"] b0 show ?thesis
      by (simp add: client_read_def ws_encode_frame_def ws_frame_header_def b0_def [symmetric] Let_def)
  next
    case 2
    then have "big_endian [word_of_nat (drop_bit 8 (length p)), word_of_nat (length p)] = length p"
      using big_endian_bytes [of 0 "length p" 2] by (simp add: big_endian_def upt_conv_Cons numeral_2_eq_2)
    with 2 b0 show ?thesis
      by (simp add: client_read_def ws_encode_frame_def ws_frame_header_def b0_def [symmetric] Let_def)
  next
    case 3
    define l8 where "l8 = map (\<lambda>i. word_of_nat (drop_bit (8 * i) (length p)) :: u8) (rev [0..<8])"
    have l8: "length l8 = 8" "big_endian l8 = length p"
      using big_endian_bytes [of 0 "length p" 8] len by (simp_all add: l8_def big_endian_def del: upt_rec_numeral)
    have "ws_encode_frame opcode p = b0 # 127 # l8 @ p"
      using 3 by (simp add: ws_encode_frame_def ws_frame_header_def Let_def b0_def l8_def del: upt_rec_numeral)
    with l8 b0 show ?thesis by (simp add: client_read_def Let_def)
  qed
qed

section \<open>Headers and forwarded addresses\<close>

text \<open>The first header line that answers, in the order of the request.\<close>

fun first_some :: "('a \<Rightarrow> 'b option) \<Rightarrow> 'a list \<Rightarrow> 'b option" where
  "first_some f [] = None"
| "first_some f (x # xs) = (case f x of Some y \<Rightarrow> Some y | None \<Rightarrow> first_some f xs)"

text \<open>The entries of a comma-separated list, and the rightmost one that is not trusted.\<close>

function comma_parts :: "string \<Rightarrow> string list" where
  "comma_parts s = (case split_chr CHR '','' s of None \<Rightarrow> [s] | Some (a, b) \<Rightarrow> a # comma_parts b)"
  by pat_completeness auto
termination
  by (relation "measure length") (auto dest: split_chr_length [OF sym] split_chr_length)

declare comma_parts.simps [simp del]

definition nearest_untrusted :: "(string \<Rightarrow> bool) \<Rightarrow> string list \<Rightarrow> string" where
  "nearest_untrusted trusted es =
     (case dropWhile trusted (rev es) of [] \<Rightarrow> hd es | e # _ \<Rightarrow> e)"

lemma comma_parts_nonempty [simp]: "comma_parts s \<noteq> []"
  by (subst comma_parts.simps) (auto split: option.splits)

lemma comma_parts_snoc:
  "CHR '','' \<notin> set r \<Longrightarrow> comma_parts (l @ CHR '','' # r) = comma_parts l @ [r]"
proof (induction l rule: comma_parts.induct)
  case (1 l)
  show ?case
  proof (cases "split_chr CHR '','' l")
    case None
    then have "CHR '','' \<notin> set l" by (simp add: split_chr_None_iff)
    with "1.prems" show ?thesis by (simp add: comma_parts.simps [of "l @ _"] comma_parts.simps [of l] comma_parts.simps [of r])
  next
    case (Some x)
    obtain a b where x: "x = (a, b)" by (cases x)
    with Some have l: "l = a @ CHR '','' # b" and a: "CHR '','' \<notin> set a" by (auto dest: split_chr_SomeD)
    have "comma_parts (b @ CHR '','' # r) = comma_parts b @ [r]" using 1 Some x by blast
    with a show ?thesis by (simp add: l comma_parts.simps [of "a @ _"])
  qed
qed

lemma comma_parts_single: "CHR '','' \<notin> set s \<Longrightarrow> comma_parts s = [s]"
  by (simp add: comma_parts.simps [of s])

lemma nearest_untrusted_snoc:
  "es \<noteq> [] \<Longrightarrow> nearest_untrusted t (es @ [e]) = (if t e then nearest_untrusted t es else e)"
proof (cases "\<forall>x \<in> set es. t x")
  case True
  then have "dropWhile t (rev es) = []" by (simp add: dropWhile_eq_Nil_conv)
  moreover assume "es \<noteq> []"
  ultimately show ?thesis by (simp add: nearest_untrusted_def del: dropWhile_eq_Nil_conv)
next
  case False
  then obtain a b where "dropWhile t (rev es) = a # b"
    by (metis dropWhile_eq_Nil_conv list.exhaust set_rev)
  then show ?thesis by (simp add: nearest_untrusted_def)
qed

lemma forwarded_loop_spec:
  "ws_forwarded_loop I globs outsz buf =
     (let out = clip outsz (nearest_untrusted (\<lambda>v. \<exists>g \<in> set globs. irc_ip_mask_match I g v)
                              (map forwarded_entry (comma_parts buf)))
      in if out \<noteq> [] then Some out else None)"
proof (induction "length buf" arbitrary: buf rule: less_induct)
  case less
  show ?case
  proof (cases "split_rchr CHR '','' buf")
    case None
    then have "CHR '','' \<notin> set buf" by (simp add: split_rchr_def split_chr_None_iff)
    with None show ?thesis
      by (subst ws_forwarded_loop.simps) (simp add: comma_parts_single nearest_untrusted_def Let_def)
  next
    case (Some x)
    obtain l r where x: "x = (l, r)" by (cases x)
    with Some have b: "buf = l @ CHR '','' # r" and r: "CHR '','' \<notin> set r" by (auto dest: split_rchr_SomeD)
    have "length l < length buf" by (simp add: b)
    note IH = less.hyps [OF this]
    show ?thesis
      unfolding ws_forwarded_loop.simps [of I globs outsz buf] Some x option.case prod.case Let_def IH
      unfolding b comma_parts_snoc [OF r]
      by (simp add: nearest_untrusted_snoc)
  qed
qed

lemma split_str_CRLF:
  "CR \<notin> set a \<Longrightarrow> split_str CRLF (a @ CRLF @ b) = Some (a, b)"
  by (induction a) (auto simp: split_str.simps [of CRLF "_ # _"] starts_with_def)

lemma split_str_CRLF_None: "CR \<notin> set a \<Longrightarrow> split_str CRLF a = None"
  by (induction a) (auto simp: split_str.simps [of CRLF "_ # _"] split_str.simps [of CRLF "[]"] starts_with_def)

lemma header_value_lines:
  assumes "\<forall>l \<in> set ls. CR \<notin> set l" and "CR \<notin> set z"
  shows "header_value (concat (map (\<lambda>l. l @ CRLF) ls) @ z) name n = first_some (header_line name n) (ls @ [z])"
  using assms(1)
proof (induction ls)
  case Nil
  have "header_line name n [] = None" by (simp add: header_line_def)
  with assms(2) show ?case
    by (subst header_value.simps) (simp add: split_str_CRLF_None split: option.split)
next
  case (Cons l ls)
  have "split_str CRLF (l @ CRLF @ concat (map (\<lambda>l. l @ CRLF) ls) @ z) = Some (l, concat (map (\<lambda>l. l @ CRLF) ls) @ z)"
    using Cons.prems by (intro split_str_CRLF) simp
  with Cons show ?case by (subst header_value.simps) (simp split: option.split)
qed

section \<open>Decoding in place\<close>

lemma ws_length_take:
  assumes "ws_length bs = Frame len h" and "2 \<le> length bs"
  shows "ws_length (take (h + 4) bs @ xs) = Frame len h"
proof -
  have "ws_length (take (h + 4) bs) = Frame len h"
    using assms by (auto simp: ws_length_def Let_def take_drop take_take min_def split: if_splits)
  moreover from ws_length_pos [OF assms(1)] assms(2) have "2 \<le> length (take (h + 4) bs)" by simp
  ultimately show ?thesis using ws_length_append [of "take (h + 4) bs" xs] by simp
qed

lemma ws_decode_shape:
  assumes "ws_decode_frame buf = Frame f n"
  obtains h len where "ws_length buf = Frame len h" and "n = h + 4 + len" and "n \<le> length buf"
    and "2 \<le> h" and "len \<le> WS_MAX_PAYLOAD"
    and "f = \<lparr>wf_opcode = unat (buf ! 0 AND 0x0f), wf_fin = (buf ! 0 AND 0x80 \<noteq> 0),
              wf_payload = ws_unmask (take 4 (drop h buf)) (take len (drop (h + 4) buf))\<rparr>"
    and "wf_opcode f \<ge> 8 \<longrightarrow> len \<le> 125 \<and> wf_fin f"
  using assms ws_length_pos [of buf]
  by (auto simp: ws_decode_frame_def Let_def split: if_splits decoded.splits)

lemma nibble_bound: "unat (w AND 0x0f :: u8) < 16"
proof -
  have "(0x0f :: u8) = mask 4" by (simp add: mask_eq_exp_minus_1)
  then have "w AND 0x0f = take_bit 4 w" by (simp add: take_bit_eq_mask)
  then show ?thesis
    using take_bit_nat_less_exp [of 4 "unat w"] by (simp add: unsigned_take_bit_eq)
qed

lemma ws_decode_again:
  assumes "ws_decode_frame buf = Frame f n"
  shows "\<exists>key. length key = 4 \<and>
    ws_decode_frame (ws_buffer_after buf) = Frame (f\<lparr>wf_payload := ws_unmask key (wf_payload f)\<rparr>) n"
proof -
  from assms obtain h len where l: "ws_length buf = Frame len h" and n: "n = h + 4 + len" "n \<le> length buf"
    and h: "2 \<le> h"
    and f: "f = \<lparr>wf_opcode = unat (buf ! 0 AND 0x0f), wf_fin = (buf ! 0 AND 0x80 \<noteq> 0),
              wf_payload = ws_unmask (take 4 (drop h buf)) (take len (drop (h + 4) buf))\<rparr>"
    by (rule ws_decode_shape)
  define key buf2 where "key = take 4 (drop h buf)" and "buf2 = ws_buffer_after buf"
  have plen: "length (wf_payload f) = len" using n by (simp add: f)
  have b2: "buf2 = take (h + 4) buf @ wf_payload f @ drop n buf"
    using assms n plen by (simp add: buf2_def ws_buffer_after_def)
  have l2: "ws_length buf2 = Frame len h"
    unfolding b2 using l n h by (intro ws_length_take) simp_all
  have idx: "buf2 ! 0 = buf ! 0" "buf2 ! Suc 0 = buf ! Suc 0"
    using n h by (auto simp: b2 nth_append)
  have len2: "length buf2 = length buf" using n plen by (simp add: b2)
  have key2: "take 4 (drop h buf2) = key" using n by (simp add: b2 key_def take_drop)
  have pay2: "take len (drop (h + 4) buf2) = wf_payload f" using n plen by (simp add: b2)
  have "ws_decode_frame buf2 = Frame (f\<lparr>wf_payload := ws_unmask key (wf_payload f)\<rparr>) n"
    using assms n h
    unfolding ws_decode_frame_def Let_def l l2 len2 decoded.case key2 pay2
    by (auto simp: idx f split: if_splits)
  moreover have "length key = 4" using n by (simp add: key_def)
  ultimately show ?thesis unfolding buf2_def by blast
qed

section \<open>Properties\<close>

text \<open>
  C17. Whatever sequence of well-formed masked frames a client sends, and however the network
  cuts the byte stream into reads, decoding chunk by chunk with the undecoded rest carried
  over yields exactly these frames, in order, with nothing left over and no protocol error.
\<close>

theorem ws_stream_recovered:
  assumes "\<forall>(key, f) \<in> set kfs. length key = 4 \<and> sendable f"
    and "concat chunks = concat (map (\<lambda>(key, f). client_frame key f) kfs)"
  shows "feed ws_decode_frame [] chunks = (map snd kfs, [], False)"
  using ws.feed_concat [of "[]" chunks] client_stream [OF assms(1)] assms(2) by (simp add: ws.decode_Nil)

theorem ws_stream_recovered_witness:
  "feed ws_decode_frame [] [[0x81], [0x82, 1, 2, 3], [4, 0x49, 0x4B]] =
     ([\<lparr>wf_opcode = 1, wf_fin = True, wf_payload = [0x48, 0x49]\<rparr>], [], False)"
proof -
  have "feed ws_decode_frame [] [[0x81], [0x82, 1, 2, 3], [4, 0x49, 0x4B]] =
      (map snd [([1, 2, 3, 4 :: u8], \<lparr>wf_opcode = 1, wf_fin = True, wf_payload = [0x48, 0x49]\<rparr>)], [], False)"
    by (rule ws_stream_recovered) (code_simp, code_simp)
  then show ?thesis by simp
qed

text \<open>
  What the frame decoder accepts is within its limits: the opcode is a nibble, the
  payload has at most \<open>WS_MAX_PAYLOAD\<close> bytes, control frames are final and short, and the
  frame lies inside the input. The call leaves the buffer with the same length and everything
  outside the payload unchanged, but the payload decoded in place: decoding the buffer again
  gives the same frame with its payload masked once more.
\<close>

theorem ws_decode_bounds:
  assumes "ws_decode_frame buf = Frame f n"
  shows "sendable f \<and> n \<le> length buf \<and> length (ws_buffer_after buf) = length buf \<and>
    drop n (ws_buffer_after buf) = drop n buf \<and>
    (\<exists>key. length key = 4 \<and>
       ws_decode_frame (ws_buffer_after buf) = Frame (f\<lparr>wf_payload := ws_unmask key (wf_payload f)\<rparr>) n)"
proof -
  from assms obtain h len where l: "ws_length buf = Frame len h" and n: "n = h + 4 + len" "n \<le> length buf"
    and len: "len \<le> WS_MAX_PAYLOAD"
    and f: "f = \<lparr>wf_opcode = unat (buf ! 0 AND 0x0f), wf_fin = (buf ! 0 AND 0x80 \<noteq> 0),
              wf_payload = ws_unmask (take 4 (drop h buf)) (take len (drop (h + 4) buf))\<rparr>"
    and ctl: "wf_opcode f \<ge> 8 \<longrightarrow> len \<le> 125 \<and> wf_fin f"
    by (rule ws_decode_shape)
  have plen: "length (wf_payload f) = len" using n by (simp add: f)
  have "sendable f" using plen len ctl nibble_bound [of "buf ! 0"] by (auto simp: sendable_def f)
  moreover have "ws_buffer_after buf = take (h + 4) buf @ wf_payload f @ drop n buf"
    using assms n plen by (simp add: ws_buffer_after_def)
  ultimately show ?thesis using ws_decode_again [OF assms] n plen by simp
qed

theorem ws_decode_bounds_witness:
  "sendable \<lparr>wf_opcode = 1, wf_fin = True, wf_payload = [0x48, 0x49]\<rparr>"
proof -
  have "ws_decode_frame [0x81, 0x82, 1, 2, 3, 4, 0x49, 0x4B] =
      Frame \<lparr>wf_opcode = 1, wf_fin = True, wf_payload = [0x48, 0x49]\<rparr> 8" by code_simp
  from ws_decode_bounds [OF this] show ?thesis by blast
qed

text \<open>
  The frames the server writes are read back by any client of RFC 6455 for every payload
  length that fits its three length forms: same opcode, same payload, and the bytes behind
  the frame are left for the next one.
\<close>

theorem ws_encode_read:
  assumes "opcode < 16" and "length payload < 2 ^ 64"
  shows "client_read (ws_encode_frame opcode payload @ rest) = Some (opcode, payload, rest)"
  using assms by (rule server_frame_read)

theorem ws_encode_read_witness:
  "client_read (ws_encode_frame 1 [0x50, 0x51] @ [0x88]) = Some (1, [0x50, 0x51], [0x88])"
  by (rule ws_encode_read) simp_all

text \<open>
  C18. The client address taken from a forwarded list of at most 255 bytes is the rightmost entry that
  matches none of the trusted proxy masks (the leftmost entry when all of them are trusted), cut to
  the caller's buffer, and there is none when that entry is empty: entries that the client itself
  prepended to the left of it are never believed. Longer lists lose their right end
  (\<open>ws_forwarded_cut\<close>).
\<close>

theorem ws_forwarded_client_nearest:
  assumes "length lst < 256"
  shows "ws_forwarded_client I lst globs outsz =
     (let out = clip outsz (nearest_untrusted (\<lambda>v. \<exists>g \<in> set globs. irc_ip_mask_match I g v)
                              (map forwarded_entry (comma_parts lst)))
      in if out \<noteq> [] then Some out else None)"
proof -
  have "clip 256 lst = lst" using assms by (simp add: clip_def)
  then show ?thesis unfolding ws_forwarded_client_def by (simp only: forwarded_loop_spec)
qed

theorem ws_forwarded_client_nearest_witness:
  "ws_forwarded_client demo_inet ''6.6.6.6, 192.0.2.7,10.0.0.1'' [''10.*''] 64 = Some ''192.0.2.7''"
proof -
  have "length ''6.6.6.6, 192.0.2.7,10.0.0.1'' < 256" by simp
  from ws_forwarded_client_nearest [OF this] show ?thesis by (rule trans) code_simp
qed

text \<open>
  The buffer of 256 bytes keeps the left end of the list. A client that sends an address of its choice
  and pads it with blanks up to 255 bytes is believed, whatever the proxies append: the entry they
  add is cut off. ws.h says that the rightmost untrusted entry is taken.
\<close>

theorem ws_forwarded_cut:
  assumes "fake \<noteq> []" and "CHR '','' \<notin> set fake" and "\<not> list_ex is_blank fake" and "length fake < min 255 outsz"
    and "\<not> (\<exists>g \<in> set globs. irc_ip_mask_match I g fake)"
  shows "ws_forwarded_client I (fake @ replicate (255 - length fake) SP @ appended) globs outsz = Some fake"
proof -
  let ?pad = "fake @ replicate (255 - length fake) SP"
  have b: "is_blank SP" by (simp add: is_blank_def)
  have c: "clip 256 (?pad @ appended) = ?pad" using assms(4) by (simp add: clip_def)
  have p: "comma_parts ?pad = [?pad]" using assms(2) by (intro comma_parts_single) simp
  have d: "dropWhile is_blank ?pad = ?pad" using assms(1,3) by (cases fake) auto
  have t: "takeWhile (\<lambda>c. \<not> is_blank c) ?pad = fake"
  proof -
    have n: "\<forall>x \<in> set fake. \<not> is_blank x" using assms(3) by (auto simp: list_ex_iff)
    have "takeWhile (\<lambda>c. \<not> is_blank c) (replicate n SP) = []" for n using b by (cases n) simp_all
    then show ?thesis using n by (subst takeWhile_append2) auto
  qed
  have e: "forwarded_entry ?pad = fake" unfolding forwarded_entry_def d t ..
  have o: "clip outsz fake = fake" using assms(4) by (auto simp: clip_def)
  have "nearest_untrusted (\<lambda>v. \<exists>g \<in> set globs. irc_ip_mask_match I g v) [fake] = fake" by (simp add: nearest_untrusted_def)
  then have "ws_forwarded_loop I globs outsz ?pad = Some fake"
    unfolding forwarded_loop_spec p list.map e using o assms(1) by simp
  then show ?thesis unfolding ws_forwarded_client_def append_assoc [symmetric] c .
qed

text \<open>
  A header lookup in a request head (lines joined by CRLF) finds the value of the first
  line that carries the header, and only header lines count: text inside another line that
  looks like the header is not taken for it.
\<close>

theorem header_value_first:
  assumes "\<forall>l \<in> set (ls @ [z]). CR \<notin> set l"
  shows "header_value (concat (map (\<lambda>l. l @ CRLF) ls) @ z) name n = first_some (header_line name n) (ls @ [z])"
  using assms by (intro header_value_lines) auto

theorem header_value_first_witness:
  "header_value (concat (map (\<lambda>l. l @ CRLF) [''GET / HTTP/1.1'', ''X: Origin: evil'']) @ ''oriGIN:  https://a'')
     ''Origin'' 256 = Some ''https://a''"
proof -
  have "\<forall>l \<in> set ([''GET / HTTP/1.1'', ''X: Origin: evil''] @ [''oriGIN:  https://a'']). CR \<notin> set l" by code_simp
  from header_value_first [OF this, of "''Origin''" 256] show ?thesis by (rule trans) code_simp
qed

end
