(* ===== verification/Registers.thy ===== *)
theory Registers
  imports Prelude
begin

text \<open>
  Small bounded lists without duplicates: the daemon keeps many (ban lists, pending invites,
  MONITOR, WATCH, SILENCE and ACCEPT lists). The interface \<open>bounded_register\<close> states what adding and
  deleting do to the list of keys; what its clients rely on is proved once: no two entries are
  the same, the bound is never passed, deleting works and touches nothing else. A full list
  either refuses a new key or gives up its oldest one; both are allowed by the interface.
\<close>

fun remove_first :: "('a \<Rightarrow> bool) \<Rightarrow> 'a list \<Rightarrow> 'a list" where
  "remove_first P [] = []"
| "remove_first P (x # xs) = (if P x then xs else x # remove_first P xs)"

lemma set_remove_first: "set (remove_first P xs) \<subseteq> set xs"
  by (induction xs) auto

lemma remove_first_keeps: "x \<in> set xs \<Longrightarrow> \<not> P x \<Longrightarrow> x \<in> set (remove_first P xs)"
  by (induction xs) auto

lemma length_remove_first: "length (remove_first P xs) \<le> length xs"
  by (induction xs) auto

lemma sorted_wrt_remove_first: "sorted_wrt R xs \<Longrightarrow> sorted_wrt R (remove_first P xs)"
  by (induction xs) (auto dest: subsetD [OF set_remove_first])

lemma remove_first_none: "\<forall>x \<in> set xs. \<not> P x \<Longrightarrow> remove_first P xs = xs"
  by (induction xs) auto

lemma map_remove_first:
  "(\<And>x. x \<in> set xs \<Longrightarrow> P x \<longleftrightarrow> Q (f x)) \<Longrightarrow> map f (remove_first P xs) = remove_first Q (map f xs)"
  by (induction xs) auto

datatype 'k reg_op = Put 'k | Drop 'k

locale bounded_register =
  fixes keys :: "'s \<Rightarrow> 'k list"
    and put :: "'k \<Rightarrow> 's \<Rightarrow> 's"
    and del :: "'k \<Rightarrow> 's \<Rightarrow> 's"
    and same :: "'k \<Rightarrow> 'k \<Rightarrow> bool"
    and ok :: "'k \<Rightarrow> bool"
    and cap :: nat
  assumes same_refl: "same k k"
    and same_sym: "same k k' \<Longrightarrow> same k' k"
    and same_trans: "same k k' \<Longrightarrow> same k' k'' \<Longrightarrow> same k k''"
    and cap_pos: "0 < cap"
    and put_present: "ok k \<Longrightarrow> \<exists>k' \<in> set (keys s). same k' k \<Longrightarrow> keys (put k s) = keys s"
    and put_room: "ok k \<Longrightarrow> \<forall>k' \<in> set (keys s). \<not> same k' k \<Longrightarrow> length (keys s) < cap \<Longrightarrow>
      keys (put k s) = keys s @ [k]"
    and put_full: "ok k \<Longrightarrow> \<forall>k' \<in> set (keys s). \<not> same k' k \<Longrightarrow> cap \<le> length (keys s) \<Longrightarrow>
      keys (put k s) = keys s \<or> keys (put k s) = tl (keys s) @ [k]"
    and del_first: "ok k \<Longrightarrow> keys (del k s) = remove_first (\<lambda>k'. same k' k) (keys s)"
begin

definition wf :: "'s \<Rightarrow> bool" where
  "wf s \<longleftrightarrow> sorted_wrt (\<lambda>a b. \<not> same a b) (keys s) \<and> length (keys s) \<le> cap"

fun apply_op :: "'k reg_op \<Rightarrow> 's \<Rightarrow> 's" where
  "apply_op (Put k) s = put k s"
| "apply_op (Drop k) s = del k s"

fun op_ok :: "'k reg_op \<Rightarrow> bool" where
  "op_ok (Put k) = ok k"
| "op_ok (Drop k) = ok k"

lemma put_cases:
  assumes "ok k"
  obtains (present) "\<exists>k' \<in> set (keys s). same k' k" "keys (put k s) = keys s"
    | (room) "\<forall>k' \<in> set (keys s). \<not> same k' k" "length (keys s) < cap" "keys (put k s) = keys s @ [k]"
    | (refused) "cap \<le> length (keys s)" "keys (put k s) = keys s"
    | (evicted) "\<forall>k' \<in> set (keys s). \<not> same k' k" "cap \<le> length (keys s)" "keys (put k s) = tl (keys s) @ [k]"
  using put_present [OF assms, of s] put_room [OF assms, of s] put_full [OF assms, of s] by (meson not_le)

lemma put_wf:
  assumes "wf s" and "ok k"
  shows "wf (put k s)"
  using assms(2)
proof (rule put_cases [where s = s])
  assume e: "\<forall>k' \<in> set (keys s). \<not> same k' k" "cap \<le> length (keys s)" "keys (put k s) = tl (keys s) @ [k]"
  have "sorted_wrt (\<lambda>a b. \<not> same a b) (tl (keys s))" using assms(1) by (cases "keys s") (auto simp: wf_def)
  with e assms(1) cap_pos show ?thesis
    by (auto simp: wf_def sorted_wrt_append dest: in_set_tl)
qed (use assms(1) in \<open>auto simp: wf_def sorted_wrt_append\<close>)

lemma del_wf: "wf s \<Longrightarrow> ok k \<Longrightarrow> wf (del k s)"
  using length_remove_first [of "\<lambda>k'. same k' k" "keys s"]
  by (auto simp: wf_def del_first sorted_wrt_remove_first)

lemma run_wf: "wf s \<Longrightarrow> \<forall>u \<in> set us. op_ok u \<Longrightarrow> wf (fold apply_op us s)"
proof (induction us arbitrary: s)
  case (Cons u us)
  then have "wf (apply_op u s)" by (cases u) (auto intro: put_wf del_wf)
  with Cons show ?case by simp
qed simp

lemma del_gone:
  assumes "wf s" and "ok k"
  shows "\<forall>k' \<in> set (keys (del k s)). \<not> same k' k"
proof -
  have "\<forall>k' \<in> set (remove_first (\<lambda>k'. same k' k) xs). \<not> same k' k"
    if "sorted_wrt (\<lambda>a b. \<not> same a b) xs" for xs
    using that
  proof (induction xs)
    case (Cons x xs)
    show ?case
    proof (cases "same x k")
      case True
      have "\<not> same y k" if "y \<in> set xs" for y
        using Cons.prems that True same_trans [OF True same_sym] by auto
      with True show ?thesis by simp
    qed (use Cons in auto)
  qed simp
  from this [of "keys s"] assms show ?thesis by (simp add: del_first wf_def)
qed

lemma del_others: "ok k \<Longrightarrow> k' \<in> set (keys s) \<Longrightarrow> \<not> same k' k \<Longrightarrow> k' \<in> set (keys (del k s))"
  by (simp add: del_first remove_first_keeps)

lemma put_del:
  assumes "wf s" and "ok k" and "\<forall>k' \<in> set (keys s). \<not> same k' k" and "length (keys s) < cap"
  shows "keys (del k (put k s)) = keys s"
proof -
  have "remove_first (\<lambda>k'. same k' k) (xs @ [k]) = xs" if "\<forall>k' \<in> set xs. \<not> same k' k" for xs
    using that by (induction xs) (auto simp: same_refl)
  with assms show ?thesis by (simp add: del_first put_room)
qed

end

section \<open>Output queues\<close>

text \<open>
  The bytes a connection still owes its socket. The interface \<open>byte_fifo\<close> states that appending
  returns, and what appending and a partial write do to the pending bytes; its client lemma says
  that over any history every byte is sent once, in order. Provided by the send queue of theory
  Client and the WebSocket output buffer of theory Transport.
\<close>

datatype 'b fifo_op = Queue "'b list" | Sent nat

text \<open>A history of appends and writes; the socket takes at most what is pending.\<close>

fun fifo_run ::
  "('q \<Rightarrow> 'b list) \<Rightarrow> ('b list \<Rightarrow> 'q \<Rightarrow> 'q option) \<Rightarrow> (nat \<Rightarrow> 'q \<Rightarrow> 'q) \<Rightarrow> 'b fifo_op list \<Rightarrow> 'q \<Rightarrow> ('q \<times> 'b list) option"
where
  "fifo_run pend app taken [] q = Some (q, [])"
| "fifo_run pend app taken (Queue bs # us) q =
     (case app bs q of None \<Rightarrow> None | Some q2 \<Rightarrow> fifo_run pend app taken us q2)"
| "fifo_run pend app taken (Sent n # us) q =
     (let k = min n (length (pend q))
      in map_option (\<lambda>(q2, out). (q2, take k (pend q) @ out)) (fifo_run pend app taken us (taken k q)))"

fun queued :: "'b fifo_op list \<Rightarrow> 'b list" where
  "queued [] = []"
| "queued (Queue bs # us) = bs @ queued us"
| "queued (Sent n # us) = queued us"

locale byte_fifo =
  fixes pend :: "'q \<Rightarrow> 'b list"
    and app :: "'b list \<Rightarrow> 'q \<Rightarrow> 'q option"
    and taken :: "nat \<Rightarrow> 'q \<Rightarrow> 'q"
    and good :: "'q \<Rightarrow> bool"
  assumes app_good: "good q \<Longrightarrow> \<exists>q2. app bs q = Some q2 \<and> good q2 \<and> pend q2 = pend q @ bs"
    and taken_good: "good q \<Longrightarrow> n \<le> length (pend q) \<Longrightarrow> good (taken n q) \<and> pend (taken n q) = drop n (pend q)"
begin

lemma fifo_order:
  "good q \<Longrightarrow> \<exists>q2 out. fifo_run pend app taken us q = Some (q2, out) \<and> good q2 \<and> out @ pend q2 = pend q @ queued us"
proof (induction us arbitrary: q)
  case (Cons u us)
  show ?case
  proof (cases u)
    case (Queue bs)
    from app_good [OF Cons.prems, of bs] obtain q2 where "app bs q = Some q2" "good q2" "pend q2 = pend q @ bs" by blast
    with Cons.IH [of q2] Queue show ?thesis by auto
  next
    case (Sent n)
    define k where "k = min n (length (pend q))"
    from taken_good [OF Cons.prems, of k] have t: "good (taken k q)" "pend (taken k q) = drop k (pend q)"
      by (simp_all add: k_def)
    from Cons.IH [OF t(1)] obtain q2 out where r: "fifo_run pend app taken us (taken k q) = Some (q2, out)" "good q2"
      "out @ pend q2 = drop k (pend q) @ queued us" using t(2) by auto
    have "(take k (pend q) @ out) @ pend q2 = pend q @ queued us" using r(3)
      by (metis append_assoc append_take_drop_id)
    with r(1,2) Sent show ?thesis by (simp add: k_def [symmetric] Let_def)
  qed
qed simp

end

end
