(* ===== verification/Banlist.thy ===== *)
theory Banlist
  imports Masks Registers
begin

text \<open>
  The mask lists of a channel (src/src/channel.c): +b, +e and +I entries with the extbans of
  the matcher, the canonical form masks are stored in, the lists with their cap and generation
  counter, pending invites, and the per-member cache of the ban and quiet verdict. A mask list
  keeps its three parallel C arrays as one list of entries.

  The global \<open>g_extra\<close> of channel.c is an argument \<open>x\<close>: \<open>None\<close> for NULL. Its client pointer is
  followed at the time of the call, so \<open>be_cl\<close> holds what that client's fields are then (its
  certificate fingerprint and the casefolded names of its channels).
\<close>

definition CHAN_NAMELEN :: nat where "CHAN_NAMELEN = 64"
definition CHAN_MAX_MASKLIST :: nat where "CHAN_MAX_MASKLIST = 100"
definition CHAN_MAX_INVITED :: nat where "CHAN_MAX_INVITED = 64"

record extra_client =
  ec_certfp :: string
  ec_channels :: "string list"

record ban_extra =
  be_realname :: string
  be_secure :: bool
  be_cl :: "extra_client option"

text \<open>What every matcher is told about the user.\<close>

record who =
  w_nick :: string
  w_user :: string
  w_host :: string
  w_realhost :: string
  w_ip :: string
  w_account :: string
  w_ident :: bool

unbundle bit_operations_syntax

section \<open>Matching\<close>

text \<open>\<open>None\<close> when the function returns its argument, else the inner mask.\<close>

definition timed_body :: "string \<Rightarrow> string option" where
  "timed_body msk =
     (if \<not> starts_nocase ''~t:'' msk then None
      else let p = drop 3 msk; q = dropWhile c_isdigit p
           in if q \<noteq> p \<and> take 1 q = '':'' then Some (drop 1 q) else None)"

definition mask_body :: "string \<Rightarrow> string" where
  "mask_body msk = (case timed_body msk of Some b \<Rightarrow> b | None \<Rightarrow> msk)"

definition strip_tilde :: "string \<Rightarrow> string" where
  "strip_tilde m = (if take 1 m = ''~'' then drop 1 m else m)"

lemma timed_body_shorter: "timed_body m = Some b \<Longrightarrow> length b + 4 < length m + 1"
proof -
  assume t: "timed_body m = Some b"
  define q where "q = dropWhile c_isdigit (drop 3 m)"
  from t have q: "q \<noteq> drop 3 m" "take 1 q = '':''" "b = drop 1 q"
    by (auto simp: timed_body_def Let_def q_def split: if_splits)
  have "length q \<le> length (drop 3 m)" unfolding q_def by (rule length_dropWhile_le)
  moreover have "length b + 1 = length q" using q by (cases q) auto
  ultimately show ?thesis by simp
qed

lemma length_mask_body: "length (mask_body m) \<le> length m"
  using timed_body_shorter [of m] by (auto simp: mask_body_def split: option.split)

lemma length_strip_tilde: "length (strip_tilde m) \<le> length m"
  by (simp add: strip_tilde_def)

text \<open>The fingerprint comparison of \<open>S:\<close>: colons are skipped on both sides, case ignored.\<close>

function certfp_eq :: "string \<Rightarrow> string \<Rightarrow> bool" where
  "certfp_eq a b =
     (let a1 = dropWhile (\<lambda>c. c = CHR '':'') a; b1 = dropWhile (\<lambda>c. c = CHR '':'') b
      in if a1 = [] \<or> b1 = [] then a1 = [] \<and> b1 = []
         else if c_tolower (hd a1) \<noteq> c_tolower (hd b1) then False
         else certfp_eq (tl a1) (tl b1))"
  by pat_completeness auto
termination
proof (relation "measure (length \<circ> fst)", simp)
  fix a b a1 b1 :: string
  assume "a1 = dropWhile (\<lambda>c. c = CHR '':'') a" and "\<not> (a1 = [] \<or> b1 = [])"
  then have "length a1 \<le> length a" "a1 \<noteq> []" by (simp_all add: length_dropWhile_le)
  then show "((tl a1, tl b1), a, b) \<in> measure (length \<circ> fst)" by (cases a1) auto
qed

declare certfp_eq.simps [simp del]

function channel_mask_hit :: "ban_extra option \<Rightarrow> string \<Rightarrow> string \<Rightarrow> string \<Rightarrow> string \<Rightarrow> string \<Rightarrow> bool \<Rightarrow> bool" where
  "channel_mask_hit x msk nick user host account ident =
     (let m = strip_tilde (mask_body msk)
      in if starts_nocase ''f:'' m then
           (case split_chr CHR '':'' (drop 2 m) of
              None \<Rightarrow> False
            | Some (_, c) \<Rightarrow> channel_mask_hit x c nick user host account ident)
         else if starts_nocase ''a:'' m then account \<noteq> [] \<and> irc_glob_match (drop 2 m) account
         else if starts_nocase ''r:'' m then
           (case x of None \<Rightarrow> False | Some e \<Rightarrow> irc_glob_match (drop 2 m) (be_realname e))
         else if strcaseeq m ''z'' then (case x of None \<Rightarrow> False | Some e \<Rightarrow> be_secure e)
         else if starts_with ''S:'' m then
           (case x of None \<Rightarrow> False
            | Some e \<Rightarrow> (case be_cl e of None \<Rightarrow> False
                | Some cl \<Rightarrow> ec_certfp cl \<noteq> [] \<and> certfp_eq (drop 2 m) (ec_certfp cl)))
         else if starts_nocase ''j:'' m then
           (case x of None \<Rightarrow> False
            | Some e \<Rightarrow> (case be_cl e of None \<Rightarrow> False
                | Some cl \<Rightarrow> irc_casefold CHAN_NAMELEN (drop 2 m) \<in> set (ec_channels cl)))
         else irc_mask_match nick user host m ident)"
  by pat_completeness auto

lemma forward_rest_shorter:
  assumes "starts_nocase ''f:'' (strip_tilde (mask_body m))"
    and "split_chr CHR '':'' (drop 2 (strip_tilde (mask_body m))) = Some (a, c)"
  shows "length c < length m"
proof -
  have "length c < length (drop 2 (strip_tilde (mask_body m)))" using assms(2) by (rule split_chr_length)
  also have "\<dots> \<le> length m"
    using length_strip_tilde [of "mask_body m"] length_mask_body [of m] by simp
  finally show ?thesis .
qed

termination channel_mask_hit
  by (relation "measure (\<lambda>(_, m, _). length m)") (auto dest: forward_rest_shorter)

declare channel_mask_hit.simps [simp del]

definition is_quiet_mask :: "string \<Rightarrow> bool" where
  "is_quiet_mask msk =
     (let m = strip_tilde (mask_body msk) in starts_nocase ''m:'' m \<or> starts_nocase ''n:'' m)"

definition mask_hit_any_host :: "ban_extra option \<Rightarrow> string \<Rightarrow> who \<Rightarrow> bool" where
  "mask_hit_any_host x msk w =
     (let hit = (\<lambda>h. channel_mask_hit x msk (w_nick w) (w_user w) h (w_account w) (w_ident w))
      in if hit (w_host w) then True
         else if w_realhost w \<noteq> w_host w \<and> hit (w_realhost w) then True
         else w_ip w \<noteq> w_host w \<and> w_ip w \<noteq> w_realhost w \<and> hit (w_ip w))"

section \<open>Mask lists\<close>

record mask_entry =
  me_mask :: string
  me_set_at :: int
  me_set_by :: string

record masklist =
  ml_entries :: "mask_entry list"
  ml_gen :: "32 word"
  ml_dynamic :: bool

definition empty_masklist :: masklist where
  "empty_masklist = \<lparr>ml_entries = [], ml_gen = 0, ml_dynamic = False\<rparr>"

definition masks_of :: "masklist \<Rightarrow> string list" where
  "masks_of ml = map me_mask (ml_entries ml)"

text \<open>
  \<open>time_t\<close> has 64 bits; the product of minutes and 60 can leave that range (no option of the
  build makes it anything but two's complement wrap-around on the machines it runs on).
\<close>

definition wrap64 :: "int \<Rightarrow> int" where
  "wrap64 i = sint (word_of_int i :: 64 word)"

definition channel_mask_expired :: "masklist \<Rightarrow> nat \<Rightarrow> int \<Rightarrow> bool" where
  "channel_mask_expired ml i now =
     (let e = ml_entries ml ! i
      in if timed_body (me_mask e) = None then False
         else now \<ge> wrap64 (me_set_at e + wrap64 (atol (drop 3 (me_mask e)) * 60)))"

text \<open>\<open>time(NULL)\<close> is the argument \<open>now\<close>; the result is the return value and the new list.\<close>

definition masklist_add :: "int \<Rightarrow> string \<Rightarrow> masklist \<Rightarrow> int \<times> masklist" where
  "masklist_add now msk ml =
     (if \<exists>e \<in> set (ml_entries ml). strcaseeq (me_mask e) msk then (-1, ml)
      else if length (ml_entries ml) \<ge> CHAN_MAX_MASKLIST then (-1, ml)
      else (0, ml\<lparr>ml_entries := ml_entries ml @ [\<lparr>me_mask = clip 256 msk, me_set_at = now, me_set_by = []\<rparr>],
                  ml_gen := ml_gen ml + 1,
                  ml_dynamic := ml_dynamic ml \<or> starts_nocase ''j:'' (strip_tilde (mask_body msk))\<rparr>))"

definition masklist_free :: "masklist \<Rightarrow> masklist" where
  "masklist_free ml = ml\<lparr>ml_entries := []\<rparr>"

definition masklist_del :: "string \<Rightarrow> masklist \<Rightarrow> int \<times> masklist" where
  "masklist_del msk ml =
     (if \<exists>e \<in> set (ml_entries ml). strcaseeq (me_mask e) msk then
        (let es = remove_first (\<lambda>e. strcaseeq (me_mask e) msk) (ml_entries ml)
         in (0, ml\<lparr>ml_entries := es, ml_gen := ml_gen ml + 1,
                   ml_dynamic := (if es = [] then False else ml_dynamic ml)\<rparr>))
      else (-1, ml))"

text \<open>The lists of a channel that the verdicts read.\<close>

definition action_ban_hit :: "ban_extra option \<Rightarrow> masklist \<Rightarrow> char \<Rightarrow> who \<Rightarrow> bool" where
  "action_ban_hit x bans letter w =
     (\<exists>e \<in> set (ml_entries bans).
        let m = strip_tilde (mask_body (me_mask e))
        in m \<noteq> [] \<and> c_tolower (hd m) = letter \<and> take 1 (drop 1 m) = '':'' \<and> mask_hit_any_host x (drop 2 m) w)"

definition channel_is_quieted :: "ban_extra option \<Rightarrow> masklist \<Rightarrow> who \<Rightarrow> bool" where
  "channel_is_quieted x bans w = action_ban_hit x bans CHR ''m'' w"

definition channel_is_nickbanned :: "ban_extra option \<Rightarrow> masklist \<Rightarrow> who \<Rightarrow> bool" where
  "channel_is_nickbanned x bans w = action_ban_hit x bans CHR ''n'' w"

definition channel_is_banned :: "ban_extra option \<Rightarrow> masklist \<Rightarrow> masklist \<Rightarrow> who \<Rightarrow> bool" where
  "channel_is_banned x bans exceptions w =
     ((\<exists>e \<in> set (ml_entries bans). \<not> is_quiet_mask (me_mask e) \<and> mask_hit_any_host x (me_mask e) w) \<and>
      \<not> (\<exists>e \<in> set (ml_entries exceptions). mask_hit_any_host x (me_mask e) w))"

fun ban_forward_scan :: "ban_extra option \<Rightarrow> mask_entry list \<Rightarrow> who \<Rightarrow> nat \<Rightarrow> string option" where
  "ban_forward_scan x [] w outsz = None"
| "ban_forward_scan x (e # es) w outsz =
     (let m = mask_body (me_mask e)
      in if \<not> starts_nocase ''~f:'' m then ban_forward_scan x es w outsz
         else case split_chr CHR '':'' (drop 3 m) of
                None \<Rightarrow> ban_forward_scan x es w outsz
              | Some (chan, _) \<Rightarrow>
                  if \<not> mask_hit_any_host x m w then ban_forward_scan x es w outsz
                  else Some (clip outsz chan))"

definition channel_ban_forward :: "ban_extra option \<Rightarrow> masklist \<Rightarrow> who \<Rightarrow> nat \<Rightarrow> string option" where
  "channel_ban_forward x bans w outsz = ban_forward_scan x (ml_entries bans) w outsz"

definition channel_is_invited :: "ban_extra option \<Rightarrow> string list \<Rightarrow> masklist \<Rightarrow> string \<Rightarrow> who \<Rightarrow> bool" where
  "channel_is_invited x invited invex invite_key w =
     (if invite_key \<in> set invited then True
      else \<exists>e \<in> set (ml_entries invex).
             channel_mask_hit x (me_mask e) (w_nick w) (w_user w) (w_host w) (w_account w) (w_ident w))"

section \<open>Pending invites\<close>

definition channel_invite_add :: "string \<Rightarrow> string list \<Rightarrow> string list" where
  "channel_invite_add key invited =
     (if key \<in> set invited then invited
      else (if length invited \<ge> CHAN_MAX_INVITED then tl invited else invited) @ [clip 64 key])"

definition channel_invite_remove :: "string \<Rightarrow> string list \<Rightarrow> string list" where
  "channel_invite_remove key invited = remove_first (\<lambda>k. k = key) invited"

section \<open>The canonical form of a mask\<close>

definition ext_names :: "(string \<times> string) list" where
  "ext_names =
     [(''account:'', ''a:''), (''quiet:'', ''m:''), (''q:'', ''m:''), (''realname:'', ''r:''),
      (''channel:'', ''j:''), (''c:'', ''j:''), (''nickchange:'', ''n:''), (''certfp:'', ''S:''),
      (''time:'', ''t:''), (''forward:'', ''f:'')]"

text \<open>The first loop: a named extban is rewritten to its letter.\<close>

definition ext_rewrite :: "string \<Rightarrow> string option" where
  "ext_rewrite m =
     (if take 1 m \<noteq> ''~'' then None
      else map_option (\<lambda>(name, letter). clip 256 (''~'' @ letter @ drop (1 + length name) m))
             (find (\<lambda>(name, letter). starts_nocase name (drop 1 m)) ext_names))"

definition plain_form :: "string \<Rightarrow> string" where
  "plain_form m =
     (let bang = CHR ''!'' \<in> set m; at_sign = CHR ''@'' \<in> set m
      in if bang \<and> at_sign then m
         else if at_sign then ''*!'' @ m
         else if bang then m @ ''@*''
         else if CHR ''.'' \<in> set m \<or> CHR '':'' \<in> set m \<or> CHR ''/'' \<in> set m then ''*!*@'' @ m
         else m @ ''!*@*'')"

definition norm_measure :: "string \<Rightarrow> nat" where
  "norm_measure m = 2 * length m + (if ext_rewrite m = None then 0 else 1)"

text \<open>The step: rewrite, wrap the form of an inner mask, or done.\<close>

datatype norm_result = Again string | Inner string string | Done string

definition norm_step :: "string \<Rightarrow> norm_result" where
  "norm_step m =
     (case ext_rewrite m of
        Some tmp \<Rightarrow> Again tmp
      | None \<Rightarrow>
        (case timed_body m of
           Some body \<Rightarrow> Inner (''~t:'' @ show_int (atol (drop 3 m)) @ '':'') body
         | None \<Rightarrow>
           (if starts_nocase ''~f:'' m \<and> split_chr CHR '':'' (drop 3 m) \<noteq> None then
              (case split_chr CHR '':'' (drop 3 m) of
                 Some (chan, c) \<Rightarrow> Inner (''~f:'' @ chan @ '':'') c
               | None \<Rightarrow> Done m)
            else let tilde = (take 1 m = ''~''); e = strip_tilde m
            in if starts_nocase ''m:'' e \<or> starts_nocase ''n:'' e then
                 Inner ((if tilde then ''~'' else []) @ [hd e] @ '':'') (drop 2 e)
               else if tilde \<or> (e \<noteq> [] \<and> take 1 (drop 1 e) = '':'' \<and> hd e \<in> set ''arjAJR'') \<or> strcaseeq e ''z''
                 then Done m
               else Done (plain_form m))))"

lemma ext_names_apart:
  "\<forall>(n, l) \<in> set ext_names. \<forall>(n', l') \<in> set ext_names. map c_tolower (take 2 n) \<noteq> map c_tolower l'"
  by code_simp

lemma ext_rewrite_next:
  assumes "ext_rewrite m = Some tmp"
  shows "length tmp \<le> length m \<and> ext_rewrite tmp = None"
proof -
  define rest' where "rest' n = drop (1 + length n) m" for n :: string
  from assms obtain name letter
    where f: "find (\<lambda>(name, letter). starts_nocase name (drop 1 m)) ext_names = Some (name, letter)"
      and tmp: "tmp = clip 256 (''~'' @ letter @ rest' name)" and h1: "take 1 m = ''~''"
    by (auto simp: ext_rewrite_def rest'_def split: if_splits)
  from f have nl: "(name, letter) \<in> set ext_names" and h2: "starts_nocase name (drop 1 m)"
    by (auto simp: find_Some_iff) (metis nth_mem)
  note h = h1 h2 and r = rest'_def
  have "length name \<le> length (drop 1 m)"
    using h(2) by (auto simp: starts_nocase_def dest!: arg_cong [where f = length])
  moreover from nl have "2 \<le> length name" "length letter = 2" by (auto simp: ext_names_def)
  moreover have "1 \<le> length m" using h(1) by (cases m) auto
  ultimately have len: "length tmp \<le> length m" by (simp add: tmp r clip_def)
  obtain ys where tmp': "tmp = ''~'' @ letter @ ys"
  proof -
    have "clip 256 (''~'' @ letter @ rest' name) = ''~'' @ letter @ take 252 (rest' name)"
      using \<open>length letter = 2\<close> by (simp add: clip_def)
    with that tmp show ?thesis by blast
  qed
  have "\<not> starts_nocase n (letter @ ys)" if "(n, l) \<in> set ext_names" for n l
  proof
    assume "starts_nocase n (letter @ ys)"
    then have "take 2 (map c_tolower (take (length n) (letter @ ys))) = take 2 (map c_tolower n)"
      by (simp add: starts_nocase_def)
    moreover have "2 \<le> length n" using that by (auto simp: ext_names_def)
    ultimately have "map c_tolower letter = map c_tolower (take 2 n)"
      using \<open>length letter = 2\<close> by (simp add: take_map min_def)
    with ext_names_apart nl that show False by fastforce
  qed
  then have "ext_rewrite tmp = None"
    by (auto simp: tmp' ext_rewrite_def find_None_iff)
  with len show ?thesis by simp
qed

lemma norm_step_Again: "norm_step m = Again tmp \<Longrightarrow> norm_measure tmp < norm_measure m"
  using ext_rewrite_next [of m tmp]
  by (auto simp: norm_step_def norm_measure_def Let_def split: option.splits if_splits prod.splits)

lemma norm_step_Inner:
  assumes "norm_step m = Inner p body"
  shows "length body + 2 \<le> length m"
proof -
  from assms have "ext_rewrite m = None" by (auto simp: norm_step_def split: option.splits)
  with assms consider (timed) "timed_body m = Some body"
    | (forward) chan where "split_chr CHR '':'' (drop 3 m) = Some (chan, body)"
    | (action) "body = drop 2 (strip_tilde m)" "starts_nocase ''m:'' (strip_tilde m) \<or> starts_nocase ''n:'' (strip_tilde m)"
    by (auto simp: norm_step_def Let_def split: option.splits if_splits prod.splits)
  then show ?thesis
  proof cases
    case timed
    from timed_body_shorter [OF this] show ?thesis by simp
  next
    case forward
    from split_chr_length [OF this] show ?thesis by simp
  next
    case action
    then have "2 \<le> length (strip_tilde m)"
      by (auto simp: starts_nocase_def dest!: arg_cong [where f = length])
    with action(1) length_strip_tilde [of m] show ?thesis by simp
  qed
qed

function channel_normalize_mask :: "string \<Rightarrow> nat \<Rightarrow> string" where
  "channel_normalize_mask m outsz =
     (case norm_step m of
        Again tmp \<Rightarrow> channel_normalize_mask tmp outsz
      | Inner p body \<Rightarrow> clip outsz (p @ channel_normalize_mask body 256)
      | Done out \<Rightarrow> clip outsz out)"
  by pat_completeness auto
termination
  by (relation "measure (norm_measure \<circ> fst)")
    (auto dest: norm_step_Again dest!: norm_step_Inner simp: norm_measure_def)

declare channel_normalize_mask.simps [simp del]

section \<open>The cached verdict\<close>

definition fnv_step :: "32 word \<Rightarrow> 32 word \<Rightarrow> 32 word" where
  "fnv_step h b = (h XOR b) * 16777619"

definition fnv_bytes :: "32 word \<Rightarrow> string \<Rightarrow> 32 word" where
  "fnv_bytes h s = foldl (\<lambda>h c. fnv_step h (word_of_nat (byte c))) h s"

definition ident_hash :: "ban_extra option \<Rightarrow> who \<Rightarrow> 32 word" where
  "ident_hash x w =
     (let parts = [w_nick w, w_user w, w_host w, w_realhost w, w_ip w, w_account w];
          h = foldl (\<lambda>h s. fnv_step (fnv_bytes h s) 0xff) 2166136261 parts;
          h = fnv_step h (if w_ident w then 1 else 0)
      in case x of
           None \<Rightarrow> h
         | Some e \<Rightarrow> fnv_step (fnv_bytes h (be_realname e)) (if be_secure e then 1 else 0))"

record ban_cache =
  bc_valid :: bool
  bc_lists_gen :: "32 word"
  bc_ident_hash :: "32 word"
  bc_banned :: bool
  bc_quieted :: bool

definition empty_cache :: ban_cache where
  "empty_cache = \<lparr>bc_valid = False, bc_lists_gen = 0, bc_ident_hash = 0, bc_banned = False, bc_quieted = False\<rparr>"

text \<open>The result: banned, quieted, and the member's cache (\<open>None\<close> for a NULL member).\<close>

definition channel_ban_state ::
  "ban_extra option \<Rightarrow> masklist \<Rightarrow> masklist \<Rightarrow> ban_cache option \<Rightarrow> who \<Rightarrow> bool \<times> bool \<times> ban_cache option" where
  "channel_ban_state x bans exceptions m w =
     (let h = ident_hash x w;
          lists_gen = ml_gen bans + ml_gen exceptions;
          dynamic = (ml_dynamic bans \<or> ml_dynamic exceptions);
          banned = channel_is_banned x bans exceptions w;
          quieted = channel_is_quieted x bans w
      in case m of
           None \<Rightarrow> (banned, quieted, None)
         | Some c \<Rightarrow>
             if \<not> dynamic \<and> bc_valid c \<and> bc_lists_gen c = lists_gen \<and> bc_ident_hash c = h
               then (bc_banned c, bc_quieted c, Some c)
             else if \<not> dynamic then
               (banned, quieted, Some \<lparr>bc_valid = True, bc_lists_gen = lists_gen, bc_ident_hash = h,
                                        bc_banned = banned, bc_quieted = quieted\<rparr>)
             else (banned, quieted, Some c))"

section \<open>The canonical form is stable\<close>

lemma read_digits_bound:
  "list_all c_isdigit ds \<Longrightarrow> fst (read_digits n ds) < (n + 1) * 10 ^ length ds"
proof (induction ds arbitrary: n)
  case (Cons d ds)
  then have "digit_val d \<le> 9" by (auto simp: digit_val_def ctype_simps)
  then have "10 * n + digit_val d + 1 \<le> (n + 1) * 10" by simp
  then have "(10 * n + digit_val d + 1) * 10 ^ length ds \<le> (n + 1) * 10 * 10 ^ length ds"
    by (rule mult_le_mono1)
  with Cons.IH [of "10 * n + digit_val d"] Cons.prems
  have "fst (read_digits (10 * n + digit_val d) ds) < (n + 1) * 10 * 10 ^ length ds" by simp
  with Cons.prems show ?case by (simp add: algebra_simps)
qed simp

lemma length_show_nat: "n < 10 ^ k \<Longrightarrow> 0 < k \<Longrightarrow> length (show_nat n) \<le> k"
proof (induction n arbitrary: k rule: show_nat.induct)
  case (1 n)
  show ?case
  proof (cases "n < 10")
    case True
    with 1 show ?thesis by (simp add: show_nat.simps [of n])
  next
    case False
    then obtain j where k: "k = Suc j" "0 < j" using 1 by (cases k; cases "k - 1") auto
    with 1 have "n div 10 < 10 ^ j" by (simp add: less_mult_imp_div_less)
    with 1 False k show ?thesis by (subst show_nat.simps) simp
  qed
qed

text \<open>The minutes of a timed mask: a run of digits between \<open>~t:\<close> and the colon.\<close>

lemma timed_body_parts:
  assumes "timed_body m = Some body"
  obtains pre ds where "m = pre @ ds @ '':'' @ body" and "length pre = 3" and "map c_tolower pre = ''~t:''"
    and "ds \<noteq> []" and "list_all c_isdigit ds"
proof -
  define p q where "p = drop 3 m" and "q = dropWhile c_isdigit p"
  from assms have st: "starts_nocase ''~t:'' m" and q: "q \<noteq> p" "take 1 q = '':''" "body = drop 1 q"
    by (auto simp: timed_body_def Let_def p_def q_def split: if_splits)
  from st have l: "3 \<le> length m" by (auto simp: starts_nocase_def dest!: arg_cong [where f = length])
  have tw: "p = takeWhile c_isdigit p @ q" by (simp add: q_def)
  have q': "q = '':'' @ body" using q by (cases q) auto
  have lt: "c_tolower CHR ''~'' = CHR ''~''" "c_tolower CHR '':'' = CHR '':''" "c_tolower CHR ''t'' = CHR ''t''" by code_simp+
  show thesis
  proof (rule that)
    show "m = take 3 m @ takeWhile c_isdigit p @ '':'' @ body"
      using tw q' p_def append_take_drop_id [of 3 m] by simp
    show "length (take 3 m) = 3" using l by simp
    show "map c_tolower (take 3 m) = ''~t:''" using st by (simp add: starts_nocase_def lt numeral_3_eq_3)
    show "takeWhile c_isdigit p \<noteq> []" using tw q by auto
    show "list_all c_isdigit (takeWhile c_isdigit p)" by (auto simp: list_all_iff dest: set_takeWhileD)
  qed
qed

lemma atol_digits:
  assumes "ds \<noteq> []" and "list_all c_isdigit ds" and "\<not> c_isdigit (hd (b @ [CHR 0x00]))"
  shows "atol (ds @ b) = min LONG_MAX (int (fst (read_digits 0 ds)))"
proof -
  have "c_isdigit (hd ((ds @ b) @ [CHR 0x00]))" using assms(1,2) by (cases ds) auto
  from strtol_digit [OF this] show ?thesis
    using assms by (simp add: atol_def read_digits_append read_digits_stop)
qed

lemma atol_show:
  assumes "0 \<le> v" and "v \<le> LONG_MAX"
  shows "atol (show_int v @ '':'' @ b) = v"
proof -
  have s: "show_int v = show_nat (nat v)" using assms(1) by (simp add: show_int_def)
  have "atol (show_nat (nat v) @ '':'' @ b) = min LONG_MAX (int (fst (read_digits 0 (show_nat (nat v)))))"
    using show_nat_digits [of "nat v"] by (intro atol_digits) (simp_all add: ctype_simps)
  with assms show ?thesis by (simp add: s read_show_nat)
qed

lemma timed_minutes:
  assumes "timed_body m = Some body"
  defines "v \<equiv> atol (drop 3 m)"
  shows "0 \<le> v \<and> v \<le> LONG_MAX \<and> length (show_int v) + length body + 4 \<le> length m"
proof -
  from assms(1) obtain pre ds where m: "m = pre @ ds @ '':'' @ body" "length pre = 3"
    and ds: "ds \<noteq> []" "list_all c_isdigit ds"
    by (rule timed_body_parts)
  have v: "v = min LONG_MAX (int (fst (read_digits 0 ds)))"
    using ds m by (simp add: v_def) (rule atol_digits [of ds "CHR '':'' # body"], simp_all add: ctype_simps)
  have "fst (read_digits 0 ds) < 10 ^ length ds" using read_digits_bound [OF ds(2), of 0] by simp
  moreover have "nat v \<le> fst (read_digits 0 ds)" unfolding v by simp
  ultimately have "nat v < 10 ^ length ds" by (metis le_less_trans)
  then have "length (show_nat (nat v)) \<le> length ds" using ds(1) by (intro length_show_nat) simp_all
  moreover have "0 \<le> v" "v \<le> LONG_MAX" unfolding v by (simp_all add: LONG_MAX_def)
  ultimately show ?thesis using m by (simp add: show_int_def)
qed

lemma lower_literals:
  "c_tolower CHR ''~'' = CHR ''~''" "c_tolower CHR '':'' = CHR '':''" "c_tolower CHR ''*'' = CHR ''*''"
  "c_tolower CHR ''!'' = CHR ''!''" "c_tolower CHR ''@'' = CHR ''@''"
  "c_tolower CHR ''a'' = CHR ''a''" "c_tolower CHR ''f'' = CHR ''f''" "c_tolower CHR ''j'' = CHR ''j''"
  "c_tolower CHR ''m'' = CHR ''m''" "c_tolower CHR ''n'' = CHR ''n''" "c_tolower CHR ''r'' = CHR ''r''"
  "c_tolower CHR ''t'' = CHR ''t''" "c_tolower CHR ''z'' = CHR ''z''"
  by code_simp+

lemma ext_rewrite_letter:
  assumes "\<forall>(n, l) \<in> set ext_names. map c_tolower (take 2 n) \<noteq> map c_tolower ab" and "length ab = 2"
  shows "ext_rewrite (''~'' @ ab @ ys) = None"
proof -
  have "\<not> starts_nocase n (ab @ ys)" if "(n, l) \<in> set ext_names" for n l
  proof
    assume "starts_nocase n (ab @ ys)"
    then have "take 2 (map c_tolower (take (length n) (ab @ ys))) = take 2 (map c_tolower n)"
      by (simp add: starts_nocase_def)
    moreover have "2 \<le> length n" using that by (auto simp: ext_names_def)
    ultimately have "map c_tolower ab = map c_tolower (take 2 n)"
      using assms(2) by (simp add: take_map min_def)
    with assms(1) that show False by fastforce
  qed
  then show ?thesis by (auto simp: ext_rewrite_def find_None_iff)
qed

lemma norm_step_timed:
  assumes "0 \<le> v" and "v \<le> LONG_MAX"
  shows "norm_step (''~t:'' @ show_int v @ '':'' @ b) = Inner (''~t:'' @ show_int v @ '':'') b"
proof -
  let ?r = "''~t:'' @ show_int v @ '':'' @ b"
  have "\<forall>(n, l) \<in> set ext_names. map c_tolower (take 2 n) \<noteq> map c_tolower ''t:''" by code_simp
  from ext_rewrite_letter [OF this, of "show_int v @ '':'' @ b"] have e: "ext_rewrite ?r = None" by simp
  have s: "show_int v = show_nat (nat v)" using assms(1) by (simp add: show_int_def)
  obtain d ds where d: "show_nat (nat v) = d # ds" "c_isdigit d" "list_all c_isdigit ds"
    using show_nat_digits [of "nat v"] by (cases "show_nat (nat v)") auto
  have dw: "dropWhile c_isdigit (show_nat (nat v) @ '':'' @ b) = '':'' @ b"
    using show_nat_digits [of "nat v"] by (simp add: dropWhile_append2 list_all_iff ctype_simps)
  have len: "length ('':'' @ b) < length (show_nat (nat v) @ '':'' @ b)" by (simp add: d)
  have tilde: "starts_nocase ''~t:'' ?r" by (simp add: starts_nocase_def)
  have d3: "drop 3 ?r = show_nat (nat v) @ '':'' @ b" by (simp add: s)
  have "timed_body ?r = Some b"
    unfolding timed_body_def Let_def d3 dw using tilde len by auto
  with e d3 atol_show [OF assms, of b] show ?thesis by (simp add: norm_step_def s)
qed

lemma norm_step_forward:
  assumes "CHR '':'' \<notin> set chan"
  shows "norm_step (''~f:'' @ chan @ '':'' @ b) = Inner (''~f:'' @ chan @ '':'') b"
proof -
  have "\<forall>(n, l) \<in> set ext_names. map c_tolower (take 2 n) \<noteq> map c_tolower ''f:''" by code_simp
  from ext_rewrite_letter [OF this, of "chan @ '':'' @ b"] have e: "ext_rewrite (''~f:'' @ chan @ '':'' @ b) = None"
    by simp
  have t: "timed_body (''~f:'' @ chan @ '':'' @ b) = None"
    by (simp add: timed_body_def starts_nocase_def lower_literals)
  show ?thesis
    using e t assms by (simp add: norm_step_def starts_nocase_def lower_literals)
qed

lemma action_letter_check:
  "\<forall>c \<in> {CHR ''m'', CHR ''M'', CHR ''n'', CHR ''N''}.
     (\<forall>(n, l) \<in> set ext_names. map c_tolower (take 2 n) \<noteq> map c_tolower [c, CHR '':'']) \<and>
     (c_tolower c = CHR ''m'' \<or> c_tolower c = CHR ''n'') \<and> c_tolower c \<noteq> CHR ''t'' \<and> c_tolower c \<noteq> CHR ''f'' \<and>
     c \<noteq> CHR ''~''"
  by code_simp

lemma lower_letters: "c_tolower c = CHR ''m'' \<or> c_tolower c = CHR ''n'' \<Longrightarrow> c \<in> {CHR ''m'', CHR ''M'', CHR ''n'', CHR ''N''}"
  unfolding insert_iff char_eq_byte byte_tolower by (auto simp: ctype_simps split: if_splits)

lemma norm_step_action:
  assumes "c_tolower c = CHR ''m'' \<or> c_tolower c = CHR ''n''" and "t = ''~'' \<or> t = []"
  shows "norm_step (t @ [c] @ '':'' @ b) = Inner (t @ [c] @ '':'') b"
proof -
  have c: "c \<in> {CHR ''m'', CHR ''M'', CHR ''n'', CHR ''N''}" using assms(1) by (rule lower_letters)
  note check = action_letter_check [rule_format, OF c]
  have e: "ext_rewrite (t @ [c] @ '':'' @ b) = None"
    using assms(2)
  proof
    assume "t = ''~''"
    with ext_rewrite_letter [of "[c, CHR '':'']" b] check show ?thesis by simp
  next
    assume "t = []"
    with check show ?thesis by (simp add: ext_rewrite_def)
  qed
  have c': "c \<noteq> CHR ''~''" "CHR ''~'' \<noteq> c" "c_tolower c \<noteq> CHR ''t''" "c_tolower c \<noteq> CHR ''f''" "c_tolower c \<noteq> CHR ''~''"
    using check by (auto simp: lower_literals)
  have tb: "timed_body (t @ [c] @ '':'' @ b) = None" and nf: "\<not> starts_nocase ''~f:'' (t @ [c] @ '':'' @ b)"
    using assms(2) c' by (auto simp: timed_body_def starts_nocase_def lower_literals)
  have st: "strip_tilde (t @ [c] @ '':'' @ b) = [c] @ '':'' @ b" using assms(2) c' by (auto simp: strip_tilde_def)
  have q: "starts_nocase ''m:'' ([c] @ '':'' @ b) \<or> starts_nocase ''n:'' ([c] @ '':'' @ b)"
    using assms(1) by (simp add: starts_nocase_def lower_literals)
  have pre: "(if take 1 (t @ [c] @ '':'' @ b) = ''~'' then ''~'' else []) = t"
    using assms(2) c' by auto
  show ?thesis
    unfolding norm_step_def Let_def st e tb option.case pre using nf q by simp
qed

lemma starts_two:
  assumes "starts_nocase [a, CHR '':''] e" and "\<not> c_isalpha CHR '':''"
  obtains c ys where "e = [c] @ '':'' @ ys" and "c_tolower c = c_tolower a"
proof -
  from assms(1) obtain c d ys where e: "e = c # d # ys" and "c_tolower c = c_tolower a" "c_tolower d = c_tolower CHR '':''"
    by (cases e; cases "tl e") (auto simp: starts_nocase_def)
  moreover from this have "d = CHR '':''" by (simp add: lower_literals ctype_simps)
  ultimately show ?thesis using that by simp
qed

lemma norm_step_InnerD:
  assumes "norm_step m = Inner p body"
  shows "norm_step (p @ y) = Inner p y \<and> length p + length body \<le> length m"
proof -
  from assms have ext: "ext_rewrite m = None" by (auto simp: norm_step_def split: option.splits)
  show ?thesis
  proof (cases "timed_body m")
    case (Some b)
    with assms ext have "p = ''~t:'' @ show_int (atol (drop 3 m)) @ '':''" "body = b"
      by (simp_all add: norm_step_def)
    with timed_minutes [OF Some] norm_step_timed [of "atol (drop 3 m)" y] show ?thesis by simp
  next
    case None
    note timed = this
    show ?thesis
    proof (cases "starts_nocase ''~f:'' m \<and> split_chr CHR '':'' (drop 3 m) \<noteq> None")
      case True
      then obtain chan c where sc: "split_chr CHR '':'' (drop 3 m) = Some (chan, c)" by auto
      with True assms ext timed have p: "p = ''~f:'' @ chan @ '':''" "body = c" by (auto simp: norm_step_def)
      from split_chr_SomeD [OF sc] have m: "drop 3 m = chan @ CHR '':'' # c" "CHR '':'' \<notin> set chan" by auto
      from m(1) have "length p + length body \<le> length m" using p by (auto dest: arg_cong [where f = length])
      with p norm_step_forward [OF m(2), of y] show ?thesis by simp
    next
      case False
      define t where "t = (if take 1 m = ''~'' then ''~'' else [])"
      have m: "m = t @ strip_tilde m"
        by (auto simp: t_def strip_tilde_def) (metis append_Cons append_Nil append_take_drop_id)
      from False assms ext timed have q: "starts_nocase ''m:'' (strip_tilde m) \<or> starts_nocase ''n:'' (strip_tilde m)"
        and p: "p = t @ [hd (strip_tilde m)] @ '':''" "body = drop 2 (strip_tilde m)"
        by (auto simp: norm_step_def Let_def t_def split: if_splits option.splits)
      from q obtain c ys where e: "strip_tilde m = [c] @ '':'' @ ys" and c: "c_tolower c = CHR ''m'' \<or> c_tolower c = CHR ''n''"
        by (auto elim!: starts_two simp: lower_literals ctype_simps)
      have "t = ''~'' \<or> t = []" by (simp add: t_def)
      from norm_step_action [OF c this, of y] p e m show ?thesis by (auto dest: arg_cong [where f = length])
    qed
  qed
qed

lemma plain_form_shape: "CHR ''!'' \<in> set (plain_form m) \<and> CHR ''@'' \<in> set (plain_form m)"
  by (auto simp: plain_form_def Let_def)

lemma plain_form_idem: "plain_form (plain_form m) = plain_form m"
  using plain_form_shape [of m] by (simp add: plain_form_def [of "plain_form m"] Let_def)

lemma length_plain_form: "length (plain_form m) \<le> length m + 4"
  by (simp add: plain_form_def Let_def)

lemma norm_step_DoneD:
  assumes "norm_step m = Done out"
  shows "norm_step out = Done out \<and> length out \<le> length m + 4"
proof -
  from assms have ext: "ext_rewrite m = None" and tb: "timed_body m = None"
    and nf: "\<not> (starts_nocase ''~f:'' m \<and> split_chr CHR '':'' (drop 3 m) \<noteq> None)"
    by (auto simp: norm_step_def split: option.splits if_splits)
  with assms have o: "out = m \<or> take 1 m \<noteq> ''~'' \<and> out = plain_form m"
    and na: "\<not> starts_nocase ''m:'' (strip_tilde m)" "\<not> starts_nocase ''n:'' (strip_tilde m)"
    by (auto simp: norm_step_def Let_def split: if_splits)
  from o show ?thesis
  proof
    assume "out = m"
    with assms show ?thesis by simp
  next
    assume p: "take 1 m \<noteq> ''~'' \<and> out = plain_form m"
    then have st: "strip_tilde m = m" by (simp add: strip_tilde_def)
    have t: "take 1 out \<noteq> ''~''"
      using p by (cases m) (auto simp: plain_form_def Let_def)
    then have st2: "strip_tilde out = out" by (simp add: strip_tilde_def)
    have na2: "\<not> starts_nocase ''m:'' out \<and> \<not> starts_nocase ''n:'' out"
    proof (cases "2 \<le> length m")
      case True
      have "take 2 out = take 2 m \<or> take 1 out = ''*''"
        using True p by (auto simp: plain_form_def Let_def)
      then show ?thesis
      proof
        assume "take 2 out = take 2 m"
        then have "starts_nocase [c, CHR '':''] out = starts_nocase [c, CHR '':''] m" for c
          by (simp add: starts_nocase_def numeral_2_eq_2)
        with na st show ?thesis by simp
      next
        assume "take 1 out = ''*''"
        then show ?thesis by (cases out) (auto simp: starts_nocase_def lower_literals)
      qed
    next
      case False
      then consider "m = []" | c where "m = [c]" by (cases m; cases "tl m") auto
      then show ?thesis
        by cases (use p in \<open>auto simp: plain_form_def Let_def starts_nocase_def lower_literals\<close>)
    qed
    have e2: "ext_rewrite out = None" using t by (simp add: ext_rewrite_def)
    have "\<not> starts_nocase ''~t:'' out" "\<not> starts_nocase ''~f:'' out"
      using t by (cases out; auto simp: starts_nocase_def lower_literals ctype_simps)+
    then have "norm_step out = Done out"
      using e2 na2 st2 t p by (auto simp: norm_step_def timed_body_def Let_def plain_form_idem)
    with p length_plain_form show ?thesis by simp
  qed
qed

lemma normalize_stable:
  "length m \<le> 251 \<Longrightarrow>
     length (channel_normalize_mask m 256) \<le> length m + 4 \<and>
     channel_normalize_mask (channel_normalize_mask m 256) 256 = channel_normalize_mask m 256"
proof (induction "norm_measure m" arbitrary: m rule: less_induct)
  case less
  show ?case
  proof (cases "norm_step m")
    case (Again tmp)
    then have "length tmp \<le> length m"
      using ext_rewrite_next [of m tmp] by (auto simp: norm_step_def Let_def split: option.splits if_splits prod.splits)
    with less.hyps [OF norm_step_Again [OF Again]] less.prems Again show ?thesis
      by (simp add: channel_normalize_mask.simps [of m])
  next
    case (Inner p body)
    define r where "r = channel_normalize_mask body 256"
    from norm_step_InnerD [OF Inner] have l: "length p + length body \<le> length m"
      and s: "norm_step (p @ r) = Inner p r" by auto
    have lb: "length body + 2 \<le> length m" using norm_step_Inner [OF Inner] .
    then have "norm_measure body < norm_measure m" by (simp add: norm_measure_def)
    from less.hyps [OF this] less.prems lb have
      IH: "length r \<le> length body + 4" "channel_normalize_mask r 256 = r" by (simp_all add: r_def)
    have m: "channel_normalize_mask m 256 = p @ r"
      using Inner IH l less.prems by (simp add: channel_normalize_mask.simps [of m] r_def [symmetric])
    have "channel_normalize_mask (p @ r) 256 = p @ r"
      using s IH l less.prems by (simp add: channel_normalize_mask.simps [of "p @ r"])
    with m IH l show ?thesis by simp
  next
    case (Done out)
    from norm_step_DoneD [OF Done] have o: "norm_step out = Done out" "length out \<le> length m + 4" by auto
    with Done less.prems show ?thesis
      by (simp add: channel_normalize_mask.simps [of m] channel_normalize_mask.simps [of out])
  qed
qed

section \<open>The lists as bounded registers\<close>

lemma masks_masklist_add:
  "masks_of (snd (masklist_add now k ml)) =
     (if (\<exists>m \<in> set (masks_of ml). strcaseeq m k) \<or> CHAN_MAX_MASKLIST \<le> length (masks_of ml) then masks_of ml
      else masks_of ml @ [clip 256 k])"
  by (auto simp: masklist_add_def masks_of_def)

lemma masks_masklist_del:
  "masks_of (snd (masklist_del k ml)) = remove_first (\<lambda>m. strcaseeq m k) (masks_of ml)"
proof -
  have "map me_mask (remove_first (\<lambda>e. strcaseeq (me_mask e) k) es) = remove_first (\<lambda>m. strcaseeq m k) (map me_mask es)" for es
    by (rule map_remove_first) simp
  then show ?thesis
    by (auto simp: masklist_del_def masks_of_def Let_def intro!: remove_first_none [symmetric])
qed

interpretation bl: bounded_register masks_of "\<lambda>k ml. snd (masklist_add now k ml)" "\<lambda>k ml. snd (masklist_del k ml)"
  strcaseeq "\<lambda>k. length k < 256" CHAN_MAX_MASKLIST for now
  by unfold_locales
    (auto simp: masks_masklist_add masks_masklist_del CHAN_MAX_MASKLIST_def strcaseeq_sym intro: strcaseeq_trans)

interpretation iv: bounded_register "\<lambda>l. l" channel_invite_add channel_invite_remove "(=)" "\<lambda>k. length k < 64"
  CHAN_MAX_INVITED
  by unfold_locales (auto simp: channel_invite_add_def channel_invite_remove_def CHAN_MAX_INVITED_def)

section \<open>The cache is coherent\<close>

text \<open>Changes of the two lists the verdict reads.\<close>

datatype list_change = Ban int string | Unban string | Except int string | Unexcept string

fun change_lists :: "list_change \<Rightarrow> masklist \<times> masklist \<Rightarrow> masklist \<times> masklist" where
  "change_lists (Ban now m) (b, e) = (snd (masklist_add now m b), e)"
| "change_lists (Unban m) (b, e) = (snd (masklist_del m b), e)"
| "change_lists (Except now m) (b, e) = (b, snd (masklist_add now m e))"
| "change_lists (Unexcept m) (b, e) = (b, snd (masklist_del m e))"

text \<open>Whether the verdict of a mask can depend on the channels the user is in.\<close>

function asks_channels :: "string \<Rightarrow> bool" where
  "asks_channels msk =
     (let m = strip_tilde (mask_body msk)
      in if starts_nocase ''f:'' m then
           (case split_chr CHR '':'' (drop 2 m) of None \<Rightarrow> False | Some (_, c) \<Rightarrow> asks_channels c)
         else starts_nocase ''j:'' m)"
  by pat_completeness auto
termination
  by (relation "measure length") (auto dest: forward_rest_shorter)

declare asks_channels.simps [simp del]

definition action_asks_channels :: "string \<Rightarrow> bool" where
  "action_asks_channels msk = asks_channels (drop 2 (strip_tilde (mask_body msk)))"

text \<open>The same user later: only the channels may have changed.\<close>

definition same_but_channels :: "ban_extra option \<Rightarrow> ban_extra option \<Rightarrow> bool" where
  "same_but_channels x y \<longleftrightarrow>
     (case (x, y) of
        (None, None) \<Rightarrow> True
      | (Some a, Some b) \<Rightarrow> be_realname a = be_realname b \<and> be_secure a = be_secure b \<and>
          (case (be_cl a, be_cl b) of
             (None, None) \<Rightarrow> True
           | (Some c, Some d) \<Rightarrow> ec_certfp c = ec_certfp d
           | _ \<Rightarrow> False)
      | _ \<Rightarrow> False)"

lemma hit_same_but_channels:
  "same_but_channels x y \<Longrightarrow> \<not> asks_channels m \<Longrightarrow>
     channel_mask_hit x m n u h a i = channel_mask_hit y m n u h a i"
proof (induction m rule: asks_channels.induct)
  case (1 m)
  let ?m = "strip_tilde (mask_body m)"
  from "1.prems"(1) have sb: "(x = None \<and> y = None) \<or> (\<exists>a b. x = Some a \<and> y = Some b \<and>
      be_realname a = be_realname b \<and> be_secure a = be_secure b \<and>
      ((be_cl a = None \<and> be_cl b = None) \<or>
       (\<exists>c d. be_cl a = Some c \<and> be_cl b = Some d \<and> ec_certfp c = ec_certfp d)))"
    by (auto simp: same_but_channels_def split: option.splits)
  show ?case
  proof (cases "starts_nocase ''f:'' ?m")
    case True
    show ?thesis
    proof (cases "split_chr CHR '':'' (drop 2 ?m)")
      case None
      with True show ?thesis by (simp add: channel_mask_hit.simps [of _ m] Let_def)
    next
      case (Some ac)
      obtain b c where ac: "ac = (b, c)" by (cases ac)
      with True Some "1.prems"(2) have "\<not> asks_channels c" by (simp add: asks_channels.simps [of m] Let_def)
      with "1.IH" [OF refl True Some ac [symmetric]] "1.prems"(1) True Some ac show ?thesis
        by (simp add: channel_mask_hit.simps [of _ m] Let_def)
    qed
  next
    case False
    with "1.prems"(2) have "\<not> starts_nocase ''j:'' ?m" by (simp add: asks_channels.simps [of m] Let_def)
    with False sb show ?thesis by (auto simp: channel_mask_hit.simps [of _ m] Let_def)
  qed
qed

lemma any_host_same_but_channels:
  "same_but_channels x y \<Longrightarrow> \<not> asks_channels m \<Longrightarrow> mask_hit_any_host x m w = mask_hit_any_host y m w"
  by (simp add: mask_hit_any_host_def hit_same_but_channels [of x y])

lemma verdict_same_but_channels:
  assumes "same_but_channels x y"
    and "\<forall>m \<in> set (masks_of b). \<not> asks_channels m \<and> \<not> action_asks_channels m"
    and "\<forall>m \<in> set (masks_of e). \<not> asks_channels m"
  shows "channel_is_banned x b e w = channel_is_banned y b e w"
    and "channel_is_quieted x b w = channel_is_quieted y b w"
proof -
  have b: "mask_hit_any_host x (me_mask m) w = mask_hit_any_host y (me_mask m) w \<and>
      mask_hit_any_host x (drop 2 (strip_tilde (mask_body (me_mask m)))) w =
      mask_hit_any_host y (drop 2 (strip_tilde (mask_body (me_mask m)))) w" if "m \<in> set (ml_entries b)" for m
    using assms(1,2) that by (auto simp: masks_of_def action_asks_channels_def intro!: any_host_same_but_channels)
  have e: "mask_hit_any_host x (me_mask m) w = mask_hit_any_host y (me_mask m) w" if "m \<in> set (ml_entries e)" for m
    using assms(1,3) that by (auto simp: masks_of_def intro!: any_host_same_but_channels)
  show "channel_is_banned x b e w = channel_is_banned y b e w"
    unfolding channel_is_banned_def using b e by blast
  show "channel_is_quieted x b w = channel_is_quieted y b w"
    unfolding channel_is_quieted_def action_ban_hit_def Let_def using b by blast
qed

text \<open>A ~j: mask at the top makes the list dynamic; one under another extban does not.\<close>

definition channel_mask :: "string \<Rightarrow> bool" where
  "channel_mask m \<longleftrightarrow> starts_nocase ''j:'' (strip_tilde (mask_body m))"

definition hides_channel_mask :: "string \<Rightarrow> bool" where
  "hides_channel_mask m \<longleftrightarrow> (asks_channels m \<or> action_asks_channels m) \<and> \<not> channel_mask m"

definition marked :: "masklist \<Rightarrow> bool" where
  "marked ml \<longleftrightarrow> ((\<exists>m \<in> set (masks_of ml). channel_mask m) \<longrightarrow> ml_dynamic ml)"

fun short_change :: "list_change \<Rightarrow> bool" where
  "short_change (Ban now m) = (length m < 256)"
| "short_change (Unban m) = (length m < 256)"
| "short_change (Except now m) = (length m < 256)"
| "short_change (Unexcept m) = (length m < 256)"

lemma marked_add: "length k < 256 \<Longrightarrow> marked ml \<Longrightarrow> marked (snd (masklist_add now k ml))"
  by (auto simp: marked_def masks_of_def masklist_add_def channel_mask_def)

lemma marked_del: "marked ml \<Longrightarrow> marked (snd (masklist_del k ml))"
  by (auto simp: marked_def masks_of_def masklist_del_def Let_def dest: subsetD [OF set_remove_first])

lemma marked_change:
  assumes "short_change c" and "marked (fst be)" and "marked (snd be)"
  shows "marked (fst (change_lists c be)) \<and> marked (snd (change_lists c be))"
  using assms by (cases be; cases c) (simp_all add: marked_add marked_del)

lemma marked_changes:
  "\<forall>c \<in> set cs. short_change c \<Longrightarrow> marked (fst be) \<Longrightarrow> marked (snd be) \<Longrightarrow>
     marked (fst (fold change_lists cs be)) \<and> marked (snd (fold change_lists cs be))"
  by (induction cs arbitrary: be) (simp_all add: marked_change)

definition gen_sum :: "masklist \<times> masklist \<Rightarrow> 32 word" where
  "gen_sum be = ml_gen (fst be) + ml_gen (snd be)"

lemma change_gen: "change_lists c be = be \<or> gen_sum (change_lists c be) = gen_sum be + 1"
  by (cases be; cases c) (auto simp: gen_sum_def masklist_add_def masklist_del_def Let_def)

lemma changes_gen:
  "\<exists>k \<le> length cs. gen_sum (fold change_lists cs be) = gen_sum be + word_of_nat k \<and>
     (k = 0 \<longrightarrow> fold change_lists cs be = be)"
proof (induction cs arbitrary: be)
  case (Cons c cs)
  obtain k where k: "k \<le> length cs"
    "gen_sum (fold change_lists cs (change_lists c be)) = gen_sum (change_lists c be) + word_of_nat k"
    "k = 0 \<longrightarrow> fold change_lists cs (change_lists c be) = change_lists c be"
    using Cons.IH by blast
  show ?case
  proof (cases "change_lists c be = be")
    case True
    with k show ?thesis by (intro exI [of _ k]) auto
  next
    case False
    with change_gen [of c be] have "gen_sum (change_lists c be) = gen_sum be + 1" by blast
    with k show ?thesis by (intro exI [of _ "Suc k"]) (simp add: algebra_simps)
  qed
qed simp

lemma same_gen_same_lists:
  assumes "length cs < 2 ^ 32" and "gen_sum (fold change_lists cs be) = gen_sum be"
  shows "fold change_lists cs be = be"
proof -
  obtain k where k: "k \<le> length cs" "gen_sum (fold change_lists cs be) = gen_sum be + word_of_nat k"
    "k = 0 \<longrightarrow> fold change_lists cs be = be"
    using changes_gen by blast
  with assms have "(word_of_nat k :: 32 word) = 0" by simp
  moreover have "k < 2 ^ 32" using k assms by simp
  ultimately have "k = 0" by (auto simp: word_of_nat_eq_0_iff dest: dvd_imp_le)
  with k show ?thesis by blast
qed

lemma ban_state_member: "\<exists>bn q m. channel_ban_state x b e (Some c) w = (bn, q, Some m)"
  by (auto simp: channel_ban_state_def Let_def)

section \<open>Properties\<close>

text \<open>
  The form a mask is stored in is final: normalising it again changes nothing, for every
  mask short enough for the 256-byte buffers. So -b with the mask as it was typed, or as it is
  listed, finds the entry that +b stored.
\<close>

theorem normalize_mask_stable:
  assumes "length m \<le> 251"
  shows "channel_normalize_mask (channel_normalize_mask m 256) 256 = channel_normalize_mask m 256"
  using normalize_stable [OF assms] by blast

theorem normalize_mask_stable_witness:
  "channel_normalize_mask ''~t:5:~m:bob!*@*'' 256 = ''~t:5:~m:bob!*@*''"
proof -
  have "channel_normalize_mask ''~TIME:05:~quiet:bob'' 256 = ''~t:5:~m:bob!*@*''" by code_simp
  with normalize_mask_stable [of "''~TIME:05:~quiet:bob''"] show ?thesis by simp
qed

text \<open>
  C21. Whatever masks are added to and removed from a ban list, in any order and at any times,
  it never holds more than \<open>CHAN_MAX_MASKLIST\<close> masks nor two that differ only in case, and once
  a mask is removed no entry equal to it is left.
\<close>

theorem masklist_bounded:
  assumes "\<forall>u \<in> set us. case u of Put k \<Rightarrow> length k < 256 | Drop k \<Rightarrow> length k < 256" and "length k < 256"
  shows "let ml = fold (\<lambda>u ml. case u of Put k \<Rightarrow> snd (masklist_add now k ml) | Drop k \<Rightarrow> snd (masklist_del k ml)) us empty_masklist
    in length (masks_of ml) \<le> CHAN_MAX_MASKLIST \<and> sorted_wrt (\<lambda>a b. \<not> strcaseeq a b) (masks_of ml) \<and>
       (\<forall>m \<in> set (masks_of (snd (masklist_del k ml))). \<not> strcaseeq m k)"
proof -
  have op: "(\<lambda>u ml. case u of Put k \<Rightarrow> snd (masklist_add now k ml) | Drop k \<Rightarrow> snd (masklist_del k ml)) = bl.apply_op now"
  proof (intro ext)
    show "(case u of Put k \<Rightarrow> snd (masklist_add now k ml) | Drop k \<Rightarrow> snd (masklist_del k ml)) = bl.apply_op now u ml" for u ml
      by (cases u) simp_all
  qed
  have "bl.op_ok u" if "u \<in> set us" for u
    using assms(1) that by (cases u) auto
  moreover have "bl.wf empty_masklist" by (simp add: bl.wf_def empty_masklist_def masks_of_def)
  ultimately have wf: "bl.wf (fold (bl.apply_op now) us empty_masklist)" by (intro bl.run_wf) blast+
  from bl.del_gone [OF wf assms(2)] wf show ?thesis unfolding op Let_def by (simp add: bl.wf_def)
qed

theorem masklist_bounded_witness:
  "masks_of (snd (masklist_del ''B!*@*'' (fold (\<lambda>u ml. case u of Put k \<Rightarrow> snd (masklist_add 7 k ml)
     | Drop k \<Rightarrow> snd (masklist_del k ml)) [Put ''a!*@*'', Put ''b!*@*'', Put ''A!*@*''] empty_masklist))) = [''a!*@*'']"
proof -
  have "\<forall>u \<in> set [Put ''a!*@*'', Put ''b!*@*'', Put ''A!*@*'']. case u of Put k \<Rightarrow> length k < 256 | Drop k \<Rightarrow> length k < 256"
    by code_simp
  from masklist_bounded [OF this, of "''B!*@*''" 7] show ?thesis by code_simp
qed

text \<open>
  C16. A verdict served from a member's cache is the verdict the lists give now: for lists built
  by any additions and removals, then any fewer than \<open>2 ^ 32\<close> further changes, and a user whose channels
  may have changed in between, as long as no mask hides a ~j: extban under another one.
\<close>

theorem ban_cache_coherent:
  assumes "\<forall>c \<in> set (cs0 @ cs). short_change c"
    and "fold change_lists cs0 (empty_masklist, empty_masklist) = (b, e)"
    and "channel_ban_state x b e (Some empty_cache) w = (banned, quieted, Some m)"
    and "fold change_lists cs (b, e) = (b', e')" and "length cs < 2 ^ 32"
    and "same_but_channels x y"
    and "w' = w \<or> ident_hash y w' \<noteq> ident_hash y w"
    and "\<forall>k \<in> set (masks_of b' @ masks_of e'). \<not> hides_channel_mask k"
  shows "\<exists>m'. channel_ban_state y b' e' (Some m) w' =
    (channel_is_banned y b' e' w', channel_is_quieted y b' w', Some m')"
proof -
  have hash: "ident_hash y w = ident_hash x w"
    using assms(6) by (auto simp: ident_hash_def same_but_channels_def Let_def split: option.splits)
  have marked: "marked b' \<and> marked e'"
    using marked_changes [of "cs0 @ cs" "(empty_masklist, empty_masklist)"] assms(1,2,4)
    by (simp add: marked_def masks_of_def empty_masklist_def)
  show ?thesis
  proof (cases "\<not> (ml_dynamic b' \<or> ml_dynamic e') \<and> bc_valid m \<and>
      bc_lists_gen m = ml_gen b' + ml_gen e' \<and> bc_ident_hash m = ident_hash y w'")
    case False
    then show ?thesis by (auto simp: channel_ban_state_def Let_def)
  next
    case True
    then have m: "bc_lists_gen m = ml_gen b + ml_gen e" "bc_ident_hash m = ident_hash x w"
      "bc_banned m = channel_is_banned x b e w" "bc_quieted m = channel_is_quieted x b w"
      using assms(3) by (auto simp: channel_ban_state_def empty_cache_def Let_def split: if_splits)
    with True have w: "w' = w" using assms(7) hash by auto
    have "gen_sum (b', e') = gen_sum (b, e)" using True m by (simp add: gen_sum_def)
    then have lists: "(b', e') = (b, e)" using same_gen_same_lists [OF assms(5), of "(b, e)"] assms(4) by simp
    from True marked have "\<forall>k \<in> set (masks_of b' @ masks_of e'). \<not> channel_mask k" by (auto simp: marked_def)
    with assms(8) have "\<forall>k \<in> set (masks_of b). \<not> asks_channels k \<and> \<not> action_asks_channels k"
      "\<forall>k \<in> set (masks_of e). \<not> asks_channels k"
      using lists by (auto simp: hides_channel_mask_def)
    from verdict_same_but_channels [OF assms(6) this] True m lists w show ?thesis
      by (auto simp: channel_ban_state_def Let_def)
  qed
qed

theorem ban_cache_coherent_witness:
  "\<exists>b m m'. channel_ban_state (Some \<lparr>be_realname = [], be_secure = False, be_cl = None\<rparr>) b empty_masklist (Some m)
      \<lparr>w_nick = ''bob'', w_user = ''b'', w_host = ''h'', w_realhost = ''h'', w_ip = ''i'', w_account = [], w_ident = False\<rparr> =
    (False, True, Some m')"
proof -
  let ?x = "Some \<lparr>be_realname = [], be_secure = False, be_cl = None\<rparr> :: ban_extra option"
  let ?w = "\<lparr>w_nick = ''bob'', w_user = ''b'', w_host = ''h'', w_realhost = ''h'', w_ip = ''i'', w_account = [], w_ident = False\<rparr>"
  obtain b e where l: "fold change_lists [Ban 0 ''~m:bob!*@*''] (empty_masklist, empty_masklist) = (b, e)" by fastforce
  then have be: "b = fst (fold change_lists [Ban 0 ''~m:bob!*@*''] (empty_masklist, empty_masklist))"
    "e = snd (fold change_lists [Ban 0 ''~m:bob!*@*''] (empty_masklist, empty_masklist))" by simp_all
  have e0: "e = empty_masklist" unfolding be by code_simp
  obtain m bn q where s: "channel_ban_state ?x b e (Some empty_cache) ?w = (bn, q, Some m)"
    using ban_state_member by blast
  have "channel_is_banned ?x b e ?w = False" "channel_is_quieted ?x b ?w = True" unfolding be by code_simp+
  moreover have "\<exists>m'. channel_ban_state ?x b e (Some m) ?w = (channel_is_banned ?x b e ?w, channel_is_quieted ?x b ?w, Some m')"
  proof (rule ban_cache_coherent [OF _ l s])
    show "\<forall>c \<in> set ([Ban 0 ''~m:bob!*@*''] @ []). short_change c" by simp
    show "\<forall>k \<in> set (masks_of b @ masks_of e). \<not> hides_channel_mask k" unfolding be by code_simp
  qed (simp_all add: same_but_channels_def)
  ultimately show ?thesis unfolding e0 by auto
qed

text \<open>
  The condition on hidden ~j: extbans is needed, and the code does not meet it: with the quiet
  \<open>~m:~j:#trap\<close> in the ban list, a member judged while outside \<open>#trap\<close> is cached as free to speak,
  and keeps that verdict after joining \<open>#trap\<close>, when the list itself says quieted.
\<close>

theorem ban_cache_stale:
  "let b = snd (masklist_add 0 ''~m:~j:#trap'' empty_masklist);
       w = \<lparr>w_nick = ''bob'', w_user = ''b'', w_host = ''h'', w_realhost = ''h'', w_ip = ''i'', w_account = [], w_ident = False\<rparr>;
       x = (\<lambda>chans. Some \<lparr>be_realname = [], be_secure = False, be_cl = Some \<lparr>ec_certfp = [], ec_channels = chans\<rparr>\<rparr>);
       (banned, quieted, m) = channel_ban_state (x []) b empty_masklist (Some empty_cache) w
   in \<not> quieted \<and> channel_is_quieted (x [''#trap'']) b w \<and>
      fst (snd (channel_ban_state (x [''#trap'']) b empty_masklist m w)) = False"
  by code_simp

text \<open>
  The expiry time of a timed mask is computed with a product that can wrap: an entry set
  for the largest number of minutes the text can hold counts as expired a minute before it was set.
\<close>

theorem timed_mask_wraps:
  "channel_mask_expired (snd (masklist_add 1700000000 ''~t:9223372036854775807:bob!*@*'' empty_masklist)) 0 1700000000"
proof -
  let ?m = "''~t:9223372036854775807:bob!*@*''"
  have t: "timed_body ?m \<noteq> None" by code_simp
  have "atol (''9223372036854775807'' @ '':bob!*@*'') = min LONG_MAX (int (fst (read_digits 0 ''9223372036854775807'')))"
    by (rule atol_digits) (simp_all add: ctype_simps)
  then have a: "atol (drop 3 ?m) = 9223372036854775807"
    by (simp add: LONG_MAX_def ctype_simps digit_val_def)
  have w: "wrap64 (9223372036854775807 * 60) = - 60" "wrap64 (1700000000 - 60) = 1700000000 - 60"
    by (simp_all add: wrap64_def)
  have e: "ml_entries (snd (masklist_add 1700000000 ?m empty_masklist)) =
      [\<lparr>me_mask = ?m, me_set_at = 1700000000, me_set_by = []\<rparr>]"
    by (simp add: masklist_add_def empty_masklist_def CHAN_MAX_MASKLIST_def)
  show ?thesis
    unfolding channel_mask_expired_def Let_def e using t a w by simp
qed

end
