(* ===== verification/Channel.thy ===== *)
theory Channel
  imports Banlist "HOL-Library.AList"
begin

text \<open>
  The channel of src/src/channel.h: its record, the member table (uthash keeps insertion
  order: an association list from client ids), ranks and their display, who sees whom, the mode
  letters and the MODE string, and the two forms of the +f flood parameter.
\<close>

unbundle bit_operations_syntax

section \<open>Ranks and mode bits\<close>

type_synonym flags = "32 word"
type_synonym client_id = nat

definition RANK_VOICE :: flags where "RANK_VOICE = 0x1"
definition RANK_HALFOP :: flags where "RANK_HALFOP = 0x2"
definition RANK_OP :: flags where "RANK_OP = 0x4"
definition RANK_ADMIN :: flags where "RANK_ADMIN = 0x8"
definition RANK_OWNER :: flags where "RANK_OWNER = 0x10"

lemmas rank_bits = RANK_VOICE_def RANK_HALFOP_def RANK_OP_def RANK_ADMIN_def RANK_OWNER_def

definition CMODE_N :: flags where "CMODE_N = 0x001"
definition CMODE_I :: flags where "CMODE_I = 0x002"
definition CMODE_P :: flags where "CMODE_P = 0x004"
definition CMODE_T :: flags where "CMODE_T = 0x008"
definition CMODE_S :: flags where "CMODE_S = 0x010"
definition CMODE_M :: flags where "CMODE_M = 0x020"
definition CMODE_K :: flags where "CMODE_K = 0x040"
definition CMODE_L :: flags where "CMODE_L = 0x080"
definition CMODE_Z :: flags where "CMODE_Z = 0x100"
definition CMODE_R :: flags where "CMODE_R = 0x200"
definition CMODE_PERM :: flags where "CMODE_PERM = 0x400"
definition CMODE_NOCTCP :: flags where "CMODE_NOCTCP = 0x800"
definition CMODE_NONOTICE :: flags where "CMODE_NONOTICE = 0x1000"
definition CMODE_STRIPCOLOR :: flags where "CMODE_STRIPCOLOR = 0x2000"
definition CMODE_NOINVITE :: flags where "CMODE_NOINVITE = 0x4000"
definition CMODE_NOKICK :: flags where "CMODE_NOKICK = 0x8000"
definition CMODE_NONICK :: flags where "CMODE_NONICK = 0x10000"
definition CMODE_REGONLY :: flags where "CMODE_REGONLY = 0x20000"
definition CMODE_OPERONLY :: flags where "CMODE_OPERONLY = 0x40000"
definition CMODE_MODREG :: flags where "CMODE_MODREG = 0x80000"
definition CMODE_NOCOLOR :: flags where "CMODE_NOCOLOR = 0x100000"
definition CMODE_FLOOD :: flags where "CMODE_FLOOD = 0x200000"
definition CMODE_JTHROT :: flags where "CMODE_JTHROT = 0x400000"
definition CMODE_REDIRECT :: flags where "CMODE_REDIRECT = 0x800000"
definition CMODE_DELAYJOIN :: flags where "CMODE_DELAYJOIN = 0x1000000"
definition CMODE_AUDITORIUM :: flags where "CMODE_AUDITORIUM = 0x2000000"
definition CMODE_CENSOR :: flags where "CMODE_CENSOR = 0x4000000"
definition CMODE_NOKNOCK :: flags where "CMODE_NOKNOCK = 0x8000000"

lemmas cmode_bits =
  CMODE_N_def CMODE_I_def CMODE_P_def CMODE_T_def CMODE_S_def CMODE_M_def CMODE_K_def CMODE_L_def
  CMODE_Z_def CMODE_R_def CMODE_PERM_def CMODE_NOCTCP_def CMODE_NONOTICE_def CMODE_STRIPCOLOR_def
  CMODE_NOINVITE_def CMODE_NOKICK_def CMODE_NONICK_def CMODE_REGONLY_def CMODE_OPERONLY_def
  CMODE_MODREG_def CMODE_NOCOLOR_def CMODE_FLOOD_def CMODE_JTHROT_def CMODE_REDIRECT_def
  CMODE_DELAYJOIN_def CMODE_AUDITORIUM_def CMODE_CENSOR_def CMODE_NOKNOCK_def

abbreviation has :: "flags \<Rightarrow> flags \<Rightarrow> bool" where
  "has f b \<equiv> f AND b \<noteq> 0"

section \<open>The record\<close>

record member =
  mb_rank :: flags
  mb_hidden :: bool
  mb_fl_start :: int
  mb_fl_count :: int
  mb_rp_hash :: "32 word"
  mb_rp_count :: int
  mb_rp_start :: int
  mb_cache :: ban_cache

definition new_member :: member where
  "new_member = \<lparr>mb_rank = 0, mb_hidden = False, mb_fl_start = 0, mb_fl_count = 0, mb_rp_hash = 0,
                 mb_rp_count = 0, mb_rp_start = 0, mb_cache = empty_cache\<rparr>"

text \<open>The arrays of \<open>floodprot_t\<close> are lists of seven, in the order of \<open>FP_TYPES\<close>.\<close>

definition FP_TYPES :: string where "FP_TYPES = ''cjkmntr''"

record floodprot =
  fp_spec :: string
  fp_limit :: "int list"
  fp_action :: "char list"
  fp_unset_mins :: "int list"
  fp_count :: "int list"
  fp_start :: "int list"
  fp_unset_at :: "int list"

record channel =
  ch_name :: string
  ch_casefold_name :: string
  ch_topic :: string
  ch_topic_setter :: string
  ch_topic_time :: int
  ch_created :: int
  ch_modes :: flags
  ch_key :: string
  ch_limit :: int
  ch_redirect :: string
  ch_flood_lines :: int
  ch_flood_secs :: int
  ch_jt_joins :: int
  ch_jt_secs :: int
  ch_fp :: "floodprot option"
  ch_jt_count :: int
  ch_jt_start :: int
  ch_bans :: masklist
  ch_exceptions :: masklist
  ch_invex :: masklist
  ch_invited :: "string list"
  ch_members :: "(client_id \<times> member) list"

definition channel_new :: "string \<Rightarrow> string \<Rightarrow> int \<Rightarrow> channel" where
  "channel_new name casefold_name now =
     \<lparr>ch_name = clip CHAN_NAMELEN name, ch_casefold_name = clip CHAN_NAMELEN casefold_name, ch_topic = [],
      ch_topic_setter = [], ch_topic_time = 0, ch_created = now, ch_modes = 0, ch_key = [], ch_limit = 0,
      ch_redirect = [], ch_flood_lines = 0, ch_flood_secs = 0, ch_jt_joins = 0, ch_jt_secs = 0, ch_fp = None,
      ch_jt_count = 0, ch_jt_start = 0, ch_bans = empty_masklist, ch_exceptions = empty_masklist,
      ch_invex = empty_masklist, ch_invited = [], ch_members = []\<rparr>"

definition channel_find_member :: "channel \<Rightarrow> client_id \<Rightarrow> member option" where
  "channel_find_member chan cl = map_of (ch_members chan) cl"

definition channel_add_member :: "channel \<Rightarrow> client_id \<Rightarrow> channel" where
  "channel_add_member chan cl =
     (case channel_find_member chan cl of
        Some m \<Rightarrow> chan
      | None \<Rightarrow> chan\<lparr>ch_members := ch_members chan @ [(cl, new_member)]\<rparr>)"

definition channel_remove_member :: "channel \<Rightarrow> client_id \<Rightarrow> channel" where
  "channel_remove_member chan cl = chan\<lparr>ch_members := AList.delete cl (ch_members chan)\<rparr>"

text \<open>A write through a \<open>member_t\<close> pointer.\<close>

definition set_member :: "channel \<Rightarrow> client_id \<Rightarrow> member \<Rightarrow> channel" where
  "set_member chan cl m = chan\<lparr>ch_members := AList.update cl m (ch_members chan)\<rparr>"

definition channel_member_count :: "channel \<Rightarrow> nat" where
  "channel_member_count chan = length (ch_members chan)"

definition member_has :: "channel \<Rightarrow> client_id \<Rightarrow> flags \<Rightarrow> bool" where
  "member_has chan cl bits = (case channel_find_member chan cl of None \<Rightarrow> False | Some m \<Rightarrow> has (mb_rank m) bits)"

definition channel_is_op :: "channel \<Rightarrow> client_id \<Rightarrow> bool" where
  "channel_is_op chan cl = member_has chan cl RANK_OP"

definition channel_is_halfop :: "channel \<Rightarrow> client_id \<Rightarrow> bool" where
  "channel_is_halfop chan cl = member_has chan cl RANK_HALFOP"

definition channel_has_ops :: "channel \<Rightarrow> client_id \<Rightarrow> bool" where
  "channel_has_ops chan cl = member_has chan cl (RANK_OP OR RANK_HALFOP)"

definition channel_is_voice :: "channel \<Rightarrow> client_id \<Rightarrow> bool" where
  "channel_is_voice chan cl = member_has chan cl RANK_VOICE"

definition channel_member_visible :: "channel \<Rightarrow> client_id \<Rightarrow> member \<Rightarrow> (client_id \<times> member) option \<Rightarrow> bool" where
  "channel_member_visible chan s subject viewer =
     (if (case viewer of Some (v, _) \<Rightarrow> v = s | None \<Rightarrow> False) then True
      else if mb_hidden subject then False
      else if has (ch_modes chan) CMODE_AUDITORIUM then
        (if has (mb_rank subject) (RANK_VOICE OR RANK_HALFOP OR RANK_OP) then True
         else (case viewer of None \<Rightarrow> False | Some (_, vm) \<Rightarrow> has (mb_rank vm) (RANK_HALFOP OR RANK_OP)))
      else True)"

definition rank_table :: "(flags \<times> char) list" where
  "rank_table = [(RANK_OWNER, CHR ''~''), (RANK_ADMIN, CHR ''&''), (RANK_OP, CHR ''@''),
                 (RANK_HALFOP, CHR ''%''), (RANK_VOICE, CHR ''+'')]"

definition channel_rank_prefix :: "flags \<Rightarrow> bool \<Rightarrow> string" where
  "channel_rank_prefix rank multi =
     (let all = map snd (filter (\<lambda>(bit, _). has rank bit) rank_table)
      in if multi then all else take 1 all)"

definition channel_rank_level :: "flags \<Rightarrow> nat" where
  "channel_rank_level rank =
     (if has rank RANK_OWNER then 5 else if has rank RANK_ADMIN then 4 else if has rank RANK_OP then 3
      else if has rank RANK_HALFOP then 2 else if has rank RANK_VOICE then 1 else 0)"

section \<open>Mode letters\<close>

definition flag_letters :: "(char \<times> flags) list" where
  "flag_letters =
     [(CHR ''n'', CMODE_N), (CHR ''i'', CMODE_I), (CHR ''p'', CMODE_P), (CHR ''t'', CMODE_T),
      (CHR ''s'', CMODE_S), (CHR ''m'', CMODE_M), (CHR ''z'', CMODE_Z), (CHR ''r'', CMODE_R),
      (CHR ''P'', CMODE_PERM), (CHR ''C'', CMODE_NOCTCP), (CHR ''T'', CMODE_NONOTICE), (CHR ''S'', CMODE_STRIPCOLOR),
      (CHR ''V'', CMODE_NOINVITE), (CHR ''Q'', CMODE_NOKICK), (CHR ''N'', CMODE_NONICK), (CHR ''R'', CMODE_REGONLY),
      (CHR ''O'', CMODE_OPERONLY), (CHR ''M'', CMODE_MODREG), (CHR ''c'', CMODE_NOCOLOR), (CHR ''D'', CMODE_DELAYJOIN),
      (CHR ''u'', CMODE_AUDITORIUM), (CHR ''G'', CMODE_CENSOR), (CHR ''K'', CMODE_NOKNOCK)]"

definition channel_flag_bit :: "char \<Rightarrow> flags" where
  "channel_flag_bit c = (case map_of flag_letters c of Some b \<Rightarrow> b | None \<Rightarrow> 0)"

section \<open>The flood parameter\<close>

definition channel_clear_flood :: "channel \<Rightarrow> channel" where
  "channel_clear_flood chan =
     chan\<lparr>ch_modes := ch_modes chan AND NOT CMODE_FLOOD, ch_flood_lines := 0, ch_flood_secs := 0, ch_fp := None\<rparr>"

definition channel_flood_param :: "channel \<Rightarrow> nat \<Rightarrow> string" where
  "channel_flood_param chan outsz =
     (case ch_fp chan of
        Some f \<Rightarrow> clip outsz (fp_spec f)
      | None \<Rightarrow> clip outsz (show_int (ch_flood_lines chan) @ '':'' @ show_int (ch_flood_secs chan)))"

definition fp_defaults :: string where "fp_defaults = ''CiKmNkk''"
definition fp_allowed :: "string list" where
  "fp_allowed = [''CmM'', ''iR'', ''K'', ''mM'', ''N'', ''kb'', ''kbd'']"

definition index_of :: "char \<Rightarrow> string \<Rightarrow> nat option" where
  "index_of c s = map_option (\<lambda>(a, _). length a) (split_chr c s)"

text \<open>
  One item \<open>n type [# action [mins]]\<close> at the front of the text between the brackets: its
  parts and the text behind it, or \<open>None\<close> where the function returns -1. An action of NUL
  stands for none given.
\<close>

definition flood_action :: "string \<Rightarrow> (char \<times> int \<times> string) option" where
  "flood_action ne =
     (case ne of
        [] \<Rightarrow> Some (CHR 0x00, 0, [])
      | c # ne1 \<Rightarrow>
          if c \<noteq> CHR ''#'' then Some (CHR 0x00, 0, ne)
          else case ne1 of
            [] \<Rightarrow> None
          | action # ne2 \<Rightarrow>
              if ne2 \<noteq> [] \<and> c_isdigit (hd ne2) then
                (case strtol ne2 of
                   None \<Rightarrow> None
                 | Some (mins, ne3) \<Rightarrow> if mins > 999 then None else Some (action, mins, ne3))
              else Some (action, 0, ne2))"

definition flood_item :: "string \<Rightarrow> (int \<times> char \<times> char \<times> int \<times> string) option" where
  "flood_item p =
     (case strtol p of
        None \<Rightarrow> None
      | Some (n, ne) \<Rightarrow>
          if n < 1 \<or> n > 999 then None
          else case ne of
            [] \<Rightarrow> None
          | type # ne1 \<Rightarrow>
              (case flood_action ne1 of
                 None \<Rightarrow> None
               | Some (action, mins, r) \<Rightarrow>
                   if r \<noteq> [] \<and> hd r \<noteq> CHR '','' then None
                   else Some (n, type, action, mins, drop 1 r)))"

definition empty_flood :: floodprot where
  "empty_flood = \<lparr>fp_spec = ''['', fp_limit = replicate 7 0, fp_action = replicate 7 CHR 0x00,
                  fp_unset_mins = replicate 7 0, fp_count = replicate 7 0, fp_start = replicate 7 0,
                  fp_unset_at = replicate 7 0\<rparr>"

definition item_text :: "bool \<Rightarrow> int \<Rightarrow> char \<Rightarrow> char \<Rightarrow> int \<Rightarrow> char \<Rightarrow> string" where
  "item_text any n type action mins dflt =
     (if any then '','' else []) @ show_int n @ [type] @
     (if action = dflt \<and> mins = 0 then []
      else if mins \<noteq> 0 then ''#'' @ [action] @ show_int mins
      else ''#'' @ [action])"

text \<open>The item entered into the structure; unknown types are passed over.\<close>

definition add_item :: "int \<times> char \<times> char \<times> int \<Rightarrow> floodprot \<times> bool \<Rightarrow> (floodprot \<times> bool) option" where
  "add_item it st =
     (case it of (n, type, action0, mins) \<Rightarrow> case st of (f, any) \<Rightarrow>
       (case index_of type FP_TYPES of
          None \<Rightarrow> Some (f, any)
        | Some i \<Rightarrow>
            (let action = (if action0 = CHR 0x00 then fp_defaults ! i else action0);
                 item = item_text any n type action mins (fp_defaults ! i)
             in if action \<notin> set (fp_allowed ! i) then None
                else if length (fp_spec f) + length item + 8 \<ge> 96 then None
                else Some (f\<lparr>fp_spec := fp_spec f @ item, fp_limit := (fp_limit f)[i := n],
                             fp_action := (fp_action f)[i := action],
                             fp_unset_mins := (fp_unset_mins f)[i := mins]\<rparr>, True))))"

lemma read_digits_shorter: "length (snd (read_digits n s)) \<le> length s"
  by (induction n s rule: read_digits.induct) auto

lemma strtol_shorter: "strtol s = Some (v, e) \<Longrightarrow> length e < length s"
proof -
  assume s: "strtol s = Some (v, e)"
  define s1 where "s1 = dropWhile c_isspace s"
  define s2 where "s2 = (if take 1 s1 = ''-'' \<or> take 1 s1 = ''+'' then drop 1 s1 else s1)"
  have l: "length s2 \<le> length s"
    using length_dropWhile_le [of c_isspace s] by (auto simp: s2_def s1_def)
  from s obtain c r where c: "s2 = c # r" "c_isdigit c" and e: "e = snd (read_digits 0 s2)"
    unfolding strtol_def Let_def s1_def [symmetric] s2_def [symmetric]
    by (auto split: list.splits if_splits prod.splits)
  from c e have "e = snd (read_digits (digit_val c) r)" by simp
  with read_digits_shorter [of "digit_val c" r] l c show ?thesis by simp
qed

lemma flood_action_shorter: "flood_action ne = Some (a, k, r) \<Longrightarrow> length r \<le> length ne"
  by (auto simp: flood_action_def split: list.splits if_splits option.splits dest: strtol_shorter)

lemma flood_item_shorter: "flood_item p = Some (n, t, a, k, r) \<Longrightarrow> length r < length p"
  by (auto simp: flood_item_def split: option.splits if_splits list.splits
      dest!: strtol_shorter flood_action_shorter) arith

function flood_loop :: "string \<Rightarrow> floodprot \<times> bool \<Rightarrow> (floodprot \<times> bool) option" where
  "flood_loop p st =
     (if p = [] then Some st
      else case flood_item p of
             None \<Rightarrow> None
           | Some (n, type, action, mins, r) \<Rightarrow>
               (case add_item (n, type, action, mins) st of
                  None \<Rightarrow> None
                | Some st2 \<Rightarrow> flood_loop r st2))"
  by pat_completeness auto
termination
  by (relation "measure (length \<circ> fst)") (auto dest: flood_item_shorter)

declare flood_loop.simps [simp del]

definition channel_set_flood :: "channel \<Rightarrow> string \<Rightarrow> channel option" where
  "channel_set_flood chan param =
     (if take 1 param \<noteq> ''['' then
        (case strtol param of
           None \<Rightarrow> None
         | Some (a, e1) \<Rightarrow>
             if take 1 e1 \<noteq> '':'' then None
             else case strtol (drop 1 e1) of
               None \<Rightarrow> None
             | Some (b, e2) \<Rightarrow>
                 if e2 \<noteq> [] \<or> a < 1 \<or> a > 100 \<or> b < 1 \<or> b > 600 then None
                 else (let c = channel_clear_flood chan
                       in Some (c\<lparr>ch_flood_lines := a, ch_flood_secs := b, ch_modes := ch_modes c OR CMODE_FLOOD\<rparr>)))
      else case split_str '']:'' param of
        None \<Rightarrow> None
      | Some (front, after) \<Rightarrow>
          (case strtol after of
             None \<Rightarrow> None
           | Some (secs, e) \<Rightarrow>
               if e \<noteq> [] \<or> secs < 1 \<or> secs > 999 then None
               else case flood_loop (drop 1 front) (empty_flood, False) of
                 None \<Rightarrow> None
               | Some (f, any) \<Rightarrow>
                   if \<not> any then None
                   else (let nf = f\<lparr>fp_spec := clip 96 (fp_spec f @ '']:'' @ show_int secs)\<rparr>;
                             c = channel_clear_flood chan
                         in Some (c\<lparr>ch_fp := Some nf, ch_flood_lines := fp_limit f ! 5, ch_flood_secs := secs,
                                    ch_modes := ch_modes c OR CMODE_FLOOD\<rparr>))))"

section \<open>The MODE string\<close>

definition flag_string :: "flags \<Rightarrow> string" where
  "flag_string modes = map fst (filter (\<lambda>(c, b). has modes b) flag_letters)"

text \<open>\<open>strncat\<close> into \<open>args\<close> never lets it pass 255 bytes.\<close>

definition add_arg :: "string \<Rightarrow> string \<Rightarrow> string" where
  "add_arg args a = args @ take (256 - length args - 1) (CHR '' '' # a)"

definition channel_modes_string :: "channel \<Rightarrow> nat \<Rightarrow> string" where
  "channel_modes_string chan outsz =
     (let modes = ch_modes chan;
          k = has modes CMODE_K \<and> ch_key chan \<noteq> [];
          l = has modes CMODE_L \<and> ch_limit chan > 0;
          r = has modes CMODE_REDIRECT \<and> ch_redirect chan \<noteq> [];
          f = has modes CMODE_FLOOD;
          j = has modes CMODE_JTHROT \<and> ch_jt_joins chan > 0;
          flags = ''+'' @ flag_string modes @ (if k then ''k'' else []) @ (if l then ''l'' else []) @
                  (if r then ''L'' else []) @ (if f then ''f'' else []) @ (if j then ''j'' else []);
          args = (if k then clip 256 (CHR '' '' # ch_key chan) else []);
          args = (if l then add_arg args (show_int (ch_limit chan)) else args);
          args = (if r then add_arg args (clip 65 (ch_redirect chan)) else args);
          args = (if f then add_arg args (channel_flood_param chan 99) else args);
          args = (if j then add_arg args (clip 31 (show_int (ch_jt_joins chan) @ '':'' @ show_int (ch_jt_secs chan))) else args)
      in clip outsz (flags @ args))"

section \<open>The stored flood parameter\<close>

text \<open>The items of a flood parameter as they are stored, with the action resolved.\<close>

type_synonym flood_rule = "int \<times> char \<times> char \<times> int"

definition rule_index :: "flood_rule \<Rightarrow> nat" where
  "rule_index it = (case it of (n, type, action, mins) \<Rightarrow> the (index_of type FP_TYPES))"

definition rule_ok :: "flood_rule \<Rightarrow> bool" where
  "rule_ok it = (case it of (n, type, action, mins) \<Rightarrow>
     1 \<le> n \<and> n \<le> 999 \<and> 0 \<le> mins \<and> mins \<le> 999 \<and> type \<in> set FP_TYPES \<and> action \<in> set (fp_allowed ! rule_index it))"

definition rule_text :: "bool \<Rightarrow> flood_rule \<Rightarrow> string" where
  "rule_text any it = (case it of (n, type, action, mins) \<Rightarrow>
     item_text any n type action mins (fp_defaults ! rule_index it))"

fun rules_text :: "bool \<Rightarrow> flood_rule list \<Rightarrow> string" where
  "rules_text any [] = []"
| "rules_text any (it # its) = rule_text any it @ rules_text True its"

fun add_rules :: "flood_rule list \<Rightarrow> floodprot \<times> bool \<Rightarrow> (floodprot \<times> bool) option" where
  "add_rules [] st = Some st"
| "add_rules (it # its) st = (case add_item it st of None \<Rightarrow> None | Some st2 \<Rightarrow> add_rules its st2)"

lemma add_rules_append:
  "add_rules (xs @ ys) st = (case add_rules xs st of None \<Rightarrow> None | Some st2 \<Rightarrow> add_rules ys st2)"
  by (induction xs arbitrary: st) (auto split: option.split)

lemma type_index:
  assumes "index_of type FP_TYPES = Some i"
  shows "i < 7 \<and> type \<in> set FP_TYPES"
proof -
  from assms obtain a b where "split_chr type FP_TYPES = Some (a, b)" and i: "i = length a"
    by (auto simp: index_of_def)
  from split_chr_SomeD [OF this(1)] have e: "FP_TYPES = a @ type # b" by simp
  have "length FP_TYPES = 7" by (simp add: FP_TYPES_def)
  moreover have "length FP_TYPES = length a + 1 + length b" by (simp add: e)
  moreover have "type \<in> set FP_TYPES" by (simp add: e)
  ultimately show ?thesis using i by simp
qed

lemma letters_check:
  "\<forall>i \<in> set [0..<7]. fp_defaults ! i \<in> set (fp_allowed ! i) \<and>
     (\<forall>c \<in> set (fp_allowed ! i). c \<noteq> CHR 0x00 \<and> c \<noteq> CHR '']'' \<and> \<not> c_isdigit c)"
  by code_simp

lemma types_check:
  "\<forall>t \<in> set FP_TYPES. t \<noteq> CHR '']'' \<and> \<not> c_isdigit t \<and> t \<noteq> CHR ''#'' \<and>
     (\<exists>i \<in> set [0..<7]. index_of t FP_TYPES = Some i)"
  by code_simp

text \<open>Adding an item is adding the rule with its action resolved.\<close>

lemma add_item_rule:
  assumes "index_of type FP_TYPES = Some i"
  shows "add_item (n, type, CHR 0x00, mins) st = add_item (n, type, fp_defaults ! i, mins) st"
  by (cases st) (simp add: add_item_def assms)

lemma add_item_spec:
  assumes "rule_ok it" and "add_item it (f, any) = Some (f2, any2)"
  shows "any2 \<and> fp_spec f2 = fp_spec f @ rule_text any it \<and> length (fp_spec f2) < 88"
proof -
  obtain n type action mins where it: "it = (n, type, action, mins)" by (cases it)
  have t: "type \<in> set FP_TYPES" and act: "action \<in> set (fp_allowed ! rule_index it)"
    using assms(1) by (simp_all add: rule_ok_def it)
  from types_check [rule_format, OF t] obtain i where i: "index_of type FP_TYPES = Some i" "i < 7" by auto
  then have ri: "rule_index it = i" by (simp add: rule_index_def it)
  with letters_check [rule_format, of i] i act have "action \<noteq> CHR 0x00" by auto
  with assms(2) i ri show ?thesis
    by (auto simp: it add_item_def rule_text_def Let_def split: if_splits)
qed

lemma add_rules_spec:
  "list_all rule_ok its \<Longrightarrow> add_rules its (f, any) = Some (f2, any2) \<Longrightarrow>
     fp_spec f2 = fp_spec f @ rules_text any its \<and> (any2 \<longleftrightarrow> any \<or> its \<noteq> []) \<and>
     (length (fp_spec f) < 88 \<longrightarrow> length (fp_spec f2) < 88)"
proof (induction its arbitrary: f any)
  case (Cons it its)
  then obtain f1 any1 where 1: "add_item it (f, any) = Some (f1, any1)" by (auto split: option.splits)
  with Cons.prems add_item_spec [of it f any f1 any1] Cons.IH [of f1 any1] show ?case by auto
qed auto

text \<open>Reading the stored items back.\<close>

lemma strtol_show_int:
  assumes "0 \<le> v" and "v \<le> 999" and "\<not> c_isdigit (hd (b @ [CHR 0x00]))"
  shows "strtol (show_int v @ b) = Some (v, b)"
  using strtol_show_nat [OF assms(3), of "nat v"] assms(1,2) by (simp add: show_int_def LONG_MAX_def)

lemma show_int_digit: "0 \<le> v \<Longrightarrow> show_int v \<noteq> [] \<and> c_isdigit (hd (show_int v))"
  using show_nat_digits [of "nat v"] by (cases "show_nat (nat v)") (auto simp: show_int_def)

definition rule_suffix :: "flood_rule \<Rightarrow> string" where
  "rule_suffix it = (case it of (n, type, action, mins) \<Rightarrow>
     (if action = fp_defaults ! rule_index it \<and> mins = 0 then []
      else if mins \<noteq> 0 then ''#'' @ [action] @ show_int mins
      else ''#'' @ [action]))"

lemma rule_text_parts:
  "rule_text any (n, type, action, mins) =
     (if any then '','' else []) @ show_int n @ [type] @ rule_suffix (n, type, action, mins)"
  by (simp add: rule_text_def item_text_def rule_suffix_def)

definition seen_action :: "flood_rule \<Rightarrow> char" where
  "seen_action it = (case it of (n, type, action, mins) \<Rightarrow>
     if action = fp_defaults ! rule_index it \<and> mins = 0 then CHR 0x00 else action)"

lemma flood_action_suffix:
  assumes "0 \<le> mins" and "mins \<le> 999" and "r = [] \<or> hd r = CHR '',''"
  shows "flood_action (rule_suffix (n, type, action, mins) @ r) = Some (seen_action (n, type, action, mins), mins, r)"
proof -
  have nd: "\<not> c_isdigit (hd (r @ [CHR 0x00]))" using assms(3) by (cases r) (auto simp: ctype_simps)
  have nr: "r \<noteq> [] \<longrightarrow> \<not> c_isdigit (hd r) \<and> hd r \<noteq> CHR ''#''" using assms(3) by (auto simp: ctype_simps)
  show ?thesis
  proof (cases "mins = 0")
    case True
    with nr show ?thesis
      by (auto simp: flood_action_def rule_suffix_def seen_action_def split: list.split)
  next
    case False
    with strtol_show_int [OF assms(1,2) nd] show_int_digit [OF assms(1)] assms(2) show ?thesis
      by (simp add: flood_action_def rule_suffix_def seen_action_def)
  qed
qed

lemma flood_item_rule:
  assumes "rule_ok (n, type, action, mins)" and "r = [] \<or> hd r = CHR '',''"
  shows "flood_item (rule_text False (n, type, action, mins) @ r) =
    Some (n, type, seen_action (n, type, action, mins), mins, drop 1 r)"
proof -
  have n: "1 \<le> n" "n \<le> 999" "0 \<le> mins" "mins \<le> 999" "type \<in> set FP_TYPES"
    using assms(1) by (simp_all add: rule_ok_def)
  then have "\<not> c_isdigit type" using types_check [rule_format, of type] by blast
  then have "strtol (show_int n @ type # (rule_suffix (n, type, action, mins) @ r)) =
      Some (n, type # (rule_suffix (n, type, action, mins) @ r))"
    using n by (intro strtol_show_int) simp_all
  with n flood_action_suffix [OF n(3,4) assms(2), of n type action] assms(2) show ?thesis
    by (auto simp: flood_item_def rule_text_parts)
qed

lemma add_item_seen:
  assumes "rule_ok (n, type, action, mins)"
  shows "add_item (n, type, seen_action (n, type, action, mins), mins) st = add_item (n, type, action, mins) st"
proof -
  have "type \<in> set FP_TYPES" using assms by (simp add: rule_ok_def)
  from types_check [rule_format, OF this] obtain i where i: "index_of type FP_TYPES = Some i" by blast
  then show ?thesis using add_item_rule [OF i] by (simp add: seen_action_def rule_index_def)
qed

lemma rules_text_True: "its \<noteq> [] \<Longrightarrow> rules_text True its = CHR '','' # rules_text False its"
  by (cases its) (auto simp: rule_text_def item_text_def split: prod.split)

lemma rule_text_nonempty: "rule_text any it \<noteq> []"
  by (cases it) (simp add: rule_text_parts)

lemma flood_loop_rules:
  "list_all rule_ok its \<Longrightarrow> flood_loop (rules_text False its) st = add_rules its st"
proof (induction its arbitrary: st)
  case Nil
  then show ?case by (simp add: flood_loop.simps)
next
  case (Cons it its)
  obtain n type action mins where it: "it = (n, type, action, mins)" by (cases it)
  define r where "r = rules_text True its"
  have r: "r = [] \<or> hd r = CHR '',''" and r1: "drop 1 r = rules_text False its"
    by (cases "its = []"; simp add: r_def rules_text_True)+
  have ok: "rule_ok (n, type, action, mins)" using Cons.prems it by simp
  have "flood_loop (rule_text False it @ r) st =
      (case add_item it st of None \<Rightarrow> None | Some st2 \<Rightarrow> flood_loop (rules_text False its) st2)"
    using flood_item_rule [OF ok r, unfolded r1] add_item_seen [OF ok, of st] rule_text_nonempty [of False it]
    by (subst flood_loop.simps) (simp add: it)
  with Cons show ?case by (simp add: r_def split: option.split)
qed

lemma flood_action_mins: "flood_action ne = Some (a, k, r) \<Longrightarrow> 0 \<le> k \<and> k \<le> 999"
proof -
  assume f: "flood_action ne = Some (a, k, r)"
  have "0 \<le> v" if "strtol s = Some (v, e)" "s \<noteq> []" "c_isdigit (hd s)" for s v e
    using that strtol_digit [of s] by (cases s) (auto simp: LONG_MAX_def)
  with f show ?thesis by (fastforce simp: flood_action_def split: list.splits if_splits option.splits)
qed

lemma flood_loop_gives_rules:
  "flood_loop p st = Some st2 \<Longrightarrow> \<exists>its. list_all rule_ok its \<and> add_rules its st = Some st2"
proof (induction p st rule: flood_loop.induct)
  case (1 p st)
  show ?case
  proof (cases "p = []")
    case True
    with "1.prems" have "add_rules [] st = Some st2" by (simp add: flood_loop.simps)
    then show ?thesis by (intro exI [of _ "[]"]) simp
  next
    case False
    from "1.prems" False obtain n t a k r st1 where fi: "flood_item p = Some (n, t, a, k, r)"
      and ad: "add_item (n, t, a, k) st = Some st1" and rest: "flood_loop r st1 = Some st2"
      by (subst (asm) flood_loop.simps) (auto split: option.splits)
    from "1.IH" [OF False fi refl refl refl refl ad rest] obtain its
      where its: "list_all rule_ok its" "add_rules its st1 = Some st2" by blast
    have nk: "1 \<le> n \<and> n \<le> 999 \<and> 0 \<le> k \<and> k \<le> 999"
      using fi flood_action_mins by (auto simp: flood_item_def split: option.splits if_splits list.splits)
    show ?thesis
    proof (cases "index_of t FP_TYPES")
      case None
      with ad its show ?thesis by (auto simp: add_item_def split: prod.splits)
    next
      case (Some i)
      define act where "act = (if a = CHR 0x00 then fp_defaults ! i else a)"
      have "add_item (n, t, act, k) st = Some st1"
        using ad add_item_rule [OF Some, of n k st] by (cases "a = CHR 0x00") (simp_all add: act_def)
      moreover have "rule_ok (n, t, act, k)"
        using ad Some nk type_index [OF Some]
        by (cases st) (auto simp: add_item_def rule_ok_def rule_index_def act_def Let_def split: if_splits)
      ultimately show ?thesis using its by (intro exI [of _ "(n, t, act, k) # its"]) simp
    qed
  qed
qed

lemma split_str_first:
  assumes "hd p \<notin> set a" and "p \<noteq> []"
  shows "split_str p (a @ p @ b) = Some (a, b)"
  using assms(1)
proof (induction a)
  case Nil
  show ?case by (subst split_str.simps) simp
next
  case (Cons x a)
  have "\<not> starts_with p (x # a @ p @ b)" using Cons.prems assms(2) by (cases p) (auto simp: starts_with_def)
  with Cons show ?case by (subst split_str.simps) simp
qed

lemma show_int_no_bracket: "0 \<le> v \<Longrightarrow> CHR '']'' \<notin> set (show_int v)"
  using show_nat_digits [of "nat v"] by (auto simp: show_int_def list_all_iff ctype_simps)

lemma rules_text_no_bracket: "list_all rule_ok its \<Longrightarrow> CHR '']'' \<notin> set (rules_text any its)"
proof (induction its arbitrary: any)
  case (Cons it its)
  obtain n type action mins where it: "it = (n, type, action, mins)" by (cases it)
  with Cons.prems have ok: "0 \<le> n" "0 \<le> mins" "type \<in> set FP_TYPES" "action \<in> set (fp_allowed ! rule_index it)"
    by (auto simp: rule_ok_def)
  from types_check [rule_format, OF ok(3)] obtain i where i: "index_of type FP_TYPES = Some i" "i < 7"
    and t: "type \<noteq> CHR '']''" by auto
  then have "rule_index it = i" by (simp add: rule_index_def it)
  with letters_check [rule_format, of i] i ok(4) have "action \<noteq> CHR '']''" by auto
  with t ok show ?case using Cons it
    by (auto simp: rule_text_parts rule_suffix_def show_int_no_bracket)
qed simp

text \<open>What \<open>channel_set_flood\<close> leaves behind.\<close>

definition flood_state :: "channel \<Rightarrow> int \<times> int \<times> floodprot option" where
  "flood_state c = (ch_flood_lines c, ch_flood_secs c, ch_fp c)"

lemma set_flood_shape:
  assumes "channel_set_flood chan param = Some c"
  shows "(\<exists>a b. 1 \<le> a \<and> a \<le> 100 \<and> 1 \<le> b \<and> b \<le> 600 \<and> flood_state c = (a, b, None)) \<or>
    (\<exists>its f secs. list_all rule_ok its \<and> its \<noteq> [] \<and> add_rules its (empty_flood, False) = Some (f, True) \<and>
       1 \<le> secs \<and> secs \<le> 999 \<and>
       flood_state c = (fp_limit f ! 5, secs, Some (f\<lparr>fp_spec := clip 96 (fp_spec f @ '']:'' @ show_int secs)\<rparr>)))"
proof (cases "take 1 param = ''[''")
  case False
  with assms show ?thesis
    by (auto simp: channel_set_flood_def flood_state_def channel_clear_flood_def Let_def split: option.splits if_splits)
next
  case True
  with assms obtain front after secs f where s: "split_str '']:'' param = Some (front, after)"
    and secs: "1 \<le> secs" "secs \<le> 999" and l: "flood_loop (drop 1 front) (empty_flood, False) = Some (f, True)"
    and c: "flood_state c = (fp_limit f ! 5, secs, Some (f\<lparr>fp_spec := clip 96 (fp_spec f @ '']:'' @ show_int secs)\<rparr>))"
    by (auto simp: channel_set_flood_def flood_state_def channel_clear_flood_def Let_def
        split: option.splits if_splits prod.splits)
  from flood_loop_gives_rules [OF l] obtain its where its: "list_all rule_ok its"
    "add_rules its (empty_flood, False) = Some (f, True)" by blast
  with add_rules_spec [OF its] have "its \<noteq> []" by simp
  with its secs c show ?thesis by blast
qed

lemma set_flood_again:
  assumes "list_all rule_ok its" and "its \<noteq> []" and a: "add_rules its (empty_flood, False) = Some (f, True)"
    and secs: "1 \<le> secs" "secs \<le> 999"
  shows "\<exists>c. channel_set_flood chan (clip 96 (fp_spec f @ '']:'' @ show_int secs)) = Some c \<and>
    flood_state c = (fp_limit f ! 5, secs, Some (f\<lparr>fp_spec := clip 96 (fp_spec f @ '']:'' @ show_int secs)\<rparr>)) \<and>
    has (ch_modes c) CMODE_FLOOD"
proof -
  from add_rules_spec [OF assms(1) a] have f: "fp_spec f = ''['' @ rules_text False its" "length (fp_spec f) < 88"
    by (auto simp: empty_flood_def)
  have "nat secs < 10 ^ 3" using secs by simp
  then have "length (show_int secs) \<le> 3" using secs length_show_nat [of "nat secs" 3] by (simp add: show_int_def)
  with f have cl: "clip 96 (fp_spec f @ '']:'' @ show_int secs) = ''['' @ rules_text False its @ '']:'' @ show_int secs"
    by simp
  have sp: "split_str '']:'' (''['' @ rules_text False its @ '']:'' @ show_int secs) = Some (''['' @ rules_text False its, show_int secs)"
    using split_str_first [of "'']:''" "''['' @ rules_text False its" "show_int secs"] rules_text_no_bracket [OF assms(1)] by simp
  have st: "strtol (show_int secs) = Some (secs, [])"
    using strtol_show_int [of secs "[]"] secs by (simp add: ctype_simps)
  have fl: "flood_loop (rules_text False its) (empty_flood, False) = Some (f, True)"
    using flood_loop_rules [OF assms(1)] a by simp
  have bit: "(m OR CMODE_FLOOD) AND CMODE_FLOOD \<noteq> 0" for m
    by (simp add: word_ao_dist2 CMODE_FLOOD_def)
  show ?thesis
    unfolding cl channel_set_flood_def sp using secs st fl bit cl
    by (simp add: flood_state_def channel_clear_flood_def Let_def)
qed

lemma set_flood_plain:
  assumes "1 \<le> a" "a \<le> 100" "1 \<le> b" "b \<le> 600"
  shows "\<exists>c. channel_set_flood chan (show_int a @ '':'' @ show_int b) = Some c \<and> flood_state c = (a, b, None) \<and>
    has (ch_modes c) CMODE_FLOOD"
proof -
  have st: "strtol (show_int a @ '':'' @ show_int b) = Some (a, '':'' @ show_int b)" "strtol (show_int b) = Some (b, [])"
    using strtol_show_int [of a "'':'' @ show_int b"] strtol_show_int [of b "[]"] assms by (simp_all add: ctype_simps)
  have nb: "take 1 (show_int a @ '':'' @ show_int b) \<noteq> ''[''"
    using show_int_digit [of a] assms by (cases "show_int a") (auto simp: ctype_simps)
  have bit: "(m OR CMODE_FLOOD) AND CMODE_FLOOD \<noteq> 0" for m
    by (simp add: word_ao_dist2 CMODE_FLOOD_def)
  show ?thesis
    unfolding channel_set_flood_def using nb st assms bit
    by (simp add: flood_state_def channel_clear_flood_def Let_def)
qed

section \<open>Properties\<close>

text \<open>
  C35. The +f parameter a server stores and announces means the same everywhere: setting it
  from the announced text, on any channel of any other server, yields exactly the same
  limits, actions, times and text as the original parameter did, whatever form, unknown types,
  repetitions and default actions that had.
\<close>

theorem flood_param_stable:
  assumes "channel_set_flood chan param = Some c"
  shows "\<exists>c2. channel_set_flood chan2 (channel_flood_param c 99) = Some c2 \<and>
    flood_state c2 = flood_state c \<and> has (ch_modes c2) CMODE_FLOOD \<and>
    channel_flood_param c2 99 = channel_flood_param c 99"
proof -
  have clip96: "clip 99 (clip 96 s) = clip 96 s" for s :: string by (simp add: clip_def)
  from set_flood_shape [OF assms] show ?thesis
  proof
    assume "\<exists>a b. 1 \<le> a \<and> a \<le> 100 \<and> 1 \<le> b \<and> b \<le> 600 \<and> flood_state c = (a, b, None)"
    then obtain a b where ab: "1 \<le> a" "a \<le> 100" "1 \<le> b" "b \<le> 600" "flood_state c = (a, b, None)" by blast
    have "nat a < 10 ^ 3" "nat b < 10 ^ 3" using ab by simp_all
    then have "length (show_int a) \<le> 3" "length (show_int b) \<le> 3"
      using ab length_show_nat [of "nat a" 3] length_show_nat [of "nat b" 3] by (simp_all add: show_int_def)
    with ab have "channel_flood_param c 99 = show_int a @ '':'' @ show_int b"
      by (simp add: channel_flood_param_def flood_state_def)
    with set_flood_plain [OF ab(1-4), of chan2] ab(5) show ?thesis
      by (auto simp: channel_flood_param_def flood_state_def)
  next
    assume "\<exists>its f secs. list_all rule_ok its \<and> its \<noteq> [] \<and> add_rules its (empty_flood, False) = Some (f, True) \<and>
       1 \<le> secs \<and> secs \<le> 999 \<and>
       flood_state c = (fp_limit f ! 5, secs, Some (f\<lparr>fp_spec := clip 96 (fp_spec f @ '']:'' @ show_int secs)\<rparr>))"
    then obtain its f secs where i: "list_all rule_ok its" "its \<noteq> []" "add_rules its (empty_flood, False) = Some (f, True)"
      "1 \<le> secs" "secs \<le> 999"
      and fs: "flood_state c = (fp_limit f ! 5, secs, Some (f\<lparr>fp_spec := clip 96 (fp_spec f @ '']:'' @ show_int secs)\<rparr>))"
      by blast
    from fs have "channel_flood_param c 99 = clip 96 (fp_spec f @ '']:'' @ show_int secs)"
      by (simp add: channel_flood_param_def flood_state_def clip96)
    with set_flood_again [OF i, of chan2] fs show ?thesis
      by (auto simp: channel_flood_param_def flood_state_def clip96)
  qed
qed

theorem flood_param_stable_witness:
  "\<exists>c2. channel_set_flood (channel_new ''#b'' ''#b'' 0) ''[6c,10j#R5]:15'' = Some c2 \<and> fp_limit (the (ch_fp c2)) = [6, 10, 0, 0, 0, 0, 0]"
proof -
  obtain c where c: "channel_set_flood (channel_new ''#a'' ''#a'' 0) ''[+6c#C,7q,10j#R5]:15'' = Some c"
    and f: "channel_flood_param c 99 = ''[6c,10j#R5]:15''" and l: "fp_limit (the (ch_fp c)) = [6, 10, 0, 0, 0, 0, 0]"
  proof -
    let ?c = "channel_set_flood (channel_new ''#a'' ''#a'' 0) ''[+6c#C,7q,10j#R5]:15''"
    have "?c \<noteq> None \<and> channel_flood_param (the ?c) 99 = ''[6c,10j#R5]:15'' \<and>
        fp_limit (the (ch_fp (the ?c))) = [6, 10, 0, 0, 0, 0, 0]" by code_simp
    then show ?thesis using that by auto
  qed
  from flood_param_stable [OF c, of "channel_new ''#b'' ''#b'' 0"] f l show ?thesis by (auto simp: flood_state_def)
qed

end
