(* ===== verification/Client.thy ===== *)
theory Client
  imports Channel "HOL-Library.Monad_Syntax"
begin

text \<open>
  A connection (src/src/client.c): user modes and the display prefix, the send queue with its
  written-prefix offset and doubling buffer, IRCv3 labeled responses, the queues of the event
  loop, the flood window and the small per-client helpers. The send queue refines a plain
  queue of bytes.

  \<open>time(NULL)\<close> is an argument \<open>now\<close>, the text of the server-time tag an argument \<open>ts\<close>;
  memory allocation succeeds. A line handed to a service link is appended to \<open>c_forwarded\<close>.
\<close>

unbundle bit_operations_syntax

section \<open>User modes\<close>

definition UMODE_I :: flags where "UMODE_I = 0x01"
definition UMODE_W :: flags where "UMODE_W = 0x02"
definition UMODE_D :: flags where "UMODE_D = 0x04"
definition UMODE_S :: flags where "UMODE_S = 0x08"
definition UMODE_O :: flags where "UMODE_O = 0x10"
definition UMODE_Z :: flags where "UMODE_Z = 0x20"
definition UMODE_R :: flags where "UMODE_R = 0x40"
definition UMODE_P :: flags where "UMODE_P = 0x80"
definition UMODE_HIDEIDLE :: flags where "UMODE_HIDEIDLE = 0x100"
definition UMODE_H :: flags where "UMODE_H = 0x200"
definition UMODE_Q :: flags where "UMODE_Q = 0x400"
definition UMODE_REGONLY :: flags where "UMODE_REGONLY = 0x800"
definition UMODE_NOPM :: flags where "UMODE_NOPM = 0x1000"
definition UMODE_B :: flags where "UMODE_B = 0x2000"
definition UMODE_G :: flags where "UMODE_G = 0x4000"
definition UMODE_DEAF :: flags where "UMODE_DEAF = 0x8000"
definition UMODE_SECUREONLY :: flags where "UMODE_SECUREONLY = 0x10000"
definition UMODE_X :: flags where "UMODE_X = 0x20000"
definition UMODE_WHOISNOTE :: flags where "UMODE_WHOISNOTE = 0x40000"

definition CAP_SERVER_TIME :: flags where "CAP_SERVER_TIME = 0x0200"

definition umode_letters :: "(char \<times> flags) list" where
  "umode_letters =
     [(CHR ''i'', UMODE_I), (CHR ''w'', UMODE_W), (CHR ''d'', UMODE_DEAF), (CHR ''T'', UMODE_D),
      (CHR ''s'', UMODE_S), (CHR ''o'', UMODE_O), (CHR ''z'', UMODE_Z), (CHR ''Z'', UMODE_SECUREONLY),
      (CHR ''x'', UMODE_X), (CHR ''W'', UMODE_WHOISNOTE), (CHR ''r'', UMODE_R), (CHR ''p'', UMODE_P),
      (CHR ''I'', UMODE_HIDEIDLE), (CHR ''H'', UMODE_H), (CHR ''q'', UMODE_Q), (CHR ''R'', UMODE_REGONLY),
      (CHR ''D'', UMODE_NOPM), (CHR ''B'', UMODE_B), (CHR ''g'', UMODE_G)]"

text \<open>The letters config can grant: the server-set ones (o, z, x, r) are not among them.\<close>

definition client_umode_bit :: "char \<Rightarrow> flags" where
  "client_umode_bit c =
     (if c \<in> set ''ozxr'' then 0
      else case map_of umode_letters c of Some b \<Rightarrow> b | None \<Rightarrow> 0)"

section \<open>The record\<close>

record sendq =
  sq_data :: string
  sq_off :: nat
  sq_cap :: nat

record labeling =
  lb_capture :: bool
  lb_label :: string
  lb_lines :: "string list"
  lb_defer :: bool

record client =
  c_fd :: int
  c_link :: bool
  c_forwarded :: "string list"
  c_quitting :: bool
  c_quit_reason :: string
  c_dirty_q :: bool
  c_dead_q :: bool
  c_ip :: string
  c_host :: string
  c_realhost :: string
  c_nick :: string
  c_casefold_nick :: string
  c_user :: string
  c_realname :: string
  c_umodes :: flags
  c_caps :: flags
  c_account :: string
  c_ident_confirmed :: bool
  c_registered :: bool
  c_remote :: bool
  c_conn_id :: "64 word"
  c_invite_key :: string
  c_sendq_max :: nat
  c_sbuf :: sendq
  c_lb :: labeling
  c_flood_window_start :: int
  c_flood_count :: int
  c_signon_time :: int
  c_last_activity :: int
  c_auth_pass :: "string option"
  c_channels :: "string list"
  c_count_key :: string
  c_is_service :: bool
  c_oper_name :: string
  c_acct_created_for :: string
  c_acct_created :: int
  c_is_away :: bool
  c_away :: string
  c_uid :: string
  c_nick_ts :: int
  c_shun_gen :: "32 word"
  c_shunned :: bool
  c_fanout_mark :: "64 word"
  c_monitor :: "string list"
  c_watch :: "string list"
  c_spam_ring :: "((32 word \<times> 32 word) \<times> int) list"
  c_spam_head :: nat
  c_fb_mark :: "64 word list"
  c_is_watcher :: bool
  c_nserver :: "nat option"
  c_certfp :: string
  c_secure :: bool
  c_oper_privs :: flags
  c_class_idx :: int
  c_silence :: "string list"
  c_port :: int

definition SENDQ_MAX :: nat where "SENDQ_MAX = 1048576"

definition client_new :: "int \<Rightarrow> int \<Rightarrow> client" where
  "client_new fd now =
     \<lparr>c_fd = fd, c_link = False, c_forwarded = [], c_quitting = False, c_quit_reason = [], c_dirty_q = False,
      c_dead_q = False, c_ip = [], c_host = [], c_realhost = [], c_nick = [], c_casefold_nick = [], c_user = [],
      c_realname = [], c_umodes = 0, c_caps = 0, c_account = [], c_ident_confirmed = False, c_registered = False,
      c_remote = False, c_conn_id = 0, c_invite_key = [], c_sendq_max = 0,
      c_sbuf = \<lparr>sq_data = [], sq_off = 0, sq_cap = 4096\<rparr>,
      c_lb = \<lparr>lb_capture = False, lb_label = [], lb_lines = [], lb_defer = False\<rparr>,
      c_flood_window_start = 0, c_flood_count = 0, c_signon_time = now, c_last_activity = now,
      c_auth_pass = None, c_channels = [], c_count_key = [], c_is_service = False, c_oper_name = [],
      c_acct_created_for = [], c_acct_created = 0, c_is_away = False, c_away = [], c_uid = [], c_nick_ts = 0,
      c_shun_gen = 0, c_shunned = False, c_fanout_mark = 0, c_monitor = [], c_watch = [],
      c_spam_ring = replicate 32 ((0, 0), 0), c_spam_head = 0, c_fb_mark = [0, 0, 0], c_is_watcher = False, c_nserver = None,
      c_certfp = [], c_secure = False, c_oper_privs = 0, c_class_idx = - 1, c_silence = [], c_port = 0\<rparr>"

definition client_mode_string :: "client \<Rightarrow> nat \<Rightarrow> string" where
  "client_mode_string cl outsz =
     clip outsz (''+'' @ map fst (filter (\<lambda>(c, b). has (c_umodes cl) b) umode_letters))"

definition client_prefix :: "client \<Rightarrow> nat \<Rightarrow> string" where
  "client_prefix cl outsz =
     (let nick = (if c_nick cl \<noteq> [] then c_nick cl else ''*'');
          host = (if c_host cl \<noteq> [] then c_host cl else ''*'')
      in if c_ident_confirmed cl then clip outsz (nick @ ''!'' @ c_user cl @ ''@'' @ host)
         else irc_prefix_for outsz nick (c_user cl) host)"

definition client_ident :: "client \<Rightarrow> string" where
  "client_ident cl = irc_ident_for 66 (c_user cl) (c_ident_confirmed cl)"

section \<open>The event loop's queues\<close>

text \<open>
  The dirty list (doubly linked, for output to flush) and the dead list (teardown), as lists
  of client ids with the head first; the flags are the clients' own.
\<close>

record evq =
  ev_clients :: "(client_id \<times> client) list"
  ev_dirty :: "client_id list"
  ev_dead :: "client_id list"

definition ev_client :: "evq \<Rightarrow> client_id \<Rightarrow> client" where
  "ev_client q i = the (map_of (ev_clients q) i)"

definition ev_write :: "evq \<Rightarrow> client_id \<Rightarrow> client \<Rightarrow> evq" where
  "ev_write q i cl = q\<lparr>ev_clients := AList.update i cl (ev_clients q)\<rparr>"

definition client_mark_dirty :: "client_id \<Rightarrow> evq \<Rightarrow> evq" where
  "client_mark_dirty i q =
     (let cl = ev_client q i
      in if c_dirty_q cl \<or> c_quitting cl \<or> c_fd cl < 0 then q
         else (ev_write q i (cl\<lparr>c_dirty_q := True\<rparr>))\<lparr>ev_dirty := i # ev_dirty q\<rparr>)"

definition client_unmark_dirty :: "client_id \<Rightarrow> evq \<Rightarrow> evq" where
  "client_unmark_dirty i q =
     (let cl = ev_client q i
      in if \<not> c_dirty_q cl then q
         else (ev_write q i (cl\<lparr>c_dirty_q := False\<rparr>))\<lparr>ev_dirty := remove1 i (ev_dirty q)\<rparr>)"

definition client_mark_quit :: "client_id \<Rightarrow> evq \<Rightarrow> evq" where
  "client_mark_quit i q =
     (let cl = (ev_client q i)\<lparr>c_quitting := True\<rparr>
      in if c_dead_q cl \<or> c_fd cl < 0 then ev_write q i cl
         else (ev_write q i (cl\<lparr>c_dead_q := True\<rparr>))\<lparr>ev_dead := i # ev_dead q\<rparr>)"

section \<open>Small helpers\<close>

definition client_auth_get :: "client \<Rightarrow> string" where
  "client_auth_get cl = (case c_auth_pass cl of Some v \<Rightarrow> v | None \<Rightarrow> [])"

definition client_auth_clear :: "client \<Rightarrow> client" where
  "client_auth_clear cl = cl\<lparr>c_auth_pass := None\<rparr>"

definition client_auth_set :: "string \<Rightarrow> client \<Rightarrow> client" where
  "client_auth_set value cl =
     (if value = [] then client_auth_clear cl else cl\<lparr>c_auth_pass := Some (clip 256 value)\<rparr>)"

text \<open>
  The capacity of a growable list before and after \<open>client_list_grow\<close> is asked for entry
  number \<open>n\<close>: \<open>None\<close> is the NULL list.
\<close>

definition client_list_grow :: "nat option \<Rightarrow> nat \<Rightarrow> nat option" where
  "client_list_grow cap n =
     (if cap \<noteq> None \<and> (n < 4 \<or> n AND (n - 1) \<noteq> 0) then cap
      else Some (if n < 4 then 4 else n * 2))"

definition client_list_idle :: "nat option \<Rightarrow> nat \<Rightarrow> nat option" where
  "client_list_idle cap n = (if n > 0 then cap else None)"

definition client_buf_shrink :: "nat \<Rightarrow> nat \<Rightarrow> nat \<Rightarrow> nat \<Rightarrow> nat" where
  "client_buf_shrink len cap limit keep = (if len > 0 \<or> cap \<le> limit then cap else keep)"

definition client_flood_ok :: "int \<Rightarrow> int \<Rightarrow> int \<Rightarrow> client \<Rightarrow> bool \<times> client" where
  "client_flood_ok now max_msgs window_seconds cl =
     (let cl1 = (if c_flood_window_start cl = 0 \<or> now - c_flood_window_start cl \<ge> window_seconds
                 then cl\<lparr>c_flood_window_start := now, c_flood_count := 0\<rparr> else cl);
          cl2 = cl1\<lparr>c_flood_count := c_flood_count cl1 + 1\<rparr>
      in (c_flood_count cl2 \<le> max_msgs, cl2))"

definition client_invite_key :: "client \<Rightarrow> string \<times> client" where
  "client_invite_key cl =
     (let cl1 = (if c_invite_key cl = [] then cl\<lparr>c_invite_key := clip 24 (''c'' @ show_nat (unat (c_conn_id cl)))\<rparr> else cl)
      in (c_invite_key cl1, cl1))"

section \<open>The send queue\<close>

definition client_sendq_len :: "sendq \<Rightarrow> nat" where
  "client_sendq_len q = length (sq_data q) - sq_off q"

definition sendq_pending :: "sendq \<Rightarrow> string" where
  "sendq_pending q = drop (sq_off q) (sq_data q)"

text \<open>The loop that doubles the capacity; it does not end for a capacity of zero.\<close>

partial_function (option) grow_cap :: "nat \<Rightarrow> nat \<Rightarrow> nat option" where
  "grow_cap cap need = (if cap < need then grow_cap (cap * 2) need else Some cap)"

declare grow_cap.simps [code]

definition sendq_append :: "string \<Rightarrow> sendq \<Rightarrow> sendq option" where
  "sendq_append bytes q =
     (let total = length bytes
      in if length (sq_data q) + total > sq_cap q then
           (let q1 = (if sq_off q \<noteq> 0 then q\<lparr>sq_data := sendq_pending q, sq_off := 0\<rparr> else q)
            in if length (sq_data q1) + total > sq_cap q1 then
                 (case grow_cap (sq_cap q1 * 2) (length (sq_data q1) + total) of
                    None \<Rightarrow> None
                  | Some c \<Rightarrow> Some (q1\<lparr>sq_cap := c, sq_data := sq_data q1 @ bytes\<rparr>))
               else Some (q1\<lparr>sq_data := sq_data q1 @ bytes\<rparr>))
         else Some (q\<lparr>sq_data := sq_data q @ bytes\<rparr>))"

text \<open>What a successful write of \<open>n\<close> bytes does (write\_client of src/src/net.c).\<close>

definition SBUF_SHRINK_ABOVE :: nat where "SBUF_SHRINK_ABOVE = 8192"
definition SBUF_KEEP :: nat where "SBUF_KEEP = 4096"

definition sendq_written :: "nat \<Rightarrow> sendq \<Rightarrow> sendq" where
  "sendq_written n q =
     (let off = sq_off q + n
      in if off = length (sq_data q)
         then \<lparr>sq_data = [], sq_off = 0, sq_cap = client_buf_shrink 0 (sq_cap q) SBUF_SHRINK_ABOVE SBUF_KEEP\<rparr>
         else q\<lparr>sq_off := off\<rparr>)"

section \<open>Sending a line\<close>

text \<open>The line with its server-time tag and CRLF, as it is spliced into the queue.\<close>

definition wire_line :: "string \<Rightarrow> client \<Rightarrow> string \<Rightarrow> string" where
  "wire_line ts cl line =
     (if has (c_caps cl) CAP_SERVER_TIME then
        (case irc_time_tag_insert ts line of
           None \<Rightarrow> line
         | Some (tag, at) \<Rightarrow> take at line @ tag @ drop at line)
      else line) @ [CR, LF]"

definition sendq_limit :: "client \<Rightarrow> nat" where
  "sendq_limit cl = (if c_sendq_max cl \<noteq> 0 then c_sendq_max cl else SENDQ_MAX)"

text \<open>
  The part of \<open>client_send\<close> behind the label capture. The flags the two mark functions set on
  the event loop's lists are those of section \<open>The event loop's queues\<close>; here only the client
  itself is followed. \<open>None\<close> is a run that does not return.
\<close>

definition send_now :: "string \<Rightarrow> string \<Rightarrow> client \<Rightarrow> client option" where
  "send_now ts line cl =
     (let bytes = wire_line ts cl line
      in if client_sendq_len (c_sbuf cl) + length bytes > sendq_limit cl then
           Some (cl\<lparr>c_quitting := True, c_quit_reason := ''SendQ exceeded''\<rparr>)
         else case sendq_append bytes (c_sbuf cl) of
                None \<Rightarrow> None
              | Some q \<Rightarrow> Some (cl\<lparr>c_sbuf := q\<rparr>))"

definition send_uncaptured :: "string \<Rightarrow> string \<Rightarrow> client \<Rightarrow> client option" where
  "send_uncaptured ts line cl =
     (if c_quitting cl then Some cl
      else if c_fd cl < 0 then
        Some (if c_link cl then cl\<lparr>c_forwarded := c_forwarded cl @ [line]\<rparr> else cl)
      else send_now ts line cl)"

fun send_lines :: "string \<Rightarrow> string list \<Rightarrow> client \<Rightarrow> client option" where
  "send_lines ts [] cl = Some cl"
| "send_lines ts (l # ls) cl = do { cl1 \<leftarrow> send_uncaptured ts l cl; send_lines ts ls cl1 }"

text \<open>The bytes held for a label: every line and its separator.\<close>

definition label_len :: "labeling \<Rightarrow> nat" where
  "label_len lb = sum_list (map (\<lambda>l. length l + 1) (lb_lines lb))"

definition client_send :: "string \<Rightarrow> string \<Rightarrow> client \<Rightarrow> client option" where
  "client_send ts line cl =
     (if c_quitting cl then Some cl
      else if c_fd cl < 0 then send_uncaptured ts line cl
      else if lb_capture (c_lb cl) then
        (if label_len (c_lb cl) + length line + 1 > 65536 then do {
           cl1 \<leftarrow> send_lines ts (lb_lines (c_lb cl)) (cl\<lparr>c_lb := (c_lb cl)\<lparr>lb_capture := False\<rparr>\<rparr>);
           send_now ts line (cl1\<lparr>c_lb := (c_lb cl1)\<lparr>lb_lines := []\<rparr>\<rparr>)
         }
         else Some (cl\<lparr>c_lb := (c_lb cl)\<lparr>lb_lines := lb_lines (c_lb cl) @ [line]\<rparr>\<rparr>))
      else send_now ts line cl)"

section \<open>Labeled responses\<close>

text \<open>
  What \<open>irc_build\<close> leaves in its buffer when the caller ignores the result: the pieces up
  to the first one that does not fit.
\<close>

fun fill :: "nat \<Rightarrow> string list \<Rightarrow> string \<Rightarrow> string \<times> bool" where
  "fill outsz [] out = (out, True)"
| "fill outsz (p # ps) out =
     (case append_str outsz p out of None \<Rightarrow> (out, False) | Some o1 \<Rightarrow> fill outsz ps o1)"

text \<open>A message without tags, as the replies of the daemon are built.\<close>

definition reply_pieces :: "string option \<Rightarrow> string \<Rightarrow> string list \<Rightarrow> string list" where
  "reply_pieces pfx command params =
     (case pfx of None \<Rightarrow> [] | Some p \<Rightarrow> ['':'', irc_escape 1024 p, '' '']) @ [irc_escape 1024 command] @
     concat (map (\<lambda>p. ['' '', mid_param p]) params)"

definition reply_line :: "nat \<Rightarrow> string option \<Rightarrow> string \<Rightarrow> string list \<Rightarrow> string option \<Rightarrow> string" where
  "reply_line outsz pfx command params trailing =
     (case fill outsz (reply_pieces pfx command params) [] of
        (out, False) \<Rightarrow> out
      | (out, True) \<Rightarrow> (case build_trailing outsz trailing out of None \<Rightarrow> out | Some o2 \<Rightarrow> o2))"

definition client_reply :: "string \<Rightarrow> string \<Rightarrow> string \<Rightarrow> string list \<Rightarrow> string option \<Rightarrow> client \<Rightarrow> client option" where
  "client_reply srvname ts code params trailing cl =
     (let target = (if c_nick cl \<noteq> [] then c_nick cl else ''*'');
          allparams = take IRC_MAX_PARAMS (target # params)
      in client_send ts (reply_line 1024 (Some srvname) code allparams trailing) cl)"

definition client_label_begin :: "string \<Rightarrow> client \<Rightarrow> client" where
  "client_label_begin label cl =
     cl\<lparr>c_lb := (c_lb cl)\<lparr>lb_label := clip 72 label, lb_capture := True, lb_lines := []\<rparr>\<rparr>"

definition line_add_tag :: "string \<Rightarrow> string \<Rightarrow> nat \<Rightarrow> string" where
  "line_add_tag tag line outsz =
     clip outsz (if take 1 line = ''@'' then ''@'' @ tag @ '';'' @ drop 1 line else ''@'' @ tag @ '' '' @ line)"

definition has_batch_tag :: "string \<Rightarrow> bool" where
  "has_batch_tag line =
     (if take 1 line \<noteq> ''@'' then False
      else starts_with ''@batch='' line \<or>
        (case (split_str '';batch='' line, split_chr SP line) of
           (Some (a, _), Some (b, _)) \<Rightarrow> length a < length b
         | _ \<Rightarrow> False))"

definition label_tag :: "string \<Rightarrow> string" where
  "label_tag label =
     (let tmp = (case irc_build 200 [(''label'', label)] None ''X'' [] None of Some l \<Rightarrow> l | None \<Rightarrow> []);
          upto = (case split_chr SP tmp of Some (a, _) \<Rightarrow> a | None \<Rightarrow> tmp)
      in drop 1 upto)"

definition batch_id :: "nat \<Rightarrow> string" where
  "batch_id seqno = clip 24 (''lr'' @ show_nat seqno)"

text \<open>The lines that go out, and the batch counter behind them.\<close>

definition label_output :: "string \<Rightarrow> nat \<Rightarrow> labeling \<Rightarrow> string list \<times> nat" where
  "label_output srvname seqno lb =
     (let labeltag = label_tag (lb_label lb); ls = lb_lines lb
      in if ls = [] then ([line_add_tag labeltag (reply_line 200 (Some srvname) ''ACK'' [] None) 1700], seqno)
         else if length ls = 1 then ([line_add_tag labeltag (hd ls) 1700], seqno)
         else (let bid = batch_id (seqno + 1);
                   start = reply_line 300 (Some srvname) ''BATCH'' [''+'' @ bid, ''labeled-response''] None;
                   body = map (\<lambda>p. if has_batch_tag p then p else line_add_tag (clip 40 (''batch='' @ bid)) p 1700) ls
               in ([line_add_tag labeltag start 1700] @ body @
                   [reply_line 300 (Some srvname) ''BATCH'' [''-'' @ bid] None], seqno + 1)))"

definition client_label_end :: "string \<Rightarrow> string \<Rightarrow> nat \<Rightarrow> client \<Rightarrow> (client \<times> nat) option" where
  "client_label_end srvname ts seqno cl =
     (if \<not> lb_capture (c_lb cl) then Some (cl, seqno)
      else let deferred = lb_defer (c_lb cl);
               cl1 = cl\<lparr>c_lb := (c_lb cl)\<lparr>lb_capture := False, lb_defer := False\<rparr>\<rparr>
      in if deferred \<and> lb_lines (c_lb cl) = [] then Some (cl1, seqno)
         else do {
           let (out, seq1) = label_output srvname seqno (c_lb cl);
           cl2 \<leftarrow> send_lines ts out cl1;
           Some (cl2\<lparr>c_lb := (c_lb cl2)\<lparr>lb_lines := []\<rparr>\<rparr>, seq1)
         })"

section \<open>The send queue refines a byte queue\<close>

definition sendq_ok :: "sendq \<Rightarrow> bool" where
  "sendq_ok q \<longleftrightarrow> sq_off q \<le> length (sq_data q) \<and> length (sq_data q) \<le> sq_cap q \<and> 0 < sq_cap q"

lemma grow_cap_returns:
  assumes "0 < cap"
  shows "\<exists>c. grow_cap cap need = Some c \<and> need \<le> c \<and> cap \<le> c"
  using assms
proof (induction "need - cap" arbitrary: cap rule: less_induct)
  case less
  show ?case
  proof (cases "cap < need")
    case True
    then have "need - cap * 2 < need - cap" "0 < cap * 2" using less.prems by auto
    from less.hyps [OF this] show ?thesis by (subst grow_cap.simps) (auto simp: True)
  next
    case False
    then show ?thesis by (subst grow_cap.simps) auto
  qed
qed

lemma sendq_append_refines:
  assumes "sendq_ok q"
  shows "\<exists>q2. sendq_append bytes q = Some q2 \<and> sendq_ok q2 \<and> sendq_pending q2 = sendq_pending q @ bytes"
proof -
  define q1 where "q1 = (if sq_off q \<noteq> 0 then q\<lparr>sq_data := sendq_pending q, sq_off := 0\<rparr> else q)"
  have q1: "sendq_ok q1" "sendq_pending q1 = sendq_pending q" "sq_cap q1 = sq_cap q"
    using assms by (auto simp: q1_def sendq_ok_def sendq_pending_def)
  then have "0 < sq_cap q1 * 2" by (simp add: sendq_ok_def)
  from grow_cap_returns [OF this] obtain c
    where c: "grow_cap (sq_cap q1 * 2) (length (sq_data q1) + length bytes) = Some c"
      "length (sq_data q1) + length bytes \<le> c" "sq_cap q1 * 2 \<le> c" by blast
  have app: "sendq_pending (r\<lparr>sq_data := sq_data r @ bytes\<rparr>) = sendq_pending r @ bytes"
    "sendq_pending (r\<lparr>sq_cap := k, sq_data := sq_data r @ bytes\<rparr>) = sendq_pending r @ bytes" if "sendq_ok r" for r k
    using that by (simp_all add: sendq_pending_def sendq_ok_def)
  consider (room) "length (sq_data q) + length bytes \<le> sq_cap q"
    | (reclaimed) "\<not> length (sq_data q) + length bytes \<le> sq_cap q" "length (sq_data q1) + length bytes \<le> sq_cap q1"
    | (grown) "\<not> length (sq_data q) + length bytes \<le> sq_cap q" "\<not> length (sq_data q1) + length bytes \<le> sq_cap q1"
    by blast
  then show ?thesis
  proof cases
    case room
    with assms app(1) [OF assms] show ?thesis by (auto simp: sendq_append_def sendq_ok_def)
  next
    case reclaimed
    then have "sendq_append bytes q = Some (q1\<lparr>sq_data := sq_data q1 @ bytes\<rparr>)"
      unfolding sendq_append_def Let_def q1_def [symmetric] by simp
    with reclaimed app(1) [OF q1(1)] q1 show ?thesis by (auto simp: sendq_ok_def)
  next
    case grown
    then have "sendq_append bytes q = Some (q1\<lparr>sq_cap := c, sq_data := sq_data q1 @ bytes\<rparr>)"
      unfolding sendq_append_def Let_def q1_def [symmetric] c(1) by simp
    with grown app(2) [OF q1(1), of c] q1 c show ?thesis by (auto simp: sendq_ok_def)
  qed
qed

lemma sendq_written_refines:
  assumes "sendq_ok q" and "n \<le> length (sendq_pending q)"
  shows "sendq_ok (sendq_written n q) \<and> sendq_pending (sendq_written n q) = drop n (sendq_pending q)"
  using assms
  by (auto simp: sendq_written_def sendq_ok_def sendq_pending_def Let_def client_buf_shrink_def SBUF_KEEP_def
      SBUF_SHRINK_ABOVE_def add.commute)

interpretation sq: byte_fifo sendq_pending sendq_append sendq_written sendq_ok
  by unfold_locales (simp_all add: sendq_append_refines sendq_written_refines)

lemma new_sendq_ok: "sendq_ok (c_sbuf (client_new fd now)) \<and> sendq_pending (c_sbuf (client_new fd now)) = []"
  by (simp add: client_new_def sendq_ok_def sendq_pending_def)

section \<open>Lines that go out\<close>

text \<open>A live socket with a healthy queue.\<close>

definition live :: "client \<Rightarrow> bool" where
  "live cl \<longleftrightarrow> \<not> c_quitting cl \<and> 0 \<le> c_fd cl \<and> sendq_ok (c_sbuf cl)"

lemma pending_len: "client_sendq_len q = length (sendq_pending q)"
  by (simp add: client_sendq_len_def sendq_pending_def)

lemma send_now_fits:
  assumes "live cl" and "length (sendq_pending (c_sbuf cl)) + length (wire_line ts cl line) \<le> sendq_limit cl"
  shows "\<exists>q. send_now ts line cl = Some (cl\<lparr>c_sbuf := q\<rparr>) \<and> sendq_ok q \<and>
    sendq_pending q = sendq_pending (c_sbuf cl) @ wire_line ts cl line"
proof -
  from sq.app_good [of "c_sbuf cl" "wire_line ts cl line"] assms(1)
  obtain q where "sendq_append (wire_line ts cl line) (c_sbuf cl) = Some q" "sendq_ok q"
    "sendq_pending q = sendq_pending (c_sbuf cl) @ wire_line ts cl line" by (auto simp: live_def)
  with assms(2) show ?thesis by (intro exI [of _ q]) (simp add: send_now_def Let_def pending_len)
qed

lemma send_now_returns: "sendq_ok (c_sbuf cl) \<Longrightarrow> \<exists>cl2. send_now ts line cl = Some cl2 \<and> sendq_ok (c_sbuf cl2)"
  using sq.app_good [of "c_sbuf cl" "wire_line ts cl line"] by (auto simp: send_now_def Let_def)

lemma send_uncaptured_returns:
  "sendq_ok (c_sbuf cl) \<Longrightarrow> \<exists>cl2. send_uncaptured ts line cl = Some cl2 \<and> sendq_ok (c_sbuf cl2)"
  using send_now_returns [of cl ts line] by (simp add: send_uncaptured_def)

lemma send_lines_returns: "sendq_ok (c_sbuf cl) \<Longrightarrow> \<exists>cl2. send_lines ts ls cl = Some cl2 \<and> sendq_ok (c_sbuf cl2)"
proof (induction ls arbitrary: cl)
  case (Cons l ls)
  from send_uncaptured_returns [OF Cons.prems, of ts l] obtain cl1
    where "send_uncaptured ts l cl = Some cl1" "sendq_ok (c_sbuf cl1)" by blast
  with Cons.IH [of cl1] show ?case by simp
qed simp

lemma client_send_returns: "sendq_ok (c_sbuf cl) \<Longrightarrow> \<exists>cl2. client_send ts line cl = Some cl2 \<and> sendq_ok (c_sbuf cl2)"
proof -
  assume ok: "sendq_ok (c_sbuf cl)"
  have ok1: "sendq_ok (c_sbuf (cl\<lparr>c_lb := l\<rparr>))" for l using ok by simp
  obtain cl1 where 1: "send_lines ts (lb_lines (c_lb cl)) (cl\<lparr>c_lb := (c_lb cl)\<lparr>lb_capture := False\<rparr>\<rparr>) = Some cl1"
    "sendq_ok (c_sbuf cl1)" using send_lines_returns [OF ok1] by blast
  have ok2: "sendq_ok (c_sbuf (cl1\<lparr>c_lb := l\<rparr>))" for l using 1 by simp
  from send_now_returns [OF ok2] send_now_returns [OF ok] send_uncaptured_returns [OF ok] 1 ok show ?thesis
    by (simp add: client_send_def)
qed

lemma wire_line_frame [simp]: "wire_line ts (cl\<lparr>c_sbuf := q\<rparr>) l = wire_line ts cl l"
  "wire_line ts (cl\<lparr>c_lb := lb\<rparr>) l = wire_line ts cl l"
  by (simp_all add: wire_line_def)

lemma limit_frame [simp]: "sendq_limit (cl\<lparr>c_sbuf := q\<rparr>) = sendq_limit cl"
  "sendq_limit (cl\<lparr>c_lb := lb\<rparr>) = sendq_limit cl"
  by (simp_all add: sendq_limit_def)

lemma live_frame [simp]: "live (cl\<lparr>c_lb := lb\<rparr>) = live cl" "live (cl\<lparr>c_sbuf := q\<rparr>) = (\<not> c_quitting cl \<and> 0 \<le> c_fd cl \<and> sendq_ok q)"
  by (simp_all add: live_def)

lemma send_lines_fit:
  "live cl \<Longrightarrow> length (sendq_pending (c_sbuf cl)) + length (concat (map (wire_line ts cl) ls)) \<le> sendq_limit cl \<Longrightarrow>
     \<exists>q. send_lines ts ls cl = Some (cl\<lparr>c_sbuf := q\<rparr>) \<and> sendq_ok q \<and>
       sendq_pending q = sendq_pending (c_sbuf cl) @ concat (map (wire_line ts cl) ls)"
proof (induction ls arbitrary: cl)
  case Nil
  then show ?case by (intro exI [of _ "c_sbuf cl"]) (simp add: live_def)
next
  case (Cons l ls)
  from send_now_fits [OF Cons.prems(1), of ts l] Cons.prems(2)
  obtain q where q: "send_now ts l cl = Some (cl\<lparr>c_sbuf := q\<rparr>)" "sendq_ok q"
    "sendq_pending q = sendq_pending (c_sbuf cl) @ wire_line ts cl l" by auto
  have s: "send_uncaptured ts l cl = Some (cl\<lparr>c_sbuf := q\<rparr>)"
    using Cons.prems(1) q(1) by (simp add: send_uncaptured_def live_def)
  have fr: "wire_line ts (cl\<lparr>c_sbuf := q\<rparr>) = wire_line ts cl" by (rule ext) simp
  from Cons.IH [of "cl\<lparr>c_sbuf := q\<rparr>"] q Cons.prems s show ?case by (auto simp: live_def fr)
qed

text \<open>Lines sent between begin and end of a label are held, in order.\<close>

fun send_all :: "string \<Rightarrow> string list \<Rightarrow> client \<Rightarrow> client option" where
  "send_all ts [] cl = Some cl"
| "send_all ts (l # ls) cl = do { cl1 \<leftarrow> client_send ts l cl; send_all ts ls cl1 }"

lemma send_all_held:
  "live cl \<Longrightarrow> lb_capture (c_lb cl) \<Longrightarrow> label_len (c_lb cl) + sum_list (map (\<lambda>l. length l + 1) ls) \<le> 65536 \<Longrightarrow>
     send_all ts ls cl = Some (cl\<lparr>c_lb := (c_lb cl)\<lparr>lb_lines := lb_lines (c_lb cl) @ ls\<rparr>\<rparr>)"
proof (induction ls arbitrary: cl)
  case (Cons l ls)
  have s: "client_send ts l cl = Some (cl\<lparr>c_lb := (c_lb cl)\<lparr>lb_lines := lb_lines (c_lb cl) @ [l]\<rparr>\<rparr>)"
    using Cons.prems by (simp add: client_send_def live_def)
  have "label_len ((c_lb cl)\<lparr>lb_lines := lb_lines (c_lb cl) @ [l]\<rparr>) = label_len (c_lb cl) + length l + 1"
    by (simp add: label_len_def)
  with Cons.IH [of "cl\<lparr>c_lb := (c_lb cl)\<lparr>lb_lines := lb_lines (c_lb cl) @ [l]\<rparr>\<rparr>"] Cons.prems s show ?case
    by (simp add: live_def)
qed simp

section \<open>Properties\<close>

text \<open>
  C30. The send queue with its written-prefix offset, its reclaiming and its doubling buffer is
  a FIFO of bytes: over any history of appended lines and partial writes every operation
  returns, what was sent followed by what is pending is what was appended, in order and once, and
  the offsets stay inside the buffer.
\<close>

theorem sendq_fifo:
  "\<exists>q out. fifo_run sendq_pending sendq_append sendq_written us (c_sbuf (client_new fd now)) = Some (q, out) \<and>
     out @ sendq_pending q = queued us \<and> sendq_ok q"
  using sq.fifo_order [of "c_sbuf (client_new fd now)" us] new_sendq_ok [of fd now] by auto

text \<open>
  C32. Queueing a line for a connection always returns, whatever the label state, the time tag and the
  fill of the queue: the doubling loop ends.
\<close>

theorem client_send_terminates:
  assumes "sendq_ok (c_sbuf cl)"
  shows "\<exists>cl2. client_send ts line cl = Some cl2 \<and> sendq_ok (c_sbuf cl2)"
  using client_send_returns [OF assms] .

theorem client_send_terminates_witness:
  "\<exists>cl2. client_send ''t'' ''PING'' (client_new 5 0) = Some cl2 \<and> sendq_ok (c_sbuf cl2)"
  by (rule client_send_terminates) (simp add: client_new_def sendq_ok_def)

text \<open>
  What a labelled command is answered with, written out: the label goes in front of the other tags of
  a line, an id names the batch, and a line that is in a batch of its own keeps only that tag.
\<close>

definition tagged :: "string \<Rightarrow> string \<Rightarrow> string" where
  "tagged t l = (if take 1 l = ''@'' then ''@'' @ t @ '';'' @ drop 1 l else ''@'' @ t @ '' '' @ l)"

definition in_batch :: "string \<Rightarrow> bool" where
  "in_batch l \<longleftrightarrow> (\<exists>r. l = ''@batch='' @ r) \<or>
     (take 1 l = ''@'' \<and> SP \<in> set l \<and> (\<exists>u r. l = u @ '';batch='' @ r \<and> SP \<notin> set u))"

definition labelled :: "string \<Rightarrow> string \<Rightarrow> nat \<Rightarrow> string list \<Rightarrow> string list" where
  "labelled srv label seqno ls =
     (let t = ''label='' @ concat (map escape_tag_char label); num = ''lr'' @ show_nat (seqno + 1)
      in case ls of
           [] \<Rightarrow> [tagged t ('':'' @ srv @ '' ACK'')]
         | [l] \<Rightarrow> [tagged t l]
         | _ \<Rightarrow> tagged t ('':'' @ srv @ '' BATCH +'' @ num @ '' labeled-response'') #
               map (\<lambda>l. if in_batch l then l else tagged (''batch='' @ num) l) ls @
               ['':'' @ srv @ '' BATCH -'' @ num])"

lemma split_str_earliest: "split_str pat s = Some (a, b) \<Longrightarrow> s = a @ pat @ b \<and> (\<forall>u r. s = u @ pat @ r \<longrightarrow> length a \<le> length u)"
proof (induction s arbitrary: a)
  case Nil
  then show ?case by (simp add: split_str.simps [of pat "[]"] starts_with_def split: if_splits)
next
  case (Cons x xs)
  show ?case
  proof (cases "starts_with pat (x # xs)")
    case True
    then show ?thesis using Cons.prems by (simp add: split_str.simps [of pat "x # xs"] starts_with_def) (metis append_take_drop_id)
  next
    case False
    then obtain a2 where a: "a = x # a2" "split_str pat xs = Some (a2, b)"
      using Cons.prems by (auto simp: split_str.simps [of pat "x # xs"])
    note h = Cons.IH [OF a(2)]
    have "length a \<le> length u" if "x # xs = u @ pat @ r" for u r
    proof (cases u)
      case Nil
      then show ?thesis using that False by (auto simp: starts_with_def)
    next
      case (Cons y u2)
      then have "xs = u2 @ pat @ r" using that by simp
      then show ?thesis using h a(1) Cons by auto
    qed
    then show ?thesis using h a(1) by auto
  qed
qed

lemma split_str_found: "split_str pat (u @ pat @ r) \<noteq> None"
proof (induction u)
  case Nil
  then show ?case by (simp add: split_str.simps [of pat "pat @ r"] starts_with_def)
next
  case (Cons x u)
  then show ?case by (simp add: split_str.simps [of pat "x # u @ pat @ r"] split: option.splits) auto
qed

lemma in_batch_eq: "has_batch_tag l = in_batch l"
proof (cases "take 1 l = ''@''")
  case False
  then show ?thesis by (auto simp: has_batch_tag_def in_batch_def)
next
  case True
  have 1: "starts_with ''@batch='' l \<longleftrightarrow> (\<exists>r. l = ''@batch='' @ r)"
    unfolding starts_with_def by (metis append_eq_conv_conj append_take_drop_id)
  have 2: "(case (split_str '';batch='' l, split_chr SP l) of (Some (a, _), Some (b, _)) \<Rightarrow> length a < length b | _ \<Rightarrow> False)
      \<longleftrightarrow> SP \<in> set l \<and> (\<exists>u r. l = u @ '';batch='' @ r \<and> SP \<notin> set u)" (is "?L \<longleftrightarrow> ?R")
  proof
    assume ?L
    then obtain a b c d where s: "split_str '';batch='' l = Some (a, c)" "split_chr SP l = Some (b, d)" "length a < length b"
      by (auto split: option.splits)
    have l: "l = a @ '';batch='' @ c" "l = b @ SP # d" "SP \<notin> set b"
      using split_str_earliest [OF s(1)] split_chr_SomeD [OF s(2)] by simp_all
    have "a = take (length a) b" using l(1,2) s(3) by (metis append_eq_conv_conj less_imp_le_nat take_append take_all_iff diff_is_0_eq take0 append_Nil2)
    then have "SP \<notin> set a" using l(3) by (metis in_set_takeD)
    moreover have "SP \<in> set l" using l(2) by simp
    ultimately show ?R using l(1) by blast
  next
    assume ?R
    then obtain u r where u: "l = u @ '';batch='' @ r" "SP \<notin> set u" "SP \<in> set l" by blast
    obtain a c where a: "split_str '';batch='' l = Some (a, c)" using split_str_found [of "'';batch=''" u r] u(1) by auto
    obtain b d where b: "split_chr SP l = Some (b, d)" using u(3) split_chr_None_iff [of SP l] by (cases "split_chr SP l") auto
    have "length a \<le> length u" using split_str_earliest [OF a] u(1) by blast
    moreover have "length u < length b"
    proof (rule ccontr)
      assume "\<not> length u < length b"
      have l: "l = b @ SP # d" using split_chr_SomeD [OF b] by simp
      have s: "l ! length b = SP" unfolding l by simp
      consider "length b = length u" | "length b < length u" using \<open>\<not> length u < length b\<close> by linarith
      then show False
      proof cases
        case 1
        then show False using s unfolding u(1) by simp
      next
        case 2
        then have "u ! length b = SP" using s unfolding u(1) by (simp add: nth_append)
        then show False using u(2) 2 nth_mem by metis
      qed
    qed
    ultimately show ?L using a b by simp
  qed
  show ?thesis using True unfolding has_batch_tag_def in_batch_def 1 2 by simp
qed

text \<open>The daemon's own lines fit their buffers when the name of the server is at most 63 bytes.\<close>

lemma fill_fits: "length out + length (concat ps) < n \<Longrightarrow> fill n ps out = (out @ concat ps, True)"
  by (induction ps arbitrary: out) (auto simp: append_str_def)

definition server_name :: "string \<Rightarrow> bool" where
  "server_name srv \<longleftrightarrow> length srv < 64 \<and> CR \<notin> set srv \<and> LF \<notin> set srv"

lemma own_line:
  assumes "server_name srv" and "irc_escape 1024 c = c" and "\<forall>p \<in> set ps. mid_param p = p"
    and "length c + length (concat (map (\<lambda>p. SP # p) ps)) + 66 < n"
  shows "reply_line n (Some srv) c ps None = '':'' @ srv @ '' '' @ c @ concat (map (\<lambda>p. SP # p) ps)"
proof -
  have e: "irc_escape 1024 srv = srv" using assms(1) by (intro irc_escape_id) (auto simp: server_name_def)
  have m: "map (\<lambda>p. ['' '', mid_param p]) ps = map (\<lambda>p. ['' '', p]) ps" using assms(3) by simp
  have p: "concat (reply_pieces (Some srv) c ps) = '':'' @ srv @ '' '' @ c @ concat (map (\<lambda>p. SP # p) ps)"
    unfolding reply_pieces_def m by (induction ps) (simp_all add: e assms(2))
  have "fill n (reply_pieces (Some srv) c ps) [] = ([] @ concat (reply_pieces (Some srv) c ps), True)"
    by (rule fill_fits) (use assms(1,4) in \<open>simp add: p server_name_def\<close>)
  then show ?thesis by (simp add: reply_line_def p build_trailing_def)
qed

lemma escapes_length: "length (concat (map escape_tag_char s)) \<le> 2 * length s"
proof (induction s)
  case (Cons c s)
  have "length (escape_tag_char c) \<le> 2" by (simp add: escape_tag_char_def)
  then show ?case using Cons by simp
qed simp

lemma label_tag_eq:
  assumes "length label < 64"
  shows "label_tag label = (if label = [] then ''label'' else ''label='' @ concat (map escape_tag_char label))"
proof -
  let ?e = "concat (map escape_tag_char label)"
  have e: "escape_tag_value 1024 label = ?e" using assms by (intro escape_tag_value_eq) simp
  have l: "length ?e \<le> 2 * length label" by (rule escapes_length)
  have sp: "SP \<notin> set ?e" using escape_tag_char_sep [of SP] by auto
  let ?t = "if label = [] then ''label'' else ''label='' @ ?e"
  have w: "wire [(''label'', label)] None ''X'' [] None = ''@'' @ ?t @ '' X''"
    by (simp add: wire_def wire_head_def wire_tags_def wire_tag_def wire_prefix_def wire_params_def wire_trailing_def e)
  have "irc_build 200 [(''label'', label)] None ''X'' [] None = Some (''@'' @ ?t @ '' X'')"
    unfolding irc_build_eq [of 200, simplified] w
    using l assms by (auto simp: wire_head_def wire_tags_def wire_tag_def wire_prefix_def wire_params_def e)
  moreover have "split_chr SP (''@'' @ ?t @ '' X'') = Some (''@'' @ ?t, ''X'')"
    using sp split_chr_append [of SP "''@'' @ ?t" "''X''"] by (simp split: if_splits)
  ultimately show ?thesis unfolding label_tag_def by simp
qed

lemma tag_fits: "length t + length l + 3 < n \<Longrightarrow> line_add_tag t l n = tagged t l"
  by (auto simp: line_add_tag_def tagged_def clip_def)

lemma label_output_eq:
  assumes "server_name srv" and "label \<noteq> []" and "length label < 64" and "seqno + 1 < 2 ^ 64" and "\<forall>l \<in> set ls. length l < 1500"
  shows "label_output srv seqno (lb\<lparr>lb_label := clip 72 label, lb_lines := ls\<rparr>) =
    (labelled srv label seqno ls, if length ls \<le> 1 then seqno else seqno + 1)"
proof -
  define t where "t = ''label='' @ concat (map escape_tag_char label)"
  define num where "num = ''lr'' @ show_nat (seqno + 1)"
  have c: "clip 72 label = label" using assms(3) by (simp add: clip_def)
  have t: "label_tag label = t" using label_tag_eq [OF assms(3)] assms(2) by (simp add: t_def)
  have "length (concat (map escape_tag_char label)) \<le> 2 * length label" by (rule escapes_length)
  then have lt: "length t \<le> 132" using assms(3) by (simp add: t_def)
  have "length (show_nat (seqno + 1)) \<le> 20" using assms(4) by (intro length_show_nat) simp_all
  then have ln: "length num \<le> 22" by (simp add: num_def)
  then have b: "batch_id (seqno + 1) = num" "clip 40 (''batch='' @ num) = ''batch='' @ num" by (simp_all add: batch_id_def num_def clip_def)
  have d: "list_all c_isdigit (show_nat (seqno + 1))" using show_nat_digits by blast
  have m: "mid_param (x @ num) = x @ num" if "x = ''+'' \<or> x = ''-''" for x
    by (rule wire_safe_name) (use that ln d in \<open>auto simp: num_def list_all_iff ctype_simps\<close>)
  have k: "mid_param ''labeled-response'' = ''labeled-response''" "irc_escape 1024 ''ACK'' = ''ACK''" "irc_escape 1024 ''BATCH'' = ''BATCH''"
    by code_simp+
  have ack: "reply_line 200 (Some srv) ''ACK'' [] None = '':'' @ srv @ '' ACK''"
    using own_line [OF assms(1), of "''ACK''" "[]" 200] k by simp
  have plus: "reply_line 300 (Some srv) ''BATCH'' [''+'' @ num, ''labeled-response''] None = '':'' @ srv @ '' BATCH +'' @ num @ '' labeled-response''"
    using own_line [OF assms(1), of "''BATCH''" "[''+'' @ num, ''labeled-response'']" 300] k m [of "''+''"] ln by simp
  have minus: "reply_line 300 (Some srv) ''BATCH'' [''-'' @ num] None = '':'' @ srv @ '' BATCH -'' @ num"
    using own_line [OF assms(1), of "''BATCH''" "[''-'' @ num]" 300] k m [of "''-''"] ln by simp
  have s: "length srv < 64" using assms(1) by (simp add: server_name_def)
  have body: "map (\<lambda>p. if has_batch_tag p then p else line_add_tag (''batch='' @ num) p 1700) ls =
      map (\<lambda>l. if in_batch l then l else tagged (''batch='' @ num) l) ls"
    using assms(5) ln by (intro map_cong refl) (auto simp: in_batch_eq intro!: tag_fits)
  have f: "line_add_tag t l 1700 = tagged t l" if "length l < 1500" for l using that lt by (intro tag_fits) simp
  consider "ls = []" | l where "ls = [l]" | l l2 ls2 where "ls = l # l2 # ls2" by (cases ls rule: remdups_adj.cases) auto
  then show ?thesis
  proof cases
    case 1
    then show ?thesis using f [of "'':'' @ srv @ '' ACK''"] s
      unfolding label_output_def labelled_def Let_def t_def [symmetric] by (simp add: c t ack)
  next
    case 2
    then show ?thesis using f [of l] assms(5) unfolding label_output_def labelled_def Let_def t_def [symmetric] by (simp add: c t)
  next
    case 3
    then have n: "ls \<noteq> []" "length ls \<noteq> 1" "\<not> length ls \<le> 1" by simp_all
    have h: "line_add_tag t ('':'' @ srv @ '' BATCH +'' @ num @ '' labeled-response'') 1700 =
        tagged t ('':'' @ srv @ '' BATCH +'' @ num @ '' labeled-response'')" using s ln by (intro f) simp
    have "labelled srv label seqno ls = tagged t ('':'' @ srv @ '' BATCH +'' @ num @ '' labeled-response'') #
        map (\<lambda>l. if in_batch l then l else tagged (''batch='' @ num) l) ls @ ['':'' @ srv @ '' BATCH -'' @ num]"
      unfolding labelled_def Let_def t_def [symmetric] num_def [symmetric] 3 by simp
    moreover have "label_output srv seqno (lb\<lparr>lb_label := clip 72 label, lb_lines := ls\<rparr>) =
        ([line_add_tag t (reply_line 300 (Some srv) ''BATCH'' [''+'' @ num, ''labeled-response''] None) 1700] @
         map (\<lambda>p. if has_batch_tag p then p else line_add_tag (''batch='' @ num) p 1700) ls @
         [reply_line 300 (Some srv) ''BATCH'' [''-'' @ num] None], seqno + 1)"
    proof -
      have x: "lb_lines (lb\<lparr>lb_label := clip 72 label, lb_lines := ls\<rparr>) = ls" "lb_label (lb\<lparr>lb_label := clip 72 label, lb_lines := ls\<rparr>) = label"
        by (simp_all add: c)
      show ?thesis using n(1,2) unfolding label_output_def Let_def b x t by (simp only: if_False)
    qed
    ultimately show ?thesis unfolding plus minus body h using n(3) by simp
  qed
qed

text \<open>
  C31. A labelled response is complete: whatever lines a command sends between the begin and the
  end of its label, what reaches the queue behind what was queued before is an ACK under the label
  for none, the line itself under the label for one, and for more an opening BATCH under the label,
  every line in its order (under the tag of the batch unless it is in a batch of its own) and the
  closing BATCH. This is for lines of less than 1500 bytes, 64 KiB of them at most, for which the
  queue has room, when the command does not put its answer off.
\<close>

theorem labeled_response_complete:
  assumes "live cl" and "sum_list (map (\<lambda>l. length l + 1) ls) \<le> 65536" and "\<not> lb_defer (c_lb cl)"
    and "server_name srv" and "label \<noteq> []" and "length label < 64" and "seqno + 1 < 2 ^ 64" and "\<forall>l \<in> set ls. length l < 1500"
    and "length (sendq_pending (c_sbuf cl)) + length (concat (map (wire_line ts cl) (labelled srv label seqno ls))) \<le> sendq_limit cl"
  shows "\<exists>cl2 cl3 seqno2. send_all ts ls (client_label_begin label cl) = Some cl2 \<and>
    client_label_end srv ts seqno cl2 = Some (cl3, seqno2) \<and>
    sendq_pending (c_sbuf cl3) = sendq_pending (c_sbuf cl) @ concat (map (wire_line ts cl) (labelled srv label seqno ls)) \<and> live cl3"
proof -
  define lb where "lb = (c_lb cl)\<lparr>lb_label := clip 72 label, lb_capture := True, lb_lines := ls\<rparr>"
  define seqno2 where "seqno2 = (if length ls \<le> 1 then seqno else seqno + 1)"
  let ?out = "labelled srv label seqno ls"
  have "send_all ts ls (client_label_begin label cl) = Some (cl\<lparr>c_lb := lb\<rparr>)"
    using send_all_held [of "client_label_begin label cl" ls ts] assms(1,2)
    by (simp add: client_label_begin_def label_len_def lb_def)
  moreover have "lb = (c_lb cl)\<lparr>lb_capture := True\<rparr>\<lparr>lb_label := clip 72 label, lb_lines := ls\<rparr>" by (simp add: lb_def)
  then have o: "label_output srv seqno lb = (?out, seqno2)" using label_output_eq [OF assms(4-8)] by (simp add: seqno2_def)
  define cl1 where "cl1 = cl\<lparr>c_lb := lb\<lparr>lb_capture := False, lb_defer := False\<rparr>\<rparr>"
  have fr: "wire_line ts cl1 = wire_line ts cl" by (rule ext) (simp add: cl1_def)
  from send_lines_fit [of cl1 ts ?out] assms(1,9) obtain q where
    q: "send_lines ts ?out cl1 = Some (cl1\<lparr>c_sbuf := q\<rparr>)" "sendq_ok q"
      "sendq_pending q = sendq_pending (c_sbuf cl) @ concat (map (wire_line ts cl) ?out)"
    by (auto simp: fr) (auto simp: cl1_def)
  have "client_label_end srv ts seqno (cl\<lparr>c_lb := lb\<rparr>) =
      Some (cl1\<lparr>c_sbuf := q, c_lb := (c_lb cl1)\<lparr>lb_lines := []\<rparr>\<rparr>, seqno2)"
    using assms(3) o q(1) by (simp add: client_label_end_def cl1_def lb_def)
  ultimately show ?thesis using q assms(1) by (auto simp: cl1_def live_def)
qed

theorem labeled_response_complete_witness:
  "\<exists>cl2 cl3 seqno2. send_all ''t'' [''A'', ''B''] (client_label_begin ''x'' (client_new 5 0)) = Some cl2 \<and>
     client_label_end ''s'' ''t'' 6 cl2 = Some (cl3, seqno2) \<and>
     sendq_pending (c_sbuf cl3) = concat (map (\<lambda>l. l @ [CR, LF])
       [''@label=x :s BATCH +lr7 labeled-response'', ''@batch=lr7 A'', ''@batch=lr7 B'', '':s BATCH -lr7''])"
proof -
  let ?out = "[''@label=x :s BATCH +lr7 labeled-response'', ''@batch=lr7 A'', ''@batch=lr7 B'', '':s BATCH -lr7'']"
  let ?cl = "client_new 5 0"
  have w: "map (wire_line ''t'' ?cl) ?out = map (\<lambda>l. l @ [CR, LF]) ?out" by code_simp
  have n: "\<not> in_batch ''A''" "\<not> in_batch ''B''" by (simp_all add: in_batch_def)
  have e: "escape_tag_char CHR ''x'' = ''x''" "show_nat 7 = ''7''" by code_simp+
  have o: "labelled ''s'' ''x'' 6 [''A'', ''B''] = ?out" by (simp add: labelled_def Let_def tagged_def n e)
  have l: "live ?cl" and d: "\<not> lb_defer (c_lb ?cl)" and s: "sendq_limit ?cl = SENDQ_MAX" "sendq_pending (c_sbuf ?cl) = []"
    by (simp_all add: live_def client_new_def sendq_ok_def sendq_limit_def sendq_pending_def)
  have b: "length (sendq_pending (c_sbuf ?cl)) + length (concat (map (wire_line ''t'' ?cl) ?out)) \<le> sendq_limit ?cl"
    unfolding w s by (simp add: SENDQ_MAX_def)
  have v: "server_name ''s''" by (simp add: server_name_def)
  from labeled_response_complete [OF l _ d v, of "[''A'', ''B'']" "''x''" 6 "''t''"] b show ?thesis unfolding o w s by auto
qed

end
