(* ===== verification/History.thy ===== *)
theory History
  imports Names
begin

text \<open>
  Message history (src/src/history.c): the ring that grows on demand up to its cap, and the
  store of at most \<open>HIST_MAX_BUFFERS\<close> conversations. The ring refines the list of its last
  messages; this contract is the interface \<open>bounded_log\<close>. The file on disk is not modelled
  (its strings are written by \<open>json_put_string\<close> of theory Names).
\<close>

section \<open>Keys\<close>

definition history_key_channel :: "nat \<Rightarrow> string \<Rightarrow> string" where
  "history_key_channel outsz chan = irc_casefold outsz chan"

text \<open>\<open>strcmp(a, b) > 0\<close>, on unsigned bytes.\<close>

fun strcmp_gt :: "string \<Rightarrow> string \<Rightarrow> bool" where
  "strcmp_gt [] b = False"
| "strcmp_gt (x # a) [] = True"
| "strcmp_gt (x # a) (y # b) = (if x = y then strcmp_gt a b else byte x > byte y)"

abbreviation SOH :: char where "SOH \<equiv> CHR 0x01"

definition history_key_dm :: "nat \<Rightarrow> string \<Rightarrow> string \<Rightarrow> string" where
  "history_key_dm outsz account_a account_b =
     (let a = irc_casefold 72 account_a; b = irc_casefold 72 account_b;
          (lo, hi) = (if strcmp_gt a b then (b, a) else (a, b))
      in clip outsz (SOH # lo @ SOH # hi))"

definition history_key_is_dm :: "string \<Rightarrow> bool" where
  "history_key_is_dm key = (take 1 key = [SOH])"

section \<open>One conversation\<close>

record hist_entry =
  he_ms :: int
  he_msgid :: string
  he_sender :: string
  he_account :: string
  he_verb :: string
  he_target :: string
  he_text :: string

definition entry_dup :: "hist_entry \<Rightarrow> hist_entry" where
  "entry_dup e =
     \<lparr>he_ms = he_ms e, he_msgid = take 47 (he_msgid e), he_sender = take 159 (he_sender e),
      he_account = take 31 (he_account e), he_verb = take 7 (he_verb e), he_target = take 71 (he_target e),
      he_text = take 4200 (he_text e)\<rparr>"

text \<open>
  A slot is \<open>None\<close> while it holds no entry (fresh or released memory); the array is NULL when
  \<open>hb_alloc\<close> is 0.
\<close>

record hist_buf =
  hb_key :: string
  hb_cap :: nat
  hb_alloc :: nat
  hb_head :: nat
  hb_n :: nat
  hb_e :: "hist_entry option list"
  hb_last_ms :: int

definition new_hist_buf :: "string \<Rightarrow> hist_buf" where
  "new_hist_buf key =
     \<lparr>hb_key = clip 160 key, hb_cap = 0, hb_alloc = 0, hb_head = 0, hb_n = 0, hb_e = [], hb_last_ms = 0\<rparr>"

definition hist_buf_clear :: "hist_buf \<Rightarrow> hist_buf" where
  "hist_buf_clear b = b\<lparr>hb_e := [], hb_alloc := 0, hb_head := 0, hb_n := 0\<rparr>"

definition hist_buf_add :: "int \<Rightarrow> hist_entry \<Rightarrow> hist_buf \<Rightarrow> hist_buf" where
  "hist_buf_add cap entry b0 =
     (if cap \<le> 0 then b0
      else let b1 = (if hb_alloc b0 \<noteq> 0 \<and> int (hb_cap b0) \<noteq> cap then hist_buf_clear b0 else b0);
               b2 = b1\<lparr>hb_cap := nat cap\<rparr>;
               copy = entry_dup entry;
               b3 = (if hb_n b2 = hb_alloc b2 \<and> hb_alloc b2 < hb_cap b2 then
                       (let na = (if hb_alloc b2 \<noteq> 0 then hb_alloc b2 * 2 else 4);
                            na = (if na > hb_cap b2 then hb_cap b2 else na)
                        in b2\<lparr>hb_e := hb_e b2 @ replicate (na - hb_alloc b2) None, hb_alloc := na\<rparr>)
                     else b2);
               (idx, b4) = (if hb_n b3 = hb_cap b3
                            then (hb_head b3, b3\<lparr>hb_head := (hb_head b3 + 1) mod hb_cap b3\<rparr>)
                            else (hb_n b3, b3\<lparr>hb_n := hb_n b3 + 1\<rparr>))
      in b4\<lparr>hb_e := (hb_e b4)[idx := Some copy], hb_last_ms := he_ms copy\<rparr>)"

definition hist_buf_at :: "hist_buf \<Rightarrow> int \<Rightarrow> hist_entry option" where
  "hist_buf_at b i =
     (if hb_alloc b = 0 \<or> i < 0 \<or> i \<ge> int (hb_n b) then None
      else hb_e b ! ((hb_head b + nat i) mod hb_cap b))"

definition find_index :: "hist_buf \<Rightarrow> string \<Rightarrow> nat option" where
  "find_index b msgid =
     find (\<lambda>i. map_option he_msgid (hb_e b ! ((hb_head b + i) mod hb_cap b)) = Some msgid) (rev [0..<hb_n b])"

text \<open>The rest of \<open>history_remove_msgid\<close> once the index is known: the ring is laid out flat.\<close>

definition hist_buf_remove :: "nat \<Rightarrow> hist_buf \<Rightarrow> hist_buf" where
  "hist_buf_remove i b =
     (let flat = map (\<lambda>k. hb_e b ! ((hb_head b + k) mod hb_cap b)) (filter (\<lambda>k. k \<noteq> i) [0..<hb_n b])
      in b\<lparr>hb_e := flat @ drop (length flat) (hb_e b), hb_head := 0, hb_n := length flat\<rparr>)"

section \<open>The store\<close>

text \<open>\<open>srv->history\<close> is a uthash by key: a list of buffers in insertion order.\<close>

definition HIST_MAX_BUFFERS :: nat where "HIST_MAX_BUFFERS = 1000"

record hist_store =
  hs_bufs :: "hist_buf list"
  hs_dirty :: bool

definition history_get :: "hist_store \<Rightarrow> string \<Rightarrow> hist_buf option" where
  "history_get hs key = find (\<lambda>b. hb_key b = key) (hs_bufs hs)"

fun oldest_of :: "hist_buf option \<Rightarrow> hist_buf list \<Rightarrow> hist_buf option" where
  "oldest_of old [] = old"
| "oldest_of old (b # bs) =
     oldest_of (case old of None \<Rightarrow> Some b | Some w \<Rightarrow> if hb_last_ms b < hb_last_ms w then Some b else old) bs"

definition hash_del :: "string \<Rightarrow> hist_buf list \<Rightarrow> hist_buf list" where
  "hash_del key bs = filter (\<lambda>b. hb_key b \<noteq> key) bs"

definition history_add :: "string \<Rightarrow> int \<Rightarrow> hist_entry \<Rightarrow> hist_store \<Rightarrow> hist_store" where
  "history_add key cap entry hs =
     (let bufs = (case history_get hs key of
            Some b \<Rightarrow> map (\<lambda>c. if hb_key c = key then hist_buf_add cap entry c else c) (hs_bufs hs)
          | None \<Rightarrow>
              (let kept = (if length (hs_bufs hs) \<ge> HIST_MAX_BUFFERS then
                             (case oldest_of None (hs_bufs hs) of
                                Some w \<Rightarrow> hash_del (hb_key w) (hs_bufs hs)
                              | None \<Rightarrow> hs_bufs hs)
                           else hs_bufs hs)
               in kept @ [hist_buf_add cap entry (new_hist_buf key)]))
      in \<lparr>hs_bufs = bufs, hs_dirty = True\<rparr>)"

definition history_rename_channel :: "string \<Rightarrow> string \<Rightarrow> hist_store \<Rightarrow> hist_store" where
  "history_rename_channel oldname newname hs =
     (let ok = history_key_channel 160 oldname; nk = history_key_channel 160 newname
      in case history_get hs ok of
           None \<Rightarrow> hs
         | Some b \<Rightarrow>
             if ok = nk then hs
             else \<lparr>hs_bufs = hash_del ok (hash_del nk (hs_bufs hs)) @ [b\<lparr>hb_key := clip 160 nk\<rparr>], hs_dirty = True\<rparr>)"

definition history_find_msgid :: "string \<Rightarrow> string \<Rightarrow> hist_store \<Rightarrow> hist_entry option" where
  "history_find_msgid key msgid hs =
     (case history_get hs key of
        None \<Rightarrow> None
      | Some b \<Rightarrow> (case find_index b msgid of None \<Rightarrow> None | Some i \<Rightarrow> hist_buf_at b (int i)))"

definition history_remove_msgid :: "string \<Rightarrow> string \<Rightarrow> hist_store \<Rightarrow> bool \<times> hist_store" where
  "history_remove_msgid key msgid hs =
     (case history_get hs key of
        None \<Rightarrow> (False, hs)
      | Some b \<Rightarrow> (case find_index b msgid of
            None \<Rightarrow> (False, hs)
          | Some i \<Rightarrow> (True, \<lparr>hs_bufs = map (\<lambda>c. if hb_key c = key then hist_buf_remove i c else c) (hs_bufs hs),
                             hs_dirty = True\<rparr>)))"

section \<open>The contract\<close>

text \<open>A log that keeps its last messages, up to a cap.\<close>

locale bounded_log =
  fixes entries :: "'b \<Rightarrow> 'e list"
    and push :: "'e \<Rightarrow> 'b \<Rightarrow> 'b"
    and remove :: "nat \<Rightarrow> 'b \<Rightarrow> 'b"
    and stored :: "'e \<Rightarrow> 'e"
    and good :: "'b \<Rightarrow> bool"
    and cap :: nat
  assumes cap_pos: "0 < cap"
    and bounded: "good b \<Longrightarrow> length (entries b) \<le> cap"
    and push_good: "good b \<Longrightarrow> good (push e b)"
    and push_entries: "good b \<Longrightarrow>
      entries (push e b) = (if length (entries b) < cap then entries b else tl (entries b)) @ [stored e]"
    and remove_good: "good b \<Longrightarrow> good (remove i b)"
    and remove_entries: "good b \<Longrightarrow> i < length (entries b) \<Longrightarrow>
      entries (remove i b) = take i (entries b) @ drop (Suc i) (entries b)"
begin

definition last_n :: "'a list \<Rightarrow> 'a list" where
  "last_n xs = drop (length xs - cap) xs"

lemma last_n_snoc: "last_n (xs @ [x]) = (if length (last_n xs) < cap then last_n xs else tl (last_n xs)) @ [x]"
  using cap_pos by (auto simp: last_n_def drop_Suc [symmetric] tl_drop Suc_diff_le not_less)

lemma pushes:
  "good b \<Longrightarrow> entries b = last_n xs \<Longrightarrow>
     good (fold push es b) \<and> entries (fold push es b) = last_n (xs @ map stored es)"
proof (induction es arbitrary: b xs)
  case (Cons e es)
  have "entries (push e b) = last_n (xs @ [stored e])"
    using Cons.prems by (simp add: push_entries last_n_snoc)
  with Cons.IH [of "push e b" "xs @ [stored e]"] Cons.prems push_good show ?case by simp
qed simp

end

section \<open>The ring keeps the contract\<close>

definition ring_slot :: "hist_buf \<Rightarrow> nat \<Rightarrow> hist_entry option" where
  "ring_slot b i = hb_e b ! ((hb_head b + i) mod hb_cap b)"

definition ring_entries :: "hist_buf \<Rightarrow> hist_entry list" where
  "ring_entries b = map (\<lambda>i. the (ring_slot b i)) [0..<hb_n b]"

definition ring_ok :: "nat \<Rightarrow> hist_buf \<Rightarrow> bool" where
  "ring_ok cap b \<longleftrightarrow>
     length (hb_e b) = hb_alloc b \<and> hb_n b \<le> hb_alloc b \<and> hb_alloc b \<le> cap \<and>
     (hb_alloc b \<noteq> 0 \<longrightarrow> hb_cap b = cap) \<and>
     (hb_n b < cap \<longrightarrow> hb_head b = 0) \<and> (hb_head b < cap) \<and>
     (\<forall>i < hb_n b. ring_slot b i \<noteq> None)"

lemma ring_new: "0 < cap \<Longrightarrow> ring_ok cap (new_hist_buf key) \<and> ring_entries (new_hist_buf key) = []"
  by (simp add: ring_ok_def new_hist_buf_def ring_entries_def)

lemma length_ring_entries [simp]: "length (ring_entries b) = hb_n b"
  by (simp add: ring_entries_def)

text \<open>Adding to a ring that is not full: position \<open>n\<close> of a ring whose head is 0.\<close>

lemma ring_add_room:
  assumes "0 < cap" and ok: "ring_ok cap b" and n: "hb_n b < cap"
  shows "ring_ok cap (hist_buf_add (int cap) e b) \<and>
    ring_entries (hist_buf_add (int cap) e b) = ring_entries b @ [entry_dup e]"
proof -
  define na where "na = (if hb_n b = hb_alloc b then min (if hb_alloc b \<noteq> 0 then hb_alloc b * 2 else 4) cap else hb_alloc b)"
  define e1 where "e1 = hb_e b @ replicate (na - hb_alloc b) None"
  have na: "hb_n b < na" "na \<le> cap" "hb_alloc b \<le> na"
    using ok n assms(1) by (auto simp: na_def ring_ok_def)
  have nocl: "\<not> (hb_alloc b \<noteq> 0 \<and> int (hb_cap b) \<noteq> int cap)" using ok by (auto simp: ring_ok_def)
  define b2 where "b2 = hist_buf_add (int cap) e b"
  have b2: "hb_e b2 = e1[hb_n b := Some (entry_dup e)]" "hb_n b2 = Suc (hb_n b)" "hb_head b2 = 0"
    "hb_cap b2 = cap" "hb_alloc b2 = na"
  proof -
    have "hb_head b = 0" using ok n by (simp add: ring_ok_def)
    moreover have "hb_n b \<noteq> cap" using n by simp
    moreover have "hb_n b = hb_alloc b \<Longrightarrow> hb_alloc b < cap" using n by simp
    ultimately show "hb_e b2 = e1[hb_n b := Some (entry_dup e)]" "hb_n b2 = Suc (hb_n b)" "hb_head b2 = 0"
      "hb_cap b2 = cap" "hb_alloc b2 = na"
      using nocl assms(1) n by (auto simp: b2_def hist_buf_add_def Let_def na_def e1_def min_def)
  qed
  have len: "length e1 = na" using ok na by (simp add: e1_def ring_ok_def)
  have old: "ring_slot b2 i = ring_slot b i" if "i < hb_n b" for i
  proof -
    have "hb_alloc b \<noteq> 0" "hb_cap b = cap" "hb_head b = 0" "i < length (hb_e b)" "i < cap"
      using ok that n by (auto simp: ring_ok_def)
    with that show ?thesis by (simp add: ring_slot_def b2 e1_def nth_append)
  qed
  have new: "ring_slot b2 (hb_n b) = Some (entry_dup e)"
    using na len n by (simp add: ring_slot_def b2)
  have "ring_ok cap b2"
    using ok na len old new assms(1) n by (auto simp: ring_ok_def b2 less_Suc_eq)
  moreover have "ring_entries b2 = ring_entries b @ [entry_dup e]"
    using old new by (simp add: ring_entries_def b2)
  ultimately show ?thesis by (simp add: b2_def)
qed

text \<open>Adding to a full ring: the oldest slot is overwritten and the head moves on.\<close>

lemma ring_add_full:
  assumes "0 < cap" and ok: "ring_ok cap b" and n: "\<not> hb_n b < cap"
  shows "ring_ok cap (hist_buf_add (int cap) e b) \<and>
    ring_entries (hist_buf_add (int cap) e b) = tl (ring_entries b) @ [entry_dup e]"
proof -
  have f: "hb_n b = cap" "hb_alloc b = cap" "hb_cap b = cap" "length (hb_e b) = cap" "hb_head b < cap"
    using ok n assms(1) by (auto simp: ring_ok_def)
  define b2 where "b2 = hist_buf_add (int cap) e b"
  have b2: "hb_e b2 = (hb_e b)[hb_head b := Some (entry_dup e)]" "hb_n b2 = cap"
    "hb_head b2 = (hb_head b + 1) mod cap" "hb_cap b2 = cap" "hb_alloc b2 = cap"
    using f assms(1) by (simp_all add: b2_def hist_buf_add_def Let_def)
  have pos: "(hb_head b2 + i) mod cap = (hb_head b + Suc i) mod cap" for i
    unfolding b2 by (simp add: mod_add_left_eq)
  have old: "ring_slot b2 i = ring_slot b (Suc i)" if "Suc i < cap" for i
  proof -
    have "(hb_head b + Suc i) mod cap \<noteq> hb_head b"
    proof (cases "hb_head b + Suc i < cap")
      case False
      then have "(hb_head b + Suc i) mod cap = (hb_head b + Suc i - cap) mod cap" by (simp add: le_mod_geq)
      also have "\<dots> = hb_head b + Suc i - cap" using f that by (intro mod_less) simp
      finally show ?thesis using that False by simp
    qed simp
    then show ?thesis using f by (simp add: ring_slot_def b2(1,4) pos)
  qed
  have new: "ring_slot b2 (cap - 1) = Some (entry_dup e)"
  proof -
    have "(hb_head b2 + (cap - 1)) mod cap = hb_head b"
      unfolding pos using f assms(1) by simp
    then show ?thesis using f by (simp add: ring_slot_def b2(1,4) del: add_diff_assoc add_diff_assoc2)
  qed
  have all: "ring_slot b2 i \<noteq> None" if "i < cap" for i
  proof (cases "Suc i < cap")
    case True
    with old f ok show ?thesis by (auto simp: ring_ok_def)
  next
    case False
    with that have "i = cap - 1" by simp
    with new show ?thesis by simp
  qed
  have "ring_ok cap b2" using all f assms(1) by (simp add: ring_ok_def b2(2-5)) (simp add: b2(1))
  moreover have "ring_entries b2 = tl (ring_entries b) @ [entry_dup e]"
  proof (rule nth_equalityI)
    show "length (ring_entries b2) = length (tl (ring_entries b) @ [entry_dup e])" using f assms(1) by (simp add: b2)
    fix i assume "i < length (ring_entries b2)"
    then have i: "i < cap" by (simp add: b2)
    show "ring_entries b2 ! i = (tl (ring_entries b) @ [entry_dup e]) ! i"
    proof (cases "Suc i < cap")
      case True
      then show ?thesis using old [OF True] f i
        by (simp add: ring_entries_def b2(2) nth_append nth_tl del: upt_Suc)
    next
      case False
      with i have "i = cap - 1" by simp
      with new f i show ?thesis by (simp add: ring_entries_def b2(2) nth_append del: upt_Suc)
    qed
  qed
  ultimately show ?thesis by (simp add: b2_def)
qed

lemma ring_remove:
  assumes ok: "ring_ok cap b" and c: "0 < cap"
  shows "ring_ok cap (hist_buf_remove i b)"
    and "i < hb_n b \<Longrightarrow> ring_entries (hist_buf_remove i b) = take i (ring_entries b) @ drop (Suc i) (ring_entries b)"
proof -
  define ks where "ks = filter (\<lambda>k. k \<noteq> i) [0..<hb_n b]"
  define flat where "flat = map (ring_slot b) ks"
  define b2 where "b2 = hist_buf_remove i b"
  have b2: "hb_e b2 = flat @ drop (length flat) (hb_e b)" "hb_head b2 = 0" "hb_n b2 = length flat"
    "hb_alloc b2 = hb_alloc b" "hb_cap b2 = hb_cap b"
    by (simp_all add: b2_def hist_buf_remove_def Let_def flat_def ks_def ring_slot_def [abs_def])
  have lf: "length flat \<le> hb_n b"
    using length_filter_le [of "\<lambda>k. k \<noteq> i" "[0..<hb_n b]"] by (simp add: flat_def ks_def)
  have al: "hb_n b \<le> hb_alloc b" "length (hb_e b) = hb_alloc b" "hb_alloc b \<le> cap" using ok by (auto simp: ring_ok_def)
  have slot: "ring_slot b2 j = flat ! j" if "j < length flat" for j
  proof -
    have "hb_cap b = cap" using ok that lf al by (auto simp: ring_ok_def)
    with that lf al show ?thesis by (simp add: ring_slot_def b2 nth_append)
  qed
  have some: "flat ! j \<noteq> None" if "j < length flat" for j
  proof -
    have "ks ! j \<in> set ks" using that by (simp add: flat_def)
    then have "ks ! j < hb_n b" by (auto simp: ks_def)
    with ok that show ?thesis by (simp add: flat_def ring_ok_def)
  qed
  show "ring_ok cap (hist_buf_remove i b)"
    using ok lf al slot some c unfolding b2_def [symmetric] by (auto simp: ring_ok_def b2)
  have ents: "ring_entries b2 = map (\<lambda>k. the (ring_slot b k)) ks"
    by (rule nth_equalityI) (simp_all add: ring_entries_def b2 slot, simp_all add: flat_def)
  show "ring_entries (hist_buf_remove i b) = take i (ring_entries b) @ drop (Suc i) (ring_entries b)" if "i < hb_n b"
  proof -
    have "[0..<hb_n b] = [0..<i] @ i # [Suc i..<hb_n b]" using that upt_add_eq_append [of 0 i "hb_n b - i"] by (simp add: upt_conv_Cons)
    then have "ks = [0..<i] @ [Suc i..<hb_n b]" by (simp add: ks_def)
    then show ?thesis
      unfolding b2_def [symmetric] ents using that by (simp add: ring_entries_def take_map drop_map)
  qed
qed

interpretation ring: bounded_log ring_entries "hist_buf_add (int (Suc k))" hist_buf_remove entry_dup "ring_ok (Suc k)" "Suc k" for k
proof (unfold_locales)
  fix b e i
  assume b: "ring_ok (Suc k) b"
  show "length (ring_entries b) \<le> Suc k" using b by (simp add: ring_ok_def)
  show "ring_ok (Suc k) (hist_buf_add (int (Suc k)) e b)"
    using ring_add_room [OF _ b] ring_add_full [OF _ b] by blast
  show "ring_entries (hist_buf_add (int (Suc k)) e b) =
      (if length (ring_entries b) < Suc k then ring_entries b else tl (ring_entries b)) @ [entry_dup e]"
    using ring_add_room [OF _ b] ring_add_full [OF _ b] by (cases "hb_n b < Suc k") (simp_all del: of_nat_Suc)
  show "ring_ok (Suc k) (hist_buf_remove i b)" by (rule ring_remove(1) [OF b]) simp
  show "ring_entries (hist_buf_remove i b) = take i (ring_entries b) @ drop (Suc i) (ring_entries b)"
    if "i < length (ring_entries b)"
    using that by (intro ring_remove(2) [OF b]) simp_all
qed simp

definition last_messages :: "nat \<Rightarrow> hist_entry list \<Rightarrow> hist_entry list" where
  "last_messages cap es = drop (length es - cap) (map entry_dup es)"

text \<open>
  C33. The ring buffer refines "the last messages of the conversation": whatever is added to a
  fresh buffer under a depth of \<open>Suc k\<close>, growing and wrapping included, its slots read oldest
  first are exactly the last \<open>Suc k\<close> messages (with their fields cut to the field sizes), and
  \<open>hist_buf_at\<close> reads them by index.
\<close>

theorem ring_keeps_last:
  "let kept = last_messages (Suc k) es; b = fold (hist_buf_add (int (Suc k))) es (new_hist_buf key)
   in hb_n b = length kept \<and> length kept = min (length es) (Suc k) \<and>
      (\<forall>i. hist_buf_at b (int i) = (if i < length kept then Some (kept ! i) else None))"
proof -
  define kept where "kept = last_messages (Suc k) es"
  define b where "b = fold (hist_buf_add (int (Suc k))) es (new_hist_buf key)"
  have "ring_ok (Suc k) b \<and> ring_entries b = kept"
    using ring.pushes [of k "new_hist_buf key" "[]" es] ring_new [of "Suc k" key]
    unfolding b_def kept_def by (simp add: ring.last_n_def last_messages_def del: of_nat_Suc)
  then have ok: "ring_ok (Suc k) b" and ents: "ring_entries b = kept" by auto
  have n: "hb_n b = length kept" using ents length_ring_entries [of b] by simp
  have "hist_buf_at b (int i) = Some (kept ! i)" if "i < length kept" for i
  proof -
    have "hb_alloc b \<noteq> 0" "ring_slot b i \<noteq> None" using ok that n by (auto simp: ring_ok_def)
    moreover have "i < hb_n b" using that n by simp
    moreover have "kept ! i = the (ring_slot b i)"
      using \<open>i < hb_n b\<close> unfolding ents [symmetric] by (simp add: ring_entries_def)
    ultimately show ?thesis by (simp add: hist_buf_at_def ring_slot_def)
  qed
  moreover have "hist_buf_at b (int i) = None" if "\<not> i < length kept" for i
    using that n by (simp add: hist_buf_at_def)
  moreover have "length kept = min (length es) (Suc k)" by (auto simp: kept_def last_messages_def)
  ultimately have "hb_n b = length kept \<and> length kept = min (length es) (Suc k) \<and>
      (\<forall>i. hist_buf_at b (int i) = (if i < length kept then Some (kept ! i) else None))"
    using n by simp
  then show ?thesis unfolding Let_def kept_def b_def .
qed

section \<open>Keys and the store\<close>

lemma strcmp_gt_total: "a \<noteq> b \<Longrightarrow> strcmp_gt a b \<or> strcmp_gt b a"
proof (induction a b rule: strcmp_gt.induct)
  case (3 x a y b)
  then show ?case by (cases "x = y") (auto dest: nat_neq_iff [THEN iffD1] simp: nat_neq_iff [symmetric])
next
  case (1 b)
  then show ?case by (cases b) simp_all
qed simp_all

lemma strcmp_gt_asym: "strcmp_gt a b \<Longrightarrow> \<not> strcmp_gt b a"
  by (induction a b rule: strcmp_gt.induct) (auto split: if_splits)

lemma length_history_key_dm: "length (history_key_dm outsz a b) < outsz \<or> outsz = 0"
  by (auto simp: history_key_dm_def clip_def Let_def)

text \<open>
  Both sides of a private conversation are filed under one key, whichever of the two
  accounts speaks and however each is capitalised; a conversation key is told from a channel
  key by its first character.
\<close>

theorem history_key_dm_symmetric:
  assumes "irc_casefold 72 a' = irc_casefold 72 a" and "irc_casefold 72 b' = irc_casefold 72 b"
    and "irc_valid_channel chan n" and "1 < outsz"
  shows "history_key_dm outsz b' a' = history_key_dm outsz a b \<and> history_key_is_dm (history_key_dm outsz a b) \<and>
     \<not> history_key_is_dm (history_key_channel outsz chan)"
proof (intro conjI)
  let ?a = "irc_casefold 72 a" and ?b = "irc_casefold 72 b"
  show "history_key_dm outsz b' a' = history_key_dm outsz a b"
    using strcmp_gt_total [of ?a ?b] strcmp_gt_asym [of ?a ?b] strcmp_gt_asym [of ?b ?a]
    by (cases "?a = ?b") (auto simp: history_key_dm_def assms(1,2) Let_def)
  have "take 1 (clip outsz (SOH # x)) = [SOH]" for x
    using assms(4) by (cases "outsz - 1") (simp_all add: clip_def)
  then show "history_key_is_dm (history_key_dm outsz a b)"
    by (simp add: history_key_is_dm_def history_key_dm_def Let_def del: One_nat_def split: prod.splits)
  obtain rest where "chan = CHR ''#'' # rest"
    using assms(3) by (auto simp: irc_valid_channel_def split: list.splits)
  moreover have "c_tolower CHR ''#'' = CHR ''#''" by code_simp
  ultimately show "\<not> history_key_is_dm (history_key_channel outsz chan)"
    by (cases "outsz - 1") (simp_all add: history_key_is_dm_def history_key_channel_def irc_casefold_def)
qed

theorem history_key_dm_symmetric_witness:
  "history_key_dm 160 ''Bob'' ''ALICE'' = history_key_dm 160 ''alice'' ''bob'' \<and>
   history_key_is_dm (history_key_dm 160 ''alice'' ''bob'') \<and>
   \<not> history_key_is_dm (history_key_channel 160 ''#chan'')"
  by (rule history_key_dm_symmetric [of "''ALICE''" "''alice''" "''Bob''" "''bob''" "''#chan''" 50]; code_simp)

text \<open>The invariant of the store: one buffer per key, at most \<open>HIST_MAX_BUFFERS\<close>, every ring well formed.\<close>

definition buf_ok :: "hist_buf \<Rightarrow> bool" where
  "buf_ok b \<longleftrightarrow> length (hb_key b) < 160 \<and>
     (if hb_alloc b = 0 then hb_n b = 0 \<and> hb_e b = [] \<and> hb_head b = 0 else 0 < hb_cap b \<and> ring_ok (hb_cap b) b)"

definition store_ok :: "hist_store \<Rightarrow> bool" where
  "store_ok hs \<longleftrightarrow> distinct (map hb_key (hs_bufs hs)) \<and> length (hs_bufs hs) \<le> HIST_MAX_BUFFERS \<and>
     (\<forall>b \<in> set (hs_bufs hs). buf_ok b)"

lemma hist_buf_add_key [simp]: "hb_key (hist_buf_add cap e b) = hb_key b"
  by (simp add: hist_buf_add_def hist_buf_clear_def Let_def)

lemma hist_buf_remove_key [simp]: "hb_key (hist_buf_remove i b) = hb_key b"
  by (simp add: hist_buf_remove_def Let_def)

lemma buf_ok_cleared:
  "buf_ok b \<Longrightarrow> 0 < cap \<Longrightarrow> \<exists>c. ring_ok cap c \<and> hb_key c = hb_key b \<and> hist_buf_add (int cap) e c = hist_buf_add (int cap) e b"
proof (cases "hb_alloc b = 0 \<or> hb_cap b = cap")
  case True
  then show "buf_ok b \<Longrightarrow> 0 < cap \<Longrightarrow> ?thesis" by (intro exI [of _ b]) (cases "hb_alloc b = 0"; auto simp: buf_ok_def ring_ok_def)
next
  case False
  then show "buf_ok b \<Longrightarrow> 0 < cap \<Longrightarrow> ?thesis"
    by (intro exI [of _ "hist_buf_clear b"]) (simp add: ring_ok_def hist_buf_clear_def hist_buf_add_def)
qed

lemma buf_ok_add:
  assumes "buf_ok b"
  shows "buf_ok (hist_buf_add cap e b)"
    and "0 < cap \<Longrightarrow> \<exists>n. hb_n (hist_buf_add cap e b) = Suc n \<and>
      ring_slot (hist_buf_add cap e b) n = Some (entry_dup e)"
proof -
  have *: "buf_ok (hist_buf_add cap e b) \<and> (\<exists>n. hb_n (hist_buf_add cap e b) = Suc n \<and>
      ring_slot (hist_buf_add cap e b) n = Some (entry_dup e))" if pos: "0 < cap"
  proof -
    define k where "k = nat cap"
    have k: "cap = int k" "0 < k" using pos by (simp_all add: k_def)
    obtain c where c: "ring_ok k c" "hb_key c = hb_key b" "hist_buf_add cap e c = hist_buf_add cap e b"
      using buf_ok_cleared [OF assms k(2)] unfolding k(1) by blast
    define d where "d = hist_buf_add cap e c"
    obtain xs where d: "ring_ok k d" "ring_entries d = xs @ [entry_dup e]"
      using ring_add_room [OF k(2) c(1)] ring_add_full [OF k(2) c(1)] unfolding d_def k(1) by blast
    have n: "hb_n d = Suc (length xs)" using arg_cong [OF d(2), of length] by simp
    have "ring_entries d ! length xs = entry_dup e" using d(2) by simp
    then have slot: "ring_slot d (length xs) = Some (entry_dup e)"
      using d(1) n by (auto simp: ring_entries_def ring_ok_def simp del: upt_Suc)
    have "length (hb_key d) < 160" using assms c(2) by (simp add: d_def buf_ok_def)
    then have "buf_ok d" using d(1) n k(2) by (auto simp: buf_ok_def ring_ok_def)
    with slot n show ?thesis unfolding c(3) [symmetric] d_def [symmetric] by blast
  qed
  show "buf_ok (hist_buf_add cap e b)"
    using * assms by (cases "0 < cap") (auto simp: hist_buf_add_def)
  show "0 < cap \<Longrightarrow> \<exists>n. hb_n (hist_buf_add cap e b) = Suc n \<and>
      ring_slot (hist_buf_add cap e b) n = Some (entry_dup e)" using * by blast
qed

lemma buf_ok_remove: "buf_ok b \<Longrightarrow> i < hb_n b \<Longrightarrow> buf_ok (hist_buf_remove i b)"
  using ring_remove(1) [of "hb_cap b" b i]
  by (auto simp: buf_ok_def hist_buf_remove_def Let_def)

lemma buf_ok_new: "length key < 160 \<Longrightarrow> buf_ok (new_hist_buf key)"
  by (simp add: buf_ok_def new_hist_buf_def clip_def)

lemma oldest_of_in: "oldest_of old bs = Some w \<Longrightarrow> w \<in> set bs \<or> old = Some w"
  by (induction bs arbitrary: old) (fastforce split: option.splits if_splits)+

lemma oldest_of_None: "oldest_of old bs = None \<Longrightarrow> bs = []"
proof -
  have *: "oldest_of (Some w) bs = None \<longleftrightarrow> False" for w and bs :: "hist_buf list"
    by (induction bs arbitrary: w) simp_all
  show "oldest_of old bs = None \<Longrightarrow> bs = []" by (cases bs; cases old) (simp_all add: * split: if_splits)
qed

lemma history_get_None: "history_get hs key = None \<longleftrightarrow> key \<notin> hb_key ` set (hs_bufs hs)"
  by (auto simp: history_get_def find_None_iff)

lemma history_get_Some: "history_get hs key = Some b \<Longrightarrow> b \<in> set (hs_bufs hs) \<and> hb_key b = key"
  by (auto simp: history_get_def find_Some_iff)

lemma hash_del_distinct: "distinct (map hb_key bs) \<Longrightarrow> distinct (map hb_key (hash_del k bs))"
  by (simp add: hash_del_def distinct_map_filter)

lemma hash_del_subset: "set (hash_del k bs) \<subseteq> set bs" by (auto simp: hash_del_def)

lemma hash_del_shorter: "w \<in> set bs \<Longrightarrow> length (hash_del (hb_key w) bs) < length bs"
  by (auto simp: hash_del_def intro: length_filter_less)

lemma map_key_cong: "(\<And>c. hb_key (f c) = hb_key c) \<Longrightarrow> map hb_key (map (\<lambda>c. if P c then f c else c) bs) = map hb_key bs"
  by (induction bs) auto

text \<open>What becomes of the store once a new conversation needs a slot.\<close>

definition make_room :: "hist_buf list \<Rightarrow> hist_buf list" where
  "make_room bs = (if length bs \<ge> HIST_MAX_BUFFERS then
     (case oldest_of None bs of Some w \<Rightarrow> hash_del (hb_key w) bs | None \<Rightarrow> bs) else bs)"

lemma make_room_props:
  "length bs \<le> HIST_MAX_BUFFERS \<Longrightarrow> length (make_room bs) < HIST_MAX_BUFFERS"
  "set (make_room bs) \<subseteq> set bs"
  "distinct (map hb_key bs) \<Longrightarrow> distinct (map hb_key (make_room bs))"
proof -
  assume l: "length bs \<le> HIST_MAX_BUFFERS"
  show "length (make_room bs) < HIST_MAX_BUFFERS"
  proof (cases "oldest_of None bs")
    case None
    then have "bs = []" by (rule oldest_of_None)
    then show ?thesis by (simp add: make_room_def HIST_MAX_BUFFERS_def)
  next
    case (Some w)
    then have "w \<in> set bs" using oldest_of_in by fastforce
    then show ?thesis using l hash_del_shorter [of w bs] Some by (simp add: make_room_def)
  qed
next
  show "set (make_room bs) \<subseteq> set bs"
    using hash_del_subset by (auto simp: make_room_def split: option.splits)
  show "distinct (map hb_key bs) \<Longrightarrow> distinct (map hb_key (make_room bs))"
    using hash_del_distinct by (auto simp: make_room_def split: option.split)
qed

lemma history_add_eq:
  "hs_bufs (history_add key cap e hs) = (case history_get hs key of
     Some b \<Rightarrow> map (\<lambda>c. if hb_key c = key then hist_buf_add cap e c else c) (hs_bufs hs)
   | None \<Rightarrow> make_room (hs_bufs hs) @ [hist_buf_add cap e (new_hist_buf key)])"
  by (simp add: history_add_def make_room_def Let_def split: option.split)

lemma store_ok_add:
  assumes ok: "store_ok hs" and "length key < 160"
  shows "store_ok (history_add key cap e hs)"
proof (cases "history_get hs key")
  case None
  then have "key \<notin> hb_key ` set (make_room (hs_bufs hs))"
    using make_room_props(2) [of "hs_bufs hs"] by (auto simp: history_get_None)
  moreover have "hb_key (new_hist_buf key) = key" using assms(2) by (simp add: new_hist_buf_def clip_def)
  ultimately show ?thesis
    using ok make_room_props [of "hs_bufs hs"] buf_ok_add(1) [OF buf_ok_new [OF assms(2)]]
    by (auto simp: store_ok_def history_add_eq None)
next
  case (Some b)
  then show ?thesis using ok buf_ok_add(1)
    by (auto simp: store_ok_def history_add_eq map_key_cong simp del: map_map)
qed

lemma find_index_less: "find_index b msgid = Some i \<Longrightarrow> i < hb_n b"
proof -
  assume "find_index b msgid = Some i"
  then have "i \<in> set (rev [0..<hb_n b])" unfolding find_index_def find_Some_iff by (metis nth_mem)
  then show ?thesis by simp
qed

lemma store_ok_remove:
  assumes "store_ok hs"
  shows "store_ok (snd (history_remove_msgid key msgid hs))"
proof -
  have *: "buf_ok (hist_buf_remove i b)" if "history_get hs key = Some b" "find_index b msgid = Some i" for b i
    using that assms history_get_Some [of hs key b] find_index_less [of b msgid i]
    by (intro buf_ok_remove) (auto simp: store_ok_def)
  have "store_ok \<lparr>hs_bufs = map (\<lambda>c. if hb_key c = key then hist_buf_remove i c else c) (hs_bufs hs), hs_dirty = True\<rparr>"
    if "history_get hs key = Some b" "find_index b msgid = Some i" for b i
  proof -
    have "c = b" if "c \<in> set (hs_bufs hs)" "hb_key c = key" for c
      using that assms history_get_Some [OF \<open>history_get hs key = Some b\<close>]
      unfolding store_ok_def by (metis eq_key_imp_eq)
    moreover have "buf_ok (hist_buf_remove i b)" using *[OF that] .
    ultimately show ?thesis using assms by (auto simp: store_ok_def map_key_cong simp del: map_map)
  qed
  then show ?thesis using assms by (simp add: history_remove_msgid_def split: option.split)
qed

lemma store_ok_rename:
  assumes "store_ok hs"
  shows "store_ok (history_rename_channel oldname newname hs)"
proof -
  define ok where "ok = history_key_channel 160 oldname"
  define nk where "nk = history_key_channel 160 newname"
  define rest where "rest = hash_del ok (hash_del nk (hs_bufs hs))"
  have nk: "clip 160 nk = nk" "length nk < 160"
    by (simp_all add: nk_def history_key_channel_def irc_casefold_def clip_def)
  have rest: "distinct (map hb_key rest)" "set rest \<subseteq> set (hs_bufs hs)" "nk \<notin> hb_key ` set rest"
    using assms by (auto simp: rest_def hash_del_def store_ok_def distinct_map_filter)
  have "store_ok \<lparr>hs_bufs = rest @ [b\<lparr>hb_key := clip 160 nk\<rparr>], hs_dirty = True\<rparr>" if "history_get hs ok = Some b" for b
  proof -
    have b: "b \<in> set (hs_bufs hs)" "hb_key b = ok" using that history_get_Some by blast+
    have "length rest < length (hs_bufs hs)"
    proof -
      have "length (hash_del ok (hs_bufs hs)) < length (hs_bufs hs)" using hash_del_shorter [OF b(1)] b(2) by simp
      moreover have "length rest \<le> length (hash_del ok (hs_bufs hs))"
        unfolding rest_def hash_del_def filter_filter [symmetric]
        by (metis (no_types, lifting) filter_filter conj_commute filter_cong length_filter_le)
      ultimately show ?thesis by simp
    qed
    moreover have "buf_ok (b\<lparr>hb_key := nk\<rparr>)"
      using b(1) assms nk by (auto simp: store_ok_def buf_ok_def ring_ok_def ring_slot_def)
    ultimately show ?thesis using rest assms nk by (auto simp: store_ok_def)
  qed
  then show ?thesis using assms unfolding history_rename_channel_def Let_def ok_def [symmetric] nk_def [symmetric] rest_def [symmetric]
    by (auto split: option.split)
qed

lemma find_index_last:
  assumes "hb_n b = Suc n" and "ring_slot b n = Some e" and "he_msgid e = msgid"
  shows "find_index b msgid = Some n"
  using assms by (simp add: find_index_def ring_slot_def)

lemma find_after_add:
  assumes ok: "store_ok hs" and key: "length key < 160" and "0 < cap" and "length (he_msgid e) < 48"
  shows "history_find_msgid key (he_msgid e) (history_add key cap e hs) = Some (entry_dup e)"
proof -
  have ok': "store_ok (history_add key cap e hs)" by (rule store_ok_add [OF ok key])
  obtain b0 where b0: "buf_ok b0" "hb_key b0 = key" "hist_buf_add cap e b0 \<in> set (hs_bufs (history_add key cap e hs))"
  proof (cases "history_get hs key")
    case None
    then show ?thesis using that [of "new_hist_buf key"] buf_ok_new [OF key] key
      by (simp add: history_add_eq new_hist_buf_def clip_def)
  next
    case (Some b)
    then show ?thesis using that [of b] history_get_Some [OF Some] ok by (auto simp: history_add_eq store_ok_def)
  qed
  define d where "d = hist_buf_add cap e b0"
  obtain n where n: "hb_n d = Suc n" "ring_slot d n = Some (entry_dup e)"
    using buf_ok_add(2) [OF b0(1) assms(3), of e] unfolding d_def by blast
  have "history_get (history_add key cap e hs) key = Some d"
    using ok' b0 unfolding history_get_def d_def [symmetric]
    by (intro find_unique_key) (simp_all add: store_ok_def d_def)
  moreover have "find_index d (he_msgid e) = Some n"
    using assms(4) by (intro find_index_last [OF n]) (simp add: entry_dup_def)
  moreover have "hb_alloc d \<noteq> 0"
    using buf_ok_add(1) [OF b0(1), of cap e] n(1) unfolding d_def [symmetric] by (auto simp: buf_ok_def split: if_splits)
  ultimately show ?thesis using n by (simp add: history_find_msgid_def hist_buf_at_def ring_slot_def)
qed

datatype hist_op = Add_Entry string int hist_entry | Rename_Channel string string | Remove_Entry string string

fun history_op :: "hist_op \<Rightarrow> hist_store \<Rightarrow> hist_store" where
  "history_op (Add_Entry key cap e) hs = history_add (clip 160 key) cap e hs"
| "history_op (Rename_Channel oldname newname) hs = history_rename_channel oldname newname hs"
| "history_op (Remove_Entry key msgid) hs = snd (history_remove_msgid key msgid hs)"

text \<open>
  C34. Whatever is added, renamed and redacted, the store holds at most \<open>HIST_MAX_BUFFERS\<close>
  conversations, one per key, in rings that never exceed their depth; and a message just added
  (with a depth above zero) is found by its msgid, with its fields cut to the field sizes.
\<close>

theorem history_store_ok:
  assumes "length key < 160" and "0 < cap" and "length (he_msgid e) < 48"
  shows "let hs = fold history_op ops \<lparr>hs_bufs = [], hs_dirty = d\<rparr>
    in store_ok hs \<and> history_find_msgid key (he_msgid e) (history_add key cap e hs) = Some (entry_dup e)"
proof -
  have "store_ok (fold history_op ops hs)" if "store_ok hs" for hs
    using that
  proof (induction ops arbitrary: hs)
    case (Cons x ops)
    then show ?case using store_ok_add store_ok_remove store_ok_rename by (cases x) (auto simp: clip_def)
  qed simp
  moreover have "store_ok \<lparr>hs_bufs = [], hs_dirty = d\<rparr>" by (simp add: store_ok_def)
  ultimately have "store_ok (fold history_op ops \<lparr>hs_bufs = [], hs_dirty = d\<rparr>)" by blast
  then show ?thesis using find_after_add [OF _ assms] by (simp add: Let_def)
qed

theorem history_store_ok_witness:
  "let e = \<lparr>he_ms = 1, he_msgid = ''m1'', he_sender = ''a!b@c'', he_account = ''a'', he_verb = ''PRIVMSG'', he_target = ''#c'', he_text = ''hi''\<rparr>;
       hs = fold history_op [Add_Entry ''#c'' 2 e, Rename_Channel ''#c'' ''#d''] \<lparr>hs_bufs = [], hs_dirty = False\<rparr>
   in store_ok hs \<and> history_find_msgid ''#c'' ''m1'' (history_add ''#c'' 2 e hs) = Some (entry_dup e)"
  using history_store_ok [of "''#c''" 2 "\<lparr>he_ms = 1, he_msgid = ''m1'', he_sender = ''a!b@c'', he_account = ''a'', he_verb = ''PRIVMSG'', he_target = ''#c'', he_text = ''hi''\<rparr>"
    "[Add_Entry ''#c'' 2 \<lparr>he_ms = 1, he_msgid = ''m1'', he_sender = ''a!b@c'', he_account = ''a'', he_verb = ''PRIVMSG'', he_target = ''#c'', he_text = ''hi''\<rparr>, Rename_Channel ''#c'' ''#d'']" False]
  by (simp add: Let_def)

end
