(* ===== verification/Calendar.thy ===== *)
theory Calendar
  imports Prelude "HOL-Library.Signed_Division"
begin

text \<open>
  Time stamps (src/src/proto.c, format_expiry of src/src/cmd_oper.c): epoch milliseconds to and
  from \<open>YYYY-MM-DDThh:mm:ss.sssZ\<close>. \<open>gmtime_r\<close> and \<open>sscanf\<close> are those of the C library: the
  proleptic Gregorian calendar counted year by year from 1970, and \<open>%d\<close> reading what \<open>strtol\<close>
  reads, cut to 32 bits.
\<close>

section \<open>The calendar of gmtime\<close>

definition leap :: "int \<Rightarrow> bool" where
  "leap y \<longleftrightarrow> y mod 4 = 0 \<and> (y mod 100 \<noteq> 0 \<or> y mod 400 = 0)"

definition year_days :: "int \<Rightarrow> int" where
  "year_days y = (if leap y then 366 else 365)"

definition month_days :: "int \<Rightarrow> int list" where
  "month_days y = [31, if leap y then 29 else 28, 31, 30, 31, 30, 31, 31, 30, 31, 30, 31]"

function split_year :: "int \<Rightarrow> int \<Rightarrow> int \<times> int" where
  "split_year y d =
     (if d < 0 then split_year (y - 1) (d + year_days (y - 1))
      else if d \<ge> year_days y then split_year (y + 1) (d - year_days y) else (y, d))"
  by pat_completeness auto
termination
  by (relation "measure (\<lambda>(y, d). nat (if d < 0 then 400 - d else d))") (auto simp: year_days_def split: if_splits)

declare split_year.simps [simp del]

fun split_month :: "int list \<Rightarrow> int \<Rightarrow> int \<Rightarrow> int \<times> int" where
  "split_month [] m d = (m, d + 1)"
| "split_month (l # ls) m d = (if d < l then (m, d + 1) else split_month ls (m + 1) (d - l))"

record tm =
  tm_year :: int
  tm_mon :: int
  tm_mday :: int
  tm_hour :: int
  tm_min :: int
  tm_sec :: int

text \<open>With the full year and the month counted from 1.\<close>

definition gmtime :: "int \<Rightarrow> tm" where
  "gmtime t =
     (let (y, yd) = split_year 1970 (t div 86400); (m, d) = split_month (month_days y) 1 yd; s = t mod 86400
      in \<lparr>tm_year = y, tm_mon = m, tm_mday = d, tm_hour = s div 3600, tm_min = s div 60 mod 60, tm_sec = s mod 60\<rparr>)"

text \<open>\<open>\%0wd\<close>, of a number that may be negative.\<close>

definition pad_int :: "nat \<Rightarrow> int \<Rightarrow> string" where
  "pad_int w i = (if i < 0 then CHR ''-'' # show_pad (w - 1) (nat (- i)) else show_pad w (nat i))"

section \<open>The operations\<close>

definition stamp :: "tm \<Rightarrow> int \<Rightarrow> string" where
  "stamp t ms = pad_int 4 (tm_year t) @ ''-'' @ pad_int 2 (tm_mon t) @ ''-'' @ pad_int 2 (tm_mday t) @ ''T'' @
     pad_int 2 (tm_hour t) @ '':'' @ pad_int 2 (tm_min t) @ '':'' @ pad_int 2 (tm_sec t) @ ''.'' @ pad_int 3 ms @ ''Z''"

definition irc_iso8601_from_ms :: "nat \<Rightarrow> int \<Rightarrow> string" where
  "irc_iso8601_from_ms outsz ms = clip outsz (stamp (gmtime (ms sdiv 1000)) (ms smod 1000))"

text \<open>
  The clock reads \<open>sec\<close> seconds and \<open>nsec\<close> nanoseconds. The cache is the last second, the last
  millisecond and the text formatted for them.
\<close>

definition irc_iso8601_now :: "int \<Rightarrow> int \<Rightarrow> nat \<Rightarrow> int \<times> int \<times> string \<Rightarrow> string \<times> (int \<times> int \<times> string)" where
  "irc_iso8601_now sec nsec outsz cache =
     (let ms = nsec sdiv 1000000;
          cache' = (if sec \<noteq> fst cache \<or> ms \<noteq> fst (snd cache) then (sec, ms, clip 32 (stamp (gmtime sec) ms)) else cache)
      in (clip outsz (snd (snd cache')), cache'))"

definition format_expiry :: "int \<Rightarrow> nat \<Rightarrow> string" where
  "format_expiry t outsz =
     (let g = gmtime t
      in clip outsz (pad_int 4 (tm_year g) @ ''-'' @ pad_int 2 (tm_mon g) @ ''-'' @ pad_int 2 (tm_mday g) @ '' '' @
           pad_int 2 (tm_hour g) @ '':'' @ pad_int 2 (tm_min g) @ '':'' @ pad_int 2 (tm_sec g) @ '' UTC''))"

definition scan_d :: "string \<Rightarrow> (int \<times> string) option" where
  "scan_d s = map_option (\<lambda>(v, e). (sint (word_of_int v :: 32 word), e)) (strtol s)"

text \<open>Numbers with one separator after each but the last: those read, and the rest when all were.\<close>

fun scan_fields :: "string \<Rightarrow> string \<Rightarrow> int list \<times> string option" where
  "scan_fields seps s =
     (case scan_d s of
        None \<Rightarrow> ([], None)
      | Some (v, e) \<Rightarrow>
          (case seps of
             [] \<Rightarrow> ([v], Some e)
           | c # cs \<Rightarrow> if take 1 e = [c] then (let (vs, q) = scan_fields cs (drop 1 e) in (v # vs, q)) else ([v], None)))"

declare scan_fields.simps [simp del]

definition scan_count :: "int list \<times> string option \<Rightarrow> nat" where
  "scan_count r = length (fst r) + (case snd r of Some (z # e) \<Rightarrow> 1 | _ \<Rightarrow> 0)"

definition days_from_civil :: "int \<Rightarrow> int \<Rightarrow> int \<Rightarrow> int" where
  "days_from_civil Y M D =
     (let y = Y - (if M \<le> 2 then 1 else 0);
          era = (if y \<ge> 0 then y else y - 399) sdiv 400;
          yoe = y - era * 400;
          doy = (153 * (M + (if M > 2 then - 3 else 9)) + 2) sdiv 5 + D - 1;
          doe = yoe * 365 + yoe sdiv 4 - yoe sdiv 100 + doy
      in era * 146097 + doe - 719468)"

definition irc_parse_iso8601_ms :: "string \<Rightarrow> int" where
  "irc_parse_iso8601_ms s =
     (let r1 = scan_fields ''--T::.'' s; n = scan_count r1;
          r2 = scan_fields ''--T::'' s
      in if n = 7 \<and> last s \<noteq> CHR ''Z'' then - 1
         else if n < 7 \<and> scan_count r2 \<noteq> 7 then - 1
         else let v = (if n < 7 then fst r2 @ [0] else fst r1);
                  Y = v ! 0; M = v ! 1; D = v ! 2; h = v ! 3; m = v ! 4; sec = v ! 5; msec = v ! 6
              in if M < 1 \<or> M > 12 \<or> D < 1 \<or> D > 31 \<or> h > 23 \<or> m > 59 \<or> sec > 60 \<or> msec < 0 \<or> msec > 999 then - 1
                 else ((days_from_civil Y M D * 24 + h) * 60 + m) * 60000 + sec * 1000 + msec)"

section \<open>The civil-days formula counts the days of the calendar\<close>

lemma div_eqI: "a = b * q + r \<Longrightarrow> 0 \<le> r \<Longrightarrow> r < b \<Longrightarrow> a div b = (q :: int)"
  by (rule int_div_pos_eq)

lemma floor_by_sdiv: "(if y \<ge> 0 then y else y - 399) sdiv 400 = (y :: int) div 400"
proof (cases "0 \<le> y")
  case False
  have "(399 - y) div 400 = - (y div 400)"
    by (rule div_eqI [of _ _ _ "399 - y mod 400"]) (use mult_div_mod_eq [of 400 y] pos_mod_sign [of 400 y] pos_mod_bound [of 400 y] in linarith)+
  moreover have "(y - 399) sdiv 400 = - ((399 - y) div 400)" using False by (simp add: signed_divide_int_def sgn_if abs_if)
  ultimately show ?thesis using False by simp
qed (simp add: signed_divide_int_def sgn_if)

lemma div_of_400:
  assumes "y = 400 * e + (r :: int)"
  shows "y div 4 = 100 * e + r div 4" and "y div 100 = 4 * e + r div 100"
  using assms
  by (intro div_eqI [of _ _ _ "r mod 4"] div_eqI [of _ _ _ "r mod 100"]; simp add: algebra_simps)+

lemma days_from_civil_floor:
  assumes "1 \<le> M" and "M \<le> 12" and "1 \<le> D"
  shows "days_from_civil Y M D = (let y = Y - (if M \<le> 2 then 1 else 0) in
    365 * y + y div 4 - y div 100 + y div 400 + (153 * (M + (if M > 2 then - 3 else 9)) + 2) div 5 + D - 719469)"
proof -
  define y where "y = Y - (if M \<le> 2 then 1 else 0)"
  define yoe where "yoe = y mod 400"
  note era = floor_by_sdiv [of y]
  have yo: "y - y div 400 * 400 = yoe" unfolding yoe_def by (rule minus_div_mult_eq_mod)
  have b: "0 \<le> yoe" by (simp add: yoe_def)
  have y: "y = 400 * (y div 400) + yoe" unfolding yoe_def by (rule mult_div_mod_eq [symmetric])
  have "y div 4 = 100 * (y div 400) + yoe div 4" "y div 100 = 4 * (y div 400) + yoe div 100"
    by (rule div_of_400 [OF y])+
  moreover have "yoe sdiv 4 = yoe div 4" "yoe sdiv 100 = yoe div 100"
    using b by (simp_all add: signed_divide_int_def sgn_if)
  moreover have "(153 * (M + (if M > 2 then - 3 else 9)) + 2) sdiv 5 = (153 * (M + (if M > 2 then - 3 else 9)) + 2) div 5"
    using assms by (simp add: signed_divide_int_def sgn_if)
  ultimately show ?thesis
    unfolding days_from_civil_def y_def [symmetric] Let_def era yo
    using y by linarith
qed

lemma div_pred:
  fixes y :: int
  assumes "1 < n"
  shows "y div n - (y - 1) div n = (if y mod n = 0 then 1 else 0)"
proof (cases "y mod n = 0")
  case True
  have "(y - 1) div n = y div n - 1"
    by (rule div_eqI [of _ _ _ "n - 1"]) (use True assms mult_div_mod_eq [of n y] in \<open>simp_all add: algebra_simps\<close>)
  with True show ?thesis by simp
next
  case False
  have "0 \<le> y mod n" "y mod n < n" using assms by simp_all
  then have "(y - 1) div n = y div n"
    by (intro div_eqI [of _ _ _ "y mod n - 1"]) (use False mult_div_mod_eq [of n y] in linarith)+
  with False show ?thesis by simp
qed

definition leaps :: "int \<Rightarrow> int" where
  "leaps y = y div 4 - y div 100 + y div 400"

lemma three_rules:
  "(C \<Longrightarrow> B) \<Longrightarrow> (B \<Longrightarrow> A) \<Longrightarrow>
   (if A \<and> (\<not> B \<or> C) then 1 else 0) = (if A then 1 else 0) - (if B then 1 else 0) + (if C then 1 else (0 :: int))"
  by (cases A; cases B; cases C; simp)

lemma leaps_step: "leaps y = leaps (y - 1) + (if leap y then 1 else 0)"
proof -
  have "4 dvd (100 :: int)" "100 dvd (400 :: int)" by simp_all
  then have "y mod 100 = 0 \<Longrightarrow> y mod 4 = 0" "y mod 400 = 0 \<Longrightarrow> y mod 100 = 0"
    by (metis dvd_eq_mod_eq_0 dvd_trans)+
  then have "(if leap y then 1 else 0) = (if y mod 4 = 0 then 1 else 0) - (if y mod 100 = 0 then 1 else 0) +
      (if y mod 400 = 0 then 1 else (0 :: int))"
    unfolding leap_def by (intro three_rules) blast+
  also have "\<dots> = (y div 4 - (y - 1) div 4) - (y div 100 - (y - 1) div 100) + (y div 400 - (y - 1) div 400)"
    by (subst div_pred, simp)+ (rule refl)
  finally show ?thesis unfolding leaps_def by linarith
qed

definition new_year :: "int \<Rightarrow> int" where
  "new_year y = 365 * (y - 1) + leaps (y - 1) - 719162"

lemma new_year_Suc: "new_year (y + 1) = new_year y + year_days y"
  using leaps_step [of y] by (simp add: new_year_def year_days_def split: if_splits)

lemma split_year_correct:
  "split_year y d = (y', d') \<Longrightarrow> 0 \<le> d' \<and> d' < year_days y' \<and> new_year y + d = new_year y' + d'"
proof (induction y d rule: split_year.induct)
  case (1 y d)
  show ?case
  proof (cases "d < 0")
    case True
    then show ?thesis using 1 new_year_Suc [of "y - 1"] by (simp add: split_year.simps [of y d])
  next
    case False
    then show ?thesis using 1 new_year_Suc [of y]
      by (cases "d \<ge> year_days y") (simp_all add: split_year.simps [of y d])
  qed
qed

lemma split_month_correct:
  assumes "0 \<le> d" and "d < year_days y" and "split_month (month_days y) 1 d = (m, dd)"
  shows "1 \<le> m \<and> m \<le> 12 \<and> 1 \<le> dd \<and> dd \<le> 31 \<and> days_from_civil y m dd = new_year y + d"
proof -
  have "1 \<le> m \<and> m \<le> 12 \<and> 1 \<le> dd \<and> dd \<le> 31 \<and>
      (let y' = y - (if m \<le> 2 then 1 else 0) in
        365 * y' + leaps y' + (153 * (m + (if m > 2 then - 3 else 9)) + 2) div 5 + dd - 719469) = new_year y + d"
    using assms leaps_step [of y]
    by (cases "leap y") (simp_all add: month_days_def year_days_def new_year_def Let_def split: if_splits)
  then show ?thesis using days_from_civil_floor [of m dd y] by (simp add: Let_def leaps_def)
qed

lemma seconds_of_day:
  "a * 3600 + b * 60 + c = s \<Longrightarrow> t = 86400 * q + s \<Longrightarrow> ((q * 24 + a) * 60 + b) * 60 + c = (t :: int)"
  by (simp add: algebra_simps)

lemma gmtime_correct:
  "let g = gmtime t in 1 \<le> tm_mon g \<and> tm_mon g \<le> 12 \<and> 1 \<le> tm_mday g \<and> tm_mday g \<le> 31 \<and>
     0 \<le> tm_hour g \<and> tm_hour g \<le> 23 \<and> 0 \<le> tm_min g \<and> tm_min g \<le> 59 \<and> 0 \<le> tm_sec g \<and> tm_sec g \<le> 59 \<and>
     ((days_from_civil (tm_year g) (tm_mon g) (tm_mday g) * 24 + tm_hour g) * 60 + tm_min g) * 60 + tm_sec g = t"
proof -
  obtain y yd where sy: "split_year 1970 (t div 86400) = (y, yd)" by fastforce
  obtain m d where sm: "split_month (month_days y) 1 yd = (m, d)" by fastforce
  have "new_year 1970 = 0" by (simp add: new_year_def leaps_def)
  then have c: "0 \<le> yd" "yd < year_days y" "t div 86400 = new_year y + yd"
    using split_year_correct [OF sy] by simp_all
  have md: "1 \<le> m \<and> m \<le> 12 \<and> 1 \<le> d \<and> d \<le> 31 \<and> days_from_civil y m d = t div 86400"
    using split_month_correct [OF c(1,2) sm] c(3) by simp
  define s where "s = t mod 86400"
  have s: "0 \<le> s" "s < 86400" "t = 86400 * (t div 86400) + s" by (simp_all add: s_def)
  have h: "s div 3600 * 3600 + s div 60 mod 60 * 60 + s mod 60 = s"
  proof -
    have "s div 3600 = s div 60 div 60" by (simp add: zdiv_zmult2_eq)
    moreover have "s div 60 = 60 * (s div 60 div 60) + s div 60 mod 60" "s = 60 * (s div 60) + s mod 60" by simp_all
    ultimately show ?thesis by linarith
  qed
  moreover have "0 \<le> s div 3600" "s div 3600 \<le> 23" using s by simp_all
  moreover have "0 \<le> s div 60 mod 60" "s div 60 mod 60 \<le> 59" "0 \<le> s mod 60" "s mod 60 \<le> 59" by simp_all
  moreover have "gmtime t = \<lparr>tm_year = y, tm_mon = m, tm_mday = d, tm_hour = s div 3600, tm_min = s div 60 mod 60, tm_sec = s mod 60\<rparr>"
    by (simp only: gmtime_def sy sm s_def Let_def prod.case)
  moreover have "((t div 86400 * 24 + s div 3600) * 60 + s div 60 mod 60) * 60 + s mod 60 = t"
    by (rule seconds_of_day [OF h s(3)])
  ultimately show ?thesis using md by (simp only: Let_def tm.simps)
qed

lemma scan_d_pad:
  assumes "\<not> c_isdigit (hd (b @ [CHR 0x00]))" and "0 \<le> i" and "i < 2147483648"
  shows "scan_d (pad_int w i @ b) = Some (i, b)"
proof -
  have "c_isdigit (hd ((show_pad w (nat i) @ b) @ [CHR 0x00]))"
    using show_pad_digits [of w "nat i"] by (cases "show_pad w (nat i)") auto
  from strtol_digit [OF this] have "strtol (show_pad w (nat i) @ b) = Some (i, b)"
    using assms by (simp add: read_show_pad_append LONG_MAX_def)
  moreover have "sint (word_of_int i :: 32 word) = i"
    using assms by (simp add: sint_sbintrunc' signed_take_bit_int_eq_self)
  ultimately show ?thesis using assms by (simp add: scan_d_def pad_int_def)
qed

lemma scan_fields_pad:
  assumes "0 \<le> i" and "i < 2147483648" and "\<not> c_isdigit c"
  shows "scan_fields (c # seps) (pad_int w i @ c # b) = (let (vs, q) = scan_fields seps b in (i # vs, q))"
  using scan_d_pad [of "c # b" i w] assms by (simp add: scan_fields.simps [of "c # seps"])

lemma scan_fields_last:
  assumes "0 \<le> i" and "i < 2147483648" and "\<not> c_isdigit c"
  shows "scan_fields [] (pad_int w i @ c # b) = ([i], Some (c # b))"
  using scan_d_pad [of "c # b" i w] assms by (simp add: scan_fields.simps [of "[]"])

lemma parse_stamp:
  assumes "0 \<le> tm_year g" "tm_year g < 10000" "1 \<le> tm_mon g" "tm_mon g \<le> 12" "1 \<le> tm_mday g" "tm_mday g \<le> 31"
    "0 \<le> tm_hour g" "tm_hour g \<le> 23" "0 \<le> tm_min g" "tm_min g \<le> 59" "0 \<le> tm_sec g" "tm_sec g \<le> 59" "0 \<le> ms" "ms \<le> 999"
  shows "irc_parse_iso8601_ms (stamp g ms) =
    (((days_from_civil (tm_year g) (tm_mon g) (tm_mday g) * 24 + tm_hour g) * 60 + tm_min g) * 60 + tm_sec g) * 1000 + ms"
proof -
  have nd: "\<not> c_isdigit CHR ''-''" "\<not> c_isdigit CHR ''T''" "\<not> c_isdigit CHR '':''" "\<not> c_isdigit CHR ''.''" "\<not> c_isdigit CHR ''Z''"
    by (simp_all add: ctype_simps)
  have "scan_fields ''--T::.'' (stamp g ms) =
      ([tm_year g, tm_mon g, tm_mday g, tm_hour g, tm_min g, tm_sec g, ms], Some ''Z'')"
    using assms nd unfolding stamp_def append_Cons append_Nil
    by (simp add: scan_fields_pad scan_fields_last)
  then show ?thesis using assms by (simp add: irc_parse_iso8601_ms_def scan_count_def Let_def)
qed

lemma new_year_mono: "0 \<le> n \<Longrightarrow> new_year y + 365 * n \<le> new_year (y + n)"
proof (induction n rule: int_ge_induct)
  case (step n)
  have "new_year (y + (n + 1)) = new_year (y + n) + year_days (y + n)" using new_year_Suc [of "y + n"] by (simp add: add.assoc)
  then show ?case using step by (auto simp: year_days_def)
qed simp

lemma new_year_less: "y < y' \<Longrightarrow> new_year y + 365 \<le> new_year y'"
  using new_year_mono [of "y' - y" y] by simp

lemma gmtime_year:
  assumes "0 \<le> t" and "t < 253402300800"
  shows "1970 \<le> tm_year (gmtime t) \<and> tm_year (gmtime t) < 10000"
proof -
  obtain y yd where sy: "split_year 1970 (t div 86400) = (y, yd)" by fastforce
  have n: "new_year 1970 = 0" "new_year 10000 = 2932897" by (simp_all add: new_year_def leaps_def)
  have c: "0 \<le> yd" "yd < year_days y" "t div 86400 = new_year y + yd" using split_year_correct [OF sy] n by simp_all
  have t: "0 \<le> t div 86400" "t div 86400 < 2932897" using assms by simp_all
  have "yd < 366" using c(2) by (simp add: year_days_def split: if_splits)
  have "1970 \<le> y"
  proof (rule ccontr)
    assume "\<not> 1970 \<le> y"
    then have "new_year (y + 1) \<le> new_year 1970" using new_year_less [of "y + 1" 1970] by (cases "y + 1 = 1970") auto
    then show False using n c t new_year_Suc [of y] by simp
  qed
  moreover have "y < 10000"
  proof (rule ccontr)
    assume "\<not> y < 10000"
    then have "new_year 10000 \<le> new_year y" using new_year_less [of 10000 y] by (cases "y = 10000") auto
    then show False using n c t by simp
  qed
  ultimately show ?thesis by (simp add: gmtime_def sy Let_def split: prod.split)
qed

lemma length_show_nat_le: "n < 10 ^ k \<Longrightarrow> 0 < k \<Longrightarrow> length (show_nat n) \<le> k"
proof (induction n arbitrary: k rule: show_nat.induct)
  case (1 n)
  show ?case
  proof (cases "n < 10")
    case False
    with 1(2,3) obtain j where k: "k = Suc j" "0 < j" by (cases k; cases "k - 1") auto
    have "n div 10 < 10 ^ j" using 1(2) k by (simp add: less_mult_imp_div_less mult.commute)
    from "1.IH" [OF False this k(2)] show ?thesis using False k by (simp add: show_nat.simps [of n])
  qed (use 1 in \<open>simp add: show_nat.simps [of n]\<close>)
qed

lemma length_pad_int: "0 \<le> i \<Longrightarrow> i < 10 ^ w \<Longrightarrow> 0 < w \<Longrightarrow> length (pad_int w i) = w"
  using length_show_nat_le [of "nat i" w] by (simp add: pad_int_def show_pad_def nat_less_iff)

lemma length_stamp:
  assumes "0 \<le> tm_year g" "tm_year g < 10000" "0 \<le> tm_mon g" "tm_mon g < 100" "0 \<le> tm_mday g" "tm_mday g < 100"
    "0 \<le> tm_hour g" "tm_hour g < 100" "0 \<le> tm_min g" "tm_min g < 100" "0 \<le> tm_sec g" "tm_sec g < 100" "0 \<le> ms" "ms < 1000"
  shows "length (stamp g ms) = 24"
  using assms by (simp add: stamp_def length_pad_int)

text \<open>
  A time stamp the daemon writes is read back to the same millisecond, for every time from
  1970 up to the end of the year 9999: the civil-days formula of the parser is the inverse of
  the calendar of \<open>gmtime_r\<close>. The stamp is 24 characters long.
\<close>

theorem iso8601_roundtrip:
  assumes "0 \<le> ms" and "ms < 253402300800000" and "25 \<le> outsz"
  shows "irc_parse_iso8601_ms (irc_iso8601_from_ms outsz ms) = ms \<and> length (irc_iso8601_from_ms outsz ms) = 24"
proof -
  define g where "g = gmtime (ms div 1000)"
  have q: "ms sdiv 1000 = ms div 1000" "ms smod 1000 = ms mod 1000"
    using assms(1) by (simp_all add: signed_divide_int_def signed_modulo_int_def sgn_if)
  have b: "0 \<le> ms mod 1000" "ms mod 1000 < 1000" by simp_all
  have y: "1970 \<le> tm_year g \<and> tm_year g < 10000"
    unfolding g_def using assms by (intro gmtime_year) simp_all
  have c: "1 \<le> tm_mon g \<and> tm_mon g \<le> 12 \<and> 1 \<le> tm_mday g \<and> tm_mday g \<le> 31 \<and>
     0 \<le> tm_hour g \<and> tm_hour g \<le> 23 \<and> 0 \<le> tm_min g \<and> tm_min g \<le> 59 \<and> 0 \<le> tm_sec g \<and> tm_sec g \<le> 59 \<and>
     ((days_from_civil (tm_year g) (tm_mon g) (tm_mday g) * 24 + tm_hour g) * 60 + tm_min g) * 60 + tm_sec g = ms div 1000"
    using gmtime_correct [of "ms div 1000"] unfolding g_def Let_def .
  have len: "length (stamp g (ms mod 1000)) = 24" using y c b by (intro length_stamp) simp_all
  then have "irc_iso8601_from_ms outsz ms = stamp g (ms mod 1000)"
    using assms(3) by (simp add: irc_iso8601_from_ms_def g_def q)
  moreover have "irc_parse_iso8601_ms (stamp g (ms mod 1000)) = ms div 1000 * 1000 + ms mod 1000"
    using c y b by (subst parse_stamp) simp_all
  ultimately show ?thesis using len by simp
qed

theorem iso8601_roundtrip_witness:
  "irc_parse_iso8601_ms (irc_iso8601_from_ms 40 1700000000123) = 1700000000123"
  using iso8601_roundtrip [of 1700000000123 40] by simp

text \<open>
  The parser is not strict: what follows the milliseconds is not looked at, one or two
  digits behind the point are taken as milliseconds, negative hours and the 31st of any month are
  accepted.
\<close>

theorem iso8601_lenient:
  "irc_parse_iso8601_ms ''1970-01-01T00:00:00.000garbage'' = 0 \<and> irc_parse_iso8601_ms ''1970-01-01T00:00:00.5Z'' = 5 \<and>
   irc_parse_iso8601_ms ''1970-01-01T00:00:01rubbish'' = 1000 \<and> irc_parse_iso8601_ms ''1970-02-31T-5:00:00Z'' = 5252400000"
  by (intro conjI) (code_simp, code_simp, code_simp, code_simp)

end
