(* ===== verification/Klines.thy ===== *)
theory Klines
  imports Client Calendar
begin

text \<open>
  K-, G- and Z-lines, shuns and their exemptions (src/src/server.c, and the commands that set and
  lift them in src/src/cmd_oper.c): the list with its generation counter, what a line matches, the
  ban verdict at registration, the disconnection of clients a new line matches, and the shun
  verdict that is cached in the client. The file the lines are saved to is not modelled; it is
  written when \<open>kt_dirty\<close> is set. Notices to operators and to the caller, and what is told to the
  other servers, are outputs in the order they are sent.
\<close>

section \<open>The list\<close>

record kline =
  kl_mask :: string
  kl_reason :: string
  kl_set_by :: string
  kl_type :: string
  kl_expires :: int

record kline_table =
  kt_lines :: "kline list"
  kt_gen :: "32 word"
  kt_dirty :: bool

abbreviation line_is :: "char \<Rightarrow> string \<Rightarrow> bool" where
  "line_is c t \<equiv> take 1 t = [c]"

text \<open>An address, user or host that is NULL in the code is the empty string here.\<close>

definition server_line_mask_hits :: "inet \<Rightarrow> string \<Rightarrow> string \<Rightarrow> string \<Rightarrow> string \<Rightarrow> string \<Rightarrow> bool \<Rightarrow> bool" where
  "server_line_mask_hits I msk line_type ip user host ident_confirmed =
     (if ip \<noteq> [] \<and> irc_ip_mask_match I msk ip then True
      else if line_is CHR ''Z'' line_type then False
      else if ip \<noteq> [] \<and> CHR ''@'' \<in> set msk \<and> irc_host_mask_match I user ip msk then True
      else if host = [] then False
      else if irc_host_mask_match I user host msk then True
      else if user \<noteq> [] \<and> \<not> ident_confirmed \<and> hd user \<noteq> CHR ''~'' then
        irc_host_mask_match I (clip 66 (CHR ''~'' # user)) host msk
      else False)"

text \<open>\<open>time(NULL) + duration_secs\<close> in a 64-bit \<open>time_t\<close>; 0 is permanent.\<close>

definition line_expiry :: "int \<Rightarrow> int \<Rightarrow> int" where
  "line_expiry now duration = (if duration > 0 then wrap64 (now + duration) else 0)"

definition refresh_expiry :: "int \<Rightarrow> int \<Rightarrow> int" where
  "refresh_expiry newexp old = (if newexp = 0 \<or> old = 0 then 0 else if newexp > old then newexp else old)"

definition same_line :: "string \<Rightarrow> string \<Rightarrow> kline \<Rightarrow> bool" where
  "same_line msk line_type e \<longleftrightarrow> strcaseeq (kl_mask e) msk \<and> kl_type e = line_type"

fun refresh_line :: "string \<Rightarrow> string \<Rightarrow> int \<Rightarrow> kline list \<Rightarrow> kline list option" where
  "refresh_line msk line_type newexp [] = None"
| "refresh_line msk line_type newexp (e # es) =
     (if same_line msk line_type e then Some (e\<lparr>kl_expires := refresh_expiry newexp (kl_expires e)\<rparr> # es)
      else map_option (\<lambda>r. e # r) (refresh_line msk line_type newexp es))"

definition server_kline_add ::
  "int \<Rightarrow> string \<Rightarrow> string \<Rightarrow> string \<Rightarrow> string \<Rightarrow> int \<Rightarrow> kline_table \<Rightarrow> kline_table \<times> string list" where
  "server_kline_add now msk reason set_by line_type duration kt =
     (case refresh_line msk line_type (line_expiry now duration) (kt_lines kt) of
        Some ls \<Rightarrow> (\<lparr>kt_lines = ls, kt_gen = kt_gen kt + 1, kt_dirty = True\<rparr>, [])
      | None \<Rightarrow>
          (\<lparr>kt_lines = \<lparr>kl_mask = clip 256 msk, kl_reason = clip 256 reason, kl_set_by = clip 128 set_by,
                         kl_type = clip 2 line_type, kl_expires = line_expiry now duration\<rparr> # kt_lines kt,
            kt_gen = kt_gen kt + 1, kt_dirty = True\<rparr>,
           [clip 400 (set_by @ '' added '' @ line_type @ ''-Line '' @ [CHR 0x27] @ msk @ [CHR 0x27] @ '' ('' @ reason @ '')'')]))"

definition line_expired :: "int \<Rightarrow> kline \<Rightarrow> bool" where
  "line_expired now k \<longleftrightarrow> kl_expires k \<noteq> 0 \<and> kl_expires k \<le> now"

definition server_kline_prune_expired :: "int \<Rightarrow> kline_table \<Rightarrow> kline_table \<times> string list" where
  "server_kline_prune_expired now kt =
     (let dead = filter (line_expired now) (kt_lines kt);
          kt1 = kt\<lparr>kt_lines := filter (\<lambda>k. \<not> line_expired now k) (kt_lines kt)\<rparr>
      in (if dead \<noteq> [] then kt1\<lparr>kt_gen := kt_gen kt + 1, kt_dirty := True\<rparr> else kt1,
          map (\<lambda>k. clip 350 (''Expiring '' @ kl_type k @ ''-Line '' @ [CHR 0x27] @ kl_mask k @ [CHR 0x27] @ '' ('' @ kl_reason k @ '')'')) dead))"

text \<open>A type of \<open>None\<close> is the 0 that stands for any ban line.\<close>

fun unlink_line :: "char option \<Rightarrow> string \<Rightarrow> kline list \<Rightarrow> kline list option" where
  "unlink_line t msk [] = None"
| "unlink_line t msk (k # ks) =
     (if (case t of Some c \<Rightarrow> line_is c (kl_type k) | None \<Rightarrow> \<not> line_is CHR ''S'' (kl_type k) \<and> \<not> line_is CHR ''E'' (kl_type k))
         \<and> strcaseeq (kl_mask k) msk then Some ks
      else map_option (\<lambda>r. k # r) (unlink_line t msk ks))"

definition server_kline_remove_typed :: "string \<Rightarrow> char option \<Rightarrow> kline_table \<Rightarrow> bool \<times> kline_table \<times> string list" where
  "server_kline_remove_typed msk t kt =
     (case unlink_line t msk (kt_lines kt) of
        None \<Rightarrow> (False, kt, [])
      | Some ls \<Rightarrow> (True, \<lparr>kt_lines = ls, kt_gen = kt_gen kt + 1, kt_dirty = True\<rparr>,
                   [clip 350 (''removed line on '' @ [CHR 0x27] @ msk @ [CHR 0x27])]))"

definition server_kline_remove :: "string \<Rightarrow> kline_table \<Rightarrow> bool \<times> kline_table \<times> string list" where
  "server_kline_remove msk kt = server_kline_remove_typed msk None kt"

section \<open>Verdicts\<close>

fun eline_hits :: "inet \<Rightarrow> string \<Rightarrow> string \<Rightarrow> string \<Rightarrow> bool \<Rightarrow> kline list \<Rightarrow> bool" where
  "eline_hits I ip user host ident [] = False"
| "eline_hits I ip user host ident (e # es) =
     (line_is CHR ''E'' (kl_type e) \<and> server_line_mask_hits I (kl_mask e) ''K'' ip user host ident \<or>
      eline_hits I ip user host ident es)"

fun kline_scan :: "inet \<Rightarrow> string \<Rightarrow> string \<Rightarrow> string \<Rightarrow> bool \<Rightarrow> kline list \<Rightarrow> kline list \<Rightarrow> string option" where
  "kline_scan I ip user host ident all [] = None"
| "kline_scan I ip user host ident all (k # ks) =
     (if line_is CHR ''S'' (kl_type k) \<or> line_is CHR ''E'' (kl_type k) then kline_scan I ip user host ident all ks
      else if \<not> server_line_mask_hits I (kl_mask k) (kl_type k) ip user host ident then kline_scan I ip user host ident all ks
      else if \<not> line_is CHR ''Z'' (kl_type k) \<and> eline_hits I ip user host ident all then kline_scan I ip user host ident all ks
      else Some (clip 300 (kl_type k @ ''-Lined: '' @ kl_reason k)))"

definition server_kline_match :: "inet \<Rightarrow> kline_table \<Rightarrow> string \<Rightarrow> string \<Rightarrow> string \<Rightarrow> bool \<Rightarrow> string option" where
  "server_kline_match I kt ip user host ident = kline_scan I ip user host ident (kt_lines kt) (kt_lines kt)"

definition server_client_eline_exempt :: "inet \<Rightarrow> kline_table \<Rightarrow> client \<Rightarrow> bool" where
  "server_client_eline_exempt I kt c = eline_hits I (c_ip c) (c_user c) (c_realhost c) (c_ident_confirmed c) (kt_lines kt)"

text \<open>Whether the client is one of those a new line disconnects; \<open>except\<close> is a client, \<open>None\<close> for NULL.\<close>

definition enforce_hit :: "inet \<Rightarrow> kline_table \<Rightarrow> string \<Rightarrow> string \<Rightarrow> client_id option \<Rightarrow> client_id \<Rightarrow> client \<Rightarrow> bool" where
  "enforce_hit I kt msk line_type except i c \<longleftrightarrow>
     except \<noteq> Some i \<and> c_fd c \<ge> 0 \<and> \<not> c_quitting c \<and>
     server_line_mask_hits I msk line_type (c_ip c) (c_user c) (c_realhost c) (c_ident_confirmed c) \<and>
     (line_is CHR ''Z'' line_type \<or> \<not> server_client_eline_exempt I kt c)"

fun server_kline_enforce ::
  "inet \<Rightarrow> kline_table \<Rightarrow> string \<Rightarrow> string \<Rightarrow> string \<Rightarrow> client_id option \<Rightarrow> client_id list \<Rightarrow> evq \<Rightarrow> nat \<times> evq" where
  "server_kline_enforce I kt msk line_type reason except [] q = (0, q)"
| "server_kline_enforce I kt msk line_type reason except (i # is) q =
     (if enforce_hit I kt msk line_type except i (ev_client q i) then
        (let q1 = client_mark_quit i (ev_write q i ((ev_client q i)\<lparr>c_quit_reason := clip 256 reason\<rparr>));
             (n, q2) = server_kline_enforce I kt msk line_type reason except is q1
         in (Suc n, q2))
      else server_kline_enforce I kt msk line_type reason except is q)"

fun shun_hits :: "inet \<Rightarrow> client \<Rightarrow> kline list \<Rightarrow> bool" where
  "shun_hits I cl [] = False"
| "shun_hits I cl (k # ks) =
     (if line_is CHR ''S'' (kl_type k) \<and>
         server_line_mask_hits I (kl_mask k) ''K'' (c_ip cl) (c_user cl) (c_realhost cl) (c_ident_confirmed cl) then True
      else shun_hits I cl ks)"

definition server_is_shunned :: "inet \<Rightarrow> kline_table \<Rightarrow> client \<Rightarrow> bool \<times> client" where
  "server_is_shunned I kt cl =
     (let cl1 = (if c_shun_gen cl \<noteq> kt_gen kt + 1
                 then cl\<lparr>c_shun_gen := kt_gen kt + 1, c_shunned := shun_hits I cl (kt_lines kt)\<rparr> else cl)
      in (c_shunned cl1, cl1))"

section \<open>The commands\<close>

datatype line_output =
  Self string
| Snote string
| Net_Line char string string int string
| Net_Unline char string

definition zline_host :: "string \<Rightarrow> string \<Rightarrow> string" where
  "zline_host line_type m = (if line_is CHR ''Z'' line_type then (case split_rchr CHR ''@'' m of Some (u, h) \<Rightarrow> h | None \<Rightarrow> m) else m)"

text \<open>The mask a line is stored under, \<open>None\<close> when it is refused.\<close>

definition line_mask :: "inet \<Rightarrow> string \<Rightarrow> string \<Rightarrow> string option" where
  "line_mask I line_type param =
     (let maskbuf = zline_host line_type (clip 256 param);
          (front, hostpart) = (case split_rchr CHR ''@'' maskbuf of Some (u, h) \<Rightarrow> (u @ ''@'', h) | None \<Rightarrow> ([], maskbuf));
          slash = split_chr CHR ''/'' hostpart
      in if hostpart = ''*'' \<or> (case slash of Some (n, r) \<Rightarrow> atol r = 0 | None \<Rightarrow> False) then None
         else let net = (case slash of Some (n, r) \<Rightarrow> n | None \<Rightarrow> hostpart);
                  rest = (case slash of Some (n, r) \<Rightarrow> clip 64 (''/'' @ r) | None \<Rightarrow> [])
              in Some (front @
                   (if length net < 64 then
                      (case irc_ip_normalize I net 64 of
                         Some norm \<Rightarrow> if net \<noteq> norm then clip (256 - length front) (norm @ rest) else hostpart
                       | None \<Rightarrow> hostpart)
                    else hostpart)))"

definition list_line :: "kline \<Rightarrow> string" where
  "list_line k = clip 500 (kl_type k @ ''-line '' @ kl_mask k @ '' (by '' @ kl_set_by k @
     (if kl_expires k \<noteq> 0 then '', expires '' @ format_expiry (kl_expires k) 32 else '', permanent'') @ ''): '' @ kl_reason k)"

definition line_args :: "string list \<Rightarrow> int \<times> string" where
  "line_args params =
     (let d = (if 1 < length params then irc_parse_duration (params ! 1) else - 1);
          duration = (if d \<ge> 0 then d else 0);
          argi = (if d \<ge> 0 then 2 else 1)
      in (duration, if argi < length params then params ! argi else ''No reason given''))"

text \<open>The client \<open>i\<close> issues the command; \<open>all\<close> is the list of connections.\<close>

definition line_common ::
  "inet \<Rightarrow> int \<Rightarrow> client_id list \<Rightarrow> client_id \<Rightarrow> string list \<Rightarrow> string \<Rightarrow> kline_table \<Rightarrow> evq \<Rightarrow>
     kline_table \<times> evq \<times> line_output list" where
  "line_common I now all i params line_type kt0 q =
     (let (kt, expired) = server_kline_prune_expired now kt0;
          out0 = map Snote expired;
          cl = ev_client q i
      in if params = [] then
           (kt, q, out0 @ (if kt_lines kt = [] then [Self ''No active K/G/Z-lines''] else map (Self \<circ> list_line) (kt_lines kt)))
         else case line_mask I line_type (params ! 0) of
           None \<Rightarrow> (kt, q, out0 @ [Self (''Refusing to add a line matching every address (mask '' @ [CHR 0x27] @ ''*'' @ [CHR 0x27] @ '' or a /0)'')])
         | Some maskbuf \<Rightarrow>
             (let (duration, reason) = line_args params;
                  (kt1, sn) = server_kline_add now maskbuf reason (c_nick cl) line_type duration kt;
                  expires = line_expiry now duration;
                  net = (if line_is CHR ''G'' line_type then [Net_Line CHR ''G'' maskbuf (c_nick cl) expires reason] else []) @
                        (if line_is CHR ''S'' line_type then [Net_Line CHR ''S'' maskbuf (c_nick cl) expires reason] else []);
                  told = clip 400 (line_type @ ''-line added: '' @ maskbuf @ '' ('' @ reason @
                    (if duration \<noteq> 0 then '') [expires '' @ format_expiry (wrap64 (now + duration)) 32 @ '']'' else '') [permanent]''));
                  is_ban = (\<not> line_is CHR ''S'' line_type \<and> \<not> line_is CHR ''E'' line_type);
                  warn = (if is_ban \<and> server_line_mask_hits I maskbuf line_type (c_ip cl) (c_user cl) (c_realhost cl) (c_ident_confirmed cl)
                          then [Self ''Warning: this mask matches your own address -- you won't be able to reconnect from it while it's active'']
                          else []);
                  (n, q1) = (if is_ban then server_kline_enforce I kt1 maskbuf line_type
                                (clip 300 (line_type @ ''-Lined: '' @ reason)) (Some i) all q else (0, q))
              in (kt1, q1, out0 @ map Snote sn @ net @ [Self told] @ warn)))"

definition unline_typed :: "string \<Rightarrow> char option \<Rightarrow> kline_table \<Rightarrow> kline_table \<times> line_output list" where
  "unline_typed msk t kt =
     (case server_kline_remove_typed msk t kt of
        (ok, kt1, sn) \<Rightarrow> (kt1, map Snote sn @ [Self (clip 300 ((if ok then ''Removed line: '' else ''No such line: '') @ msk))]))"

text \<open>\<open>unline_common\<close> and the five commands that lift a line.\<close>

definition unline_common :: "string \<Rightarrow> kline_table \<Rightarrow> kline_table \<times> line_output list" where
  "unline_common msk kt =
     (case server_kline_remove msk kt of
        (ok, kt1, sn) \<Rightarrow> (kt1, map Snote sn @ [Self (clip 300 ((if ok then ''Removed line: '' else ''No such line: '') @ msk))]))"

definition cmd_unline :: "string \<Rightarrow> string \<Rightarrow> kline_table \<Rightarrow> kline_table \<times> line_output list" where
  "cmd_unline command msk kt =
     (if command = ''UNSHUN'' then (let (kt1, out) = unline_typed msk (Some CHR ''S'') kt in (kt1, out @ [Net_Unline CHR ''S'' msk]))
      else if command = ''UNELINE'' then unline_typed msk (Some CHR ''E'') kt
      else if command = ''UNGLINE'' then (let (kt1, out) = unline_typed msk (Some CHR ''G'') kt in (kt1, out @ [Net_Unline CHR ''G'' msk]))
      else unline_common msk kt)"

text \<open>TESTLINE; \<open>found\<close> is the registered user of that nick, if any.\<close>

definition testline_address :: "client option \<Rightarrow> string \<Rightarrow> string \<times> string \<times> string \<times> bool" where
  "testline_address found arg =
     (case found of
        Some t \<Rightarrow> (clip 64 (c_ip t), clip 64 (c_user t), clip 256 (c_realhost t), c_ident_confirmed t)
      | None \<Rightarrow>
          (case split_rchr CHR ''@'' arg of
             Some (u, h) \<Rightarrow> (clip 64 h, clip 64 u, clip 256 h, False)
           | None \<Rightarrow> (clip 64 arg, [], clip 256 arg, False)))"

definition cmd_testline :: "inet \<Rightarrow> int \<Rightarrow> client option \<Rightarrow> string \<Rightarrow> kline_table \<Rightarrow> kline_table \<times> line_output list" where
  "cmd_testline I now found arg kt0 =
     (let (kt, expired) = server_kline_prune_expired now kt0;
          (ip, user, host, ident) = testline_address found arg;
          hits = filter (\<lambda>k. server_line_mask_hits I (kl_mask k)
             (if line_is CHR ''S'' (kl_type k) \<or> line_is CHR ''E'' (kl_type k) then ''K'' else kl_type k) ip user host ident) (kt_lines kt)
      in (kt, map Snote expired @
            (if hits = [] then [Self ''No active line matches that address'']
             else map (\<lambda>k. Self (clip 500 (kl_type k @ ''-line '' @ kl_mask k @ '' (by '' @ kl_set_by k @ ''): '' @ kl_reason k))) hits)))"

section \<open>Refreshing never shortens a line\<close>

text \<open>The order of expiries: 0 is never.\<close>

definition lasts :: "int \<Rightarrow> int \<Rightarrow> bool" where
  "lasts a b \<longleftrightarrow> b = 0 \<or> (a \<noteq> 0 \<and> a \<le> b)"

definition line_key :: "kline \<Rightarrow> string \<times> string" where
  "line_key k = (map c_tolower (kl_mask k), kl_type k)"

definition keyed :: "kline_table \<Rightarrow> bool" where
  "keyed kt \<longleftrightarrow> distinct (map line_key (kt_lines kt))"

lemma same_line_key: "same_line msk t e \<longleftrightarrow> line_key e = (map c_tolower msk, t)"
  by (auto simp: same_line_def line_key_def strcaseeq_def)

lemma refresh_line_None: "refresh_line msk t x ls = None \<longleftrightarrow> (map c_tolower msk, t) \<notin> line_key ` set ls"
  by (induction ls) (auto simp: same_line_key)

lemma refresh_line_Some:
  "refresh_line msk t x ls = Some ls' \<Longrightarrow>
     \<exists>a e b. ls = a @ e # b \<and> ls' = a @ e\<lparr>kl_expires := refresh_expiry x (kl_expires e)\<rparr> # b \<and> same_line msk t e"
proof (induction ls arbitrary: ls')
  case (Cons y ys)
  show ?case
  proof (cases "same_line msk t y")
    case True
    with Cons.prems show ?thesis by (intro exI [of _ "[]"]) auto
  next
    case False
    with Cons.prems obtain r where r: "refresh_line msk t x ys = Some r" "ls' = y # r" by auto
    from Cons.IH [OF r(1)] obtain a e b where
      "ys = a @ e # b" "r = a @ e\<lparr>kl_expires := refresh_expiry x (kl_expires e)\<rparr> # b" "same_line msk t e" by blast
    with r show ?thesis by (intro exI [of _ "y # a"] exI [of _ e] exI [of _ b]) simp
  qed
qed simp

lemma line_key_expires [simp]: "line_key (k\<lparr>kl_expires := x\<rparr>) = line_key k"
  by (simp add: line_key_def)

text \<open>
  Setting a line keeps one entry per mask (in any capitalisation) and type; the entry then
  lasts at least as long as the caller asked for and at least as long as it did before, a
  permanent line stays permanent, and no other entry changes. A list with one entry per key
  stays such a list.
\<close>

theorem kline_add_keeps:
  assumes "keyed kt" and "length msk < 256" and "length t = 1"
  shows "let kt' = fst (server_kline_add now msk reason setter t duration kt) in
     keyed kt' \<and> kt_gen kt' = kt_gen kt + 1 \<and>
     (\<exists>e \<in> set (kt_lines kt'). line_key e = (map c_tolower msk, t) \<and> lasts (line_expiry now duration) (kl_expires e) \<and>
        (\<forall>f \<in> set (kt_lines kt). line_key f = line_key e \<longrightarrow> lasts (kl_expires f) (kl_expires e))) \<and>
     {f \<in> set (kt_lines kt'). line_key f \<noteq> (map c_tolower msk, t)} = {f \<in> set (kt_lines kt). line_key f \<noteq> (map c_tolower msk, t)}"
proof (cases "refresh_line msk t (line_expiry now duration) (kt_lines kt)")
  case None
  then have fresh: "\<forall>f \<in> set (kt_lines kt). line_key f \<noteq> (map c_tolower msk, t)" by (force simp: refresh_line_None)
  define e where "e = \<lparr>kl_mask = clip 256 msk, kl_reason = clip 256 reason, kl_set_by = clip 128 setter, kl_type = clip 2 t,
    kl_expires = line_expiry now duration\<rparr>"
  have key: "line_key e = (map c_tolower msk, t)" and x: "kl_expires e = line_expiry now duration"
    using assms by (simp_all add: e_def line_key_def)
  have "lasts y y" for y by (simp add: lasts_def)
  then show ?thesis using fresh key x assms(1) None
    by (auto simp: server_kline_add_def Let_def keyed_def e_def [symmetric])
next
  case (Some ls)
  from refresh_line_Some [OF this] obtain a e b where l: "kt_lines kt = a @ e # b"
    "ls = a @ e\<lparr>kl_expires := refresh_expiry (line_expiry now duration) (kl_expires e)\<rparr> # b" "same_line msk t e" by blast
  then have key: "line_key e = (map c_tolower msk, t)" by (simp add: same_line_key)
  have u: "f = e" if "f \<in> set (kt_lines kt)" "line_key f = line_key e" for f
    using eq_key_imp_eq [OF assms(1) [unfolded keyed_def] that(1)] that(2) l(1) by simp
  define x where "x = line_expiry now duration"
  define e' where "e' = e\<lparr>kl_expires := refresh_expiry x (kl_expires e)\<rparr>"
  have r: "lasts x (kl_expires e')" "lasts (kl_expires e) (kl_expires e')"
    by (auto simp: lasts_def refresh_expiry_def e'_def)
  have e': "line_key e' = (map c_tolower msk, t)" "ls = a @ e' # b" using key l(2) by (simp_all add: e'_def x_def)
  have old: "lasts (kl_expires f) (kl_expires e')" if "f \<in> set (kt_lines kt)" "line_key f = line_key e'" for f
    using u [OF that(1)] that(2) r(2) key e'(1) by simp
  have d: "distinct (map line_key ls)" using assms(1) l(1) key e' by (simp add: keyed_def)
  have others: "{f \<in> set ls. line_key f \<noteq> (map c_tolower msk, t)} = {f \<in> set (kt_lines kt). line_key f \<noteq> (map c_tolower msk, t)}"
    using l(1) key e' by auto
  have "\<exists>e \<in> set ls. line_key e = (map c_tolower msk, t) \<and> lasts x (kl_expires e) \<and>
      (\<forall>f \<in> set (kt_lines kt). line_key f = line_key e \<longrightarrow> lasts (kl_expires f) (kl_expires e))"
    using e' r(1) old by (intro bexI [of _ e']) auto
  moreover have "fst (server_kline_add now msk reason setter t duration kt) = \<lparr>kt_lines = ls, kt_gen = kt_gen kt + 1, kt_dirty = True\<rparr>"
    using Some by (simp add: server_kline_add_def)
  ultimately show ?thesis using d others unfolding x_def [symmetric] Let_def keyed_def by simp
qed

theorem kline_add_keeps_witness:
  "let kt = \<lparr>kt_lines = [\<lparr>kl_mask = ''*@Evil.example'', kl_reason = ''spam'', kl_set_by = ''op'', kl_type = ''K'', kl_expires = 0\<rparr>],
             kt_gen = 1, kt_dirty = False\<rparr>;
       kt' = fst (server_kline_add 1700000000 ''*@evil.EXAMPLE'' ''again'' ''op2'' ''K'' 3600 kt)
   in keyed kt' \<and> map kl_expires (kt_lines kt') = [0]"
proof -
  define kt where "kt = \<lparr>kt_lines = [\<lparr>kl_mask = ''*@Evil.example'', kl_reason = ''spam'', kl_set_by = ''op'', kl_type = ''K'', kl_expires = 0\<rparr>],
             kt_gen = (1 :: 32 word), kt_dirty = False\<rparr>"
  have "keyed kt" by (simp add: kt_def keyed_def)
  then have "keyed (fst (server_kline_add 1700000000 ''*@evil.EXAMPLE'' ''again'' ''op2'' ''K'' 3600 kt))"
    using kline_add_keeps [of kt "''*@evil.EXAMPLE''" "''K''" 1700000000 "''again''" "''op2''" 3600] by (simp add: Let_def)
  moreover have "map kl_expires (kt_lines (fst (server_kline_add 1700000000 ''*@evil.EXAMPLE'' ''again'' ''op2'' ''K'' 3600 kt))) = [0]"
    unfolding kt_def by code_simp
  ultimately show ?thesis by (simp add: Let_def kt_def)
qed

section \<open>What a list bans\<close>

lemma eline_hits_iff:
  "eline_hits I ip user host ident ls \<longleftrightarrow>
     (\<exists>e \<in> set ls. line_is CHR ''E'' (kl_type e) \<and> server_line_mask_hits I (kl_mask e) ''K'' ip user host ident)"
  by (induction ls) auto

lemma shun_hits_iff:
  "shun_hits I cl ls \<longleftrightarrow> (\<exists>k \<in> set ls. line_is CHR ''S'' (kl_type k) \<and>
     server_line_mask_hits I (kl_mask k) ''K'' (c_ip cl) (c_user cl) (c_realhost cl) (c_ident_confirmed cl))"
  by (induction ls) auto

text \<open>A line bans: it is no shun and no exemption, it hits, and nothing exempts from it.\<close>

definition line_bans :: "inet \<Rightarrow> kline list \<Rightarrow> string \<Rightarrow> string \<Rightarrow> string \<Rightarrow> bool \<Rightarrow> kline \<Rightarrow> bool" where
  "line_bans I ls ip user host ident k \<longleftrightarrow>
     \<not> line_is CHR ''S'' (kl_type k) \<and> \<not> line_is CHR ''E'' (kl_type k) \<and>
     server_line_mask_hits I (kl_mask k) (kl_type k) ip user host ident \<and>
     (line_is CHR ''Z'' (kl_type k) \<or>
      \<not> (\<exists>e \<in> set ls. line_is CHR ''E'' (kl_type e) \<and> server_line_mask_hits I (kl_mask e) ''K'' ip user host ident))"

text \<open>
  A connection is refused exactly when some line of the list bans it - shuns and exemptions
  never ban, an exemption overrides every K- and G-line but no Z-line - and the reason given is
  that of the first such line.
\<close>

theorem kline_match_first:
  "server_kline_match I kt ip user host ident =
     map_option (\<lambda>k. clip 300 (kl_type k @ ''-Lined: '' @ kl_reason k)) (find (line_bans I (kt_lines kt) ip user host ident) (kt_lines kt))"
proof -
  have "kline_scan I ip user host ident all ls =
      map_option (\<lambda>k. clip 300 (kl_type k @ ''-Lined: '' @ kl_reason k)) (find (line_bans I all ip user host ident) ls)" for all ls
  proof (induction ls)
    case (Cons k ks)
    then show ?case
      by (cases "line_bans I all ip user host ident k") (auto simp: line_bans_def eline_hits_iff)
  qed simp
  then show ?thesis by (simp add: server_kline_match_def)
qed

section \<open>Disconnecting\<close>

lemma ev_client_write: "ev_client (ev_write q i c) j = (if i = j then c else ev_client q j)"
  by (simp add: ev_client_def ev_write_def update_conv')

lemma ev_client_lists [simp]:
  "ev_client (q\<lparr>ev_dead := d\<rparr>) j = ev_client q j" "ev_client (q\<lparr>ev_dirty := d\<rparr>) j = ev_client q j"
  by (simp_all add: ev_client_def)

lemma ev_client_mark_quit:
  "ev_client (client_mark_quit i q) j =
     (if i = j then (ev_client q j)\<lparr>c_quitting := True, c_dead_q := c_dead_q (ev_client q j) \<or> c_fd (ev_client q j) \<ge> 0\<rparr>
      else ev_client q j)"
  by (auto simp: client_mark_quit_def Let_def ev_client_write)

text \<open>What becomes of a client whose line was just set.\<close>

definition cut_off :: "string \<Rightarrow> client \<Rightarrow> client" where
  "cut_off reason c = c\<lparr>c_quit_reason := clip 256 reason, c_quitting := True, c_dead_q := True\<rparr>"

lemma cut_off_quits: "c_quitting (cut_off reason c)"
  by (simp add: cut_off_def)

lemma enforce_client:
  "ev_client (snd (server_kline_enforce I kt msk t reason except is q)) j =
     (if j \<in> set is \<and> enforce_hit I kt msk t except j (ev_client q j) then cut_off reason (ev_client q j) else ev_client q j)"
proof (induction "is" arbitrary: q)
  case (Cons i "is")
  show ?case
  proof (cases "enforce_hit I kt msk t except i (ev_client q i)")
    case True
    define q1 where "q1 = client_mark_quit i (ev_write q i ((ev_client q i)\<lparr>c_quit_reason := clip 256 reason\<rparr>))"
    have q1: "ev_client q1 j = (if i = j then cut_off reason (ev_client q i) else ev_client q j)" for j
      using True unfolding q1_def by (auto simp: ev_client_mark_quit ev_client_write cut_off_def enforce_hit_def)
    have "\<not> enforce_hit I kt msk t except i (ev_client q1 i)" by (simp add: q1 enforce_hit_def cut_off_quits)
    then show ?thesis using True Cons.IH [of q1] q1
      by (auto simp: q1_def [symmetric] split: prod.split)
  next
    case False
    then show ?thesis using Cons.IH [of q] by auto
  qed
qed simp

lemma enforce_count:
  "distinct is \<Longrightarrow> fst (server_kline_enforce I kt msk t reason except is q) =
     length (filter (\<lambda>i. enforce_hit I kt msk t except i (ev_client q i)) is)"
proof (induction "is" arbitrary: q)
  case (Cons i "is")
  define q1 where "q1 = client_mark_quit i (ev_write q i ((ev_client q i)\<lparr>c_quit_reason := clip 256 reason\<rparr>))"
  have "ev_client q1 j = ev_client q j" if "j \<in> set is" for j
    using that Cons.prems unfolding q1_def by (auto simp: ev_client_mark_quit ev_client_write)
  then have "filter (\<lambda>i. enforce_hit I kt msk t except i (ev_client q1 i)) is = filter (\<lambda>i. enforce_hit I kt msk t except i (ev_client q i)) is"
    by (auto intro: filter_cong)
  then show ?case using Cons.IH [of q1] Cons.IH [of q] Cons.prems
    by (auto simp: q1_def [symmetric] split: prod.split)
qed simp

text \<open>
  Whom a mask covers, in one formula: by address, and unless it is a Z-line also as user@address and as
  user@host, where a user without ident may be named with or without its tilde.
\<close>

definition covers :: "inet \<Rightarrow> bool \<Rightarrow> string \<Rightarrow> client \<Rightarrow> bool" where
  "covers I zline msk c \<longleftrightarrow> (c_ip c \<noteq> [] \<and> irc_ip_mask_match I msk (c_ip c)) \<or>
     (\<not> zline \<and> ((c_ip c \<noteq> [] \<and> CHR ''@'' \<in> set msk \<and> irc_host_mask_match I (c_user c) (c_ip c) msk) \<or>
       (c_realhost c \<noteq> [] \<and> (irc_host_mask_match I (c_user c) (c_realhost c) msk \<or>
          (c_user c \<noteq> [] \<and> \<not> c_ident_confirmed c \<and> hd (c_user c) \<noteq> CHR ''~'' \<and>
           irc_host_mask_match I (clip 66 (CHR ''~'' # c_user c)) (c_realhost c) msk)))))"

lemma mask_hits_covers:
  "server_line_mask_hits I msk t (c_ip c) (c_user c) (c_realhost c) (c_ident_confirmed c) = covers I (line_is CHR ''Z'' t) msk c"
  unfolding server_line_mask_hits_def covers_def by (simp split: if_split) blast

lemma exempt_covers:
  "server_client_eline_exempt I kt c \<longleftrightarrow> (\<exists>e \<in> set (kt_lines kt). line_is CHR ''E'' (kl_type e) \<and> covers I False (kl_mask e) c)"
  unfolding server_client_eline_exempt_def eline_hits_iff mask_hits_covers by simp

text \<open>
  C36. A new K-, G- or Z-line disconnects, with the reason of the line, exactly the connections its mask
  covers: all of them but the operator who sets it, those already on their way out and, for K- and
  G-lines only, those an exemption on the list covers. A shun or an exemption disconnects nobody, and
  nothing else about any client changes.
\<close>

theorem line_common_disconnects:
  assumes "params \<noteq> []" and "line_mask I t (params ! 0) = Some msk"
  shows "let (kt', q', out) = line_common I now all i params t kt q; c = ev_client q j in
         ev_client q' j =
           (if j \<in> set all \<and> \<not> line_is CHR ''S'' t \<and> \<not> line_is CHR ''E'' t \<and>
               j \<noteq> i \<and> c_fd c \<ge> 0 \<and> \<not> c_quitting c \<and> covers I (line_is CHR ''Z'' t) msk c \<and>
               (line_is CHR ''Z'' t \<or> \<not> (\<exists>e \<in> set (kt_lines kt'). line_is CHR ''E'' (kl_type e) \<and> covers I False (kl_mask e) c))
            then c\<lparr>c_quit_reason := clip 256 (clip 300 (t @ ''-Lined: '' @ snd (line_args params))), c_quitting := True, c_dead_q := True\<rparr>
            else c)"
proof -
  have "fst (snd (line_common I now all i params t kt q)) =
      (if \<not> line_is CHR ''S'' t \<and> \<not> line_is CHR ''E'' t then
         snd (server_kline_enforce I (fst (line_common I now all i params t kt q)) msk t
           (clip 300 (t @ ''-Lined: '' @ snd (line_args params))) (Some i) all q)
       else q)"
    using assms unfolding line_common_def case_prod_beta Let_def assms(2) option.case
    by (simp only: fst_conv snd_conv if_False if_True split: if_split) simp
  then show ?thesis unfolding case_prod_beta Let_def
    by (auto simp: enforce_client enforce_hit_def mask_hits_covers exempt_covers cut_off_def)
qed

theorem line_common_disconnects_witness:
  "let q = \<lparr>ev_clients = [(1, (client_new 5 0)\<lparr>c_user := ''u'', c_realhost := ''evil.example'', c_ip := ''192.0.2.1''\<rparr>), (2, client_new 6 0)],
            ev_dirty = [], ev_dead = []\<rparr>;
       q' = fst (snd (line_common demo_inet 1700000000 [1, 2] 2 [''*@evil.example'', ''1h'', ''spam''] ''K''
              \<lparr>kt_lines = [], kt_gen = 0, kt_dirty = False\<rparr> q))
   in ev_client q' 1 = (ev_client q 1)\<lparr>c_quit_reason := ''K-Lined: spam'', c_quitting := True, c_dead_q := True\<rparr>"
proof -
  define q where "q = \<lparr>ev_clients = [(1, (client_new 5 0)\<lparr>c_user := ''u'', c_realhost := ''evil.example'', c_ip := ''192.0.2.1''\<rparr>), (2, client_new 6 0)],
            ev_dirty = [], ev_dead = []\<rparr>"
  define r where "r = line_common demo_inet 1700000000 [1, 2] 2 [''*@evil.example'', ''1h'', ''spam''] ''K''
              \<lparr>kt_lines = [], kt_gen = 0, kt_dirty = False\<rparr> q"
  have m: "line_mask demo_inet ''K'' ([''*@evil.example'', ''1h'', ''spam''] ! 0) = Some ''*@evil.example''" by code_simp
  have c: "ev_client q 1 = (client_new 5 0)\<lparr>c_user := ''u'', c_realhost := ''evil.example'', c_ip := ''192.0.2.1''\<rparr>"
    by (simp add: q_def ev_client_def)
  have t: "kt_lines (fst r) = [\<lparr>kl_mask = ''*@evil.example'', kl_reason = ''spam'', kl_set_by = [], kl_type = ''K'', kl_expires = 1700003600\<rparr>]"
  proof -
    have a: "line_args [''*@evil.example'', ''1h'', ''spam''] = (3600, ''spam'')" by code_simp
    have w: "line_expiry 1700000000 3600 = 1700003600" by (simp add: line_expiry_def wrap64_def)
    have k: "kt_lines (fst r) = kt_lines (fst (server_kline_add 1700000000 ''*@evil.example'' ''spam'' (c_nick (ev_client q 2)) ''K'' 3600
        (fst (server_kline_prune_expired 1700000000 \<lparr>kt_lines = [], kt_gen = 0, kt_dirty = False\<rparr>))))"
      unfolding r_def line_common_def m option.case a case_prod_beta Let_def by simp
    have n: "c_nick (ev_client q 2) = []" by (simp add: q_def ev_client_def client_new_def)
    show ?thesis unfolding k n by (simp add: server_kline_prune_expired_def server_kline_add_def w clip_def)
  qed
  have h: "enforce_hit demo_inet (fst r) ''*@evil.example'' ''K'' (Some 2) 1 (ev_client q 1)"
    unfolding enforce_hit_def c server_client_eline_exempt_def t by code_simp
  have a: "snd (line_args [''*@evil.example'', ''1h'', ''spam'']) = ''spam''" by code_simp
  show ?thesis
    using line_common_disconnects [OF _ m, of 1700000000 "[1, 2]" 2 "\<lparr>kt_lines = [], kt_gen = 0, kt_dirty = False\<rparr>" q 1] h [unfolded enforce_hit_def mask_hits_covers exempt_covers] a
    unfolding r_def [symmetric] q_def [symmetric] Let_def case_prod_beta by (simp add: clip_def)
qed

section \<open>The cached shun verdict\<close>

text \<open>What can happen to the list and to the client while it is connected.\<close>

datatype shun_event =
  Set_Line int string string string string int
| Lift_Line string "char option"
| Prune int
| Change_Ident string
| Ask

fun shun_step :: "inet \<Rightarrow> shun_event \<Rightarrow> kline_table \<times> client \<Rightarrow> kline_table \<times> client" where
  "shun_step I (Set_Line now msk reason setter t duration) (kt, cl) = (fst (server_kline_add now msk reason setter t duration kt), cl)"
| "shun_step I (Lift_Line msk t) (kt, cl) = (fst (snd (server_kline_remove_typed msk t kt)), cl)"
| "shun_step I (Prune now) (kt, cl) = (fst (server_kline_prune_expired now kt), cl)"
| "shun_step I (Change_Ident user) (kt, cl) = (kt, cl\<lparr>c_user := clip 64 user, c_ident_confirmed := True, c_shun_gen := 0\<rparr>)"
| "shun_step I Ask (kt, cl) = (kt, snd (server_is_shunned I kt cl))"

definition shun_current :: "inet \<Rightarrow> kline_table \<Rightarrow> client \<Rightarrow> bool" where
  "shun_current I kt cl \<longleftrightarrow> unat (c_shun_gen cl) \<le> unat (kt_gen kt) + 1 \<and>
     (c_shun_gen cl = kt_gen kt + 1 \<longrightarrow> c_shunned cl = shun_hits I cl (kt_lines kt))"

text \<open>The list changed, with a new generation, or did not change at all.\<close>

definition gen_step :: "kline_table \<Rightarrow> kline_table \<Rightarrow> bool" where
  "gen_step kt kt' \<longleftrightarrow> kt_gen kt' = kt_gen kt + 1 \<or> (kt_gen kt' = kt_gen kt \<and> kt_lines kt' = kt_lines kt)"

lemma gen_steps:
  "gen_step kt (fst (server_kline_add now msk reason setter t duration kt))"
  "gen_step kt (fst (snd (server_kline_remove_typed msk ty kt)))"
  "gen_step kt (fst (server_kline_prune_expired now kt))"
  by (auto simp: gen_step_def server_kline_add_def server_kline_remove_typed_def server_kline_prune_expired_def Let_def
      filter_empty_conv filter_id_conv split: option.split)

lemma unat_Suc: "unat (g :: 32 word) + 1 < 2 ^ 32 \<Longrightarrow> unat (g + 1) = unat g + 1"
  by (simp add: unat_word_ariths)

lemma shun_current_gen:
  assumes "shun_current I kt cl" and "gen_step kt kt'" and "unat (kt_gen kt) + 2 < 2 ^ 32"
  shows "shun_current I kt' cl \<and> unat (kt_gen kt') \<le> unat (kt_gen kt) + 1"
  using assms unat_Suc [of "kt_gen kt"] unat_Suc [of "kt_gen kt + 1"]
  by (auto simp: shun_current_def gen_step_def)

text \<open>
  C37. The shun verdict a client has cached is never out of date: after any sequence of lines set,
  lifted and expired, changes of the client's ident, and questions asked in between, the answer
  is what the current list says (for fewer than \<open>2^32 - 2\<close> changes of the list, from where on
  the generation counter would repeat).
\<close>

theorem shun_verdict_current:
  assumes "unat (kt_gen kt) + length es + 2 < 2 ^ 32" and "c_shun_gen cl = 0"
  shows "let (kt', cl') = fold (shun_step I) es (kt, cl)
    in fst (server_is_shunned I kt' cl') = shun_hits I cl' (kt_lines kt')"
proof -
  have step: "shun_current I (fst (shun_step I e (kt, cl))) (snd (shun_step I e (kt, cl))) \<and>
      unat (kt_gen (fst (shun_step I e (kt, cl)))) \<le> unat (kt_gen kt) + 1"
    if "shun_current I kt cl" "unat (kt_gen kt) + 2 < 2 ^ 32" for e kt cl
  proof (cases e)
    case (Change_Ident u)
    have "unat (0 :: 32 word) \<noteq> unat (kt_gen kt + 1)" using unat_Suc [of "kt_gen kt"] that(2) by simp
    then have "(0 :: 32 word) \<noteq> kt_gen kt + 1" by metis
    with Change_Ident show ?thesis by (simp add: shun_current_def)
  next
    case Ask
    have "shun_hits I (cl\<lparr>c_shun_gen := x, c_shunned := y\<rparr>) ls = shun_hits I cl ls" for x y ls
      by (induction ls) simp_all
    with Ask that show ?thesis using unat_Suc [of "kt_gen kt"]
      by (auto simp: shun_current_def server_is_shunned_def Let_def)
  qed (use that shun_current_gen [OF that(1) _ that(2)] gen_steps in simp_all)
  have "shun_current I (fst (fold (shun_step I) es (kt, cl))) (snd (fold (shun_step I) es (kt, cl)))"
    if "shun_current I kt cl" "unat (kt_gen kt) + length es + 2 < 2 ^ 32" for kt cl
    using that
  proof (induction es arbitrary: kt cl)
    case (Cons e es)
    obtain kt1 cl1 where s: "shun_step I e (kt, cl) = (kt1, cl1)" by fastforce
    from step [of kt cl e] Cons.prems s have "shun_current I kt1 cl1" "unat (kt_gen kt1) \<le> unat (kt_gen kt) + 1" by simp_all
    with Cons s show ?case by simp
  qed simp
  moreover have "shun_current I kt cl"
  proof -
    have "unat (0 :: 32 word) \<noteq> unat (kt_gen kt + 1)" using unat_Suc [of "kt_gen kt"] assms(1) by simp
    then have "(0 :: 32 word) \<noteq> kt_gen kt + 1" by metis
    then show ?thesis using assms(2) by (simp add: shun_current_def)
  qed
  ultimately have c: "shun_current I (fst (fold (shun_step I) es (kt, cl))) (snd (fold (shun_step I) es (kt, cl)))"
    using assms(1) by blast
  show ?thesis using c unfolding case_prod_beta Let_def
    by (auto simp: server_is_shunned_def shun_current_def Let_def)
qed

theorem shun_verdict_current_witness:
  "let (kt', cl') = fold (shun_step demo_inet) [Ask, Set_Line 0 ''*@evil.example'' ''spam'' ''op'' ''S'' 0] 
         (\<lparr>kt_lines = [], kt_gen = 0, kt_dirty = False\<rparr>, (client_new 5 0)\<lparr>c_user := ''u'', c_realhost := ''evil.example'', c_ip := ''192.0.2.1''\<rparr>)
   in fst (server_is_shunned demo_inet kt' cl') = shun_hits demo_inet cl' (kt_lines kt')"
  by (rule shun_verdict_current) (simp_all add: client_new_def)

text \<open>
  A ban with a duration the parser cuts to \<open>LONG_MAX\<close> is lifted at once: the expiry wraps
  around to a time before 1970, so the next pruning removes the line that was to last longest.
\<close>

theorem huge_duration_expires:
  "irc_parse_duration ''99999999999999999999w'' = LONG_MAX \<and>
   (let kt = fst (server_kline_add 1700000000 ''*@evil.example'' ''spam'' ''op'' ''K'' LONG_MAX \<lparr>kt_lines = [], kt_gen = 0, kt_dirty = False\<rparr>)
    in length (kt_lines kt) = 1 \<and> kt_lines (fst (server_kline_prune_expired 1700000001 kt)) = [])"
proof
  have d: "duration_digits 0 ''99999999999999999999w'' = (9223372036854775799, ''w'')"
    by (simp add: ctype_simps digit_val_def LONG_MAX_def)
  show "irc_parse_duration ''99999999999999999999w'' = LONG_MAX"
    unfolding irc_parse_duration_def d Let_def prod.case
    by (simp add: ctype_simps duration_unit_def c_tolower_def LONG_MAX_def)
  have e: "line_expiry 1700000000 LONG_MAX = - 9223372035154775809"
    by (simp add: line_expiry_def wrap64_def LONG_MAX_def)
  show "let kt = fst (server_kline_add 1700000000 ''*@evil.example'' ''spam'' ''op'' ''K'' LONG_MAX \<lparr>kt_lines = [], kt_gen = 0, kt_dirty = False\<rparr>)
    in length (kt_lines kt) = 1 \<and> kt_lines (fst (server_kline_prune_expired 1700000001 kt)) = []"
    by (simp add: server_kline_add_def e server_kline_prune_expired_def line_expired_def Let_def)
qed

end
