(* ===== verification/Spam.thy ===== *)
theory Spam
  imports Klines
begin

unbundle bit_operations_syntax

text \<open>
  Spam protection (src/src/spam.c): the rule language with its parser and printer, the ring of
  recent sends of a client, the verdicts on messages and other texts, what they do, and the
  SPAMFILTER command. POSIX regular expressions are a parameter (\<open>regcomp\<close> and \<open>regexec\<close> of the
  C library). Log lines are not modelled; notices and what is told to other servers are outputs.
  The filter file is its content, \<open>None\<close> when it cannot be opened.
\<close>

section \<open>Rules\<close>

record regex =
  rx_comp :: "string \<Rightarrow> string option"
  rx_exec :: "string \<Rightarrow> string \<Rightarrow> bool"

definition SPAM_T_PRIVMSG_USER :: flags where "SPAM_T_PRIVMSG_USER = 0x01"
definition SPAM_T_PRIVMSG_CHAN :: flags where "SPAM_T_PRIVMSG_CHAN = 0x02"
definition SPAM_T_NOTICE_USER :: flags where "SPAM_T_NOTICE_USER = 0x04"
definition SPAM_T_NOTICE_CHAN :: flags where "SPAM_T_NOTICE_CHAN = 0x08"
definition SPAM_T_AWAY :: flags where "SPAM_T_AWAY = 0x10"
definition SPAM_T_QUIT :: flags where "SPAM_T_QUIT = 0x20"
definition SPAM_T_PART :: flags where "SPAM_T_PART = 0x40"
definition SPAM_T_TOPIC :: flags where "SPAM_T_TOPIC = 0x80"

definition SPAM_MAX_FILTERS :: nat where "SPAM_MAX_FILTERS = 256"
definition SPAM_MIN_REPEAT_LEN :: nat where "SPAM_MIN_REPEAT_LEN = 8"

datatype spam_action = SPAM_BLOCK | SPAM_WARN | SPAM_KILL | SPAM_ZLINE | SPAM_HIDE | SPAM_SHUN

record spam_filter =
  sf_targets :: flags
  sf_action :: spam_action
  sf_duration :: int
  sf_reason :: string
  sf_pattern :: string

definition target_letters :: "(flags \<times> char) list" where
  "target_letters =
     [(SPAM_T_PRIVMSG_USER, CHR ''p''), (SPAM_T_PRIVMSG_CHAN, CHR ''c''), (SPAM_T_NOTICE_USER, CHR ''n''),
      (SPAM_T_NOTICE_CHAN, CHR ''N''), (SPAM_T_AWAY, CHR ''a''), (SPAM_T_QUIT, CHR ''q''),
      (SPAM_T_PART, CHR ''P''), (SPAM_T_TOPIC, CHR ''t'')]"

definition target_bit :: "char \<Rightarrow> flags option" where
  "target_bit c = map_of (map (\<lambda>(b, c). (c, b)) target_letters) c"

fun targets_loop :: "flags \<Rightarrow> string \<Rightarrow> flags" where
  "targets_loop m [] = m"
| "targets_loop m (c # s) = (case target_bit c of Some b \<Rightarrow> targets_loop (m OR b) s | None \<Rightarrow> 0)"

definition spam_parse_targets :: "string \<Rightarrow> flags" where
  "spam_parse_targets s = targets_loop 0 s"

definition action_name :: "spam_action \<Rightarrow> string" where
  "action_name a = (case a of SPAM_BLOCK \<Rightarrow> ''block'' | SPAM_WARN \<Rightarrow> ''warn'' | SPAM_KILL \<Rightarrow> ''kill''
     | SPAM_ZLINE \<Rightarrow> ''zline'' | SPAM_HIDE \<Rightarrow> ''hide'' | SPAM_SHUN \<Rightarrow> ''shun'')"

definition parse_action :: "string \<Rightarrow> spam_action option" where
  "parse_action s =
     (if strcaseeq s ''block'' then Some SPAM_BLOCK else if strcaseeq s ''warn'' then Some SPAM_WARN
      else if strcaseeq s ''kill'' then Some SPAM_KILL else if strcaseeq s ''zline'' then Some SPAM_ZLINE
      else if strcaseeq s ''hide'' then Some SPAM_HIDE else if strcaseeq s ''shun'' then Some SPAM_SHUN else None)"

datatype 'a parsed = Blank | Bad string | Rule 'a

text \<open>\<open>%15s\<close>: the word and the rest, \<open>None\<close> at the end of the text.\<close>

definition scan_word :: "nat \<Rightarrow> string \<Rightarrow> (string \<times> string) option" where
  "scan_word n s =
     (let t = dropWhile c_isspace s; w = take n (takeWhile (\<lambda>c. \<not> c_isspace c) t)
      in if t = [] then None else Some (w, drop (length w) t))"

abbreviation QUOTE :: char where "QUOTE \<equiv> CHR 0x22"
abbreviation APOS :: char where "APOS \<equiv> CHR 0x27"

definition scan_head :: "string \<Rightarrow> (string \<times> string \<times> string \<times> string) option" where
  "scan_head s =
     (case scan_word 15 s of None \<Rightarrow> None | Some (tgt, r1) \<Rightarrow>
      (case scan_word 15 r1 of None \<Rightarrow> None | Some (act, r2) \<Rightarrow>
       (case scan_word 15 r2 of None \<Rightarrow> None | Some (dur, r3) \<Rightarrow> Some (tgt, act, dur, dropWhile c_isspace r3))))"

definition trim_spaces :: "string \<Rightarrow> string" where
  "trim_spaces q = rev (dropWhile c_isspace (rev (dropWhile c_isspace q)))"

definition parse_body :: "flags \<Rightarrow> spam_action \<Rightarrow> int \<Rightarrow> string \<Rightarrow> spam_filter parsed" where
  "parse_body targets action duration p =
     (if take 1 p \<noteq> [QUOTE] then Bad ''reason must be in double quotes''
      else case split_chr QUOTE (drop 1 p) of
        None \<Rightarrow> Bad ''unterminated reason quote''
      | Some (reason, q) \<Rightarrow>
          (let pat = trim_spaces q
           in if pat = [] then Bad ''missing regex''
              else if length pat \<ge> 256 then Bad ''regex too long (max 255)''
              else Rule \<lparr>sf_targets = targets, sf_action = action, sf_duration = duration,
                         sf_reason = clip 128 reason, sf_pattern = pat\<rparr>))"

definition parse_line :: "string \<Rightarrow> spam_filter parsed" where
  "parse_line line =
     (let s = dropWhile c_isspace line
      in if s = [] \<or> hd s = CHR ''#'' then Blank
         else case scan_head s of
           None \<Rightarrow> Bad (''expected: <targets> <action> <duration|-> '' @ [QUOTE] @ ''<reason>'' @ [QUOTE] @ '' <regex>'')
         | Some (tgt, act, dur, p) \<Rightarrow>
             (if spam_parse_targets tgt = 0 then Bad (''bad targets '' @ [APOS] @ tgt @ [APOS] @ '' (letters from p c n N a q P t)'')
              else case parse_action act of
                None \<Rightarrow> Bad (''bad action '' @ [APOS] @ act @ [APOS] @ '' (block|warn|kill|zline|hide|shun)'')
              | Some a \<Rightarrow>
                  (let d = (if dur = ''-'' then 0 else irc_parse_duration dur)
                   in if dur \<noteq> ''-'' \<and> d < 0 then Bad (''bad duration '' @ [APOS] @ dur @ [APOS])
                      else parse_body (spam_parse_targets tgt) a d p)))"

fun backreference :: "string \<Rightarrow> bool" where
  "backreference [] = False"
| "backreference (c # s) =
     (if c = CHR 0x5C then (case s of [] \<Rightarrow> False | d # r \<Rightarrow> (49 \<le> byte d \<and> byte d \<le> 57) \<or> backreference r)
      else backreference s)"

text \<open>The error text, \<open>None\<close> when the rule compiles.\<close>

definition compile_rule :: "regex \<Rightarrow> spam_filter \<Rightarrow> string option" where
  "compile_rule R f =
     (if backreference (sf_pattern f) then Some ''backreferences are not allowed''
      else case rx_comp R (sf_pattern f) of
        Some eb \<Rightarrow> Some (clip 160 (''invalid regex: '' @ clip 100 eb))
      | None \<Rightarrow> if rx_exec R (sf_pattern f) [] then Some ''regex matches the empty string (would match every message)'' else None)"

definition format_rule :: "nat \<Rightarrow> spam_filter \<Rightarrow> string" where
  "format_rule outsz f =
     clip outsz (map snd (filter (\<lambda>(b, c). has (sf_targets f) b) target_letters) @ '' '' @ action_name (sf_action f) @ '' '' @
       clip 24 (if sf_duration f \<noteq> 0 then show_int (sf_duration f) @ ''s'' else ''-'') @ '' '' @
       [QUOTE] @ sf_reason f @ [QUOTE] @ '' '' @ sf_pattern f)"

section \<open>The rule list and its file\<close>

record spam_cfg =
  sp_enabled :: bool
  sp_filters_enabled :: bool
  sp_has_path :: bool
  sp_exempt_opers :: bool
  sp_exempt_identified :: bool
  sp_new_user_period :: int
  sp_max_targets :: int
  sp_max_repeat :: int
  sp_target_window :: int
  sp_trust_age :: int
  sp_zline_duration :: int
  sp_limit_action :: string

text \<open>\<open>fgets\<close> into a buffer of 700 bytes: lines with their newline, long ones in pieces.\<close>

definition fgets_len :: "string \<Rightarrow> nat" where
  "fgets_len s = min 699 (case split_chr LF s of Some (l, r) \<Rightarrow> length l + 1 | None \<Rightarrow> length s)"

function fgets_lines :: "string \<Rightarrow> string list" where
  "fgets_lines s = (if s = [] then [] else take (fgets_len s) s # fgets_lines (drop (fgets_len s) s))"
  by pat_completeness auto
termination
  by (relation "measure length") (auto simp: fgets_len_def split: option.split)

declare fgets_lines.simps [simp del]

fun load_rules :: "regex \<Rightarrow> nat \<Rightarrow> string list \<Rightarrow> spam_filter list" where
  "load_rules R loaded [] = []"
| "load_rules R loaded (l # ls) =
     (case parse_line l of
        Rule f \<Rightarrow>
          (if loaded \<ge> SPAM_MAX_FILTERS \<or> compile_rule R f \<noteq> None then load_rules R loaded ls
           else f # load_rules R (loaded + 1) ls)
      | _ \<Rightarrow> load_rules R loaded ls)"

definition spam_reload :: "regex \<Rightarrow> spam_cfg \<Rightarrow> string option \<Rightarrow> spam_filter list \<Rightarrow> int \<times> spam_filter list" where
  "spam_reload R cfg file old =
     (if \<not> sp_filters_enabled cfg then (- 1, [])
      else if \<not> sp_has_path cfg then (- 1, old)
      else case file of
        None \<Rightarrow> (- 1, [])
      | Some content \<Rightarrow> (let fs = load_rules R 0 (fgets_lines content) in (int (length fs), fs)))"

definition same_rule :: "spam_filter \<Rightarrow> string \<Rightarrow> bool" where
  "same_rule victim l = (case parse_line l of
     Rule f \<Rightarrow> sf_targets f = sf_targets victim \<and> sf_action f = sf_action victim \<and> sf_pattern f = sf_pattern victim
   | _ \<Rightarrow> False)"

fun drop_rule :: "spam_filter \<Rightarrow> string list \<Rightarrow> string list" where
  "drop_rule victim [] = []"
| "drop_rule victim (l # ls) = (if same_rule victim l then ls else l # drop_rule victim ls)"

definition rewrite_without :: "spam_filter \<Rightarrow> string option \<Rightarrow> string option" where
  "rewrite_without victim file = map_option (\<lambda>s. concat (drop_rule victim (fgets_lines s))) file"

definition append_rule :: "spam_filter \<Rightarrow> string option \<Rightarrow> string option" where
  "append_rule f file =
     (let old = (case file of Some s \<Rightarrow> s | None \<Rightarrow> [])
      in Some (old @ (if old \<noteq> [] \<and> last old \<noteq> LF then [LF] else []) @ format_rule 700 f @ [LF]))"

section \<open>Recent sends\<close>

definition SPAM_TRACK :: nat where "SPAM_TRACK = 32"

definition fnv :: "string \<Rightarrow> 32 word" where
  "fnv s = foldl (\<lambda>h c. (h XOR word_of_nat (byte (c_tolower c))) * 16777619) 2166136261 s"

type_synonym sends = "((32 word \<times> 32 word) \<times> int) list"

definition in_window :: "int \<Rightarrow> int \<Rightarrow> ((32 word \<times> 32 word) \<times> int) \<Rightarrow> bool" where
  "in_window now window e \<longleftrightarrow> snd e \<noteq> 0 \<and> \<not> (now - snd e > window)"

definition count_targets :: "int \<Rightarrow> int \<Rightarrow> sends \<Rightarrow> nat" where
  "count_targets now window ring =
     length (filter (\<lambda>i. in_window now window (ring ! i) \<and>
       \<not> list_ex (\<lambda>j. in_window now window (ring ! j) \<and> fst (fst (ring ! j)) = fst (fst (ring ! i))) [0..<i]) [0..<length ring])"

definition count_same :: "int \<Rightarrow> int \<Rightarrow> 32 word \<Rightarrow> sends \<Rightarrow> nat" where
  "count_same now window tx ring = length (filter (\<lambda>e. in_window now window e \<and> snd (fst e) = tx) ring)"

definition ring_slot_for :: "32 word \<times> 32 word \<Rightarrow> sends \<Rightarrow> nat option" where
  "ring_slot_for p ring = find (\<lambda>i. snd (ring ! i) \<noteq> 0 \<and> fst (ring ! i) = p) [0..<length ring]"

definition spam_track :: "client \<Rightarrow> string \<Rightarrow> string \<Rightarrow> int \<Rightarrow> int \<Rightarrow> client \<times> nat \<times> nat" where
  "spam_track cl target txt now window =
     (let p = (fnv target, fnv txt);
          (hit, head) = (case ring_slot_for p (c_spam_ring cl) of
             Some i \<Rightarrow> (i, c_spam_head cl)
           | None \<Rightarrow> (c_spam_head cl, (c_spam_head cl + 1) mod SPAM_TRACK));
          ring = (c_spam_ring cl)[hit := (p, now)]
      in (cl\<lparr>c_spam_ring := ring, c_spam_head := head\<rparr>, count_targets now window ring, count_same now window (snd p) ring))"

section \<open>Enforcement\<close>

datatype spam_output =
  To_Opers string
| To_Self string
| To_Network string string int string

record spam_state =
  ss_filters :: "spam_filter list"
  ss_hits :: int
  ss_lines :: kline_table
  ss_q :: evq

definition is_exempt :: "spam_cfg \<Rightarrow> client \<Rightarrow> bool" where
  "is_exempt sp cl \<longleftrightarrow> c_fd cl < 0 \<or> c_is_service cl \<or> (sp_exempt_opers sp \<and> has (c_umodes cl) UMODE_O) \<or>
     (sp_exempt_identified sp \<and> c_account cl \<noteq> [])"

definition snippet :: "string \<Rightarrow> nat \<Rightarrow> string" where
  "snippet txt outsz = map (\<lambda>c. if byte c < 32 then CHR ''?'' else c) (take (min 60 (outsz - 1)) txt)"

text \<open>The other connections from the same address, as a ZLINE drops them.\<close>

fun drop_same_ip :: "client_id \<Rightarrow> string \<Rightarrow> string \<Rightarrow> client_id list \<Rightarrow> evq \<Rightarrow> evq" where
  "drop_same_ip me ip reason [] q = q"
| "drop_same_ip me ip reason (i # is) q =
     (let c = ev_client q i
      in if i = me \<or> c_fd c < 0 \<or> c_quitting c \<or> has (c_umodes c) UMODE_O \<or> c_ip c \<noteq> ip
         then drop_same_ip me ip reason is q
         else drop_same_ip me ip reason is (client_mark_quit i (ev_write q i (c\<lparr>c_quit_reason := clip 256 reason\<rparr>))))"

text \<open>
  \<open>apply_action\<close> for the sender \<open>i\<close>; the verdict is 0 to deliver, 1 to drop and 2 to drop while
  it looks sent.
\<close>

definition apply_action ::
  "spam_cfg \<Rightarrow> int \<Rightarrow> client_id list \<Rightarrow> client_id \<Rightarrow> spam_action \<Rightarrow> int \<Rightarrow> string \<Rightarrow> string \<Rightarrow> string \<Rightarrow> bool \<Rightarrow>
     spam_state \<Rightarrow> nat \<times> spam_state \<times> spam_output list" where
  "apply_action cfg now all i act duration reason what txt quiet ss0 =
     (let ss = ss0\<lparr>ss_hits := ss_hits ss0 + 1\<rparr>;
          cl = ev_client (ss_q ss) i;
          note = clip 700 (''Spam: '' @ client_prefix cl 320 @ '' ['' @ c_ip cl @ ''] '' @ action_name act @ '' ('' @ reason @ ''): '' @
             [QUOTE] @ snippet txt 80 @ [QUOTE] @ '' -> '' @ what);
          dur = (if duration > 0 then duration else sp_zline_duration cfg);
          why = ''Spam: '' @ reason
      in case act of
           SPAM_WARN \<Rightarrow> (0, ss, [To_Opers note])
         | SPAM_BLOCK \<Rightarrow> (1, ss, To_Opers note #
             (if quiet then [] else [To_Self (clip 300 (''Message to '' @ what @ '' blocked: '' @ reason))]))
         | SPAM_SHUN \<Rightarrow>
             (if c_ip cl \<noteq> [] then
                (let msk = clip 80 (''*@'' @ c_ip cl);
                     (kt, sn) = server_kline_add now msk (clip 200 why) ''spam'' ''S'' dur (ss_lines ss)
                 in (2, ss\<lparr>ss_lines := kt\<rparr>, To_Opers note # map To_Opers sn @ [To_Network msk ''spam'' (line_expiry now dur) (clip 200 why)]))
              else (2, ss, [To_Opers note]))
         | SPAM_HIDE \<Rightarrow> (2, ss, [To_Opers note])
         | SPAM_KILL \<Rightarrow>
             (1, ss\<lparr>ss_q := client_mark_quit i (ev_write (ss_q ss) i (cl\<lparr>c_quit_reason := clip 256 why\<rparr>))\<rparr>, [To_Opers note])
         | SPAM_ZLINE \<Rightarrow>
             (let q1 = client_mark_quit i (ev_write (ss_q ss) i (cl\<lparr>c_quit_reason := clip 256 why\<rparr>))
              in if c_ip cl \<noteq> [] then
                   (let (kt, sn) = server_kline_add now (c_ip cl) (clip 200 why) ''spam'' ''Z'' dur (ss_lines ss)
                    in (1, ss\<lparr>ss_lines := kt, ss_q := drop_same_ip i (c_ip cl) (clip 256 why) all q1\<rparr>, To_Opers note # map To_Opers sn))
                 else (1, ss\<lparr>ss_q := q1\<rparr>, [To_Opers note])))"

definition is_format_byte :: "char \<Rightarrow> bool" where
  "is_format_byte c \<longleftrightarrow> byte c \<in> {0x02, 0x0F, 0x11, 0x16, 0x1D, 0x1E, 0x1F}"

text \<open>At most two digits.\<close>

definition skip_two_digits :: "string \<Rightarrow> string" where
  "skip_two_digits s = drop (min 2 (length (takeWhile c_isdigit s))) s"

text \<open>What follows a colour code: its numbers.\<close>

definition skip_colour :: "string \<Rightarrow> string" where
  "skip_colour s = (let t = skip_two_digits s in if take 1 t = '','' then skip_two_digits (drop 1 t) else t)"

function strip_loop :: "nat \<Rightarrow> string \<Rightarrow> string" where
  "strip_loop room [] = []"
| "strip_loop room (c # s) =
     (if room = 0 then []
      else if is_format_byte c then strip_loop room s
      else if byte c = 0x03 then strip_loop room (skip_colour s)
      else c # strip_loop (room - 1) s)"
  by pat_completeness auto
termination
  by (relation "measure (\<lambda>(r, s). length s)") (auto simp: skip_colour_def skip_two_digits_def Let_def)

definition strip_codes :: "nat \<Rightarrow> string \<Rightarrow> string" where
  "strip_codes dstsz src = strip_loop (dstsz - 1) src"

definition run_filters ::
  "regex \<Rightarrow> spam_cfg \<Rightarrow> int \<Rightarrow> client_id list \<Rightarrow> client_id \<Rightarrow> flags \<Rightarrow> string \<Rightarrow> string \<Rightarrow> bool \<Rightarrow>
     spam_state \<Rightarrow> nat \<times> spam_state \<times> spam_output list" where
  "run_filters R cfg now all i kind what txt quiet ss =
     (if \<not> sp_filters_enabled cfg \<or> ss_filters ss = [] then (0, ss, [])
      else case find (\<lambda>f. sf_targets f AND kind \<noteq> 0 \<and> rx_exec R (sf_pattern f) (strip_codes 512 txt)) (ss_filters ss) of
        None \<Rightarrow> (0, ss, [])
      | Some f \<Rightarrow> apply_action cfg now all i (sf_action f) (sf_duration f) (sf_reason f) what txt quiet ss)"

definition spam_check_text ::
  "regex \<Rightarrow> spam_cfg \<Rightarrow> int \<Rightarrow> client_id list \<Rightarrow> client_id \<Rightarrow> flags \<Rightarrow> string \<Rightarrow> spam_state \<Rightarrow> nat \<times> spam_state \<times> spam_output list" where
  "spam_check_text R cfg now all i kind txt ss =
     (if \<not> sp_enabled cfg \<or> is_exempt cfg (ev_client (ss_q ss) i) then (0, ss, [])
      else run_filters R cfg now all i kind
        (if kind = SPAM_T_AWAY then ''AWAY'' else if kind = SPAM_T_QUIT then ''QUIT'' else if kind = SPAM_T_PART then ''PART'' else ''TOPIC'')
        txt (kind = SPAM_T_QUIT \<or> kind = SPAM_T_PART) ss)"

text \<open>The target behind a status prefix (\<open>@#chan\<close>).\<close>

definition message_target :: "string \<Rightarrow> string" where
  "message_target target =
     (case target of c # d # r \<Rightarrow> if c \<in> set ''~&@%+'' \<and> d = CHR ''#'' then d # r else target | _ \<Rightarrow> target)"

definition trusted_account :: "spam_cfg \<Rightarrow> int \<Rightarrow> client \<Rightarrow> bool" where
  "trusted_account sp now cl \<longleftrightarrow> sp_exempt_identified sp \<and> c_account cl \<noteq> [] \<and>
     (let created = (if c_acct_created_for cl = c_account cl then c_acct_created cl else 0)
      in created > 0 \<and> now - created \<ge> sp_new_user_period sp)"

text \<open>The recipient and repeat limits, behind the filters.\<close>

definition check_limits ::
  "spam_cfg \<Rightarrow> int \<Rightarrow> client_id list \<Rightarrow> client_id \<Rightarrow> string \<Rightarrow> string \<Rightarrow> bool \<Rightarrow> spam_state \<Rightarrow> nat \<times> spam_state \<times> spam_output list" where
  "check_limits sp now all i t txt is_notice ss =
     (let cl = ev_client (ss_q ss) i
      in if sp_max_targets sp = 0 \<and> sp_max_repeat sp = 0 then (0, ss, [])
         else if sp_trust_age sp > 0 \<and> now - c_signon_time cl \<ge> sp_trust_age sp then (0, ss, [])
         else (let clean = strip_codes 512 txt;
                   (cl1, distinct_n, same_n) = spam_track cl t clean now (sp_target_window sp);
                   ss1 = ss\<lparr>ss_q := ev_write (ss_q ss) i cl1\<rparr>;
                   too_many = (sp_max_targets sp > 0 \<and> int distinct_n > sp_max_targets sp);
                   repeated = (sp_max_repeat sp > 0 \<and> length clean \<ge> SPAM_MIN_REPEAT_LEN \<and> int same_n \<ge> sp_max_repeat sp)
               in if \<not> too_many \<and> \<not> repeated then (0, ss1, [])
                  else apply_action sp now all i
                    (case parse_action (sp_limit_action sp) of Some a \<Rightarrow> a | None \<Rightarrow> SPAM_BLOCK) 0
                    (if too_many then ''too many recipients'' else ''same message to too many recipients'') t txt is_notice ss1))"

text \<open>\<open>lookup\<close> is \<open>server_find_user\<close>.\<close>

definition spam_check_message ::
  "regex \<Rightarrow> spam_cfg \<Rightarrow> int \<Rightarrow> client_id list \<Rightarrow> (string \<Rightarrow> client option) \<Rightarrow> client_id \<Rightarrow> string \<Rightarrow> string \<Rightarrow> bool \<Rightarrow>
     spam_state \<Rightarrow> nat \<times> spam_state \<times> spam_output list" where
  "spam_check_message R sp now all lookup i target txt is_notice ss =
     (let cl = ev_client (ss_q ss) i; t = message_target target; chan = (take 1 t = ''#'');
          age = now - c_signon_time cl
      in if \<not> sp_enabled sp then (0, ss, [])
         else if c_fd cl < 0 \<or> c_is_service cl \<or> (sp_exempt_opers sp \<and> has (c_umodes cl) UMODE_O) then (0, ss, [])
         else if \<not> chan \<and> (case lookup t of Some d \<Rightarrow> c_is_service d \<or> has (c_umodes d) UMODE_O | None \<Rightarrow> False) then (0, ss, [])
         else if trusted_account sp now cl then (0, ss, [])
         else if \<not> chan \<and> sp_new_user_period sp > 0 \<and> age < sp_new_user_period sp then
           (1, ss\<lparr>ss_hits := ss_hits ss + 1\<rparr>,
            if is_notice then []
            else [To_Self (clip 200 (''You must be connected '' @ show_int (sp_new_user_period sp) @ ''s before messaging users ('' @
                    show_int (sp_new_user_period sp - age) @ ''s to go)''))])
         else let kind = (if is_notice then (if chan then SPAM_T_NOTICE_CHAN else SPAM_T_NOTICE_USER)
                          else (if chan then SPAM_T_PRIVMSG_CHAN else SPAM_T_PRIVMSG_USER));
                  (verdict, ss1, out) = run_filters R sp now all i kind t txt is_notice ss
              in if verdict \<noteq> 0 then (verdict, ss1, out)
                 else (let (v2, ss2, out2) = check_limits sp now all i t txt is_notice ss1 in (v2, ss2, out @ out2)))"

section \<open>SPAMFILTER\<close>

definition spamfilter_list :: "spam_cfg \<Rightarrow> spam_state \<Rightarrow> spam_output list" where
  "spamfilter_list cfg ss =
     (if \<not> sp_enabled cfg then [To_Self ''Note: [spam] enabled = false -- rules are not being enforced'']
      else if \<not> sp_filters_enabled cfg then [To_Self ''Note: [spam] filters_enabled = false -- rules are not being enforced''] else []) @
     (if ss_filters ss = [] then [To_Self ''No spam filters'']
      else map (\<lambda>(k, f). To_Self (clip 700 (CHR ''#'' # show_nat k @ '' '' @ format_rule 600 f))) (zip [1..<Suc (length (ss_filters ss))] (ss_filters ss))) @
     [To_Self (clip 120 (''Spam protection has acted on '' @ show_int (ss_hits ss) @ '' message(s) since start''))]"

definition unquote_reason :: "string \<Rightarrow> string" where
  "unquote_reason p = map (\<lambda>c. if c = CHR ''_'' then CHR '' '' else if c = QUOTE then APOS else c) (clip 128 p)"

definition join_pattern :: "string list \<Rightarrow> string" where
  "join_pattern ps = (case ps of [] \<Rightarrow> []
     | p # r \<Rightarrow> foldl (\<lambda>acc x. acc @ clip (256 - length acc) ('' '' @ x)) (clip 256 p) r)"

definition added_rule :: "string list \<Rightarrow> string" where
  "added_rule params =
     clip 600 (params ! 1 @ '' '' @ params ! 2 @ '' '' @ params ! 3 @ '' '' @ [QUOTE] @ unquote_reason (params ! 4) @ [QUOTE] @ '' '' @
       join_pattern (drop 5 params))"

text \<open>\<open>junk\<close> is what the error buffer holds before anything is written to it.\<close>

definition spamfilter_add ::
  "string \<Rightarrow> regex \<Rightarrow> spam_cfg \<Rightarrow> string \<Rightarrow> string list \<Rightarrow> string option \<Rightarrow> spam_state \<Rightarrow> string option \<times> spam_state \<times> spam_output list" where
  "spamfilter_add junk R cfg nick params file ss =
     (if \<not> sp_filters_enabled cfg then (file, ss, [To_Self ''Filters are disabled ([spam] filters_enabled = false)''])
      else if length params < 6 then
        (file, ss, [To_Self ''Usage: SPAMFILTER ADD <targets> <block|warn|kill|zline|hide|shun> <duration|-> <reason_with_underscores> <regex>''])
      else if length (ss_filters ss) \<ge> SPAM_MAX_FILTERS then (file, ss, [To_Self ''Too many spam filters''])
      else let refused = (\<lambda>err. (file, ss, [To_Self (clip 220 (''Rejected: '' @ clip 160 err))]))
           in case parse_line (added_rule params) of
                Blank \<Rightarrow> refused junk
              | Bad err \<Rightarrow> refused err
              | Rule f \<Rightarrow>
                  (case compile_rule R f of
                     Some err \<Rightarrow> refused err
                   | None \<Rightarrow>
                       (let fs = ss_filters ss @ [f]
                        in (if sp_has_path cfg then append_rule f file else file, ss\<lparr>ss_filters := fs\<rparr>,
                            [To_Opers (clip 500 (nick @ '' added spam filter #'' @ show_nat (length fs) @ '': '' @ join_pattern (drop 5 params))),
                             To_Self (if sp_enabled cfg then ''Spam filter added''
                                      else ''Spam filter added (note: [spam] enabled = false, not enforced yet)'')]))))"

definition spamfilter_del ::
  "spam_cfg \<Rightarrow> string \<Rightarrow> string list \<Rightarrow> string option \<Rightarrow> spam_state \<Rightarrow> string option \<times> spam_state \<times> spam_output list" where
  "spamfilter_del cfg nick params file ss =
     (let n = (if 1 < length params then sint (word_of_int (atol (params ! 1)) :: 32 word) else 0);
          k = nat n - 1
      in if n < 1 \<or> k \<ge> length (ss_filters ss) then (file, ss, [To_Self ''No such filter number (see SPAMFILTER LIST)''])
         else let dead = ss_filters ss ! k
              in (if sp_has_path cfg then rewrite_without dead file else file,
                  ss\<lparr>ss_filters := take k (ss_filters ss) @ drop (k + 1) (ss_filters ss)\<rparr>,
                  [To_Opers (clip 400 (nick @ '' removed spam filter: '' @ sf_pattern dead)), To_Self ''Spam filter removed'']))"

definition cmd_spamfilter ::
  "string \<Rightarrow> regex \<Rightarrow> spam_cfg \<Rightarrow> string \<Rightarrow> string list \<Rightarrow> string option \<Rightarrow> spam_state \<Rightarrow> string option \<times> spam_state \<times> spam_output list" where
  "cmd_spamfilter junk R cfg nick params file ss =
     (let sub = (if params \<noteq> [] then hd params else ''LIST'')
      in if strcaseeq sub ''LIST'' then (file, ss, spamfilter_list cfg ss)
         else if strcaseeq sub ''DEL'' then spamfilter_del cfg nick params file ss
         else if strcaseeq sub ''ADD'' then spamfilter_add junk R cfg nick params file ss
         else (file, ss, [To_Self ''Usage: SPAMFILTER [LIST] | ADD <targets> <action> <duration|-> <reason> <regex> | DEL <n>'']))"

section \<open>Writing a rule and reading it back\<close>

definition letters_of :: "flags \<Rightarrow> string" where
  "letters_of t = map snd (filter (\<lambda>(b, c). has t b) target_letters)"

lemma letters_roundtrip_all:
  "list_all (\<lambda>n. spam_parse_targets (letters_of (word_of_nat n)) = word_of_nat n) [0..<256]"
  by code_simp

lemma letters_roundtrip:
  assumes "unat t < 256"
  shows "spam_parse_targets (letters_of t) = t"
proof -
  have "spam_parse_targets (letters_of (word_of_nat (unat t))) = word_of_nat (unat t)"
    using letters_roundtrip_all assms unfolding list_all_iff by (metis atLeastLessThan_iff set_upt zero_le)
  then show ?thesis by simp
qed

definition no_space :: "string \<Rightarrow> bool" where
  "no_space s \<longleftrightarrow> list_all (\<lambda>c. \<not> c_isspace c) s"

lemma space_SP [simp]: "c_isspace SP"
  by (simp add: ctype_simps)

lemma scan_word_SP:
  assumes "no_space w" and "w \<noteq> []" and "length w \<le> 15"
  shows "scan_word 15 (w @ SP # r) = Some (w, SP # r)" "scan_word 15 (SP # w @ SP # r) = Some (w, SP # r)"
proof -
  obtain c v where w: "w = c # v" "\<not> c_isspace c" using assms(1,2) by (cases w) (auto simp: no_space_def)
  have t: "takeWhile (\<lambda>c. \<not> c_isspace c) (w @ SP # r) = w"
    using assms(1) by (simp add: no_space_def list_all_iff takeWhile_append2)
  have d: "dropWhile c_isspace (w @ SP # r) = w @ SP # r" using w by simp
  then show "scan_word 15 (w @ SP # r) = Some (w, SP # r)" "scan_word 15 (SP # w @ SP # r) = Some (w, SP # r)"
    using assms t unfolding scan_word_def by (simp_all add: Let_def)
qed

text \<open>What the printer and the parser agree on.\<close>

definition trimmed :: "string \<Rightarrow> bool" where
  "trimmed p \<longleftrightarrow> p \<noteq> [] \<and> \<not> c_isspace (hd p) \<and> \<not> c_isspace (last p)"

definition rule_ok :: "spam_filter \<Rightarrow> bool" where
  "rule_ok f \<longleftrightarrow> sf_targets f \<noteq> 0 \<and> unat (sf_targets f) < 256 \<and> 0 \<le> sf_duration f \<and> QUOTE \<notin> set (sf_reason f) \<and>
     length (sf_reason f) < 128 \<and> trimmed (sf_pattern f) \<and> length (sf_pattern f) < 256"

lemma trimmed_trim:
  assumes "trimmed p" and "list_all c_isspace nl"
  shows "trim_spaces (SP # p @ nl) = p"
proof -
  have "dropWhile c_isspace (SP # p @ nl) = p @ nl" using assms(1) by (cases p) (auto simp: trimmed_def)
  moreover have "dropWhile c_isspace (rev nl @ rev p) = rev p"
    using assms by (cases "rev p") (auto simp: trimmed_def dropWhile_append list_all_iff last_conv_nth hd_rev [symmetric])
  ultimately show ?thesis by (simp add: trim_spaces_def)
qed

lemma trim_trimmed:
  assumes "trim_spaces q = p" and "p \<noteq> []"
  shows "trimmed p"
proof -
  define t where "t = dropWhile c_isspace q"
  have p: "rev p = dropWhile c_isspace (rev t)" using assms(1) by (auto simp: t_def trim_spaces_def)
  then have "\<not> c_isspace (hd (rev p))"
    using assms(2) hd_dropWhile [of c_isspace "rev t"] by fastforce
  then have l: "\<not> c_isspace (last p)" by (simp add: hd_rev)
  obtain e where e: "t = p @ e"
    using p by (metis takeWhile_dropWhile_id rev_append rev_rev_ident)
  moreover have "t \<noteq> [] \<Longrightarrow> \<not> c_isspace (hd t)" unfolding t_def by (rule hd_dropWhile)
  ultimately show ?thesis using assms(2) l by (simp add: trimmed_def)
qed

lemma action_name_word:
  "parse_action (action_name a) = Some a \<and> no_space (action_name a) \<and> action_name a \<noteq> [] \<and> length (action_name a) \<le> 15"
  by (cases a; hypsubst; code_simp)

definition letters_ok :: "string \<Rightarrow> bool" where
  "letters_ok w \<longleftrightarrow> no_space w \<and> w \<noteq> [] \<and> length w \<le> 15 \<and> hd w \<noteq> CHR ''#''"

lemma letters_word:
  assumes "t \<noteq> 0" and "unat t < 256"
  shows "letters_ok (letters_of t)"
proof -
  have sub: "set (letters_of t) \<subseteq> set ''pcnNaqPt''" by (auto simp: letters_of_def target_letters_def)
  have "\<forall>c \<in> set ''pcnNaqPt''. \<not> c_isspace c \<and> c \<noteq> CHR ''#''" by (simp add: ctype_simps)
  with sub have c: "\<forall>c \<in> set (letters_of t). \<not> c_isspace c \<and> c \<noteq> CHR ''#''" by blast
  have "letters_of t \<noteq> []" using letters_roundtrip [OF assms(2)] assms(1) by (auto simp: spam_parse_targets_def)
  moreover have "length (letters_of t) \<le> length target_letters" unfolding letters_of_def by simp
  moreover have "length target_letters = 8" by (simp add: target_letters_def)
  ultimately show ?thesis using c hd_in_set [of "letters_of t"] unfolding letters_ok_def no_space_def list_all_iff by auto
qed

lemma digits_no_space: "list_all c_isdigit s \<Longrightarrow> no_space s"
  by (auto simp: no_space_def list_all_iff ctype_simps)

definition duration_text :: "int \<Rightarrow> string" where
  "duration_text d = clip 24 (if d \<noteq> 0 then show_int d @ ''s'' else ''-'')"

lemma duration_word:
  assumes "0 \<le> d" and "d < 10 ^ 14"
  shows "no_space (duration_text d) \<and> duration_text d \<noteq> [] \<and> length (duration_text d) \<le> 15 \<and>
    (if duration_text d = ''-'' then 0 else irc_parse_duration (duration_text d)) = d"
proof (cases "d = 0")
  case True
  then show ?thesis by (simp add: duration_text_def no_space_def ctype_simps clip_def)
next
  case False
  define n where "n = nat d"
  have n: "d = int n" "n < 10 ^ 14" using assms by (simp_all add: n_def nat_less_iff)
  have len: "length (show_nat n) \<le> 14" by (rule length_show_nat_le [OF n(2)]) simp
  then have t: "duration_text d = show_nat n @ ''s''" using False assms(1) by (simp add: duration_text_def show_int_def n_def)
  have u: "duration_unit CHR ''s'' = Some 1" by code_simp
  have "irc_parse_duration (show_nat n @ ''s'') = int n"
    using parse_duration_unit [of "CHR ''s''" 1 n] u n(2) by (simp add: LONG_MAX_def)
  moreover have "no_space (show_nat n @ ''s'')"
    using digits_no_space [of "show_nat n"] show_nat_digits [of n] by (simp add: no_space_def ctype_simps)
  moreover have "show_nat n @ ''s'' \<noteq> ''-''" by (cases "show_nat n") auto
  ultimately show ?thesis using t len n(1) by simp
qed

lemma parse_body_write:
  assumes "QUOTE \<notin> set r" "length r < 128" "trimmed p" "length p < 256" "list_all c_isspace nl"
  shows "parse_body t a d (QUOTE # r @ QUOTE # SP # p @ nl) =
    Rule \<lparr>sf_targets = t, sf_action = a, sf_duration = d, sf_reason = r, sf_pattern = p\<rparr>"
  using assms trimmed_trim [OF assms(3,5)] by (simp add: parse_body_def Let_def trimmed_def)

lemma rule_write_read:
  assumes "rule_ok f" and "sf_duration f < 10 ^ 14" and "list_all c_isspace nl"
  shows "parse_line (format_rule 700 f @ nl) = Rule f"
proof -
  define L where "L = letters_of (sf_targets f)"
  define A where "A = action_name (sf_action f)"
  define D where "D = duration_text (sf_duration f)"
  have l: "no_space L" "L \<noteq> []" "length L \<le> 15" "hd L \<noteq> CHR ''#''" "spam_parse_targets L = sf_targets f"
    using letters_word [of "sf_targets f"] letters_roundtrip [of "sf_targets f"] assms(1)
    by (simp_all add: L_def rule_ok_def letters_ok_def)
  note a = action_name_word [of "sf_action f", folded A_def]
  have d: "no_space D" "D \<noteq> []" "length D \<le> 15" "(if D = ''-'' then 0 else irc_parse_duration D) = sf_duration f"
    using duration_word [of "sf_duration f"] assms(1,2) unfolding D_def rule_ok_def by blast+
  define body where "body = QUOTE # sf_reason f @ QUOTE # SP # sf_pattern f"
  have len: "length (L @ SP # A @ SP # D @ SP # body) < 700"
    using l a d assms(1) by (simp add: body_def rule_ok_def)
  have "format_rule 700 f = clip 700 (L @ SP # A @ SP # D @ SP # body)"
    by (simp add: format_rule_def L_def A_def D_def body_def letters_of_def duration_text_def)
  then have t: "format_rule 700 f @ nl = L @ SP # A @ SP # D @ SP # (body @ nl)" using len by simp
  obtain c v where L: "L = c # v" "\<not> c_isspace c" using l(1,2) by (cases L) (auto simp: no_space_def)
  have dw: "dropWhile c_isspace (L @ x) = L @ x" for x using L by simp
  have q: "dropWhile c_isspace (SP # body @ nl) = body @ nl" by (simp add: body_def ctype_simps)
  have h: "scan_head (L @ SP # A @ SP # D @ SP # (body @ nl)) = Some (L, A, D, body @ nl)"
    unfolding scan_head_def using scan_word_SP [OF l(1,2,3)] scan_word_SP [of A] scan_word_SP [OF d(1,2,3)] a q by simp
  have b: "parse_body (sf_targets f) (sf_action f) (sf_duration f) (body @ nl) = Rule f"
    using parse_body_write [of "sf_reason f" "sf_pattern f" nl] assms(1,3) by (simp add: body_def rule_ok_def)
  have "D \<noteq> ''-'' \<Longrightarrow> \<not> irc_parse_duration D < 0" using d(4) assms(1) by (auto simp: rule_ok_def)
  then show ?thesis using l a d(4) h b assms(1) L
    unfolding parse_line_def t dw Let_def by (auto simp: rule_ok_def)
qed

lemma targets_loop_bound: "unat m < 256 \<Longrightarrow> unat (targets_loop m s) < 256"
proof (induction s arbitrary: m)
  case (Cons c s)
  have "unat (m OR b) < 256" if "target_bit c = Some b" for b
  proof -
    have "b \<in> fst ` set target_letters" using that by (force simp: target_bit_def dest!: map_of_SomeD)
    then have "unat b < 256" by (auto simp: target_letters_def SPAM_T_PRIVMSG_USER_def SPAM_T_PRIVMSG_CHAN_def SPAM_T_NOTICE_USER_def
        SPAM_T_NOTICE_CHAN_def SPAM_T_AWAY_def SPAM_T_QUIT_def SPAM_T_PART_def SPAM_T_TOPIC_def)
    then have "take_bit 8 (unat m OR unat b) = unat m OR unat b" using Cons.prems by (simp add: take_bit_or take_bit_nat_eq_self)
    then have "unat m OR unat b < 2 ^ 8" by (simp only: take_bit_nat_eq_self_iff)
    then show ?thesis by (simp add: unsigned_or_eq)
  qed
  then show ?case using Cons by (simp split: option.split)
qed simp

lemma parse_line_ok:
  assumes "parse_line l = Rule f"
  shows "rule_ok f"
proof -
  obtain tgt a d p where r: "parse_body (spam_parse_targets tgt) a d p = Rule f" "spam_parse_targets tgt \<noteq> 0" "\<not> d < 0"
    using assms unfolding parse_line_def Let_def
    by (auto split: option.splits if_splits prod.splits)
  have "unat (spam_parse_targets tgt) < 256" unfolding spam_parse_targets_def by (rule targets_loop_bound) simp
  moreover obtain aa b where b: "QUOTE \<notin> set aa" "trim_spaces b \<noteq> []" "length (trim_spaces b) < 256"
      "f = \<lparr>sf_targets = spam_parse_targets tgt, sf_action = a, sf_duration = d, sf_reason = clip 128 aa, sf_pattern = trim_spaces b\<rparr>"
    using r(1) by (auto simp: parse_body_def Let_def split_chr_Some_iff split: if_splits option.splits)
  moreover have "QUOTE \<notin> set (clip 128 aa)" using b(1) set_clip by blast
  moreover have "length (clip 128 aa) < 128" by (simp add: clip_def)
  moreover have "trimmed (trim_spaces b)" by (rule trim_trimmed [OF refl b(2)])
  ultimately show ?thesis using r by (simp add: rule_ok_def)
qed

text \<open>
  Every rule the parser accepts - from the file or from SPAMFILTER ADD - survives being
  written to the filter file: read back, it has the same targets, action, duration, reason and
  pattern, as long as its duration is below \<open>10 ^ 14\<close> seconds.
\<close>

theorem spam_rule_roundtrip:
  assumes "parse_line l = Rule f" and "sf_duration f < 10 ^ 14"
  shows "parse_line (format_rule 700 f @ [LF]) = Rule f \<and> parse_line (format_rule 700 f) = Rule f"
  using rule_write_read [OF parse_line_ok [OF assms(1)] assms(2), of "[LF]"]
    rule_write_read [OF parse_line_ok [OF assms(1)] assms(2), of "[]"] by (simp add: ctype_simps)

definition demo_rule :: spam_filter where
  "demo_rule = \<lparr>sf_targets = 7, sf_action = SPAM_KILL, sf_duration = 3600, sf_reason = ''free virus'', sf_pattern = ''(buy|cheap) +viagra''\<rparr>"

theorem spam_rule_roundtrip_witness:
  "parse_line (''  cnp KILL 1h '' @ [QUOTE] @ ''free virus'' @ [QUOTE] @ '' (buy|cheap) +viagra '') = Rule demo_rule \<and>
   parse_line (format_rule 700 demo_rule @ [LF]) = Rule demo_rule"
proof -
  have p: "parse_line (''  cnp KILL 1h '' @ [QUOTE] @ ''free virus'' @ [QUOTE] @ '' (buy|cheap) +viagra '') = Rule demo_rule"
    by code_simp
  then show ?thesis using spam_rule_roundtrip [OF p] by (simp add: demo_rule_def)
qed

section \<open>Counting recent sends\<close>

definition used :: "((32 word \<times> 32 word) \<times> int) \<Rightarrow> bool" where
  "used e \<longleftrightarrow> snd e \<noteq> 0"

definition sends_ok :: "client \<Rightarrow> bool" where
  "sends_ok cl \<longleftrightarrow> length (c_spam_ring cl) = SPAM_TRACK \<and> c_spam_head cl < SPAM_TRACK \<and>
     distinct (map fst (filter used (c_spam_ring cl)))"

lemma count_first_occurrences:
  "length (filter (\<lambda>i. P (xs ! i) \<and> \<not> list_ex (\<lambda>j. P (xs ! j) \<and> f (xs ! j) = f (xs ! i)) [0..<i]) [0..<length xs]) =
     card (f ` {x \<in> set xs. P x})"
proof (induction xs rule: rev_induct)
  case (snoc x xs)
  have "filter (\<lambda>i. P ((xs @ [x]) ! i) \<and> \<not> list_ex (\<lambda>j. P ((xs @ [x]) ! j) \<and> f ((xs @ [x]) ! j) = f ((xs @ [x]) ! i)) [0..<i]) [0..<length xs] =
      filter (\<lambda>i. P (xs ! i) \<and> \<not> list_ex (\<lambda>j. P (xs ! j) \<and> f (xs ! j) = f (xs ! i)) [0..<i]) [0..<length xs]"
    by (rule filter_cong) (auto simp: nth_append list_ex_iff)
  moreover have "list_ex (\<lambda>j. P ((xs @ [x]) ! j) \<and> f ((xs @ [x]) ! j) = f x) [0..<length xs] \<longleftrightarrow> f x \<in> f ` {y \<in> set xs. P y}"
    by (auto simp: list_ex_iff nth_append in_set_conv_nth image_iff Bex_def conj_commute) metis+
  moreover have "f ` {y \<in> set (xs @ [x]). P y} = (if P x then insert (f x) (f ` {y \<in> set xs. P y}) else f ` {y \<in> set xs. P y})"
    by auto
  ultimately show ?case using snoc.IH by (simp add: card_insert_if)
qed simp

lemma filter_update_distinct:
  assumes "distinct (map f (filter P xs))" and "i < length xs" and "P y"
    and "\<forall>j < length xs. j \<noteq> i \<longrightarrow> P (xs ! j) \<longrightarrow> f (xs ! j) \<noteq> f y"
  shows "distinct (map f (filter P (xs[i := y])))"
proof -
  have s: "xs[i := y] = take i xs @ y # drop (Suc i) xs" using assms(2) by (rule upd_conv_take_nth_drop)
  have x: "xs = take i xs @ xs ! i # drop (Suc i) xs" using assms(2) by (rule id_take_nth_drop)
  have d: "distinct (map f (filter P (take i xs @ drop (Suc i) xs)))"
    using assms(1) by (subst (asm) x) (auto split: if_splits)
  have "f z \<noteq> f y" if "z \<in> set (take i xs @ drop (Suc i) xs)" "P z" for z
  proof -
    from that(1) consider j where "j < i" "xs ! j = z" | j where "Suc i + j < length xs" "xs ! (Suc i + j) = z"
      using assms(2) by (auto simp: in_set_conv_nth less_diff_conv add.commute)
    then show ?thesis
    proof cases
      case 1
      then have "j < length xs" "j \<noteq> i" using assms(2) by simp_all
      with assms(4) 1(2) that(2) show ?thesis by blast
    next
      case 2
      then have "Suc i + j \<noteq> i" by simp
      with assms(4) 2 that(2) show ?thesis by blast
    qed
  qed
  then have "f y \<notin> f ` {z \<in> set (take i xs @ drop (Suc i) xs). P z}" by force
  then show ?thesis unfolding s using d assms(3) by auto
qed

lemma distinct_filter_nth:
  "distinct (map f (filter P xs)) \<Longrightarrow> i < length xs \<Longrightarrow> j < length xs \<Longrightarrow> P (xs ! i) \<Longrightarrow> P (xs ! j) \<Longrightarrow> f (xs ! i) = f (xs ! j) \<Longrightarrow> i = j"
proof (induction xs arbitrary: i j)
  case (Cons x xs)
  then show ?case
  proof (cases i; cases j)
    fix k l assume k: "i = Suc k" "j = Suc l"
    with Cons show ?thesis by (auto split: if_splits)
  qed (use Cons in \<open>auto simp: image_iff split: if_splits dest: nth_mem\<close>)
qed simp

lemma sends_ok_track:
  assumes "sends_ok cl" and "now \<noteq> 0"
  shows "sends_ok (fst (spam_track cl target txt now window)) \<and>
    ((fnv target, fnv txt), now) \<in> set (c_spam_ring (fst (spam_track cl target txt now window)))"
proof -
  let ?p = "(fnv target, fnv txt)"
  let ?r = "c_spam_ring cl"
  have len: "length ?r = SPAM_TRACK" "c_spam_head cl < SPAM_TRACK" "distinct (map fst (filter used ?r))"
    using assms(1) by (auto simp: sends_ok_def)
  obtain hit where h: "hit < length ?r" "\<forall>j < length ?r. j \<noteq> hit \<longrightarrow> used (?r ! j) \<longrightarrow> fst (?r ! j) \<noteq> ?p"
    "c_spam_ring (fst (spam_track cl target txt now window)) = ?r[hit := (?p, now)]"
    "c_spam_head (fst (spam_track cl target txt now window)) < SPAM_TRACK"
  proof (cases "ring_slot_for ?p ?r")
    case None
    then have "\<forall>j < length ?r. used (?r ! j) \<longrightarrow> fst (?r ! j) \<noteq> ?p"
      by (auto simp: ring_slot_for_def find_None_iff used_def)
    moreover have "(c_spam_head cl + 1) mod SPAM_TRACK < SPAM_TRACK" by (simp add: SPAM_TRACK_def)
    ultimately show ?thesis using that [of "c_spam_head cl"] len None
      by (simp add: spam_track_def Let_def)
  next
    case (Some i)
    then have i: "i < length ?r" "used (?r ! i)" "fst (?r ! i) = ?p"
      by (auto simp: ring_slot_for_def find_Some_iff used_def)
    have "fst (?r ! j) \<noteq> ?p" if "j < length ?r" "j \<noteq> i" "used (?r ! j)" for j
      using len(3) that i distinct_filter_nth by metis
    with i Some show ?thesis using that [of i] len by (auto simp: spam_track_def Let_def)
  qed
  have "distinct (map fst (filter used (?r[hit := (?p, now)])))"
    using filter_update_distinct [OF len(3) h(1), of "(?p, now)"] h(2) assms(2) by (simp add: used_def)
  then show ?thesis using h len(1) by (auto simp: sends_ok_def set_update_memI)
qed

lemma count_same_card:
  assumes "distinct (map fst (filter used ring))"
  shows "count_same now window tx ring = card {tg. \<exists>e \<in> set ring. in_window now window e \<and> fst e = (tg, tx)}"
proof -
  define l where "l = filter (\<lambda>e. in_window now window e \<and> snd (fst e) = tx) ring"
  have "l = filter (\<lambda>e. in_window now window e \<and> snd (fst e) = tx) (filter used ring)"
    by (auto simp: l_def in_window_def used_def intro: filter_cong)
  then have d: "distinct (map fst l)" using distinct_map_filter [OF assms] by simp
  then have "distinct (map (fst \<circ> fst) l)"
    by (auto simp: distinct_map inj_on_def l_def prod_eq_iff)
  then have "length l = card (set (map (fst \<circ> fst) l))" using distinct_card by fastforce
  moreover have "set (map (fst \<circ> fst) l) = {tg. \<exists>e \<in> set ring. in_window now window e \<and> fst e = (tg, tx)}"
    by (force simp: l_def)
  ultimately show ?thesis by (simp add: count_same_def l_def)
qed

definition sent_all :: "(string \<times> string \<times> int \<times> int) list \<Rightarrow> client \<Rightarrow> client" where
  "sent_all sends cl = fold (\<lambda>(target, txt, at, window) c. fst (spam_track c target txt at window)) sends cl"

text \<open>
  Whatever a connection has sent before, \<open>spam_track\<close> reports exactly the number of different
  targets, and of different targets of this same text, among the sends it remembers from within the
  window (targets and texts by their hash): no send is counted twice, and the send just made is
  among those counted.
\<close>

theorem spam_track_counts:
  assumes "\<forall>(target, txt, at, w) \<in> set sends. at > 0" and "now > 0" and "window \<ge> 0"
  shows "let (cl, targets, same) = spam_track (sent_all sends (client_new fd start)) target txt now window;
             recent = {p. \<exists>at. (p, at) \<in> set (c_spam_ring cl) \<and> in_window now window (p, at)}
         in targets = card (fst ` recent) \<and> same = card {tg. (tg, fnv txt) \<in> recent} \<and> (fnv target, fnv txt) \<in> recent"
proof -
  have "sends_ok (sent_all sends cl)" if "sends_ok cl" for cl
    using that assms(1) unfolding sent_all_def
  proof (induction sends arbitrary: cl)
    case (Cons x sends)
    obtain t y at w where x: "x = (t, y, at, w)" by (metis prod_cases4)
    have "sends_ok (fst (spam_track cl t y at w))" using sends_ok_track [OF Cons.prems(1), of at t y w] Cons.prems(2) x by auto
    with Cons x show ?case by auto
  qed simp
  moreover have "sends_ok (client_new fd start)" by (simp add: sends_ok_def client_new_def SPAM_TRACK_def used_def)
  ultimately have ok: "sends_ok (sent_all sends (client_new fd start))" by blast
  define r where "r = spam_track (sent_all sends (client_new fd start)) target txt now window"
  have r: "sends_ok (fst r)" "((fnv target, fnv txt), now) \<in> set (c_spam_ring (fst r))"
    using sends_ok_track [OF ok, of now target "txt" window] assms(2) by (simp_all add: r_def)
  have c: "fst (snd r) = count_targets now window (c_spam_ring (fst r))" "snd (snd r) = count_same now window (fnv txt) (c_spam_ring (fst r))"
    by (simp_all add: r_def spam_track_def Let_def split: option.split)
  define recent where "recent = {p. \<exists>tm. (p, tm) \<in> set (c_spam_ring (fst r)) \<and> in_window now window (p, tm)}"
  have "fst ` recent = (fst \<circ> fst) ` {e \<in> set (c_spam_ring (fst r)). in_window now window e}"
  proof -
    have "recent = fst ` {e \<in> set (c_spam_ring (fst r)). in_window now window e}"
      by (auto simp: recent_def image_iff Bex_def)
    then show ?thesis by (simp add: image_comp)
  qed
  then have "fst (snd r) = card (fst ` recent)"
    using count_first_occurrences [of "in_window now window" "c_spam_ring (fst r)" "fst \<circ> fst"]
    by (simp add: c count_targets_def comp_def)
  moreover have "snd (snd r) = card {tg. (tg, fnv txt) \<in> recent}"
    using count_same_card [of "c_spam_ring (fst r)" now window "fnv txt"] r(1)
    by (simp add: c recent_def sends_ok_def Bex_def)
  moreover have "(fnv target, fnv txt) \<in> recent"
    using r(2) assms by (auto simp: recent_def in_window_def)
  ultimately show ?thesis unfolding r_def [symmetric] case_prod_beta Let_def recent_def [symmetric] by blast
qed

theorem spam_track_counts_witness:
  "let (cl, targets, same) = spam_track (sent_all [(''bob'', ''hi there'', 100, 60), (''eve'', ''hi there'', 110, 60)] (client_new 5 0)) ''ann'' ''hi there'' 120 60;
       recent = {p. \<exists>at. (p, at) \<in> set (c_spam_ring cl) \<and> in_window 120 60 (p, at)}
   in targets = card (fst ` recent) \<and> same = card {tg. (tg, fnv ''hi there'') \<in> recent} \<and> (fnv ''ann'', fnv ''hi there'') \<in> recent"
  by (rule spam_track_counts) simp_all

section \<open>What slips through\<close>

text \<open>
  A rule whose duration is the largest the parser yields is lost when it is written to the
  filter file: the printed duration is longer than the 15 characters the parser reads, so the line
  is rejected when the file is loaded again.
\<close>

definition long_rule :: spam_filter where
  "long_rule = \<lparr>sf_targets = 1, sf_action = SPAM_KILL, sf_duration = 9223372036854775807, sf_reason = ''spam'', sf_pattern = ''viagra''\<rparr>"

theorem spam_rule_long_duration_lost:
  "parse_line (''p kill 99999999999999w '' @ [QUOTE] @ ''spam'' @ [QUOTE] @ '' viagra'') = Rule long_rule \<and>
   parse_line (format_rule 700 long_rule @ [LF]) = Bad ''reason must be in double quotes''"
proof
  have d: "duration_digits 0 ''99999999999999w'' = (99999999999999, ''w'')"
    by (simp add: ctype_simps digit_val_def LONG_MAX_def)
  have d: "irc_parse_duration ''99999999999999w'' = 9223372036854775807"
    unfolding irc_parse_duration_def d Let_def prod.case
    by (simp add: ctype_simps duration_unit_def c_tolower_def LONG_MAX_def)
  have h: "scan_head (''p kill 99999999999999w '' @ [QUOTE] @ ''spam'' @ [QUOTE] @ '' viagra'') =
      Some (''p'', ''kill'', ''99999999999999w'', [QUOTE] @ ''spam'' @ [QUOTE] @ '' viagra'')" by code_simp
  have w: "dropWhile c_isspace (''p kill 99999999999999w '' @ [QUOTE] @ ''spam'' @ [QUOTE] @ '' viagra'') =
      ''p kill 99999999999999w '' @ [QUOTE] @ ''spam'' @ [QUOTE] @ '' viagra''" by code_simp
  have t: "spam_parse_targets ''p'' = 1" "parse_action ''kill'' = Some SPAM_KILL" by code_simp+
  have b: "parse_body 1 SPAM_KILL 9223372036854775807 ([QUOTE] @ ''spam'' @ [QUOTE] @ '' viagra'') = Rule long_rule"
    by (simp add: parse_body_def trim_spaces_def ctype_simps long_rule_def clip_def)
  show "parse_line (''p kill 99999999999999w '' @ [QUOTE] @ ''spam'' @ [QUOTE] @ '' viagra'') = Rule long_rule"
    unfolding parse_line_def w Let_def h option.case prod.case t d using b by simp
  have s: "show_int 9223372036854775807 = ''9223372036854775807''"
    by (simp add: show_int_def show_nat.simps digit_char_def, code_simp)
  have l: "letters_of 1 = ''p''" by code_simp
  have f: "format_rule 700 long_rule @ [LF] = ''p kill 9223372036854775807s '' @ [QUOTE] @ ''spam'' @ [QUOTE] @ '' viagra'' @ [LF]"
    unfolding format_rule_def letters_of_def [symmetric] by (simp add: long_rule_def l s action_name_def clip_def)
  have h: "scan_head (''p kill 9223372036854775807s '' @ [QUOTE] @ ''spam'' @ [QUOTE] @ '' viagra'' @ [LF]) =
      Some (''p'', ''kill'', ''922337203685477'', ''5807s '' @ [QUOTE] @ ''spam'' @ [QUOTE] @ '' viagra'' @ [LF])" by code_simp
  have w: "dropWhile c_isspace (''p kill 9223372036854775807s '' @ [QUOTE] @ ''spam'' @ [QUOTE] @ '' viagra'' @ [LF]) =
      ''p kill 9223372036854775807s '' @ [QUOTE] @ ''spam'' @ [QUOTE] @ '' viagra'' @ [LF]" by code_simp
  have d: "duration_digits 0 ''922337203685477'' = (922337203685477, [])"
    by (simp add: ctype_simps digit_val_def LONG_MAX_def)
  have d: "irc_parse_duration ''922337203685477'' = 922337203685477"
    unfolding irc_parse_duration_def d Let_def prod.case by (simp add: ctype_simps LONG_MAX_def)
  show "parse_line (format_rule 700 long_rule @ [LF]) = Bad ''reason must be in double quotes''"
    unfolding f parse_line_def w Let_def h option.case prod.case t d by (simp add: parse_body_def)
qed

text \<open>
  An argument that starts with a number sign is taken for a comment by the rule parser, which
  then writes no error text: the reply shows whatever the stack buffer held.
\<close>

theorem spamfilter_add_uninitialised:
  assumes "sp_filters_enabled cfg" and "length params \<ge> 6" and "take 1 (params ! 1) = ''#''" and "length (ss_filters ss) < SPAM_MAX_FILTERS"
  shows "snd (snd (spamfilter_add junk R cfg nick params file ss)) = [To_Self (clip 220 (''Rejected: '' @ clip 160 junk))]"
proof -
  obtain r where "params ! 1 = CHR ''#'' # r" using assms(3) by (cases "params ! 1") auto
  then have "parse_line (added_rule params) = Blank"
    by (simp add: added_rule_def parse_line_def clip_def ctype_simps)
  then show ?thesis using assms by (simp add: spamfilter_add_def)
qed

theorem spamfilter_add_uninitialised_witness:
  "snd (snd (spamfilter_add ''stack'' \<lparr>rx_comp = \<lambda>p. None, rx_exec = \<lambda>p t. False\<rparr>
     \<lparr>sp_enabled = True, sp_filters_enabled = True, sp_has_path = False, sp_exempt_opers = True, sp_exempt_identified = True,
      sp_new_user_period = 0, sp_max_targets = 0, sp_max_repeat = 0, sp_target_window = 60, sp_trust_age = 0, sp_zline_duration = 0,
      sp_limit_action = ''block''\<rparr> ''op'' [''ADD'', ''#p'', ''block'', ''-'', ''reason'', ''viagra''] None
     \<lparr>ss_filters = [], ss_hits = 0, ss_lines = \<lparr>kt_lines = [], kt_gen = 0, kt_dirty = False\<rparr>,
      ss_q = \<lparr>ev_clients = [], ev_dirty = [], ev_dead = []\<rparr>\<rparr>)) = [To_Self ''Rejected: stack'']"
  by (subst spamfilter_add_uninitialised) (simp_all add: SPAM_MAX_FILTERS_def clip_def)

text \<open>
  Services and operators can always be reached: whatever the filters and limits, a private
  message to one is delivered and nothing about the sender changes.
\<close>

theorem helpers_reachable:
  assumes "lookup target = Some d" and "c_is_service d \<or> has (c_umodes d) UMODE_O" and "take 1 target \<noteq> ''#''" and "message_target target = target"
  shows "spam_check_message R sp now all lookup i target txt is_notice ss = (0, ss, [])"
  using assms by (simp add: spam_check_message_def Let_def)

text \<open>
  The age floor for accounts holds for messages only: an account registered a moment ago is
  exempt from every filter on AWAY, QUIT, PART and TOPIC texts when identified users are exempt.
\<close>

theorem text_filters_skip_new_accounts:
  assumes "sp_exempt_identified sp" and "c_account (ev_client (ss_q ss) i) \<noteq> []"
    and "c_acct_created (ev_client (ss_q ss) i) > now - sp_new_user_period sp"
  shows "spam_check_text R sp now all i kind txt ss = (0, ss, []) \<and> \<not> trusted_account sp now (ev_client (ss_q ss) i)"
  using assms by (auto simp: spam_check_text_def is_exempt_def trusted_account_def Let_def split: if_splits)

end
