(* ===== verification/Protection.thy ===== *)
theory Protection
  imports Klines
begin

unbundle bit_operations_syntax

text \<open>
  The open-proxy scanner and blacklist policy (src/src/protection.c): the pure helpers, the two
  direct-mapped tables, the life of a probe from its connect to its verdict, and what a confirmed
  proxy leads to. Sockets are inputs and outputs: a probe that connects, becomes ready or is read
  is an argument, what it writes and that it is closed are outputs. A probe is named by a number
  that stands for its address. The reports of PROTECT and the log are not modelled.
\<close>

section \<open>Configuration\<close>

definition SCAN_HTTP :: nat where "SCAN_HTTP = 1"
definition SCAN_HTTPPOST :: nat where "SCAN_HTTPPOST = 2"
definition SCAN_SOCKS4 :: nat where "SCAN_SOCKS4 = 3"
definition SCAN_SOCKS5 :: nat where "SCAN_SOCKS5 = 4"

record blacklist =
  bz_bitmask :: bool
  bz_ban_unknown :: bool
  bz_replies :: "(32 word \<times> string) list"

text \<open>\<open>cp_timeout_secs\<close> is the timeout rounded up to whole seconds, as \<open>start_probe\<close> rounds it.\<close>

record prot_cfg =
  cp_exempt :: "string list"
  cp_blacklists :: "blacklist list"
  cp_scan_enabled :: bool
  cp_scan_action :: string
  cp_ban_duration :: string
  cp_scan_reason :: string
  cp_timeout_secs :: int
  cp_max_read :: nat
  cp_max_concurrent :: nat
  cp_negcache :: int
  cp_target_ip :: string
  cp_target_port :: nat
  cp_target_strings :: "string list"
  cp_protocols :: "(nat \<times> nat) list"

definition config_scan_proto_name :: "nat \<Rightarrow> string" where
  "config_scan_proto_name t =
     (if t = SCAN_HTTP then ''http'' else if t = SCAN_HTTPPOST then ''httppost'' else if t = SCAN_SOCKS4 then ''socks4''
      else if t = SCAN_SOCKS5 then ''socks5'' else ''?'')"

section \<open>Pure helpers\<close>

fun find_at :: "nat \<Rightarrow> string \<Rightarrow> string \<Rightarrow> nat option" where
  "find_at i hay needle =
     (if length needle > length hay then None
      else if starts_with needle hay then Some i
      else case hay of [] \<Rightarrow> None | c # r \<Rightarrow> find_at (Suc i) r needle)"

declare find_at.simps [simp del]

definition protection_find :: "string \<Rightarrow> string \<Rightarrow> nat option" where
  "protection_find hay needle = (if needle = [] \<or> length needle > length hay then None else find_at 0 hay needle)"

definition expansion :: "string \<Rightarrow> string \<Rightarrow> string \<Rightarrow> char \<Rightarrow> string option" where
  "expansion ip t r c =
     (if c = CHR ''i'' then Some ip else if c = CHR ''t'' then Some t else if c = CHR ''r'' \<or> c = CHR ''p'' then Some r
      else if c = CHR ''%'' then Some ''%'' else None)"

fun expand_loop :: "string \<Rightarrow> string \<Rightarrow> string \<Rightarrow> nat \<Rightarrow> string \<Rightarrow> string" where
  "expand_loop ip t r room [] = []"
| "expand_loop ip t r room [c] = (if room = 0 then [] else [c])"
| "expand_loop ip t r room (c # d # s) =
     (if room = 0 then []
      else case (if c = CHR ''%'' then expansion ip t r d else None) of
        Some sub \<Rightarrow> take room sub @ expand_loop ip t r (room - length sub) s
      | None \<Rightarrow> c # expand_loop ip t r (room - 1) (d # s))"

definition protection_expand :: "string \<Rightarrow> string \<Rightarrow> string \<Rightarrow> string \<Rightarrow> nat \<Rightarrow> string" where
  "protection_expand tmpl ip t r outsz = expand_loop ip t r (outsz - 1) tmpl"

abbreviation CRLF :: string where "CRLF \<equiv> [CR, LF]"

definition probe_body :: string where
  "probe_body = ''PING :protection'' @ CRLF"

text \<open>The empty string is a length of 0: nothing is sent.\<close>

definition protection_probe_bytes :: "inet \<Rightarrow> nat \<Rightarrow> string \<Rightarrow> nat \<Rightarrow> nat \<Rightarrow> nat \<Rightarrow> string" where
  "protection_probe_bytes I type target_ip port stage outcap =
     (case inet_pton4 I target_ip of
        None \<Rightarrow> []
      | Some b \<Rightarrow>
          (let ip = map (\<lambda>w. char_of (unat w)) b;
               ports = [char_of (port div 256 mod 256), char_of (port mod 256)];
               fits = (\<lambda>s. if length s < outcap then s else [])
           in if outcap < 32 then []
              else if type = SCAN_HTTP then fits (''CONNECT '' @ target_ip @ '':'' @ show_nat port @ '' HTTP/1.0'' @ CRLF @ CRLF)
              else if type = SCAN_HTTPPOST then
                fits (''POST http://'' @ target_ip @ '':'' @ show_nat port @ ''/ HTTP/1.0'' @ CRLF @ ''Content-Type: text/plain'' @ CRLF @
                  ''Content-Length: '' @ show_nat (length probe_body) @ CRLF @ CRLF @ probe_body)
              else if type = SCAN_SOCKS4 then [CHR 0x04, CHR 0x01] @ ports @ ip @ [CHR 0x00]
              else if type = SCAN_SOCKS5 then
                (if stage = 0 then [CHR 0x05, CHR 0x01, CHR 0x00] else [CHR 0x05, CHR 0x01, CHR 0x00, CHR 0x01] @ ip @ ports)
              else []))"

text \<open>A reply code of a zone, \<open>None\<close> for -1 (not listed).\<close>

fun bl_scan :: "nat \<Rightarrow> blacklist list \<Rightarrow> 32 word option list \<Rightarrow> (nat \<times> string) option" where
  "bl_scan i (z # zs) (Some code # codes) =
     (let unknown = ''reply '' @ show_nat (unat code)
      in if bz_replies z = [] then Some (i, unknown)
         else case find (\<lambda>(c, txt). if bz_bitmask z then code AND c \<noteq> 0 else code = c) (bz_replies z) of
           Some (c, txt) \<Rightarrow> Some (i, txt)
         | None \<Rightarrow> if bz_ban_unknown z then Some (i, unknown) else bl_scan (Suc i) zs codes)"
| "bl_scan i (z # zs) (None # codes) = bl_scan (Suc i) zs codes"
| "bl_scan i zs codes = None"

definition protection_bl_match :: "prot_cfg \<Rightarrow> 32 word option list \<Rightarrow> nat \<Rightarrow> (nat \<times> string) option" where
  "protection_bl_match p codes replysz = map_option (\<lambda>(i, t). (i, clip replysz t)) (bl_scan 0 (cp_blacklists p) codes)"

definition protection_exempt :: "inet \<Rightarrow> prot_cfg \<Rightarrow> string \<Rightarrow> bool" where
  "protection_exempt I p ip = list_ex (\<lambda>m. irc_ip_mask_match I m ip) (cp_exempt p)"

section \<open>The two tables\<close>

definition PROT_NEGCACHE_SLOTS :: nat where "PROT_NEGCACHE_SLOTS = 1024"
definition PROT_RECENT_SLOTS :: nat where "PROT_RECENT_SLOTS = 64"

type_synonym slots = "(32 word \<times> int) list"

definition slot_for :: "slots \<Rightarrow> 32 word \<Rightarrow> nat" where
  "slot_for tab ip = unat (ip * 2654435761) mod length tab"

definition slot_live :: "slots \<Rightarrow> 32 word \<Rightarrow> int \<Rightarrow> bool" where
  "slot_live tab ip now \<longleftrightarrow> fst (tab ! slot_for tab ip) = ip \<and> snd (tab ! slot_for tab ip) > now"

definition slot_set :: "32 word \<Rightarrow> int \<Rightarrow> slots \<Rightarrow> slots" where
  "slot_set ip ends tab = tab[slot_for tab ip := (ip, ends)]"

definition protection_negcache_count :: "slots \<Rightarrow> int \<Rightarrow> nat" where
  "protection_negcache_count tab now = length (filter (\<lambda>s. snd s > now) tab)"

section \<open>A probe\<close>

definition SCAN_BUF :: nat where "SCAN_BUF = 1024"
definition SCAN_KEEP :: nat where "SCAN_KEEP = 256"
definition RECENT_GRACE :: int where "RECENT_GRACE = 15"

datatype scan_state = ST_CONNECTING | ST_S5_GREET | ST_READING

record scan =
  sc_id :: nat
  sc_ip_be :: "32 word"
  sc_ip :: string
  sc_proto :: nat
  sc_port :: nat
  sc_state :: scan_state
  sc_deadline :: int
  sc_buf :: string
  sc_nread :: nat

record prot_state =
  ps_scans :: "scan list"
  ps_n_scans :: nat
  ps_scanned :: nat
  ps_hits :: nat
  ps_negcache :: slots
  ps_recent :: slots
  ps_next :: nat
  ps_lines :: kline_table
  ps_q :: evq

datatype prot_output =
  Probe_Send nat string
| Probe_Close nat
| Tell_Opers string

text \<open>\<open>s_addr\<close>: the four bytes in network order, as the word a little-endian machine reads.\<close>

definition s_addr :: "u8 list \<Rightarrow> 32 word" where
  "s_addr b = word_rcat (rev b)"

definition scan_unlink :: "nat \<Rightarrow> prot_state \<Rightarrow> prot_state \<times> prot_output list" where
  "scan_unlink s st =
     (if s \<in> sc_id ` set (ps_scans st)
      then (st\<lparr>ps_scans := filter (\<lambda>x. sc_id x \<noteq> s) (ps_scans st), ps_n_scans := ps_n_scans st - 1\<rparr>, [Probe_Close s])
      else (st, [Probe_Close s]))"

definition ip_has_scans :: "32 word \<Rightarrow> prot_state \<Rightarrow> bool" where
  "ip_has_scans ip st = list_ex (\<lambda>s. sc_ip_be s = ip) (ps_scans st)"

definition protection_scan_live :: "nat \<Rightarrow> prot_state \<Rightarrow> bool" where
  "protection_scan_live s st = list_ex (\<lambda>x. sc_id x = s) (ps_scans st)"

definition scan_done_clean :: "prot_cfg \<Rightarrow> int \<Rightarrow> scan \<Rightarrow> prot_state \<Rightarrow> prot_state \<times> prot_output list" where
  "scan_done_clean p now s st =
     (let (st1, out) = scan_unlink (sc_id s) st; ip = sc_ip_be s
      in if ip_has_scans ip st1 then (st1, out)
         else (st1\<lparr>ps_scanned := ps_scanned st1 + 1,
                   ps_recent := slot_set ip (now + RECENT_GRACE) (ps_recent st1),
                   ps_negcache := (if cp_negcache p > 0 then slot_set ip (now + cp_negcache p) (ps_negcache st1) else ps_negcache st1)\<rparr>,
               out))"

fun drop_scans :: "nat list \<Rightarrow> prot_state \<Rightarrow> prot_state \<times> prot_output list" where
  "drop_scans [] st = (st, [])"
| "drop_scans (s # ss) st = (let (st1, o1) = scan_unlink s st; (st2, o2) = drop_scans ss st1 in (st2, o1 @ o2))"

definition scan_hit :: "inet \<Rightarrow> prot_cfg \<Rightarrow> int \<Rightarrow> client_id list \<Rightarrow> scan \<Rightarrow> prot_state \<Rightarrow> prot_state \<times> prot_output list" where
  "scan_hit I p now all s st =
     (let ip = clip 16 (sc_ip s);
          reason = protection_expand (cp_scan_reason p) ip (config_scan_proto_name (sc_proto s)) (clip 8 (show_nat (sc_port s))) 350;
          (st1, o1) = drop_scans (map sc_id (filter (\<lambda>x. sc_ip_be x = sc_ip_be s) (ps_scans st))) st;
          st2 = st1\<lparr>ps_hits := ps_hits st1 + 1, ps_scanned := ps_scanned st1 + 1,
                    ps_recent := slot_set (sc_ip_be s) (now + RECENT_GRACE) (ps_recent st1)\<rparr>;
          d = (if cp_ban_duration p \<noteq> [] then irc_parse_duration (cp_ban_duration p) else 0);
          dur = (if d < 0 then 0 else d);
          reject = (cp_scan_action p = ''reject'');
          (kt, o2) = (if \<not> reject
             then (let (kt, sn) = server_kline_add now ip reason ''protection'' (if cp_scan_action p = ''kline'' then ''K'' else ''Z'') dur (ps_lines st2)
                   in (kt, map Tell_Opers sn))
             else (ps_lines st2, [Tell_Opers (clip 400 (''Rejected connection from '' @ ip @ '': '' @ reason))]));
          quit = clip 400 (if reject then reason else ''Z-Lined: '' @ reason);
          (killed, q) = server_kline_enforce I kt ip ''Z'' quit None all (ps_q st2)
      in (st2\<lparr>ps_lines := kt, ps_q := q\<rparr>, o1 @ o2))"

definition protection_ip_related :: "inet \<Rightarrow> int \<Rightarrow> string \<Rightarrow> prot_state \<Rightarrow> bool \<times> prot_state" where
  "protection_ip_related I now ip st =
     (case inet_pton4 I ip of
        None \<Rightarrow> (False, st)
      | Some b \<Rightarrow>
          (if \<not> ip_has_scans (s_addr b) st \<and> \<not> slot_live (ps_recent st) (s_addr b) now then (False, st)
           else (True, st\<lparr>ps_recent := slot_set (s_addr b) now (ps_recent st)\<rparr>)))"

text \<open>\<open>ok\<close>: the socket could be made and its connect was started.\<close>

definition start_probe :: "prot_cfg \<Rightarrow> int \<Rightarrow> bool \<Rightarrow> 32 word \<Rightarrow> string \<Rightarrow> nat \<times> nat \<Rightarrow> prot_state \<Rightarrow> nat \<times> prot_state" where
  "start_probe p now ok ip_be ip pr st =
     (if \<not> ok then (0, st)
      else (1, st\<lparr>ps_scans := \<lparr>sc_id = ps_next st, sc_ip_be = ip_be, sc_ip = clip 16 ip, sc_proto = fst pr, sc_port = snd pr,
                    sc_state = ST_CONNECTING, sc_deadline = now + cp_timeout_secs p, sc_buf = [], sc_nread = 0\<rparr> # ps_scans st,
                  ps_n_scans := ps_n_scans st + 1, ps_next := ps_next st + 1\<rparr>))"

fun start_probes :: "prot_cfg \<Rightarrow> int \<Rightarrow> (nat \<times> nat \<Rightarrow> bool) \<Rightarrow> 32 word \<Rightarrow> string \<Rightarrow> (nat \<times> nat) list \<Rightarrow> prot_state \<Rightarrow> nat \<times> prot_state" where
  "start_probes p now oks ip_be ip [] st = (0, st)"
| "start_probes p now oks ip_be ip (pr # prs) st =
     (let (n1, st1) = start_probe p now (oks pr) ip_be ip pr st; (n2, st2) = start_probes p now oks ip_be ip prs st1 in (n1 + n2, st2))"

definition protection_scan_start :: "inet \<Rightarrow> prot_cfg \<Rightarrow> int \<Rightarrow> (nat \<times> nat \<Rightarrow> bool) \<Rightarrow> string \<Rightarrow> prot_state \<Rightarrow> nat \<times> prot_state" where
  "protection_scan_start I p now oks ip st =
     (case inet_pton4 I ip of
        None \<Rightarrow> (0, st)
      | Some b \<Rightarrow>
          (if \<not> cp_scan_enabled p \<or> cp_protocols p = [] \<or> protection_exempt I p ip \<or> slot_live (ps_negcache st) (s_addr b) now \<or>
              ip_has_scans (s_addr b) st \<or> ps_n_scans st + length (cp_protocols p) > cp_max_concurrent p then (0, st)
           else (let (started, st1) = start_probes p now oks (s_addr b) ip (cp_protocols p) st
                 in (started, if started \<noteq> 0
                     then st1\<lparr>ps_recent := slot_set (s_addr b) (now + cp_timeout_secs p + RECENT_GRACE) (ps_recent st1)\<rparr> else st1))))"

section \<open>Events\<close>

definition POLLIN :: "16 word" where "POLLIN = 0x001"
definition POLLOUT :: "16 word" where "POLLOUT = 0x004"
definition POLLERR :: "16 word" where "POLLERR = 0x008"
definition POLLHUP :: "16 word" where "POLLHUP = 0x010"

datatype recv_result = Recv_Bytes string | Recv_Again | Recv_Error

definition scan_send :: "inet \<Rightarrow> prot_cfg \<Rightarrow> nat \<Rightarrow> scan \<Rightarrow> prot_output list" where
  "scan_send I p stage s =
     (let req = protection_probe_bytes I (sc_proto s) (cp_target_ip p) (cp_target_port p) stage 512
      in if req \<noteq> [] then [Probe_Send (sc_id s) req] else [])"

definition scan_write :: "scan \<Rightarrow> prot_state \<Rightarrow> prot_state" where
  "scan_write s st = st\<lparr>ps_scans := map (\<lambda>x. if sc_id x = sc_id s then s else x) (ps_scans st)\<rparr>"

text \<open>The bytes of one read put behind what is kept of the earlier ones.\<close>

definition window_add :: "string \<Rightarrow> string \<Rightarrow> string" where
  "window_add buf tmp =
     (if length buf + length tmp > SCAN_BUF then drop (length buf - SCAN_KEEP) buf @ tmp else buf @ tmp)"

text \<open>The search of a buffer and the limit on what is read.\<close>

definition scan_search :: "inet \<Rightarrow> prot_cfg \<Rightarrow> int \<Rightarrow> client_id list \<Rightarrow> scan \<Rightarrow> prot_state \<Rightarrow> prot_state \<times> prot_output list" where
  "scan_search I p now all s st =
     (if list_ex (\<lambda>needle. protection_find (sc_buf s) needle \<noteq> None) (cp_target_strings p) then scan_hit I p now all s st
      else if sc_nread s \<ge> cp_max_read p then scan_done_clean p now s st
      else (st, []))"

definition protection_handle ::
  "inet \<Rightarrow> prot_cfg \<Rightarrow> int \<Rightarrow> client_id list \<Rightarrow> 16 word \<Rightarrow> bool \<Rightarrow> recv_result \<Rightarrow> scan \<Rightarrow> prot_state \<Rightarrow> prot_state \<times> prot_output list" where
  "protection_handle I p now all revents connected received s st =
     (if sc_state s = ST_CONNECTING then
        (if revents AND (POLLOUT OR POLLERR OR POLLHUP) = 0 then (st, [])
         else if \<not> connected then scan_done_clean p now s st
         else (scan_write (s\<lparr>sc_state := (if sc_proto s = SCAN_SOCKS5 then ST_S5_GREET else ST_READING)\<rparr>) st, scan_send I p 0 s))
      else if revents AND (POLLIN OR POLLERR OR POLLHUP) = 0 then (st, [])
      else case received of
        Recv_Again \<Rightarrow> (st, [])
      | Recv_Error \<Rightarrow> scan_done_clean p now s st
      | Recv_Bytes tmp \<Rightarrow>
          (if tmp = [] then scan_done_clean p now s st
           else let s1 = s\<lparr>sc_nread := sc_nread s + length tmp, sc_buf := window_add (sc_buf s) tmp\<rparr>
                in if sc_state s1 = ST_S5_GREET then
                     (if length (sc_buf s1) < 2 then (scan_write s1 st, [])
                      else if sc_buf s1 ! 0 \<noteq> CHR 0x05 \<or> sc_buf s1 ! 1 \<noteq> CHR 0x00 then scan_done_clean p now s1 (scan_write s1 st)
                      else let s2 = s1\<lparr>sc_buf := drop 2 (sc_buf s1), sc_state := ST_READING\<rparr>;
                               (st2, out) = scan_search I p now all s2 (scan_write s2 st)
                           in (st2, scan_send I p 1 s1 @ out))
                   else scan_search I p now all s1 (scan_write s1 st)))"

fun tick_loop :: "prot_cfg \<Rightarrow> int \<Rightarrow> scan list \<Rightarrow> prot_state \<Rightarrow> prot_state \<times> prot_output list" where
  "tick_loop p now [] st = (st, [])"
| "tick_loop p now (s # ss) st =
     (if now \<ge> sc_deadline s
      then (let (st1, o1) = scan_done_clean p now s st; (st2, o2) = tick_loop p now ss st1 in (st2, o1 @ o2))
      else tick_loop p now ss st)"

definition protection_tick :: "prot_cfg \<Rightarrow> int \<Rightarrow> prot_state \<Rightarrow> prot_state \<times> prot_output list" where
  "protection_tick p now st = tick_loop p now (ps_scans st) st"

definition protection_free :: "prot_state \<Rightarrow> prot_state \<times> prot_output list" where
  "protection_free st = drop_scans (map sc_id (ps_scans st)) st"

text \<open>PROTECT SCAN, for an operator who names an address.\<close>

definition protect_scan :: "inet \<Rightarrow> prot_cfg \<Rightarrow> int \<Rightarrow> (nat \<times> nat \<Rightarrow> bool) \<Rightarrow> string list \<Rightarrow> prot_state \<Rightarrow> string \<times> prot_state" where
  "protect_scan I p now oks params st =
     (case (if length params < 2 then None else inet_pton4 I (params ! 1)) of
        None \<Rightarrow> (''Usage: PROTECT SCAN <ipv4-address>'', st)
      | Some b \<Rightarrow>
          (if \<not> cp_scan_enabled p then (''The proxy scanner is not enabled ([scanner] enabled = true in the Protection bundle file)'', st)
           else let (n, st1) = protection_scan_start I p now oks (params ! 1) (st\<lparr>ps_negcache := slot_set (s_addr b) 0 (ps_negcache st)\<rparr>)
                in (clip 400 (if n \<noteq> 0 then ''Scanning '' @ params ! 1 @ '' with '' @ show_nat n @ '' probe(s)''
                      else ''Not scanning '' @ params ! 1 @ '' (exempt, already being scanned, or the scanner is at max_concurrent)''), st1)))"

section \<open>The window finds every banner\<close>

lemma find_at_sublist: "find_at i hay needle \<noteq> None \<longleftrightarrow> sublist needle hay"
proof (induction i hay needle rule: find_at.induct)
  case (1 i hay needle)
  show ?case
  proof (cases "starts_with needle hay \<or> length needle > length hay")
    case True
    then show ?thesis
      by (subst find_at.simps)
        (auto simp: starts_with_prefix dest: sublist_length_le prefix_length_le intro: prefix_imp_sublist split: if_splits)
  next
    case False
    then have np: "\<not> prefix needle hay" by (simp add: starts_with_prefix)
    show ?thesis
    proof (cases hay)
      case Nil
      then show ?thesis using False np by (subst find_at.simps) simp
    next
      case (Cons c r)
      then have "find_at (Suc i) r needle \<noteq> None \<longleftrightarrow> sublist needle r" using False by (intro 1) simp_all
      then show ?thesis using False np Cons by (subst find_at.simps) (simp add: sublist_Cons_right)
    qed
  qed
qed

lemma protection_find_iff: "protection_find hay needle \<noteq> None \<longleftrightarrow> needle \<noteq> [] \<and> sublist needle hay"
  using find_at_sublist [of 0 hay needle] by (auto simp: protection_find_def dest: sublist_length_le)

definition window_ok :: "string \<Rightarrow> string \<Rightarrow> bool" where
  "window_ok stream buf \<longleftrightarrow> length buf \<le> SCAN_BUF \<and> (\<exists>old. stream = old @ buf \<and> (old = [] \<or> SCAN_KEEP \<le> length buf))"

lemma window_ok_add:
  assumes "window_ok stream buf" and "length tmp \<le> 512"
  shows "window_ok (stream @ tmp) (window_add buf tmp)"
proof -
  obtain old where old: "stream = old @ buf" "old = [] \<or> SCAN_KEEP \<le> length buf" using assms(1) by (auto simp: window_ok_def)
  show ?thesis
  proof (cases "length buf + length tmp > SCAN_BUF")
    case True
    then have "length (drop (length buf - SCAN_KEEP) buf) = SCAN_KEEP" using assms(2) by (simp add: SCAN_BUF_def SCAN_KEEP_def)
    then show ?thesis using True assms(2) old
      unfolding window_ok_def window_add_def
      by (auto intro!: exI [of _ "old @ take (length buf - SCAN_KEEP) buf"] simp: SCAN_BUF_def SCAN_KEEP_def)
  next
    case False
    then show ?thesis using old by (auto simp: window_ok_def window_add_def)
  qed
qed

lemma window_finds:
  assumes "window_ok stream buf" and "length tmp \<le> 512" and "length needle \<le> SCAN_KEEP + 1"
    and "sublist needle (stream @ tmp)" and "\<not> sublist needle stream" and "needle \<noteq> []"
  shows "sublist needle (window_add buf tmp)"
proof -
  obtain old where old: "stream = old @ buf" "old = [] \<or> SCAN_KEEP \<le> length buf" using assms(1) by (auto simp: window_ok_def)
  define keep where "keep = (if length buf + length tmp > SCAN_BUF then drop (length buf - SCAN_KEEP) buf else buf)"
  have w: "window_add buf tmp = keep @ tmp" by (simp add: window_add_def keep_def)
  obtain gone where g: "stream = gone @ keep" "gone = [] \<or> SCAN_KEEP \<le> length keep"
  proof (cases "length buf + length tmp > SCAN_BUF")
    case True
    then have "length keep = SCAN_KEEP" using assms(2) by (simp add: keep_def SCAN_BUF_def SCAN_KEEP_def)
    moreover have "stream = (old @ take (length buf - SCAN_KEEP) buf) @ keep" using True old by (simp add: keep_def)
    ultimately show ?thesis by (intro that [of "old @ take (length buf - SCAN_KEEP) buf"]) simp_all
  next
    case False
    with old that show ?thesis by (simp add: keep_def)
  qed
  obtain a b where ab: "stream @ tmp = a @ needle @ b" using assms(4) by (auto simp: sublist_def)
  have long: "length stream < length a + length needle"
  proof (rule ccontr)
    assume "\<not> length stream < length a + length needle"
    then have "take (length stream) (stream @ tmp) = a @ needle @ take (length stream - length a - length needle) b"
      unfolding ab by (simp add: take_append)
    then show False using assms(5) by (auto simp: sublist_def)
  qed
  show ?thesis
  proof (cases "length gone \<le> length a")
    case True
    then have "keep @ tmp = drop (length gone) a @ needle @ b"
    proof -
      have "drop (length gone) (gone @ keep @ tmp) = drop (length gone) (a @ needle @ b)" using ab g(1) by simp
      with True show ?thesis by simp
    qed
    then show ?thesis unfolding w by (auto simp: sublist_def)
  next
    case False
    then have "gone \<noteq> []" by auto
    then have "SCAN_KEEP \<le> length keep" using g(2) by blast
    then have "length gone + SCAN_KEEP \<le> length stream" using g(1) by simp
    then show ?thesis using long False assms(3) by simp
  qed
qed

text \<open>
  C38. The sliding window loses nothing: however the bytes that come back through a proxy are cut
  into reads of at most 512 bytes, the banner (a target string of at most 257 bytes) occurs in the
  stream exactly when one of the searches made after each read finds it, and the buffer never
  exceeds its 1024 bytes.
\<close>

theorem window_search_complete:
  assumes "\<forall>c \<in> set chunks. length c \<le> 512" and "needle \<noteq> []" and "length needle \<le> 257"
  shows "(sublist needle (concat chunks) \<longleftrightarrow>
      (\<exists>k \<le> length chunks. protection_find (foldl window_add [] (take k chunks)) needle \<noteq> None)) \<and>
     length (foldl window_add [] chunks) \<le> 1024"
proof -
  have ok: "window_ok (concat cs) (foldl window_add [] cs)" if "\<forall>c \<in> set cs. length c \<le> 512" for cs
    using that by (induction cs rule: rev_induct) (simp add: window_ok_def, simp add: window_ok_add)
  have fwd: "\<exists>k \<le> length cs. protection_find (foldl window_add [] (take k cs)) needle \<noteq> None"
    if "\<forall>c \<in> set cs. length c \<le> 512" "sublist needle (concat cs)" for cs
    using that
  proof (induction cs rule: rev_induct)
    case Nil
    then show ?case using assms(2) by simp
  next
    case (snoc c cs)
    show ?case
    proof (cases "sublist needle (concat cs)")
      case True
      with snoc obtain k where "k \<le> length cs" "protection_find (foldl window_add [] (take k cs)) needle \<noteq> None" by auto
      then show ?thesis by (intro exI [of _ k]) simp
    next
      case False
      then have "sublist needle (window_add (foldl window_add [] cs) c)"
        using snoc.prems ok [of cs] assms(2,3) by (intro window_finds [of "concat cs"]) (simp_all add: SCAN_KEEP_def)
      then show ?thesis using assms(2) by (intro exI [of _ "length (cs @ [c])"]) (simp add: protection_find_iff del: not_None_eq)
    qed
  qed
  have bwd: "sublist needle (concat chunks)"
    if k: "k \<le> length chunks" "protection_find (foldl window_add [] (take k chunks)) needle \<noteq> None" for k
  proof -
    have "window_ok (concat (take k chunks)) (foldl window_add [] (take k chunks))"
      using assms(1) by (intro ok) (auto dest: in_set_takeD)
    then obtain old where "concat (take k chunks) = old @ foldl window_add [] (take k chunks)" by (auto simp: window_ok_def)
    moreover have "concat chunks = concat (take k chunks) @ concat (drop k chunks)"
      by (metis append_take_drop_id concat_append)
    ultimately have "concat chunks = old @ foldl window_add [] (take k chunks) @ concat (drop k chunks)" by simp
    then have "sublist (foldl window_add [] (take k chunks)) (concat chunks)" unfolding sublist_def by blast
    moreover have "sublist needle (foldl window_add [] (take k chunks))" using k(2) by (simp only: protection_find_iff)
    ultimately show ?thesis by (rule sublist_order.order_trans [rotated])
  qed
  show ?thesis using fwd [OF assms(1)] bwd ok [OF assms(1)] by (auto simp: window_ok_def SCAN_BUF_def)
qed

theorem window_search_complete_witness:
  "(\<exists>k \<le> length [''NOTICE Au'', ''TH :*** Looking'']. protection_find (foldl window_add [] (take k [''NOTICE Au'', ''TH :*** Looking''])) ''AuTH'' \<noteq> None)"
proof -
  have "sublist ''AuTH'' (concat [''NOTICE Au'', ''TH :*** Looking''])"
    unfolding sublist_def by (rule exI [of _ "''NOTICE ''"]) (auto intro: exI [of _ "'' :*** Looking''"])
  then show ?thesis
    using window_search_complete [of "[''NOTICE Au'', ''TH :*** Looking'']" "''AuTH''"] by simp
qed

section \<open>The life of a probe\<close>

definition prot_ok :: "prot_cfg \<Rightarrow> prot_state \<Rightarrow> bool" where
  "prot_ok p st \<longleftrightarrow> ps_n_scans st = length (ps_scans st) \<and> ps_n_scans st \<le> cp_max_concurrent p \<and>
     distinct (map sc_id (ps_scans st)) \<and> (\<forall>s \<in> set (ps_scans st). sc_id s < ps_next st \<and> length (sc_buf s) \<le> SCAN_BUF)"

text \<open>What every ending of a probe does to the list: some probes leave it.\<close>

definition fewer :: "prot_state \<Rightarrow> prot_state \<Rightarrow> bool" where
  "fewer st st' \<longleftrightarrow> (\<exists>P. ps_scans st' = filter P (ps_scans st)) \<and> ps_next st' = ps_next st \<and>
     (ps_n_scans st = length (ps_scans st) \<and> distinct (map sc_id (ps_scans st)) \<longrightarrow> ps_n_scans st' = length (ps_scans st'))"

lemma fewer_trans: "fewer st st1 \<Longrightarrow> fewer st1 st2 \<Longrightarrow> fewer st st2"
  by (auto simp: fewer_def filter_filter distinct_map_filter intro: exI)

lemma fewer_refl: "fewer st st"
  by (auto simp: fewer_def intro!: exI [of _ "\<lambda>x. True"])

lemma fewer_ok: "prot_ok p st \<Longrightarrow> fewer st st' \<Longrightarrow> prot_ok p st'"
  by (auto simp: prot_ok_def fewer_def distinct_map_filter intro: le_trans [OF length_filter_le])

lemma length_filter_one:
  "distinct (map f xs) \<Longrightarrow> k \<in> f ` set xs \<Longrightarrow> length (filter (\<lambda>x. f x \<noteq> k) xs) = length xs - 1"
proof (induction xs)
  case (Cons x xs)
  show ?case
  proof (cases "f x = k")
    case True
    with Cons.prems have "filter (\<lambda>x. f x \<noteq> k) xs = xs" by (auto simp: filter_id_conv image_iff)
    with True show ?thesis by simp
  next
    case False
    with Cons show ?thesis by (cases xs) auto
  qed
qed simp

lemma fewer_unlink: "fewer st (fst (scan_unlink s st))"
  by (auto simp: scan_unlink_def fewer_def length_filter_one intro: exI [of _ "\<lambda>x. True"])

lemma fewer_done: "fewer st (fst (scan_done_clean p now s st))"
  using fewer_unlink [of st "sc_id s"]
  by (auto simp: scan_done_clean_def Let_def fewer_def case_prod_beta)

lemma fewer_drop: "fewer st (fst (drop_scans ss st))"
proof (induction ss arbitrary: st)
  case (Cons s ss)
  show ?case using fewer_trans [OF fewer_unlink Cons.IH] by (simp add: case_prod_beta Let_def)
qed (simp add: fewer_refl)

lemma fewer_hit: "fewer st (fst (scan_hit I p now all s st))"
  using fewer_drop [of st "map sc_id (filter (\<lambda>x. sc_ip_be x = sc_ip_be s) (ps_scans st))"]
  by (simp add: scan_hit_def Let_def case_prod_beta fewer_def)

lemma prot_ok_write:
  "prot_ok p st \<Longrightarrow> length (sc_buf s) \<le> SCAN_BUF \<Longrightarrow> sc_id s < ps_next st \<Longrightarrow> prot_ok p (scan_write s st)"
  by (auto simp: prot_ok_def scan_write_def comp_def if_distrib cong: if_cong)

lemma fewer_search: "fewer st (fst (scan_search I p now all s st))"
  by (simp add: scan_search_def fewer_hit fewer_done fewer_refl)

lemma window_add_bound: "length buf \<le> SCAN_BUF \<Longrightarrow> length tmp \<le> 512 \<Longrightarrow> length (window_add buf tmp) \<le> SCAN_BUF"
  by (auto simp: window_add_def SCAN_BUF_def SCAN_KEEP_def)

lemma prot_ok_handle:
  assumes ok: "prot_ok p st" and s: "s \<in> set (ps_scans st)" and r: "\<And>tmp. received = Recv_Bytes tmp \<Longrightarrow> length tmp \<le> 512"
  shows "prot_ok p (fst (protection_handle I p now all revents connected received s st))"
proof -
  have id: "sc_id s < ps_next st" and len: "length (sc_buf s) \<le> SCAN_BUF" using ok s by (auto simp: prot_ok_def)
  have upd: "prot_ok p (scan_write x st)" if "sc_id x = sc_id s" "length (sc_buf x) \<le> SCAN_BUF" for x
    using prot_ok_write [OF ok] that id by simp
  note ends = fewer_ok [OF _ fewer_done] fewer_ok [OF _ fewer_search]
  show ?thesis
  proof (cases received)
    case (Recv_Bytes tmp)
    then have w: "length (window_add (sc_buf s) tmp) \<le> SCAN_BUF" using r len by (intro window_add_bound) auto
    then show ?thesis using ok len
      by (auto simp: protection_handle_def Recv_Bytes Let_def case_prod_beta intro!: upd ends)
  qed (use ok len in \<open>auto simp: protection_handle_def Let_def intro!: upd ends\<close>)
qed

lemma start_probes_ok:
  assumes "prot_ok p st" and "ps_n_scans st + length prs \<le> cp_max_concurrent p"
  shows "prot_ok p (snd (start_probes p now oks ip_be ip prs st))"
  using assms
proof (induction prs arbitrary: st)
  case (Cons pr prs)
  have "prot_ok p (snd (start_probe p now (oks pr) ip_be ip pr st)) \<and>
      ps_n_scans (snd (start_probe p now (oks pr) ip_be ip pr st)) \<le> ps_n_scans st + 1"
    using Cons.prems by (auto simp: start_probe_def prot_ok_def SCAN_BUF_def less_Suc_eq)
  with Cons show ?case by (simp add: case_prod_beta Let_def)
qed simp

lemma prot_ok_tables [simp]:
  "prot_ok p (st\<lparr>ps_recent := x\<rparr>) = prot_ok p st" "prot_ok p (st\<lparr>ps_negcache := y\<rparr>) = prot_ok p st"
  by (simp_all add: prot_ok_def)

lemma prot_ok_start: "prot_ok p st \<Longrightarrow> prot_ok p (snd (protection_scan_start I p now oks ip st))"
  using start_probes_ok [of p st "cp_protocols p"]
  by (auto simp: protection_scan_start_def Let_def case_prod_beta split: option.split)

lemma tick_scans:
  "ps_scans (fst (tick_loop p now ss st)) =
     filter (\<lambda>x. sc_id x \<notin> sc_id ` {s \<in> set ss. sc_deadline s \<le> now}) (ps_scans st)"
proof (induction ss arbitrary: st)
  case (Cons s ss)
  have "filter (\<lambda>x. sc_id x \<noteq> sc_id s) (ps_scans st) = ps_scans st" if "sc_id s \<notin> sc_id ` set (ps_scans st)"
    using that unfolding filter_id_conv by (metis imageI)
  then have "ps_scans (fst (scan_done_clean p now s st)) = filter (\<lambda>x. sc_id x \<noteq> sc_id s) (ps_scans st)"
    by (simp add: scan_done_clean_def Let_def scan_unlink_def case_prod_beta)
  then have "ps_scans (fst (tick_loop p now ss (fst (scan_done_clean p now s st)))) =
      filter (\<lambda>x. sc_id x \<noteq> sc_id s \<and> sc_id x \<notin> sc_id ` {s \<in> set ss. sc_deadline s \<le> now}) (ps_scans st)"
    by (simp add: Cons.IH)
  also have "\<dots> = filter (\<lambda>x. sc_id x \<notin> sc_id ` {t \<in> set (s # ss). sc_deadline t \<le> now}) (ps_scans st)" if "sc_deadline s \<le> now"
    using that by (intro filter_cong) auto
  moreover have "filter (\<lambda>x. sc_id x \<notin> sc_id ` {s \<in> set ss. sc_deadline s \<le> now}) (ps_scans st) =
      filter (\<lambda>x. sc_id x \<notin> sc_id ` {t \<in> set (s # ss). sc_deadline t \<le> now}) (ps_scans st)" if "\<not> sc_deadline s \<le> now"
    using that by (intro filter_cong) auto
  ultimately show ?case by (simp add: case_prod_beta Let_def Cons.IH del: set_simps)
qed simp

lemma fewer_tick: "fewer st (fst (tick_loop p now ss st))"
proof (induction ss arbitrary: st)
  case (Cons s ss)
  show ?case using fewer_trans [OF fewer_done Cons.IH] Cons.IH by (simp add: case_prod_beta Let_def)
qed (simp add: fewer_refl)

text \<open>What drives the scanner: connections, the poll loop, the clock.\<close>

datatype prot_op =
  Start_Scan string "nat \<times> nat \<Rightarrow> bool"
| Ready nat "16 word" bool recv_result
| Tick
| Related string

fun prot_step :: "inet \<Rightarrow> prot_cfg \<Rightarrow> client_id list \<Rightarrow> int \<times> prot_op \<Rightarrow> prot_state \<Rightarrow> prot_state" where
  "prot_step I p all (now, Start_Scan ip oks) st = snd (protection_scan_start I p now oks ip st)"
| "prot_step I p all (now, Ready i revents connected received) st =
     (case find (\<lambda>s. sc_id s = i) (ps_scans st) of
        Some s \<Rightarrow> fst (protection_handle I p now all revents connected received s st) | None \<Rightarrow> st)"
| "prot_step I p all (now, Tick) st = fst (protection_tick p now st)"
| "prot_step I p all (now, Related ip) st = snd (protection_ip_related I now ip st)"

fun read_ok :: "int \<times> prot_op \<Rightarrow> bool" where
  "read_ok (now, Ready i revents connected (Recv_Bytes tmp)) = (length tmp \<le> 512)"
| "read_ok e = True"

definition prot_start :: "kline_table \<Rightarrow> evq \<Rightarrow> prot_state" where
  "prot_start kt q = \<lparr>ps_scans = [], ps_n_scans = 0, ps_scanned = 0, ps_hits = 0,
     ps_negcache = replicate PROT_NEGCACHE_SLOTS (0, 0), ps_recent = replicate PROT_RECENT_SLOTS (0, 0),
     ps_next = 0, ps_lines = kt, ps_q = q\<rparr>"

text \<open>
  The scanner's resources are bounded: after any sequence of connections, socket events,
  reads of up to 512 bytes and ticks, the probes in flight are counted exactly and are never more
  than the configured maximum, and no probe holds more than 1024 bytes.
\<close>

theorem scanner_bounded:
  assumes "\<forall>e \<in> set es. read_ok e"
  shows "let st = fold (prot_step I p all) es (prot_start kt q)
    in ps_n_scans st = length (ps_scans st) \<and> ps_n_scans st \<le> cp_max_concurrent p \<and> (\<forall>s \<in> set (ps_scans st). length (sc_buf s) \<le> 1024)"
proof -
  have step: "prot_ok p (prot_step I p all e st)" if "prot_ok p st" "read_ok e" for e st
  proof -
    obtain now oper where e: "e = (now, oper)" by fastforce
    show ?thesis
    proof (cases oper)
      case (Ready i revents connected received)
      have "length tmp \<le> 512" if "received = Recv_Bytes tmp" for tmp using \<open>read_ok e\<close> e Ready that by simp
      then show ?thesis using that(1) e Ready
        by (auto simp: find_Some_iff intro!: prot_ok_handle split: option.split)
    next
      case (Related ip)
      then show ?thesis using that e by (auto simp: protection_ip_related_def Let_def split: option.split)
    qed (use that e prot_ok_start fewer_ok [OF _ fewer_tick] in \<open>auto simp: protection_tick_def\<close>)
  qed
  have "prot_ok p (fold (prot_step I p all) es st)" if "prot_ok p st" for st
    using that assms by (induction es arbitrary: st) (auto simp: step)
  moreover have "prot_ok p (prot_start kt q)" by (simp add: prot_ok_def prot_start_def)
  ultimately have "prot_ok p (fold (prot_step I p all) es (prot_start kt q))" by blast
  then show ?thesis by (simp add: prot_ok_def Let_def SCAN_BUF_def)
qed

definition demo_prot_cfg :: prot_cfg where
  "demo_prot_cfg = \<lparr>cp_exempt = [], cp_blacklists = [], cp_scan_enabled = True, cp_scan_action = ''zline'', cp_ban_duration = ''1h'',
     cp_scan_reason = ''Open %t proxy on port %p'', cp_timeout_secs = 10, cp_max_read = 2048, cp_max_concurrent = 4, cp_negcache = 3600,
     cp_target_ip = ''4abcd'', cp_target_port = 6667, cp_target_strings = [''Looking up''], cp_protocols = [(3, 1080), (4, 1080)]\<rparr>"

theorem scanner_bounded_witness:
  "let st = fold (prot_step demo_inet demo_prot_cfg []) [(100, Start_Scan ''4wxyz'' (\<lambda>pr. True)), (101, Ready 0 4 True Recv_Again), (102, Ready 0 1 True (Recv_Bytes ''abc''))]
       (prot_start \<lparr>kt_lines = [], kt_gen = 0, kt_dirty = False\<rparr> \<lparr>ev_clients = [], ev_dirty = [], ev_dead = []\<rparr>)
   in ps_n_scans st = length (ps_scans st) \<and> ps_n_scans st \<le> cp_max_concurrent demo_prot_cfg \<and> (\<forall>s \<in> set (ps_scans st). length (sc_buf s) \<le> 1024)"
  by (rule scanner_bounded) simp

text \<open>
  Where the probes of a state come from: each is a probe of an earlier state, under the same number
  and with the same deadline, or it was started meanwhile at \<open>t\<close>, under a number not given before.
\<close>

definition descends :: "prot_cfg \<Rightarrow> int \<Rightarrow> prot_state \<Rightarrow> prot_state \<Rightarrow> bool" where
  "descends p t st st' \<longleftrightarrow> ps_next st \<le> ps_next st' \<and>
     (\<forall>x \<in> set (ps_scans st'). (\<exists>y \<in> set (ps_scans st). sc_id y = sc_id x \<and> sc_deadline y = sc_deadline x) \<or>
        (ps_next st \<le> sc_id x \<and> sc_id x < ps_next st' \<and> sc_deadline x = t + cp_timeout_secs p))"

lemma descends_trans:
  assumes 1: "descends p t st st1" and 2: "descends p t st1 st2"
  shows "descends p t st st2"
  unfolding descends_def
proof (intro conjI ballI)
  show "ps_next st \<le> ps_next st2" using 1 2 unfolding descends_def by linarith
  fix x assume "x \<in> set (ps_scans st2)"
  with 2 consider y where "y \<in> set (ps_scans st1)" "sc_id y = sc_id x" "sc_deadline y = sc_deadline x"
    | "ps_next st1 \<le> sc_id x" "sc_id x < ps_next st2" "sc_deadline x = t + cp_timeout_secs p"
    unfolding descends_def by blast
  then show "(\<exists>y \<in> set (ps_scans st). sc_id y = sc_id x \<and> sc_deadline y = sc_deadline x) \<or>
      (ps_next st \<le> sc_id x \<and> sc_id x < ps_next st2 \<and> sc_deadline x = t + cp_timeout_secs p)"
  proof cases
    case 1
    then show ?thesis using assms unfolding descends_def by (metis order_less_le_trans)
  next
    case 2
    then show ?thesis using assms unfolding descends_def by linarith
  qed
qed

lemma fewer_descends: "fewer st st' \<Longrightarrow> descends p t st st'"
  by (auto simp: fewer_def descends_def)

lemma write_descends:
  "s \<in> set (ps_scans st) \<Longrightarrow> sc_id x = sc_id s \<Longrightarrow> sc_deadline x = sc_deadline s \<Longrightarrow> descends p t st (scan_write x st)"
  by (auto simp: descends_def scan_write_def)

lemma descends_if: "descends p t st a \<Longrightarrow> descends p t st b \<Longrightarrow> descends p t st (if c then a else b)"
  by simp

lemma handle_descends:
  assumes "s \<in> set (ps_scans st)"
  shows "descends p t st (fst (protection_handle I p now all revents connected received s st))"
proof -
  have upd: "descends p t st (scan_write x st)" if "sc_id x = sc_id s" "sc_deadline x = sc_deadline s" for x
    using write_descends [OF assms that] .
  have end_at: "descends p t st (fst (scan_done_clean p now x st))" "descends p t st st" for x
    using fewer_descends [OF fewer_done] fewer_descends [OF fewer_refl] .
  have written: "descends p t st (fst (scan_done_clean p now x (scan_write x st)))"
    "descends p t st (fst (scan_search I p now all x (scan_write x st)))" if "sc_id x = sc_id s" "sc_deadline x = sc_deadline s" for x
    using descends_trans [OF upd [OF that] fewer_descends [OF fewer_done]]
      descends_trans [OF upd [OF that] fewer_descends [OF fewer_search]] .
  show ?thesis
    unfolding protection_handle_def Let_def case_prod_beta
    by (cases received; simp only: recv_result.simps if_distrib [of fst] fst_conv)
      (rule descends_if upd end_at written | simp; fail)+
qed

lemma start_descends: "descends p t st (snd (start_probe p t ok ip_be ip pr st))"
  by (auto simp: start_probe_def descends_def)

lemma starts_descends: "descends p t st (snd (start_probes p t oks ip_be ip prs st))"
proof (induction prs arbitrary: st)
  case (Cons pr prs)
  show ?case using descends_trans [OF start_descends Cons.IH] by (simp add: case_prod_beta Let_def)
qed (simp add: fewer_descends [OF fewer_refl])

lemma descends_tables [simp]:
  "descends p t st (st'\<lparr>ps_recent := x\<rparr>) = descends p t st st'"
  by (simp add: descends_def)

lemma step_descends: "descends p t st (prot_step I p all (t, oper) st)"
proof (cases oper)
  case (Start_Scan ip oks)
  then show ?thesis using starts_descends [of p t st] fewer_descends [OF fewer_refl]
    by (auto simp: protection_scan_start_def Let_def case_prod_beta split: option.split)
next
  case (Ready i revents connected received)
  then show ?thesis using handle_descends fewer_descends [OF fewer_refl]
    by (auto simp: find_Some_iff split: option.split)
next
  case (Related ip)
  then show ?thesis using fewer_descends [OF fewer_refl, of p t st]
    by (auto simp: protection_ip_related_def Let_def split: option.split)
qed (simp add: protection_tick_def fewer_descends [OF fewer_tick])

text \<open>A number that was given keeps its deadline, and is not given again.\<close>

definition due :: "nat \<Rightarrow> int \<Rightarrow> prot_state \<Rightarrow> bool" where
  "due i d st \<longleftrightarrow> i < ps_next st \<and> (\<forall>x \<in> set (ps_scans st). sc_id x = i \<longrightarrow> sc_deadline x = d)"

lemma due_step: "due i d st \<Longrightarrow> due i d (prot_step I p all e st)"
proof -
  assume d: "due i d st"
  obtain t oper where e: "e = (t, oper)" by (cases e)
  show ?thesis using step_descends [of p t st I all oper] d unfolding e due_def descends_def by fastforce
qed

lemma due_run: "due i d st \<Longrightarrow> due i d (fold (prot_step I p all) es st)"
  by (induction es arbitrary: st) (simp_all add: due_step)

lemma gone_step:
  assumes "i < ps_next st" and "i \<notin> sc_id ` set (ps_scans st)"
  shows "i < ps_next (prot_step I p all e st)" and "i \<notin> sc_id ` set (ps_scans (prot_step I p all e st))"
proof -
  obtain t oper where e: "e = (t, oper)" by (cases e)
  note d = step_descends [of p t st I all oper, folded e, unfolded descends_def]
  show "i < ps_next (prot_step I p all e st)" using d assms(1) by simp
  have "sc_id x \<noteq> i" if "x \<in> set (ps_scans (prot_step I p all e st))" for x
    using d that assms by (metis image_eqI leD)
  then show "i \<notin> sc_id ` set (ps_scans (prot_step I p all e st))" by blast
qed

lemma gone_run:
  "i < ps_next st \<Longrightarrow> i \<notin> sc_id ` set (ps_scans st) \<Longrightarrow> i \<notin> sc_id ` set (ps_scans (fold (prot_step I p all) es st))"
  by (induction es arbitrary: st) (simp_all add: gone_step)

lemma tick_due:
  assumes "due i d st"
  shows "i \<in> sc_id ` set (ps_scans (prot_step I p all (now, Tick) st)) \<longleftrightarrow> now < d \<and> i \<in> sc_id ` set (ps_scans st)"
proof -
  have "i \<in> sc_id ` {s \<in> set (ps_scans st). sc_deadline s \<le> now} \<longleftrightarrow> d \<le> now \<and> i \<in> sc_id ` set (ps_scans st)"
    using assms by (auto simp: due_def)
  moreover have "i \<in> sc_id ` set (filter (\<lambda>x. sc_id x \<notin> A) xs) \<longleftrightarrow> i \<notin> A \<and> i \<in> sc_id ` set xs" for A xs by auto
  ultimately show ?thesis unfolding prot_step.simps protection_tick_def tick_scans by auto
qed

text \<open>
  C39. Every probe ends within its timeout: whenever a probe is started, at \<open>t\<close>, and whatever the
  sockets, the reads and the connections bring afterwards, the first tick at or after \<open>t\<close> plus the
  configured timeout leaves no probe of its number, and none has it ever again. No tick before
  that time ends it.
\<close>

theorem tick_ends_probes:
  assumes "s \<in> set (ps_scans (prot_step I p all (t, oper) st))" and "sc_id s \<notin> sc_id ` set (ps_scans st)"
  shows "let run = (\<lambda>es. fold (prot_step I p all) es (prot_step I p all (t, oper) st)); open = (\<lambda>st. sc_id s \<in> sc_id ` set (ps_scans st))
    in (t + cp_timeout_secs p \<le> now \<longrightarrow> \<not> open (run (es @ (now, Tick) # later))) \<and>
       (now < t + cp_timeout_secs p \<and> open (run es) \<longrightarrow> open (run (es @ [(now, Tick)])))"
proof -
  define st1 where "st1 = prot_step I p all (t, oper) st"
  define st2 where "st2 = fold (prot_step I p all) es st1"
  have new: "x \<in> set (ps_scans st1) \<Longrightarrow> sc_id x = sc_id s \<Longrightarrow> sc_deadline x = t + cp_timeout_secs p \<and> sc_id s < ps_next st1" for x
    using step_descends [of p t st I all oper] assms(2) unfolding st1_def descends_def by (metis imageI)
  then have "due (sc_id s) (t + cp_timeout_secs p) st1" using assms(1) unfolding st1_def due_def by blast
  then have d: "due (sc_id s) (t + cp_timeout_secs p) st2" unfolding st2_def by (rule due_run)
  then have n: "sc_id s < ps_next (prot_step I p all (now, Tick) st2)" using due_step [OF d] unfolding due_def by blast
  show ?thesis
    using gone_run [OF n] tick_due [OF d, of I p all now] by (simp add: Let_def st1_def [symmetric] st2_def [symmetric] del: prot_step.simps)
qed

theorem tick_ends_probes_witness:
  "0 \<notin> sc_id ` set (ps_scans (fold (prot_step demo_inet demo_prot_cfg []) [(101, Ready 0 4 True Recv_Again), (110, Tick)]
     (prot_step demo_inet demo_prot_cfg [] (100, Start_Scan ''4wxyz'' (\<lambda>pr. True))
       (prot_start \<lparr>kt_lines = [], kt_gen = 0, kt_dirty = False\<rparr> \<lparr>ev_clients = [], ev_dirty = [], ev_dead = []\<rparr>))))"
proof -
  let ?init = "prot_start \<lparr>kt_lines = [], kt_gen = 0, kt_dirty = False\<rparr> \<lparr>ev_clients = [], ev_dirty = [], ev_dead = []\<rparr>"
  let ?st = "prot_step demo_inet demo_prot_cfg [] (100, Start_Scan ''4wxyz'' (\<lambda>pr. True)) ?init"
  have e: "\<not> slot_live (replicate 1024 (0, 0)) ip 100" for ip
    by (simp add: slot_live_def slot_for_def)
  have i: "inet_pton4 demo_inet ''4wxyz'' = Some [119, 120, 121, 122]" by (simp add: demo_inet_def)
  have "\<exists>s \<in> set (ps_scans ?st). sc_id s = 0"
    by (simp add: protection_scan_start_def i demo_prot_cfg_def prot_start_def PROT_NEGCACHE_SLOTS_def e protection_exempt_def
        ip_has_scans_def start_probe_def)
  then obtain s where s: "s \<in> set (ps_scans ?st)" "sc_id s = 0" by blast
  have n: "sc_id s \<notin> sc_id ` set (ps_scans ?init)" by (simp add: prot_start_def)
  have t: "100 + cp_timeout_secs demo_prot_cfg \<le> 110" by (simp add: demo_prot_cfg_def)
  show ?thesis
    using tick_ends_probes [OF s(1) n, of 110 "[(101, Ready 0 4 True Recv_Again)]" "[]"] t unfolding s(2) Let_def append_Cons append_Nil by blast
qed

text \<open>
  The exemption is not single-use while a scan is running: as long as a probe of the address
  is in flight, every connection from it counts as a relayed probe, however many came before,
  although using up the slot was to limit the exemption to one connection.
\<close>

theorem scan_exempts_every_connection:
  assumes "inet_pton4 I ip = Some b" and "ip_has_scans (s_addr b) st"
  shows "fst (protection_ip_related I now ip (fold (\<lambda>t. snd \<circ> protection_ip_related I t ip) earlier st))"
proof -
  have "ip_has_scans (s_addr b) (fold (\<lambda>t. snd \<circ> protection_ip_related I t ip) earlier st)"
    using assms(2)
  proof (induction earlier arbitrary: st)
    case (Cons t earlier)
    have "ip_has_scans (s_addr b) (snd (protection_ip_related I t ip st))"
      using Cons.prems assms(1) by (simp add: protection_ip_related_def ip_has_scans_def)
    with Cons.IH show ?case by simp
  qed simp
  then show ?thesis using assms(1) by (simp add: protection_ip_related_def)
qed

theorem scan_exempts_every_connection_witness:
  "fst (protection_ip_related demo_inet 104 ''4wxyz'' (fold (\<lambda>t. snd \<circ> protection_ip_related demo_inet t ''4wxyz'') [101, 102, 103]
     (snd (start_probe demo_prot_cfg 100 True (s_addr [119, 120, 121, 122]) ''4wxyz'' (3, 1080)
        (prot_start \<lparr>kt_lines = [], kt_gen = 0, kt_dirty = False\<rparr> \<lparr>ev_clients = [], ev_dirty = [], ev_dead = []\<rparr>)))))"
  by (rule scan_exempts_every_connection [of _ _ "[119, 120, 121, 122]"])
    (simp_all add: demo_inet_def start_probe_def ip_has_scans_def prot_start_def)

end
