(* ===== verification/Crypto.thy ===== *)
theory Crypto
  imports Masks Calendar
begin

unbundle bit_operations_syntax

text \<open>
  Passwords, fingerprints and SCRAM (src/src/crypto.c, src/src/scram.c) around OpenSSL, whose
  functions are parameters: scrypt, HMAC-SHA-256, SHA-256, PBKDF2 and base64, each a function from
  its inputs to its output bytes (or \<open>None\<close> where it can fail). What is relied on of them is a
  named hypothesis.
\<close>

section \<open>Hexadecimal\<close>

definition hexval :: "char \<Rightarrow> nat option" where
  "hexval c =
     (if c_isdigit c then Some (byte c - 48)
      else if 97 \<le> byte c \<and> byte c \<le> 102 then Some (byte c - 97 + 10)
      else if 65 \<le> byte c \<and> byte c \<le> 70 then Some (byte c - 65 + 10)
      else None)"

fun hex_pairs :: "string \<Rightarrow> u8 list option" where
  "hex_pairs (a # b # s) =
     (case (hexval a, hexval b) of
        (Some hi, Some lo) \<Rightarrow> map_option (\<lambda>r. (push_bit 4 (word_of_nat hi) OR word_of_nat lo) # r) (hex_pairs s)
      | _ \<Rightarrow> None)"
| "hex_pairs s = Some []"

text \<open>The decoded bytes; the empty list is the length of 0 that means failure.\<close>

definition hex_decode :: "string \<Rightarrow> nat \<Rightarrow> u8 list" where
  "hex_decode hex outsz =
     (let len = length hex
      in if len = 0 \<or> len mod 2 \<noteq> 0 \<or> len div 2 > outsz then []
         else case hex_pairs hex of Some b \<Rightarrow> b | None \<Rightarrow> [])"

definition hexd :: string where "hexd = ''0123456789abcdef''"

definition hex_encode :: "u8 list \<Rightarrow> string" where
  "hex_encode b = concat (map (\<lambda>w. [hexd ! unat (drop_bit 4 w), hexd ! unat (w AND 0xf)]) b)"

section \<open>Passwords\<close>

record scrypt =
  sy_kdf :: "string \<Rightarrow> u8 list \<Rightarrow> nat \<Rightarrow> nat \<Rightarrow> nat \<Rightarrow> nat \<Rightarrow> u8 list option"

definition SCRYPT_N :: nat where "SCRYPT_N = 16384"
definition SCRYPT_R :: nat where "SCRYPT_R = 8"
definition SCRYPT_P :: nat where "SCRYPT_P = 1"
definition SCRYPT_DKLEN :: nat where "SCRYPT_DKLEN = 64"

text \<open>\<open>salt\<close> are the 16 random bytes; \<open>None\<close> is the return of -1.\<close>

definition crypto_hash_password :: "scrypt \<Rightarrow> u8 list \<Rightarrow> string \<Rightarrow> nat \<Rightarrow> string option" where
  "crypto_hash_password S salt password outsz =
     (case sy_kdf S password salt SCRYPT_N SCRYPT_R SCRYPT_P SCRYPT_DKLEN of
        None \<Rightarrow> None
      | Some digest \<Rightarrow>
          (let s = ''scrypt$'' @ show_nat SCRYPT_N @ ''$'' @ show_nat SCRYPT_R @ ''$'' @ show_nat SCRYPT_P @ ''$'' @
                   hex_encode salt @ ''$'' @ hex_encode digest
           in if length s \<ge> outsz then None else Some s))"

text \<open>
  \<open>strtoul(s, \&e, 10)\<close> followed by the test of \<open>*e\<close>: the value when the whole text was a number.
\<close>

definition strtoul_all :: "string \<Rightarrow> nat option" where
  "strtoul_all s =
     (let t = dropWhile c_isspace s; neg = (take 1 t = ''-'');
          d = (if take 1 t = ''-'' \<or> take 1 t = ''+'' then drop 1 t else t);
          (n, e) = read_digits 0 d
      in if s = [] then Some 0
         else if d = [] \<or> \<not> c_isdigit (hd d) \<or> e \<noteq> [] then None
         else if n \<ge> 2 ^ 64 then Some (2 ^ 64 - 1)
         else Some (if neg then (2 ^ 64 - n) mod 2 ^ 64 else n))"

definition crypto_verify_password :: "scrypt \<Rightarrow> string \<Rightarrow> string \<Rightarrow> bool" where
  "crypto_verify_password S password stored =
     (if length stored \<ge> 512 then False
      else case strtok (\<lambda>c. c = CHR ''$'') stored of
        [algo, n_s, r_s, p_s, salt_hex, digest_hex] \<Rightarrow>
          (if algo \<noteq> ''scrypt'' then False
           else case (strtoul_all n_s, strtoul_all r_s, strtoul_all p_s) of
             (Some n, Some r, Some p) \<Rightarrow>
               (let salt = hex_decode salt_hex 64; expected = hex_decode digest_hex 128
                in if salt = [] \<or> expected = [] then False
                   else case sy_kdf S password salt n r p (length expected) of
                     None \<Rightarrow> False
                   | Some candidate \<Rightarrow> candidate = expected)
           | _ \<Rightarrow> False)
      | _ \<Rightarrow> False)"

section \<open>Fingerprints, tokens and comparison\<close>

fun fingerprint_loop :: "nat \<Rightarrow> string \<Rightarrow> string \<Rightarrow> string option" where
  "fingerprint_loop outsz out [] = Some out"
| "fingerprint_loop outsz out (c # s) =
     (if c = CHR '':'' then fingerprint_loop outsz out s
      else case hexval c of
        None \<Rightarrow> None
      | Some v \<Rightarrow> if length out + 1 \<ge> outsz then None else fingerprint_loop outsz (out @ [hexd ! v]) s)"

definition crypto_parse_fingerprint :: "string \<Rightarrow> nat \<Rightarrow> string option" where
  "crypto_parse_fingerprint s outsz =
     (case fingerprint_loop outsz [] (if starts_nocase ''sha256:'' s then drop 7 s else s) of
        Some out \<Rightarrow> if length out = 64 then Some out else None
      | None \<Rightarrow> None)"

text \<open>The digest of the peer's certificate, if it has one.\<close>

definition crypto_peer_fingerprint :: "u8 list option \<Rightarrow> nat \<Rightarrow> string option" where
  "crypto_peer_fingerprint digest outsz =
     (case digest of
        None \<Rightarrow> None
      | Some d \<Rightarrow> if d = [] \<or> outsz < length d * 2 + 1 then None else Some (hex_encode d))"

text \<open>How many bytes of a token fit; \<open>rnd\<close> are the random bytes.\<close>

definition token_bytes :: "int \<Rightarrow> nat \<Rightarrow> nat \<Rightarrow> nat" where
  "token_bytes count limit outsz =
     (let c = min (nat count) limit in if 2 * c + 1 > outsz then (outsz - 1) div 2 else c)"

definition crypto_random_hex :: "u8 list \<Rightarrow> nat \<Rightarrow> int \<Rightarrow> string" where
  "crypto_random_hex rnd outsz count = (if outsz < 3 then [] else hex_encode (take (token_bytes count 64 outsz) rnd))"

definition crypto_hmac_hex :: "(u8 list \<Rightarrow> u8 list \<Rightarrow> u8 list) \<Rightarrow> string \<Rightarrow> string \<Rightarrow> nat \<Rightarrow> int \<Rightarrow> string" where
  "crypto_hmac_hex hmac key msg outsz count =
     (let digest = hmac (map (\<lambda>c. word_of_nat (byte c)) key) (map (\<lambda>c. word_of_nat (byte c)) msg)
      in if outsz < 3 then [] else hex_encode (take (token_bytes count (length digest) outsz) digest))"

text \<open>Both sides zero-padded to 256 bytes.\<close>

definition pad256 :: "string \<Rightarrow> string" where
  "pad256 a = a @ replicate (256 - length a) CHR 0x00"

definition crypto_secure_streq :: "string \<Rightarrow> string \<Rightarrow> bool" where
  "crypto_secure_streq a b = (if length a \<ge> 256 \<or> length b \<ge> 256 then False else pad256 a = pad256 b)"

section \<open>SCRAM-SHA-256\<close>

record hashes =
  hs_hmac :: "u8 list \<Rightarrow> u8 list \<Rightarrow> u8 list"
  hs_sha :: "u8 list \<Rightarrow> u8 list"
  hs_pbkdf2 :: "string \<Rightarrow> u8 list \<Rightarrow> nat \<Rightarrow> u8 list"

text \<open>\<open>EVP_EncodeBlock\<close> and \<open>EVP_DecodeBlock\<close>, the latter with the bytes that stand for the padding.\<close>

record base64 =
  b6_encode :: "u8 list \<Rightarrow> string"
  b6_decode :: "string \<Rightarrow> u8 list option"

definition SCRAM_ITER :: nat where "SCRAM_ITER = 4096"
definition SCRAM_KEYLEN :: nat where "SCRAM_KEYLEN = 32"

record scram_verifier =
  sv_iter :: int
  sv_salt :: "u8 list"
  sv_stored_key :: "u8 list"
  sv_server_key :: "u8 list"

definition scram_b64_encode :: "base64 \<Rightarrow> u8 list \<Rightarrow> nat \<Rightarrow> string option" where
  "scram_b64_encode B b outsz = (if outsz < 4 * ((length b + 2) div 3) + 1 then None else Some (b6_encode B b))"

definition scram_b64_decode :: "base64 \<Rightarrow> string \<Rightarrow> nat \<Rightarrow> u8 list option" where
  "scram_b64_decode B s outsz =
     (let inlen = length s
      in if inlen = 0 \<or> inlen mod 4 \<noteq> 0 \<or> inlen div 4 * 3 > outsz then None
         else case b6_decode B s of
           None \<Rightarrow> None
         | Some b \<Rightarrow>
             Some (take (length b - (if s ! (inlen - 1) = CHR ''='' then 1 else 0) - (if s ! (inlen - 2) = CHR ''='' then 1 else 0)) b))"

definition ascii :: "string \<Rightarrow> u8 list" where
  "ascii s = map (\<lambda>c. word_of_nat (byte c)) s"

definition scram_derive :: "hashes \<Rightarrow> string \<Rightarrow> u8 list \<Rightarrow> int \<Rightarrow> scram_verifier option" where
  "scram_derive H password salt iter =
     (if length salt < 1 \<or> length salt > 32 \<or> iter < 1 then None
      else let salted = hs_pbkdf2 H password salt (nat iter);
               client_key = hs_hmac H salted (ascii ''Client Key'')
           in Some \<lparr>sv_iter = iter, sv_salt = salt, sv_stored_key = hs_sha H client_key,
                    sv_server_key = hs_hmac H salted (ascii ''Server Key'')\<rparr>)"

definition scram_make_verifier :: "hashes \<Rightarrow> u8 list \<Rightarrow> string \<Rightarrow> scram_verifier option" where
  "scram_make_verifier H salt password = scram_derive H password salt (int SCRAM_ITER)"

definition b64_text :: "base64 \<Rightarrow> u8 list \<Rightarrow> nat \<Rightarrow> string" where
  "b64_text B b outsz = (case scram_b64_encode B b outsz of Some s \<Rightarrow> s | None \<Rightarrow> [])"

definition scram_verifier_to_string :: "base64 \<Rightarrow> scram_verifier \<Rightarrow> nat \<Rightarrow> string" where
  "scram_verifier_to_string B v outsz =
     clip outsz (show_int (sv_iter v) @ ''$'' @ b64_text B (sv_salt v) 64 @ ''$'' @ b64_text B (sv_stored_key v) 64 @ ''$'' @
       b64_text B (sv_server_key v) 64)"

definition scram_verifier_from_string :: "base64 \<Rightarrow> string \<Rightarrow> scram_verifier option" where
  "scram_verifier_from_string B str =
     (if length str \<ge> 300 then None
      else case strtok (\<lambda>c. c = CHR ''$'') str of
        it # s # st # sk # rest \<Rightarrow>
          (let iter = sint (word_of_int (atol it) :: 32 word)
           in if iter < 1 \<or> iter > 1000000 then None
              else case (scram_b64_decode B s 32, scram_b64_decode B st 64, scram_b64_decode B sk 64) of
                (Some salt, Some stored, Some server) \<Rightarrow>
                  if salt = [] \<or> length stored \<noteq> SCRAM_KEYLEN \<or> length server \<noteq> SCRAM_KEYLEN then None
                  else Some \<lparr>sv_iter = iter, sv_salt = salt, sv_stored_key = stored, sv_server_key = server\<rparr>
              | _ \<Rightarrow> None)
      | _ \<Rightarrow> None)"

text \<open>The server signature, \<open>None\<close> when the proof is refused.\<close>

definition scram_check_proof :: "hashes \<Rightarrow> scram_verifier \<Rightarrow> string \<Rightarrow> u8 list \<Rightarrow> u8 list option" where
  "scram_check_proof H v auth_message proof_bytes =
     (let client_sig = hs_hmac H (sv_stored_key v) (ascii auth_message);
          client_key = map2 (\<lambda>a b. a XOR b) proof_bytes client_sig
      in if hs_sha H client_key = sv_stored_key v then Some (hs_hmac H (sv_server_key v) (ascii auth_message)) else None)"

section \<open>Hexadecimal is read back\<close>

lemma hexd_val: "n < 16 \<Longrightarrow> hexval (hexd ! n) = Some n"
proof -
  have "list_all (\<lambda>n. hexval (hexd ! n) = Some n) [0..<16]" by code_simp
  then show "n < 16 \<Longrightarrow> hexval (hexd ! n) = Some n" by (simp add: list_all_iff)
qed

lemma nibbles:
  fixes w :: u8
  shows "unat (drop_bit 4 w) < 16" and "unat (w AND 0xf) < 16"
    and "push_bit 4 (word_of_nat (unat (drop_bit 4 w))) OR word_of_nat (unat (w AND 0xf)) = w"
proof -
  have "unat (drop_bit 4 w) = unat w div 16" by (simp add: drop_bit_eq_div unat_div)
  then show "unat (drop_bit 4 w) < 16" using unsigned_less [of w, where 'a = nat] by simp
  have "w AND 0xf = take_bit 4 w" by (simp add: take_bit_eq_mask mask_numeral)
  then show "unat (w AND 0xf) < 16" by (simp add: take_bit_eq_mod unat_mod)
  have "push_bit 4 (drop_bit 4 w) OR take_bit 4 w = w"
    by (rule bit_eqI) (auto simp: bit_simps)
  then show "push_bit 4 (word_of_nat (unat (drop_bit 4 w))) OR word_of_nat (unat (w AND 0xf)) = w"
    by (simp add: take_bit_eq_mask mask_numeral)
qed

lemma nibbles_join: "push_bit 4 (drop_bit 4 w) OR (w AND 15) = (w :: u8)"
  using nibbles(3) [of w] by simp

lemma hex_pairs_encode: "hex_pairs (hex_encode b) = Some b"
  by (induction b) (simp_all add: hex_encode_def hexd_val nibbles nibbles_join)

lemma length_hex_encode [simp]: "length (hex_encode b) = 2 * length b"
  by (induction b) (simp_all add: hex_encode_def)

lemma hex_decode_encode: "b \<noteq> [] \<Longrightarrow> length b \<le> outsz \<Longrightarrow> hex_decode (hex_encode b) outsz = b"
  by (simp add: hex_decode_def hex_pairs_encode)

lemma hex_encode_chars: "set (hex_encode b) \<subseteq> set hexd"
proof -
  have "hexd ! n \<in> set hexd" if "n < 16" for n using that by (intro nth_mem) (simp add: hexd_def)
  then show ?thesis using nibbles by (auto simp: hex_encode_def)
qed

section \<open>A stored password\<close>

abbreviation DOLLAR :: char where "DOLLAR \<equiv> CHR ''$''"

fun join_dollar :: "string list \<Rightarrow> string" where
  "join_dollar [] = []"
| "join_dollar [t] = t"
| "join_dollar (t # ts) = t @ DOLLAR # join_dollar ts"

lemma strtok_join:
  "\<forall>t \<in> set ts. t \<noteq> [] \<and> DOLLAR \<notin> set t \<Longrightarrow> strtok (\<lambda>c. c = DOLLAR) (join_dollar ts) = ts"
proof (induction ts rule: join_dollar.induct)
  case (2 t)
  then show ?case by (simp, intro strtok_single) auto
next
  case (3 t u us)
  then have "strtok (\<lambda>c. c = DOLLAR) t = [t]" by (intro strtok_single) auto
  with 3 show ?case by (simp add: strtok_append)
qed simp

lemma strtoul_show_nat: "n < 2 ^ 64 \<Longrightarrow> strtoul_all (show_nat n) = Some n"
proof -
  assume n: "n < 2 ^ 64"
  obtain c r where s: "show_nat n = c # r" and c: "c_isdigit c"
    using show_nat_digits [of n] by (cases "show_nat n") auto
  have ns: "\<not> c_isspace c" "c \<noteq> CHR ''-''" "c \<noteq> CHR ''+''" using c by (auto simp: ctype_simps)
  have "read_digits 0 (show_nat n) = (n, [])"
    using read_show_nat_append [of "[]" n] by (simp add: ctype_simps)
  then show ?thesis using n c ns unfolding strtoul_all_def by (simp add: s Let_def)
qed

lemma show_nat_no_dollar: "DOLLAR \<notin> set (show_nat n)"
  using show_nat_digits [of n] by (auto simp: list_all_iff ctype_simps)

lemma hex_no_dollar: "DOLLAR \<notin> set (hex_encode b)"
proof -
  have "DOLLAR \<notin> set hexd" by (simp add: hexd_def)
  then show ?thesis using hex_encode_chars by blast
qed

text \<open>
  A password hash this server stores is accepted for a password exactly when scrypt gives that
  password the same digest under the stored salt - in particular for the password itself. It is
  relied on that scrypt, when it succeeds, fills the length it is asked for.
\<close>

theorem password_hash_verifies:
  assumes "crypto_hash_password S salt password outsz = Some stored" and "length salt = 16"
    and "\<And>pw s n r p k d. sy_kdf S pw s n r p k = Some d \<Longrightarrow> length d = k"
  shows "crypto_verify_password S attempt stored \<longleftrightarrow>
      sy_kdf S attempt salt SCRYPT_N SCRYPT_R SCRYPT_P SCRYPT_DKLEN = sy_kdf S password salt SCRYPT_N SCRYPT_R SCRYPT_P SCRYPT_DKLEN"
proof -
  obtain d where d: "sy_kdf S password salt SCRYPT_N SCRYPT_R SCRYPT_P SCRYPT_DKLEN = Some d"
    and st: "stored = join_dollar [''scrypt'', show_nat SCRYPT_N, show_nat SCRYPT_R, show_nat SCRYPT_P, hex_encode salt, hex_encode d]"
    using assms(1) by (auto simp: crypto_hash_password_def Let_def split: option.splits if_splits)
  have len: "length d = 64" using assms(3) [OF d] by (simp add: SCRYPT_DKLEN_def)
  have ne: "hex_encode salt \<noteq> []" "hex_encode d \<noteq> []" "salt \<noteq> []" "d \<noteq> []"
    using assms(2) len by (auto simp flip: length_greater_0_conv)
  have tok: "strtok (\<lambda>c. c = DOLLAR) stored =
      [''scrypt'', show_nat SCRYPT_N, show_nat SCRYPT_R, show_nat SCRYPT_P, hex_encode salt, hex_encode d]"
    unfolding st by (rule strtok_join) (use ne show_nat_no_dollar hex_no_dollar in auto)
  have "length (show_nat SCRYPT_N) = 5" "length (show_nat SCRYPT_R) = 1" "length (show_nat SCRYPT_P) = 1"
    by (simp_all add: SCRYPT_N_def SCRYPT_R_def SCRYPT_P_def show_nat.simps)
  then have "length stored < 512" using assms(2) len by (simp add: st)
  moreover have "strtoul_all (show_nat SCRYPT_N) = Some SCRYPT_N" "strtoul_all (show_nat SCRYPT_R) = Some SCRYPT_R"
    "strtoul_all (show_nat SCRYPT_P) = Some SCRYPT_P"
    by (simp_all add: strtoul_show_nat SCRYPT_N_def SCRYPT_R_def SCRYPT_P_def)
  moreover have "hex_decode (hex_encode salt) 64 = salt" "hex_decode (hex_encode d) 128 = d"
    using ne assms(2) len by (simp_all add: hex_decode_encode)
  ultimately show ?thesis
    using tok ne len d by (auto simp: crypto_verify_password_def Let_def SCRYPT_DKLEN_def split: option.split)
qed

definition demo_scrypt :: scrypt where
  "demo_scrypt = \<lparr>sy_kdf = \<lambda>pw salt n r p k. Some (take k (ascii pw @ salt @ replicate k 0))\<rparr>"

theorem password_hash_verifies_witness:
  "\<exists>stored. crypto_hash_password demo_scrypt (replicate 16 7) ''hunter2'' 256 = Some stored \<and>
     crypto_verify_password demo_scrypt ''hunter2'' stored \<and> \<not> crypto_verify_password demo_scrypt ''hunter3'' stored"
proof -
  have l: "sy_kdf demo_scrypt pw s n r p k = Some d \<Longrightarrow> length d = k" for pw s n r p k d
    by (auto simp: demo_scrypt_def)
  obtain stored where st: "crypto_hash_password demo_scrypt (replicate 16 7) ''hunter2'' 256 = Some stored"
    by (simp add: crypto_hash_password_def demo_scrypt_def SCRYPT_N_def SCRYPT_R_def SCRYPT_P_def SCRYPT_DKLEN_def show_nat.simps ascii_def)
  have "sy_kdf demo_scrypt ''hunter3'' (replicate 16 7) SCRYPT_N SCRYPT_R SCRYPT_P SCRYPT_DKLEN \<noteq>
      sy_kdf demo_scrypt ''hunter2'' (replicate 16 7) SCRYPT_N SCRYPT_R SCRYPT_P SCRYPT_DKLEN"
    by (simp add: demo_scrypt_def SCRYPT_DKLEN_def ascii_def)
  then show ?thesis
    using st password_hash_verifies [OF st _ l, where attempt = "''hunter2''"] password_hash_verifies [OF st _ l, where attempt = "''hunter3''"] by auto
qed

section \<open>Comparing secrets\<close>

lemma pad256_inj:
  assumes "CHR 0x00 \<notin> set a" and "CHR 0x00 \<notin> set b" and "length a < 256" and "length b < 256" and "pad256 a = pad256 b"
  shows "a = b"
proof -
  have t: "takeWhile (\<lambda>c. c \<noteq> CHR 0x00) (pad256 x) = x" if "CHR 0x00 \<notin> set x" "length x < 256" for x
  proof -
    have "256 - length x = Suc (255 - length x)" using that by simp
    moreover have "takeWhile (\<lambda>c. c \<noteq> CHR 0x00) (x @ CHR 0x00 # r) = x" for r
      using that(1) by (subst takeWhile_append2) auto
    ultimately show ?thesis by (simp add: pad256_def)
  qed
  then show ?thesis using assms by metis
qed

text \<open>The comparison that takes the same time for all inputs is equality, of strings that fit its window.\<close>

lemma secure_streq_iff:
  assumes "CHR 0x00 \<notin> set a" and "CHR 0x00 \<notin> set b"
  shows "crypto_secure_streq a b \<longleftrightarrow> a = b \<and> length a < 256"
  using pad256_inj [OF assms] by (auto simp: crypto_secure_streq_def)

section \<open>SCRAM\<close>

text \<open>What is relied on of base64: four characters per three bytes, the padding, no dollar sign.\<close>

definition base64_ok :: "base64 \<Rightarrow> bool" where
  "base64_ok B \<longleftrightarrow> (\<forall>b. length (b6_encode B b) = 4 * ((length b + 2) div 3) \<and> DOLLAR \<notin> set (b6_encode B b) \<and>
     b6_decode B (b6_encode B b) = Some (b @ replicate ((3 - length b mod 3) mod 3) 0) \<and>
     (b \<noteq> [] \<longrightarrow> (last (b6_encode B b) = CHR ''='' \<longleftrightarrow> length b mod 3 \<noteq> 0) \<and>
        (last (butlast (b6_encode B b)) = CHR ''='' \<longleftrightarrow> length b mod 3 = 1)))"

lemma b64_roundtrip:
  assumes "base64_ok B" and "b \<noteq> []" and "4 * ((length b + 2) div 3) < 64" and "(length b + 2) div 3 * 3 \<le> outsz"
  shows "scram_b64_decode B (b64_text B b 64) outsz = Some b"
    and "b64_text B b 64 \<noteq> []" and "DOLLAR \<notin> set (b64_text B b 64)" and "length (b64_text B b 64) < 64"
proof -
  define e where "e = b6_encode B b"
  have L: "length e = 4 * ((length b + 2) div 3)" "DOLLAR \<notin> set e"
    "b6_decode B e = Some (b @ replicate ((3 - length b mod 3) mod 3) 0)"
    "last e = CHR ''='' \<longleftrightarrow> length b mod 3 \<noteq> 0" "last (butlast e) = CHR ''='' \<longleftrightarrow> length b mod 3 = 1"
    using assms(1,2) by (simp_all add: base64_ok_def e_def)
  have ne: "e \<noteq> []" "0 < length b" using L(1) assms(2) by (auto simp flip: length_greater_0_conv)
  have t: "b64_text B b 64 = e" using assms(3) by (simp add: b64_text_def scram_b64_encode_def e_def)
  have pos: "0 < Suc (Suc (length b)) div 3" using assms(2) by (cases b) simp_all
  have l1: "e ! (length e - 1) = last e" using ne by (simp add: last_conv_nth)
  have "2 \<le> length e" using L(1) ne by linarith
  then have l2: "e ! (length e - 2) = last (butlast e)"
    by (simp add: last_conv_nth nth_butlast flip: length_greater_0_conv) (simp add: numeral_2_eq_2)
  have m: "length b mod 3 = 0 \<or> length b mod 3 = 1 \<or> length b mod 3 = 2" by linarith
  show "scram_b64_decode B (b64_text B b 64) outsz = Some b"
    unfolding t scram_b64_decode_def Let_def l1 l2 using L ne assms(4) m pos by auto
  show "b64_text B b 64 \<noteq> []" "DOLLAR \<notin> set (b64_text B b 64)" "length (b64_text B b 64) < 64"
    using t ne L(1,2) assms(3) by simp_all
qed

text \<open>
  C40. SCRAM works end to end: the verifier made from a password and a salt of at most 30 bytes is
  the same after it was written to the account store and read back, and a client that knows the
  password - it computes the client key, and proves it with the signature of the exchange - is
  accepted and gets the signature of a server that knows the server key. It is relied on that
  base64 is decoded to what was encoded and that the hash functions give 32 bytes.
\<close>

theorem scram_end_to_end:
  assumes "scram_derive H password salt iter = Some v" and "base64_ok B" and "length salt \<le> 30" and "iter \<le> 1000000"
    and "\<And>k m. length (hs_hmac H k m) = 32" and "\<And>m. length (hs_sha H m) = 32"
  shows "let client_key = hs_hmac H (hs_pbkdf2 H password salt (nat iter)) (ascii ''Client Key'');
             sent = map2 (\<lambda>a b. a XOR b) client_key (hs_hmac H (hs_sha H client_key) (ascii exchange))
         in scram_verifier_from_string B (scram_verifier_to_string B v 300) = Some v \<and>
            scram_check_proof H v exchange sent =
              Some (hs_hmac H (hs_hmac H (hs_pbkdf2 H password salt (nat iter)) (ascii ''Server Key'')) (ascii exchange))"
proof -
  define ck where "ck = hs_hmac H (hs_pbkdf2 H password salt (nat iter)) (ascii ''Client Key'')"
  define sg where "sg = hs_hmac H (hs_sha H ck) (ascii exchange)"
  have v: "v = \<lparr>sv_iter = iter, sv_salt = salt, sv_stored_key = hs_sha H ck,
      sv_server_key = hs_hmac H (hs_pbkdf2 H password salt (nat iter)) (ascii ''Server Key'')\<rparr>"
    and salt: "salt \<noteq> []" and iter: "1 \<le> iter"
    using assms(1) by (auto simp: scram_derive_def Let_def ck_def split: if_splits)
  have "map2 (\<lambda>a b. a XOR b) (map2 (\<lambda>a b. a XOR b) ck sg) sg = ck"
    using assms(5) by (auto simp: list_eq_iff_nth_eq ck_def sg_def xor.assoc)
  then have proof_ok: "scram_check_proof H v exchange (map2 (\<lambda>a b. a XOR b) ck sg) = Some (hs_hmac H (sv_server_key v) (ascii exchange))"
    by (simp add: scram_check_proof_def v sg_def Let_def)
  have keys: "sv_stored_key v \<noteq> []" "length (sv_stored_key v) = 32" "sv_server_key v \<noteq> []" "length (sv_server_key v) = 32"
    using assms(5,6) by (auto simp: v simp flip: length_greater_0_conv)
  have ls: "4 * ((length salt + 2) div 3) < 64" "(length salt + 2) div 3 * 3 \<le> 32" using assms(3) by linarith+
  note s = b64_roundtrip [OF assms(2) salt ls]
  note st = b64_roundtrip [OF assms(2) keys(1), of 64] and sk = b64_roundtrip [OF assms(2) keys(3), of 64]
  define parts where "parts = [show_int iter, b64_text B salt 64, b64_text B (sv_stored_key v) 64, b64_text B (sv_server_key v) 64]"
  have n: "show_int iter = show_nat (nat iter)" using iter by (simp add: show_int_def)
  have len: "length (show_int iter) \<le> 7"
    unfolding n by (rule length_show_nat_le) (use assms(4) in simp_all)
  have "length (join_dollar parts) < 300" using len s(4) st(4) sk(4) keys by (simp add: parts_def)
  then have str: "scram_verifier_to_string B v 300 = join_dollar parts" "length (join_dollar parts) < 300"
    by (simp_all add: scram_verifier_to_string_def parts_def v)
  have tok: "strtok (\<lambda>c. c = DOLLAR) (join_dollar parts) = parts"
    by (rule strtok_join) (use s st sk keys n show_nat_no_dollar in \<open>auto simp: parts_def\<close>)
  have it: "atol (show_int iter) = iter"
    using strtol_show_nat [of "[]" "nat iter"] iter assms(4) by (simp add: n atol_def ctype_simps LONG_MAX_def)
  have w: "sint (word_of_int iter :: 32 word) = iter"
    using iter assms(4) by (simp add: sint_sbintrunc' signed_take_bit_int_eq_self)
  have "scram_verifier_from_string B (join_dollar parts) = Some v"
    using str(2) tok it w iter assms(4) s(1) st(1) sk(1) keys salt
    by (simp add: scram_verifier_from_string_def parts_def Let_def SCRAM_KEYLEN_def v)
  then show ?thesis using str(1) proof_ok unfolding ck_def [symmetric] Let_def sg_def [symmetric] by (simp add: v)
qed

subsection \<open>Base64 as in RFC 4648\<close>

text \<open>An instance of the encoding that has the properties relied on.\<close>

definition rfc_chars :: string where
  "rfc_chars = ''ABCDEFGHIJKLMNOPQRSTUVWXYZabcdefghijklmnopqrstuvwxyz0123456789+/''"

definition rfc_val :: "char \<Rightarrow> nat" where
  "rfc_val c = (if c = CHR ''='' then 0 else length (takeWhile (\<lambda>x. x \<noteq> c) rfc_chars))"

definition rfc_quad :: "nat \<Rightarrow> string" where
  "rfc_quad v = [rfc_chars ! (v div 262144), rfc_chars ! (v div 4096 mod 64), rfc_chars ! (v div 64 mod 64), rfc_chars ! (v mod 64)]"

fun rfc_encode :: "u8 list \<Rightarrow> string" where
  "rfc_encode (a # b # c # r) = rfc_quad (unat a * 65536 + unat b * 256 + unat c) @ rfc_encode r"
| "rfc_encode [a, b] = take 3 (rfc_quad (unat a * 65536 + unat b * 256)) @ ''=''"
| "rfc_encode [a] = take 2 (rfc_quad (unat a * 65536)) @ ''==''"
| "rfc_encode [] = []"

fun rfc_decode :: "string \<Rightarrow> u8 list option" where
  "rfc_decode (p # q # r # s # t) =
     (let v = rfc_val p * 262144 + rfc_val q * 4096 + rfc_val r * 64 + rfc_val s
      in map_option (\<lambda>u. word_of_nat (v div 65536) # word_of_nat (v div 256 mod 256) # word_of_nat (v mod 256) # u) (rfc_decode t))"
| "rfc_decode [] = Some []"
| "rfc_decode _ = None"

definition rfc_base64 :: base64 where
  "rfc_base64 = \<lparr>b6_encode = rfc_encode, b6_decode = rfc_decode\<rparr>"

lemma rfc_chars_facts: "length rfc_chars = 64" "distinct rfc_chars" "DOLLAR \<notin> set rfc_chars" "CHR ''='' \<notin> set rfc_chars"
  by (simp_all add: rfc_chars_def)

lemma rfc_char:
  assumes "n < 64"
  shows "rfc_val (rfc_chars ! n) = n" and "rfc_chars ! n \<noteq> DOLLAR" and "rfc_chars ! n \<noteq> CHR ''=''"
proof -
  have m: "rfc_chars ! n \<in> set rfc_chars" using assms rfc_chars_facts(1) by simp
  then show d: "rfc_chars ! n \<noteq> DOLLAR" "rfc_chars ! n \<noteq> CHR ''=''" using rfc_chars_facts(3,4) by metis+
  have "takeWhile (\<lambda>x. x \<noteq> rfc_chars ! n) rfc_chars = take n rfc_chars"
    using assms rfc_chars_facts(1,2) by (intro takeWhile_eq_take_P_nth) (auto simp: nth_eq_iff_index_eq)
  then show "rfc_val (rfc_chars ! n) = n" using assms d rfc_chars_facts(1) by (simp add: rfc_val_def)
qed

lemma rfc_val_eq: "rfc_val CHR ''='' = 0" by (simp add: rfc_val_def)

lemma u8_less: "unat (a :: u8) < 256"
  using unsigned_less [of a, where 'a = nat] by simp

lemma quad_digits:
  assumes "(v :: nat) < 16777216"
  shows "v div 262144 < 64"
    and "v div 262144 * 262144 + v div 4096 mod 64 * 4096 + v div 64 mod 64 * 64 + v mod 64 = v"
proof -
  show "v div 262144 < 64" using assms by (simp add: div_less_iff_less_mult)
  define x where "x = v div 64"
  define y where "y = x div 64"
  have d: "v div 4096 = y" "v div 262144 = y div 64"
    using div_mult2_eq [of v 64 64] div_mult2_eq [of v 4096 64] by (simp_all add: x_def y_def)
  have "v = x * 64 + v mod 64" "x = y * 64 + x mod 64" "y = y div 64 * 64 + y mod 64" by (simp_all add: x_def y_def)
  then show "v div 262144 * 262144 + v div 4096 mod 64 * 4096 + v div 64 mod 64 * 64 + v mod 64 = v"
    unfolding d x_def [symmetric] by linarith
qed

lemma three_bytes:
  assumes "(a :: nat) < 256" and "b < 256" and "c < 256"
  shows "a * 65536 + b * 256 + c < 16777216" and "(a * 65536 + b * 256 + c) div 65536 = a"
    and "(a * 65536 + b * 256 + c) div 256 mod 256 = b" and "(a * 65536 + b * 256 + c) mod 256 = c"
proof -
  have e: "a * 65536 + b * 256 + c = (a * 256 + b) * 256 + c" by simp
  show "a * 65536 + b * 256 + c < 16777216" using assms by simp
  have "b * 256 + c < 65536" using assms by simp
  then have "(a * 65536 + (b * 256 + c)) div 65536 = a" by simp
  then show "(a * 65536 + b * 256 + c) div 65536 = a" by (simp add: add.assoc)
  have "((a * 256 + b) * 256 + c) div 256 = a * 256 + b" using assms(3) by simp
  then show "(a * 65536 + b * 256 + c) div 256 mod 256 = b" unfolding e using assms(2) by simp
  have "((a * 256 + b) * 256 + c) mod 256 = c" using assms(3) by (simp only: mod_mult_self3) simp
  then show "(a * 65536 + b * 256 + c) mod 256 = c" unfolding e .
qed

lemma rfc_decode_quad:
  "v < 16777216 \<Longrightarrow> rfc_decode (rfc_quad v @ t) =
     map_option (\<lambda>u. word_of_nat (v div 65536) # word_of_nat (v div 256 mod 256) # word_of_nat (v mod 256) # u) (rfc_decode t)"
  using quad_digits [of v] by (simp add: rfc_quad_def rfc_char)

lemma rfc_quad_chars: "v < 16777216 \<Longrightarrow> set (rfc_quad v) \<subseteq> set rfc_chars"
  using quad_digits(1) [of v] rfc_chars_facts(1) by (simp add: rfc_quad_def)

lemmas rfc_bytes = three_bytes [OF u8_less u8_less u8_less]

lemma rfc_length: "length (rfc_encode b) = 4 * ((length b + 2) div 3)"
proof (induction b rule: rfc_encode.induct)
  case (1 a b c r)
  have "(length (a # b # c # r) + 2) div 3 = Suc ((length r + 2) div 3)"
    using div_add_self2 [of 3 "length r + 2"] by simp
  with 1 show ?case by (simp add: rfc_quad_def)
qed (simp_all add: rfc_quad_def)

lemma rfc_no_dollar: "DOLLAR \<notin> set (rfc_encode b)"
proof (induction b rule: rfc_encode.induct)
  case (1 a b c r)
  then show ?case using rfc_quad_chars [OF rfc_bytes(1) [of a b c]] rfc_chars_facts(3) by auto
next
  case (2 a b)
  then show ?case
    using rfc_quad_chars [OF rfc_bytes(1) [of a b 0]] rfc_chars_facts(3) by (auto dest!: in_set_takeD)
next
  case (3 a)
  then show ?case
    using rfc_quad_chars [OF rfc_bytes(1) [of a 0 0]] rfc_chars_facts(3) by (auto dest!: in_set_takeD)
qed simp

lemma rfc_decode_pad:
  "x mod 64 = 0 \<Longrightarrow> x < 16777216 \<Longrightarrow> rfc_decode (take 3 (rfc_quad x) @ ''='') = rfc_decode (rfc_quad x)"
  "x mod 64 = 0 \<Longrightarrow> x div 64 mod 64 = 0 \<Longrightarrow> x < 16777216 \<Longrightarrow> rfc_decode (take 2 (rfc_quad x) @ ''=='') = rfc_decode (rfc_quad x)"
  by (simp_all add: rfc_quad_def rfc_val_eq rfc_char numeral_3_eq_3 numeral_2_eq_2)

lemma rfc_roundtrip: "rfc_decode (rfc_encode b) = Some (b @ replicate ((3 - length b mod 3) mod 3) 0)"
proof (induction b rule: rfc_encode.induct)
  case (1 a b c r)
  then show ?case using rfc_bytes [of a b c] by (simp add: rfc_decode_quad mod_Suc)
next
  case (2 a b)
  have "64 dvd unat a * 65536 + unat b * 256" by (intro dvd_add dvd_mult) simp_all
  then have "(unat a * 65536 + unat b * 256) mod 64 = 0" by simp
  then show ?case
    using rfc_bytes [of a b 0] rfc_decode_quad [of "unat a * 65536 + unat b * 256" "[]"] by (simp add: rfc_decode_pad)
next
  case (3 a)
  have "unat a * 65536 = (unat a * 1024) * 64" "unat a * 1024 = (unat a * 16) * 64" by simp_all
  then have "unat a * 65536 mod 64 = 0" "unat a * 65536 div 64 mod 64 = 0" by (metis mod_mult_self2_is_0, metis mod_mult_self2_is_0 nonzero_mult_div_cancel_right zero_neq_numeral)
  then show ?case
    using rfc_bytes [of a 0 0] rfc_decode_quad [of "unat a * 65536" "[]"] rfc_decode_pad(2) [of "unat a * 65536"]
    by (simp add: numeral_2_eq_2)
qed simp

lemma mod3: "Suc (Suc (Suc n)) mod 3 = n mod 3"
  by presburger

lemma quad_pad:
  "last (take 3 (rfc_quad x) @ ''='') = CHR ''=''" "last (butlast (take 3 (rfc_quad x) @ ''='')) \<noteq> CHR ''=''"
  "last (take 2 (rfc_quad x) @ ''=='') = CHR ''=''" "last (butlast (take 2 (rfc_quad x) @ ''=='')) = CHR ''=''"
  by (simp_all add: rfc_quad_def rfc_char numeral_3_eq_3 numeral_2_eq_2)

lemma rfc_padding:
  "b \<noteq> [] \<Longrightarrow> (last (rfc_encode b) = CHR ''='' \<longleftrightarrow> length b mod 3 \<noteq> 0) \<and>
     (last (butlast (rfc_encode b)) = CHR ''='' \<longleftrightarrow> length b mod 3 = 1)"
proof (induction b rule: rfc_encode.induct)
  case (1 a b c r)
  define x where "x = unat a * 65536 + unat b * 256 + unat c"
  show ?case
  proof (cases "r = []")
    case True
    then show ?thesis by (simp add: rfc_quad_def rfc_char)
  next
    case False
    have "4 \<le> length (rfc_encode r)" using False by (cases r) (simp_all add: rfc_length)
    then have "rfc_encode r \<noteq> []" "butlast (rfc_encode r) \<noteq> []" by (auto simp flip: length_greater_0_conv)
    then show ?thesis using 1 False by (auto simp: butlast_append mod3)
  qed
next
  case (2 a b)
  show ?case unfolding rfc_encode.simps quad_pad(1) using quad_pad(2) by simp
next
  case (3 a)
  show ?case unfolding rfc_encode.simps quad_pad(3,4) by simp
qed simp

lemma rfc_base64_ok: "base64_ok rfc_base64"
  using rfc_length rfc_no_dollar rfc_roundtrip rfc_padding by (simp add: base64_ok_def rfc_base64_def)

definition demo_hashes :: hashes where
  "demo_hashes = \<lparr>hs_hmac = \<lambda>k m. take 32 (map2 (\<lambda>a b. a + b) (k @ replicate 32 3) (m @ replicate 32 5)),
     hs_sha = \<lambda>m. take 32 (map ((*) 7) m @ replicate 32 1), hs_pbkdf2 = \<lambda>p s n. take 32 (ascii p @ s @ replicate 32 (word_of_nat n))\<rparr>"

theorem scram_end_to_end_witness:
  "\<exists>v sent. scram_derive demo_hashes ''pencil'' [1, 2, 3, 4] 4096 = Some v \<and>
     scram_verifier_from_string rfc_base64 (scram_verifier_to_string rfc_base64 v 300) = Some v \<and>
     scram_check_proof demo_hashes v ''n=user,r=abc'' sent \<noteq> None"
proof -
  have "scram_derive demo_hashes ''pencil'' [1, 2, 3, 4] 4096 \<noteq> None" by (simp add: scram_derive_def Let_def)
  then obtain v where v: "scram_derive demo_hashes ''pencil'' [1, 2, 3, 4] 4096 = Some v" by blast
  have "length (hs_hmac demo_hashes k m) = 32" "length (hs_sha demo_hashes m) = 32" for k m
    by (simp_all add: demo_hashes_def)
  note e = scram_end_to_end [OF v rfc_base64_ok, of "''n=user,r=abc''", unfolded Let_def, OF _ _ this]
  show ?thesis by (rule exI [of _ v], rule exI, intro conjI, rule v, use e in simp, subst e [THEN conjunct2]) simp_all
qed

end
