(* ===== verification/Server.thy ===== *)
theory Server
  imports Klines History
begin

text \<open>
  The global registries (src/src/server.c): users by nick, channels by name, connections, the
  connection count per address, the watch lists, read markers, whowas, the netsplit and netjoin
  batches, what is told to whom on a change, and the removal of a client.

  Clients are in \<open>sv_q\<close> under their ids, channels are identified by the key they are found under.
  A hash table is a list of its entries in the order they were added, which is the order in which
  it is walked. What is sent is \<open>sv_out\<close>: \<open>To i l\<close> is the call of \<open>client_send\<close> with client \<open>i\<close> and line \<open>l\<close>
  (whose effect is that of theory Client); the other outputs are the calls of the modules that link
  servers and services. Memory allocation succeeds.
\<close>

unbundle bit_operations_syntax

section \<open>The state\<close>

definition NICKLEN :: nat where "NICKLEN = 64"
definition USERLEN :: nat where "USERLEN = 64"
definition HOSTLEN :: nat where "HOSTLEN = 256"
definition REALNAMELEN :: nat where "REALNAMELEN = 512"
definition WHOWAS_MAX :: nat where "WHOWAS_MAX = 200"
definition CAP_ACCOUNT_NOTIFY :: flags where "CAP_ACCOUNT_NOTIFY = 0x0020"
definition CAP_BATCH :: flags where "CAP_BATCH = 0x4000"
definition CAP_EXTENDED_MONITOR :: flags where "CAP_EXTENDED_MONITOR = 0x80000"

datatype svc_event = SVC_EV_USER | SVC_EV_NICK | SVC_EV_QUIT | SVC_EV_ACCOUNT

datatype srv_out =
    To client_id string
  | Svc_User client_id svc_event
  | Net_User_Quit client_id string
  | Net_User_Account client_id
  | Worker_Cancel "64 word"

record whowas_entry =
  wh_nick :: string
  wh_user :: string
  wh_host :: string
  wh_realname :: string

record fbatch =
  fb_active :: bool
  fb_id :: string
  fb_type :: string
  fb_a :: string
  fb_b :: string
  fb_gen :: "64 word"

text \<open>The window of operator notices; readings of the monotonic clock are in nanoseconds.\<close>

record snotes =
  sn_times :: "int list"
  sn_head :: nat
  sn_count :: nat
  sn_suppressed :: nat

record netserver =
  ns_name :: string
  ns_sid :: string
  ns_desc :: string
  ns_hop :: int
  ns_uplink :: "nat option"
  ns_route :: "nat option"
  ns_n_users :: int

record server =
  sv_q :: evq
  sv_users :: "(string \<times> client_id) list"
  sv_channels :: "(string \<times> channel) list"
  sv_all :: "client_id list"
  sv_n_clients :: int
  sv_by_conn :: "(64 word \<times> client_id) list"
  sv_by_uid :: "(string \<times> client_id) list"
  sv_ip_counts :: "(string \<times> int) list"
  sv_max_users :: nat
  sv_class_count :: "int list"
  sv_n_watchers :: int
  sv_mon_idx :: "(string \<times> client_id list) list"
  sv_watch_idx :: "(string \<times> client_id list) list"
  sv_markers :: "(string \<times> int) list"
  sv_history :: hist_store
  sv_msgid_counter :: "64 word"
  sv_whowas :: "whowas_entry option list"
  sv_whowas_head :: nat
  sv_whowas_count :: nat
  sv_lines :: kline_table
  sv_fanout_gen :: "64 word"
  sv_fb :: "fbatch list"
  sv_fb_cur :: nat
  sv_fb_seq :: "64 word"
  sv_sn :: snotes
  sv_servers :: "(nat \<times> netserver) list"
  sv_out :: "srv_out list"

record srv_cfg =
  sc_name :: string
  sc_network :: string
  sc_default_modes :: string
  sc_ip6_prefix :: int
  sc_history_size :: int
  sc_history_events :: bool
  sc_msgid_prefix :: string

text \<open>What a handler reads besides the state: the configuration, addresses and the clocks.\<close>

record world =
  w_cfg :: srv_cfg
  w_inet :: inet
  w_now :: int
  w_ms :: int
  w_mono :: int

abbreviation sv_client :: "server \<Rightarrow> client_id \<Rightarrow> client" where
  "sv_client sv i \<equiv> ev_client (sv_q sv) i"

definition sv_write :: "client_id \<Rightarrow> client \<Rightarrow> server \<Rightarrow> server" where
  "sv_write i cl sv = sv\<lparr>sv_q := ev_write (sv_q sv) i cl\<rparr>"

definition emit :: "srv_out \<Rightarrow> server \<Rightarrow> server" where
  "emit e sv = sv\<lparr>sv_out := sv_out sv @ [e]\<rparr>"

definition srv_send :: "client_id \<Rightarrow> string \<Rightarrow> server \<Rightarrow> server" where
  "srv_send i l = emit (To i l)"

definition srv_reply :: "world \<Rightarrow> client_id \<Rightarrow> string \<Rightarrow> string list \<Rightarrow> string option \<Rightarrow> server \<Rightarrow> server" where
  "srv_reply W i code params trailing sv =
     (let cl = sv_client sv i; target = (if c_nick cl \<noteq> [] then c_nick cl else ''*'')
      in srv_send i (reply_line 1024 (Some (sc_name (w_cfg W))) code (take IRC_MAX_PARAMS (target # params)) trailing) sv)"

definition notice_self :: "world \<Rightarrow> client_id \<Rightarrow> string \<Rightarrow> server \<Rightarrow> server" where
  "notice_self W i t sv =
     (let cl = sv_client sv i
      in srv_send i (reply_line 500 (Some (sc_name (w_cfg W))) ''NOTICE'' [if c_nick cl \<noteq> [] then c_nick cl else ''*''] (Some t)) sv)"

section \<open>Read markers\<close>

definition marker_key :: "string \<Rightarrow> string \<Rightarrow> string" where
  "marker_key account target = clip 200 (irc_casefold 72 account @ [SOH] @ irc_casefold 72 target)"

definition server_marker_get :: "string \<Rightarrow> string \<Rightarrow> (string \<times> int) list \<Rightarrow> int" where
  "server_marker_get account target ms = (case map_of ms (marker_key account target) of Some v \<Rightarrow> v | None \<Rightarrow> 0)"

definition MARKERS_MAX :: nat where "MARKERS_MAX = 100000"

definition server_marker_set :: "string \<Rightarrow> string \<Rightarrow> int \<Rightarrow> (string \<times> int) list \<Rightarrow> int \<times> (string \<times> int) list" where
  "server_marker_set account target v ms =
     (let key = marker_key account target
      in case map_of ms key of
           None \<Rightarrow> if length ms \<ge> MARKERS_MAX then (0, ms)
                   else (let n = (if v > 0 then v else 0) in (n, ms @ [(key, n)]))
         | Some old \<Rightarrow> (let n = (if v > old then v else old) in (n, AList.update key n ms)))"

text \<open>The account and time of a marker on the channel, \<open>None\<close> for other markers.\<close>

definition marker_on :: "string \<Rightarrow> string \<times> int \<Rightarrow> (string \<times> int) option" where
  "marker_on ocf m =
     (case split_chr SOH (fst m) of
        None \<Rightarrow> None
      | Some (acct, target) \<Rightarrow> if target = ocf then Some (clip 72 acct, snd m) else None)"

definition server_marker_rename :: "string \<Rightarrow> string \<Rightarrow> (string \<times> int) list \<Rightarrow> (string \<times> int) list" where
  "server_marker_rename oldname newname ms =
     (let ocf = irc_casefold 72 oldname; ncf = irc_casefold 72 newname
      in if ocf = ncf then ms
         else (let kept = filter (\<lambda>m. marker_on ocf m = None) ms;
                   moved = rev (List.map_filter (marker_on ocf) ms)
               in fold (\<lambda>(acct, v) m. snd (server_marker_set acct newname v m)) moved kept))"

section \<open>Users, channels and connections\<close>

definition server_find_user :: "string \<Rightarrow> server \<Rightarrow> client_id option" where
  "server_find_user nick sv = map_of (sv_users sv) (irc_casefold NICKLEN nick)"

definition server_find_channel :: "string \<Rightarrow> server \<Rightarrow> (string \<times> channel) option" where
  "server_find_channel name sv =
     (let cf = irc_casefold CHAN_NAMELEN name in map_option (\<lambda>c. (cf, c)) (map_of (sv_channels sv) cf))"

definition default_mode_letters :: "(char \<times> flags) list" where
  "default_mode_letters =
     [(CHR ''n'', CMODE_N), (CHR ''i'', CMODE_I), (CHR ''p'', CMODE_P), (CHR ''t'', CMODE_T), (CHR ''s'', CMODE_S),
      (CHR ''m'', CMODE_M), (CHR ''P'', CMODE_PERM), (CHR ''C'', CMODE_NOCTCP), (CHR ''T'', CMODE_NONOTICE),
      (CHR ''S'', CMODE_STRIPCOLOR), (CHR ''V'', CMODE_NOINVITE), (CHR ''Q'', CMODE_NOKICK), (CHR ''N'', CMODE_NONICK),
      (CHR ''z'', CMODE_Z)]"

definition default_modes :: "string \<Rightarrow> flags" where
  "default_modes s = fold (\<lambda>c m. case map_of default_mode_letters c of Some b \<Rightarrow> m OR b | None \<Rightarrow> m) s 0"

text \<open>The key of the channel that was found or made.\<close>

definition server_get_or_create_channel :: "world \<Rightarrow> string \<Rightarrow> server \<Rightarrow> string \<times> server" where
  "server_get_or_create_channel W name sv =
     (case server_find_channel name sv of
        Some (k, _) \<Rightarrow> (k, sv)
      | None \<Rightarrow>
          (let cf = irc_casefold CHAN_NAMELEN name;
               chan = (channel_new name cf (w_now W))\<lparr>ch_modes := default_modes (sc_default_modes (w_cfg W))\<rparr>
           in (cf, sv\<lparr>sv_channels := sv_channels sv @ [(cf, chan)]\<rparr>)))"

definition server_ip_key :: "world \<Rightarrow> string \<Rightarrow> string" where
  "server_ip_key W ip = irc_ip_limit_key (w_inet W) ip (sc_ip6_prefix (w_cfg W)) 64"

definition server_ip_count :: "world \<Rightarrow> string \<Rightarrow> server \<Rightarrow> int" where
  "server_ip_count W ip sv = (case map_of (sv_ip_counts sv) (server_ip_key W ip) of Some n \<Rightarrow> n | None \<Rightarrow> 0)"

definition ip_count_inc :: "string \<Rightarrow> (string \<times> int) list \<Rightarrow> (string \<times> int) list" where
  "ip_count_inc ip m = (case map_of m ip of None \<Rightarrow> m @ [(ip, 1)] | Some n \<Rightarrow> AList.update ip (n + 1) m)"

definition ip_count_dec :: "string \<Rightarrow> (string \<times> int) list \<Rightarrow> (string \<times> int) list" where
  "ip_count_dec ip m =
     (case map_of m ip of None \<Rightarrow> m | Some n \<Rightarrow> if n - 1 \<le> 0 then AList.delete ip m else AList.update ip (n - 1) m)"

definition server_add_connection :: "world \<Rightarrow> client_id \<Rightarrow> server \<Rightarrow> server" where
  "server_add_connection W i sv =
     (let cl = sv_client sv i; key = server_ip_key W (c_ip cl);
          sv1 = sv_write i (cl\<lparr>c_count_key := key\<rparr>) (sv\<lparr>sv_all := i # sv_all sv, sv_n_clients := sv_n_clients sv + 1,
                  sv_ip_counts := ip_count_inc key (sv_ip_counts sv), sv_by_conn := sv_by_conn sv @ [(c_conn_id cl, i)]\<rparr>)
      in sv1\<lparr>sv_q := client_mark_dirty i (sv_q sv1)\<rparr>)"

definition server_find_by_conn_id :: "64 word \<Rightarrow> server \<Rightarrow> client_id option" where
  "server_find_by_conn_id cid sv = map_of (sv_by_conn sv) cid"

definition unlink_connection :: "client_id \<Rightarrow> server \<Rightarrow> server" where
  "unlink_connection i sv =
     (let cl = sv_client sv i
      in if c_fd cl < 0 then sv
         else sv\<lparr>sv_all := remove1 i (sv_all sv), sv_n_clients := sv_n_clients sv - 1,
                 sv_ip_counts := ip_count_dec (c_count_key cl) (sv_ip_counts sv),
                 sv_by_conn := filter (\<lambda>e. snd e \<noteq> i) (sv_by_conn sv)\<rparr>)"

definition server_add_user :: "client_id \<Rightarrow> server \<Rightarrow> server" where
  "server_add_user i sv =
     (let us = sv_users sv @ [(c_casefold_nick (sv_client sv i), i)]
      in sv\<lparr>sv_users := us, sv_max_users := max (sv_max_users sv) (length us)\<rparr>)"

definition server_attach_membership :: "client_id \<Rightarrow> string \<Rightarrow> server \<Rightarrow> server" where
  "server_attach_membership i k sv =
     (let cl = sv_client sv i in sv_write i (cl\<lparr>c_channels := k # c_channels cl\<rparr>) sv)"

definition server_detach_membership :: "client_id \<Rightarrow> string \<Rightarrow> server \<Rightarrow> server" where
  "server_detach_membership i k sv =
     (let cl = sv_client sv i in sv_write i (cl\<lparr>c_channels := remove1 k (c_channels cl)\<rparr>) sv)"

definition chan_of :: "server \<Rightarrow> string \<Rightarrow> channel" where
  "chan_of sv k = the (map_of (sv_channels sv) k)"

definition set_chan :: "string \<Rightarrow> channel \<Rightarrow> server \<Rightarrow> server" where
  "set_chan k c sv = sv\<lparr>sv_channels := AList.update k c (sv_channels sv)\<rparr>"

definition server_maybe_drop_channel :: "string \<Rightarrow> server \<Rightarrow> server" where
  "server_maybe_drop_channel k sv =
     (let c = chan_of sv k
      in if channel_member_count c > 0 then sv
         else if has (ch_modes c) CMODE_PERM then sv
         else sv\<lparr>sv_channels := AList.delete k (sv_channels sv)\<rparr>)"

section \<open>Telling others\<close>

definition server_next_msgid :: "world \<Rightarrow> server \<Rightarrow> string \<times> server" where
  "server_next_msgid W sv =
     (let n = sv_msgid_counter sv + 1
      in (clip 48 (sc_msgid_prefix (w_cfg W) @ ''-'' @ show_nat (unat n)), sv\<lparr>sv_msgid_counter := n\<rparr>))"

text \<open>The sender, verb and rest of an event line, when it is one that is kept in the history.\<close>

definition event_line :: "string \<Rightarrow> (string \<times> string \<times> string) option" where
  "event_line line =
     (if take 1 line \<noteq> '':'' then None
      else case split_chr SP line of
        None \<Rightarrow> None
      | Some (a, r) \<Rightarrow>
          (let sender = drop 1 a; (verb, rest) = (case split_chr SP r of None \<Rightarrow> (r, []) | Some (v, t) \<Rightarrow> (v, t))
           in if length sender \<ge> 200 \<or> length verb \<ge> 16 then None
              else if verb \<notin> {''JOIN'', ''PART'', ''QUIT'', ''KICK'', ''MODE'', ''TOPIC'', ''NICK''} then None
              else Some (sender, verb, rest)))"

definition server_history_event :: "world \<Rightarrow> string \<Rightarrow> string \<Rightarrow> server \<Rightarrow> server" where
  "server_history_event W k line sv =
     (let chan = chan_of sv k
      in if sc_history_size (w_cfg W) \<le> 0 \<or> \<not> sc_history_events (w_cfg W) then sv
         else if has (ch_modes chan) (CMODE_DELAYJOIN OR CMODE_AUDITORIUM) then sv
         else case event_line line of
           None \<Rightarrow> sv
         | Some (sender, verb, rest) \<Rightarrow>
             (let (msgid, sv1) = server_next_msgid W sv;
                  h = \<lparr>he_ms = w_ms W, he_msgid = msgid, he_sender = sender, he_account = [], he_verb = verb,
                       he_target = ch_name chan, he_text = rest\<rparr>
              in sv1\<lparr>sv_history := history_add (history_key_channel 160 (ch_name chan)) (sc_history_size (w_cfg W)) h (sv_history sv1)\<rparr>))"

definition FB_NETSPLIT :: nat where "FB_NETSPLIT = 1"
definition FB_NETJOIN :: nat where "FB_NETJOIN = 2"

definition server_fbatch_end :: "world \<Rightarrow> nat \<Rightarrow> server \<Rightarrow> server" where
  "server_fbatch_end W slot sv =
     (let b = sv_fb sv ! slot
      in if \<not> fb_active b then sv
         else (let line = reply_line 100 (Some (sc_name (w_cfg W))) ''BATCH'' [clip 32 (''-'' @ fb_id b)] None;
                   sv1 = sv\<lparr>sv_fb := (sv_fb sv)[slot := b\<lparr>fb_active := False\<rparr>]\<rparr>
               in fold (\<lambda>i s. let c = sv_client s i in if c_fb_mark c ! slot = fb_gen b \<and> c_fd c \<ge> 0 then srv_send i line s else s)
                    (sv_all sv1) sv1))"

definition server_fbatch_begin :: "world \<Rightarrow> nat \<Rightarrow> string \<Rightarrow> string \<Rightarrow> string \<Rightarrow> server \<Rightarrow> server" where
  "server_fbatch_begin W slot type a b sv =
     (let sv1 = server_fbatch_end W slot sv; n = sv_fb_seq sv1 + 1;
          fid = clip 24 ((if slot = FB_NETSPLIT then ''ns'' else ''nj'') @ show_nat (unat n))
      in sv1\<lparr>sv_fb_seq := n,
             sv_fb := (sv_fb sv1)[slot := \<lparr>fb_active = True, fb_id = fid, fb_type = clip 12 type, fb_a = clip 128 a,
                                          fb_b = clip 128 b, fb_gen = n\<rparr>]\<rparr>)"

definition server_fbatch_send :: "world \<Rightarrow> client_id \<Rightarrow> string \<Rightarrow> server \<Rightarrow> server" where
  "server_fbatch_send W i line sv =
     (let slot = sv_fb_cur sv; b = sv_fb sv ! slot; c = sv_client sv i
      in if slot = 0 \<or> \<not> fb_active b \<or> c_fd c < 0 \<or> \<not> has (c_caps c) CAP_BATCH then srv_send i line sv
         else (let sv1 = (if c_fb_mark c ! slot \<noteq> fb_gen b
                 then srv_send i (reply_line 400 (Some (sc_name (w_cfg W))) ''BATCH''
                                   [clip 32 (''+'' @ fb_id b), fb_type b, fb_a b, fb_b b] None)
                        (sv_write i (c\<lparr>c_fb_mark := (c_fb_mark c)[slot := fb_gen b]\<rparr>) sv)
                 else sv)
               in srv_send i (clip 1100 (if take 1 line = ''@'' then ''@batch='' @ fb_id b @ '';'' @ drop 1 line
                                         else ''@batch='' @ fb_id b @ '' '' @ line)) sv1))"

definition server_broadcast_channel :: "world \<Rightarrow> string \<Rightarrow> string \<Rightarrow> client_id option \<Rightarrow> server \<Rightarrow> server" where
  "server_broadcast_channel W k line except sv =
     (let ms = ch_members (chan_of sv k);
          sv1 = (if ms \<noteq> [] then server_history_event W k line sv else sv)
      in fold (\<lambda>(i, _) s. if except = Some i then s else srv_send i line s) ms sv1)"

definition fan_member :: "world \<Rightarrow> 64 word \<Rightarrow> flags \<Rightarrow> string \<Rightarrow> client_id \<Rightarrow> server \<Rightarrow> server" where
  "fan_member W gen cap line i sv =
     (let c = sv_client sv i
      in if c_fanout_mark c = gen then sv
         else (let sv1 = sv_write i (c\<lparr>c_fanout_mark := gen\<rparr>) sv
               in if cap \<noteq> 0 \<and> \<not> has (c_caps c) cap then sv1 else server_fbatch_send W i line sv1))"

definition server_send_common_channels :: "world \<Rightarrow> client_id \<Rightarrow> string \<Rightarrow> flags \<Rightarrow> server \<Rightarrow> server" where
  "server_send_common_channels W i line cap sv =
     (let chans = c_channels (sv_client sv i);
          sv1 = (if cap = 0 then fold (\<lambda>k s. server_history_event W k line s) chans sv else sv);
          gen = sv_fanout_gen sv1 + 1;
          sv2 = sv_write i ((sv_client sv1 i)\<lparr>c_fanout_mark := gen\<rparr>) (sv1\<lparr>sv_fanout_gen := gen\<rparr>)
      in fold (\<lambda>k s. fold (\<lambda>(j, _) s. fan_member W gen cap line j s) (ch_members (chan_of s k)) s) chans sv2)"

section \<open>Notices to operators\<close>

definition SNOTE_MAX :: nat where "SNOTE_MAX = 20"
definition SNOTE_WINDOW :: int where "SNOTE_WINDOW = 5000000000"

text \<open>The push into the ring of 21 readings, and the loop that drops those before the window.\<close>

definition snote_push :: "int \<Rightarrow> snotes \<Rightarrow> snotes" where
  "snote_push now n =
     (let sz = length (sn_times n)
      in if sn_count n < sz
         then n\<lparr>sn_times := (sn_times n)[(sn_head n + sn_count n) mod sz := now], sn_count := sn_count n + 1\<rparr>
         else n\<lparr>sn_times := (sn_times n)[sn_head n := now], sn_head := (sn_head n + 1) mod sz\<rparr>)"

fun snote_expire :: "int \<Rightarrow> nat \<Rightarrow> nat \<Rightarrow> int list \<Rightarrow> nat \<times> nat" where
  "snote_expire now h 0 ts = (h, 0)"
| "snote_expire now h (Suc count) ts =
     (if ts ! h < now - SNOTE_WINDOW then snote_expire now ((h + 1) mod length ts) count ts
      else (h, Suc count))"

text \<open>The window after a notice at \<open>now\<close>, and how many were held back if this one is delivered.\<close>

definition snote_step :: "int \<Rightarrow> snotes \<Rightarrow> snotes \<times> nat option" where
  "snote_step now n =
     (let n1 = snote_push now n;
          (h, count) = snote_expire now (sn_head n1) (sn_count n1) (sn_times n1);
          n2 = n1\<lparr>sn_head := h, sn_count := count\<rparr>
      in if count > SNOTE_MAX then (n2\<lparr>sn_suppressed := sn_suppressed n2 + 1\<rparr>, None)
         else (n2\<lparr>sn_suppressed := 0\<rparr>, Some (sn_suppressed n2)))"

definition server_notify_opers :: "world \<Rightarrow> string \<Rightarrow> server \<Rightarrow> server" where
  "server_notify_opers W message sv =
     (case snote_step (w_mono W) (sv_sn sv) of
        (n, None) \<Rightarrow> sv\<lparr>sv_sn := n\<rparr>
      | (n, Some held) \<Rightarrow>
          (let t = clip 500 (''*** Notice -- '' @ message @
                      (if held \<noteq> 0 then '' (+'' @ show_nat held @ '' more notice(s) were suppressed)'' else []))
           in fold (\<lambda>(_, i) s. let c = sv_client s i
                      in if has (c_umodes c) UMODE_O \<and> has (c_umodes c) UMODE_S then notice_self W i t s else s)
                (sv_users sv) (sv\<lparr>sv_sn := n\<rparr>)))"

section \<open>Whowas and the watch lists\<close>

definition server_whowas_record :: "string \<Rightarrow> string \<Rightarrow> string \<Rightarrow> string \<Rightarrow> server \<Rightarrow> server" where
  "server_whowas_record nick user host realname sv =
     sv\<lparr>sv_whowas := (sv_whowas sv)[sv_whowas_head sv := Some \<lparr>wh_nick = take (NICKLEN - 1) nick, wh_user = take (USERLEN - 1) user,
                          wh_host = take (HOSTLEN - 1) host, wh_realname = take (REALNAMELEN - 1) realname\<rparr>],
        sv_whowas_head := (sv_whowas_head sv + 1) mod WHOWAS_MAX,
        sv_whowas_count := (if sv_whowas_count sv < WHOWAS_MAX then sv_whowas_count sv + 1 else sv_whowas_count sv)\<rparr>"

type_synonym watch_idx = "(string \<times> client_id list) list"

definition server_watch_index_add :: "client_id \<Rightarrow> string \<Rightarrow> watch_idx \<Rightarrow> watch_idx" where
  "server_watch_index_add i cf idx =
     (let idx1 = (if map_of idx cf = None then idx @ [(clip NICKLEN cf, [])] else idx)
      in case map_of idx1 cf of
           None \<Rightarrow> idx1
         | Some w \<Rightarrow> if i \<in> set w then idx1 else AList.update cf (w @ [i]) idx1)"

text \<open>The last entry takes the place of the one that is removed.\<close>

definition swap_remove :: "'a \<Rightarrow> 'a list \<Rightarrow> 'a list" where
  "swap_remove x xs =
     (if x \<in> set xs then (butlast xs)[length (takeWhile (\<lambda>y. y \<noteq> x) xs) := last xs] else xs)"

definition server_watch_index_del :: "client_id \<Rightarrow> string \<Rightarrow> watch_idx \<Rightarrow> watch_idx" where
  "server_watch_index_del i cf idx =
     (case map_of idx cf of
        None \<Rightarrow> idx
      | Some w \<Rightarrow> (let w1 = swap_remove i w in if w1 = [] then AList.delete cf idx else AList.update cf w1 idx))"

definition server_watch_index_drop :: "client_id \<Rightarrow> server \<Rightarrow> server" where
  "server_watch_index_drop i sv =
     (let cl = sv_client sv i
      in sv\<lparr>sv_mon_idx := fold (server_watch_index_del i) (c_monitor cl) (sv_mon_idx sv),
            sv_watch_idx := fold (server_watch_index_del i) (c_watch cl) (sv_watch_idx sv)\<rparr>)"

definition watchers_of :: "watch_idx \<Rightarrow> client \<Rightarrow> client_id list" where
  "watchers_of idx cl = (case map_of idx (irc_casefold NICKLEN (c_nick cl)) of Some w \<Rightarrow> w | None \<Rightarrow> [])"

definition server_monitor_extend :: "world \<Rightarrow> client_id \<Rightarrow> string \<Rightarrow> flags \<Rightarrow> server \<Rightarrow> server" where
  "server_monitor_extend W i line cap sv =
     (if sv_n_watchers sv = 0 then sv
      else fold (\<lambda>j s. let w = sv_client s j
             in if j = i \<or> c_fd w < 0 \<or> c_quitting w then s
                else if \<not> has (c_caps w) CAP_EXTENDED_MONITOR \<or> (cap \<noteq> 0 \<and> \<not> has (c_caps w) cap) then s
                else if c_fanout_mark w = sv_fanout_gen s then s
                else srv_send j line s)
           (watchers_of (sv_mon_idx sv) (sv_client sv i)) sv)"

definition server_monitor_notify :: "world \<Rightarrow> client_id \<Rightarrow> bool \<Rightarrow> server \<Rightarrow> server" where
  "server_monitor_notify W i online sv =
     (if sv_n_watchers sv = 0 then sv
      else (let cl = sv_client sv i; v = (if online then client_prefix cl 320 else c_nick cl)
            in fold (\<lambda>j s. if j \<noteq> i then srv_reply W j (if online then ''730'' else ''731'') [] (Some v) s else s)
                 (watchers_of (sv_mon_idx sv) cl) sv))"

definition server_watch_notify :: "world \<Rightarrow> client_id \<Rightarrow> bool \<Rightarrow> server \<Rightarrow> server" where
  "server_watch_notify W i online sv =
     (if sv_n_watchers sv = 0 then sv
      else (let cl = sv_client sv i; t = show_int (if online then c_signon_time cl else w_now W);
                p = [c_nick cl, client_ident cl, c_host cl, clip 32 t]
            in fold (\<lambda>j s. if j \<noteq> i then srv_reply W j (if online then ''600'' else ''601'') p
                             (Some (if online then ''logged online'' else ''logged offline'')) s else s)
                 (watchers_of (sv_watch_idx sv) cl) sv))"

section \<open>Accounts\<close>

definition server_logout :: "world \<Rightarrow> client_id \<Rightarrow> server \<Rightarrow> server" where
  "server_logout W i sv =
     (let cl = sv_client sv i
      in if c_account cl = [] then sv
         else (let prefix = client_prefix cl 320; cl1 = cl\<lparr>c_account := [], c_umodes := c_umodes cl AND NOT UMODE_R\<rparr>;
                   line = reply_line 400 (Some prefix) ''ACCOUNT'' [''*''] None
               in emit (Net_User_Account i)
                    (server_monitor_extend W i line CAP_ACCOUNT_NOTIFY
                      (server_send_common_channels W i line CAP_ACCOUNT_NOTIFY
                        (srv_reply W i ''901'' [prefix] (Some ''You are now logged out'') (sv_write i cl1 sv))))))"

definition server_login :: "world \<Rightarrow> client_id \<Rightarrow> string \<Rightarrow> server \<Rightarrow> server" where
  "server_login W i account sv =
     (let cl = sv_client sv i; cl1 = cl\<lparr>c_account := clip 64 account, c_umodes := c_umodes cl OR UMODE_R\<rparr>;
          prefix = client_prefix cl1 320; line = reply_line 400 (Some prefix) ''ACCOUNT'' [account] None
      in emit (Net_User_Account i)
           (server_monitor_extend W i line CAP_ACCOUNT_NOTIFY
             (server_send_common_channels W i line CAP_ACCOUNT_NOTIFY
               (srv_reply W i ''900'' [prefix, account] (Some (clip 220 (''You are now logged in as '' @ account)))
                 (sv_write i cl1 sv)))))"

section \<open>The removal of a client\<close>

definition CFG_MAX_CLASSES :: int where "CFG_MAX_CLASSES = 16"

definition net_release_class :: "client_id \<Rightarrow> server \<Rightarrow> server" where
  "net_release_class i sv =
     (let cl = sv_client sv i; x = c_class_idx cl;
          sv1 = (if x \<ge> 0 \<and> x < CFG_MAX_CLASSES \<and> sv_class_count sv ! nat x > 0
                 then sv\<lparr>sv_class_count := (sv_class_count sv)[nat x := sv_class_count sv ! nat x - 1]\<rparr> else sv)
      in sv_write i (cl\<lparr>c_class_idx := - 1, c_sendq_max := 0\<rparr>) sv1)"

definition drop_uid :: "client_id \<Rightarrow> server \<Rightarrow> server" where
  "drop_uid i sv =
     (let cl = sv_client sv i
      in if c_uid cl = [] then sv
         else (let sv1 = (if map_of (sv_by_uid sv) (c_uid cl) = Some i
                          then sv\<lparr>sv_by_uid := AList.delete (c_uid cl) (sv_by_uid sv)\<rparr> else sv)
               in case c_nserver cl of
                    None \<Rightarrow> sv1
                  | Some n \<Rightarrow>
                      (case map_of (sv_servers sv1) n of
                         None \<Rightarrow> sv1
                       | Some ns \<Rightarrow>
                           if ns_n_users ns > 0
                           then sv1\<lparr>sv_servers := AList.update n (ns\<lparr>ns_n_users := ns_n_users ns - 1\<rparr>) (sv_servers sv1)\<rparr>
                           else sv1)))"

definition leave_channel :: "client_id \<Rightarrow> string \<Rightarrow> server \<Rightarrow> server" where
  "leave_channel i k sv = server_maybe_drop_channel k (set_chan k (channel_remove_member (chan_of sv k) i) sv)"

definition announce_exit :: "world \<Rightarrow> client_id \<Rightarrow> string \<Rightarrow> server \<Rightarrow> server" where
  "announce_exit W i reason sv =
     (let cl = sv_client sv i
      in if \<not> c_registered cl \<or> c_is_service cl then sv
         else server_notify_opers W
                (clip 400 (''Client exiting: '' @ c_nick cl @ '' ('' @ c_user cl @ ''@'' @
                   (if c_realhost cl \<noteq> [] then c_realhost cl else c_host cl) @ '') ['' @ reason @ ''] ['' @ c_ip cl @ '']''))
                (server_watch_notify W i False (server_monitor_notify W i False
                  (server_whowas_record (c_nick cl) (client_ident cl) (c_host cl) (c_realname cl) sv))))"

definition server_remove_client :: "world \<Rightarrow> client_id \<Rightarrow> string option \<Rightarrow> server \<Rightarrow> server" where
  "server_remove_client W i quit_reason sv =
     (let cl = sv_client sv i; reason = (case quit_reason of Some r \<Rightarrow> r | None \<Rightarrow> []);
          line = reply_line 512 (Some (client_prefix cl 320)) ''QUIT'' [] (Some reason);
          sv1 = (if c_conn_id cl \<noteq> 0 then emit (Worker_Cancel (c_conn_id cl)) sv else sv);
          sv2 = (if c_uid cl \<noteq> [] \<and> \<not> c_remote cl then emit (Net_User_Quit i reason) sv1 else sv1);
          sv3 = drop_uid i (emit (Svc_User i SVC_EV_QUIT) sv2);
          sv4 = (if c_is_watcher cl
                 then sv_write i (cl\<lparr>c_is_watcher := False\<rparr>) (sv3\<lparr>sv_n_watchers := sv_n_watchers sv3 - 1\<rparr>) else sv3);
          sv5 = net_release_class i (server_watch_index_drop i sv4);
          sv6 = server_send_common_channels W i line 0 (announce_exit W i reason sv5);
          sv7 = fold (leave_channel i) (c_channels cl) sv6;
          sv8 = sv_write i ((sv_client sv7 i)\<lparr>c_channels := []\<rparr>) sv7;
          sv9 = (if c_casefold_nick cl \<noteq> [] \<and> map_of (sv_users sv8) (c_casefold_nick cl) = Some i
                 then sv8\<lparr>sv_users := AList.delete (c_casefold_nick cl) (sv_users sv8)\<rparr> else sv8);
          sv10 = server_watch_index_drop i (unlink_connection i sv9)
      in sv10\<lparr>sv_q := (sv_q sv10)\<lparr>ev_clients := AList.delete i (ev_clients (sv_q sv10))\<rparr>\<rparr>)"

text \<open>
  One turn of the loop of src/src/net.c that tears down the clients queued for it: the head of the
  queue leaves it, and is removed from the list of clients with output.
\<close>

definition reap_one :: "world \<Rightarrow> server \<Rightarrow> server" where
  "reap_one W sv =
     (case ev_dead (sv_q sv) of
        [] \<Rightarrow> sv
      | i # rest \<Rightarrow>
          (let sv1 = sv\<lparr>sv_q := client_unmark_dirty i ((sv_q sv)\<lparr>ev_dead := rest\<rparr>)\<rparr>;
               r = c_quit_reason (sv_client sv1 i)
           in server_remove_client W i (Some (if r \<noteq> [] then r else ''Client Quit'')) sv1))"

section \<open>The registries agree\<close>

definition live :: "server \<Rightarrow> client_id set" where
  "live sv = set (map fst (ev_clients (sv_q sv)))"

definition member_ids :: "channel \<Rightarrow> client_id list" where
  "member_ids c = map fst (ch_members c)"

definition watch_ok :: "(client_id \<Rightarrow> string list) \<Rightarrow> client_id set \<Rightarrow> watch_idx \<Rightarrow> bool" where
  "watch_ok lst alive idx \<longleftrightarrow> distinct (map fst idx) \<and>
     (\<forall>k w. map_of idx k = Some w \<longrightarrow> w \<noteq> [] \<and> distinct w \<and> set w \<subseteq> alive \<and> (\<forall>i \<in> set w. k \<in> set (lst i)))"

definition users_ok :: "server \<Rightarrow> bool" where
  "users_ok sv \<longleftrightarrow> distinct (map fst (sv_users sv)) \<and>
     (\<forall>k i. map_of (sv_users sv) k = Some i \<longrightarrow> i \<in> live sv \<and> k \<noteq> [] \<and> c_casefold_nick (sv_client sv i) = k) \<and>
     distinct (map fst (sv_by_uid sv)) \<and>
     (\<forall>u i. map_of (sv_by_uid sv) u = Some i \<longrightarrow> i \<in> live sv \<and> u \<noteq> [] \<and> c_uid (sv_client sv i) = u)"

definition channels_ok :: "server \<Rightarrow> bool" where
  "channels_ok sv \<longleftrightarrow> distinct (map fst (sv_channels sv)) \<and>
     (\<forall>k c. map_of (sv_channels sv) k = Some c \<longrightarrow> distinct (member_ids c) \<and> set (member_ids c) \<subseteq> live sv) \<and>
     (\<forall>i \<in> live sv. distinct (c_channels (sv_client sv i)) \<and>
        (\<forall>k. k \<in> set (c_channels (sv_client sv i)) \<longleftrightarrow> (\<exists>c. map_of (sv_channels sv) k = Some c \<and> i \<in> set (member_ids c))))"

definition count_of :: "server \<Rightarrow> string \<Rightarrow> nat" where
  "count_of sv key = length (filter (\<lambda>i. c_count_key (sv_client sv i) = key) (sv_all sv))"

definition conns_ok :: "server \<Rightarrow> bool" where
  "conns_ok sv \<longleftrightarrow> distinct (sv_all sv) \<and> set (sv_all sv) \<subseteq> live sv \<and>
     (\<forall>i \<in> set (sv_all sv). c_fd (sv_client sv i) \<ge> 0) \<and> (\<forall>i \<in> live sv. c_fd (sv_client sv i) \<ge> 0 \<longrightarrow> i \<in> set (sv_all sv)) \<and>
     snd ` set (sv_by_conn sv) \<subseteq> set (sv_all sv) \<and> sv_n_clients sv = int (length (sv_all sv)) \<and>
     distinct (map fst (sv_ip_counts sv)) \<and>
     (\<forall>k. map_of (sv_ip_counts sv) k = (if count_of sv k = 0 then None else Some (int (count_of sv k))))"

definition queues_ok :: "server \<Rightarrow> bool" where
  "queues_ok sv \<longleftrightarrow> distinct (map fst (ev_clients (sv_q sv))) \<and>
     distinct (ev_dirty (sv_q sv)) \<and> distinct (ev_dead (sv_q sv)) \<and>
     (\<forall>i \<in> set (ev_dirty (sv_q sv)) \<union> set (ev_dead (sv_q sv)). i \<in> live sv \<and> c_fd (sv_client sv i) \<ge> 0) \<and>
     (\<forall>i \<in> live sv. (c_dirty_q (sv_client sv i) \<longleftrightarrow> i \<in> set (ev_dirty (sv_q sv))) \<and>
        (i \<in> set (ev_dead (sv_q sv)) \<longrightarrow> c_dead_q (sv_client sv i) \<and> c_quitting (sv_client sv i)))"

text \<open>
  No registry names a client that is gone, a channel and its members name each other, and the
  connections counted for an address are those that are open.
\<close>

definition server_ok :: "server \<Rightarrow> bool" where
  "server_ok sv \<longleftrightarrow> queues_ok sv \<and> users_ok sv \<and> channels_ok sv \<and> conns_ok sv \<and>
     watch_ok (\<lambda>i. c_monitor (sv_client sv i)) (live sv) (sv_mon_idx sv) \<and>
     watch_ok (\<lambda>i. c_watch (sv_client sv i)) (live sv) (sv_watch_idx sv)"

subsection \<open>What only tells others\<close>

text \<open>The part of a client the registries depend on.\<close>

definition core :: "client \<Rightarrow> client" where
  "core c = c\<lparr>c_fanout_mark := 0, c_fb_mark := [], c_class_idx := 0, c_sendq_max := 0, c_is_watcher := False,
              c_account := [], c_umodes := 0\<rparr>"

definition tells :: "server \<Rightarrow> server \<Rightarrow> bool" where
  "tells sv sv' \<longleftrightarrow> map fst (ev_clients (sv_q sv')) = map fst (ev_clients (sv_q sv)) \<and>
     ev_dirty (sv_q sv') = ev_dirty (sv_q sv) \<and> ev_dead (sv_q sv') = ev_dead (sv_q sv) \<and>
     (\<forall>i. core (sv_client sv' i) = core (sv_client sv i)) \<and>
     sv_users sv' = sv_users sv \<and> sv_channels sv' = sv_channels sv \<and> sv_all sv' = sv_all sv \<and>
     sv_n_clients sv' = sv_n_clients sv \<and> sv_by_conn sv' = sv_by_conn sv \<and> sv_by_uid sv' = sv_by_uid sv \<and>
     sv_ip_counts sv' = sv_ip_counts sv \<and> sv_mon_idx sv' = sv_mon_idx sv \<and> sv_watch_idx sv' = sv_watch_idx sv \<and>
     sv_servers sv' = sv_servers sv"

lemma core_select:
  "c_casefold_nick (core c) = c_casefold_nick c"
  "c_uid (core c) = c_uid c"
  "c_channels (core c) = c_channels c"
  "c_fd (core c) = c_fd c"
  "c_count_key (core c) = c_count_key c"
  "c_monitor (core c) = c_monitor c"
  "c_watch (core c) = c_watch c"
  "c_dirty_q (core c) = c_dirty_q c"
  "c_dead_q (core c) = c_dead_q c"
  "c_quitting (core c) = c_quitting c"
  "c_nserver (core c) = c_nserver c"
  "c_conn_id (core c) = c_conn_id c"
  "c_remote (core c) = c_remote c"
  "c_registered (core c) = c_registered c"
  "c_is_service (core c) = c_is_service c"
  by (simp_all add: core_def)

lemma core_fields:
  assumes "core c' = core c"
  shows "c_casefold_nick c' = c_casefold_nick c"
    "c_uid c' = c_uid c"
    "c_channels c' = c_channels c"
    "c_fd c' = c_fd c"
    "c_count_key c' = c_count_key c"
    "c_monitor c' = c_monitor c"
    "c_watch c' = c_watch c"
    "c_dirty_q c' = c_dirty_q c"
    "c_dead_q c' = c_dead_q c"
    "c_quitting c' = c_quitting c"
    "c_nserver c' = c_nserver c"
    "c_conn_id c' = c_conn_id c"
    "c_remote c' = c_remote c"
    "c_registered c' = c_registered c"
    "c_is_service c' = c_is_service c"
  using arg_cong [OF assms, of c_casefold_nick] arg_cong [OF assms, of c_uid] arg_cong [OF assms, of c_channels] arg_cong [OF assms, of c_fd] arg_cong [OF assms, of c_count_key] arg_cong [OF assms, of c_monitor] arg_cong [OF assms, of c_watch] arg_cong [OF assms, of c_dirty_q] arg_cong [OF assms, of c_dead_q] arg_cong [OF assms, of c_quitting] arg_cong [OF assms, of c_nserver] arg_cong [OF assms, of c_conn_id] arg_cong [OF assms, of c_remote] arg_cong [OF assms, of c_registered] arg_cong [OF assms, of c_is_service]
  by (simp_all add: core_select)

lemma tells_refl [simp]: "tells sv sv"
  by (simp add: tells_def)

lemma tells_trans: "tells a b \<Longrightarrow> tells b c \<Longrightarrow> tells a c"
  by (simp add: tells_def)

lemma tells_live: "tells sv sv' \<Longrightarrow> live sv' = live sv"
  by (simp add: tells_def live_def)

lemma tells_client:
  assumes "tells sv sv'"
  shows "c_casefold_nick (sv_client sv' i) = c_casefold_nick (sv_client sv i)" "c_uid (sv_client sv' i) = c_uid (sv_client sv i)"
    "c_channels (sv_client sv' i) = c_channels (sv_client sv i)" "c_fd (sv_client sv' i) = c_fd (sv_client sv i)"
    "c_count_key (sv_client sv' i) = c_count_key (sv_client sv i)" "c_monitor (sv_client sv' i) = c_monitor (sv_client sv i)"
    "c_watch (sv_client sv' i) = c_watch (sv_client sv i)" "c_dirty_q (sv_client sv' i) = c_dirty_q (sv_client sv i)"
    "c_dead_q (sv_client sv' i) = c_dead_q (sv_client sv i)" "c_quitting (sv_client sv' i) = c_quitting (sv_client sv i)"
  using assms core_fields [of "sv_client sv' i" "sv_client sv i"] by (simp_all add: tells_def)

lemma tells_ok:
  assumes t: "tells sv sv'" and "server_ok sv"
  shows "server_ok sv'"
proof -
  have l: "live sv' = live sv" by (rule tells_live [OF t])
  note c = tells_client [OF t] and s = t [unfolded tells_def]
  have "queues_ok sv'" "users_ok sv'" "channels_ok sv'" "conns_ok sv'"
    using assms(2) l c s
    by (simp_all add: server_ok_def queues_ok_def users_ok_def channels_ok_def conns_ok_def count_of_def)
  moreover have "watch_ok (\<lambda>i. c_monitor (sv_client sv' i)) (live sv') (sv_mon_idx sv')"
    "watch_ok (\<lambda>i. c_watch (sv_client sv' i)) (live sv') (sv_watch_idx sv')"
    using assms(2) l c s by (simp_all add: server_ok_def)
  ultimately show ?thesis by (simp add: server_ok_def)
qed

lemma sv_client_write [simp]: "sv_client (sv_write i cl sv) j = (if j = i then cl else sv_client sv j)"
  by (auto simp: sv_write_def ev_client_write)

lemma keys_update_in: "i \<in> set (map fst xs) \<Longrightarrow> map fst (AList.update i v xs) = map fst xs"
  by (simp add: update_keys)

lemma sv_write_fields [simp]:
  "sv_users (sv_write i cl sv) = sv_users sv" "sv_channels (sv_write i cl sv) = sv_channels sv"
  "sv_all (sv_write i cl sv) = sv_all sv" "sv_n_clients (sv_write i cl sv) = sv_n_clients sv"
  "sv_by_conn (sv_write i cl sv) = sv_by_conn sv" "sv_by_uid (sv_write i cl sv) = sv_by_uid sv"
  "sv_ip_counts (sv_write i cl sv) = sv_ip_counts sv" "sv_mon_idx (sv_write i cl sv) = sv_mon_idx sv"
  "sv_watch_idx (sv_write i cl sv) = sv_watch_idx sv" "ev_dirty (sv_q (sv_write i cl sv)) = ev_dirty (sv_q sv)"
  "ev_dead (sv_q (sv_write i cl sv)) = ev_dead (sv_q sv)" "sv_out (sv_write i cl sv) = sv_out sv"
  "sv_fanout_gen (sv_write i cl sv) = sv_fanout_gen sv" "sv_fb (sv_write i cl sv) = sv_fb sv"
  "sv_fb_cur (sv_write i cl sv) = sv_fb_cur sv" "sv_servers (sv_write i cl sv) = sv_servers sv"
  by (simp_all add: sv_write_def ev_write_def)

lemma live_write [simp]: "i \<in> live sv \<Longrightarrow> live (sv_write i cl sv) = live sv"
  by (auto simp: live_def sv_write_def ev_write_def update_keys)

lemma tells_write: "i \<in> live sv \<Longrightarrow> core cl = core (sv_client sv i) \<Longrightarrow> tells sv (sv_write i cl sv)"
  by (simp add: tells_def) (simp add: live_def sv_write_def ev_write_def keys_update_in)

lemma core_marks [simp]:
  "core (c\<lparr>c_fanout_mark := g\<rparr>) = core c" "core (c\<lparr>c_fb_mark := m\<rparr>) = core c"
  "core (c\<lparr>c_class_idx := x, c_sendq_max := y\<rparr>) = core c" "core (c\<lparr>c_is_watcher := b\<rparr>) = core c"
  "core (c\<lparr>c_account := a, c_umodes := u\<rparr>) = core c"
  by (simp_all add: core_def)

text \<open>A step that leaves the registries alone when it starts where every client of a set is live.\<close>

lemma tells_fold:
  assumes "\<And>x s. x \<in> set xs \<Longrightarrow> tells sv s \<Longrightarrow> tells s (f x s)"
  shows "tells sv (fold f xs sv)"
proof -
  have "tells sv s \<Longrightarrow> (\<And>x s. x \<in> set ys \<Longrightarrow> tells sv s \<Longrightarrow> tells s (f x s)) \<Longrightarrow> tells sv (fold f ys s)" for ys s
  proof (induction ys arbitrary: s)
    case (Cons y ys)
    have "tells sv (f y s)" using Cons.prems(2) [of y s] Cons.prems(1) tells_trans by auto
    then show ?case using Cons.IH [of "f y s"] Cons.prems(2) by simp
  qed simp
  then show ?thesis using assms by simp
qed

named_theorems tells_intros

lemma tells_emit [tells_intros]: "tells sv (emit e sv)"
  by (simp add: tells_def emit_def)

lemma tells_send [tells_intros]: "tells sv (srv_send i l sv)"
  by (simp add: srv_send_def tells_emit)

lemma tells_reply [tells_intros]: "tells sv (srv_reply W i code ps t sv)"
  by (simp add: srv_reply_def Let_def tells_send)

lemma tells_notice [tells_intros]: "tells sv (notice_self W i t sv)"
  by (simp add: notice_self_def Let_def tells_send)

lemma tells_sn: "tells sv (sv\<lparr>sv_sn := n\<rparr>)"
  by (simp add: tells_def)

lemma tells_history [tells_intros]: "tells sv (server_history_event W k line sv)"
  by (simp add: server_history_event_def server_next_msgid_def Let_def tells_def split: option.split prod.split)

lemma tells_notify [tells_intros]: "tells sv (server_notify_opers W m sv)"
proof -
  have "tells s (fold (\<lambda>(_, i) s. let c = sv_client s i
                  in if has (c_umodes c) UMODE_O \<and> has (c_umodes c) UMODE_S then notice_self W i t s else s) us s)" for t us s
    by (rule tells_fold) (auto simp: Let_def split_def intro: tells_intros)
  then show ?thesis
    by (auto simp: server_notify_opers_def Let_def split: prod.split option.split intro: tells_trans [OF tells_sn] tells_sn)
qed

lemma tells_fbatch_end [tells_intros]: "tells sv (server_fbatch_end W slot sv)"
proof -
  have "tells s (fold (\<lambda>i s. if c_fb_mark (sv_client s i) ! slot = g \<and> c_fd (sv_client s i) \<ge> 0 then srv_send i l s else s) is s)"
    for g l "is" s
    by (rule tells_fold) (auto intro: tells_intros)
  then have "tells sv (fold (\<lambda>i s. if c_fb_mark (sv_client s i) ! slot = g \<and> c_fd (sv_client s i) \<ge> 0 then srv_send i l s else s) is
      (sv\<lparr>sv_fb := b\<rparr>))" for g l "is" b
    by (rule tells_trans [rotated]) (simp add: tells_def)
  then show ?thesis unfolding server_fbatch_end_def Let_def by simp
qed

lemma tells_fbatch_begin [tells_intros]: "tells sv (server_fbatch_begin W slot type a b sv)"
proof -
  have "tells s (s\<lparr>sv_fb_seq := n, sv_fb := x\<rparr>)" for s n x by (simp add: tells_def)
  then show ?thesis unfolding server_fbatch_begin_def Let_def by (rule tells_trans [OF tells_fbatch_end])
qed

lemma tells_fbatch_send: "i \<in> live sv \<Longrightarrow> tells sv (server_fbatch_send W i line sv)"
  by (auto simp: server_fbatch_send_def Let_def intro!: tells_trans [OF _ tells_send] tells_write)

lemma tells_whowas [tells_intros]: "tells sv (server_whowas_record n u h r sv)"
  by (simp add: server_whowas_record_def tells_def)

lemma tells_monitor_notify [tells_intros]: "tells sv (server_monitor_notify W i b sv)"
  unfolding server_monitor_notify_def Let_def
  by (auto intro!: tells_fold split: if_split intro: tells_intros)

lemma tells_watch_notify [tells_intros]: "tells sv (server_watch_notify W i b sv)"
  unfolding server_watch_notify_def Let_def
  by (auto intro!: tells_fold split: if_split intro: tells_intros)

lemma tells_monitor_extend [tells_intros]: "tells sv (server_monitor_extend W i line cap sv)"
proof -
  have "tells s (fold (\<lambda>j s. let w = sv_client s j
             in if j = i \<or> c_fd w < 0 \<or> c_quitting w then s
                else if \<not> has (c_caps w) CAP_EXTENDED_MONITOR \<or> (cap \<noteq> 0 \<and> \<not> has (c_caps w) cap) then s
                else if c_fanout_mark w = sv_fanout_gen s then s
                else srv_send j line s) js s)" for js s
    by (rule tells_fold) (auto simp: Let_def intro: tells_intros)
  then show ?thesis by (simp add: server_monitor_extend_def)
qed

lemma tells_fan_member: "i \<in> live sv \<Longrightarrow> tells sv (fan_member W gen cap line i sv)"
  unfolding fan_member_def Let_def
  by (auto intro!: tells_write intro: tells_trans [OF tells_write tells_fbatch_send])

lemma tells_common:
  assumes ok: "server_ok sv" and i: "i \<in> live sv"
  shows "tells sv (server_send_common_channels W i line cap sv)"
proof -
  let ?cs = "c_channels (sv_client sv i)"
  define sv1 where "sv1 = (if cap = 0 then fold (\<lambda>k s. server_history_event W k line s) ?cs sv else sv)"
  have t1: "tells sv sv1" by (auto simp: sv1_def intro!: tells_fold tells_intros)
  define gen where "gen = sv_fanout_gen sv1 + 1"
  define sv2 where "sv2 = sv_write i ((sv_client sv1 i)\<lparr>c_fanout_mark := gen\<rparr>) (sv1\<lparr>sv_fanout_gen := gen\<rparr>)"
  have g: "tells sv1 (sv1\<lparr>sv_fanout_gen := gen\<rparr>)" by (simp add: tells_def)
  have "tells (sv1\<lparr>sv_fanout_gen := gen\<rparr>) sv2"
    unfolding sv2_def using i tells_live [OF t1] by (intro tells_write) (simp_all add: live_def)
  then have t2: "tells sv sv2" using t1 g tells_trans by blast
  have inner: "tells s (fold (\<lambda>(j, _) s. fan_member W gen cap line j s) (ch_members (chan_of s k)) s)"
    if "k \<in> set ?cs" and ts: "tells sv s" for k s
  proof -
    from ok i that(1) obtain c where c: "map_of (sv_channels sv) k = Some c"
      unfolding server_ok_def channels_ok_def by blast
    then have m: "set (member_ids c) \<subseteq> live sv" using ok unfolding server_ok_def channels_ok_def by blast
    have cs: "chan_of s k = c" using ts c by (simp add: tells_def chan_of_def)
    show ?thesis unfolding cs
    proof (rule tells_fold, clarify)
      fix j mb s' assume "(j, mb) \<in> set (ch_members c)" and "tells s s'"
      then have "j \<in> live s'" using m ts tells_live by (force simp: member_ids_def)
      then show "tells s' (fan_member W gen cap line j s')" by (rule tells_fan_member)
    qed
  qed
  have "tells sv2 (fold (\<lambda>k s. fold (\<lambda>(j, _) s. fan_member W gen cap line j s) (ch_members (chan_of s k)) s) ?cs sv2)"
    by (rule tells_fold) (use inner t2 tells_trans in blast)
  then show ?thesis
    unfolding server_send_common_channels_def Let_def sv1_def [symmetric] gen_def [symmetric] sv2_def [symmetric]
    using t2 tells_trans by blast
qed

subsection \<open>Leaving the registries\<close>

lemma map_of_update: "map_of (AList.update k v m) = (map_of m)(k \<mapsto> v)"
  by (rule ext) (simp add: update_conv)

lemma map_of_delete: "map_of (AList.delete k m) = (map_of m)(k := None)"
  by (rule ext) (simp add: delete_conv')

lemma distinct_keys_update: "distinct (map fst m) \<Longrightarrow> distinct (map fst (AList.update k v m))"
  by (simp add: distinct_update)

lemma distinct_keys_delete: "distinct (map fst m) \<Longrightarrow> distinct (map fst (AList.delete k m))"
  by (simp add: distinct_delete)

lemmas alist_facts = map_of_update map_of_delete distinct_keys_update distinct_keys_delete

text \<open>What is left of a channel when a member leaves it.\<close>

definition left_by :: "client_id \<Rightarrow> channel \<Rightarrow> channel option" where
  "left_by i c = (let c1 = channel_remove_member c i
     in if channel_member_count c1 > 0 \<or> has (ch_modes c) CMODE_PERM then Some c1 else None)"

lemma leave_channel_eq:
  assumes "map_of (sv_channels sv) k = Some c" and "distinct (map fst (sv_channels sv))"
  shows "\<exists>X. leave_channel i k sv = sv\<lparr>sv_channels := X\<rparr> \<and> map_of X = (map_of (sv_channels sv))(k := left_by i c) \<and> distinct (map fst X)"
  using assms
  by (auto simp: leave_channel_def set_chan_def server_maybe_drop_channel_def chan_of_def Let_def alist_facts left_by_def
      channel_remove_member_def fun_upd_idem)

lemma leave_channels_eq:
  assumes "distinct ks" and "\<forall>k \<in> set ks. map_of (sv_channels sv) k \<noteq> None" and "distinct (map fst (sv_channels sv))"
  shows "\<exists>X. fold (leave_channel i) ks sv = sv\<lparr>sv_channels := X\<rparr> \<and> distinct (map fst X) \<and>
     (\<forall>k. map_of X k = (if k \<in> set ks then left_by i (the (map_of (sv_channels sv) k)) else map_of (sv_channels sv) k))"
  using assms
proof (induction ks arbitrary: sv)
  case Nil
  then show ?case by (intro exI [of _ "sv_channels sv"]) simp
next
  case (Cons k ks)
  then obtain c where c: "map_of (sv_channels sv) k = Some c" by auto
  from leave_channel_eq [OF this Cons.prems(3)] obtain X where X:
    "leave_channel i k sv = sv\<lparr>sv_channels := X\<rparr>" "map_of X = (map_of (sv_channels sv))(k := left_by i c)" "distinct (map fst X)"
    by blast
  have "\<forall>k' \<in> set ks. map_of (sv_channels (sv\<lparr>sv_channels := X\<rparr>)) k' \<noteq> None" using Cons.prems(1,2) X(2) by auto
  from Cons.IH [OF _ this] Cons.prems(1) X(3) obtain Y where
    Y: "fold (leave_channel i) ks (sv\<lparr>sv_channels := X\<rparr>) = sv\<lparr>sv_channels := Y\<rparr>" "distinct (map fst Y)"
      "\<forall>k'. map_of Y k' = (if k' \<in> set ks then left_by i (the (map_of X k')) else map_of X k')" by auto
  show ?case
    by (intro exI [of _ Y]) (use X Y Cons.prems(1) c in auto)
qed

lemma member_ids_remove: "member_ids (channel_remove_member c i) = removeAll i (member_ids c)"
  by (simp add: channel_remove_member_def member_ids_def delete_keys)

lemma left_by_members:
  "left_by i c = Some d \<Longrightarrow> member_ids d = removeAll i (member_ids c)"
  by (auto simp: left_by_def Let_def member_ids_remove split: if_splits)

lemma left_by_None: "left_by i c = None \<Longrightarrow> set (member_ids c) \<subseteq> {i}"
proof -
  assume "left_by i c = None"
  then have "member_ids (channel_remove_member c i) = []"
    by (auto simp: left_by_def Let_def channel_member_count_def member_ids_def split: if_splits)
  then show ?thesis unfolding member_ids_remove by (metis Diff_eq_empty_iff set_empty set_removeAll)
qed

lemma swap_remove_set: "distinct xs \<Longrightarrow> set (swap_remove x xs) = set xs - {x} \<and> distinct (swap_remove x xs)"
proof (cases "x \<in> set xs")
  case True
  assume d: "distinct xs"
  from True obtain a b where xs: "xs = a @ x # b" and a: "x \<notin> set a" by (meson split_list_first)
  have t: "takeWhile (\<lambda>y. y \<noteq> x) xs = a" unfolding xs using a by (subst takeWhile_append2) auto
  show ?thesis
  proof (cases "b = []")
    case True
    then have "swap_remove x xs = a" using t by (simp add: swap_remove_def xs butlast_append list_update_beyond)
    then show ?thesis using d True by (auto simp: xs)
  next
    case False
    then obtain b' z where b: "b = b' @ [z]" by (metis append_butlast_last_id)
    have e: "butlast xs = a @ x # b'" "last xs = z" by (simp_all add: xs b butlast_append)
    have "swap_remove x xs = a @ z # b'" using True t e by (simp add: swap_remove_def)
    then show ?thesis using d by (auto simp: xs b)
  qed
qed (simp add: swap_remove_def)

lemma watch_del_lookup:
  assumes "watch_ok lst alive idx"
  shows "map_of (server_watch_index_del i k idx) k' =
     (if k' = k then (case map_of idx k of None \<Rightarrow> None | Some w \<Rightarrow> if swap_remove i w = [] then None else Some (swap_remove i w))
      else map_of idx k')"
  by (auto simp: server_watch_index_del_def Let_def alist_facts split: option.split)

lemma watch_del_ok:
  assumes "watch_ok lst alive idx"
  shows "watch_ok lst alive (server_watch_index_del i k idx)"
  unfolding watch_ok_def
proof (intro conjI allI impI)
  show "distinct (map fst (server_watch_index_del i k idx))"
    using assms by (auto simp: watch_ok_def server_watch_index_del_def Let_def alist_facts split: option.split)
  fix k' w assume m: "map_of (server_watch_index_del i k idx) k' = Some w"
  then obtain v where v: "map_of idx k' = Some v" "w = v \<or> (w = swap_remove i v \<and> w \<noteq> [])"
    by (auto simp: watch_del_lookup [OF assms] split: if_splits option.splits)
  have "v \<noteq> []" "distinct v" "set v \<subseteq> alive" "\<forall>i \<in> set v. k' \<in> set (lst i)" using assms v(1) by (auto simp: watch_ok_def)
  with v(2) swap_remove_set [of v i] show "w \<noteq> []" "distinct w" "set w \<subseteq> alive" "\<forall>i \<in> set w. k' \<in> set (lst i)"
    by auto
qed

lemma watch_del_gone:
  assumes "watch_ok lst alive idx" and "map_of (server_watch_index_del i k idx) k' = Some w" and "i \<in> set w"
  shows "k' \<noteq> k \<and> map_of idx k' = Some w"
proof -
  have "distinct v" if "map_of idx k = Some v" for v using assms(1) that by (auto simp: watch_ok_def)
  then show ?thesis
    using assms(2,3) swap_remove_set [of _ i] by (auto simp: watch_del_lookup [OF assms(1)] split: if_splits option.splits)
qed

lemma watch_drop_ok:
  assumes "watch_ok lst alive idx" and "\<forall>k w. map_of idx k = Some w \<longrightarrow> i \<in> set w \<longrightarrow> k \<in> set ks"
  shows "watch_ok lst (alive - {i}) (fold (server_watch_index_del i) ks idx)"
proof -
  have "watch_ok lst alive (fold (server_watch_index_del i) ks idx) \<and>
      (\<forall>k w. map_of (fold (server_watch_index_del i) ks idx) k = Some w \<longrightarrow> i \<notin> set w)"
    using assms
  proof (induction ks arbitrary: idx)
    case (Cons k ks)
    have "\<forall>k' w. map_of (server_watch_index_del i k idx) k' = Some w \<longrightarrow> i \<in> set w \<longrightarrow> k' \<in> set ks"
      using watch_del_gone [OF Cons.prems(1)] Cons.prems(2) by fastforce
    with Cons.IH [OF watch_del_ok [OF Cons.prems(1)]] show ?case by simp
  qed simp
  then show ?thesis unfolding watch_ok_def by blast
qed

subsection \<open>Removing a client\<close>

text \<open>The linked servers without the number of their users.\<close>

definition tree_of :: "server \<Rightarrow> (nat \<times> netserver) list" where
  "tree_of sv = map (\<lambda>(s, ns). (s, ns\<lparr>ns_n_users := 0\<rparr>)) (sv_servers sv)"

lemma tree_count:
  assumes "map_of S n = Some ns"
  shows "map (\<lambda>(s, x). (s, x\<lparr>ns_n_users := 0\<rparr>)) (AList.update n (ns\<lparr>ns_n_users := d\<rparr>) S) = map (\<lambda>(s, x). (s, x\<lparr>ns_n_users := 0\<rparr>)) S"
  using assms by (induction S) (auto split: if_splits)

definition no_uid :: "client_id \<Rightarrow> server \<Rightarrow> bool" where
  "no_uid i sv \<longleftrightarrow> (\<forall>u. map_of (sv_by_uid sv) u \<noteq> Some i)"

definition unwatching :: "client_id \<Rightarrow> watch_idx \<Rightarrow> bool" where
  "unwatching i idx \<longleftrightarrow> (\<forall>k w. map_of idx k = Some w \<longrightarrow> i \<notin> set w)"

text \<open>The last part of the removal: out of the channels, the nicks, the connections and memory.\<close>

definition finish_removal :: "client_id \<Rightarrow> server \<Rightarrow> server" where
  "finish_removal i sv6 =
     (let cl = sv_client sv6 i;
          sv7 = fold (leave_channel i) (c_channels cl) sv6;
          sv8 = sv_write i ((sv_client sv7 i)\<lparr>c_channels := []\<rparr>) sv7;
          sv9 = (if c_casefold_nick cl \<noteq> [] \<and> map_of (sv_users sv8) (c_casefold_nick cl) = Some i
                 then sv8\<lparr>sv_users := AList.delete (c_casefold_nick cl) (sv_users sv8)\<rparr> else sv8);
          sv10 = server_watch_index_drop i (unlink_connection i sv9)
      in sv10\<lparr>sv_q := (sv_q sv10)\<lparr>ev_clients := AList.delete i (ev_clients (sv_q sv10))\<rparr>\<rparr>)"

lemma live_iff: "i \<in> live sv \<longleftrightarrow> map_of (ev_clients (sv_q sv)) i \<noteq> None"
  by (simp add: live_def map_of_eq_None_iff)

lemma ip_count_dec_lookup:
  "map_of (ip_count_dec k m) k' =
     (if k' = k then (case map_of m k of None \<Rightarrow> None | Some n \<Rightarrow> if n \<le> 1 then None else Some (n - 1)) else map_of m k')"
  by (auto simp: ip_count_dec_def alist_facts split: option.split)

lemma ip_count_dec_distinct: "distinct (map fst m) \<Longrightarrow> distinct (map fst (ip_count_dec k m))"
  by (auto simp: ip_count_dec_def alist_facts split: option.split)

lemma filter_remove1_length:
  "distinct xs \<Longrightarrow> x \<in> set xs \<Longrightarrow> length (filter P (remove1 x xs)) = length (filter P xs) - (if P x then 1 else 0)"
proof -
  assume d: "distinct xs" and x: "x \<in> set xs"
  have "filter P (remove1 x xs) = (if P x then remove1 x (filter P xs) else filter P xs)"
    by (induction xs) auto
  then show ?thesis using x by (simp add: length_remove1)
qed

text \<open>The outcome, field by field.\<close>

lemma finish_removal_fields:
  assumes ok: "server_ok sv" and i: "i \<in> live sv"
  defines "r \<equiv> finish_removal i sv" and "cs \<equiv> c_channels (sv_client sv i)" and "c \<equiv> sv_client sv i"
  shows "live r = live sv - {i}" and "j \<noteq> i \<Longrightarrow> sv_client r j = sv_client sv j"
    and "distinct (map fst (ev_clients (sv_q r)))" and "ev_dirty (sv_q r) = ev_dirty (sv_q sv)" and "ev_dead (sv_q r) = ev_dead (sv_q sv)"
    and "distinct (map fst (sv_channels r))"
    and "map_of (sv_channels r) k = (if k \<in> set cs then left_by i (the (map_of (sv_channels sv) k)) else map_of (sv_channels sv) k)"
    and "sv_users r = (if c_casefold_nick c \<noteq> [] \<and> map_of (sv_users sv) (c_casefold_nick c) = Some i
           then AList.delete (c_casefold_nick c) (sv_users sv) else sv_users sv)"
    and "sv_by_uid r = sv_by_uid sv"
    and "sv_all r = (if c_fd c < 0 then sv_all sv else remove1 i (sv_all sv))"
    and "sv_n_clients r = (if c_fd c < 0 then sv_n_clients sv else sv_n_clients sv - 1)"
    and "sv_ip_counts r = (if c_fd c < 0 then sv_ip_counts sv else ip_count_dec (c_count_key c) (sv_ip_counts sv))"
    and "sv_by_conn r = (if c_fd c < 0 then sv_by_conn sv else filter (\<lambda>e. snd e \<noteq> i) (sv_by_conn sv))"
    and "sv_mon_idx r = fold (server_watch_index_del i) (c_monitor c) (sv_mon_idx sv)"
    and "sv_watch_idx r = fold (server_watch_index_del i) (c_watch c) (sv_watch_idx sv)"
    and "sv_servers r = sv_servers sv"
proof -
  have ch: "distinct cs" "\<forall>k \<in> set cs. map_of (sv_channels sv) k \<noteq> None" "distinct (map fst (sv_channels sv))"
    using ok i unfolding server_ok_def channels_ok_def cs_def by auto
  obtain X where X: "fold (leave_channel i) cs sv = sv\<lparr>sv_channels := X\<rparr>" "distinct (map fst X)"
    "\<forall>k. map_of X k = (if k \<in> set cs then left_by i (the (map_of (sv_channels sv) k)) else map_of (sv_channels sv) k)"
    using leave_channels_eq [OF ch] by blast
  have dq: "distinct (map fst (ev_clients (sv_q sv)))" using ok by (simp add: server_ok_def queues_ok_def)
  note d = r_def finish_removal_def Let_def cs_def [symmetric] X(1) server_watch_index_drop_def unlink_connection_def
  have q: "ev_clients (sv_q r) = AList.delete i (AList.update i (c\<lparr>c_channels := []\<rparr>) (ev_clients (sv_q sv)))"
    by (simp add: d sv_write_def ev_write_def c_def)
  show "live r = live sv - {i}" using i unfolding live_def q by (auto simp: delete_keys update_keys)
  show "distinct (map fst (ev_clients (sv_q r)))" unfolding q using dq by (simp add: alist_facts)
  show "j \<noteq> i \<Longrightarrow> sv_client r j = sv_client sv j" unfolding ev_client_def q by (simp add: alist_facts)
  show "distinct (map fst (sv_channels r))" "map_of (sv_channels r) k = (if k \<in> set cs then left_by i (the (map_of (sv_channels sv) k)) else map_of (sv_channels sv) k)"
    using X(2,3) by (simp_all add: d)
  show "ev_dirty (sv_q r) = ev_dirty (sv_q sv)" "ev_dead (sv_q r) = ev_dead (sv_q sv)" "sv_by_uid r = sv_by_uid sv"
    "sv_users r = (if c_casefold_nick c \<noteq> [] \<and> map_of (sv_users sv) (c_casefold_nick c) = Some i
           then AList.delete (c_casefold_nick c) (sv_users sv) else sv_users sv)"
    "sv_all r = (if c_fd c < 0 then sv_all sv else remove1 i (sv_all sv))"
    "sv_n_clients r = (if c_fd c < 0 then sv_n_clients sv else sv_n_clients sv - 1)"
    "sv_ip_counts r = (if c_fd c < 0 then sv_ip_counts sv else ip_count_dec (c_count_key c) (sv_ip_counts sv))"
    "sv_by_conn r = (if c_fd c < 0 then sv_by_conn sv else filter (\<lambda>e. snd e \<noteq> i) (sv_by_conn sv))"
    "sv_mon_idx r = fold (server_watch_index_del i) (c_monitor c) (sv_mon_idx sv)"
    "sv_watch_idx r = fold (server_watch_index_del i) (c_watch c) (sv_watch_idx sv)" "sv_servers r = sv_servers sv"
    by (simp_all add: d c_def)
qed

lemma finish_removal_ok:
  assumes ok: "server_ok sv" and i: "i \<in> live sv" and u: "no_uid i sv"
    and w: "unwatching i (sv_mon_idx sv)" "unwatching i (sv_watch_idx sv)"
    and q: "i \<notin> set (ev_dirty (sv_q sv))" "i \<notin> set (ev_dead (sv_q sv))"
  shows "server_ok (finish_removal i sv)"
proof -
  define r where "r = finish_removal i sv"
  define c where "c = sv_client sv i"
  note f = finish_removal_fields [OF ok i, folded r_def c_def]
  note oks = ok [unfolded server_ok_def]
  have qn: "sv_client r j = sv_client sv j" if "j \<in> set (ev_dirty (sv_q sv)) \<union> set (ev_dead (sv_q sv))" for j
    by (rule f(2)) (use q that in auto)
  have Q: "queues_ok r"
    using oks q f(2) qn unfolding queues_ok_def f(1,4,5) by (auto simp: f(3))
  have U: "users_ok r"
  proof -
    have own: "k \<noteq> [] \<and> c_casefold_nick c = k" if "map_of (sv_users sv) k = Some i" for k
      using oks that unfolding users_ok_def c_def by blast
    have ui: "map_of (sv_users r) k \<noteq> Some i" for k
      using own [of k] unfolding f(8) by (auto simp: alist_facts)
    have us: "map_of (sv_users r) k = Some j \<Longrightarrow> map_of (sv_users sv) k = Some j" for k j
      unfolding f(8) by (auto simp: alist_facts split: if_splits)
    have "distinct (map fst (sv_users r))" using oks unfolding users_ok_def f(8) by (simp add: alist_facts)
    moreover have "j \<in> live r \<and> k \<noteq> [] \<and> c_casefold_nick (sv_client r j) = k" if "map_of (sv_users r) k = Some j" for k j
    proof -
      have "j \<noteq> i" using ui that by auto
      then show ?thesis using oks us [OF that] f(2) unfolding users_ok_def f(1) by auto
    qed
    moreover have "j \<in> live r \<and> v \<noteq> [] \<and> c_uid (sv_client r j) = v" if "map_of (sv_by_uid r) v = Some j" for v j
    proof -
      have "j \<noteq> i" using u that by (auto simp: no_uid_def f(9))
      then show ?thesis using oks that f(2) unfolding users_ok_def f(1,9) by auto
    qed
    ultimately show ?thesis using oks unfolding users_ok_def f(9) by blast
  qed
  have C: "channels_ok r"
  proof -
    have chans: "k \<in> set (c_channels c) \<longleftrightarrow> (\<exists>d. map_of (sv_channels sv) k = Some d \<and> i \<in> set (member_ids d))" for k
      using oks i unfolding channels_ok_def c_def by blast
    have mem: "distinct (member_ids d) \<and> set (member_ids d) \<subseteq> live r"
      if "map_of (sv_channels r) k = Some d" for k d
    proof (cases "k \<in> set (c_channels c)")
      case True
      then obtain e where e: "map_of (sv_channels sv) k = Some e" using chans by auto
      then have "member_ids d = removeAll i (member_ids e)" using that True f(7) [of k] left_by_members by auto
      moreover have "distinct (member_ids e)" "set (member_ids e) \<subseteq> live sv"
        using oks e unfolding channels_ok_def by blast+
      ultimately show ?thesis by (auto simp: f(1) distinct_removeAll)
    next
      case False
      then have e: "map_of (sv_channels sv) k = Some d" using that f(7) [of k] by simp
      then have "i \<notin> set (member_ids d)" using False chans by auto
      then show ?thesis using oks e unfolding channels_ok_def f(1) by blast
    qed
    have both: "k \<in> set (c_channels (sv_client r j)) \<longleftrightarrow> (\<exists>d. map_of (sv_channels r) k = Some d \<and> j \<in> set (member_ids d))"
      if "j \<in> live r" for j k
    proof -
      have j: "j \<noteq> i" "j \<in> live sv" using that by (auto simp: f(1))
      have eq: "k \<in> set (c_channels (sv_client r j)) \<longleftrightarrow> (\<exists>d. map_of (sv_channels sv) k = Some d \<and> j \<in> set (member_ids d))"
        using oks j f(2) unfolding channels_ok_def by simp
      show ?thesis
      proof (cases "k \<in> set (c_channels c)")
        case True
        then obtain e where e: "map_of (sv_channels sv) k = Some e" using chans by auto
        have "map_of (sv_channels r) k = left_by i e" using True f(7) [of k] e by simp
        then show ?thesis
          unfolding eq using e j left_by_members [of i e] left_by_None [of i e] by (cases "left_by i e") auto
      next
        case False
        then show ?thesis unfolding eq using f(7) [of k] by simp
      qed
    qed
    show ?thesis unfolding channels_ok_def
      using f(6) mem both oks f(2) unfolding channels_ok_def f(1) by auto
  qed
  have N: "conns_ok r"
  proof (cases "c_fd c < 0")
    case True
    then have ni: "i \<notin> set (sv_all sv)" using oks unfolding conns_ok_def c_def by auto
    have cl: "sv_client r j = sv_client sv j" if "j \<in> set (sv_all sv)" for j using f(2) that ni by metis
    have "count_of r k = count_of sv k" for k
      unfolding count_of_def f(10) using True cl by (auto intro!: arg_cong [where f = length] filter_cong)
    then show ?thesis
      using oks True ni cl f(2) unfolding conns_ok_def f(1,10-13) by (auto simp: f(1))
  next
    case False
    have ia: "i \<in> set (sv_all sv)" using oks i False unfolding conns_ok_def c_def by auto
    have da: "distinct (sv_all sv)" using oks by (simp add: conns_ok_def)
    have all: "sv_all r = remove1 i (sv_all sv)" using False f(10) by simp
    have cl: "sv_client r j = sv_client sv j" if "j \<in> set (sv_all r)" for j using f(2) that all da by auto
    have cnt: "count_of r k = count_of sv k - (if c_count_key c = k then 1 else 0)" for k
    proof -
      have "count_of r k = length (filter (\<lambda>j. c_count_key (sv_client sv j) = k) (sv_all r))"
        unfolding count_of_def using cl by (auto intro!: arg_cong [where f = length] filter_cong)
      then show ?thesis unfolding all count_of_def c_def using filter_remove1_length [OF da ia] by simp
    qed
    have pos: "0 < count_of sv (c_count_key c)"
      unfolding count_of_def c_def using ia by (auto simp flip: length_greater_0_conv simp: filter_empty_conv)
    have ip: "map_of (sv_ip_counts r) k = (if count_of r k = 0 then None else Some (int (count_of r k)))" for k
      using oks False pos unfolding conns_ok_def f(12) cnt by (auto simp: ip_count_dec_lookup)
    have "distinct (map fst (sv_ip_counts r))"
      using oks unfolding conns_ok_def f(12) by (simp add: ip_count_dec_distinct)
    moreover have "snd ` set (sv_by_conn r) \<subseteq> set (sv_all r)"
      using oks False da unfolding conns_ok_def f(13) all by auto
    moreover have "set (sv_all r) \<subseteq> live r" using oks da unfolding conns_ok_def f(1) all by auto
    moreover have "Suc 0 \<le> length (sv_all sv)" using ia by (cases "sv_all sv") auto
    then have "sv_n_clients r = int (length (sv_all r))"
      using oks False ia unfolding conns_ok_def f(11) all by (simp add: length_remove1 of_nat_diff)
    moreover have "c_fd (sv_client r j) \<ge> 0" if "j \<in> set (sv_all r)" for j
    proof -
      have "j \<in> set (sv_all sv)" using that da by (simp add: all)
      then have "c_fd (sv_client sv j) \<ge> 0" using oks unfolding conns_ok_def by blast
      then show ?thesis unfolding cl [OF that] .
    qed
    moreover have "j \<in> set (sv_all r)" if "j \<in> live r" "c_fd (sv_client r j) \<ge> 0" for j
    proof -
      have "j \<noteq> i" "j \<in> live sv" using that(1) by (auto simp: f(1))
      moreover have "c_fd (sv_client sv j) \<ge> 0" using f(2) [OF \<open>j \<noteq> i\<close>] that(2) by simp
      ultimately have "j \<in> set (sv_all sv)" using oks unfolding conns_ok_def by blast
      then show ?thesis using \<open>j \<noteq> i\<close> da by (simp add: all)
    qed
    moreover have "distinct (sv_all r)" using da by (simp add: all)
    ultimately show ?thesis unfolding conns_ok_def using ip by blast
  qed
  have W: "watch_ok (\<lambda>j. lst (sv_client r j)) (live r) (fold (server_watch_index_del i) ks idx)"
    if "watch_ok (\<lambda>j. lst (sv_client sv j)) (live sv) idx" "unwatching i idx" for lst ks idx
  proof -
    have "watch_ok (\<lambda>j. lst (sv_client sv j)) (live sv - {i}) (fold (server_watch_index_del i) ks idx)"
      using that by (intro watch_drop_ok) (auto simp: unwatching_def)
    moreover have "k \<in> set (lst (sv_client r j))" if "k \<in> set (lst (sv_client sv j))" "j \<in> set w" "set w \<subseteq> live sv - {i}" for j k w
    proof -
      have "j \<noteq> i" using that(2,3) by blast
      then show ?thesis using that(1) f(2) [of j] by simp
    qed
    ultimately show ?thesis unfolding watch_ok_def f(1) by blast
  qed
  show ?thesis
    using Q U C N W [where lst = c_monitor, of "sv_mon_idx sv"] W [where lst = c_watch, of "sv_watch_idx sv"] oks w
    unfolding server_ok_def r_def [symmetric] f(14,15) by auto
qed

text \<open>The first part: out of the UID and watch indexes, with the farewells.\<close>

lemma drop_uid_fields [simp]:
  "sv_q (drop_uid i sv) = sv_q sv" "sv_users (drop_uid i sv) = sv_users sv" "sv_channels (drop_uid i sv) = sv_channels sv"
  "sv_all (drop_uid i sv) = sv_all sv" "sv_n_clients (drop_uid i sv) = sv_n_clients sv" "sv_by_conn (drop_uid i sv) = sv_by_conn sv"
  "sv_ip_counts (drop_uid i sv) = sv_ip_counts sv" "sv_mon_idx (drop_uid i sv) = sv_mon_idx sv"
  "sv_watch_idx (drop_uid i sv) = sv_watch_idx sv"
  by (simp_all add: drop_uid_def Let_def split: option.split)

lemma drop_uid_by_uid:
  "sv_by_uid (drop_uid i sv) =
     (if c_uid (sv_client sv i) \<noteq> [] \<and> map_of (sv_by_uid sv) (c_uid (sv_client sv i)) = Some i
      then AList.delete (c_uid (sv_client sv i)) (sv_by_uid sv) else sv_by_uid sv)"
  by (simp add: drop_uid_def Let_def split: option.split)

lemma tree_of_drop_uid [simp]: "tree_of (drop_uid i sv) = tree_of sv"
  by (simp add: drop_uid_def Let_def tree_of_def tree_count split: option.split)

lemma live_drop_uid [simp]: "live (drop_uid i sv) = live sv"
  by (simp add: live_def)

lemma drop_uid_ok:
  assumes ok: "server_ok sv"
  shows "server_ok (drop_uid i sv)" and "no_uid i (drop_uid i sv)"
proof -
  have U: "users_ok sv" using ok by (simp add: server_ok_def)
  have own: "c_uid (sv_client sv i) = v \<and> v \<noteq> []" if "map_of (sv_by_uid sv) v = Some i" for v i
    using U that unfolding users_ok_def by blast
  have B1: "map_of (sv_by_uid sv) v = Some j \<and> j \<noteq> i" if "map_of (sv_by_uid (drop_uid i sv)) v = Some j" for v j
    using that own [of v j] unfolding drop_uid_by_uid by (auto simp: alist_facts split: if_splits)
  show "no_uid i (drop_uid i sv)" unfolding no_uid_def using B1 by blast
  have "distinct (map fst (sv_by_uid (drop_uid i sv)))" using U unfolding users_ok_def drop_uid_by_uid by (simp add: alist_facts)
  then have "users_ok (drop_uid i sv)"
    using U B1 unfolding users_ok_def live_drop_uid drop_uid_fields by blast
  then show "server_ok (drop_uid i sv)"
    using ok by (simp add: server_ok_def queues_ok_def channels_ok_def conns_ok_def count_of_def)
qed

lemma watch_ok_mono: "watch_ok lst a idx \<Longrightarrow> a \<subseteq> b \<Longrightarrow> watch_ok lst b idx"
  unfolding watch_ok_def by blast

lemma index_drop_ok:
  assumes ok: "server_ok sv" and i: "i \<in> live sv"
  shows "server_ok (server_watch_index_drop i sv)"
    and "unwatching i (sv_mon_idx (server_watch_index_drop i sv))" and "unwatching i (sv_watch_idx (server_watch_index_drop i sv))"
proof -
  define sv' where "sv' = server_watch_index_drop i sv"
  have l: "live sv' = live sv" by (simp add: sv'_def server_watch_index_drop_def Let_def live_def)
  have W: "watch_ok (\<lambda>j. lst (sv_client sv j)) (live sv - {i}) (fold (server_watch_index_del i) (lst (sv_client sv i)) idx)"
    if "watch_ok (\<lambda>j. lst (sv_client sv j)) (live sv) idx" for lst idx
    using that by (intro watch_drop_ok) (auto simp: watch_ok_def)
  have m: "watch_ok (\<lambda>j. c_monitor (sv_client sv j)) (live sv - {i}) (sv_mon_idx sv')"
    "watch_ok (\<lambda>j. c_watch (sv_client sv j)) (live sv - {i}) (sv_watch_idx sv')"
    using ok W [where lst = c_monitor] W [where lst = c_watch] by (simp_all add: sv'_def server_watch_index_drop_def Let_def server_ok_def)
  show "unwatching i (sv_mon_idx sv')" "unwatching i (sv_watch_idx sv')"
    using m unfolding unwatching_def watch_ok_def by blast+
  have q: "queues_ok sv'" "users_ok sv'" "channels_ok sv'" "conns_ok sv'"
    using ok l by (simp_all add: sv'_def server_watch_index_drop_def Let_def server_ok_def queues_ok_def users_ok_def
        channels_ok_def conns_ok_def count_of_def)
  have "sv_client sv' j = sv_client sv j" for j by (simp add: sv'_def server_watch_index_drop_def Let_def)
  then show "server_ok sv'"
    using q m [THEN watch_ok_mono, of "live sv"] unfolding server_ok_def l by auto
qed

lemma tells_release_class: "i \<in> live sv \<Longrightarrow> tells sv (net_release_class i sv)"
proof -
  assume i: "i \<in> live sv"
  have "tells sv (sv\<lparr>sv_class_count := x\<rparr>)" and "live (sv\<lparr>sv_class_count := x\<rparr>) = live sv" for x
    by (simp_all add: tells_def live_def)
  then show ?thesis using i
    unfolding net_release_class_def Let_def by (auto intro!: tells_write elim: tells_trans intro: tells_trans [OF _ tells_write])
qed

lemma tells_exit: "tells sv (announce_exit W i reason sv)"
  unfolding announce_exit_def Let_def
  by (auto intro: tells_trans [OF tells_trans [OF tells_trans [OF tells_whowas tells_monitor_notify] tells_watch_notify] tells_notify])

lemma remove_client_split:
  assumes ok: "server_ok sv" and i: "i \<in> live sv"
  shows "\<exists>sv6. server_remove_client W i reason sv = finish_removal i sv6 \<and> server_ok sv6 \<and> live sv6 = live sv \<and>
     no_uid i sv6 \<and> unwatching i (sv_mon_idx sv6) \<and> unwatching i (sv_watch_idx sv6) \<and>
     ev_dirty (sv_q sv6) = ev_dirty (sv_q sv) \<and> ev_dead (sv_q sv6) = ev_dead (sv_q sv) \<and>
     (\<forall>j. core (sv_client sv6 j) = core (sv_client sv j)) \<and> sv_users sv6 = sv_users sv \<and> tree_of sv6 = tree_of sv \<and>
     sv_by_uid sv6 = sv_by_uid (drop_uid i sv)"
proof -
  define cl where "cl = sv_client sv i"
  define r where "r = (case reason of Some r \<Rightarrow> r | None \<Rightarrow> [])"
  define line where "line = reply_line 512 (Some (client_prefix cl 320)) ''QUIT'' [] (Some r)"
  define sv1 where "sv1 = (if c_conn_id cl \<noteq> 0 then emit (Worker_Cancel (c_conn_id cl)) sv else sv)"
  define sv2 where "sv2 = emit (Svc_User i SVC_EV_QUIT) (if c_uid cl \<noteq> [] \<and> \<not> c_remote cl then emit (Net_User_Quit i r) sv1 else sv1)"
  define sv3 where "sv3 = drop_uid i sv2"
  define sv4 where "sv4 = (if c_is_watcher cl
     then sv_write i (cl\<lparr>c_is_watcher := False\<rparr>) (sv3\<lparr>sv_n_watchers := sv_n_watchers sv3 - 1\<rparr>) else sv3)"
  define sv5 where "sv5 = server_watch_index_drop i sv4"
  define sv6 where "sv6 = server_send_common_channels W i line 0 (announce_exit W i r (net_release_class i sv5))"
  have t12: "tells sv sv2" by (simp add: sv1_def sv2_def tells_def emit_def)
  have o2: "server_ok sv2" "i \<in> live sv2" using tells_ok [OF t12 ok] tells_live [OF t12] i by simp_all
  note d3 = drop_uid_ok [OF o2(1), of i, folded sv3_def]
  have l3: "live sv3 = live sv2" by (simp add: sv3_def)
  have q23: "sv_client sv3 j = sv_client sv j" for j
    by (simp add: sv3_def sv2_def sv1_def emit_def)
  have t34: "tells sv3 sv4"
  proof -
    have "tells sv3 (sv3\<lparr>sv_n_watchers := x\<rparr>)" "live (sv3\<lparr>sv_n_watchers := x\<rparr>) = live sv3" for x by (simp_all add: tells_def live_def)
    then show ?thesis using o2(2) l3 q23 unfolding sv4_def cl_def
      by (auto intro!: tells_trans [OF _ tells_write])
  qed
  have o4: "server_ok sv4" "i \<in> live sv4" using tells_ok [OF t34 d3(1)] tells_live [OF t34] o2(2) l3 by simp_all
  note d5 = index_drop_ok [OF o4, folded sv5_def]
  have l5: "live sv5 = live sv4" by (simp add: sv5_def server_watch_index_drop_def Let_def live_def)
  have t5: "tells sv5 (announce_exit W i r (net_release_class i sv5))"
    using tells_trans [OF tells_release_class tells_exit] o4(2) l5 by simp
  have t56: "tells sv5 sv6"
    unfolding sv6_def
    by (rule tells_trans [OF t5 tells_common]) (use tells_ok [OF t5 d5(1)] tells_live [OF t5] o4(2) l5 in simp_all)
  have n6: "no_uid i sv6"
    using d3(2) t34 t56 by (simp add: no_uid_def tells_def sv5_def server_watch_index_drop_def Let_def)
  have l6: "live sv6 = live sv" using tells_live [OF t56] l5 tells_live [OF t34] l3 tells_live [OF t12] by simp
  have q6: "ev_dirty (sv_q sv6) = ev_dirty (sv_q sv)" "ev_dead (sv_q sv6) = ev_dead (sv_q sv)"
    using t12 t34 t56 by (simp_all add: tells_def sv3_def sv5_def server_watch_index_drop_def Let_def)
  have w6: "unwatching i (sv_mon_idx sv6)" "unwatching i (sv_watch_idx sv6)" using d5(2,3) t56 by (simp_all add: tells_def)
  have ch: "c_channels (sv_client sv6 i) = c_channels cl" "c_casefold_nick (sv_client sv6 i) = c_casefold_nick cl"
    using tells_client [OF t56, of i] tells_client [OF t34, of i] q23 [of i]
    by (simp_all add: sv5_def server_watch_index_drop_def Let_def cl_def)
  have "server_remove_client W i reason sv = finish_removal i sv6"
    unfolding server_remove_client_def finish_removal_def Let_def ch cl_def [symmetric] r_def [symmetric] line_def [symmetric]
      sv1_def [symmetric] sv2_def [symmetric] sv3_def [symmetric] sv4_def [symmetric] sv5_def [symmetric] sv6_def [symmetric]
    by (rule refl)
  moreover have "core (sv_client sv6 j) = core (sv_client sv j)" for j
    using t34 t56 q23 [of j] by (simp add: tells_def sv5_def server_watch_index_drop_def Let_def)
  moreover have "sv_users sv6 = sv_users sv"
    using t12 t34 t56 by (simp add: tells_def sv3_def sv5_def server_watch_index_drop_def Let_def)
  moreover have "tree_of sv6 = tree_of sv"
  proof -
    have "sv_servers sv6 = sv_servers sv3" "sv_servers sv2 = sv_servers sv"
      using t12 t34 t56 by (simp_all add: tells_def sv5_def server_watch_index_drop_def Let_def)
    then have "tree_of sv6 = tree_of sv3" "tree_of sv2 = tree_of sv" by (simp_all add: tree_of_def)
    then show ?thesis by (simp add: sv3_def)
  qed
  moreover have "sv_by_uid sv6 = sv_by_uid (drop_uid i sv)"
    using t12 t34 t56 by (simp add: tells_def sv5_def server_watch_index_drop_def Let_def sv3_def drop_uid_by_uid)
       (simp add: sv2_def sv1_def emit_def)
  ultimately show ?thesis using tells_ok [OF t56 d5(1)] n6 l6 q6 w6 by blast
qed

lemma server_remove_client_ok:
  assumes ok: "server_ok sv" and i: "i \<in> live sv" and q: "i \<notin> set (ev_dirty (sv_q sv))" "i \<notin> set (ev_dead (sv_q sv))"
  shows "server_ok (server_remove_client W i reason sv)" and "live (server_remove_client W i reason sv) = live sv - {i}"
proof -
  obtain sv6 where s: "server_remove_client W i reason sv = finish_removal i sv6" "server_ok sv6" "live sv6 = live sv"
    "no_uid i sv6" "unwatching i (sv_mon_idx sv6)" "unwatching i (sv_watch_idx sv6)"
    "ev_dirty (sv_q sv6) = ev_dirty (sv_q sv)" "ev_dead (sv_q sv6) = ev_dead (sv_q sv)"
    using remove_client_split [OF ok i] by blast
  show "server_ok (server_remove_client W i reason sv)" unfolding s(1) using s i q by (intro finish_removal_ok) simp_all
  show "live (server_remove_client W i reason sv) = live sv - {i}"
    unfolding s(1) using finish_removal_fields(1) [OF s(2)] s(3) i by simp
qed

subsection \<open>The other operations\<close>

text \<open>What the registries other than the queues depend on.\<close>

definition keyed :: "client \<Rightarrow> string \<times> string \<times> string list \<times> int \<times> string \<times> string list \<times> string list" where
  "keyed c = (c_casefold_nick c, c_uid c, c_channels c, c_fd c, c_count_key c, c_monitor c, c_watch c)"

lemma keyed_fields:
  assumes "keyed c' = keyed c"
  shows "c_casefold_nick c' = c_casefold_nick c" "c_uid c' = c_uid c" "c_channels c' = c_channels c" "c_fd c' = c_fd c"
    "c_count_key c' = c_count_key c" "c_monitor c' = c_monitor c" "c_watch c' = c_watch c"
  using assms by (simp_all add: keyed_def)

lemma queue_step_ok:
  assumes ok: "server_ok sv" and q: "queues_ok (sv\<lparr>sv_q := q\<rparr>)" and l: "live (sv\<lparr>sv_q := q\<rparr>) = live sv"
    and k: "\<And>i. keyed (ev_client q i) = keyed (sv_client sv i)"
  shows "server_ok (sv\<lparr>sv_q := q\<rparr>)"
proof -
  note f = keyed_fields [OF k]
  show ?thesis using ok q l f
    by (simp add: server_ok_def users_ok_def channels_ok_def conns_ok_def count_of_def)
qed

lemma keyed_flags [simp]:
  "keyed (c\<lparr>c_dirty_q := b\<rparr>) = keyed c" "keyed (c\<lparr>c_quitting := b\<rparr>) = keyed c" "keyed (c\<lparr>c_dead_q := b\<rparr>) = keyed c"
  by (simp_all add: keyed_def)

lemma live_q_write: "i \<in> live sv \<Longrightarrow> set (map fst (ev_clients (ev_write (sv_q sv) i cl))) = live sv"
  by (auto simp: live_def ev_write_def update_keys)

lemma mark_dirty_ok:
  assumes ok: "server_ok sv" and i: "i \<in> live sv"
  shows "server_ok (sv\<lparr>sv_q := client_mark_dirty i (sv_q sv)\<rparr>)" and "live (sv\<lparr>sv_q := client_mark_dirty i (sv_q sv)\<rparr>) = live sv"
proof -
  let ?q = "client_mark_dirty i (sv_q sv)"
  have qs: "queues_ok sv" using ok by (simp add: server_ok_def)
  show l: "live (sv\<lparr>sv_q := ?q\<rparr>) = live sv"
    using live_q_write [OF i] by (simp add: live_def client_mark_dirty_def Let_def)
  have "queues_ok (sv\<lparr>sv_q := ?q\<rparr>)"
  proof (cases "c_dirty_q (sv_client sv i) \<or> c_quitting (sv_client sv i) \<or> c_fd (sv_client sv i) < 0")
    case True
    then show ?thesis using qs by (simp add: client_mark_dirty_def Let_def)
  next
    case False
    then have "i \<notin> set (ev_dirty (sv_q sv))" using qs i by (auto simp: queues_ok_def)
    with False qs i show ?thesis unfolding queues_ok_def l
      by (auto simp: client_mark_dirty_def Let_def ev_write_def distinct_update ev_client_def update_conv split: if_splits)
  qed
  then show "server_ok (sv\<lparr>sv_q := ?q\<rparr>)"
    by (rule queue_step_ok [OF ok _ l]) (simp add: client_mark_dirty_def Let_def ev_client_def ev_write_def update_conv)
qed

lemma unmark_dirty_ok:
  assumes ok: "server_ok sv" and i: "i \<in> live sv"
  shows "server_ok (sv\<lparr>sv_q := client_unmark_dirty i (sv_q sv)\<rparr>)" and "live (sv\<lparr>sv_q := client_unmark_dirty i (sv_q sv)\<rparr>) = live sv"
    and "i \<notin> set (ev_dirty (client_unmark_dirty i (sv_q sv)))" and "ev_dead (client_unmark_dirty i (sv_q sv)) = ev_dead (sv_q sv)"
proof -
  let ?q = "client_unmark_dirty i (sv_q sv)"
  have qs: "queues_ok sv" using ok by (simp add: server_ok_def)
  show l: "live (sv\<lparr>sv_q := ?q\<rparr>) = live sv"
    using live_q_write [OF i] by (simp add: live_def client_unmark_dirty_def Let_def)
  have flag: "c_dirty_q (sv_client sv i) \<longleftrightarrow> i \<in> set (ev_dirty (sv_q sv))" using qs i by (simp add: queues_ok_def)
  show "i \<notin> set (ev_dirty ?q)" "ev_dead ?q = ev_dead (sv_q sv)"
    using flag qs by (auto simp: client_unmark_dirty_def Let_def ev_write_def queues_ok_def)
  have "queues_ok (sv\<lparr>sv_q := ?q\<rparr>)"
  proof (cases "c_dirty_q (sv_client sv i)")
    case False
    then show ?thesis using qs by (simp add: client_unmark_dirty_def Let_def)
  next
    case True
    with qs i show ?thesis unfolding queues_ok_def l
      by (auto simp: client_unmark_dirty_def Let_def ev_write_def distinct_update ev_client_def update_conv split: if_splits)
  qed
  then show "server_ok (sv\<lparr>sv_q := ?q\<rparr>)"
    by (rule queue_step_ok [OF ok _ l]) (simp add: client_unmark_dirty_def Let_def ev_client_def ev_write_def update_conv)
qed

lemma mark_quit_ok:
  assumes ok: "server_ok sv" and i: "i \<in> live sv"
  shows "server_ok (sv\<lparr>sv_q := client_mark_quit i (sv_q sv)\<rparr>)" and "live (sv\<lparr>sv_q := client_mark_quit i (sv_q sv)\<rparr>) = live sv"
proof -
  let ?q = "client_mark_quit i (sv_q sv)"
  have qs: "queues_ok sv" using ok by (simp add: server_ok_def)
  show l: "live (sv\<lparr>sv_q := ?q\<rparr>) = live sv"
    using live_q_write [OF i] by (simp add: live_def client_mark_quit_def Let_def)
  have "queues_ok (sv\<lparr>sv_q := ?q\<rparr>)"
  proof (cases "c_dead_q (sv_client sv i) \<or> c_fd (sv_client sv i) < 0")
    case True
    with qs i show ?thesis unfolding queues_ok_def l
      by (auto simp: client_mark_quit_def Let_def ev_write_def distinct_update ev_client_def update_conv split: if_splits)
  next
    case False
    with qs i have "i \<notin> set (ev_dead (sv_q sv))" by (auto simp: queues_ok_def)
    with False qs i show ?thesis unfolding queues_ok_def l
      by (auto simp: client_mark_quit_def Let_def ev_write_def distinct_update ev_client_def update_conv split: if_splits)
  qed
  then show "server_ok (sv\<lparr>sv_q := ?q\<rparr>)"
    by (rule queue_step_ok [OF ok _ l]) (simp add: client_mark_quit_def Let_def ev_client_def ev_write_def update_conv)
qed

lemma reap_one_ok:
  assumes ok: "server_ok sv" and d: "ev_dead (sv_q sv) = i # rest"
  shows "server_ok (reap_one W sv)" and "live (reap_one W sv) = live sv - {i}"
proof -
  define sva where "sva = sv\<lparr>sv_q := (sv_q sv)\<lparr>ev_dead := rest\<rparr>\<rparr>"
  have qs: "queues_ok sv" using ok by (simp add: server_ok_def)
  have i: "i \<in> live sv" and ir: "i \<notin> set rest" using qs d by (auto simp: queues_ok_def)
  have l: "live sva = live sv" by (simp add: sva_def live_def)
  have cla: "sv_client sva j = sv_client sv j" for j by (simp add: sva_def ev_client_def)
  have "queues_ok sva" using qs d unfolding queues_ok_def l cla by (auto simp: sva_def)
  then have oka: "server_ok sva" unfolding sva_def
    by (intro queue_step_ok [OF ok]) (simp_all add: live_def ev_client_def)
  define svb where "svb = sva\<lparr>sv_q := client_unmark_dirty i (sv_q sva)\<rparr>"
  note u = unmark_dirty_ok [OF oka, of i, unfolded l, OF i, folded svb_def]
  have b: "i \<in> live svb" "i \<notin> set (ev_dirty (sv_q svb))" "i \<notin> set (ev_dead (sv_q svb))"
    using u i ir by (simp_all add: svb_def sva_def)
  have e: "\<exists>r. reap_one W sv = server_remove_client W i r svb"
    by (auto simp: reap_one_def d Let_def svb_def sva_def)
  then show "server_ok (reap_one W sv)" "live (reap_one W sv) = live sv - {i}"
    using server_remove_client_ok [OF u(1) b] u(2) l by auto
qed

subsection \<open>Coming, joining, leaving\<close>

text \<open>A fresh client: it is in no channel and watches nobody.\<close>

definition fresh_client :: "client \<Rightarrow> bool" where
  "fresh_client cl \<longleftrightarrow> c_channels cl = [] \<and> \<not> c_dirty_q cl \<and> \<not> c_dead_q cl \<and> c_monitor cl = [] \<and> c_watch cl = []"

definition new_client :: "client_id \<Rightarrow> client \<Rightarrow> server \<Rightarrow> server" where
  "new_client i cl sv = sv\<lparr>sv_q := (sv_q sv)\<lparr>ev_clients := (i, cl) # ev_clients (sv_q sv)\<rparr>\<rparr>"

lemma new_client_fields [simp]:
  "live (new_client i cl sv) = insert i (live sv)"
  "sv_client (new_client i cl sv) j = (if j = i then cl else sv_client sv j)"
  "sv_users (new_client i cl sv) = sv_users sv" "sv_channels (new_client i cl sv) = sv_channels sv"
  "sv_all (new_client i cl sv) = sv_all sv" "sv_n_clients (new_client i cl sv) = sv_n_clients sv"
  "sv_by_conn (new_client i cl sv) = sv_by_conn sv" "sv_by_uid (new_client i cl sv) = sv_by_uid sv"
  "sv_ip_counts (new_client i cl sv) = sv_ip_counts sv" "sv_mon_idx (new_client i cl sv) = sv_mon_idx sv"
  "sv_watch_idx (new_client i cl sv) = sv_watch_idx sv"
  "ev_dirty (sv_q (new_client i cl sv)) = ev_dirty (sv_q sv)" "ev_dead (sv_q (new_client i cl sv)) = ev_dead (sv_q sv)"
  by (simp_all add: new_client_def live_def ev_client_def)

text \<open>A client that no registry names yet.\<close>

definition mostly_ok :: "client_id \<Rightarrow> server \<Rightarrow> bool" where
  "mostly_ok i sv \<longleftrightarrow> queues_ok sv \<and> users_ok sv \<and> channels_ok sv \<and>
     watch_ok (\<lambda>j. c_monitor (sv_client sv j)) (live sv) (sv_mon_idx sv) \<and>
     watch_ok (\<lambda>j. c_watch (sv_client sv j)) (live sv) (sv_watch_idx sv)"

lemma watch_ok_cong:
  assumes "watch_ok lst a idx" and "a \<subseteq> b" and "\<And>j. j \<in> a \<Longrightarrow> set (lst j) \<subseteq> set (lst' j)"
  shows "watch_ok lst' b idx"
  using assms unfolding watch_ok_def by blast

lemma new_client_mostly_ok:
  assumes ok: "server_ok sv" and i: "i \<notin> live sv" and f: "fresh_client cl"
  shows "mostly_ok i (new_client i cl sv)"
proof -
  note oks = ok [unfolded server_ok_def]
  have ne: "j \<in> live sv \<Longrightarrow> j \<noteq> i" for j using i by auto
  have Q: "queues_ok (new_client i cl sv)"
  proof -
    have "i \<notin> set (ev_dirty (sv_q sv))" "i \<notin> set (ev_dead (sv_q sv))" using oks i by (auto simp: queues_ok_def)
    moreover have "distinct (map fst (ev_clients (sv_q (new_client i cl sv))))"
      using oks i by (simp add: queues_ok_def new_client_def live_def)
    ultimately show ?thesis using oks f by (auto simp: queues_ok_def fresh_client_def)
  qed
  have U: "users_ok (new_client i cl sv)"
    unfolding users_ok_def new_client_fields
  proof (intro conjI allI impI)
    show "distinct (map fst (sv_users sv))" "distinct (map fst (sv_by_uid sv))" using oks by (simp_all add: users_ok_def)
    fix k j
    show "j \<in> insert i (live sv)" "k \<noteq> []" "c_casefold_nick (if j = i then cl else sv_client sv j) = k"
      if "map_of (sv_users sv) k = Some j"
    proof -
      have "j \<in> live sv \<and> k \<noteq> [] \<and> c_casefold_nick (sv_client sv j) = k" using oks that unfolding users_ok_def by blast
      then show "j \<in> insert i (live sv)" "k \<noteq> []" "c_casefold_nick (if j = i then cl else sv_client sv j) = k" using ne by auto
    qed
    show "j \<in> insert i (live sv)" "k \<noteq> []" "c_uid (if j = i then cl else sv_client sv j) = k"
      if "map_of (sv_by_uid sv) k = Some j"
    proof -
      have "j \<in> live sv \<and> k \<noteq> [] \<and> c_uid (sv_client sv j) = k" using oks that unfolding users_ok_def by blast
      then show "j \<in> insert i (live sv)" "k \<noteq> []" "c_uid (if j = i then cl else sv_client sv j) = k" using ne by auto
    qed
  qed
  have M: "set (member_ids c) \<subseteq> live sv" if "map_of (sv_channels sv) k = Some c" for k c
    using oks that unfolding channels_ok_def by blast
  have C: "channels_ok (new_client i cl sv)"
  proof -
    have "i \<notin> set (member_ids c)" if "map_of (sv_channels sv) k = Some c" for k c using M [OF that] i by auto
    moreover have "\<forall>j \<in> live sv. distinct (c_channels (sv_client sv j)) \<and> (\<forall>k. k \<in> set (c_channels (sv_client sv j)) \<longleftrightarrow>
        (\<exists>c. map_of (sv_channels sv) k = Some c \<and> j \<in> set (member_ids c)))" using oks by (simp add: channels_ok_def)
    ultimately have "\<forall>j \<in> insert i (live sv). distinct (c_channels (sv_client (new_client i cl sv) j)) \<and>
        (\<forall>k. k \<in> set (c_channels (sv_client (new_client i cl sv) j)) \<longleftrightarrow>
          (\<exists>c. map_of (sv_channels sv) k = Some c \<and> j \<in> set (member_ids c)))"
      using f i by (auto simp: fresh_client_def)
    then show ?thesis using oks M unfolding channels_ok_def new_client_fields by blast
  qed
  have "watch_ok (\<lambda>j. c_monitor (sv_client (new_client i cl sv) j)) (insert i (live sv)) (sv_mon_idx sv)"
    "watch_ok (\<lambda>j. c_watch (sv_client (new_client i cl sv) j)) (insert i (live sv)) (sv_watch_idx sv)"
    using oks i by (auto intro: watch_ok_cong)
  then show ?thesis using Q U C by (simp add: mostly_ok_def)
qed

lemma ip_count_inc_lookup:
  "map_of (ip_count_inc k m) k' = (if k' = k then Some ((case map_of m k of None \<Rightarrow> 0 | Some n \<Rightarrow> n) + 1) else map_of m k')"
  by (auto simp: ip_count_inc_def alist_facts map_add_def split: option.split)

lemma ip_count_inc_distinct: "distinct (map fst m) \<Longrightarrow> distinct (map fst (ip_count_inc k m))"
  by (auto simp: ip_count_inc_def alist_facts map_of_eq_None_iff split: option.split)

text \<open>A connection is accepted (src/src/net.c makes the client and adds it).\<close>

lemma add_connection_ok:
  assumes ok: "server_ok sv" and i: "i \<notin> live sv" and f: "fresh_client cl" and fd: "c_fd cl \<ge> 0"
  shows "server_ok (server_add_connection W i (new_client i cl sv))"
proof -
  define key where "key = server_ip_key W (c_ip cl)"
  define n where "n = new_client i (cl\<lparr>c_count_key := key\<rparr>) sv"
  define sv1 where "sv1 = n\<lparr>sv_all := i # sv_all sv, sv_n_clients := sv_n_clients sv + 1,
      sv_ip_counts := ip_count_inc key (sv_ip_counts sv), sv_by_conn := sv_by_conn sv @ [(c_conn_id cl, i)]\<rparr>"
  note oks = ok [unfolded server_ok_def]
  have f': "fresh_client (cl\<lparr>c_count_key := key\<rparr>)" using f by (simp add: fresh_client_def)
  note m = new_client_mostly_ok [OF ok i f', folded n_def]
  have ia: "i \<notin> set (sv_all sv)" using oks i by (auto simp: conns_ok_def)
  have cl: "sv_client sv1 j = (if j = i then cl\<lparr>c_count_key := key\<rparr> else sv_client sv j)" for j by (simp add: sv1_def n_def)
  have l: "live sv1 = insert i (live sv)" by (simp add: sv1_def n_def live_def new_client_def)
  have cnt: "count_of sv1 k = (if key = k then 1 else 0) + count_of sv k" for k
  proof -
    have "filter (\<lambda>j. c_count_key (sv_client sv1 j) = k) (sv_all sv) = filter (\<lambda>j. c_count_key (sv_client sv j) = k) (sv_all sv)"
      using ia cl by (intro filter_cong) auto
    moreover have "sv_all sv1 = i # sv_all sv" by (simp add: sv1_def)
    ultimately show ?thesis by (simp add: count_of_def cl)
  qed
  have "conns_ok sv1"
    unfolding conns_ok_def
  proof (intro conjI allI ballI impI)
    show "map_of (sv_ip_counts sv1) k = (if count_of sv1 k = 0 then None else Some (int (count_of sv1 k)))" for k
      using oks unfolding cnt by (auto simp: sv1_def ip_count_inc_lookup conns_ok_def)
    show "distinct (map fst (sv_ip_counts sv1))" using oks by (simp add: sv1_def ip_count_inc_distinct conns_ok_def)
    show "snd ` set (sv_by_conn sv1) \<subseteq> set (sv_all sv1)" using oks by (auto simp: sv1_def conns_ok_def)
    show "distinct (sv_all sv1)" "set (sv_all sv1) \<subseteq> live sv1" "sv_n_clients sv1 = int (length (sv_all sv1))"
      using oks ia unfolding l by (auto simp: sv1_def conns_ok_def)
    show "0 \<le> c_fd (sv_client sv1 j)" if "j \<in> set (sv_all sv1)" for j
      using oks that fd unfolding cl by (auto simp: sv1_def conns_ok_def)
    show "j \<in> set (sv_all sv1)" if "j \<in> live sv1" "0 \<le> c_fd (sv_client sv1 j)" for j
      using oks that unfolding cl l by (auto simp: sv1_def conns_ok_def split: if_splits)
  qed
  moreover have "queues_ok sv1 \<and> users_ok sv1 \<and> channels_ok sv1 \<and>
     watch_ok (\<lambda>j. c_monitor (sv_client sv1 j)) (live sv1) (sv_mon_idx sv1) \<and>
     watch_ok (\<lambda>j. c_watch (sv_client sv1 j)) (live sv1) (sv_watch_idx sv1)"
  proof -
    have "live sv1 = live n" by (simp add: sv1_def live_def)
    then show ?thesis using m by (simp add: mostly_ok_def queues_ok_def users_ok_def channels_ok_def sv1_def)
  qed
  ultimately have ok1: "server_ok sv1" by (simp add: server_ok_def)
  have "\<exists>x. server_add_connection W i (new_client i cl sv) = x\<lparr>sv_q := client_mark_dirty i (sv_q x)\<rparr> \<and> x = sv1"
    by (simp add: server_add_connection_def Let_def sv1_def n_def key_def sv_write_def new_client_def ev_write_def ev_client_def)
  then show ?thesis using mark_dirty_ok(1) [OF ok1, of i] l by auto
qed

text \<open>A client leaves a channel or is taken out of it: the three calls the commands make in this order.\<close>

definition part_channel :: "client_id \<Rightarrow> string \<Rightarrow> server \<Rightarrow> server" where
  "part_channel i k sv =
     server_maybe_drop_channel k (server_detach_membership i k (set_chan k (channel_remove_member (chan_of sv k) i) sv))"

definition join_channel :: "client_id \<Rightarrow> string \<Rightarrow> server \<Rightarrow> server" where
  "join_channel i k sv = server_attach_membership i k (set_chan k (channel_add_member (chan_of sv k) i) sv)"

text \<open>A change of nick moves the entry of the table (rekey\_nick of src/src/netsync.c and the NICK command).\<close>

definition rekey_nick :: "client_id \<Rightarrow> string \<Rightarrow> server \<Rightarrow> server" where
  "rekey_nick i newnick sv =
     (let cl = sv_client sv i;
          sv1 = (if map_of (sv_users sv) (c_casefold_nick cl) = Some i
                 then sv\<lparr>sv_users := AList.delete (c_casefold_nick cl) (sv_users sv)\<rparr> else sv)
      in server_add_user i (sv_write i (cl\<lparr>c_nick := clip NICKLEN newnick, c_casefold_nick := irc_casefold NICKLEN newnick\<rparr>) sv1))"

definition monitor_add :: "client_id \<Rightarrow> string \<Rightarrow> server \<Rightarrow> server" where
  "monitor_add i cf sv =
     (let cl = sv_client sv i
      in sv_write i (cl\<lparr>c_monitor := c_monitor cl @ [clip NICKLEN cf]\<rparr>) (sv\<lparr>sv_mon_idx := server_watch_index_add i cf (sv_mon_idx sv)\<rparr>))"

definition monitor_discard :: "client_id \<Rightarrow> string \<Rightarrow> server \<Rightarrow> server" where
  "monitor_discard i cf sv =
     (let cl = sv_client sv i
      in if cf \<in> set (c_monitor cl)
         then sv_write i (cl\<lparr>c_monitor := remove1 cf (c_monitor cl)\<rparr>) (sv\<lparr>sv_mon_idx := server_watch_index_del i cf (sv_mon_idx sv)\<rparr>)
         else sv)"

text \<open>Writing a client whose queue flags stay as they are.\<close>

lemma queues_write:
  assumes "queues_ok sv" and "i \<in> live sv" and "c_fd cl = c_fd (sv_client sv i)" and "c_dirty_q cl = c_dirty_q (sv_client sv i)"
    and "c_dead_q cl = c_dead_q (sv_client sv i)" and "c_quitting cl = c_quitting (sv_client sv i)"
  shows "queues_ok (sv_write i cl sv)"
proof -
  have "distinct (map fst (ev_clients (sv_q (sv_write i cl sv))))"
    using assms(1) by (simp add: queues_ok_def sv_write_def ev_write_def distinct_update)
  then show ?thesis using assms by (simp add: queues_ok_def)
qed

lemma conns_write:
  assumes "conns_ok sv" and "i \<in> live sv" and "c_fd cl = c_fd (sv_client sv i)" and "c_count_key cl = c_count_key (sv_client sv i)"
  shows "conns_ok (sv_write i cl sv)"
proof -
  have "c_fd (sv_client (sv_write i cl sv) j) = c_fd (sv_client sv j)"
    "c_count_key (sv_client (sv_write i cl sv) j) = c_count_key (sv_client sv j)" for j using assms by simp_all
  then show ?thesis using assms(1,2) unfolding conns_ok_def count_of_def by simp
qed

lemma users_okI:
  assumes "distinct (map fst (sv_users sv))" and "distinct (map fst (sv_by_uid sv))"
    and "\<And>k i. map_of (sv_users sv) k = Some i \<Longrightarrow> i \<in> live sv \<and> k \<noteq> [] \<and> c_casefold_nick (sv_client sv i) = k"
    and "\<And>u i. map_of (sv_by_uid sv) u = Some i \<Longrightarrow> i \<in> live sv \<and> u \<noteq> [] \<and> c_uid (sv_client sv i) = u"
  shows "users_ok sv"
  using assms unfolding users_ok_def by blast

lemma users_okD:
  assumes "users_ok sv"
  shows "map_of (sv_users sv) k = Some i \<Longrightarrow> i \<in> live sv \<and> k \<noteq> [] \<and> c_casefold_nick (sv_client sv i) = k"
    and "map_of (sv_by_uid sv) u = Some i \<Longrightarrow> i \<in> live sv \<and> u \<noteq> [] \<and> c_uid (sv_client sv i) = u"
    and "distinct (map fst (sv_users sv))" and "distinct (map fst (sv_by_uid sv))"
  using assms unfolding users_ok_def by blast+

lemma users_write:
  assumes "users_ok sv" and "i \<in> live sv" and "c_uid cl = c_uid (sv_client sv i)"
    and "c_casefold_nick cl = c_casefold_nick (sv_client sv i) \<or> (\<forall>k. map_of (sv_users sv) k \<noteq> Some i)"
  shows "users_ok (sv_write i cl sv)"
proof (rule users_okI, unfold sv_write_fields live_write [OF assms(2)] sv_client_write)
  note D = users_okD [OF assms(1)]
  show "distinct (map fst (sv_users sv))" "distinct (map fst (sv_by_uid sv))" using D(3,4) by blast+
  fix k j
  show "j \<in> live sv \<and> k \<noteq> [] \<and> c_casefold_nick (if j = i then cl else sv_client sv j) = k" if "map_of (sv_users sv) k = Some j"
    using D(1) [OF that] assms(4) that by (cases "j = i") auto
  show "j \<in> live sv \<and> k \<noteq> [] \<and> c_uid (if j = i then cl else sv_client sv j) = k" if "map_of (sv_by_uid sv) k = Some j"
    using D(2) [OF that] assms(3) by (cases "j = i") auto
qed

lemma channels_write:
  assumes "channels_ok sv" and "i \<in> live sv" and "c_channels cl = c_channels (sv_client sv i)"
  shows "channels_ok (sv_write i cl sv)"
proof -
  have "c_channels (sv_client (sv_write i cl sv) j) = c_channels (sv_client sv j)" for j using assms by simp
  then show ?thesis using assms(1,2) unfolding channels_ok_def by simp
qed

lemma watch_write:
  assumes "watch_ok (\<lambda>j. lst (sv_client sv j)) (live sv) idx" and "i \<in> live sv" and "set (lst (sv_client sv i)) \<subseteq> set (lst cl)"
  shows "watch_ok (\<lambda>j. lst (sv_client (sv_write i cl sv) j)) (live (sv_write i cl sv)) idx"
  unfolding live_write [OF assms(2)] by (rule watch_ok_cong [OF assms(1)]) (use assms(3) in auto)

lemma add_user_ok:
  assumes ok: "server_ok sv" and i: "i \<in> live sv" and n: "c_casefold_nick (sv_client sv i) \<noteq> []"
    and free: "map_of (sv_users sv) (c_casefold_nick (sv_client sv i)) = None"
  shows "server_ok (server_add_user i sv)" and "live (server_add_user i sv) = live sv"
proof -
  let ?r = "server_add_user i sv"
  let ?k = "c_casefold_nick (sv_client sv i)"
  show l: "live ?r = live sv" by (simp add: server_add_user_def Let_def live_def)
  have U: "users_ok sv" using ok by (simp add: server_ok_def)
  have m: "map_of (sv_users ?r) k = (if k = ?k then Some i else map_of (sv_users sv) k)" for k
    using free by (auto simp: server_add_user_def Let_def map_add_def split: option.split)
  have "users_ok ?r"
  proof (rule users_okI, unfold l m)
    show "distinct (map fst (sv_users ?r))"
      using users_okD(3) [OF U] free by (auto simp: server_add_user_def Let_def map_of_eq_None_iff)
    show "distinct (map fst (sv_by_uid ?r))" using users_okD(4) [OF U] by (simp add: server_add_user_def Let_def)
    fix k j
    have c: "sv_client ?r j = sv_client sv j" by (simp add: server_add_user_def Let_def)
    show "j \<in> live sv \<and> k \<noteq> [] \<and> c_casefold_nick (sv_client ?r j) = k" if "(if k = ?k then Some i else map_of (sv_users sv) k) = Some j"
      unfolding c using users_okD(1) [OF U, of k j] that i n by (auto split: if_splits)
    show "j \<in> live sv \<and> k \<noteq> [] \<and> c_uid (sv_client ?r j) = k" if "map_of (sv_by_uid ?r) k = Some j"
      unfolding c using users_okD(2) [OF U, of k j] that by (simp add: server_add_user_def Let_def)
  qed
  then show "server_ok ?r" using ok l
    by (simp add: server_ok_def server_add_user_def Let_def queues_ok_def channels_ok_def conns_ok_def count_of_def)
qed

lemma channels_okI:
  assumes "distinct (map fst (sv_channels sv))"
    and "\<And>k c. map_of (sv_channels sv) k = Some c \<Longrightarrow> distinct (member_ids c) \<and> set (member_ids c) \<subseteq> live sv"
    and "\<And>i. i \<in> live sv \<Longrightarrow> distinct (c_channels (sv_client sv i))"
    and "\<And>i k. i \<in> live sv \<Longrightarrow> k \<in> set (c_channels (sv_client sv i)) \<longleftrightarrow> (\<exists>c. map_of (sv_channels sv) k = Some c \<and> i \<in> set (member_ids c))"
  shows "channels_ok sv"
  using assms unfolding channels_ok_def by blast

lemma channels_okD:
  assumes "channels_ok sv"
  shows "distinct (map fst (sv_channels sv))"
    and "map_of (sv_channels sv) k = Some c \<Longrightarrow> distinct (member_ids c) \<and> set (member_ids c) \<subseteq> live sv"
    and "i \<in> live sv \<Longrightarrow> distinct (c_channels (sv_client sv i))"
    and "i \<in> live sv \<Longrightarrow> k \<in> set (c_channels (sv_client sv i)) \<longleftrightarrow> (\<exists>c. map_of (sv_channels sv) k = Some c \<and> i \<in> set (member_ids c))"
  using assms unfolding channels_ok_def by blast+

lemma set_chan_fields [simp]:
  "live (sv\<lparr>sv_channels := X\<rparr>) = live sv"
  by (simp add: live_def)

lemma channels_irrelevant [simp]:
  "queues_ok (sv\<lparr>sv_channels := X\<rparr>) = queues_ok sv" "users_ok (sv\<lparr>sv_channels := X\<rparr>) = users_ok sv"
  "conns_ok (sv\<lparr>sv_channels := X\<rparr>) = conns_ok sv"
  by (simp_all add: queues_ok_def users_ok_def conns_ok_def count_of_def)

lemma set_channels_ok: "server_ok sv \<Longrightarrow> channels_ok (sv\<lparr>sv_channels := X\<rparr>) \<Longrightarrow> server_ok (sv\<lparr>sv_channels := X\<rparr>)"
  by (simp add: server_ok_def)

text \<open>A change of channels and one client's list of them leaves the rest in order.\<close>

lemma membership_step_ok:
  assumes ok: "server_ok sv" and i: "i \<in> live sv" and ch: "channels_ok sv'"
    and eq: "sv' = sv_write i ((sv_client sv i)\<lparr>c_channels := ks\<rparr>) (sv\<lparr>sv_channels := X\<rparr>)"
  shows "server_ok sv'"
proof -
  let ?s = "sv\<lparr>sv_channels := X\<rparr>"
  let ?c = "(sv_client sv i)\<lparr>c_channels := ks\<rparr>"
  have i': "i \<in> live ?s" using i by simp
  note oks = ok [unfolded server_ok_def]
  have "queues_ok sv'" unfolding eq by (rule queues_write [OF _ i']) (use oks in simp_all)
  moreover have "users_ok sv'" unfolding eq by (rule users_write [OF _ i']) (use oks in simp_all)
  moreover have "conns_ok sv'" unfolding eq by (rule conns_write [OF _ i']) (use oks in simp_all)
  moreover have "watch_ok (\<lambda>j. c_monitor (sv_client sv' j)) (live sv') (sv_mon_idx sv')"
    "watch_ok (\<lambda>j. c_watch (sv_client sv' j)) (live sv') (sv_watch_idx sv')"
    unfolding eq sv_write_fields
    by (rule watch_write [where lst = c_monitor, OF _ i'], use oks in simp, simp)
      (rule watch_write [where lst = c_watch, OF _ i'], use oks in simp, simp)
  ultimately show ?thesis using ch by (simp add: server_ok_def)
qed

lemma map_of_AList_set: "map_of (AList.update k c m) k' = (if k' = k then Some c else map_of m k')"
  by (simp add: map_of_update)

lemma member_ids_add: "i \<notin> set (member_ids c) \<Longrightarrow> member_ids (channel_add_member c i) = member_ids c @ [i]"
  by (simp add: channel_add_member_def channel_find_member_def member_ids_def map_of_eq_None_iff [THEN iffD2])

lemma join_channel_ok:
  assumes ok: "server_ok sv" and i: "i \<in> live sv" and c: "map_of (sv_channels sv) k = Some c" and n: "i \<notin> set (member_ids c)"
  shows "server_ok (join_channel i k sv)"
proof -
  define ks where "ks = k # c_channels (sv_client sv i)"
  define X where "X = AList.update k (channel_add_member c i) (sv_channels sv)"
  define r where "r = sv_write i ((sv_client sv i)\<lparr>c_channels := ks\<rparr>) (sv\<lparr>sv_channels := X\<rparr>)"
  have e: "join_channel i k sv = r"
    by (simp add: join_channel_def server_attach_membership_def set_chan_def chan_of_def c Let_def r_def ks_def X_def)
  have C: "channels_ok sv" using ok by (simp add: server_ok_def)
  note D = channels_okD [OF C]
  have l: "live r = live sv" unfolding r_def using i by (subst live_write) simp_all
  have m: "map_of (sv_channels r) k' = (if k' = k then Some (channel_add_member c i) else map_of (sv_channels sv) k')" for k'
    by (simp add: r_def X_def map_of_AList_set)
  have cl: "c_channels (sv_client r j) = (if j = i then ks else c_channels (sv_client sv j))" for j by (simp add: r_def)
  have kn: "k \<notin> set (c_channels (sv_client sv i))" using D(4) [OF i, of k] c n by auto
  have "channels_ok r"
  proof (rule channels_okI, unfold l m cl)
    show "distinct (map fst (sv_channels r))" using D(1) by (simp add: r_def X_def distinct_update)
    show "distinct (member_ids d) \<and> set (member_ids d) \<subseteq> live sv"
      if "(if k' = k then Some (channel_add_member c i) else map_of (sv_channels sv) k') = Some d" for k' d
      using that D(2) [of k' d] D(2) [OF c] member_ids_add [OF n] n i by (auto split: if_splits)
    show "distinct (if j = i then ks else c_channels (sv_client sv j))" if "j \<in> live sv" for j
      using D(3) [OF that] kn by (auto simp: ks_def)
    show "k' \<in> set (if j = i then ks else c_channels (sv_client sv j)) \<longleftrightarrow>
        (\<exists>d. (if k' = k then Some (channel_add_member c i) else map_of (sv_channels sv) k') = Some d \<and> j \<in> set (member_ids d))"
      if "j \<in> live sv" for j k'
      using D(4) [OF that, of k'] c member_ids_add [OF n] by (auto simp: ks_def)
  qed
  then show ?thesis unfolding e by (rule membership_step_ok [OF ok i _ r_def])
qed

lemma part_channel_ok:
  assumes ok: "server_ok sv" and i: "i \<in> live sv" and c: "map_of (sv_channels sv) k = Some c" and n: "i \<in> set (member_ids c)"
  shows "server_ok (part_channel i k sv)" and "k \<notin> set (c_channels (sv_client (part_channel i k sv) i))"
proof -
  define ks where "ks = remove1 k (c_channels (sv_client sv i))"
  have C: "channels_ok sv" using ok by (simp add: server_ok_def)
  note D = channels_okD [OF C]
  obtain X where X: "leave_channel i k sv = sv\<lparr>sv_channels := X\<rparr>" "map_of X = (map_of (sv_channels sv))(k := left_by i c)" "distinct (map fst X)"
    using leave_channel_eq [OF c D(1)] by blast
  define r where "r = sv_write i ((sv_client sv i)\<lparr>c_channels := ks\<rparr>) (sv\<lparr>sv_channels := X\<rparr>)"
  have comm: "server_maybe_drop_channel k (sv_write i x s) = sv_write i x (server_maybe_drop_channel k s)" for x s
    by (simp add: server_maybe_drop_channel_def Let_def chan_of_def sv_write_def)
  have cs: "sv_client (set_chan k d sv) i = sv_client sv i" for d by (simp add: set_chan_def)
  have e: "part_channel i k sv = r"
    unfolding part_channel_def server_detach_membership_def Let_def comm cs
    using X(1) by (simp add: leave_channel_def r_def ks_def)
  have l: "live r = live sv" unfolding r_def using i by (subst live_write) simp_all
  have m: "map_of (sv_channels r) k' = (if k' = k then left_by i c else map_of (sv_channels sv) k')" for k'
    by (simp add: r_def X(2))
  have cl: "c_channels (sv_client r j) = (if j = i then ks else c_channels (sv_client sv j))" for j by (simp add: r_def)
  have kd: "distinct (c_channels (sv_client sv i))" by (rule D(3) [OF i])
  show "k \<notin> set (c_channels (sv_client (part_channel i k sv) i))" unfolding e cl using kd by (simp add: ks_def)
  have "channels_ok r"
  proof (rule channels_okI, unfold l m cl)
    show "distinct (map fst (sv_channels r))" using X(3) by (simp add: r_def)
    show "distinct (member_ids d) \<and> set (member_ids d) \<subseteq> live sv"
      if "(if k' = k then left_by i c else map_of (sv_channels sv) k') = Some d" for k' d
      using that D(2) [of k' d] D(2) [OF c] left_by_members [of i c d] by (auto simp: distinct_removeAll split: if_splits)
    show "distinct (if j = i then ks else c_channels (sv_client sv j))" if "j \<in> live sv" for j
      using D(3) [OF that] kd by (simp add: ks_def)
    show "k' \<in> set (if j = i then ks else c_channels (sv_client sv j)) \<longleftrightarrow>
        (\<exists>d. (if k' = k then left_by i c else map_of (sv_channels sv) k') = Some d \<and> j \<in> set (member_ids d))"
      if j: "j \<in> live sv" for j k'
    proof (cases "k' = k")
      case True
      then show ?thesis
        using D(4) [OF j, of k] c kd left_by_members [of i c] left_by_None [of i c]
        by (cases "left_by i c") (auto simp: ks_def)
    next
      case False
      then show ?thesis using D(4) [OF j, of k'] kd by (auto simp: ks_def)
    qed
  qed
  then show "server_ok (part_channel i k sv)" unfolding e by (rule membership_step_ok [OF ok i _ r_def])
qed

lemma create_channel_ok:
  assumes ok: "server_ok sv"
  shows "server_ok (snd (server_get_or_create_channel W name sv))"
proof -
  let ?k = "irc_casefold CHAN_NAMELEN name"
  have C: "channels_ok sv" using ok by (simp add: server_ok_def)
  note D = channels_okD [OF C]
  have "channels_ok (sv\<lparr>sv_channels := sv_channels sv @ [(?k, c)]\<rparr>)"
    if n: "map_of (sv_channels sv) ?k = None" and c: "member_ids c = []" for c
  proof (rule channels_okI, unfold set_chan_fields)
    let ?r = "sv\<lparr>sv_channels := sv_channels sv @ [(?k, c)]\<rparr>"
    have m: "map_of (sv_channels ?r) k = (if k = ?k then Some c else map_of (sv_channels sv) k)" for k
      using n by (simp add: map_add_def split: option.split)
    show "distinct (map fst (sv_channels ?r))" using D(1) n by (auto simp: map_of_eq_None_iff)
    show "distinct (member_ids d) \<and> set (member_ids d) \<subseteq> live sv" if "map_of (sv_channels ?r) k = Some d" for k d
      using that D(2) [of k d] c unfolding m by (auto split: if_splits)
    show "distinct (c_channels (sv_client ?r j))" if "j \<in> live sv" for j using D(3) [OF that] by simp
    show "k \<in> set (c_channels (sv_client ?r j)) \<longleftrightarrow> (\<exists>d. map_of (sv_channels ?r) k = Some d \<and> j \<in> set (member_ids d))"
      if "j \<in> live sv" for j k
      using D(4) [OF that, of k] n c unfolding m by auto
  qed
  then have "server_ok (sv\<lparr>sv_channels := sv_channels sv @ [(?k, c)]\<rparr>)"
    if "map_of (sv_channels sv) ?k = None" "member_ids c = []" for c
    using that by (intro set_channels_ok [OF ok])
  then show ?thesis using ok
    by (simp add: server_get_or_create_channel_def server_find_channel_def Let_def member_ids_def channel_new_def split: option.split)
qed

lemma users_irrelevant [simp]:
  "queues_ok (sv\<lparr>sv_users := U\<rparr>) = queues_ok sv" "channels_ok (sv\<lparr>sv_users := U\<rparr>) = channels_ok sv"
  "conns_ok (sv\<lparr>sv_users := U\<rparr>) = conns_ok sv" "live (sv\<lparr>sv_users := U\<rparr>) = live sv"
  by (simp_all add: queues_ok_def channels_ok_def conns_ok_def count_of_def live_def)

text \<open>
  A client gives up its entry in the table of nicks and is written with another nick, or none: what
  a change of nick and the loss of one have in common.
\<close>

definition nick_freed :: "client_id \<Rightarrow> server \<Rightarrow> (string \<times> client_id) list" where
  "nick_freed i sv =
     (let k = c_casefold_nick (sv_client sv i)
      in if map_of (sv_users sv) k = Some i then AList.delete k (sv_users sv) else sv_users sv)"

lemma nick_freed_Some:
  assumes us: "users_ok sv"
  shows "map_of (nick_freed i sv) k' = Some j \<longleftrightarrow> map_of (sv_users sv) k' = Some j \<and> j \<noteq> i"
proof -
  have own: "k' = c_casefold_nick (sv_client sv i)" if "map_of (sv_users sv) k' = Some i" using users_okD(1) [OF us that] by simp
  show ?thesis
  proof (cases "map_of (sv_users sv) (c_casefold_nick (sv_client sv i)) = Some i")
    case True
    then have u: "map_of (nick_freed i sv) = (map_of (sv_users sv))(c_casefold_nick (sv_client sv i) := None)"
      by (simp add: nick_freed_def Let_def alist_facts)
    show ?thesis unfolding u using own True by (cases "k' = c_casefold_nick (sv_client sv i)") auto
  next
    case False
    then have "nick_freed i sv = sv_users sv" by (simp add: nick_freed_def Let_def)
    then show ?thesis using own False by auto
  qed
qed

lemma nick_freed_ok:
  assumes ok: "server_ok sv" and i: "i \<in> live sv"
    and cl: "c_uid cl = c_uid (sv_client sv i)" "c_channels cl = c_channels (sv_client sv i)" "c_fd cl = c_fd (sv_client sv i)"
      "c_count_key cl = c_count_key (sv_client sv i)" "c_monitor cl = c_monitor (sv_client sv i)" "c_watch cl = c_watch (sv_client sv i)"
      "c_dirty_q cl = c_dirty_q (sv_client sv i)" "c_dead_q cl = c_dead_q (sv_client sv i)" "c_quitting cl = c_quitting (sv_client sv i)"
  shows "server_ok (sv_write i cl (sv\<lparr>sv_users := nick_freed i sv\<rparr>))"
    and "live (sv_write i cl (sv\<lparr>sv_users := nick_freed i sv\<rparr>)) = live sv"
proof -
  define s where "s = sv\<lparr>sv_users := nick_freed i sv\<rparr>"
  note D = users_okD [of sv]
  have us: "users_ok sv" using ok by (simp add: server_ok_def)
  note mu = nick_freed_Some [OF us, of i]
  have us': "users_ok s"
  proof (rule users_okI)
    show "distinct (map fst (sv_users s))" using D(3) [OF us] by (simp add: s_def nick_freed_def Let_def alist_facts)
    show "distinct (map fst (sv_by_uid s))" using D(4) [OF us] by (simp add: s_def)
    show "j \<in> live s \<and> k' \<noteq> [] \<and> c_casefold_nick (sv_client s j) = k'" if "map_of (sv_users s) k' = Some j" for k' j
      using that D(1) [OF us, of k' j] by (simp add: s_def mu)
    show "j \<in> live s \<and> k' \<noteq> [] \<and> c_uid (sv_client s j) = k'" if "map_of (sv_by_uid s) k' = Some j" for k' j
      using that D(2) [OF us, of k' j] by (simp add: s_def)
  qed
  have i': "i \<in> live s" using i by (simp add: s_def)
  define t where "t = sv_write i cl s"
  note oks = ok [unfolded server_ok_def]
  have q: "queues_ok t" unfolding t_def by (rule queues_write [OF _ i']) (use oks in \<open>simp_all add: cl s_def\<close>)
  have u: "users_ok t" unfolding t_def by (rule users_write [OF us' i']) (auto simp: cl s_def mu)
  have c: "conns_ok t" unfolding t_def by (rule conns_write [OF _ i']) (use oks in \<open>simp_all add: cl s_def\<close>)
  have h: "channels_ok t" unfolding t_def by (rule channels_write [OF _ i']) (use oks in \<open>simp_all add: cl s_def\<close>)
  have ws: "watch_ok (\<lambda>j. c_monitor (sv_client s j)) (live s) (sv_mon_idx s)" "watch_ok (\<lambda>j. c_watch (sv_client s j)) (live s) (sv_watch_idx s)"
    using oks by (simp_all add: s_def)
  have w: "watch_ok (\<lambda>j. c_monitor (sv_client t j)) (live t) (sv_mon_idx t)"
    unfolding t_def sv_write_fields by (rule watch_write [where lst = c_monitor, OF ws(1) i']) (simp add: cl s_def)
  have w': "watch_ok (\<lambda>j. c_watch (sv_client t j)) (live t) (sv_watch_idx t)"
    unfolding t_def sv_write_fields by (rule watch_write [where lst = c_watch, OF ws(2) i']) (simp add: cl s_def)
  show "server_ok (sv_write i cl (sv\<lparr>sv_users := nick_freed i sv\<rparr>))"
    using q u c h w w' by (simp add: server_ok_def t_def s_def)
  show "live (sv_write i cl (sv\<lparr>sv_users := nick_freed i sv\<rparr>)) = live sv"
    using live_write [OF i'] by (simp add: s_def)
qed

lemma rekey_nick_ok:
  assumes ok: "server_ok sv" and i: "i \<in> live sv" and ne: "irc_casefold NICKLEN newnick \<noteq> []"
    and free: "map_of (sv_users sv) (irc_casefold NICKLEN newnick) \<in> {None, Some i}"
  shows "server_ok (rekey_nick i newnick sv)" and "live (rekey_nick i newnick sv) = live sv"
proof -
  define cl where "cl = (sv_client sv i)\<lparr>c_nick := clip NICKLEN newnick, c_casefold_nick := irc_casefold NICKLEN newnick\<rparr>"
  define t where "t = sv_write i cl (sv\<lparr>sv_users := nick_freed i sv\<rparr>)"
  have us: "users_ok sv" using ok by (simp add: server_ok_def)
  have ot: "server_ok t" "live t = live sv" unfolding t_def using nick_freed_ok [OF ok i, of cl] by (simp_all add: cl_def)
  have e: "rekey_nick i newnick sv = server_add_user i t"
    by (simp add: rekey_nick_def Let_def t_def cl_def nick_freed_def)
  have f: "map_of (sv_users t) (irc_casefold NICKLEN newnick) = None"
  proof (cases "map_of (sv_users t) (irc_casefold NICKLEN newnick)")
    case (Some j)
    then show ?thesis using free nick_freed_Some [OF us, of i _ j] by (auto simp: t_def)
  qed simp
  have n: "c_casefold_nick (sv_client t i) = irc_casefold NICKLEN newnick" by (simp add: t_def cl_def)
  show "server_ok (rekey_nick i newnick sv)" "live (rekey_nick i newnick sv) = live sv"
    unfolding e using add_user_ok [OF ot(1), of i] n ne f i ot(2) by simp_all
qed

lemma watch_add_ok:
  assumes ok: "watch_ok lst alive idx" and "i \<in> alive" and "k \<in> set (lst i)" and k: "clip NICKLEN k = k"
  shows "watch_ok lst alive (server_watch_index_add i k idx)"
proof -
  define w where "w = (case map_of idx k of None \<Rightarrow> [] | Some w \<Rightarrow> w)"
  have wk: "distinct w \<and> set w \<subseteq> alive \<and> (\<forall>j \<in> set w. k \<in> set (lst j)) \<and> (map_of idx k \<noteq> None \<longrightarrow> w \<noteq> [])"
  proof (cases "map_of idx k")
    case (Some v)
    then have "v \<noteq> [] \<and> distinct v \<and> set v \<subseteq> alive \<and> (\<forall>j \<in> set v. k \<in> set (lst j))"
      using ok unfolding watch_ok_def by blast
    then show ?thesis using Some by (simp add: w_def)
  qed (simp add: w_def)
  have m: "map_of (server_watch_index_add i k idx) k' = (if k' = k then Some (if i \<in> set w then w else w @ [i]) else map_of idx k')" for k'
    by (auto simp: server_watch_index_add_def Let_def k w_def alist_facts map_add_def split: option.split)
  have "distinct (map fst (server_watch_index_add i k idx))"
    using ok by (auto simp: server_watch_index_add_def Let_def k watch_ok_def alist_facts map_of_eq_None_iff split: option.split)
  moreover have "v \<noteq> [] \<and> distinct v \<and> set v \<subseteq> alive \<and> (\<forall>j \<in> set v. k' \<in> set (lst j))"
    if "map_of (server_watch_index_add i k idx) k' = Some v" for k' v
  proof (cases "k' = k")
    case True
    then show ?thesis using that wk assms(2,3) unfolding m by (auto split: if_splits)
  next
    case False
    then show ?thesis using that ok unfolding m watch_ok_def by auto
  qed
  ultimately show ?thesis unfolding watch_ok_def by blast
qed

lemma index_irrelevant [simp]:
  "queues_ok (sv\<lparr>sv_mon_idx := X\<rparr>) = queues_ok sv" "users_ok (sv\<lparr>sv_mon_idx := X\<rparr>) = users_ok sv"
  "channels_ok (sv\<lparr>sv_mon_idx := X\<rparr>) = channels_ok sv" "conns_ok (sv\<lparr>sv_mon_idx := X\<rparr>) = conns_ok sv"
  "live (sv\<lparr>sv_mon_idx := X\<rparr>) = live sv"
  by (simp_all add: queues_ok_def users_ok_def channels_ok_def conns_ok_def count_of_def live_def)

lemma monitor_step_ok:
  assumes ok: "server_ok sv" and i: "i \<in> live sv"
    and w: "watch_ok (\<lambda>j. c_monitor (sv_client (sv_write i ((sv_client sv i)\<lparr>c_monitor := ks\<rparr>) sv) j)) (live sv) X"
  shows "server_ok (sv_write i ((sv_client sv i)\<lparr>c_monitor := ks\<rparr>) (sv\<lparr>sv_mon_idx := X\<rparr>))"
proof -
  let ?s = "sv\<lparr>sv_mon_idx := X\<rparr>"
  let ?r = "sv_write i ((sv_client sv i)\<lparr>c_monitor := ks\<rparr>) ?s"
  have i': "i \<in> live ?s" using i by simp
  note oks = ok [unfolded server_ok_def]
  have "queues_ok ?r" by (rule queues_write [OF _ i']) (use oks in simp_all)
  moreover have "users_ok ?r" by (rule users_write [OF _ i']) (use oks in simp_all)
  moreover have "channels_ok ?r" by (rule channels_write [OF _ i']) (use oks in simp_all)
  moreover have "conns_ok ?r" by (rule conns_write [OF _ i']) (use oks in simp_all)
  moreover have "watch_ok (\<lambda>j. c_watch (sv_client ?r j)) (live ?r) (sv_watch_idx ?r)"
    unfolding sv_write_fields by (rule watch_write [where lst = c_watch, OF _ i']) (use oks in simp_all)
  moreover have "watch_ok (\<lambda>j. c_monitor (sv_client ?r j)) (live ?r) (sv_mon_idx ?r)"
    using w live_write [OF i'] by (simp cong: if_cong)
  ultimately show ?thesis by (simp add: server_ok_def)
qed

lemma monitor_add_ok:
  assumes ok: "server_ok sv" and i: "i \<in> live sv" and k: "clip NICKLEN cf = cf"
  shows "server_ok (monitor_add i cf sv)"
proof -
  let ?l = "\<lambda>j. c_monitor (sv_client (sv_write i ((sv_client sv i)\<lparr>c_monitor := c_monitor (sv_client sv i) @ [cf]\<rparr>) sv) j)"
  have "watch_ok (\<lambda>j. c_monitor (sv_client sv j)) (live sv) (sv_mon_idx sv)" using ok by (simp add: server_ok_def)
  then have "watch_ok ?l (live sv) (sv_mon_idx sv)" by (rule watch_ok_cong) auto
  then have "watch_ok ?l (live sv) (server_watch_index_add i cf (sv_mon_idx sv))"
    by (rule watch_add_ok) (use i k in simp_all)
  from monitor_step_ok [OF ok i this] show ?thesis by (simp add: monitor_add_def Let_def k)
qed

lemma monitor_discard_ok:
  assumes ok: "server_ok sv" and i: "i \<in> live sv"
  shows "server_ok (monitor_discard i cf sv)"
proof (cases "cf \<in> set (c_monitor (sv_client sv i))")
  case True
  have w: "watch_ok (\<lambda>j. c_monitor (sv_client sv j)) (live sv) (sv_mon_idx sv)" using ok by (simp add: server_ok_def)
  let ?X = "server_watch_index_del i cf (sv_mon_idx sv)"
  let ?l = "\<lambda>j. c_monitor (sv_client (sv_write i ((sv_client sv i)\<lparr>c_monitor := remove1 cf (c_monitor (sv_client sv i))\<rparr>) sv) j)"
  have d: "watch_ok (\<lambda>j. c_monitor (sv_client sv j)) (live sv) ?X" by (rule watch_del_ok [OF w])
  have "k \<in> set (?l j)" if "map_of ?X k = Some v" "j \<in> set v" for k v j
  proof -
    have kj: "k \<in> set (c_monitor (sv_client sv j))" using d that unfolding watch_ok_def by blast
    moreover have "k \<noteq> cf" if "j = i" using watch_del_gone [OF w \<open>map_of ?X k = Some v\<close>] \<open>j \<in> set v\<close> that by simp
    ultimately show ?thesis by (auto simp: in_set_remove1)
  qed
  then have "watch_ok ?l (live sv) ?X" using d unfolding watch_ok_def by blast
  from monitor_step_ok [OF ok i this] show ?thesis using True by (simp add: monitor_discard_def Let_def)
qed (simp add: monitor_discard_def ok)

section \<open>Reachable states\<close>

definition empty_server :: server where
  "empty_server =
     \<lparr>sv_q = \<lparr>ev_clients = [], ev_dirty = [], ev_dead = []\<rparr>, sv_users = [], sv_channels = [], sv_all = [], sv_n_clients = 0,
      sv_by_conn = [], sv_by_uid = [], sv_ip_counts = [], sv_max_users = 0, sv_class_count = replicate 16 0, sv_n_watchers = 0,
      sv_mon_idx = [], sv_watch_idx = [], sv_markers = [], sv_history = \<lparr>hs_bufs = [], hs_dirty = False\<rparr>, sv_msgid_counter = 0,
      sv_whowas = replicate WHOWAS_MAX None, sv_whowas_head = 0, sv_whowas_count = 0,
      sv_lines = \<lparr>kt_lines = [], kt_gen = 0, kt_dirty = False\<rparr>, sv_fanout_gen = 0,
      sv_fb = replicate 3 \<lparr>fb_active = False, fb_id = [], fb_type = [], fb_a = [], fb_b = [], fb_gen = 0\<rparr>, sv_fb_cur = 0, sv_fb_seq = 0,
      sv_sn = \<lparr>sn_times = replicate 21 0, sn_head = 0, sn_count = 0, sn_suppressed = 0\<rparr>, sv_servers = [], sv_out = []\<rparr>"

text \<open>
  The operations as the handlers use them: a guard is a test the handlers make before the call. The
  last rule stands for everything that only tells somebody something.
\<close>

inductive server_step :: "server \<Rightarrow> server \<Rightarrow> bool" where
  accept: "i \<notin> live sv \<Longrightarrow> fresh_client cl \<Longrightarrow> c_fd cl \<ge> 0 \<Longrightarrow> server_step sv (server_add_connection W i (new_client i cl sv))"
| nick: "i \<in> live sv \<Longrightarrow> irc_casefold NICKLEN n \<noteq> [] \<Longrightarrow> map_of (sv_users sv) (irc_casefold NICKLEN n) \<in> {None, Some i} \<Longrightarrow>
    server_step sv (rekey_nick i n sv)"
| create: "server_step sv (snd (server_get_or_create_channel W name sv))"
| join: "i \<in> live sv \<Longrightarrow> map_of (sv_channels sv) k = Some c \<Longrightarrow> i \<notin> set (member_ids c) \<Longrightarrow> server_step sv (join_channel i k sv)"
| part: "i \<in> live sv \<Longrightarrow> map_of (sv_channels sv) k = Some c \<Longrightarrow> i \<in> set (member_ids c) \<Longrightarrow> server_step sv (part_channel i k sv)"
| watch: "i \<in> live sv \<Longrightarrow> clip NICKLEN cf = cf \<Longrightarrow> server_step sv (monitor_add i cf sv)"
| unwatch: "i \<in> live sv \<Longrightarrow> server_step sv (monitor_discard i cf sv)"
| dirty: "i \<in> live sv \<Longrightarrow> server_step sv (sv\<lparr>sv_q := client_mark_dirty i (sv_q sv)\<rparr>)"
| flushed: "i \<in> live sv \<Longrightarrow> server_step sv (sv\<lparr>sv_q := client_unmark_dirty i (sv_q sv)\<rparr>)"
| quit: "i \<in> live sv \<Longrightarrow> server_step sv (sv\<lparr>sv_q := client_mark_quit i (sv_q sv)\<rparr>)"
| reap: "server_step sv (reap_one W sv)"
| gone: "i \<in> live sv \<Longrightarrow> c_fd (sv_client sv i) < 0 \<Longrightarrow> server_step sv (server_remove_client W i reason sv)"
| tell: "tells sv sv' \<Longrightarrow> server_step sv sv'"

inductive reachable :: "server \<Rightarrow> bool" where
  start: "reachable empty_server"
| step: "reachable sv \<Longrightarrow> server_step sv sv' \<Longrightarrow> reachable sv'"

inductive_cases server_stepE: "server_step sv sv'"

lemma empty_server_ok: "server_ok empty_server"
  by (simp add: server_ok_def empty_server_def queues_ok_def users_ok_def channels_ok_def conns_ok_def watch_ok_def live_def count_of_def)

lemma server_step_ok: "server_step sv sv' \<Longrightarrow> server_ok sv \<Longrightarrow> server_ok sv'"
proof (induction rule: server_step.induct)
  case (reap sv W)
  show ?case
  proof (cases "ev_dead (sv_q sv)")
    case Nil
    then show ?thesis using reap by (simp add: reap_one_def)
  next
    case (Cons i rest)
    with reap show ?thesis by (rule reap_one_ok(1))
  qed
next
  case (gone i sv W reason)
  then have "i \<notin> set (ev_dirty (sv_q sv))" "i \<notin> set (ev_dead (sv_q sv))"
    unfolding server_ok_def queues_ok_def by force+
  with gone show ?case by (intro server_remove_client_ok(1))
qed (blast intro: add_connection_ok rekey_nick_ok create_channel_ok join_channel_ok part_channel_ok(1) monitor_add_ok
    monitor_discard_ok mark_dirty_ok(1) unmark_dirty_ok(1) mark_quit_ok(1) tells_ok)+

lemma reachable_ok: "reachable sv \<Longrightarrow> server_ok sv"
  by (induction rule: reachable.induct) (simp_all add: empty_server_ok server_step_ok)

text \<open>
  C13. No registry ever names a client that was freed: in every state the operations reach, the ids
  in the nick, UID, connection and watch indexes, in the members of the channels, in the list of
  connections and in the queues of the event loop are those of clients that exist.
\<close>

theorem no_dangling_clients:
  assumes "reachable sv"
  shows "snd ` set (sv_users sv) \<union> snd ` set (sv_by_uid sv) \<union> snd ` set (sv_by_conn sv) \<union> set (sv_all sv) \<union>
     (\<Union>c \<in> snd ` set (sv_channels sv). set (member_ids c)) \<union> (\<Union>w \<in> snd ` set (sv_mon_idx sv). set w) \<union>
     (\<Union>w \<in> snd ` set (sv_watch_idx sv). set w) \<union> set (ev_dirty (sv_q sv)) \<union> set (ev_dead (sv_q sv)) \<subseteq> live sv"
proof -
  note ok = reachable_ok [OF assms, unfolded server_ok_def]
  have m: "distinct (map fst xs) \<Longrightarrow> y \<in> snd ` set xs \<Longrightarrow> \<exists>k. map_of xs k = Some y" for xs :: "('k \<times> 'v) list" and y
    by auto
  have w: "(\<Union>w \<in> snd ` set idx. set w) \<subseteq> live sv" if "watch_ok l (live sv) idx" for l idx
    using that m [of idx] unfolding watch_ok_def by blast
  have "snd ` set (sv_users sv) \<subseteq> live sv" "snd ` set (sv_by_uid sv) \<subseteq> live sv"
    using ok users_okD [of sv] m [of "sv_users sv"] m [of "sv_by_uid sv"] by blast+
  moreover have "(\<Union>c \<in> snd ` set (sv_channels sv). set (member_ids c)) \<subseteq> live sv"
    using ok channels_okD(1,2) [of sv] m [of "sv_channels sv"] by blast
  moreover have "set (sv_all sv) \<subseteq> live sv" "snd ` set (sv_by_conn sv) \<subseteq> live sv"
    using ok unfolding conns_ok_def by blast+
  moreover have "set (ev_dirty (sv_q sv)) \<subseteq> live sv" "set (ev_dead (sv_q sv)) \<subseteq> live sv" using ok unfolding queues_ok_def by blast+
  moreover have "(\<Union>w \<in> snd ` set (sv_mon_idx sv). set w) \<subseteq> live sv" "(\<Union>w \<in> snd ` set (sv_watch_idx sv). set w) \<subseteq> live sv"
    using ok w by blast+
  ultimately show ?thesis by (simp only: Un_subset_iff simp_thms)
qed

text \<open>
  Removing a client takes it out of every registry: after the event loop tore down the client
  at the head of its queue, the client is gone from memory, no channel has it as a member and no
  index finds it, every other client is still there with its nick, and the state is in order.
\<close>

theorem reap_removes_everywhere:
  assumes "reachable sv" and "ev_dead (sv_q sv) = i # rest"
  shows "let r = reap_one W sv in live r = live sv - {i} \<and> server_ok r \<and> (\<forall>k. map_of (sv_users r) k \<noteq> Some i) \<and>
     (\<forall>k c. map_of (sv_channels r) k = Some c \<longrightarrow> i \<notin> set (member_ids c)) \<and> i \<notin> set (sv_all r)"
proof -
  define r where "r = reap_one W sv"
  have ok: "server_ok r" and l: "live r = live sv - {i}"
    unfolding r_def using reap_one_ok [OF reachable_ok [OF assms(1)] assms(2)] by auto
  then have o: "users_ok r" "channels_ok r" "conns_ok r" by (simp_all add: server_ok_def)
  have "map_of (sv_users r) k \<noteq> Some i" for k using users_okD(1) [OF o(1), of k i] l by auto
  moreover have "i \<notin> set (member_ids c)" if "map_of (sv_channels r) k = Some c" for k c
    using channels_okD(2) [OF o(2) that] l by auto
  moreover have "i \<notin> set (sv_all r)" using o(3) l unfolding conns_ok_def by auto
  ultimately show ?thesis using ok l unfolding Let_def r_def [symmetric] by blast
qed

text \<open>
  C14. The number of connections per address, which the connection limit is tested against, is exact:
  it is the number of open connections that were counted under the key of the address.
\<close>

theorem ip_count_exact:
  assumes "reachable sv"
  shows "server_ip_count W ip sv = int (card {i \<in> live sv. c_fd (sv_client sv i) \<ge> 0 \<and> c_count_key (sv_client sv i) = server_ip_key W ip})"
proof -
  have ok: "conns_ok sv" using reachable_ok [OF assms] by (simp add: server_ok_def)
  let ?K = "server_ip_key W ip"
  have "{i \<in> live sv. c_fd (sv_client sv i) \<ge> 0 \<and> c_count_key (sv_client sv i) = ?K} =
      set (filter (\<lambda>i. c_count_key (sv_client sv i) = ?K) (sv_all sv))"
    using ok unfolding conns_ok_def by auto
  then have "card {i \<in> live sv. c_fd (sv_client sv i) \<ge> 0 \<and> c_count_key (sv_client sv i) = ?K} = count_of sv ?K"
    unfolding count_of_def using ok distinct_card [of "filter (\<lambda>i. c_count_key (sv_client sv i) = ?K) (sv_all sv)"]
    by (simp add: conns_ok_def)
  moreover have "map_of (sv_ip_counts sv) ?K = (if count_of sv ?K = 0 then None else Some (int (count_of sv ?K)))"
    using ok unfolding conns_ok_def by blast
  ultimately show ?thesis by (simp add: server_ip_count_def)
qed

section \<open>Told once\<close>

lemma fan_members_once:
  assumes "sv_fb_cur s = 0"
  shows "\<exists>L. distinct L \<and> set L = {j \<in> set js. c_fanout_mark (sv_client s j) \<noteq> gen \<and> (cap = 0 \<or> has (c_caps (sv_client s j)) cap)} \<and>
     sv_out (fold (fan_member W gen cap line) js s) = sv_out s @ map (\<lambda>j. To j line) L"
  using assms
proof (induction js arbitrary: s)
  case (Cons j js)
  show ?case
  proof (cases "c_fanout_mark (sv_client s j) = gen")
    case True
    then have "fan_member W gen cap line j s = s" by (simp add: fan_member_def Let_def)
    moreover have "{x \<in> set (j # js). c_fanout_mark (sv_client s x) \<noteq> gen \<and> (cap = 0 \<or> has (c_caps (sv_client s x)) cap)} =
        {x \<in> set js. c_fanout_mark (sv_client s x) \<noteq> gen \<and> (cap = 0 \<or> has (c_caps (sv_client s x)) cap)}" using True by auto
    ultimately show ?thesis using Cons.IH [OF Cons.prems] by simp
  next
    case False
    define s1 where "s1 = sv_write j ((sv_client s j)\<lparr>c_fanout_mark := gen\<rparr>) s"
    define told where "told \<longleftrightarrow> cap = 0 \<or> has (c_caps (sv_client s j)) cap"
    define s2 where "s2 = fan_member W gen cap line j s"
    have s2: "s2 = (if told then srv_send j line s1 else s1)"
      using False Cons.prems unfolding s2_def fan_member_def Let_def s1_def told_def server_fbatch_send_def by auto
    have cl: "sv_client s2 x = (if x = j then (sv_client s j)\<lparr>c_fanout_mark := gen\<rparr> else sv_client s x)" for x
      by (simp add: s2 s1_def srv_send_def emit_def)
    have o: "sv_out s2 = sv_out s @ (if told then [To j line] else [])" and b: "sv_fb_cur s2 = 0"
      using Cons.prems by (simp_all add: s2 s1_def srv_send_def emit_def)
    from Cons.IH [OF b] obtain L where L: "distinct L"
      "set L = {x \<in> set js. c_fanout_mark (sv_client s2 x) \<noteq> gen \<and> (cap = 0 \<or> has (c_caps (sv_client s2 x)) cap)}"
      "sv_out (fold (fan_member W gen cap line) js s2) = sv_out s2 @ map (\<lambda>j. To j line) L" by blast
    have j: "j \<notin> set L" using L(2) cl by auto
    show ?thesis
    proof (intro exI [of _ "(if told then [j] else []) @ L"] conjI)
      show "distinct ((if told then [j] else []) @ L)" using L(1) j by simp
      show "set ((if told then [j] else []) @ L) = {x \<in> set (j # js). c_fanout_mark (sv_client s x) \<noteq> gen \<and> (cap = 0 \<or> has (c_caps (sv_client s x)) cap)}"
        using L(2) cl False unfolding told_def by (auto split: if_splits)
      show "sv_out (fold (fan_member W gen cap line) (j # js) s) = sv_out s @ map (\<lambda>j. To j line) ((if told then [j] else []) @ L)"
        using L(3) o unfolding s2_def by simp
    qed
  qed
qed simp

lemma fan_member_channels: "sv_channels (fan_member W gen cap line j s) = sv_channels s"
  by (simp add: fan_member_def Let_def server_fbatch_send_def srv_send_def emit_def)

lemma fan_flat:
  "fold (\<lambda>k s. fold (\<lambda>(j, _) s. fan_member W gen cap line j s) (ch_members (chan_of s k)) s) ks s =
     fold (fan_member W gen cap line) (concat (map (\<lambda>k. member_ids (chan_of s k)) ks)) s"
proof (induction ks arbitrary: s)
  case (Cons k ks)
  have f: "fold (\<lambda>(j, _) s. fan_member W gen cap line j s) ms s = fold (fan_member W gen cap line) (map fst ms) s" for ms s
    by (induction ms arbitrary: s) auto
  have c: "sv_channels (fold (fan_member W gen cap line) js s) = sv_channels s" for js s
    by (induction js arbitrary: s) (simp_all add: fan_member_channels)
  define s' where "s' = fold (fan_member W gen cap line) (member_ids (chan_of s k)) s"
  have "chan_of s' x = chan_of s x" for x by (simp add: chan_of_def s'_def c)
  then show ?case using Cons.IH [of s'] by (simp add: f s'_def member_ids_def)
qed simp

lemma history_event_fields [simp]:
  "sv_q (server_history_event W k line sv) = sv_q sv" "sv_out (server_history_event W k line sv) = sv_out sv"
  "sv_fanout_gen (server_history_event W k line sv) = sv_fanout_gen sv" "sv_fb_cur (server_history_event W k line sv) = sv_fb_cur sv"
  "sv_channels (server_history_event W k line sv) = sv_channels sv"
  by (simp_all add: server_history_event_def Let_def server_next_msgid_def split: option.split prod.split)

lemma history_events_fields [simp]:
  "sv_q (fold (\<lambda>k s. server_history_event W k line s) ks sv) = sv_q sv" "sv_out (fold (\<lambda>k s. server_history_event W k line s) ks sv) = sv_out sv"
  "sv_fanout_gen (fold (\<lambda>k s. server_history_event W k line s) ks sv) = sv_fanout_gen sv"
  "sv_fb_cur (fold (\<lambda>k s. server_history_event W k line s) ks sv) = sv_fb_cur sv"
  "sv_channels (fold (\<lambda>k s. server_history_event W k line s) ks sv) = sv_channels sv"
  by (induction ks arbitrary: sv) simp_all

text \<open>
  A change of a client is told to everyone who shares a channel with it and has the capability,
  exactly once however many channels are shared, and never to the client itself (while no netsplit
  batch is open and the 64-bit counter has not wrapped around).
\<close>

theorem common_channels_told_once:
  assumes "reachable sv" and "i \<in> live sv" and "sv_fb_cur sv = 0"
    and "\<And>j. j \<in> live sv \<Longrightarrow> c_fanout_mark (sv_client sv j) \<noteq> sv_fanout_gen sv + 1"
  shows "\<exists>L. distinct L \<and> sv_out (server_send_common_channels W i line cap sv) = sv_out sv @ map (\<lambda>j. To j line) L \<and>
     set L = {j. j \<noteq> i \<and> (cap = 0 \<or> has (c_caps (sv_client sv j)) cap) \<and>
               (\<exists>k \<in> set (c_channels (sv_client sv i)). \<exists>c. map_of (sv_channels sv) k = Some c \<and> j \<in> set (member_ids c))}"
proof -
  define cs where "cs = c_channels (sv_client sv i)"
  define gen where "gen = sv_fanout_gen sv + 1"
  define sv1 where "sv1 = (if cap = 0 then fold (\<lambda>k s. server_history_event W k line s) cs sv else sv)"
  have f1: "sv_q sv1 = sv_q sv" "sv_out sv1 = sv_out sv" "sv_fanout_gen sv1 = sv_fanout_gen sv" "sv_fb_cur sv1 = 0" "sv_channels sv1 = sv_channels sv"
    using assms(3) by (simp_all add: sv1_def)
  define sv2 where "sv2 = sv_write i ((sv_client sv1 i)\<lparr>c_fanout_mark := gen\<rparr>) (sv1\<lparr>sv_fanout_gen := gen\<rparr>)"
  have b: "sv_fb_cur sv2 = 0" and o: "sv_out sv2 = sv_out sv" using f1 by (simp_all add: sv2_def)
  have cl: "sv_client sv2 j = (if j = i then (sv_client sv i)\<lparr>c_fanout_mark := gen\<rparr> else sv_client sv j)" for j
    by (simp add: sv2_def f1)
  have ch: "chan_of sv2 k = chan_of sv k" for k by (simp add: sv2_def chan_of_def f1)
  let ?js = "concat (map (\<lambda>k. member_ids (chan_of sv k)) cs)"
  obtain L where L: "distinct L" "sv_out (fold (fan_member W gen cap line) ?js sv2) = sv_out sv2 @ map (\<lambda>j. To j line) L"
    "set L = {j \<in> set ?js. c_fanout_mark (sv_client sv2 j) \<noteq> gen \<and> (cap = 0 \<or> has (c_caps (sv_client sv2 j)) cap)}"
    using fan_members_once [OF b, of ?js gen cap W line] by blast
  have e: "server_send_common_channels W i line cap sv = fold (fan_member W gen cap line) ?js sv2"
    unfolding server_send_common_channels_def Let_def cs_def [symmetric] sv1_def [symmetric] f1(3) gen_def [symmetric]
      sv2_def [symmetric] fan_flat ch by (rule refl)
  have known: "map_of (sv_channels sv) k = Some (chan_of sv k)" if "k \<in> set cs" for k
  proof -
    have "channels_ok sv" using reachable_ok [OF assms(1)] by (simp add: server_ok_def)
    from channels_okD(4) [OF this assms(2), of k] that show ?thesis by (auto simp: cs_def chan_of_def)
  qed
  have "j \<in> live sv" if "k \<in> set cs" "j \<in> set (member_ids (chan_of sv k))" for j k
    using channels_okD(2) [OF _ known [OF that(1)]] that(2) reachable_ok [OF assms(1)] by (auto simp: server_ok_def)
  note old = assms(4) [OF this, folded gen_def]
  have "set L = {j. j \<noteq> i \<and> (cap = 0 \<or> has (c_caps (sv_client sv j)) cap) \<and> (\<exists>k \<in> set cs. \<exists>c. map_of (sv_channels sv) k = Some c \<and> j \<in> set (member_ids c))}"
  proof -
    define A where "A = set ?js"
    have js: "A = {j. \<exists>k \<in> set cs. \<exists>c. map_of (sv_channels sv) k = Some c \<and> j \<in> set (member_ids c)}"
      unfolding A_def using known by force
    have "c_fanout_mark (sv_client sv j) \<noteq> gen" if "j \<in> A" for j using that old unfolding A_def by auto
    then have "set L = {j. j \<noteq> i \<and> (cap = 0 \<or> has (c_caps (sv_client sv j)) cap) \<and> j \<in> A}"
      unfolding L(3) cl A_def [symmetric] by auto
    then show ?thesis unfolding js mem_Collect_eq .
  qed
  then show ?thesis unfolding e using L(1,2) o by (auto simp: cs_def)
qed

section \<open>The guard against a flood of notices\<close>

text \<open>The readings in the ring, oldest first.\<close>

definition ring_times :: "snotes \<Rightarrow> int list" where
  "ring_times n = map (\<lambda>k. sn_times n ! ((sn_head n + k) mod length (sn_times n))) [0..<sn_count n]"

definition snotes_ok :: "snotes \<Rightarrow> bool" where
  "snotes_ok n \<longleftrightarrow> length (sn_times n) = 21 \<and> sn_head n < 21 \<and> sn_count n \<le> 21"

lemma ring_shift:
  assumes "length ts = 21"
  shows "map (\<lambda>k. ts ! ((Suc h mod 21 + k) mod 21)) [0..<c] = map (\<lambda>k. ts ! ((h + k) mod 21)) [1..<Suc c]"
proof -
  have "(Suc h mod 21 + k) mod 21 = (h + Suc k) mod 21" for k by presburger
  then have "map (\<lambda>k. ts ! ((Suc h mod 21 + k) mod 21)) [0..<c] = map (\<lambda>k. ts ! ((h + Suc k) mod 21)) [0..<c]" by simp
  also have "\<dots> = map (\<lambda>k. ts ! ((h + k) mod 21)) (map Suc [0..<c])" by simp
  finally show ?thesis by (simp add: map_Suc_upt)
qed

lemma ring_push:
  assumes "snotes_ok n"
  shows "snotes_ok (snote_push now n)" and "ring_times (snote_push now n) = (if sn_count n < 21 then ring_times n else tl (ring_times n)) @ [now]"
proof -
  define ts where "ts = sn_times n"
  define h where "h = sn_head n"
  define c where "c = sn_count n"
  have l: "length ts = 21" and h: "h < 21" and c: "c \<le> 21" using assms by (simp_all add: snotes_ok_def ts_def h_def c_def)
  show "snotes_ok (snote_push now n)"
    using assms by (simp add: snote_push_def Let_def snotes_ok_def)
  show "ring_times (snote_push now n) = (if sn_count n < 21 then ring_times n else tl (ring_times n)) @ [now]"
  proof (cases "c < 21")
    case True
    have "(h + k) mod 21 \<noteq> (h + c) mod 21" if "k < c" for k
      using that True mod_eq_dvd_iff_nat [of "h + k" "h + c" 21] nat_dvd_not_less [of "c - k" 21] by auto
    then have "map (\<lambda>k. ts[(h + c) mod 21 := now] ! ((h + k) mod 21)) [0..<c] = map (\<lambda>k. ts ! ((h + k) mod 21)) [0..<c]"
      using l by (intro map_cong refl nth_list_update_neq) (metis atLeastLessThan_iff set_upt)
    then show ?thesis using True l
      by (simp add: snote_push_def ring_times_def Let_def ts_def [symmetric] h_def [symmetric] c_def [symmetric])
  next
    case False
    then have c21: "c = 21" using c by simp
    have ne: "(h + k) mod 21 \<noteq> h" if "1 \<le> k" "k < 21" for k
      using that h mod_eq_dvd_iff_nat [of h "h + k" 21] nat_dvd_not_less [of k 21] by auto
    have upd: "ts[h := now] ! ((h + k) mod 21) = ts ! ((h + k) mod 21)" if "k \<in> set [1..<21]" for k
      using that ne [of k] by simp
    have sp: "[1..<Suc 21] = [1..<21] @ [21]" by (rule upt_Suc_append) simp
    have "ring_times (snote_push now n) = map (\<lambda>k. ts[h := now] ! ((Suc h mod 21 + k) mod 21)) [0..<21]"
      using c21 l by (simp add: snote_push_def ring_times_def Let_def ts_def [symmetric] h_def [symmetric] c_def [symmetric])
    also have "\<dots> = map (\<lambda>k. ts[h := now] ! ((h + k) mod 21)) [1..<Suc 21]" by (rule ring_shift) (simp add: l)
    also have "\<dots> = map (\<lambda>k. ts ! ((h + k) mod 21)) [1..<21] @ [now]"
      unfolding sp map_append using upd h l by (simp cong: map_cong)
    also have "map (\<lambda>k. ts ! ((h + k) mod 21)) [1..<21] = tl (ring_times n)"
      using c21 l unfolding ring_times_def ts_def [symmetric] h_def [symmetric] c_def [symmetric]
      by (simp add: map_tl [symmetric] tl_upt)
    finally show ?thesis using c21 by (simp add: c_def)
  qed
qed

lemma ring_expire:
  assumes "length ts = 21" and "h < 21" and "c \<le> 21" and "snote_expire now h c ts = (h', c')"
  shows "h' < 21 \<and> c' \<le> c \<and> map (\<lambda>k. ts ! ((h' + k) mod 21)) [0..<c'] =
     dropWhile (\<lambda>t. t < now - SNOTE_WINDOW) (map (\<lambda>k. ts ! ((h + k) mod 21)) [0..<c])"
  using assms
proof (induction now h c ts rule: snote_expire.induct)
  case (2 now h count ts)
  have u: "map (\<lambda>k. ts ! ((h + k) mod 21)) [0..<Suc count] = ts ! h # map (\<lambda>k. ts ! ((Suc h mod 21 + k) mod 21)) [0..<count]"
    unfolding ring_shift [OF 2(2)] using 2(3) by (simp add: upt_conv_Cons del: upt_Suc)
  show ?case
  proof (cases "ts ! h < now - SNOTE_WINDOW")
    case True
    then show ?thesis using 2 unfolding u by simp
  next
    case False
    then have "h' = h" "c' = Suc count" using 2(5) by simp_all
    then show ?thesis using False 2(3) unfolding u [symmetric] by (simp add: u del: upt_Suc)
  qed
qed simp

text \<open>The times of the notices so far that fall into the window before \<open>now\<close>.\<close>

definition in_snote_window :: "int \<Rightarrow> int list \<Rightarrow> int list" where
  "in_snote_window now past = filter (\<lambda>t. now - SNOTE_WINDOW \<le> t) past"

definition last21 :: "'a list \<Rightarrow> 'a list" where
  "last21 xs = drop (length xs - 21) xs"

lemma dropWhile_sorted: "sorted xs \<Longrightarrow> dropWhile (\<lambda>t. t < (x::int)) xs = filter (\<lambda>t. x \<le> t) xs"
proof (induction xs)
  case (Cons a xs)
  then show ?case by (auto simp: not_less intro!: filter_True [symmetric])
qed simp

lemma last21_filter:
  assumes "sorted xs"
  shows "filter (\<lambda>t. (x::int) \<le> t) (last21 xs) = last21 (filter (\<lambda>t. x \<le> t) xs)"
proof -
  define a where "a = takeWhile (\<lambda>t. t < x) xs"
  define b where "b = dropWhile (\<lambda>t. t < x) xs"
  have xs: "xs = a @ b" by (simp add: a_def b_def)
  have b: "b = filter (\<lambda>t. x \<le> t) xs" unfolding b_def by (rule dropWhile_sorted [OF assms])
  have na: "filter (\<lambda>t. x \<le> t) a' = []" if "set a' \<subseteq> set a" for a'
  proof -
    have "t < x" if "t \<in> set a" for t using that unfolding a_def by (blast dest: set_takeWhileD)
    then show ?thesis using \<open>set a' \<subseteq> set a\<close> by (force simp: filter_empty_conv)
  qed
  have bb: "filter (\<lambda>t. x \<le> t) b' = b'" if "set b' \<subseteq> set b" for b'
    using that b by (auto intro!: filter_True)
  have "filter (\<lambda>t. x \<le> t) (last21 xs) = drop (length xs - 21 - length a) b"
    unfolding last21_def using na [OF set_drop_subset] bb [OF set_drop_subset] by (simp add: xs)
  also have "\<dots> = last21 b" by (cases "length b \<le> 21") (auto simp: last21_def xs)
  finally show ?thesis using b by simp
qed

lemma last21_snoc: "last21 (xs @ [x]) = (if length xs < 21 then xs @ [x] else tl (last21 xs) @ [x])"
proof (cases "length xs < 21")
  case False
  then have "length xs - 20 = Suc (length xs - 21)" by simp
  then show ?thesis using False by (simp add: last21_def tl_drop drop_Suc)
qed (simp add: last21_def)

lemma snote_step_spec:
  assumes ok: "snotes_ok n" and s: "sorted (past @ [now])"
    and r: "ring_times n = last21 (filter (\<lambda>t. p - SNOTE_WINDOW \<le> t) past)" and p: "p \<le> now"
  shows "snotes_ok (fst (snote_step now n)) \<and> ring_times (fst (snote_step now n)) = last21 (in_snote_window now (past @ [now])) \<and>
     (snd (snote_step now n) \<noteq> None \<longleftrightarrow> length (in_snote_window now (past @ [now])) \<le> SNOTE_MAX)"
proof -
  define n1 where "n1 = snote_push now n"
  obtain h c where e: "snote_expire now (sn_head n1) (sn_count n1) (sn_times n1) = (h, c)" by fastforce
  define n2 where "n2 = n1\<lparr>sn_head := h, sn_count := c\<rparr>"
  have ok1: "snotes_ok n1" unfolding n1_def by (rule ring_push(1) [OF ok])
  define R where "R = filter (\<lambda>t. p - SNOTE_WINDOW \<le> t) past"
  have len: "length (ring_times n) = sn_count n" by (simp add: ring_times_def)
  have cR: "sn_count n < 21 \<longleftrightarrow> length R < 21" "sn_count n < 21 \<longrightarrow> last21 R = R"
    using ok r len by (auto simp: last21_def R_def snotes_ok_def)
  have ring1: "ring_times n1 = last21 (R @ [now])"
    unfolding n1_def ring_push(2) [OF ok] last21_snoc using cR r by (auto simp: R_def)
  have sR: "sorted (R @ [now])" using s by (auto simp: sorted_append R_def intro: sorted_wrt_filter)
  have s21: "sorted (last21 (R @ [now]))" unfolding last21_def by (rule sorted_wrt_drop [OF sR])
  have ex: "h < 21 \<and> c \<le> sn_count n1 \<and> ring_times n2 = dropWhile (\<lambda>t. t < now - SNOTE_WINDOW) (ring_times n1)"
    using ring_expire [OF _ _ _ e] ok1 by (simp add: snotes_ok_def ring_times_def n2_def)
  have win: "filter (\<lambda>t. now - SNOTE_WINDOW \<le> t) (R @ [now]) = in_snote_window now (past @ [now])"
    unfolding in_snote_window_def R_def using p by (auto intro!: filter_cong)
  have ring2: "ring_times n2 = last21 (in_snote_window now (past @ [now]))"
    using ex unfolding ring1 dropWhile_sorted [OF s21] last21_filter [OF sR] win by blast
  have ok2: "snotes_ok n2" using ok1 ex by (simp add: snotes_ok_def n2_def)
  have "length (ring_times n2) = c" by (simp add: ring_times_def n2_def)
  then have c: "c = min 21 (length (in_snote_window now (past @ [now])))" unfolding ring2 by (auto simp: last21_def)
  have st: "snote_step now n = (if c > SNOTE_MAX then (n2\<lparr>sn_suppressed := sn_suppressed n2 + 1\<rparr>, None)
         else (n2\<lparr>sn_suppressed := 0\<rparr>, Some (sn_suppressed n2)))"
    by (simp add: snote_step_def Let_def n1_def [symmetric] e n2_def)
  have rt: "ring_times (n2\<lparr>sn_suppressed := x\<rparr>) = ring_times n2" "snotes_ok (n2\<lparr>sn_suppressed := x\<rparr>) = snotes_ok n2" for x
    by (simp_all add: ring_times_def snotes_ok_def)
  show ?thesis unfolding st using ok2 ring2 c rt by (auto simp: SNOTE_MAX_def)
qed

text \<open>Which of the notices at the given times are delivered.\<close>

fun snote_run :: "int list \<Rightarrow> snotes \<Rightarrow> bool list" where
  "snote_run [] n = []"
| "snote_run (now # ts) n = (let (n1, held) = snote_step now n in (held \<noteq> None) # snote_run ts n1)"

definition snotes_start :: snotes where
  "snotes_start = \<lparr>sn_times = replicate 21 0, sn_head = 0, sn_count = 0, sn_suppressed = 0\<rparr>"

text \<open>
  C15. The ring of 21 readings decides as an unbounded list of all readings would, which is what
  server.h says of it: of notices at any nondecreasing times, one is delivered exactly when at most
  20 were asked for, itself included, in the five seconds up to it.
\<close>

theorem snote_ring_matches_list:
  assumes "sorted ts"
  shows "snote_run ts snotes_start = map (\<lambda>k. length (in_snote_window (ts ! k) (take (Suc k) ts)) \<le> SNOTE_MAX) [0..<length ts]"
proof -
  have run: "snote_run ts n = map (\<lambda>k. length (in_snote_window (ts ! k) (past @ take (Suc k) ts)) \<le> SNOTE_MAX) [0..<length ts]"
    if "snotes_ok n" "sorted (past @ ts)" "ring_times n = last21 (filter (\<lambda>t. p - SNOTE_WINDOW \<le> t) past)" "ts \<noteq> [] \<longrightarrow> p \<le> hd ts" for n past p
    using that
  proof (induction ts arbitrary: n past p)
    case (Cons now ts)
    have s: "sorted (past @ [now])" "sorted ((past @ [now]) @ ts)" using Cons.prems(2) by (auto simp: sorted_append)
    note st = snote_step_spec [OF Cons.prems(1) s(1) Cons.prems(3)]
    have "p \<le> now" using Cons.prems(4) by simp
    note st = st [OF this]
    have h: "ts \<noteq> [] \<longrightarrow> now \<le> hd ts" using Cons.prems(2) by (cases ts) (auto simp: sorted_append)
    have "snote_run ts (fst (snote_step now n)) =
        map (\<lambda>k. length (in_snote_window (ts ! k) ((past @ [now]) @ take (Suc k) ts)) \<le> SNOTE_MAX) [0..<length ts]"
      using st s(2) h by (intro Cons.IH [of _ "past @ [now]" now]) (simp_all add: in_snote_window_def)
    then show ?case using st
      by (simp add: split_def Let_def map_upt_Suc del: upt_Suc take_Suc_Cons) simp
  qed simp
  have "ring_times snotes_start = []" "snotes_ok snotes_start" by (simp_all add: ring_times_def snotes_start_def snotes_ok_def)
  then show ?thesis using run [of snotes_start "[]" "if ts = [] then 0 else hd ts"] assms by (simp add: last21_def)
qed

theorem snote_ring_matches_list_witness:
  "snote_run (replicate 22 0 @ [5000000001]) snotes_start ! 20 = False \<and> snote_run (replicate 22 0 @ [5000000001]) snotes_start ! 22"
proof -
  have "sorted (replicate 22 0 @ [5000000001 :: int])" by (simp add: sorted_append)
  from snote_ring_matches_list [OF this] show ?thesis
    by (simp add: in_snote_window_def SNOTE_WINDOW_def SNOTE_MAX_def nth_append)
qed

section \<open>A small run\<close>

text \<open>Two clients come, the first takes a nick and makes a channel, both join it and the first is hung up.\<close>

definition demo_world :: world where
  "demo_world =
     \<lparr>w_cfg = \<lparr>sc_name = ''irc.example'', sc_network = ''Example'', sc_default_modes = ''nt'', sc_ip6_prefix = 64,
               sc_history_size = 0, sc_history_events = False, sc_msgid_prefix = ''m''\<rparr>,
      w_inet = demo_inet, w_now = 100, w_ms = 100000, w_mono = 5\<rparr>"

definition demo_come :: "client_id \<Rightarrow> server \<Rightarrow> server" where
  "demo_come i = server_add_connection demo_world i \<circ> new_client i ((client_new 5 0)\<lparr>c_ip := ''10.0.0.1'', c_conn_id := word_of_nat i\<rparr>)"

definition demo_come2 :: server where "demo_come2 = rekey_nick 1 ''Ann'' (demo_come 2 (demo_come 1 empty_server))"

definition demo_made :: server where "demo_made = snd (server_get_or_create_channel demo_world ''#Den'' demo_come2)"

definition demo_met :: server where "demo_met = join_channel 2 ''#den'' (join_channel 1 ''#den'' demo_made)"

definition demo_hung :: server where "demo_hung = demo_met\<lparr>sv_q := client_mark_quit 1 (sv_q demo_met)\<rparr>"

lemma demo_come_step: "i \<notin> live sv \<Longrightarrow> reachable sv \<Longrightarrow> reachable (demo_come i sv)"
  unfolding demo_come_def comp_def
  by (rule reachable.step, assumption, rule server_step.accept) (auto simp: fresh_client_def client_new_def)

lemma demo_key: "server_ip_key demo_world ''10.0.0.1'' = ''10.0.0.1''" by code_simp

lemmas demo_ops = server_add_connection_def rekey_nick_def join_channel_def server_attach_membership_def set_chan_def
  server_add_user_def client_mark_dirty_def client_mark_quit_def sv_write_def ev_write_def ev_client_def new_client_def Let_def client_new_def

lemma demo_come_fields:
  "live (demo_come i sv) = insert i (live sv)" "sv_users (demo_come i sv) = sv_users sv"
  "sv_channels (demo_come i sv) = sv_channels sv" "sv_ip_counts (demo_come i sv) = ip_count_inc ''10.0.0.1'' (sv_ip_counts sv)"
  "ev_dead (sv_q (demo_come i sv)) = ev_dead (sv_q sv)" "sv_fb_cur (demo_come i sv) = sv_fb_cur sv"
  "sv_fanout_gen (demo_come i sv) = sv_fanout_gen sv"
  "j \<noteq> i \<Longrightarrow> sv_client (demo_come i sv) j = sv_client sv j"
  "c_fd (sv_client (demo_come i sv) i) = 5" "c_dead_q (sv_client (demo_come i sv) i) = False"
  "c_fanout_mark (sv_client (demo_come i sv) i) = 0" "c_casefold_nick (sv_client (demo_come i sv) i) = []"
  "c_channels (sv_client (demo_come i sv) i) = []"
  unfolding demo_come_def comp_def by (simp_all add: demo_ops live_def demo_key)

lemma empty_fields: "live empty_server = {}" "sv_users empty_server = []" "sv_channels empty_server = []" "sv_ip_counts empty_server = []"
  "ev_dead (sv_q empty_server) = []" "sv_fb_cur empty_server = 0" "sv_fanout_gen empty_server = 0"
  by (simp_all add: empty_server_def live_def)

lemma demo_come2_fields:
  "live demo_come2 = {1, 2}" "sv_users demo_come2 = [(''ann'', 1)]"
  "sv_channels demo_come2 = []" "sv_ip_counts demo_come2 = [(''10.0.0.1'', 2)]"
  "ev_dead (sv_q demo_come2) = []" "sv_fb_cur demo_come2 = 0" "sv_fanout_gen demo_come2 = 0"
  "i \<in> {1, 2} \<Longrightarrow> c_fd (sv_client demo_come2 i) = 5" "i \<in> {1, 2} \<Longrightarrow> c_dead_q (sv_client demo_come2 i) = False"
  "i \<in> {1, 2} \<Longrightarrow> c_fanout_mark (sv_client demo_come2 i) = 0" "i \<in> {1, 2} \<Longrightarrow> c_channels (sv_client demo_come2 i) = []"
proof -
  have c: "irc_casefold NICKLEN ''Ann'' = ''ann''" by code_simp
  have lv: "live (sv\<lparr>sv_users := u, sv_max_users := m\<rparr>) = live sv" for sv u m by (simp add: live_def)
  show "live demo_come2 = {1, 2}" "sv_users demo_come2 = [(''ann'', 1)]"
    "sv_channels demo_come2 = []" "sv_ip_counts demo_come2 = [(''10.0.0.1'', 2)]"
    "ev_dead (sv_q demo_come2) = []" "sv_fb_cur demo_come2 = 0" "sv_fanout_gen demo_come2 = 0"
    "i \<in> {1, 2} \<Longrightarrow> c_fd (sv_client demo_come2 i) = 5" "i \<in> {1, 2} \<Longrightarrow> c_dead_q (sv_client demo_come2 i) = False"
    "i \<in> {1, 2} \<Longrightarrow> c_fanout_mark (sv_client demo_come2 i) = 0" "i \<in> {1, 2} \<Longrightarrow> c_channels (sv_client demo_come2 i) = []"
    unfolding demo_come2_def rekey_nick_def Let_def c server_add_user_def
    by (auto simp: demo_come_fields empty_fields ip_count_inc_def lv)
qed

lemma demo_come2_reachable: "reachable demo_come2"
proof -
  have "reachable (demo_come 2 (demo_come 1 empty_server))" 
    by (intro demo_come_step reachable.start) (simp_all add: demo_come_fields empty_fields)
  moreover have "1 \<in> live (demo_come 2 (demo_come 1 empty_server))" "irc_casefold NICKLEN ''Ann'' \<noteq> []"
    "map_of (sv_users (demo_come 2 (demo_come 1 empty_server))) (irc_casefold NICKLEN ''Ann'') = None" 
    by (simp_all add: demo_come_fields empty_fields) code_simp
  ultimately show ?thesis unfolding demo_come2_def by (blast intro: reachable.step server_step.nick)
qed

lemma demo_made_fields:
  "sv_q demo_made = sv_q demo_come2" "sv_users demo_made = sv_users demo_come2"
  "sv_ip_counts demo_made = sv_ip_counts demo_come2" "sv_fb_cur demo_made = sv_fb_cur demo_come2"
  "sv_fanout_gen demo_made = sv_fanout_gen demo_come2" "map fst (sv_channels demo_made) = [''#den'']"
  "member_ids (chan_of demo_made ''#den'') = []"
proof -
  have c: "irc_casefold CHAN_NAMELEN ''#Den'' = ''#den''" by code_simp
  show "sv_q demo_made = sv_q demo_come2" "sv_users demo_made = sv_users demo_come2"
    "sv_ip_counts demo_made = sv_ip_counts demo_come2" "sv_fb_cur demo_made = sv_fb_cur demo_come2"
    "sv_fanout_gen demo_made = sv_fanout_gen demo_come2" "map fst (sv_channels demo_made) = [''#den'']"
    "member_ids (chan_of demo_made ''#den'') = []"
    by (simp_all add: demo_made_def server_get_or_create_channel_def server_find_channel_def Let_def c demo_come2_fields
        chan_of_def member_ids_def channel_new_def)
qed

lemma demo_made_reachable: "reachable demo_made"
  unfolding demo_made_def by (blast intro: reachable.step server_step.create demo_come2_reachable)

lemma demo_join_step:
  assumes "reachable sv" and "i \<in> live sv" and "map_of (sv_channels sv) k \<noteq> None" and "i \<notin> set (member_ids (chan_of sv k))"
  shows "reachable (join_channel i k sv)"
proof -
  from assms(3) obtain c where "map_of (sv_channels sv) k = Some c" by auto
  then show ?thesis using assms by (intro reachable.step [OF assms(1)] server_step.join) (auto simp: chan_of_def)
qed

lemma live_chan: "live (sv\<lparr>sv_channels := X\<rparr>) = live sv" "sv_client (sv\<lparr>sv_channels := X\<rparr>) j = sv_client sv j"
  by (simp_all add: live_def)

lemma demo_join_fields:
  assumes "i \<in> live sv" and "map_of (sv_channels sv) k \<noteq> None" and "i \<notin> set (member_ids (chan_of sv k))"
  shows "live (join_channel i k sv) = live sv" "map fst (sv_channels (join_channel i k sv)) = map fst (sv_channels sv)"
    "member_ids (chan_of (join_channel i k sv) k) = member_ids (chan_of sv k) @ [i]"
    "c_channels (sv_client (join_channel i k sv) i) = k # c_channels (sv_client sv i)"
    "c_fanout_mark (sv_client (join_channel i k sv) j) = c_fanout_mark (sv_client sv j)"
    "c_fd (sv_client (join_channel i k sv) j) = c_fd (sv_client sv j)"
    "c_dead_q (sv_client (join_channel i k sv) j) = c_dead_q (sv_client sv j)"
    "c_count_key (sv_client (join_channel i k sv) j) = c_count_key (sv_client sv j)"
    "c_caps (sv_client (join_channel i k sv) j) = c_caps (sv_client sv j)"
    "j \<noteq> i \<Longrightarrow> c_channels (sv_client (join_channel i k sv) j) = c_channels (sv_client sv j)"
    "ev_dead (sv_q (join_channel i k sv)) = ev_dead (sv_q sv)" "sv_users (join_channel i k sv) = sv_users sv"
    "sv_ip_counts (join_channel i k sv) = sv_ip_counts sv" "sv_fb_cur (join_channel i k sv) = sv_fb_cur sv"
    "sv_fanout_gen (join_channel i k sv) = sv_fanout_gen sv"
  using assms
  by (simp_all add: join_channel_def server_attach_membership_def Let_def set_chan_def chan_of_def map_of_update member_ids_add
      keys_update_in map_of_eq_None_iff live_chan)

lemma demo_met_facts:
  "reachable demo_met \<and> live demo_met = {1, 2} \<and> map fst (sv_channels demo_met) = [''#den''] \<and>
   member_ids (chan_of demo_met ''#den'') = [1, 2] \<and> sv_users demo_met = [(''ann'', 1)] \<and>
   sv_ip_counts demo_met = [(''10.0.0.1'', 2)] \<and> ev_dead (sv_q demo_met) = [] \<and> sv_fb_cur demo_met = 0 \<and> sv_fanout_gen demo_met = 0 \<and>
   (\<forall>j \<in> {1, 2}. c_fanout_mark (sv_client demo_met j) = 0) \<and>
   c_fd (sv_client demo_met 1) = 5 \<and> \<not> c_dead_q (sv_client demo_met 1) \<and> c_channels (sv_client demo_met 1) = [''#den'']"
proof -
  note f = demo_made_fields
  have q: "live demo_made = live demo_come2" by (simp add: live_def f)
  have k: "map_of (sv_channels sv) ''#den'' \<noteq> None" if "map fst (sv_channels sv) = [''#den'']" for sv
    using that by (simp add: map_of_eq_None_iff flip: set_map)
  let ?j = "join_channel 1 ''#den'' demo_made"
  have 1: "1 \<in> live demo_made" "1 \<notin> set (member_ids (chan_of demo_made ''#den''))" by (simp_all add: q f demo_come2_fields)
  note j1 = demo_join_fields [OF 1(1) k [OF f(6)] 1(2)]
  have 2: "2 \<in> live ?j" "2 \<notin> set (member_ids (chan_of ?j ''#den''))" unfolding j1 by (simp_all add: q f demo_come2_fields)
  have k2: "map fst (sv_channels ?j) = [''#den'']" unfolding j1 by (simp add: f)
  note j2 = demo_join_fields [OF 2(1) k [OF k2] 2(2), folded demo_met_def]
  have "reachable demo_met" unfolding demo_met_def
    by (intro demo_join_step demo_made_reachable 1 2 k f k2)
  then show ?thesis using j1(4) j2(10) [of 1] unfolding j2 j1 by (simp add: q f demo_come2_fields)
qed

lemma demo_hung_facts: "reachable demo_hung" "live demo_hung = {1, 2}" "ev_dead (sv_q demo_hung) = [1]" "sv_users demo_hung = [(''ann'', 1)]"
proof -
  note f = demo_met_facts
  have i: "1 \<in> live demo_met" using f by simp
  then show "reachable demo_hung" unfolding demo_hung_def using f by (blast intro: reachable.step server_step.quit)
  show "live demo_hung = {1, 2}" using mark_quit_ok(2) [OF reachable_ok i] f by (simp add: demo_hung_def)
  show "ev_dead (sv_q demo_hung) = [1]" "sv_users demo_hung = [(''ann'', 1)]"
    using f by (simp_all add: demo_hung_def client_mark_quit_def Let_def)
qed

theorem no_dangling_clients_witness:
  "snd ` set (sv_users demo_hung) \<subseteq> live demo_hung \<and> snd ` set (sv_users demo_hung) = {1}"
  using no_dangling_clients [OF demo_hung_facts(1)] demo_hung_facts(4) by simp

theorem reap_removes_everywhere_witness:
  "live (reap_one demo_world demo_hung) = {2} \<and> map_of (sv_users (reap_one demo_world demo_hung)) ''ann'' \<noteq> Some 1"
  using reap_removes_everywhere [OF demo_hung_facts(1,3), of demo_world] demo_hung_facts(2) by (simp add: Let_def)

theorem ip_count_exact_witness:
  "card {i \<in> live demo_met. c_fd (sv_client demo_met i) \<ge> 0 \<and> c_count_key (sv_client demo_met i) = server_ip_key demo_world ''10.0.0.1''} = 2"
proof -
  have "server_ip_count demo_world ''10.0.0.1'' demo_met = 2"
    using demo_met_facts by (simp add: server_ip_count_def demo_key)
  then show ?thesis using ip_count_exact [of demo_met demo_world "''10.0.0.1''"] demo_met_facts by simp
qed

theorem common_channels_told_once_witness:
  "sv_out (server_send_common_channels demo_world 1 ''x'' 0 demo_met) = sv_out demo_met @ [To 2 ''x'']"
proof -
  note f = demo_met_facts
  have m: "c_fanout_mark (sv_client demo_met j) \<noteq> sv_fanout_gen demo_met + 1" if "j \<in> live demo_met" for j
    using f that by auto
  have k: "map_of (sv_channels demo_met) ''#den'' = Some (chan_of demo_met ''#den'')"
    using f by (auto simp: chan_of_def map_eq_Cons_conv)
  have s: "{j. j \<noteq> 1 \<and> ((0::flags) = 0 \<or> has (c_caps (sv_client demo_met j)) 0) \<and> (\<exists>k \<in> set (c_channels (sv_client demo_met 1)).
       \<exists>c. map_of (sv_channels demo_met) k = Some c \<and> j \<in> set (member_ids c))} = {2}"
    using f k by auto
  obtain L where L: "distinct L" "set L = {2}"
      "sv_out (server_send_common_channels demo_world 1 ''x'' 0 demo_met) = sv_out demo_met @ map (\<lambda>j. To j ''x'') L"
    using common_channels_told_once [of demo_met 1 demo_world "''x''" 0] f m unfolding s by auto
  then have "L = [2]" by (metis distinct_card card_1_singleton_iff length_0_conv length_Suc_conv list.simps(15) set_empty singleton_inject insert_iff
      One_nat_def is_singletonI is_singleton_altdef)
  then show ?thesis using L by simp
qed

end
