(* ===== verification/Tsmerge.thy ===== *)
theory Tsmerge
  imports Client
begin

text \<open>
  Channels between linked servers (src/src/netsync.c): how the modes, ranks, masks and topic of a
  channel are written into the lines of a burst, and how a server that has a channel of the same
  name takes them in. Which side wins is decided by the creation times. The theory is about one
  channel; theory Netsync has the handlers that look the channel and its members up.
\<close>

unbundle bit_operations_syntax

section \<open>Ranks in member lists\<close>

definition rank_prefix_all :: "flags \<Rightarrow> string" where
  "rank_prefix_all rank = channel_rank_prefix rank True"

definition rank_of_char :: "char \<Rightarrow> flags option" where
  "rank_of_char c =
     (if c = CHR ''~'' then Some (RANK_OWNER OR RANK_OP) else if c = CHR ''&'' then Some (RANK_ADMIN OR RANK_OP)
      else if c = CHR ''@'' then Some RANK_OP else if c = CHR ''%'' then Some RANK_HALFOP
      else if c = CHR ''+'' then Some RANK_VOICE else None)"

fun rank_loop :: "flags \<Rightarrow> string \<Rightarrow> flags \<times> string" where
  "rank_loop rank [] = (rank, [])"
| "rank_loop rank (c # s) = (case rank_of_char c of Some b \<Rightarrow> rank_loop (rank OR b) s | None \<Rightarrow> (rank, c # s))"

text \<open>The rank and the text behind its prefixes.\<close>

definition rank_from_prefix :: "string \<Rightarrow> flags \<times> string" where
  "rank_from_prefix s = rank_loop 0 s"

section \<open>Modes\<close>

text \<open>\<open>atoi\<close> is \<open>strtol\<close> cut to an \<open>int\<close>, \<open>scan_pair\<close> is \<open>sscanf(a, "\%d:\%d", ...) == 2\<close>.\<close>

definition int32 :: "int \<Rightarrow> int" where
  "int32 i = sint (word_of_int i :: 32 word)"

definition atoi :: "string \<Rightarrow> int" where
  "atoi s = int32 (atol s)"

definition scan_pair :: "string \<Rightarrow> (int \<times> int) option" where
  "scan_pair a =
     (case strtol a of
        None \<Rightarrow> None
      | Some (n, e) \<Rightarrow>
          if take 1 e \<noteq> '':'' then None
          else (case strtol (drop 1 e) of None \<Rightarrow> None | Some (s, _) \<Rightarrow> Some (int32 n, int32 s)))"

definition CHAN_KEYLEN :: nat where "CHAN_KEYLEN = 64"

definition state_param :: "char \<Rightarrow> string \<Rightarrow> channel \<Rightarrow> channel" where
  "state_param c a chan =
     (if c = CHR ''k'' then chan\<lparr>ch_key := clip CHAN_KEYLEN a, ch_modes := ch_modes chan OR CMODE_K\<rparr>
      else if c = CHR ''l'' then
        (let n = atoi a in chan\<lparr>ch_limit := n, ch_modes := (if n > 0 then ch_modes chan OR CMODE_L else ch_modes chan)\<rparr>)
      else if c = CHR ''f'' then (case channel_set_flood chan a of Some c2 \<Rightarrow> c2 | None \<Rightarrow> chan)
      else if c = CHR ''j'' then
        (case scan_pair a of
           Some (n, s) \<Rightarrow> chan\<lparr>ch_jt_joins := n, ch_jt_secs := s, ch_modes := ch_modes chan OR CMODE_JTHROT\<rparr>
         | None \<Rightarrow> chan)
      else if c = CHR ''L'' then chan\<lparr>ch_redirect := clip CHAN_NAMELEN a, ch_modes := ch_modes chan OR CMODE_REDIRECT\<rparr>
      else chan)"

fun state_loop :: "string \<Rightarrow> string list \<Rightarrow> channel \<Rightarrow> channel" where
  "state_loop [] args chan = chan"
| "state_loop (c # cs) args chan =
     (if c = CHR ''+'' \<or> c = CHR ''-'' then state_loop cs args chan
      else if channel_flag_bit c \<noteq> 0 then state_loop cs args (chan\<lparr>ch_modes := ch_modes chan OR channel_flag_bit c\<rparr>)
      else case args of
        [] \<Rightarrow> chan
      | a # args2 \<Rightarrow> state_loop cs args2 (state_param c a chan))"

definition clear_modes :: "channel \<Rightarrow> channel" where
  "clear_modes chan =
     (channel_clear_flood (chan\<lparr>ch_modes := 0, ch_key := [], ch_limit := 0, ch_jt_joins := 0, ch_jt_secs := 0\<rparr>))\<lparr>ch_redirect := []\<rparr>"

definition set_state_modes :: "channel \<Rightarrow> string \<Rightarrow> string list \<Rightarrow> bool \<Rightarrow> channel" where
  "set_state_modes chan modes args replace = state_loop modes args (if replace then clear_modes chan else chan)"

section \<open>The decision by creation time\<close>

text \<open>
  What is left of a channel that lost the comparison: no ranks and no masks. The modes and the
  parameters are replaced right after. \<open>gen++\<close> is that of the three lists.
\<close>

definition bump_free :: "masklist \<Rightarrow> masklist" where
  "bump_free ml = (let f = masklist_free ml in f\<lparr>ml_gen := ml_gen f + 1\<rparr>)"

definition reset_channel :: "channel \<Rightarrow> channel" where
  "reset_channel chan =
     chan\<lparr>ch_members := map (\<lambda>(i, m). (i, m\<lparr>mb_rank := 0\<rparr>)) (ch_members chan),
          ch_bans := bump_free (ch_bans chan), ch_exceptions := bump_free (ch_exceptions chan),
          ch_invex := bump_free (ch_invex chan)\<rparr>"

text \<open>
  An SJOIN meets a channel that is known: the channel after it, whether the ranks of the arriving
  members count, and what ChanServ is asked to look at (1: everybody, 2: the ranks that arrive).
\<close>

definition sjoin_modes :: "int \<Rightarrow> string \<Rightarrow> string list \<Rightarrow> channel \<Rightarrow> channel \<times> bool \<times> nat" where
  "sjoin_modes ts modes args chan =
     (if ts < ch_created chan then (set_state_modes ((reset_channel chan)\<lparr>ch_created := ts\<rparr>) modes args True, True, 1)
      else if ts = ch_created chan then (set_state_modes chan modes args False, True, 2)
      else (chan, False, 0))"

definition sjoin_new :: "int \<Rightarrow> string \<Rightarrow> string list \<Rightarrow> channel \<Rightarrow> channel" where
  "sjoin_new ts modes args chan = set_state_modes (chan\<lparr>ch_modes := 0, ch_created := ts\<rparr>) modes args True"

definition sjoin_member :: "bool \<Rightarrow> client_id \<times> flags \<Rightarrow> channel \<Rightarrow> channel" where
  "sjoin_member keep ir chan =
     (case ir of (i, rank) \<Rightarrow>
        if channel_find_member chan i \<noteq> None then chan
        else set_member (channel_add_member chan i) i (new_member\<lparr>mb_rank := (if keep then rank else 0)\<rparr>))"

definition bmask_list :: "char \<Rightarrow> channel \<Rightarrow> masklist option" where
  "bmask_list kind chan =
     (if kind = CHR ''b'' then Some (ch_bans chan) else if kind = CHR ''e'' then Some (ch_exceptions chan)
      else if kind = CHR ''I'' then Some (ch_invex chan) else None)"

definition set_bmask_list :: "char \<Rightarrow> masklist \<Rightarrow> channel \<Rightarrow> channel" where
  "set_bmask_list kind ml chan =
     (if kind = CHR ''b'' then chan\<lparr>ch_bans := ml\<rparr> else if kind = CHR ''e'' then chan\<lparr>ch_exceptions := ml\<rparr>
      else chan\<lparr>ch_invex := ml\<rparr>)"

definition bmask_merge :: "int \<Rightarrow> int \<Rightarrow> char \<Rightarrow> string list \<Rightarrow> channel \<Rightarrow> channel" where
  "bmask_merge now ts kind masks chan =
     (if ts \<le> ch_created chan then
        (case bmask_list kind chan of
           None \<Rightarrow> chan
         | Some ml \<Rightarrow> set_bmask_list kind (fold (\<lambda>m l. snd (masklist_add now m l)) masks ml) chan)
      else chan)"

definition TOPIC_MAX_LEN :: nat where "TOPIC_MAX_LEN = 307"

text \<open>\<open>strcmp\<close> on the topics: 0, or the sign of the first difference (bytes are unsigned there).\<close>

fun strcmp_sign :: "string \<Rightarrow> string \<Rightarrow> int" where
  "strcmp_sign [] [] = 0"
| "strcmp_sign [] (d # t) = - 1"
| "strcmp_sign (c # s) [] = 1"
| "strcmp_sign (c # s) (d # t) = (if c = d then strcmp_sign s t else if byte c < byte d then - 1 else 1)"

definition topic_wins :: "int \<Rightarrow> string \<Rightarrow> channel \<Rightarrow> bool" where
  "topic_wins ts text chan =
     (let cmp = strcmp_sign text (ch_topic chan)
      in cmp \<noteq> 0 \<and> (ch_topic chan = [] \<or> ts > ch_topic_time chan \<or> (ts = ch_topic_time chan \<and> cmp > 0)))"

definition tb_merge :: "int \<Rightarrow> string \<Rightarrow> string \<Rightarrow> channel \<Rightarrow> channel" where
  "tb_merge ts setter text chan =
     (if topic_wins ts text chan
      then chan\<lparr>ch_topic := clip 512 (take TOPIC_MAX_LEN text), ch_topic_setter := clip 128 setter, ch_topic_time := ts\<rparr>
      else chan)"

section \<open>What a burst says of a channel\<close>

text \<open>The tokens of the mode string: the letters first, then at most nine arguments.\<close>

definition burst_modes :: "channel \<Rightarrow> string list" where
  "burst_modes chan = take 10 (strtok (\<lambda>c. c = SP) (channel_modes_string chan 360))"

definition member_token :: "flags \<Rightarrow> string \<Rightarrow> string" where
  "member_token rank uid = clip 24 (rank_prefix_all rank @ uid)"

text \<open>The members of a channel, or the masks of a list, in the texts of several lines.\<close>

definition add_token :: "nat \<Rightarrow> string \<Rightarrow> string \<Rightarrow> string" where
  "add_token sz acc tok =
     (let acc2 = (if acc \<noteq> [] then acc @ take (sz - length acc - 1) '' '' else acc)
      in acc2 @ take (sz - length acc2 - 1) tok)"

definition token_full :: "nat \<Rightarrow> string \<Rightarrow> string \<Rightarrow> bool" where
  "token_full sz acc tok \<longleftrightarrow> length acc + length tok + 2 \<ge> sz"

primrec chunk_tokens :: "nat \<Rightarrow> string list \<Rightarrow> string \<Rightarrow> string list" where
  "chunk_tokens sz [] acc = (if acc \<noteq> [] then [acc] else [])"
| "chunk_tokens sz (tok # toks) acc =
     (if token_full sz acc tok then acc # chunk_tokens sz toks (add_token sz [] tok)
      else chunk_tokens sz toks (add_token sz acc tok))"

section \<open>Ranks survive the wire\<close>

text \<open>A rank as the daemon keeps it: an owner or admin has op too.\<close>

definition rank_ok :: "flags \<Rightarrow> bool" where
  "rank_ok r \<longleftrightarrow> r < 32 \<and> (has r RANK_OWNER \<or> has r RANK_ADMIN \<longrightarrow> has r RANK_OP)"

lemma rank_prefix_table: "\<forall>n \<in> set [0..<32]. rank_ok (word_of_nat n) \<longrightarrow> rank_loop 0 (rank_prefix_all (word_of_nat n)) = (word_of_nat n, [])"
  by code_simp

lemma rank_loop_append: "rank_loop r p = (r2, []) \<Longrightarrow> rank_loop r (p @ s) = rank_loop r2 s"
  by (induction r p rule: rank_loop.induct) (auto split: option.splits)

lemma rank_loop_stop: "s = [] \<or> rank_of_char (hd s) = None \<Longrightarrow> rank_loop r s = (r, s)"
  by (cases s) auto

lemma rank_roundtrip:
  assumes "rank_ok r" and "s = [] \<or> rank_of_char (hd s) = None"
  shows "rank_from_prefix (rank_prefix_all r @ s) = (r, s)"
proof -
  have "r < 32" using assms(1) by (simp add: rank_ok_def)
  then have "unat r < 32" by (simp add: word_less_nat_alt)
  moreover have "r = word_of_nat (unat r)" by simp
  ultimately have "rank_loop 0 (rank_prefix_all r) = (r, [])"
    using rank_prefix_table assms(1) by (metis atLeastLessThan_iff le0 set_upt)
  then show ?thesis using rank_loop_append rank_loop_stop [OF assms(2)] by (simp add: rank_from_prefix_def)
qed

section \<open>Modes survive the wire\<close>

definition flag_mask :: flags where
  "flag_mask = fold (OR) (map snd flag_letters) 0"

definition flood_view :: "channel \<Rightarrow> int \<times> int \<times> (string \<times> int list \<times> char list \<times> int list) option" where
  "flood_view c = (ch_flood_lines c, ch_flood_secs c, map_option (\<lambda>f. (fp_spec f, fp_limit f, fp_action f, fp_unset_mins f)) (ch_fp c))"

text \<open>What the modes of a channel are: the flags and every parameter, without the counters of the moment.\<close>

definition mode_view :: "channel \<Rightarrow> flags \<times> string \<times> int \<times> string \<times> (int \<times> int \<times> (string \<times> int list \<times> char list \<times> int list) option) \<times> int \<times> int" where
  "mode_view c = (ch_modes c, ch_key c, ch_limit c, ch_redirect c, flood_view c, ch_jt_joins c, ch_jt_secs c)"

lemma single_bit_and: "(b :: flags) = push_bit k 1 \<Longrightarrow> m AND b = (if m AND b \<noteq> 0 then b else 0)"
  by (auto simp: bit_simps intro!: bit_word_eqI)

lemma flag_table: "list_all (\<lambda>(c, b). channel_flag_bit c = b \<and> b \<noteq> 0 \<and> c \<noteq> CHR ''+'' \<and> c \<noteq> CHR ''-'' \<and> c \<noteq> SP) flag_letters"
  by code_simp

lemma flag_single: "list_all (\<lambda>(c, b). \<exists>k. b = push_bit k 1) flag_letters"
proof -
  have "list_all (\<lambda>(c, b). list_ex (\<lambda>k. b = push_bit k 1) [0..<32]) flag_letters" by code_simp
  then show ?thesis by (auto simp: list_all_iff list_ex_iff)
qed

lemma fold_or: "fold (OR) bs (a :: flags) = a OR fold (OR) bs 0"
proof (induction bs arbitrary: a)
  case (Cons b bs)
  show ?case using Cons.IH [of "b OR a"] Cons.IH [of b] by (simp add: ac_simps)
qed simp

lemma state_loop_letters:
  assumes "set L \<subseteq> set flag_letters"
  shows "state_loop (map fst (filter (\<lambda>(c, b). has m b) L) @ cs) args chan =
     state_loop cs args (chan\<lparr>ch_modes := ch_modes chan OR (m AND fold (OR) (map snd L) 0)\<rparr>)"
  using assms
proof (induction L arbitrary: chan)
  case (Cons e L)
  obtain c b where e: "e = (c, b)" by (cases e)
  have t: "channel_flag_bit c = b" "b \<noteq> 0" "c \<noteq> CHR ''+''" "c \<noteq> CHR ''-''"
    using flag_table Cons.prems e by (auto simp: list_all_iff)
  obtain k where k: "b = push_bit k 1" using flag_single Cons.prems e by (auto simp: list_all_iff)
  have f: "fold (OR) (map snd (e # L)) 0 = b OR fold (OR) (map snd L) 0"
    using fold_or [of "map snd L" b] by (simp add: e)
  have mb: "m AND b = (if has m b then b else 0)" using single_bit_and [OF k] .
  have l: "set L \<subseteq> set flag_letters" using Cons.prems by simp
  show ?case
  proof (cases "has m b")
    case True
    with mb have "m AND b = b" by simp
    then have "m AND (b OR x) = b OR (m AND x)" for x by (simp add: bit.conj_disj_distrib)
    then show ?thesis unfolding f using Cons.IH [OF l] t True by (simp add: e or.assoc)
  next
    case False
    then have "m AND (b OR x) = m AND x" for x by (simp add: bit.conj_disj_distrib)
    then show ?thesis unfolding f using Cons.IH [OF l] False by (simp add: e)
  qed
qed simp

lemma state_loop_flags:
  "state_loop (flag_string m @ cs) args chan = state_loop cs args (chan\<lparr>ch_modes := ch_modes chan OR (m AND flag_mask)\<rparr>)"
  unfolding flag_string_def flag_mask_def by (rule state_loop_letters) simp

subsection \<open>The mode string\<close>

definition flood_ok :: "channel \<Rightarrow> bool" where
  "flood_ok c \<longleftrightarrow> (if has (ch_modes c) CMODE_FLOOD
      then \<exists>c0 p c1. channel_set_flood c0 p = Some c1 \<and> flood_view c1 = flood_view c
      else flood_view c = (0, 0, None))"

definition PARAM_MODES :: flags where
  "PARAM_MODES = CMODE_K OR CMODE_L OR CMODE_REDIRECT OR CMODE_FLOOD OR CMODE_JTHROT"

text \<open>
  The modes of a channel as the MODE command leaves them: a parameter mode is set exactly when its
  parameter is there, and the parameters are in their ranges.
\<close>

definition modes_ok :: "channel \<Rightarrow> bool" where
  "modes_ok c \<longleftrightarrow> ch_modes c AND NOT (flag_mask OR PARAM_MODES) = 0 \<and>
     (has (ch_modes c) CMODE_K \<longleftrightarrow> ch_key c \<noteq> []) \<and> length (ch_key c) < 64 \<and> SP \<notin> set (ch_key c) \<and>
     (has (ch_modes c) CMODE_L \<longleftrightarrow> ch_limit c \<noteq> 0) \<and> 0 \<le> ch_limit c \<and> ch_limit c < 2 ^ 31 \<and>
     (has (ch_modes c) CMODE_REDIRECT \<longleftrightarrow> ch_redirect c \<noteq> []) \<and> length (ch_redirect c) \<le> 50 \<and> SP \<notin> set (ch_redirect c) \<and>
     (has (ch_modes c) CMODE_JTHROT \<longleftrightarrow> ch_jt_joins c \<noteq> 0) \<and> 0 \<le> ch_jt_joins c \<and> ch_jt_joins c \<le> 100 \<and>
     (if ch_jt_joins c = 0 then ch_jt_secs c = 0 else 1 \<le> ch_jt_secs c \<and> ch_jt_secs c \<le> 600) \<and> flood_ok c"

definition mode_letters :: "channel \<Rightarrow> string" where
  "mode_letters c = flag_string (ch_modes c) @ (if has (ch_modes c) CMODE_K then ''k'' else []) @
     (if has (ch_modes c) CMODE_L then ''l'' else []) @ (if has (ch_modes c) CMODE_REDIRECT then ''L'' else []) @
     (if has (ch_modes c) CMODE_FLOOD then ''f'' else []) @ (if has (ch_modes c) CMODE_JTHROT then ''j'' else [])"

definition mode_args :: "channel \<Rightarrow> string list" where
  "mode_args c = (if has (ch_modes c) CMODE_K then [ch_key c] else []) @
     (if has (ch_modes c) CMODE_L then [show_int (ch_limit c)] else []) @
     (if has (ch_modes c) CMODE_REDIRECT then [ch_redirect c] else []) @
     (if has (ch_modes c) CMODE_FLOOD then [channel_flood_param c 99] else []) @
     (if has (ch_modes c) CMODE_JTHROT then [show_int (ch_jt_joins c) @ '':'' @ show_int (ch_jt_secs c)] else [])"

lemma length_show_int: "0 \<le> v \<Longrightarrow> v < 10 ^ k \<Longrightarrow> 0 < k \<Longrightarrow> length (show_int v) \<le> k"
  using length_show_nat [of "nat v" k] by (simp add: show_int_def nat_less_iff)

text \<open>What passes the line builder as a parameter unchanged: no separator in it and no colon in front.\<close>

definition wire_safe :: "string \<Rightarrow> bool" where
  "wire_safe a \<longleftrightarrow> a \<noteq> [] \<and> hd a \<noteq> CHR '':'' \<and> set a \<inter> {SP, CR, LF} = {}"

lemma wire_safe_mid: "wire_safe a \<Longrightarrow> length a < 512 \<Longrightarrow> mid_param a = a"
proof -
  assume a: "wire_safe a" "length a < 512"
  then have "irc_escape 512 a = a" by (intro irc_escape_id) (auto simp: wire_safe_def)
  moreover have "map (\<lambda>c. if c = SP then CHR ''_'' else c) a = a" using a(1) by (intro map_idI) (auto simp: wire_safe_def)
  ultimately show ?thesis using a(1) by (simp add: mid_param_def wire_safe_def)
qed

lemma show_nat_no_sep: "set (show_nat n) \<inter> {SP, CR, LF} = {}"
proof -
  have "c_isdigit c" if "c \<in> set (show_nat n)" for c using that show_nat_digits [of n] by (auto simp: list_all_iff)
  moreover have "\<not> c_isdigit SP" "\<not> c_isdigit CR" "\<not> c_isdigit LF" by (simp_all add: ctype_simps)
  ultimately show ?thesis by blast
qed

lemma show_int_no_sep: "set (show_int v) \<inter> {SP, CR, LF} = {}"
  using show_nat_no_sep by (auto simp: show_int_def)

lemma show_int_safe: "0 \<le> v \<Longrightarrow> wire_safe (show_int v @ b) \<longleftrightarrow> set b \<inter> {SP, CR, LF} = {}"
  using show_int_digit [of v] show_int_no_sep [of v]
  by (cases "show_int v") (auto simp: wire_safe_def ctype_simps)

lemma flood_letters_no_sep:
  "set FP_TYPES \<inter> {SP, CR, LF} = {} \<and> (\<forall>i \<in> set [0..<7]. set (fp_allowed ! i) \<inter> {SP, CR, LF} = {})"
  by code_simp

lemma rules_text_no_sep: "list_all rule_ok its \<Longrightarrow> set (rules_text any its) \<inter> {SP, CR, LF} = {}"
proof (induction its arbitrary: any)
  case (Cons it its)
  obtain n type action mins where it: "it = (n, type, action, mins)" by (cases it)
  with Cons.prems have ok: "type \<in> set FP_TYPES" "action \<in> set (fp_allowed ! rule_index it)"
    by (auto simp: rule_ok_def)
  from types_check [rule_format, OF ok(1)] obtain i where i: "index_of type FP_TYPES = Some i" "i < 7" by auto
  then have "rule_index it = i" by (simp add: rule_index_def it)
  then have "action \<notin> {SP, CR, LF}" "type \<notin> {SP, CR, LF}" using flood_letters_no_sep ok i(2) by auto
  then show ?case using Cons it show_int_no_sep [of n] show_int_no_sep [of mins]
    by (auto simp: rule_text_parts rule_suffix_def)
qed simp

lemma flood_view_param: "flood_view c = flood_view c1 \<Longrightarrow> channel_flood_param c n = channel_flood_param c1 n"
  by (auto simp: flood_view_def channel_flood_param_def split: option.splits)

lemma flood_state_view: "flood_state c = flood_state c1 \<Longrightarrow> flood_view c = flood_view c1"
  by (simp add: flood_state_def flood_view_def)

lemma set_flood_frame:
  assumes "channel_set_flood chan p = Some c"
  shows "c = chan\<lparr>ch_modes := ch_modes chan OR CMODE_FLOOD, ch_flood_lines := ch_flood_lines c, ch_flood_secs := ch_flood_secs c, ch_fp := ch_fp c\<rparr>"
proof -
  have o: "(m AND NOT CMODE_FLOOD) OR CMODE_FLOOD = m OR CMODE_FLOOD" for m by (simp add: bit.disj_conj_distrib2)
  show ?thesis using assms
    by (auto simp: channel_set_flood_def channel_clear_flood_def Let_def o split: option.splits if_splits)
qed

lemma flood_again:
  assumes "channel_set_flood c0 p = Some c"
  shows "wire_safe (channel_flood_param c 99) \<and> length (channel_flood_param c 99) \<le> 95 \<and>
    (\<exists>c2. channel_set_flood chan2 (channel_flood_param c 99) = Some c2 \<and> flood_view c2 = flood_view c)"
proof -
  have clip96: "clip 99 (clip 96 s) = clip 96 s" for s :: string by (simp add: clip_def)
  from set_flood_shape [OF assms] show ?thesis
  proof
    assume "\<exists>a b. 1 \<le> a \<and> a \<le> 100 \<and> 1 \<le> b \<and> b \<le> 600 \<and> flood_state c = (a, b, None)"
    then obtain a b where ab: "1 \<le> a" "a \<le> 100" "1 \<le> b" "b \<le> 600" "flood_state c = (a, b, None)" by blast
    have l: "length (show_int a) \<le> 3" "length (show_int b) \<le> 3" using ab by (simp_all add: length_show_int)
    with ab have p: "channel_flood_param c 99 = show_int a @ '':'' @ show_int b"
      by (simp add: channel_flood_param_def flood_state_def)
    have "wire_safe (channel_flood_param c 99)"
      using ab(1) show_int_no_sep [of b] unfolding p by (subst show_int_safe) auto
    then show ?thesis using set_flood_plain [OF ab(1-4), of chan2] ab(5) l p
      by (auto intro!: flood_state_view)
  next
    assume "\<exists>its f secs. list_all rule_ok its \<and> its \<noteq> [] \<and> add_rules its (empty_flood, False) = Some (f, True) \<and>
       1 \<le> secs \<and> secs \<le> 999 \<and>
       flood_state c = (fp_limit f ! 5, secs, Some (f\<lparr>fp_spec := clip 96 (fp_spec f @ '']:'' @ show_int secs)\<rparr>))"
    then obtain its f secs where i: "list_all rule_ok its" "its \<noteq> []" "add_rules its (empty_flood, False) = Some (f, True)"
      "1 \<le> secs" "secs \<le> 999"
      and fs: "flood_state c = (fp_limit f ! 5, secs, Some (f\<lparr>fp_spec := clip 96 (fp_spec f @ '']:'' @ show_int secs)\<rparr>))"
      by blast
    let ?t = "clip 96 (fp_spec f @ '']:'' @ show_int secs)"
    from fs have p: "channel_flood_param c 99 = ?t"
      by (simp add: channel_flood_param_def flood_state_def clip96)
    have sp: "fp_spec f = ''['' @ rules_text False its" using add_rules_spec [OF i(1,3)] by (simp add: empty_flood_def)
    have "set (fp_spec f @ '']:'' @ show_int secs) \<inter> {SP, CR, LF} = {}"
      using sp rules_text_no_sep [OF i(1), of False] show_int_no_sep [of secs] by auto
    then have "set ?t \<inter> {SP, CR, LF} = {}" using set_clip [of 96 "fp_spec f @ '']:'' @ show_int secs"] by blast
    moreover have "length ?t \<le> 95" using length_clip [of 96] by (metis diff_Suc_1 numeral_eq_Suc pred_numeral_simps(3) eval_nat_numeral(2) BitM.simps One_nat_def)
    moreover have "?t \<noteq> [] \<and> hd ?t \<noteq> CHR '':''" using sp by (simp add: clip_def)
    ultimately have w: "wire_safe ?t \<and> length ?t \<le> 95" unfolding wire_safe_def by blast
    from set_flood_again [OF i, of chan2] fs obtain c2 where "channel_set_flood chan2 ?t = Some c2" "flood_state c2 = flood_state c"
      by auto
    then show ?thesis using w unfolding p by (blast intro: flood_state_view)
  qed
qed

lemma flood_ok_param:
  assumes "flood_ok c" and "has (ch_modes c) CMODE_FLOOD"
  shows "wire_safe (channel_flood_param c 99) \<and> length (channel_flood_param c 99) \<le> 95 \<and>
    (\<exists>c2. channel_set_flood chan2 (channel_flood_param c 99) = Some c2 \<and> flood_view c2 = flood_view c)"
proof -
  from assms obtain c0 p c1 where 1: "channel_set_flood c0 p = Some c1" "flood_view c1 = flood_view c"
    unfolding flood_ok_def by auto
  from flood_again [OF 1(1), of chan2] show ?thesis unfolding flood_view_param [OF 1(2)] 1(2) .
qed

lemma add_arg_fits: "length args + length a < 255 \<Longrightarrow> add_arg args a = args @ SP # a"
  by (simp add: add_arg_def)

lemma modes_string_fits:
  assumes "modes_ok c"
  shows "channel_modes_string c 360 = (''+'' @ mode_letters c) @ concat (map (\<lambda>a. SP # a) (mode_args c))"
proof -
  define k where "k \<longleftrightarrow> has (ch_modes c) CMODE_K"
  define l where "l \<longleftrightarrow> has (ch_modes c) CMODE_L"
  define r where "r \<longleftrightarrow> has (ch_modes c) CMODE_REDIRECT"
  define f where "f \<longleftrightarrow> has (ch_modes c) CMODE_FLOOD"
  define j where "j \<longleftrightarrow> has (ch_modes c) CMODE_JTHROT"
  note m = assms [unfolded modes_ok_def, folded k_def l_def r_def f_def j_def]
  have fp: "f \<Longrightarrow> length (channel_flood_param c 99) \<le> 95"
    using m flood_ok_param [of c] unfolding f_def by blast
  have ll: "length (show_int (ch_limit c)) \<le> 10"
  proof -
    have "0 \<le> ch_limit c" "ch_limit c < 2 ^ 31" using m by blast+
    then show ?thesis by (simp add: length_show_int)
  qed
  have lj: "length (show_int (ch_jt_joins c)) \<le> 3" "length (show_int (ch_jt_secs c)) \<le> 3"
  proof -
    have "0 \<le> ch_jt_joins c" "ch_jt_joins c \<le> 100" using m by blast+
    moreover have "0 \<le> ch_jt_secs c" "ch_jt_secs c \<le> 600" using m by (cases "ch_jt_joins c = 0"; simp)+
    ultimately show "length (show_int (ch_jt_joins c)) \<le> 3" "length (show_int (ch_jt_secs c)) \<le> 3"
      by (simp_all add: length_show_int)
  qed
  have fl: "length (flag_string (ch_modes c)) \<le> 23"
  proof -
    have "length (flag_string (ch_modes c)) \<le> length flag_letters" unfolding flag_string_def by (simp add: length_filter_le)
    also have "length flag_letters = 23" by (simp add: flag_letters_def)
    finally show ?thesis .
  qed
  define a1 where "a1 = (if k then SP # ch_key c else [])"
  define a2 where "a2 = (if l then a1 @ SP # show_int (ch_limit c) else a1)"
  define a3 where "a3 = (if r then a2 @ SP # ch_redirect c else a2)"
  define a4 where "a4 = (if f then a3 @ SP # channel_flood_param c 99 else a3)"
  define a5 where "a5 = (if j then a4 @ SP # (show_int (ch_jt_joins c) @ '':'' @ show_int (ch_jt_secs c)) else a4)"
  have len: "length a1 \<le> 64" "length a2 \<le> length a1 + 11" "length a3 \<le> length a2 + 51" "length a4 \<le> length a3 + 96"
    "length a5 \<le> length a4 + 8"
    using m ll lj fp by (auto simp: a1_def a2_def a3_def a4_def a5_def)
  have e1: "(if k then clip 256 (SP # ch_key c) else []) = a1" using m by (simp add: a1_def)
  have e2: "(if l then add_arg a1 (show_int (ch_limit c)) else a1) = a2"
    using len ll by (simp add: a2_def add_arg_fits)
  have e3: "(if r then add_arg a2 (clip 65 (ch_redirect c)) else a2) = a3"
    using len m by (simp add: a3_def add_arg_fits)
  have e4: "(if f then add_arg a3 (channel_flood_param c 99) else a3) = a4"
  proof (cases f)
    case True
    have "length a3 + length (channel_flood_param c 99) < 255" using len(1-3) fp [OF True] by simp
    then show ?thesis using True by (simp add: a4_def add_arg_fits)
  qed (simp add: a4_def)
  have e5: "(if j then add_arg a4 (clip 31 (show_int (ch_jt_joins c) @ '':'' @ show_int (ch_jt_secs c))) else a4) = a5"
    using len lj by (simp add: a5_def add_arg_fits)
  have cond: "(k \<and> ch_key c \<noteq> []) = k" "(l \<and> ch_limit c > 0) = l" "(r \<and> ch_redirect c \<noteq> []) = r" "(j \<and> ch_jt_joins c > 0) = j"
    using m by auto
  have fit: "length (''+'' @ mode_letters c) \<le> 29" using fl by (simp add: mode_letters_def)
  have lets: "''+'' @ flag_string (ch_modes c) @ (if k then ''k'' else []) @ (if l then ''l'' else []) @
      (if r then ''L'' else []) @ (if f then ''f'' else []) @ (if j then ''j'' else []) = ''+'' @ mode_letters c"
    by (simp add: mode_letters_def k_def l_def r_def f_def j_def)
  have "channel_modes_string c 360 = clip 360 ((''+'' @ mode_letters c) @ a5)"
    unfolding channel_modes_string_def Let_def k_def [symmetric] l_def [symmetric] r_def [symmetric] f_def [symmetric]
      j_def [symmetric] cond e1 e2 e3 e4 e5 lets ..
  also have "\<dots> = (''+'' @ mode_letters c) @ a5" using len fit by (intro clip_id) simp
  also have "a5 = concat (map (\<lambda>a. SP # a) (mode_args c))"
    by (simp add: a5_def a4_def a3_def a2_def a1_def mode_args_def k_def l_def r_def f_def j_def)
  finally show ?thesis .
qed

lemma strtok_args:
  assumes "t \<noteq> []" and "SP \<notin> set t" and "\<forall>a \<in> set as. a \<noteq> [] \<and> SP \<notin> set a"
  shows "strtok (\<lambda>c. c = SP) (t @ concat (map (\<lambda>a. SP # a) as)) = t # as"
  using assms
proof (induction as arbitrary: t)
  case Nil
  then show ?case by (auto intro!: strtok_single)
next
  case (Cons a as)
  have "strtok (\<lambda>c. c = SP) (t @ SP # (a @ concat (map (\<lambda>a. SP # a) as))) = strtok (\<lambda>c. c = SP) t @ strtok (\<lambda>c. c = SP) (a @ concat (map (\<lambda>a. SP # a) as))"
    by (rule strtok_append) simp
  moreover have "strtok (\<lambda>c. c = SP) t = [t]" using Cons.prems by (auto intro!: strtok_single)
  ultimately show ?case using Cons by simp
qed

lemma mode_letters_no_space: "SP \<notin> set (mode_letters c)"
proof -
  have "SP \<notin> fst ` set flag_letters" by code_simp
  then have "SP \<notin> set (flag_string (ch_modes c))" by (auto simp: flag_string_def)
  then show ?thesis by (simp add: mode_letters_def)
qed

lemma mode_arg_cases:
  assumes "modes_ok c" and "a \<in> set (mode_args c)"
  shows "a = ch_key c \<and> ch_key c \<noteq> [] \<or> a = ch_redirect c \<and> ch_redirect c \<noteq> [] \<or> wire_safe a \<and> length a < 512"
proof -
  have k: "has (ch_modes c) CMODE_K \<Longrightarrow> ch_key c \<noteq> []" and r: "has (ch_modes c) CMODE_REDIRECT \<Longrightarrow> ch_redirect c \<noteq> []"
    and l: "0 \<le> ch_limit c" "ch_limit c < 10 ^ 10" and j: "0 \<le> ch_jt_joins c" "ch_jt_joins c < 10 ^ 10"
    and js: "if ch_jt_joins c = 0 then ch_jt_secs c = 0 else 1 \<le> ch_jt_secs c \<and> ch_jt_secs c \<le> 600" and f: "flood_ok c"
    using assms(1) unfolding modes_ok_def by auto
  have js: "0 \<le> ch_jt_secs c" "ch_jt_secs c < 10 ^ 10" using js by (simp_all split: if_splits)
  have len: "length (show_int v) \<le> 10" if "0 \<le> v" "v < 10 ^ 10" for v using length_show_int [OF that] by simp
  have "wire_safe (show_int (ch_limit c))" using show_int_safe [OF l(1), of "[]"] by simp
  moreover have "wire_safe (show_int (ch_jt_joins c) @ '':'' @ show_int (ch_jt_secs c))"
    using show_int_no_sep [of "ch_jt_secs c"] by (subst show_int_safe [OF j(1)]) auto
  moreover have "length (show_int (ch_limit c)) < 512" "length (show_int (ch_jt_joins c) @ '':'' @ show_int (ch_jt_secs c)) < 512"
    using len [OF l] len [OF j] len [OF js] by simp_all
  moreover have "wire_safe (channel_flood_param c 99) \<and> length (channel_flood_param c 99) < 512" if "has (ch_modes c) CMODE_FLOOD"
    using flood_ok_param [OF f that, of c] by simp
  moreover have "has (ch_modes c) CMODE_K \<and> a = ch_key c \<or> a = show_int (ch_limit c) \<or> has (ch_modes c) CMODE_REDIRECT \<and> a = ch_redirect c \<or>
      has (ch_modes c) CMODE_FLOOD \<and> a = channel_flood_param c 99 \<or> a = show_int (ch_jt_joins c) @ '':'' @ show_int (ch_jt_secs c)"
    using assms(2) unfolding mode_args_def by (simp split: if_splits) auto
  ultimately show ?thesis using k r by metis
qed

lemma burst_modes_eq:
  assumes "modes_ok c"
  shows "burst_modes c = (''+'' @ mode_letters c) # mode_args c"
proof -
  have args: "\<forall>a \<in> set (mode_args c). a \<noteq> [] \<and> SP \<notin> set a"
  proof
    fix a assume "a \<in> set (mode_args c)"
    from mode_arg_cases [OF assms this] show "a \<noteq> [] \<and> SP \<notin> set a"
      using assms by (auto simp: modes_ok_def wire_safe_def)
  qed
  have "length (mode_args c) \<le> 5" by (simp add: mode_args_def)
  then show ?thesis unfolding burst_modes_def modes_string_fits [OF assms]
    using strtok_args [of "''+'' @ mode_letters c" "mode_args c"] args mode_letters_no_space by simp
qed

text \<open>
  The line builder leaves the mode parameters of a channel as they are, unless the key or the
  redirect target has something in it that a parameter of a line cannot have.
\<close>

definition modes_safe :: "channel \<Rightarrow> bool" where
  "modes_safe c \<longleftrightarrow> (ch_key c \<noteq> [] \<longrightarrow> wire_safe (ch_key c)) \<and> (ch_redirect c \<noteq> [] \<longrightarrow> wire_safe (ch_redirect c))"

lemma burst_modes_sent:
  assumes "modes_ok c" and "modes_safe c"
  shows "map mid_param (burst_modes c) = (''+'' @ mode_letters c) # mode_args c"
proof -
  have a: "mid_param a = a" if "a \<in> set (mode_args c)" for a
    using mode_arg_cases [OF assms(1) that] assms unfolding modes_safe_def modes_ok_def
    by (auto intro: wire_safe_mid)
  have "fst ` set flag_letters \<inter> {SP, CR, LF} = {}" by code_simp
  then have "set (flag_string (ch_modes c)) \<inter> {SP, CR, LF} = {}" by (auto simp: flag_string_def)
  then have "wire_safe (''+'' @ mode_letters c)" by (simp add: wire_safe_def mode_letters_def)
  moreover have "length (flag_string (ch_modes c)) \<le> length flag_letters" unfolding flag_string_def by (simp add: length_filter_le)
  then have "length (''+'' @ mode_letters c) < 512" by (simp add: mode_letters_def flag_letters_def)
  ultimately have "mid_param (''+'' @ mode_letters c) = ''+'' @ mode_letters c" by (rule wire_safe_mid)
  then show ?thesis unfolding burst_modes_eq [OF assms(1)] using a by (simp add: map_idI)
qed

lemma param_letters: "channel_flag_bit CHR ''k'' = 0" "channel_flag_bit CHR ''l'' = 0" "channel_flag_bit CHR ''L'' = 0"
  "channel_flag_bit CHR ''f'' = 0" "channel_flag_bit CHR ''j'' = 0"
  by code_simp+

lemma int32_id: "0 \<le> i \<Longrightarrow> i < 2 ^ 31 \<Longrightarrow> int32 i = i"
  by (simp add: int32_def sint_sbintrunc' signed_take_bit_int_eq_self)

lemma strtol_show: "0 \<le> v \<Longrightarrow> v < 2 ^ 31 \<Longrightarrow> \<not> c_isdigit (hd (b @ [CHR 0x00])) \<Longrightarrow> strtol (show_int v @ b) = Some (v, b)"
  using strtol_show_nat [of b "nat v"] by (simp add: show_int_def LONG_MAX_def)

lemma atoi_show: "0 \<le> v \<Longrightarrow> v < 2 ^ 31 \<Longrightarrow> atoi (show_int v) = v"
  using strtol_show [of v "[]"] by (simp add: atoi_def atol_def int32_id ctype_simps)

lemma scan_pair_show:
  assumes "0 \<le> n" "n \<le> 100" "0 \<le> s" "s \<le> 600"
  shows "scan_pair (show_int n @ '':'' @ show_int s) = Some (n, s)"
proof -
  have "strtol (show_int n @ '':'' @ show_int s) = Some (n, '':'' @ show_int s)" "strtol (show_int s) = Some (s, [])"
    using strtol_show [of n "'':'' @ show_int s"] strtol_show [of s "[]"] assms by (simp_all add: ctype_simps)
  then show ?thesis using assms by (simp add: scan_pair_def int32_id)
qed

text \<open>The parameters one after the other; \<open>b\<close> is the mode bit whose letter \<open>x\<close> is.\<close>

lemma state_loop_param:
  assumes "x \<in> set ''klLfj''"
  shows "state_loop (x # cs) (a # args) chan = state_loop cs args (state_param x a chan)"
  using assms param_letters by auto

lemma clear_modes_view: "mode_view (clear_modes chan) = (0, [], 0, [], (0, 0, None), 0, 0)"
  by (simp add: clear_modes_def channel_clear_flood_def mode_view_def flood_view_def)

text \<open>Everything of a channel but its modes.\<close>

definition rest_view :: "channel \<Rightarrow> int \<times> (client_id \<times> member) list \<times> masklist \<times> masklist \<times> masklist \<times> string \<times> string \<times> int" where
  "rest_view c = (ch_created c, ch_members c, ch_bans c, ch_exceptions c, ch_invex c, ch_topic c, ch_topic_setter c, ch_topic_time c)"

lemma state_param_rest: "rest_view (state_param x a c) = rest_view c"
proof -
  have f: "rest_view c2 = rest_view c" if "channel_set_flood c a = Some c2" for c2
    by (subst set_flood_frame [OF that]) (simp add: rest_view_def)
  show ?thesis using f unfolding state_param_def Let_def
    by (simp add: rest_view_def split: option.split prod.split)
qed

lemma clear_modes_rest: "rest_view (clear_modes c) = rest_view c"
  by (simp add: clear_modes_def channel_clear_flood_def rest_view_def)

lemma state_loop_rest: "rest_view (state_loop cs args c) = rest_view c"
proof (induction cs args c rule: state_loop.induct)
  case (2 x cs args c)
  have f: "rest_view (c\<lparr>ch_modes := m\<rparr>) = rest_view c" for m by (simp add: rest_view_def)
  show ?case
  proof (cases "x = CHR ''+'' \<or> x = CHR ''-''")
    case True
    then show ?thesis using 2(1) by simp
  next
    case False
    then show ?thesis using 2(2,3) f state_param_rest by (cases args) auto
  qed
qed simp

lemma set_state_modes_rest: "rest_view (set_state_modes c modes args b) = rest_view c"
  by (simp add: set_state_modes_def state_loop_rest clear_modes_rest)

definition param_step :: "bool \<Rightarrow> char \<Rightarrow> string \<Rightarrow> channel \<Rightarrow> channel" where
  "param_step b x a c = (if b then state_param x a c else c)"

lemma state_loop_step:
  assumes "x \<in> set ''klLfj''"
  shows "state_loop ((if b then [x] else []) @ cs) ((if b then [a] else []) @ args) c = state_loop cs args (param_step b x a c)"
proof (cases b)
  case True
  then show ?thesis using state_loop_param [OF assms] by (simp add: param_step_def)
qed (simp add: param_step_def)

lemma state_loop_burst:
  "state_loop (mode_letters c) (mode_args c) d =
     param_step (has (ch_modes c) CMODE_JTHROT) CHR ''j'' (show_int (ch_jt_joins c) @ '':'' @ show_int (ch_jt_secs c))
    (param_step (has (ch_modes c) CMODE_FLOOD) CHR ''f'' (channel_flood_param c 99)
    (param_step (has (ch_modes c) CMODE_REDIRECT) CHR ''L'' (ch_redirect c)
    (param_step (has (ch_modes c) CMODE_L) CHR ''l'' (show_int (ch_limit c))
    (param_step (has (ch_modes c) CMODE_K) CHR ''k'' (ch_key c)
      (d\<lparr>ch_modes := ch_modes d OR (ch_modes c AND flag_mask)\<rparr>)))))"
proof -
  have k: "x \<in> set ''klLfj''" if "x = CHR ''k'' \<or> x = CHR ''l'' \<or> x = CHR ''L'' \<or> x = CHR ''f'' \<or> x = CHR ''j''" for x
    using that by auto
  have last: "state_loop (if b then [x] else []) (if b then [a] else []) e = param_step b x a e" if "x \<in> set ''klLfj''" for x b a e
    using state_loop_step [OF that, of b "[]" a "[]" e] by simp
  show ?thesis unfolding mode_letters_def mode_args_def
    by (simp only: state_loop_flags state_loop_step [OF k] last [OF k] simp_thms)
qed

lemma param_k: "length a < 64 \<Longrightarrow> mode_view (param_step b CHR ''k'' a c) =
    (if b then (ch_modes c OR CMODE_K, a, ch_limit c, ch_redirect c, flood_view c, ch_jt_joins c, ch_jt_secs c) else mode_view c)"
  by (simp add: param_step_def state_param_def mode_view_def flood_view_def CHAN_KEYLEN_def)

lemma param_l: "0 < n \<Longrightarrow> n < 2 ^ 31 \<Longrightarrow> mode_view (param_step b CHR ''l'' (show_int n) c) =
    (if b then (ch_modes c OR CMODE_L, ch_key c, n, ch_redirect c, flood_view c, ch_jt_joins c, ch_jt_secs c) else mode_view c)"
  by (simp add: param_step_def state_param_def mode_view_def flood_view_def atoi_show)

lemma param_L: "length a \<le> 50 \<Longrightarrow> mode_view (param_step b CHR ''L'' a c) =
    (if b then (ch_modes c OR CMODE_REDIRECT, ch_key c, ch_limit c, a, flood_view c, ch_jt_joins c, ch_jt_secs c) else mode_view c)"
  by (simp add: param_step_def state_param_def mode_view_def flood_view_def CHAN_NAMELEN_def)

lemma param_j: "0 \<le> n \<Longrightarrow> n \<le> 100 \<Longrightarrow> 0 \<le> s \<Longrightarrow> s \<le> 600 \<Longrightarrow> mode_view (param_step b CHR ''j'' (show_int n @ '':'' @ show_int s) c) =
    (if b then (ch_modes c OR CMODE_JTHROT, ch_key c, ch_limit c, ch_redirect c, flood_view c, n, s) else mode_view c)"
  using scan_pair_show [of n s] by (simp add: param_step_def state_param_def mode_view_def flood_view_def)

lemma param_f:
  assumes "\<exists>c2. channel_set_flood c a = Some c2 \<and> flood_view c2 = v"
  shows "mode_view (param_step b CHR ''f'' a c) =
    (if b then (ch_modes c OR CMODE_FLOOD, ch_key c, ch_limit c, ch_redirect c, v, ch_jt_joins c, ch_jt_secs c) else mode_view c)"
proof -
  from assms obtain c2 where c2: "channel_set_flood c a = Some c2" "flood_view c2 = v" by blast
  have "ch_modes c2 = ch_modes c OR CMODE_FLOOD \<and> ch_key c2 = ch_key c \<and> ch_limit c2 = ch_limit c \<and> ch_redirect c2 = ch_redirect c \<and>
      ch_jt_joins c2 = ch_jt_joins c \<and> ch_jt_secs c2 = ch_jt_secs c"
    by (subst (1 2 3 4 5 6) set_flood_frame [OF c2(1)]) simp
  then show ?thesis using c2 by (simp add: param_step_def state_param_def mode_view_def)
qed

lemma param_bit: "b \<in> {CMODE_K, CMODE_L, CMODE_REDIRECT, CMODE_FLOOD, CMODE_JTHROT} \<Longrightarrow> (if has m b then b else 0) = m AND b"
proof -
  assume b: "b \<in> {CMODE_K, CMODE_L, CMODE_REDIRECT, CMODE_FLOOD, CMODE_JTHROT}"
  have "b = push_bit 6 1 \<or> b = push_bit 7 1 \<or> b = push_bit 23 1 \<or> b = push_bit 21 1 \<or> b = push_bit 22 1"
    using b by (auto simp: cmode_bits)
  then show ?thesis using single_bit_and by metis
qed

lemma mask_parts:
  assumes "m AND NOT (flag_mask OR PARAM_MODES) = 0"
  shows "m AND flag_mask OR (m AND CMODE_K) OR (m AND CMODE_L) OR (m AND CMODE_REDIRECT) OR (m AND CMODE_FLOOD) OR (m AND CMODE_JTHROT) = m"
proof -
  have "m = m AND ((flag_mask OR PARAM_MODES) OR NOT (flag_mask OR PARAM_MODES))"
    by (simp only: bit.disj_cancel_right bit.conj_one_right)
  also have "\<dots> = (m AND (flag_mask OR PARAM_MODES)) OR (m AND NOT (flag_mask OR PARAM_MODES))" by (rule bit.conj_disj_distrib)
  also have "\<dots> = m AND (flag_mask OR PARAM_MODES)" unfolding assms by simp
  finally have "m = m AND (flag_mask OR PARAM_MODES)" .
  then show ?thesis unfolding PARAM_MODES_def by (simp only: bit.conj_disj_distrib or.assoc)
qed

text \<open>The modes of a burst taken in by any channel: flags add up, parameters are those of the burst.\<close>

lemma burst_merges:
  assumes ok: "modes_ok c"
  shows "mode_view (state_loop (''+'' @ mode_letters c) (mode_args c) d) =
    (ch_modes d OR ch_modes c, if has (ch_modes c) CMODE_K then ch_key c else ch_key d,
     if has (ch_modes c) CMODE_L then ch_limit c else ch_limit d,
     if has (ch_modes c) CMODE_REDIRECT then ch_redirect c else ch_redirect d,
     if has (ch_modes c) CMODE_FLOOD then flood_view c else flood_view d,
     if has (ch_modes c) CMODE_JTHROT then ch_jt_joins c else ch_jt_joins d,
     if has (ch_modes c) CMODE_JTHROT then ch_jt_secs c else ch_jt_secs d)"
proof -
  define m where "m = ch_modes c"
  note ok' = ok [unfolded modes_ok_def, folded m_def]
  have k: "length (ch_key c) < 64" and l: "has m CMODE_L \<longleftrightarrow> ch_limit c \<noteq> 0" "0 \<le> ch_limit c" "ch_limit c < 2 ^ 31"
    and r: "length (ch_redirect c) \<le> 50"
    and j: "0 \<le> ch_jt_joins c" "ch_jt_joins c \<le> 100" "if ch_jt_joins c = 0 then ch_jt_secs c = 0 else 1 \<le> ch_jt_secs c \<and> ch_jt_secs c \<le> 600"
    and f: "flood_ok c" and mask: "m AND NOT (flag_mask OR PARAM_MODES) = 0"
    using ok' by blast+
  have js: "0 \<le> ch_jt_secs c" "ch_jt_secs c \<le> 600" using j(3) by (auto split: if_splits)
  define ky where "ky = (if has m CMODE_K then ch_key c else ch_key d)"
  define lm where "lm = (if has m CMODE_L then ch_limit c else ch_limit d)"
  define rd where "rd = (if has m CMODE_REDIRECT then ch_redirect c else ch_redirect d)"
  define fv where "fv = (if has m CMODE_FLOOD then flood_view c else flood_view d)"
  define jj where "jj = (if has m CMODE_JTHROT then ch_jt_joins c else ch_jt_joins d)"
  define jt where "jt = (if has m CMODE_JTHROT then ch_jt_secs c else ch_jt_secs d)"
  define d0 where "d0 = d\<lparr>ch_modes := ch_modes d OR (m AND flag_mask)\<rparr>"
  define m0 where "m0 = ch_modes d OR (m AND flag_mask)"
  have v0: "mode_view d0 = (m0, ch_key d, ch_limit d, ch_redirect d, flood_view d, ch_jt_joins d, ch_jt_secs d)"
    by (simp add: d0_def m0_def mode_view_def flood_view_def)
  define d1 where "d1 = param_step (has m CMODE_K) CHR ''k'' (ch_key c) d0"
  define m1 where "m1 = m0 OR (m AND CMODE_K)"
  have v1: "mode_view d1 = (m1, ky, ch_limit d, ch_redirect d, flood_view d, ch_jt_joins d, ch_jt_secs d)"
    using v0 param_k [OF k, of "has m CMODE_K" d0] param_bit [of CMODE_K m] unfolding d1_def m1_def ky_def
    by (auto simp: mode_view_def)
  define d2 where "d2 = param_step (has m CMODE_L) CHR ''l'' (show_int (ch_limit c)) d1"
  define m2 where "m2 = m1 OR (m AND CMODE_L)"
  have v2: "mode_view d2 = (m2, ky, lm, ch_redirect d, flood_view d, ch_jt_joins d, ch_jt_secs d)"
  proof (cases "ch_limit c = 0")
    case True
    then show ?thesis using v1 l(1) param_bit [of CMODE_L m] by (simp add: d2_def m2_def lm_def param_step_def)
  next
    case False
    then show ?thesis using v1 param_l [of "ch_limit c" "has m CMODE_L" d1] l param_bit [of CMODE_L m] unfolding d2_def m2_def lm_def
      by (auto simp: mode_view_def)
  qed
  define d3 where "d3 = param_step (has m CMODE_REDIRECT) CHR ''L'' (ch_redirect c) d2"
  define m3 where "m3 = m2 OR (m AND CMODE_REDIRECT)"
  have v3: "mode_view d3 = (m3, ky, lm, rd, flood_view d, ch_jt_joins d, ch_jt_secs d)"
    using v2 param_L [OF r, of "has m CMODE_REDIRECT" d2] param_bit [of CMODE_REDIRECT m] unfolding d3_def m3_def rd_def
    by (auto simp: mode_view_def)
  define d4 where "d4 = param_step (has m CMODE_FLOOD) CHR ''f'' (channel_flood_param c 99) d3"
  define m4 where "m4 = m3 OR (m AND CMODE_FLOOD)"
  have v4: "mode_view d4 = (m4, ky, lm, rd, fv, ch_jt_joins d, ch_jt_secs d)"
  proof (cases "has m CMODE_FLOOD")
    case True
    then have "\<exists>c2. channel_set_flood d3 (channel_flood_param c 99) = Some c2 \<and> flood_view c2 = flood_view c"
      using flood_ok_param [OF f, of d3] by (simp add: m_def)
    from param_f [OF this, of "has m CMODE_FLOOD"] True v3 param_bit [of CMODE_FLOOD m] show ?thesis unfolding d4_def m4_def fv_def
      by (auto simp: mode_view_def)
  next
    case False
    then show ?thesis using v3 param_bit [of CMODE_FLOOD m] by (simp add: d4_def m4_def fv_def param_step_def)
  qed
  define d5 where "d5 = param_step (has m CMODE_JTHROT) CHR ''j'' (show_int (ch_jt_joins c) @ '':'' @ show_int (ch_jt_secs c)) d4"
  define m5 where "m5 = m4 OR (m AND CMODE_JTHROT)"
  have v5: "mode_view d5 = (m5, ky, lm, rd, fv, jj, jt)"
    using v4 param_j [OF j(1,2) js(1,2), of "has m CMODE_JTHROT" d4] param_bit [of CMODE_JTHROT m] unfolding d5_def m5_def jj_def jt_def
    by (auto simp: mode_view_def)
  have "m5 = ch_modes d OR m" unfolding m5_def m4_def m3_def m2_def m1_def m0_def
    using mask_parts [OF mask] by (simp only: or.assoc)
  moreover have "state_loop (''+'' @ mode_letters c) (mode_args c) d = d5"
    unfolding d5_def d4_def d3_def d2_def d1_def d0_def m_def by (simp add: state_loop_burst)
  ultimately show ?thesis using v5 unfolding ky_def lm_def rd_def fv_def jj_def jt_def m_def by simp
qed

lemma modes_ok_unset:
  assumes "modes_ok c"
  shows "\<not> has (ch_modes c) CMODE_K \<Longrightarrow> ch_key c = []" "\<not> has (ch_modes c) CMODE_L \<Longrightarrow> ch_limit c = 0"
    "\<not> has (ch_modes c) CMODE_REDIRECT \<Longrightarrow> ch_redirect c = []" "\<not> has (ch_modes c) CMODE_FLOOD \<Longrightarrow> flood_view c = (0, 0, None)"
    "\<not> has (ch_modes c) CMODE_JTHROT \<Longrightarrow> ch_jt_joins c = 0" "\<not> has (ch_modes c) CMODE_JTHROT \<Longrightarrow> ch_jt_secs c = 0"
proof -
  have j: "has (ch_modes c) CMODE_JTHROT \<longleftrightarrow> ch_jt_joins c \<noteq> 0"
    "if ch_jt_joins c = 0 then ch_jt_secs c = 0 else 1 \<le> ch_jt_secs c \<and> ch_jt_secs c \<le> 600"
    using assms unfolding modes_ok_def by blast+
  show "\<not> has (ch_modes c) CMODE_K \<Longrightarrow> ch_key c = []" "\<not> has (ch_modes c) CMODE_L \<Longrightarrow> ch_limit c = 0"
    "\<not> has (ch_modes c) CMODE_REDIRECT \<Longrightarrow> ch_redirect c = []"
    using assms unfolding modes_ok_def by blast+
  show "\<not> has (ch_modes c) CMODE_FLOOD \<Longrightarrow> flood_view c = (0, 0, None)"
    using assms unfolding modes_ok_def flood_ok_def by presburger
  show "\<not> has (ch_modes c) CMODE_JTHROT \<Longrightarrow> ch_jt_joins c = 0" "\<not> has (ch_modes c) CMODE_JTHROT \<Longrightarrow> ch_jt_secs c = 0"
    using j by auto
qed

text \<open>Set from scratch they are the modes of the channel the burst is of, and again if they are set twice.\<close>

lemma burst_sets_modes:
  assumes ok: "modes_ok c" and d: "d = clear_modes d2 \<or> mode_view d = mode_view c"
  shows "mode_view (state_loop (''+'' @ mode_letters c) (mode_args c) d) = mode_view c"
proof -
  consider "mode_view d = (0, [], 0, [], (0, 0, None), 0, 0)" | "mode_view d = mode_view c"
    using d clear_modes_view by blast
  then show ?thesis
  proof cases
    case 1
    then have "ch_modes d = 0" "ch_key d = []" "ch_limit d = 0" "ch_redirect d = []" "flood_view d = (0, 0, None)" "ch_jt_joins d = 0" "ch_jt_secs d = 0"
      by (simp_all add: mode_view_def)
    then show ?thesis unfolding burst_merges [OF ok] using modes_ok_unset [OF ok] by (simp add: mode_view_def)
  next
    case 2
    then show ?thesis unfolding burst_merges [OF ok] by (simp add: mode_view_def)
  qed
qed

section \<open>Tokens spread over lines\<close>

lemma strtok_space_append: "strtok (\<lambda>c. c = SP) (a @ SP # b) = strtok (\<lambda>c. c = SP) a @ strtok (\<lambda>c. c = SP) b"
  by (rule strtok_append) simp

lemma add_token_fits:
  "length acc + length tok + 2 < sz \<Longrightarrow> add_token sz acc tok = (if acc = [] then tok else acc @ SP # tok)"
  by (simp add: add_token_def)

text \<open>A token fits a line of its own, has no space, and \<open>lo\<close> bytes at least.\<close>

definition token_ok :: "nat \<Rightarrow> nat \<Rightarrow> string \<Rightarrow> bool" where
  "token_ok lo sz tok \<longleftrightarrow> lo \<le> length tok \<and> 0 < lo \<and> length tok + 2 < sz \<and> SP \<notin> set tok"

lemma chunks_split:
  assumes "list_all (token_ok lo sz) toks" and "length acc < sz" and "length (strtok (\<lambda>c. c = SP) acc) * (lo + 1) \<le> length acc + 1"
  shows "concat (map (strtok (\<lambda>c. c = SP)) (chunk_tokens sz toks acc)) = strtok (\<lambda>c. c = SP) acc @ toks \<and>
    list_all (\<lambda>l. length l < sz \<and> length (strtok (\<lambda>c. c = SP) l) * (lo + 1) \<le> length l + 1) (chunk_tokens sz toks acc)"
  using assms
proof (induction toks arbitrary: acc)
  case (Cons tok toks)
  have t: "token_ok lo sz tok" and ts: "list_all (token_ok lo sz) toks" using Cons.prems(1) by simp_all
  have single: "strtok (\<lambda>c. c = SP) tok = [tok]" using t by (auto simp: token_ok_def intro!: strtok_single)
  show ?case
  proof (cases "token_full sz acc tok")
    case True
    have a: "add_token sz [] tok = tok" using t by (simp add: add_token_fits token_ok_def)
    show ?thesis using Cons.IH [OF ts, of tok] t True Cons.prems(2,3) by (simp add: a single token_ok_def)
  next
    case False
    then have a: "add_token sz acc tok = (if acc = [] then tok else acc @ SP # tok)" and l: "length acc + length tok + 2 < sz"
      by (simp_all add: token_full_def add_token_fits)
    have "strtok (\<lambda>c. c = SP) (add_token sz acc tok) = strtok (\<lambda>c. c = SP) acc @ [tok]"
      using single by (simp add: a strtok_space_append)
    moreover have "length (add_token sz acc tok) < sz" using l by (simp add: a)
    moreover have "length (strtok (\<lambda>c. c = SP) acc @ [tok]) * (lo + 1) \<le> length (add_token sz acc tok) + 1"
      using Cons.prems(3) t by (simp add: a token_ok_def)
    ultimately show ?thesis using Cons.IH [OF ts, of "add_token sz acc tok"] False by simp
  qed
qed simp

lemma chunk_chars:
  "l \<in> set (chunk_tokens sz toks acc) \<Longrightarrow> set l \<subseteq> insert SP (set acc \<union> \<Union> (set ` set toks))"
proof (induction toks arbitrary: acc)
  case (Cons tok toks)
  have "set (add_token sz a tok) \<subseteq> insert SP (set a \<union> set tok)" for a
    by (auto simp: add_token_def Let_def dest!: in_set_takeD split: if_splits)
  from this [of acc] this [of "[]"] show ?case using Cons.IH [of "add_token sz acc tok"] Cons.IH [of "add_token sz [] tok"] Cons.prems
    by (auto split: if_splits)
qed (simp split: if_splits, blast)

section \<open>Two sides of a channel\<close>

text \<open>
  What a server makes of the lines of a burst about one channel: one SJOIN for each group of
  members, the three lists and the topic, if there is one. The parameters are read as the other
  side's line builder wrote them: \<open>mid_param\<close> for one in the middle of a line, \<open>irc_escape\<close> for
  the trailing one.
\<close>

definition sjoin_ts :: "string \<Rightarrow> channel \<Rightarrow> int" where
  "sjoin_ts p chan = (if atol p \<le> 0 then ch_created chan else atol p)"

definition sjoin_in :: "channel \<Rightarrow> (client_id \<times> flags) list \<Rightarrow> channel \<Rightarrow> channel" where
  "sjoin_in other arrivals chan =
     (let ps = map mid_param (show_int (ch_created other) # burst_modes other)
      in case sjoin_modes (sjoin_ts (hd ps) chan) (ps ! 1) (take 10 (drop 2 ps)) chan of
           (c1, keep, _) \<Rightarrow> fold (sjoin_member keep) arrivals c1)"

definition masks_line_in :: "int \<Rightarrow> channel \<Rightarrow> char \<Rightarrow> string \<Rightarrow> channel \<Rightarrow> channel" where
  "masks_line_in now other kind line chan =
     bmask_merge now (atol (mid_param (show_int (ch_created other)))) kind
       (strtok (\<lambda>c. c = SP) (clip 800 (irc_escape 1024 line))) chan"

definition list_in :: "int \<Rightarrow> channel \<Rightarrow> char \<Rightarrow> masklist \<Rightarrow> channel \<Rightarrow> channel" where
  "list_in now other kind ml chan =
     fold (masks_line_in now other kind) (chunk_tokens 700 (map me_mask (ml_entries ml)) []) chan"

definition masks_in :: "int \<Rightarrow> channel \<Rightarrow> channel \<Rightarrow> channel" where
  "masks_in now other chan =
     list_in now other CHR ''I'' (ch_invex other)
       (list_in now other CHR ''e'' (ch_exceptions other) (list_in now other CHR ''b'' (ch_bans other) chan))"

definition topic_in :: "channel \<Rightarrow> channel \<Rightarrow> channel" where
  "topic_in other chan =
     (if ch_topic other = [] then chan
      else tb_merge (atol (mid_param (show_int (ch_topic_time other))))
             (mid_param (if ch_topic_setter other \<noteq> [] then ch_topic_setter other else ''*''))
             (irc_escape 1024 (ch_topic other)) chan)"

definition burst_in :: "int \<Rightarrow> channel \<Rightarrow> (client_id \<times> flags) list list \<Rightarrow> channel \<Rightarrow> channel" where
  "burst_in now other groups chan = topic_in other (masks_in now other (fold (sjoin_in other) groups chan))"

definition ranks_of :: "channel \<Rightarrow> (client_id \<times> flags) list" where
  "ranks_of c = map (\<lambda>(i, m). (i, mb_rank m)) (ch_members c)"

definition rank_in :: "channel \<Rightarrow> client_id \<Rightarrow> flags option" where
  "rank_in c i = map_option mb_rank (channel_find_member c i)"

text \<open>Times and modes of a channel as they are read.\<close>

lemma time_read:
  assumes "0 \<le> t" and "t \<le> LONG_MAX"
  shows "atol (mid_param (show_int t)) = t"
proof -
  have "t < 10 ^ 19" using assms(2) by (simp add: LONG_MAX_def)
  then have "length (show_int t) \<le> 19" using assms(1) by (intro length_show_int) simp_all
  then have "mid_param (show_int t) = show_int t"
    using show_int_safe [OF assms(1), of "[]"] by (intro wire_safe_mid) simp_all
  moreover have "strtol (show_int t) = Some (t, [])"
    using strtol_show_nat [of "[]" "nat t"] assms by (simp add: show_int_def ctype_simps)
  ultimately show ?thesis by (simp add: atol_def)
qed

lemma sjoin_ts_read: "0 < t \<Longrightarrow> t \<le> LONG_MAX \<Longrightarrow> sjoin_ts (mid_param (show_int t)) chan = t"
  by (simp add: sjoin_ts_def time_read)

definition time_ok :: "channel \<Rightarrow> bool" where
  "time_ok c \<longleftrightarrow> 0 < ch_created c \<and> ch_created c \<le> LONG_MAX"

lemma sjoin_in_eq:
  assumes "modes_ok other" and "modes_safe other" and "time_ok other"
  shows "sjoin_in other xs c =
    (case sjoin_modes (ch_created other) (''+'' @ mode_letters other) (mode_args other) c of
       (c1, keep, _) \<Rightarrow> fold (sjoin_member keep) xs c1)"
proof -
  have "length (mode_args other) \<le> 5" by (simp add: mode_args_def)
  then show ?thesis
    using assms(3) unfolding sjoin_in_def list.map burst_modes_sent [OF assms(1,2)] Let_def
    by (simp add: sjoin_ts_read time_ok_def)
qed

text \<open>What the SJOINs leave alone.\<close>

definition lists_view :: "channel \<Rightarrow> masklist \<times> masklist \<times> masklist \<times> string \<times> string \<times> int" where
  "lists_view c = (ch_bans c, ch_exceptions c, ch_invex c, ch_topic c, ch_topic_setter c, ch_topic_time c)"

lemma sjoin_member_view:
  "ch_created (sjoin_member keep x c) = ch_created c" "mode_view (sjoin_member keep x c) = mode_view c"
  "lists_view (sjoin_member keep x c) = lists_view c"
  by (cases x; simp add: sjoin_member_def set_member_def channel_add_member_def mode_view_def flood_view_def lists_view_def split: option.split)+

lemma sjoin_members_view:
  "ch_created (fold (sjoin_member keep) xs c) = ch_created c \<and> mode_view (fold (sjoin_member keep) xs c) = mode_view c \<and>
   lists_view (fold (sjoin_member keep) xs c) = lists_view c"
  by (induction xs arbitrary: c) (simp_all add: sjoin_member_view)

lemma find_set_member: "channel_find_member (set_member c i m) j = (if j = i then Some m else channel_find_member c j)"
  by (simp add: set_member_def channel_find_member_def update_conv')

lemma sjoin_member_rank:
  "rank_in (sjoin_member keep (i, r) c) j =
    (if rank_in c j \<noteq> None then rank_in c j else if j = i then Some (if keep then r else 0) else None)"
  by (auto simp: rank_in_def sjoin_member_def find_set_member channel_add_member_def split: option.splits)
    (auto simp: channel_find_member_def map_add_def)

lemma sjoin_members_rank:
  "rank_in (fold (sjoin_member keep) xs c) j =
    (case rank_in c j of Some r \<Rightarrow> Some r
     | None \<Rightarrow> (case map_of xs j of Some r \<Rightarrow> Some (if keep then r else 0) | None \<Rightarrow> None))"
proof (induction xs arbitrary: c)
  case (Cons x xs)
  obtain i r where x: "x = (i, r)" by (cases x)
  show ?case using Cons.IH [of "sjoin_member keep x c"] by (auto simp: x sjoin_member_rank split: option.splits)
qed (simp split: option.split)

lemma sjoin_in_same_age:
  assumes sent: "modes_ok other" "modes_safe other" "time_ok other" and "ch_created c = ch_created other"
  shows "ch_created (sjoin_in other xs c) = ch_created other" "lists_view (sjoin_in other xs c) = lists_view c"
    "mode_view c = mode_view other \<Longrightarrow> mode_view (sjoin_in other xs c) = mode_view other"
    "rank_in (sjoin_in other xs c) j = (case rank_in c j of Some r \<Rightarrow> Some r | None \<Rightarrow> map_of xs j)"
proof -
  define c1 where "c1 = set_state_modes c (''+'' @ mode_letters other) (mode_args other) False"
  have e: "sjoin_in other xs c = fold (sjoin_member True) xs c1"
    using assms(4) unfolding sjoin_in_eq [OF sent] by (simp add: sjoin_modes_def c1_def)
  have "rest_view c1 = rest_view c" unfolding c1_def by (rule set_state_modes_rest)
  then have r: "ch_created c1 = ch_created c" "lists_view c1 = lists_view c" "rank_in c1 j = rank_in c j"
    by (simp_all add: rest_view_def lists_view_def rank_in_def channel_find_member_def)
  have m: "mode_view c = mode_view other \<Longrightarrow> mode_view c1 = mode_view other"
    unfolding c1_def set_state_modes_def using burst_sets_modes [OF assms(1), of c] by simp
  show "ch_created (sjoin_in other xs c) = ch_created other" "lists_view (sjoin_in other xs c) = lists_view c"
    "mode_view c = mode_view other \<Longrightarrow> mode_view (sjoin_in other xs c) = mode_view other"
    using r m assms(4) unfolding e by (simp_all add: sjoin_members_view)
  show "rank_in (sjoin_in other xs c) j = (case rank_in c j of Some r \<Rightarrow> Some r | None \<Rightarrow> map_of xs j)"
    unfolding e sjoin_members_rank r(3) by (auto split: option.split)
qed

lemma sjoins_in_same_age:
  assumes sent: "modes_ok other" "modes_safe other" "time_ok other"
    and "ch_created c = ch_created other" and "mode_view c = mode_view other"
  shows "ch_created (fold (sjoin_in other) gs c) = ch_created other \<and> lists_view (fold (sjoin_in other) gs c) = lists_view c \<and>
    mode_view (fold (sjoin_in other) gs c) = mode_view other \<and>
    rank_in (fold (sjoin_in other) gs c) j = (case rank_in c j of Some r \<Rightarrow> Some r | None \<Rightarrow> map_of (concat gs) j)"
  using assms(4,5)
proof (induction gs arbitrary: c)
  case (Cons g gs)
  note s = sjoin_in_same_age [OF sent Cons.prems(1), of g]
  show ?case using Cons.IH [of "sjoin_in other g c"] s Cons.prems by (simp add: map_add_def split: option.split)
qed (simp split: option.split)

text \<open>The side with the older channel.\<close>

lemma sjoins_in_older:
  assumes "time_ok other" and "ch_created c < ch_created other"
  shows "ch_created (fold (sjoin_in other) gs c) = ch_created c \<and> lists_view (fold (sjoin_in other) gs c) = lists_view c \<and>
    mode_view (fold (sjoin_in other) gs c) = mode_view c \<and>
    rank_in (fold (sjoin_in other) gs c) j =
      (case rank_in c j of Some r \<Rightarrow> Some r | None \<Rightarrow> map_option (\<lambda>_. 0) (map_of (concat gs) j))"
  using assms(2)
proof (induction gs arbitrary: c)
  case (Cons g gs)
  have e: "sjoin_in other g c = fold (sjoin_member False) g c"
    using Cons.prems assms(1) by (simp add: sjoin_in_def sjoin_modes_def time_ok_def sjoin_ts_read)
  note v = sjoin_members_view [of False g c]
  show ?case using Cons.IH [of "sjoin_in other g c"] Cons.prems v unfolding e
    by (simp add: e sjoin_members_rank map_add_def split: option.split)
qed (simp split: option.split)

text \<open>The side with the younger channel.\<close>

lemma map_of_reset: "channel_find_member (reset_channel c) j = map_option (\<lambda>m. m\<lparr>mb_rank := 0\<rparr>) (channel_find_member c j)"
  unfolding channel_find_member_def reset_channel_def by (simp add: map_of_map)

lemma sjoins_in_younger:
  assumes ok: "modes_ok other" and sent: "modes_safe other" "time_ok other" and "ch_created other < ch_created c" and "gs \<noteq> []"
  shows "ch_created (fold (sjoin_in other) gs c) = ch_created other \<and>
    lists_view (fold (sjoin_in other) gs c) = lists_view (reset_channel c) \<and>
    mode_view (fold (sjoin_in other) gs c) = mode_view other \<and>
    rank_in (fold (sjoin_in other) gs c) j = (if rank_in c j \<noteq> None then Some 0 else map_of (concat gs) j)"
proof -
  obtain g gs' where gs: "gs = g # gs'" using assms(5) by (cases gs) auto
  define c0 where "c0 = (reset_channel c)\<lparr>ch_created := ch_created other\<rparr>"
  define c1 where "c1 = set_state_modes c0 (''+'' @ mode_letters other) (mode_args other) True"
  define c2 where "c2 = fold (sjoin_member True) g c1"
  have e: "sjoin_in other g c = c2"
    using assms(4) unfolding sjoin_in_eq [OF ok sent] by (simp add: sjoin_modes_def c1_def c0_def c2_def)
  have "rest_view c1 = rest_view c0" unfolding c1_def by (rule set_state_modes_rest)
  then have r: "ch_created c1 = ch_created other" "lists_view c1 = lists_view (reset_channel c)" "rank_in c1 j = rank_in (reset_channel c) j"
    by (simp_all add: rest_view_def lists_view_def rank_in_def channel_find_member_def c0_def)
  have m: "mode_view c1 = mode_view other"
    unfolding c1_def set_state_modes_def using burst_sets_modes [OF ok, of "clear_modes c0"] by auto
  note v = sjoin_members_view [of True g c1, folded c2_def]
  have rk: "rank_in (reset_channel c) j = (if rank_in c j \<noteq> None then Some 0 else None)"
    by (cases "channel_find_member c j") (simp_all add: rank_in_def map_of_reset)
  have c2: "ch_created c2 = ch_created other" "mode_view c2 = mode_view other" using v r m by simp_all
  have r2: "rank_in c2 j = (if rank_in c j \<noteq> None then Some 0 else map_of g j)"
    unfolding c2_def sjoin_members_rank r(3) rk by (auto split: option.split)
  show ?thesis using sjoins_in_same_age [OF ok sent c2, of gs' j] v r r2 unfolding gs
    by (auto simp: e map_add_def split: option.split)
qed

subsection \<open>Masks and topic\<close>

context bounded_register begin

lemma copy:
  assumes "sorted_wrt (\<lambda>a b. \<not> same a b) (keys s @ ks)" and "length (keys s @ ks) \<le> cap" and "\<forall>k \<in> set ks. ok k"
  shows "keys (fold put ks s) = keys s @ ks"
  using assms
proof (induction ks arbitrary: s)
  case (Cons k ks)
  have "keys (put k s) = keys s @ [k]"
    using Cons.prems by (intro put_room) (auto simp: sorted_wrt_append)
  then show ?case using Cons.IH [of "put k s"] Cons.prems by simp
qed simp

end

definition mask_ok :: "string \<Rightarrow> bool" where
  "mask_ok m \<longleftrightarrow> m \<noteq> [] \<and> length m < 256 \<and> set m \<inter> {SP, CR, LF} = {}"

definition list_ok :: "masklist \<Rightarrow> bool" where
  "list_ok ml \<longleftrightarrow> sorted_wrt (\<lambda>a b. \<not> strcaseeq a b) (masks_of ml) \<and> length (masks_of ml) \<le> CHAN_MAX_MASKLIST \<and>
     (\<forall>m \<in> set (masks_of ml). mask_ok m)"

lemma masks_copied:
  assumes "list_ok ml" and "masks_of e = []"
  shows "masks_of (fold (\<lambda>m l. snd (masklist_add now m l)) (map me_mask (ml_entries ml)) e) = masks_of ml"
  using bl.copy [of e "masks_of ml" now] assms by (simp add: list_ok_def masks_of_def mask_ok_def)

text \<open>The lines of a list, one merged after the other, bring all its masks in their order.\<close>

lemma bmask_merge_append:
  assumes "kind = CHR ''b'' \<or> kind = CHR ''e'' \<or> kind = CHR ''I''"
  shows "bmask_merge now ts kind ys (bmask_merge now ts kind xs c) = bmask_merge now ts kind (xs @ ys) c"
  using assms by (auto simp: bmask_merge_def bmask_list_def set_bmask_list_def)

lemma bmask_merge_concat:
  assumes "kind = CHR ''b'' \<or> kind = CHR ''e'' \<or> kind = CHR ''I''"
  shows "fold (\<lambda>l. bmask_merge now ts kind (f l)) ls c = bmask_merge now ts kind (concat (map f ls)) c"
proof (induction ls arbitrary: c)
  case Nil
  then show ?case using assms by (auto simp: bmask_merge_def bmask_list_def set_bmask_list_def)
qed (simp add: bmask_merge_append [OF assms])

lemma list_in_eq:
  assumes "list_ok ml" and "time_ok other" and kind: "kind = CHR ''b'' \<or> kind = CHR ''e'' \<or> kind = CHR ''I''"
  shows "list_in now other kind ml c = bmask_merge now (ch_created other) kind (map me_mask (ml_entries ml)) c"
proof -
  define toks where "toks = map me_mask (ml_entries ml)"
  define ls where "ls = chunk_tokens 700 toks []"
  have m: "mask_ok t" if "t \<in> set toks" for t using that assms(1) by (auto simp: list_ok_def masks_of_def toks_def)
  have "token_ok 1 700 t" if "t \<in> set toks" for t using m [OF that] by (cases t) (auto simp: token_ok_def mask_ok_def)
  then have "list_all (token_ok 1 700) toks" by (simp add: list_all_iff)
  from chunks_split [OF this, of "[]"]
  have c: "concat (map (strtok (\<lambda>c. c = SP)) ls) = toks" and len: "\<forall>l \<in> set ls. length l < 700"
    by (auto simp: ls_def list_all_iff)
  have line: "clip 800 (irc_escape 1024 l) = l" if "l \<in> set ls" for l
  proof -
    have "set l \<subseteq> insert SP (\<Union> (set ` set toks))" using chunk_chars that by (fastforce simp: ls_def)
    then have "set l \<inter> {CR, LF} = {}" using m by (fastforce simp: mask_ok_def)
    then show ?thesis using len that by (auto simp: irc_escape_id)
  qed
  have t: "atol (mid_param (show_int (ch_created other))) = ch_created other"
    using assms(2) by (intro time_read) (auto simp: time_ok_def)
  have "list_in now other kind ml c = fold (\<lambda>l. bmask_merge now (ch_created other) kind (strtok (\<lambda>c. c = SP) l)) ls c"
    unfolding list_in_def toks_def [symmetric] ls_def [symmetric]
    by (rule fold_cong [OF refl refl]) (simp add: masks_line_in_def line t fun_eq_iff)
  then show ?thesis unfolding bmask_merge_concat [OF kind] c toks_def .
qed

text \<open>The masks and the topic of a channel, without the times and the setters.\<close>

definition masks_view :: "channel \<Rightarrow> string list \<times> string list \<times> string list" where
  "masks_view c = (masks_of (ch_bans c), masks_of (ch_exceptions c), masks_of (ch_invex c))"

definition topic_view :: "channel \<Rightarrow> string \<times> int" where
  "topic_view c = (ch_topic c, ch_topic_time c)"

lemma masks_line_older: "time_ok other \<Longrightarrow> ch_created c < ch_created other \<Longrightarrow> masks_line_in now other kind line c = c"
  by (simp add: masks_line_in_def bmask_merge_def time_ok_def time_read)

lemma list_in_older:
  assumes "time_ok other" and "ch_created c < ch_created other"
  shows "list_in now other kind ml c = c"
proof -
  have "fold (masks_line_in now other kind) ls c = c" for ls
    using assms by (induction ls) (simp_all add: masks_line_older)
  then show ?thesis by (simp add: list_in_def)
qed

lemma masks_in_older: "time_ok other \<Longrightarrow> ch_created c < ch_created other \<Longrightarrow> masks_in now other c = c"
  by (simp add: masks_in_def list_in_older)

lemma masks_in_fresh:
  assumes "ch_created c = ch_created other" and "masks_view c = ([], [], [])" and "time_ok other"
    and "list_ok (ch_bans other)" and "list_ok (ch_exceptions other)" and "list_ok (ch_invex other)"
  shows "masks_view (masks_in now other c) = masks_view other"
  using assms by (simp add: masks_in_def list_in_eq bmask_merge_def bmask_list_def set_bmask_list_def masks_view_def masks_copied)

text \<open>What the mask lines leave alone.\<close>

definition but_masks :: "channel \<Rightarrow> int \<times> (flags \<times> string \<times> int \<times> string \<times> (int \<times> int \<times> (string \<times> int list \<times> char list \<times> int list) option) \<times> int \<times> int) \<times> (client_id \<times> member) list \<times> string \<times> int" where
  "but_masks c = (ch_created c, mode_view c, ch_members c, topic_view c)"

lemma but_masks_list: "but_masks (list_in now other kind ml c) = but_masks c"
proof -
  have "but_masks (masks_line_in now other kind line d) = but_masks d" for line d
    by (simp add: masks_line_in_def bmask_merge_def set_bmask_list_def but_masks_def mode_view_def flood_view_def topic_view_def split: option.split)
  then have "but_masks (fold (masks_line_in now other kind) ls c) = but_masks c" for ls
    by (induction ls arbitrary: c) simp_all
  then show ?thesis by (simp add: list_in_def)
qed

lemma masks_in_rest:
  "ch_created (masks_in now other c) = ch_created c" "mode_view (masks_in now other c) = mode_view c"
  "rank_in (masks_in now other c) j = rank_in c j" "topic_view (masks_in now other c) = topic_view c"
  using but_masks_list [of now other]
  by (simp_all add: masks_in_def but_masks_def rank_in_def channel_find_member_def)

lemma topic_in_rest:
  "ch_created (topic_in other c) = ch_created c" "mode_view (topic_in other c) = mode_view c"
  "rank_in (topic_in other c) j = rank_in c j" "masks_view (topic_in other c) = masks_view c"
  by (simp_all add: topic_in_def tb_merge_def mode_view_def flood_view_def rank_in_def
      channel_find_member_def masks_view_def)

lemma strcmp_sign_eq: "strcmp_sign s t = 0 \<longleftrightarrow> s = t"
  by (induction s t rule: strcmp_sign.induct) auto

lemma strcmp_sign_sym: "strcmp_sign t s = - strcmp_sign s t"
proof (induction s t rule: strcmp_sign.induct)
  case (4 c s d t)
  have "c \<noteq> d \<Longrightarrow> byte c < byte d \<or> byte d < byte c" using char_eq_byte [of c d] by linarith
  then show ?case using 4 by auto
qed auto

definition topic_ok :: "channel \<Rightarrow> bool" where
  "topic_ok c \<longleftrightarrow> length (ch_topic c) \<le> TOPIC_MAX_LEN \<and> set (ch_topic c) \<inter> {CR, LF} = {} \<and>
     0 \<le> ch_topic_time c \<and> ch_topic_time c \<le> LONG_MAX"

lemma topic_in_view:
  assumes "topic_ok other"
  shows "topic_view (topic_in other c) =
    (if ch_topic other \<noteq> [] \<and> topic_wins (ch_topic_time other) (ch_topic other) c then topic_view other else topic_view c)"
proof -
  have "irc_escape 1024 (ch_topic other) = ch_topic other"
    using assms by (intro irc_escape_id) (auto simp: topic_ok_def TOPIC_MAX_LEN_def)
  then show ?thesis using assms by (simp add: topic_in_def tb_merge_def topic_view_def topic_ok_def TOPIC_MAX_LEN_def time_read)
qed

text \<open>The newer topic wins on both sides; of two set in the same second, the one that sorts later.\<close>

lemma topics_agree:
  assumes "topic_ok a" and "topic_ok b"
  shows "ch_topic (topic_in b a) = ch_topic (topic_in a b) \<and>
    (ch_topic a \<noteq> ch_topic b \<longrightarrow> topic_view (topic_in b a) = topic_view (topic_in a b))"
proof (cases "ch_topic a = ch_topic b")
  case True
  then have "topic_view (topic_in b a) = topic_view a" "topic_view (topic_in a b) = topic_view b"
    unfolding topic_in_view [OF assms(1)] topic_in_view [OF assms(2)] by (simp_all add: topic_wins_def strcmp_sign_eq)
  then show ?thesis using True by (simp add: topic_view_def)
next
  case False
  define s where "s = strcmp_sign (ch_topic a) (ch_topic b)"
  have s: "s \<noteq> 0" "strcmp_sign (ch_topic b) (ch_topic a) = - s" 
    using False strcmp_sign_eq [of "ch_topic a" "ch_topic b"] strcmp_sign_sym [where s = "ch_topic a" and t = "ch_topic b"] by (simp_all add: s_def)
  have w: "topic_wins (ch_topic_time a) (ch_topic a) b \<longleftrightarrow>
      (ch_topic b = [] \<or> ch_topic_time a > ch_topic_time b \<or> ch_topic_time a = ch_topic_time b \<and> s > 0)"
    "topic_wins (ch_topic_time b) (ch_topic b) a \<longleftrightarrow>
      (ch_topic a = [] \<or> ch_topic_time b > ch_topic_time a \<or> ch_topic_time a = ch_topic_time b \<and> s < 0)"
    using s by (auto simp: topic_wins_def Let_def s_def [symmetric])
  have "topic_view (topic_in b a) = topic_view (topic_in a b)"
  proof -
    consider "ch_topic a = []" "ch_topic b \<noteq> []" | "ch_topic b = []" "ch_topic a \<noteq> []"
      | "ch_topic a \<noteq> []" "ch_topic b \<noteq> []" using False by metis
    then show ?thesis
    proof cases
      case 3
      consider "ch_topic_time a > ch_topic_time b" | "ch_topic_time b > ch_topic_time a"
        | "ch_topic_time a = ch_topic_time b" "s > 0" | "ch_topic_time a = ch_topic_time b" "s < 0" using s(1) by linarith
      then show ?thesis unfolding topic_in_view [OF assms(1)] topic_in_view [OF assms(2)] w using 3 by cases simp_all
    qed (simp_all add: topic_in_view [OF assms(1)] topic_in_view [OF assms(2)] w)
  qed
  then show ?thesis by (simp add: topic_view_def)
qed

section \<open>The members of a burst\<close>

definition uid_ok :: "string \<Rightarrow> bool" where
  "uid_ok u \<longleftrightarrow> length u = 9 \<and> list_all (\<lambda>c. c_isdigit c \<or> c_isupper c) u"

lemma uid_char: "uid_ok u \<Longrightarrow> c \<in> set u \<Longrightarrow> c \<noteq> SP \<and> rank_of_char c = None"
  by (auto simp: uid_ok_def list_all_iff rank_of_char_def ctype_simps)

lemma rank_prefix_length: "length (rank_prefix_all r) \<le> 5 \<and> SP \<notin> set (rank_prefix_all r)"
proof -
  have "length (rank_prefix_all r) \<le> length rank_table"
    by (simp add: rank_prefix_all_def channel_rank_prefix_def length_filter_le)
  also have "length rank_table = 5" by (simp add: rank_table_def)
  finally have "length (rank_prefix_all r) \<le> 5" .
  moreover have "SP \<notin> snd ` set rank_table" by code_simp
  ultimately show ?thesis by (auto simp: rank_prefix_all_def channel_rank_prefix_def)
qed

lemma member_token_ok:
  assumes "uid_ok u"
  shows "member_token r u = rank_prefix_all r @ u" and "token_ok 9 600 (member_token r u)"
proof -
  show e: "member_token r u = rank_prefix_all r @ u"
    using rank_prefix_length [of r] assms by (simp add: member_token_def uid_ok_def)
  show "token_ok 9 600 (member_token r u)"
    using rank_prefix_length [of r] uid_char [OF assms, of SP] assms unfolding e by (auto simp: token_ok_def uid_ok_def)
qed

section \<open>Properties\<close>

text \<open>
  C27. Two servers that link agree on a channel both have: when each takes in the other's burst,
  however its members are spread over lines, the older channel wins on both sides. They end with the
  same creation time, modes with all parameters, masks and topic, and every member has the same
  rank: its own if it is from the older side, none otherwise. The parameters are read back from the
  lines: the key and the redirect target must be ones a line can carry (a key that starts with a
  colon is altered on the way, and then the two sides do not agree), the times positive.
\<close>

theorem ts_merge_converges:
  assumes "modes_ok old" and "modes_safe old" and "list_ok (ch_bans old)" and "list_ok (ch_exceptions old)" and "list_ok (ch_invex old)"
    and "topic_ok old" and "topic_ok young" and "0 < ch_created old" and "ch_created old < ch_created young" and "ch_created young \<le> LONG_MAX"
    and "og \<noteq> []" and "concat og = ranks_of old" and "concat yg = ranks_of young"
    and "\<forall>i. channel_find_member old i = None \<or> channel_find_member young i = None"
  shows "let old' = burst_in now young yg old; young' = burst_in now old og young
    in ch_created old' = ch_created young' \<and> mode_view old' = mode_view young' \<and> masks_view old' = masks_view young' \<and>
       ch_topic old' = ch_topic young' \<and> (\<forall>i. rank_in old' i = rank_in young' i)"
proof -
  define o1 where "o1 = fold (sjoin_in young) yg old"
  define y1 where "y1 = fold (sjoin_in old) og young"
  have t: "time_ok old" "time_ok young" using assms(8-10) by (simp_all add: time_ok_def)
  note o1 = sjoins_in_older [OF t(2) assms(9), of yg, folded o1_def]
  note y1 = sjoins_in_younger [OF assms(1,2) t(1) assms(9,11), folded y1_def]
  have e: "burst_in now young yg old = topic_in young o1"
    using o1 assms(9) t by (simp add: burst_in_def o1_def [symmetric] masks_in_older)
  have e2: "burst_in now old og young = topic_in old (masks_in now old y1)" by (simp add: burst_in_def y1_def)
  have ranks: "map_of (ranks_of c) i = rank_in c i" for c i
    by (simp add: ranks_of_def rank_in_def channel_find_member_def map_of_map)
  have rk: "rank_in o1 i = rank_in y1 i" for i
  proof -
    have "rank_in old i = None \<or> rank_in young i = None" using assms(14) by (auto simp: rank_in_def)
    then show ?thesis using o1 [of i] y1 [of i] unfolding assms(12,13) ranks by (auto split: option.splits)
  qed
  have lo: "lists_view o1 = lists_view old" and ly: "lists_view y1 = lists_view (reset_channel young)" using o1 y1 by blast+
  have "masks_view y1 = ([], [], [])"
    using ly by (simp add: masks_view_def lists_view_def reset_channel_def bump_free_def masklist_free_def masks_of_def Let_def)
  then have my: "masks_view (masks_in now old y1) = masks_view old"
    using y1 assms(3-5) t by (intro masks_in_fresh) auto
  have mo: "masks_view o1 = masks_view old" using lo by (simp add: masks_view_def lists_view_def)
  have topic: "ch_topic (topic_in young o1) = ch_topic (topic_in old (masks_in now old y1))"
  proof -
    have t: "topic_view o1 = topic_view old" "topic_view (masks_in now old y1) = topic_view young"
      using lo ly unfolding masks_in_rest by (simp_all add: topic_view_def lists_view_def reset_channel_def)
    have "topic_view (topic_in c d) = topic_view (topic_in c d')" if "topic_view d = topic_view d'" "topic_ok c" for c d d'
      using that unfolding topic_in_view [OF that(2)] by (simp add: topic_wins_def topic_view_def)
    then have "topic_view (topic_in young o1) = topic_view (topic_in young old)"
      "topic_view (topic_in old (masks_in now old y1)) = topic_view (topic_in old young)" using t assms(6,7) by blast+
    then show ?thesis using topics_agree [OF assms(6,7)] by (simp add: topic_view_def)
  qed
  show ?thesis unfolding Let_def e e2 topic_in_rest masks_in_rest my mo
    using o1 y1 rk topic by simp
qed

text \<open>Two channels with modes of every kind, a ban and a topic, and one member each.\<close>

definition demo_old :: channel where
  "demo_old =
     (the (channel_set_flood (channel_new ''#c'' ''#c'' 100) ''5:10''))\<lparr>ch_key := ''key'', ch_limit := 7,
        ch_modes := CMODE_N OR CMODE_T OR CMODE_K OR CMODE_L OR CMODE_FLOOD,
        ch_bans := snd (masklist_add 9 ''bad!*@*'' empty_masklist), ch_topic := ''hello'', ch_topic_setter := ''a'', ch_topic_time := 3,
        ch_members := [(1, new_member\<lparr>mb_rank := RANK_OP\<rparr>)]\<rparr>"

definition demo_young :: channel where
  "demo_young = (channel_new ''#c'' ''#c'' 200)\<lparr>ch_modes := CMODE_I, ch_topic := ''later'', ch_topic_setter := ''b'', ch_topic_time := 4,
     ch_members := [(2, new_member\<lparr>mb_rank := RANK_OP\<rparr>)]\<rparr>"

lemma demo_old_ok: "modes_ok demo_old \<and> modes_safe demo_old \<and> list_ok (ch_bans demo_old) \<and> list_ok (ch_exceptions demo_old) \<and> list_ok (ch_invex demo_old) \<and>
  topic_ok demo_old \<and> topic_ok demo_young"
proof -
  have "channel_set_flood (channel_new ''#c'' ''#c'' 100) ''5:10'' \<noteq> None" by code_simp
  then obtain c where c: "channel_set_flood (channel_new ''#c'' ''#c'' 100) ''5:10'' = Some c" by auto
  have "flood_view demo_old = flood_view c" by (simp add: demo_old_def c flood_view_def)
  moreover have "has (ch_modes demo_old) CMODE_FLOOD" by code_simp
  ultimately have "flood_ok demo_old" using c unfolding flood_ok_def by auto
  moreover have "ch_modes demo_old AND NOT (flag_mask OR PARAM_MODES) = 0" "has (ch_modes demo_old) CMODE_K" "ch_key demo_old = ''key''"
    "has (ch_modes demo_old) CMODE_L" "ch_limit demo_old = 7" "\<not> has (ch_modes demo_old) CMODE_REDIRECT" "ch_redirect demo_old = []"
    "\<not> has (ch_modes demo_old) CMODE_JTHROT" "ch_jt_joins demo_old = 0" "ch_jt_secs demo_old = 0" by code_simp+
  ultimately have "modes_ok demo_old" by (simp add: modes_ok_def)
  moreover have "list_ok (ch_bans demo_old)" "list_ok (ch_exceptions demo_old)" "list_ok (ch_invex demo_old)" "topic_ok demo_old" "topic_ok demo_young"
    "modes_safe demo_old" by code_simp+
  ultimately show ?thesis by blast
qed

theorem ts_merge_converges_witness:
  "rank_in (burst_in 5 demo_old [ranks_of demo_old] demo_young) 1 = rank_in (burst_in 5 demo_young [ranks_of demo_young] demo_old) 1 \<and>
   ch_topic (burst_in 5 demo_old [ranks_of demo_old] demo_young) = ch_topic (burst_in 5 demo_young [ranks_of demo_young] demo_old)"
proof -
  have t: "0 < ch_created demo_old" "ch_created demo_old < ch_created demo_young" "ch_created demo_young \<le> LONG_MAX" by code_simp+
  have d: "\<forall>i. channel_find_member demo_old i = None \<or> channel_find_member demo_young i = None"
    by (simp add: demo_old_def demo_young_def channel_find_member_def)
  show ?thesis
    using ts_merge_converges [of demo_old demo_young "[ranks_of demo_old]" "[ranks_of demo_young]" 5] demo_old_ok t d
    by (simp add: Let_def)
qed

text \<open>
  C28. No member of a channel is lost in a burst: spread over SJOIN lines of less than 600 bytes, the
  tokens give back every member with its rank, in order, and no line has more members than the 63 a
  receiver takes from one.
\<close>

theorem burst_members_complete:
  assumes "list_all (\<lambda>(r, u). rank_ok r \<and> uid_ok u) ms"
  shows "let ls = chunk_tokens 600 (map (\<lambda>(r, u). member_token r u) ms) []
    in map rank_from_prefix (concat (map (strtok (\<lambda>c. c = SP)) ls)) = ms \<and>
       list_all (\<lambda>l. length l < 600 \<and> length (strtok (\<lambda>c. c = SP) l) < 64) ls"
proof -
  define toks where "toks = map (\<lambda>(r, u). member_token r u) ms"
  have "list_all (token_ok 9 600) toks"
    using assms member_token_ok(2) by (auto simp: toks_def list_all_iff)
  note c = chunks_split [OF this, of "[]", simplified]
  have "rank_from_prefix (member_token r u) = (r, u)" if "rank_ok r" "uid_ok u" for r u
  proof -
    have "rank_of_char (hd u) = None" using uid_char [OF that(2), of "hd u"] that(2) by (cases u) (auto simp: uid_ok_def)
    then show ?thesis unfolding member_token_ok(1) [OF that(2)] by (intro rank_roundtrip [OF that(1)]) simp
  qed
  then have "map rank_from_prefix toks = ms"
    using assms unfolding toks_def map_map by (intro map_idI) (auto simp: list_all_iff)
  moreover have "length (strtok (\<lambda>c. c = SP) l) < 64" if "length l < 600" "length (strtok (\<lambda>c. c = SP) l) * 10 \<le> length l + 1" for l
    using that by linarith
  ultimately show ?thesis using c unfolding Let_def toks_def [symmetric] by (auto simp: list_all_iff)
qed

theorem burst_members_complete_witness:
  "map rank_from_prefix (concat (map (strtok (\<lambda>c. c = SP)) (chunk_tokens 600 [member_token RANK_OP ''1AB000001'', member_token 0 ''1AB000002''] [])))
    = [(RANK_OP, ''1AB000001''), (0, ''1AB000002'')]"
proof -
  have "list_all (\<lambda>(r, u). rank_ok r \<and> uid_ok u) [(RANK_OP, ''1AB000001''), (0, ''1AB000002'')]" by code_simp
  from burst_members_complete [OF this] show ?thesis by (simp add: Let_def)
qed






end
