(* ===== verification/Netsync.thy ===== *)
theory Netsync
  imports Server Tsmerge
begin

text \<open>
  The network of linked servers (src/src/netsync.c): the tree of servers, the unique ids of users,
  the handlers of the lines that arrive on a link, and what a link that comes up or goes down does.

  A server other than this one and a link are named by numbers that stand for their addresses. A
  line handed to a link is \<open>Line l text\<close> in \<open>n_out\<close>; the other outputs are the calls of the modules
  that serve account services (src/src/link.c, src/src/cmd_reg.c) and of the commands that deliver
  messages. Memory allocation succeeds, and the clock is the field \<open>w_now\<close> of the world.
\<close>

unbundle bit_operations_syntax

section \<open>The state\<close>

definition SID_LEN :: nat where "SID_LEN = 3"
definition UID_LEN :: nat where "UID_LEN = 9"

definition CAP_AWAY_NOTIFY :: flags where "CAP_AWAY_NOTIFY = 0x0001"
definition CAP_CHGHOST :: flags where "CAP_CHGHOST = 0x0010"
definition CAP_SETNAME :: flags where "CAP_SETNAME = 0x0008"
definition CAP_EXTENDED_JOIN :: flags where "CAP_EXTENDED_JOIN = 0x0040"
definition CAP_INVITE_NOTIFY :: flags where "CAP_INVITE_NOTIFY = 0x0800"

record link =
  lk_authenticated :: bool
  lk_is_server :: bool
  lk_closing :: bool
  lk_nserver :: "nat option"
  lk_peer_name :: string
  lk_bots :: "client_id list"

datatype net_out =
    Line nat string
  | Chan_New string
  | Merge_Ranks string client_id flags
  | Chan_Join string client_id
  | Svc_Command irc_message
  | Deliver client_id irc_message string
  | Ml_Part client_id string bool string
  | Redact client_id "string option" "client_id option" string "string option"
  | Rename string client_id string string
  | Run_Query client_id string "string list"
  | Run_Override client_id string "string list"

record net =
  n_sv :: server
  n_links :: "(nat \<times> link) list"
  n_self :: nat
  n_uid_counter :: "64 word"
  n_netjoin :: "nat option"
  n_out :: "net_out list"

definition on_sv :: "(server \<Rightarrow> server) \<Rightarrow> net \<Rightarrow> net" where
  "on_sv f N = N\<lparr>n_sv := f (n_sv N)\<rparr>"

definition tell :: "net_out \<Rightarrow> net \<Rightarrow> net" where
  "tell e N = N\<lparr>n_out := n_out N @ [e]\<rparr>"

abbreviation servers :: "net \<Rightarrow> (nat \<times> netserver) list" where
  "servers N \<equiv> sv_servers (n_sv N)"

abbreviation the_server :: "net \<Rightarrow> nat \<Rightarrow> netserver" where
  "the_server N s \<equiv> the (map_of (servers N) s)"

abbreviation n_client :: "net \<Rightarrow> client_id \<Rightarrow> client" where
  "n_client N i \<equiv> sv_client (n_sv N) i"

text \<open>An address that is not in use.\<close>

definition unused :: "nat list \<Rightarrow> nat" where
  "unused xs = Suc (foldr max xs 0)"

section \<open>Identity\<close>

definition B36 :: string where "B36 = ''0123456789ABCDEFGHIJKLMNOPQRSTUVWXYZ''"

definition netsync_default_sid :: "string \<Rightarrow> string" where
  "netsync_default_sid name =
     (let h = unat (fold (\<lambda>c h. h * 33 + word_of_nat (byte c)) name (5381 :: 64 word))
      in [char_of (48 + h mod 10), B36 ! (h div 10 mod 36), B36 ! (h div 360 mod 36)])"

text \<open>Of entries with the same key the hash table finds the one that was added last.\<close>

definition netsync_find_sid :: "net \<Rightarrow> string \<Rightarrow> nat option" where
  "netsync_find_sid N sid = map_option fst (find (\<lambda>(s, ns). ns_sid ns = sid) (rev (servers N)))"

definition netsync_find_name :: "net \<Rightarrow> string \<Rightarrow> nat option" where
  "netsync_find_name N name = map_option fst (find (\<lambda>(s, ns). strcaseeq (ns_name ns) name) (servers N))"

text \<open>The walk to the root; it ends within as many steps as there are servers.\<close>

fun behind_walk :: "nat \<Rightarrow> (nat \<times> netserver) list \<Rightarrow> nat \<Rightarrow> nat \<Rightarrow> bool" where
  "behind_walk 0 S s a = False"
| "behind_walk (Suc n) S s a =
     (s = a \<or> (case map_of S s of
                  None \<Rightarrow> False
                | Some ns \<Rightarrow> (case ns_uplink ns of None \<Rightarrow> False | Some u \<Rightarrow> behind_walk n S u a)))"

definition netsync_is_behind :: "(nat \<times> netserver) list \<Rightarrow> nat \<Rightarrow> nat \<Rightarrow> bool" where
  "netsync_is_behind S s a = behind_walk (Suc (length S)) S s a"

text \<open>The last six characters of a UID: the number in base 36, padded and cut to six digits.\<close>

fun b36_tail :: "nat \<Rightarrow> nat \<Rightarrow> string" where
  "b36_tail 0 n = []"
| "b36_tail (Suc k) n = b36_tail k (n div 36) @ [B36 ! (n mod 36)]"

definition make_uid :: "string \<Rightarrow> nat \<Rightarrow> string" where
  "make_uid sid n = clip (UID_LEN + 1) (sid @ b36_tail 6 n)"

definition add_n_users :: "int \<Rightarrow> nat \<Rightarrow> server \<Rightarrow> server" where
  "add_n_users d s sv =
     (case map_of (sv_servers sv) s of
        None \<Rightarrow> sv
      | Some ns \<Rightarrow> sv\<lparr>sv_servers := AList.update s (ns\<lparr>ns_n_users := ns_n_users ns + d\<rparr>) (sv_servers sv)\<rparr>)"

definition netsync_assign_uid :: "client_id \<Rightarrow> net \<Rightarrow> net" where
  "netsync_assign_uid i N =
     (if c_uid (n_client N i) \<noteq> [] then N
      else (let n = n_uid_counter N + 1; uid = make_uid (ns_sid (the_server N (n_self N))) (unat n)
            in N\<lparr>n_uid_counter := n,
                 n_sv := (add_n_users 1 (n_self N)
                    (sv_write i ((n_client N i)\<lparr>c_uid := uid, c_nserver := Some (n_self N)\<rparr>) (n_sv N)))
                   \<lparr>sv_by_uid := sv_by_uid (n_sv N) @ [(uid, i)]\<rparr>\<rparr>))"

definition netsync_find_uid :: "net \<Rightarrow> string \<Rightarrow> client_id option" where
  "netsync_find_uid N uid = map_of (sv_by_uid (n_sv N)) uid"

definition link_ready :: "link \<Rightarrow> bool" where
  "link_ready lk \<longleftrightarrow> lk_authenticated lk \<and> lk_is_server lk \<and> \<not> lk_closing lk"

definition netsync_has_links :: "net \<Rightarrow> bool" where
  "netsync_has_links N = list_ex (\<lambda>(l, lk). link_ready lk) (n_links N)"

section \<open>Sending\<close>

definition send_link :: "nat \<Rightarrow> string \<Rightarrow> net \<Rightarrow> net" where
  "send_link l line N =
     (case map_of (n_links N) l of
        None \<Rightarrow> N
      | Some lk \<Rightarrow> if link_ready lk then tell (Line l line) N else N)"

definition flood :: "nat option \<Rightarrow> string \<Rightarrow> net \<Rightarrow> net" where
  "flood except line N = fold (\<lambda>l N. if except = Some l then N else send_link l line N) (map fst (n_links N)) N"

definition route_to :: "nat option \<Rightarrow> string \<Rightarrow> net \<Rightarrow> net" where
  "route_to dest line N =
     (case dest of
        None \<Rightarrow> N
      | Some s \<Rightarrow> (case map_of (servers N) s of
          None \<Rightarrow> N
        | Some ns \<Rightarrow> (case ns_route ns of None \<Rightarrow> N | Some l \<Rightarrow> send_link l line N)))"

definition self_sid :: "net \<Rightarrow> string" where
  "self_sid N = ns_sid (the_server N (n_self N))"

definition net_line :: "nat \<Rightarrow> string \<Rightarrow> string \<Rightarrow> string list \<Rightarrow> string option \<Rightarrow> string" where
  "net_line sz src verb ps trailing = reply_line sz (Some src) verb ps trailing"

definition link_close :: "nat \<Rightarrow> net \<Rightarrow> net" where
  "link_close l N =
     (case map_of (n_links N) l of
        None \<Rightarrow> N
      | Some lk \<Rightarrow> N\<lparr>n_links := AList.update l (lk\<lparr>lk_closing := True\<rparr>) (n_links N)\<rparr>)"

definition umode_map :: "(char \<times> flags) list" where
  "umode_map =
     [(CHR ''i'', UMODE_I), (CHR ''w'', UMODE_W), (CHR ''d'', UMODE_DEAF), (CHR ''T'', UMODE_D), (CHR ''s'', UMODE_S),
      (CHR ''o'', UMODE_O), (CHR ''Z'', UMODE_Z), (CHR ''X'', UMODE_SECUREONLY), (CHR ''r'', UMODE_R), (CHR ''p'', UMODE_P),
      (CHR ''I'', UMODE_HIDEIDLE), (CHR ''H'', UMODE_H), (CHR ''q'', UMODE_Q), (CHR ''R'', UMODE_REGONLY), (CHR ''D'', UMODE_NOPM),
      (CHR ''B'', UMODE_B), (CHR ''g'', UMODE_G), (CHR ''x'', UMODE_X), (CHR ''W'', UMODE_WHOISNOTE)]"

definition umodes_to_string :: "client \<Rightarrow> string" where
  "umodes_to_string cl =
     ''+'' @ map fst (filter (\<lambda>(c, b). has (c_umodes cl) b) umode_map) @ (if c_is_service cl then ''S'' else [])"

fun umodes_from_string :: "string \<Rightarrow> flags \<times> bool" where
  "umodes_from_string [] = (0, False)"
| "umodes_from_string (c # s) =
     (let (bits, svc) = umodes_from_string s
      in if c = CHR ''S'' then (bits, True)
         else (fold (\<lambda>(l, b) m. if l = c then m OR b else m) umode_map bits, svc))"

section \<open>The burst\<close>

definition uid_lines :: "net \<Rightarrow> client \<Rightarrow> string list" where
  "uid_lines N u =
     (let (hop, sid) = (case c_nserver u of
              None \<Rightarrow> (1, []) | Some s \<Rightarrow> (ns_hop (the_server N s) + 1, ns_sid (the_server N s)))
      in [net_line 1100 sid ''UID''
            [c_nick u, show_int hop, show_int (c_nick_ts u), umodes_to_string u, c_user u, c_host u, c_realhost u, c_ip u, c_uid u,
             if c_account u \<noteq> [] then c_account u else ''*'', if c_ident_confirmed u then ''1'' else ''0''] (Some (c_realname u))] @
         (if c_certfp u \<noteq> [] then [net_line 1100 (c_uid u) ''CERTFP'' [c_certfp u] None] else []) @
         (if c_is_away u then [net_line 1100 (c_uid u) ''AWAY'' [] (Some (c_away u))] else []))"

definition link_lines :: "nat \<Rightarrow> string list \<Rightarrow> net \<Rightarrow> net" where
  "link_lines l ls N = fold (send_link l) ls N"

text \<open>Whether a client or server is reached through the link.\<close>

definition routed :: "net \<Rightarrow> nat option \<Rightarrow> nat \<Rightarrow> bool" where
  "routed N s l = (case s of None \<Rightarrow> False | Some x \<Rightarrow> ns_route (the_server N x) = Some l)"

definition burst_servers :: "net \<Rightarrow> nat \<Rightarrow> string list" where
  "burst_servers N l =
     (let list = take 256 (filter (\<lambda>(s, ns). s \<noteq> n_self N \<and> ns_route ns \<noteq> Some l) (servers N))
      in map (\<lambda>(s, ns). net_line 1200 (case ns_uplink ns of Some u \<Rightarrow> ns_sid (the_server N u) | None \<Rightarrow> []) ''SERVER''
                [ns_name ns, show_int (ns_hop ns + 1), ns_sid ns] (Some (ns_desc ns)))
           (sort_key (\<lambda>(s, ns). ns_hop ns) list))"

definition burst_users :: "net \<Rightarrow> nat \<Rightarrow> string list" where
  "burst_users N l =
     concat (map (\<lambda>(k, i). let u = n_client N i
        in if c_uid u = [] \<or> c_nserver u = None \<or> routed N (c_nserver u) l then [] else uid_lines N u) (sv_users (n_sv N)))"

definition burst_masks :: "net \<Rightarrow> channel \<Rightarrow> string \<Rightarrow> masklist \<Rightarrow> string list" where
  "burst_masks N c letter ml =
     map (\<lambda>m. net_line 1200 (self_sid N) ''BMASK'' [show_int (ch_created c), ch_name c, letter] (Some m))
       (chunk_tokens 700 (map me_mask (ml_entries ml)) [])"

definition burst_channel :: "net \<Rightarrow> nat \<Rightarrow> channel \<Rightarrow> string list" where
  "burst_channel N l c =
     (let ours = filter (\<lambda>(i, m). \<not> routed N (c_nserver (n_client N i)) l) (ch_members c);
          toks = map (\<lambda>(i, m). member_token (mb_rank m) (c_uid (n_client N i))) (filter (\<lambda>(i, m). c_uid (n_client N i) \<noteq> []) ours)
      in if ours = [] then []
         else map (\<lambda>ms. net_line 1200 (self_sid N) ''SJOIN'' (show_int (ch_created c) # ch_name c # burst_modes c) (Some ms))
                (chunk_tokens 600 toks []) @
              burst_masks N c ''b'' (ch_bans c) @ burst_masks N c ''e'' (ch_exceptions c) @ burst_masks N c ''I'' (ch_invex c) @
              (if ch_topic c = [] then []
               else [net_line 1200 (self_sid N) ''TB''
                       [ch_name c, show_int (ch_topic_time c), if ch_topic_setter c \<noteq> [] then ch_topic_setter c else ''*''] (Some (ch_topic c))]))"

definition burst_line_bans :: "net \<Rightarrow> string list" where
  "burst_line_bans N =
     map (\<lambda>k. net_line 1200 (self_sid N) (if line_is CHR ''G'' (kl_type k) then ''GLINE'' else ''SHUN'')
            [kl_mask k, kl_set_by k, show_int (kl_expires k)] (Some (kl_reason k)))
       (filter (\<lambda>k. line_is CHR ''G'' (kl_type k) \<or> line_is CHR ''S'' (kl_type k)) (kt_lines (sv_lines (n_sv N))))"

definition send_burst :: "nat \<Rightarrow> net \<Rightarrow> net" where
  "send_burst l N =
     link_lines l (burst_servers N l @ burst_users N l @ concat (map (\<lambda>(k, c). burst_channel N l c) (sv_channels (n_sv N))) @
                   burst_line_bans N @ [net_line 1200 (self_sid N) ''EOB'' [] None]) N"

section \<open>A link comes up\<close>

definition add_server :: "netserver \<Rightarrow> net \<Rightarrow> nat \<times> net" where
  "add_server ns N =
     (let s = unused (map fst (servers N)) in (s, on_sv (\<lambda>sv. sv\<lparr>sv_servers := sv_servers sv @ [(s, ns)]\<rparr>) N))"

definition set_link :: "nat \<Rightarrow> (link \<Rightarrow> link) \<Rightarrow> net \<Rightarrow> net" where
  "set_link l f N = (case map_of (n_links N) l of None \<Rightarrow> N | Some lk \<Rightarrow> N\<lparr>n_links := AList.update l (f lk) (n_links N)\<rparr>)"

text \<open>A line for a link whatever its state, unless it is closing (\<open>link_forward_line\<close>).\<close>

definition link_forward_line :: "nat \<Rightarrow> string \<Rightarrow> net \<Rightarrow> net" where
  "link_forward_line l line N =
     (case map_of (n_links N) l of None \<Rightarrow> N | Some lk \<Rightarrow> if lk_closing lk then N else tell (Line l line) N)"

definition netsync_link_up :: "world \<Rightarrow> nat \<Rightarrow> string \<Rightarrow> string \<Rightarrow> string \<Rightarrow> net \<Rightarrow> bool \<times> net" where
  "netsync_link_up W l name sid desc N =
     (if netsync_find_sid N sid \<noteq> None \<or> netsync_find_name N name \<noteq> None
      then (False, link_forward_line l ''ERROR :Server or SID already exists on this network'' N)
      else (let ns = \<lparr>ns_name = clip 128 name, ns_sid = clip (SID_LEN + 1) sid, ns_desc = clip 128 desc, ns_hop = 1,
                      ns_uplink = Some (n_self N), ns_route = Some l, ns_n_users = 0\<rparr>;
                (s, N1) = add_server ns N;
                N2 = set_link l (\<lambda>lk. lk\<lparr>lk_is_server := True, lk_nserver := Some s\<rparr>) N1;
                N3 = on_sv (server_fbatch_begin W FB_NETJOIN ''netjoin'' (ns_name (the_server N (n_self N))) name) N2;
                N4 = send_burst l (N3\<lparr>n_netjoin := Some l\<rparr>)
            in (True, flood (Some l) (net_line 300 (self_sid N) ''SERVER'' [name, ''2'', sid] (Some (clip 128 desc))) N4)))"

section \<open>A part of the tree goes away\<close>

definition behind :: "net \<Rightarrow> nat option \<Rightarrow> nat option \<Rightarrow> bool" where
  "behind N s a = (case (s, a) of (Some x, Some y) \<Rightarrow> netsync_is_behind (servers N) x y | _ \<Rightarrow> False)"

definition split_user :: "world \<Rightarrow> nat \<Rightarrow> string \<Rightarrow> client_id \<Rightarrow> net \<Rightarrow> net" where
  "split_user W root reason i N =
     (let u = n_client N i
      in if c_remote u \<and> behind N (c_nserver u) (Some root) then on_sv (server_remove_client W i (Some reason)) N else N)"

definition unlink_servers :: "nat \<Rightarrow> net \<Rightarrow> net" where
  "unlink_servers root N =
     on_sv (\<lambda>sv. sv\<lparr>sv_servers := filter (\<lambda>(s, _). \<not> (s \<noteq> n_self N \<and> netsync_is_behind (sv_servers sv) s root)) (sv_servers sv)\<rparr>) N"

definition remove_server_tree :: "world \<Rightarrow> nat \<Rightarrow> net \<Rightarrow> net" where
  "remove_server_tree W root N =
     (let ns = the_server N root;
          up = (case ns_uplink ns of Some u \<Rightarrow> ns_name (the_server N u) | None \<Rightarrow> ns_name (the_server N (n_self N)));
          reason = clip 300 (up @ '' '' @ ns_name ns);
          N1 = on_sv (server_fbatch_begin W FB_NETSPLIT ''netsplit'' up (ns_name ns)) N;
          prev = sv_fb_cur (n_sv N1);
          N2 = on_sv (\<lambda>sv. sv\<lparr>sv_fb_cur := FB_NETSPLIT\<rparr>) N1;
          N3 = fold (split_user W root reason) (map snd (sv_users (n_sv N2))) N2;
          N4 = on_sv (\<lambda>sv. server_fbatch_end W FB_NETSPLIT (sv\<lparr>sv_fb_cur := prev\<rparr>)) N3
      in unlink_servers root N4)"

definition netsync_link_down :: "world \<Rightarrow> nat \<Rightarrow> string \<Rightarrow> net \<Rightarrow> net" where
  "netsync_link_down W l reason N =
     (case map_of (n_links N) l of
        None \<Rightarrow> N
      | Some lk \<Rightarrow> (case lk_nserver lk of
          None \<Rightarrow> N
        | Some root \<Rightarrow>
            (let name = ns_name (the_server N root); sid = ns_sid (the_server N root);
                 N1 = (if n_netjoin N = Some l then (on_sv (server_fbatch_end W FB_NETJOIN) N)\<lparr>n_netjoin := None\<rparr> else N);
                 N2 = remove_server_tree W root (set_link l (\<lambda>lk. lk\<lparr>lk_nserver := None\<rparr>) N1);
                 N3 = flood (Some l) (net_line 300 (self_sid N2) ''SQUIT'' [sid] (Some reason)) N2
             in on_sv (server_notify_opers W (clip 240 (''Netsplit: '' @ ns_name (the_server N (n_self N)) @ '' '' @ name))) N3)))"

section \<open>Who a line is from\<close>

definition src_server :: "net \<Rightarrow> nat option \<Rightarrow> string option \<Rightarrow> nat option" where
  "src_server N lns pfx =
     (case pfx of
        None \<Rightarrow> None
      | Some p \<Rightarrow> (case netsync_find_sid N p of
          None \<Rightarrow> None
        | Some s \<Rightarrow> if s \<noteq> n_self N \<and> behind N (Some s) lns then Some s else None))"

definition src_user :: "net \<Rightarrow> nat option \<Rightarrow> string option \<Rightarrow> client_id option" where
  "src_user N lns pfx =
     (case pfx of
        None \<Rightarrow> None
      | Some p \<Rightarrow> (case netsync_find_uid N p of
          None \<Rightarrow> None
        | Some i \<Rightarrow> if c_remote (n_client N i) \<and> behind N (c_nserver (n_client N i)) lns then Some i else None))"

text \<open>The handlers that introduce things also accept the SID of the peer itself.\<close>

definition src_peer :: "net \<Rightarrow> nat option \<Rightarrow> string option \<Rightarrow> nat option" where
  "src_peer N lns pfx =
     (case src_server N lns pfx of
        Some s \<Rightarrow> Some s
      | None \<Rightarrow> (case (pfx, lns) of
          (Some p, Some s) \<Rightarrow> if p = ns_sid (the_server N s) then Some s else None
        | _ \<Rightarrow> None))"

section \<open>Servers\<close>

definition handle_server :: "world \<Rightarrow> nat \<Rightarrow> nat option \<Rightarrow> irc_message \<Rightarrow> net \<Rightarrow> net" where
  "handle_server W l lns msg N =
     (let ps = msg_params msg
      in case src_peer N lns (msg_prefix msg) of
           None \<Rightarrow> N
         | Some src \<Rightarrow>
             if length ps < 4 then N
             else (let name = ps ! 0; sid = ps ! 2; desc = ps ! 3; hop = atoi (ps ! 1)
                   in if netsync_find_sid N sid \<noteq> None \<or> netsync_find_name N name \<noteq> None
                      then link_close l (link_forward_line l ''ERROR :Server loop or duplicate detected'' N)
                      else (let h = (if hop > 0 then hop else ns_hop (the_server N src) + 1);
                                ns = \<lparr>ns_name = clip 128 name, ns_sid = clip (SID_LEN + 1) sid, ns_desc = clip 128 desc, ns_hop = h,
                                      ns_uplink = Some src, ns_route = Some l, ns_n_users = 0\<rparr>;
                                (s, N1) = add_server ns N;
                                N2 = flood (Some l) (net_line 300 (ns_sid (the_server N src)) ''SERVER''
                                       [name, show_int (h + 1), sid] (Some desc)) N1
                            in on_sv (server_notify_opers W (clip 240 (''Server '' @ name @ '' ('' @ sid @ '') introduced by '' @
                                 ns_name (the_server N src)))) N2)))"

definition last_param :: "irc_message \<Rightarrow> string" where
  "last_param msg = last (msg_params msg)"

definition handle_squit :: "world \<Rightarrow> nat \<Rightarrow> nat option \<Rightarrow> irc_message \<Rightarrow> net \<Rightarrow> net" where
  "handle_squit W l lns msg N =
     (case msg_params msg of
        [] \<Rightarrow> N
      | p # ps \<Rightarrow>
          (case netsync_find_sid N p of
             None \<Rightarrow> N
           | Some s \<Rightarrow>
               if s = n_self N \<or> \<not> behind N (Some s) lns then N
               else if lns = Some s then link_close l N
               else (let reason = (if ps \<noteq> [] then last_param msg else ''SQUIT''); sid = ns_sid (the_server N s);
                         N1 = remove_server_tree W s N
                     in flood (Some l) (net_line 300 (self_sid N1) ''SQUIT'' [sid] (Some reason)) N1)))"

section \<open>Users\<close>

definition evict_local_for_collision :: "client_id \<Rightarrow> server \<Rightarrow> server" where
  "evict_local_for_collision i sv =
     (let old = sv_client sv i;
          sv1 = (if map_of (sv_users sv) (c_casefold_nick old) = Some i
                 then sv\<lparr>sv_users := AList.delete (c_casefold_nick old) (sv_users sv)\<rparr> else sv);
          sv2 = sv_write i (old\<lparr>c_casefold_nick := [], c_quit_reason := ''Nick collision''\<rparr>) sv1
      in sv2\<lparr>sv_q := client_mark_quit i (sv_q sv2)\<rparr>)"

definition kill_line :: "net \<Rightarrow> string \<Rightarrow> string" where
  "kill_line N uid = net_line 300 (self_sid N) ''KILL'' [uid] (Some ''Nick collision'')"

text \<open>The holder of a nick loses it.\<close>

definition drop_holder :: "world \<Rightarrow> client_id \<Rightarrow> net \<Rightarrow> net" where
  "drop_holder W old N =
     (if c_remote (n_client N old)
      then on_sv (server_remove_client W old (Some ''Nick collision'')) (flood None (kill_line N (c_uid (n_client N old))) N)
      else on_sv (evict_local_for_collision old) N)"

definition resolve_collision :: "world \<Rightarrow> nat \<Rightarrow> string \<Rightarrow> int \<Rightarrow> string \<Rightarrow> net \<Rightarrow> bool \<times> net" where
  "resolve_collision W l nick ts newcomer_uid N =
     (case server_find_user nick (n_sv N) of
        None \<Rightarrow> (True, N)
      | Some old \<Rightarrow>
          (let old_ts = c_nick_ts (n_client N old); newcomer_wins = (ts < old_ts); tie = (ts = old_ts);
               N1 = (if tie \<or> \<not> newcomer_wins then send_link l (kill_line N newcomer_uid) N else N);
               N2 = (if tie \<or> newcomer_wins then drop_holder W old N1 else N1)
           in (newcomer_wins \<and> \<not> tie, N2)))"

text \<open>The record of a user on another server.\<close>

definition remote_client :: "nat \<Rightarrow> string list \<Rightarrow> int \<Rightarrow> client" where
  "remote_client src ps now =
     (let (bits, svc) = umodes_from_string (ps ! 3); ts = atol (ps ! 2)
      in (client_new (- 1) now)\<lparr>c_remote := True, c_registered := True, c_class_idx := - 1,
           c_nick := clip NICKLEN (ps ! 0), c_casefold_nick := irc_casefold NICKLEN (ps ! 0), c_user := clip USERLEN (ps ! 4),
           c_host := clip HOSTLEN (ps ! 5), c_realhost := clip HOSTLEN (ps ! 6), c_ip := clip 64 (ps ! 7),
           c_realname := clip REALNAMELEN (ps ! 11), c_account := (if ps ! 9 \<noteq> ''*'' then clip 64 (ps ! 9) else []),
           c_ident_confirmed := (take 1 (ps ! 10) = ''1''), c_umodes := bits, c_is_service := svc, c_nick_ts := ts,
           c_signon_time := ts, c_uid := clip (UID_LEN + 1) (ps ! 8), c_nserver := Some src\<rparr>)"

definition announce_user :: "world \<Rightarrow> client_id \<Rightarrow> server \<Rightarrow> server" where
  "announce_user W i sv = emit (Svc_User i SVC_EV_USER) (server_watch_notify W i True (server_monitor_notify W i True sv))"

definition enter_user :: "nat \<Rightarrow> client_id \<Rightarrow> client \<Rightarrow> server \<Rightarrow> server" where
  "enter_user src i cl sv =
     (let sv1 = add_n_users 1 src (sv\<lparr>sv_q := (sv_q sv)\<lparr>ev_clients := (i, cl) # ev_clients (sv_q sv)\<rparr>\<rparr>)
      in server_add_user i (sv1\<lparr>sv_by_uid := sv_by_uid sv1 @ [(c_uid cl, i)]\<rparr>))"

definition handle_uid :: "world \<Rightarrow> nat \<Rightarrow> nat option \<Rightarrow> irc_message \<Rightarrow> net \<Rightarrow> net" where
  "handle_uid W l lns msg N =
     (let ps = msg_params msg
      in case src_peer N lns (msg_prefix msg) of
           None \<Rightarrow> N
         | Some src \<Rightarrow>
             if length ps < 12 then N
             else (let nick = ps ! 0; uid = ps ! 8; ts = atol (ps ! 2)
                   in if \<not> irc_valid_nick nick (int NICKLEN - 1) \<or> length uid \<noteq> UID_LEN \<or> netsync_find_uid N uid \<noteq> None then N
                      else if take SID_LEN uid \<noteq> take SID_LEN (ns_sid (the_server N src)) then N
                      else (case resolve_collision W l nick ts uid N of
                              (False, N1) \<Rightarrow> N1
                            | (True, N1) \<Rightarrow>
                                (let i = unused (map fst (ev_clients (sv_q (n_sv N1))));
                                     N2 = on_sv (\<lambda>sv. announce_user W i (enter_user src i (remote_client src ps (w_now W)) sv)) N1
                                 in flood (Some l) (net_line 1100 (ns_sid (the_server N2 src)) ''UID''
                                      [nick, show_int (atoi (ps ! 1) + 1), ps ! 2, ps ! 3, ps ! 4, ps ! 5, ps ! 6, ps ! 7, uid, ps ! 9, ps ! 10]
                                      (Some (ps ! 11))) N2))))"

definition rename_user :: "world \<Rightarrow> client_id \<Rightarrow> string \<Rightarrow> int \<Rightarrow> server \<Rightarrow> server" where
  "rename_user W i newnick ts sv =
     (let line = reply_line 400 (Some (client_prefix (sv_client sv i) 320)) ''NICK'' [] (Some newnick);
          sv1 = server_watch_notify W i False (server_monitor_notify W i False (server_send_common_channels W i line 0 sv));
          sv2 = rekey_nick i newnick sv1;
          sv3 = sv_write i ((sv_client sv2 i)\<lparr>c_nick_ts := ts\<rparr>) sv2
      in server_watch_notify W i True (server_monitor_notify W i True (emit (Svc_User i SVC_EV_NICK) sv3)))"

definition handle_nick :: "world \<Rightarrow> nat \<Rightarrow> nat option \<Rightarrow> irc_message \<Rightarrow> net \<Rightarrow> net" where
  "handle_nick W l lns msg N =
     (case src_user N lns (msg_prefix msg) of
        None \<Rightarrow> N
      | Some u \<Rightarrow>
          if length (msg_params msg) < 2 then N
          else (let newnick = msg_params msg ! 0; ts = atol (msg_params msg ! 1); uid = c_uid (n_client N u);
                    go = (\<lambda>N. flood (Some l) (net_line 300 uid ''NICK'' [newnick, msg_params msg ! 1] None)
                                (on_sv (rename_user W u newnick ts) N))
                in if \<not> irc_valid_nick newnick (int NICKLEN - 1) then N
                   else (case server_find_user newnick (n_sv N) of
                           None \<Rightarrow> go N
                         | Some clash \<Rightarrow>
                             if clash = u then go N
                             else if ts < c_nick_ts (n_client N clash) then go (drop_holder W clash N)
                             else on_sv (server_remove_client W u (Some ''Nick collision''))
                                    (flood (Some l) (kill_line N uid) (send_link l (kill_line N uid) N)))))"

definition handle_quit :: "world \<Rightarrow> nat \<Rightarrow> nat option \<Rightarrow> irc_message \<Rightarrow> net \<Rightarrow> net" where
  "handle_quit W l lns msg N =
     (case src_user N lns (msg_prefix msg) of
        None \<Rightarrow> N
      | Some u \<Rightarrow>
          (let reason = (if msg_params msg \<noteq> [] then last_param msg else []); uid = c_uid (n_client N u)
           in flood (Some l) (net_line 400 uid ''QUIT'' [] (Some reason)) (on_sv (server_remove_client W u (Some reason)) N)))"

definition change_client :: "client_id \<Rightarrow> (client \<Rightarrow> client) \<Rightarrow> server \<Rightarrow> server" where
  "change_client i f sv = sv_write i (f (sv_client sv i)) sv"

text \<open>A change that is told to those who share a channel and to watchers with the capability.\<close>

definition tell_change :: "world \<Rightarrow> client_id \<Rightarrow> string \<Rightarrow> flags \<Rightarrow> server \<Rightarrow> server" where
  "tell_change W i line cap sv = server_monitor_extend W i line cap (server_send_common_channels W i line cap sv)"

definition handle_umode :: "nat \<Rightarrow> nat option \<Rightarrow> irc_message \<Rightarrow> net \<Rightarrow> net" where
  "handle_umode l lns msg N =
     (case (src_user N lns (msg_prefix msg), msg_params msg) of
        (Some u, m # _) \<Rightarrow>
          (let bits = fst (umodes_from_string m)
           in flood (Some l) (net_line 200 (c_uid (n_client N u)) ''UMODE'' [m] None)
                (on_sv (change_client u (\<lambda>c. c\<lparr>c_umodes := (if c_account c \<noteq> [] then bits OR UMODE_R else bits)\<rparr>)) N))
      | _ \<Rightarrow> N)"

definition handle_away :: "world \<Rightarrow> nat \<Rightarrow> nat option \<Rightarrow> irc_message \<Rightarrow> net \<Rightarrow> net" where
  "handle_away W l lns msg N =
     (case src_user N lns (msg_prefix msg) of
        None \<Rightarrow> N
      | Some u \<Rightarrow>
          (let t = (if msg_params msg \<noteq> [] then last_param msg else []); away = (t \<noteq> []); txt = take 399 t;
               N1 = on_sv (change_client u (\<lambda>c. c\<lparr>c_is_away := away, c_away := txt\<rparr>)) N;
               line = reply_line 500 (Some (client_prefix (n_client N1 u) 320)) ''AWAY'' [] (if away then Some txt else None)
           in flood (Some l) (net_line 500 (c_uid (n_client N u)) ''AWAY'' [] (Some (if away then txt else [])))
                (on_sv (tell_change W u line CAP_AWAY_NOTIFY) N1)))"

text \<open>The user a server speaks of, if it is on the far side of the link.\<close>

definition spoken_of :: "net \<Rightarrow> nat option \<Rightarrow> string \<Rightarrow> client_id option" where
  "spoken_of N lns uid =
     (case netsync_find_uid N uid of
        None \<Rightarrow> None
      | Some i \<Rightarrow> if c_remote (n_client N i) \<and> behind N (c_nserver (n_client N i)) lns then Some i else None)"

definition handle_chghost :: "world \<Rightarrow> nat \<Rightarrow> nat option \<Rightarrow> irc_message \<Rightarrow> net \<Rightarrow> net" where
  "handle_chghost W l lns msg N =
     (let ps = msg_params msg
      in case src_server N lns (msg_prefix msg) of
           None \<Rightarrow> N
         | Some src \<Rightarrow>
             if length ps < 3 then N
             else (case spoken_of N lns (ps ! 0) of
                     None \<Rightarrow> N
                   | Some u \<Rightarrow>
                       (let old = client_prefix (n_client N u) 320;
                            N1 = on_sv (change_client u (\<lambda>c. c\<lparr>c_user := clip USERLEN (ps ! 1), c_host := clip HOSTLEN (ps ! 2),
                                   c_ident_confirmed := (if length ps \<ge> 4 then take 1 (ps ! 3) = ''1'' else c_ident_confirmed c)\<rparr>)) N;
                            c = n_client N1 u;
                            line = reply_line 400 (Some old) ''CHGHOST'' [client_ident c, c_host c] None
                        in flood (Some l) (net_line 400 (ns_sid (the_server N src)) ''CHGHOST''
                                    [c_uid c, c_user c, c_host c, if c_ident_confirmed c then ''1'' else ''0''] None)
                             (on_sv (tell_change W u line CAP_CHGHOST) N1))))"

definition handle_setname :: "world \<Rightarrow> nat \<Rightarrow> nat option \<Rightarrow> irc_message \<Rightarrow> net \<Rightarrow> net" where
  "handle_setname W l lns msg N =
     (case src_user N lns (msg_prefix msg) of
        None \<Rightarrow> N
      | Some u \<Rightarrow>
          if msg_params msg = [] then N
          else (let N1 = on_sv (change_client u (\<lambda>c. c\<lparr>c_realname := clip REALNAMELEN (last_param msg)\<rparr>)) N;
                    c = n_client N1 u;
                    line = reply_line 500 (Some (client_prefix c 320)) ''SETNAME'' [] (Some (c_realname c))
                in flood (Some l) (net_line 500 (c_uid c) ''SETNAME'' [] (Some (c_realname c)))
                     (on_sv (tell_change W u line CAP_SETNAME) N1)))"

definition handle_account :: "world \<Rightarrow> nat \<Rightarrow> nat option \<Rightarrow> irc_message \<Rightarrow> net \<Rightarrow> net" where
  "handle_account W l lns msg N =
     (let ps = msg_params msg
      in case src_server N lns (msg_prefix msg) of
           None \<Rightarrow> N
         | Some src \<Rightarrow>
             if length ps < 2 then N
             else (case spoken_of N lns (ps ! 0) of
                     None \<Rightarrow> N
                   | Some u \<Rightarrow>
                       (let acct = ps ! 1; prefix = client_prefix (n_client N u) 320;
                            N1 = on_sv (change_client u (\<lambda>c. if acct = ''*'' then c\<lparr>c_account := [], c_umodes := c_umodes c AND NOT UMODE_R\<rparr>
                                   else c\<lparr>c_account := clip 64 acct, c_umodes := c_umodes c OR UMODE_R\<rparr>)) N;
                            line = reply_line 400 (Some prefix) ''ACCOUNT'' [acct] None
                        in flood (Some l) (net_line 300 (ns_sid (the_server N src)) ''ACCOUNT'' [c_uid (n_client N u), acct] None)
                             (on_sv (tell_change W u line CAP_ACCOUNT_NOTIFY) (on_sv (emit (Svc_User u SVC_EV_ACCOUNT)) N1)))))"

text \<open>A KILL for a user of ours; the name of the killer is that of the user or server it is from.\<close>

definition kill_local :: "world \<Rightarrow> client_id \<Rightarrow> string option \<Rightarrow> string \<Rightarrow> net \<Rightarrow> net" where
  "kill_local W target pfx reason N =
     (let killer = (case pfx of None \<Rightarrow> None | Some p \<Rightarrow> netsync_find_uid N p);
          by = (case killer of
                  Some k \<Rightarrow> c_nick (n_client N k)
                | None \<Rightarrow> (case pfx of
                    None \<Rightarrow> ''*''
                  | Some p \<Rightarrow> (case netsync_find_sid N p of Some s \<Rightarrow> ns_name (the_server N s) | None \<Rightarrow> ''*'')));
          prefix = (case killer of Some k \<Rightarrow> client_prefix (n_client N k) 320 | None \<Rightarrow> clip 320 by);
          nick = c_nick (n_client N target);
          sv1 = srv_send target (reply_line 500 (Some prefix) ''KILL'' [nick] (Some reason)) (n_sv N);
          sv2 = change_client target (\<lambda>c. c\<lparr>c_quit_reason := clip 256 (''Killed ('' @ by @ '' ('' @ reason @ ''))'')\<rparr>) sv1;
          sv3 = sv2\<lparr>sv_q := client_mark_quit target (sv_q sv2)\<rparr>
      in N\<lparr>n_sv := server_notify_opers W (clip 400 (''Received KILL message for '' @ nick @ ''. From '' @ by @ '': '' @ reason)) sv3\<rparr>)"

definition handle_kill :: "world \<Rightarrow> irc_message \<Rightarrow> net \<Rightarrow> net" where
  "handle_kill W msg N =
     (case msg_params msg of
        [] \<Rightarrow> N
      | uid # ps \<Rightarrow>
          (case netsync_find_uid N uid of
             None \<Rightarrow> N
           | Some target \<Rightarrow>
               (let reason = (if ps \<noteq> [] then last_param msg else ''Killed'')
                in if \<not> c_remote (n_client N target) then kill_local W target (msg_prefix msg) reason N
                   else route_to (c_nserver (n_client N target))
                          (reply_line 400 (msg_prefix msg) ''KILL'' [c_uid (n_client N target)] (Some reason)) N)))"

definition handle_certfp :: "nat \<Rightarrow> nat option \<Rightarrow> irc_message \<Rightarrow> net \<Rightarrow> net" where
  "handle_certfp l lns msg N =
     (case (src_user N lns (msg_prefix msg), msg_params msg) of
        (Some u, fp # _) \<Rightarrow>
          if length fp \<ge> 72 then N
          else flood (Some l) (net_line 200 (c_uid (n_client N u)) ''CERTFP'' [fp] None)
                 (on_sv (emit (Svc_User u SVC_EV_USER)) (on_sv (change_client u (\<lambda>c. c\<lparr>c_certfp := fp\<rparr>)) N))
      | _ \<Rightarrow> N)"

end
