(* ===== verification/Netchan.thy ===== *)
theory Netchan
  imports Netsync
begin

text \<open>
  The lines of a server link that are about channels and messages, the dispatcher of all lines, and
  the lines local events send out (src/src/netsync.c). Theory Tsmerge has what a burst does to one
  channel; here are the handlers that find the channel, tell the local members and pass the line on.

  What other modules do with a message that is for this server (src/src/cmd_user.c, cmd_chan.c,
  cmd_oper.c, link.c) is an output that names the call.
\<close>

unbundle bit_operations_syntax

section \<open>Channels\<close>

definition on_chan :: "string \<Rightarrow> (channel \<Rightarrow> channel) \<Rightarrow> server \<Rightarrow> server" where
  "on_chan k f sv = set_chan k (f (chan_of sv k)) sv"

text \<open>The line a member is shown of somebody else's join.\<close>

definition join_line :: "channel \<Rightarrow> client \<Rightarrow> client \<Rightarrow> string" where
  "join_line chan cl viewer =
     (let prefix = client_prefix cl 320
      in if has (c_caps viewer) CAP_EXTENDED_JOIN
         then reply_line 600 (Some prefix) ''JOIN'' [ch_name chan, if c_account cl \<noteq> [] then c_account cl else ''*''] (Some (c_realname cl))
         else reply_line 400 (Some prefix) ''JOIN'' [ch_name chan] None)"

definition tell_join :: "world \<Rightarrow> channel \<Rightarrow> client_id \<Rightarrow> client_id \<times> member \<Rightarrow> server \<Rightarrow> server" where
  "tell_join W chan i vm sv =
     (let cl = sv_client sv i; v = sv_client sv (fst vm); subject = channel_find_member chan i;
          account = reply_line 300 (Some (client_prefix cl 320)) ''ACCOUNT'' [c_account cl] None
      in if (case subject of Some s \<Rightarrow> \<not> channel_member_visible chan i s (Some vm) | None \<Rightarrow> False) then sv
         else (let sv1 = server_fbatch_send W (fst vm) (join_line chan cl v) sv
               in if c_account cl \<noteq> [] \<and> has (c_caps v) CAP_ACCOUNT_NOTIFY \<and> \<not> has (c_caps v) CAP_EXTENDED_JOIN
                  then srv_send (fst vm) account sv1 else sv1))"

text \<open>\<open>cmd_announce_join\<close> for a user of another server, which gets no topic and names from us.\<close>

definition announce_join :: "world \<Rightarrow> string \<Rightarrow> client_id \<Rightarrow> net \<Rightarrow> net" where
  "announce_join W k i N =
     (let chan = chan_of (n_sv N) k;
          plain = reply_line 400 (Some (client_prefix (n_client N i) 320)) ''JOIN'' [ch_name chan] None
      in tell (Chan_Join k i)
           (on_sv (\<lambda>sv. fold (tell_join W chan i) (ch_members chan) (server_history_event W k plain sv)) N))"

definition channel_reveal_member :: "string \<Rightarrow> client_id \<Rightarrow> server \<Rightarrow> server" where
  "channel_reveal_member k i sv =
     (case channel_find_member (chan_of sv k) i of
        None \<Rightarrow> sv
      | Some m \<Rightarrow>
          if \<not> mb_hidden m then sv
          else (let sv1 = on_chan k (\<lambda>c. set_member c i (m\<lparr>mb_hidden := False\<rparr>)) sv; chan = chan_of sv1 k; cl = sv_client sv i
                in fold (\<lambda>vm s. if fst vm = i \<or> \<not> channel_member_visible chan i (m\<lparr>mb_hidden := False\<rparr>) (Some vm) then s
                                 else srv_send (fst vm) (join_line chan cl (sv_client s (fst vm))) s) (ch_members chan) sv1))"

function by_six :: "'a list \<Rightarrow> 'a list list" where
  "by_six xs = (if xs = [] then [] else take 6 xs # by_six (drop 6 xs))"
  by pat_completeness auto
termination by (relation "measure length") auto

declare by_six.simps [simp del]

definition broadcast_rank_modes :: "world \<Rightarrow> string \<Rightarrow> string \<Rightarrow> char \<Rightarrow> (char \<times> string) list \<Rightarrow> server \<Rightarrow> server" where
  "broadcast_rank_modes W k src sign changes sv =
     fold (\<lambda>cs s. server_broadcast_channel W k
             (reply_line 600 (Some src) ''MODE'' (ch_name (chan_of s k) # (sign # map fst cs) # map snd cs) None) None s)
       (by_six changes) sv"

definition rank_passes :: "(flags \<times> char) list" where
  "rank_passes = [(RANK_OWNER, CHR ''q''), (RANK_ADMIN, CHR ''a''), (RANK_OP, CHR ''o''), (RANK_HALFOP, CHR ''h''), (RANK_VOICE, CHR ''v'')]"

definition lost_modes :: "channel \<Rightarrow> string" where
  "lost_modes c =
     (let m = ch_modes c
      in CHR ''-'' # filter (\<lambda>l. has m (channel_flag_bit l)) ''nipstmzrPCTSVQNROMcDuGK'' @
         (if has m CMODE_K then ''k'' else []) @ (if has m CMODE_L then ''l'' else []) @ (if has m CMODE_FLOOD then ''f'' else []) @
         (if has m CMODE_JTHROT then ''j'' else []) @ (if has m CMODE_REDIRECT then ''L'' else []))"

definition reset_channel_for_ts :: "world \<Rightarrow> string \<Rightarrow> net \<Rightarrow> net" where
  "reset_channel_for_ts W k N =
     (let me = ns_name (the_server N (n_self N));
          sv1 = fold (\<lambda>(b, l) sv. broadcast_rank_modes W k me CHR ''-''
                   (take 64 (map (\<lambda>(i, m). (l, c_nick (sv_client sv i))) (filter (\<lambda>(i, m). has (mb_rank m) b) (ch_members (chan_of sv k))))) sv)
                rank_passes (n_sv N);
          c = chan_of sv1 k; modes = lost_modes c;
          sv2 = (if length modes > 1
                 then server_broadcast_channel W k (reply_line 400 (Some me) ''MODE''
                        (ch_name c # clip 60 modes # (if has (ch_modes c) CMODE_K then [''*''] else [])) None) None sv1
                 else sv1)
      in N\<lparr>n_sv := on_chan k reset_channel sv2\<rparr>)"

subsection \<open>SJOIN\<close>

definition sjoin_step :: "world \<Rightarrow> bool \<Rightarrow> string \<Rightarrow> string \<Rightarrow> net \<times> (client_id \<times> flags) list \<Rightarrow> net \<times> (client_id \<times> flags) list" where
  "sjoin_step W keep k tok st =
     (case st of (N, joined) \<Rightarrow>
        (let (rank, uid) = rank_from_prefix tok
         in if length joined \<ge> 64 then (N, joined)
            else (case netsync_find_uid N uid of
                    None \<Rightarrow> (N, joined)
                  | Some u \<Rightarrow>
                      if \<not> c_remote (n_client N u) \<or> channel_find_member (chan_of (n_sv N) k) u \<noteq> None then (N, joined)
                      else (announce_join W k u (on_sv (\<lambda>sv. server_attach_membership u k (on_chan k (sjoin_member keep (u, rank)) sv)) N),
                            joined @ [(u, if keep then rank else 0)]))))"

definition gained_modes :: "server \<Rightarrow> (client_id \<times> flags) list \<Rightarrow> flags \<times> char \<Rightarrow> (char \<times> string) list" where
  "gained_modes sv joined pass =
     (case pass of (b, l) \<Rightarrow>
        map (\<lambda>(i, r). (l, c_nick (sv_client sv i)))
          (filter (\<lambda>(i, r). has r b \<and> \<not> (b = RANK_OP \<and> has r (RANK_OWNER OR RANK_ADMIN))) joined))"

definition sjoin_channel :: "world \<Rightarrow> string \<Rightarrow> int \<Rightarrow> string \<Rightarrow> string list \<Rightarrow> net \<Rightarrow> string \<times> bool \<times> nat \<times> net" where
  "sjoin_channel W name ts modes margs N =
     (case server_find_channel name (n_sv N) of
        None \<Rightarrow>
          (let (k, sv1) = server_get_or_create_channel W name (n_sv N)
           in (k, True, 1, N\<lparr>n_sv := on_chan k (sjoin_new ts modes margs) sv1\<rparr>))
      | Some (k, chan) \<Rightarrow>
          (let N1 = (if ts < ch_created chan then reset_channel_for_ts W k N else N);
               (c2, keep, vet) = sjoin_modes ts modes margs chan
           in (k, keep, vet, on_sv (on_chan k (\<lambda>_. c2)) N1)))"

definition handle_sjoin :: "world \<Rightarrow> nat \<Rightarrow> nat option \<Rightarrow> irc_message \<Rightarrow> net \<Rightarrow> net" where
  "handle_sjoin W l lns msg N =
     (let ps = msg_params msg
      in case src_peer N lns (msg_prefix msg) of
           None \<Rightarrow> N
         | Some src \<Rightarrow>
             if length ps < 4 then N
             else (let ts0 = atol (ps ! 0); name = ps ! 1; modes = ps ! 2; members = last ps;
                       margs = take 10 (butlast (drop 3 ps))
                   in if \<not> irc_valid_channel name 50 then N
                      else (let ts = (if ts0 \<le> 0 then (case server_find_channel name (n_sv N) of Some (_, c) \<Rightarrow> ch_created c | None \<Rightarrow> w_now W)
                                      else ts0);
                                (k, keep, vet, N1) = sjoin_channel W name ts modes margs N;
                                (N2, joined) = fold (sjoin_step W keep k) (strtok (\<lambda>c. c = SP) (clip 640 members)) (N1, []);
                                N3 = on_sv (\<lambda>sv. fold (\<lambda>p s. broadcast_rank_modes W k (ns_name (the_server N src)) CHR ''+'' (gained_modes s joined p) s)
                                              rank_passes sv) N2;
                                N4 = (if vet = 1 then tell (Chan_New k) N3
                                      else if vet = 2 then fold (\<lambda>(i, r). tell (Merge_Ranks k i r)) (filter (\<lambda>(i, r). r \<noteq> 0) joined) N3
                                      else N3)
                            in flood (Some l) (net_line 1200 (ns_sid (the_server N src)) ''SJOIN'' ([ps ! 0, name, modes] @ margs) (Some members)) N4)))"

subsection \<open>Lists, topic, joins and parts\<close>

definition handle_bmask :: "world \<Rightarrow> nat \<Rightarrow> nat option \<Rightarrow> irc_message \<Rightarrow> net \<Rightarrow> net" where
  "handle_bmask W l lns msg N =
     (let ps = msg_params msg
      in case src_peer N lns (msg_prefix msg) of
           None \<Rightarrow> N
         | Some src \<Rightarrow>
             if length ps < 4 then N
             else (case server_find_channel (ps ! 1) (n_sv N) of
                     None \<Rightarrow> N
                   | Some (k, _) \<Rightarrow>
                       flood (Some l) (net_line 1000 (ns_sid (the_server N src)) ''BMASK'' [ps ! 0, ps ! 1, ps ! 2] (Some (ps ! 3)))
                         (on_sv (on_chan k (bmask_merge (w_now W) (atol (ps ! 0)) (if ps ! 2 = [] then CHR 0x00 else hd (ps ! 2))
                                   (strtok (\<lambda>c. c = SP) (clip 800 (ps ! 3))))) N)))"

definition handle_tb :: "world \<Rightarrow> nat \<Rightarrow> nat option \<Rightarrow> irc_message \<Rightarrow> net \<Rightarrow> net" where
  "handle_tb W l lns msg N =
     (let ps = msg_params msg
      in case src_peer N lns (msg_prefix msg) of
           None \<Rightarrow> N
         | Some src \<Rightarrow>
             if length ps < 4 then N
             else flood (Some l) (net_line 700 (ns_sid (the_server N src)) ''TB'' [ps ! 0, ps ! 1, ps ! 2] (Some (ps ! 3)))
                    (case server_find_channel (ps ! 0) (n_sv N) of
                       None \<Rightarrow> N
                     | Some (k, chan) \<Rightarrow>
                         if topic_wins (atol (ps ! 1)) (ps ! 3) chan
                         then on_sv (\<lambda>sv. let sv1 = on_chan k (tb_merge (atol (ps ! 1)) (ps ! 2) (ps ! 3)) sv; c = chan_of sv1 k
                                in server_broadcast_channel W k (reply_line 600 (Some (ps ! 2)) ''TOPIC'' [ch_name c] (Some (ch_topic c))) None sv1) N
                         else N))"

definition add_hidden :: "client_id \<Rightarrow> channel \<Rightarrow> channel" where
  "add_hidden u c =
     (let c1 = channel_add_member c u
      in if has (ch_modes c) CMODE_DELAYJOIN then set_member c1 u (new_member\<lparr>mb_hidden := True\<rparr>) else c1)"

definition handle_join :: "world \<Rightarrow> nat \<Rightarrow> nat option \<Rightarrow> irc_message \<Rightarrow> net \<Rightarrow> net" where
  "handle_join W l lns msg N =
     (let ps = msg_params msg
      in case src_user N lns (msg_prefix msg) of
           None \<Rightarrow> N
         | Some u \<Rightarrow>
             if length ps < 2 then N
             else (let ts = atol (ps ! 0); name = ps ! 1; known = (server_find_channel name (n_sv N) \<noteq> None);
                       (k, sv1) = server_get_or_create_channel W name (n_sv N);
                       N1 = N\<lparr>n_sv := (if known then sv1
                              else on_chan k (\<lambda>c. c\<lparr>ch_modes := 0, ch_created := (if ts > 0 then ts else w_now W)\<rparr>) sv1)\<rparr>;
                       N2 = (if channel_find_member (chan_of (n_sv N1) k) u \<noteq> None then N1
                             else announce_join W k u (on_sv (\<lambda>sv. server_attach_membership u k (on_chan k (add_hidden u) sv)) N1));
                       N3 = (if known then N2 else tell (Chan_New k) N2)
                   in flood (Some l) (net_line 300 (c_uid (n_client N u)) ''JOIN'' [ps ! 0, name] None) N3))"

text \<open>The three calls that take a member out of a channel.\<close>

definition drop_member :: "client_id \<Rightarrow> string \<Rightarrow> server \<Rightarrow> server" where
  "drop_member i k sv = part_channel i k sv"

definition handle_part :: "world \<Rightarrow> nat \<Rightarrow> nat option \<Rightarrow> irc_message \<Rightarrow> net \<Rightarrow> net" where
  "handle_part W l lns msg N =
     (case (src_user N lns (msg_prefix msg), msg_params msg) of
        (Some u, name # ps) \<Rightarrow>
          (let reason = (if ps \<noteq> [] then Some (last_param msg) else None); uid = c_uid (n_client N u);
               N1 = (case server_find_channel name (n_sv N) of
                       None \<Rightarrow> N
                     | Some (k, chan) \<Rightarrow>
                         (case channel_find_member chan u of
                            None \<Rightarrow> N
                          | Some m \<Rightarrow>
                              (let line = reply_line 500 (Some (client_prefix (n_client N u) 320)) ''PART'' [ch_name chan] reason
                               in on_sv (\<lambda>sv. drop_member u k
                                    (fold (\<lambda>vm s. if channel_member_visible chan u m (Some vm) then srv_send (fst vm) line s else s)
                                       (ch_members chan) (server_history_event W k line sv))) N)))
           in flood (Some l) (net_line 500 uid ''PART'' [name] reason) N1)
      | _ \<Rightarrow> N)"

text \<open>The prefix shown for a user, or a server, that acts.\<close>

definition actor :: "net \<Rightarrow> nat option \<Rightarrow> string option \<Rightarrow> string option" where
  "actor N lns pfx =
     (case src_user N lns pfx of
        Some u \<Rightarrow> Some (client_prefix (n_client N u) 320)
      | None \<Rightarrow> (case src_server N lns pfx of Some s \<Rightarrow> Some (ns_name (the_server N s)) | None \<Rightarrow> None))"

definition handle_kick :: "world \<Rightarrow> nat \<Rightarrow> nat option \<Rightarrow> irc_message \<Rightarrow> net \<Rightarrow> net" where
  "handle_kick W l lns msg N =
     (let ps = msg_params msg; reason = (if length ps > 2 then last_param msg else ''Kicked'')
      in if length ps < 2 then N
         else (case actor N lns (msg_prefix msg) of
                 None \<Rightarrow> N
               | Some pre \<Rightarrow>
                   (let N1 = (case (server_find_channel (ps ! 0) (n_sv N), netsync_find_uid N (ps ! 1)) of
                          (Some (k, chan), Some target) \<Rightarrow>
                            if channel_find_member chan target = None then N
                            else (let line = reply_line 500 (Some pre) ''KICK'' [ch_name chan, c_nick (n_client N target)] (Some reason)
                                  in on_sv (\<lambda>sv. drop_member target k (server_broadcast_channel W k line None sv)) N)
                        | _ \<Rightarrow> N)
                    in flood (Some l) (reply_line 500 (msg_prefix msg) ''KICK'' [ps ! 0, ps ! 1] (Some reason)) N1)))"

definition handle_topic :: "world \<Rightarrow> nat \<Rightarrow> nat option \<Rightarrow> irc_message \<Rightarrow> net \<Rightarrow> net" where
  "handle_topic W l lns msg N =
     (let ps = msg_params msg
      in case actor N lns (msg_prefix msg) of
           None \<Rightarrow> N
         | Some pre \<Rightarrow>
             if length ps < 2 then N
             else (let txt = last_param msg;
                       N1 = (case server_find_channel (ps ! 0) (n_sv N) of
                               None \<Rightarrow> N
                             | Some (k, chan) \<Rightarrow>
                                 (let t = take TOPIC_MAX_LEN txt
                                  in on_sv (\<lambda>sv. server_broadcast_channel W k (reply_line 700 (Some pre) ''TOPIC'' [ch_name chan] (Some t)) None
                                       (on_chan k (\<lambda>c. c\<lparr>ch_topic := t, ch_topic_setter := clip 128 pre, ch_topic_time := w_now W\<rparr>) sv)) N))
                   in flood (Some l) (reply_line 700 (msg_prefix msg) ''TOPIC'' [ps ! 0] (Some txt)) N1))"

section \<open>Channel modes\<close>

text \<open>The loop over the letters: the server, what is shown of them so far, and the arguments left.\<close>

record mode_run =
  mr_sv :: server
  mr_flags :: string
  mr_params :: "string list"
  mr_sign :: char
  mr_shown :: char
  mr_args :: "string list"

definition mode_rank :: "char \<Rightarrow> flags" where
  "mode_rank c =
     (if c = CHR ''o'' then RANK_OP else if c = CHR ''h'' then RANK_HALFOP else if c = CHR ''v'' then RANK_VOICE
      else if c = CHR ''q'' then RANK_OWNER else RANK_ADMIN)"

definition reveal_all :: "string \<Rightarrow> server \<Rightarrow> server" where
  "reveal_all k sv = fold (\<lambda>im. channel_reveal_member k (fst im)) (ch_members (chan_of sv k)) sv"

definition flag_mode :: "bool \<Rightarrow> char \<Rightarrow> string \<Rightarrow> server \<Rightarrow> server" where
  "flag_mode on c k sv =
     (let b = channel_flag_bit c;
          sv1 = on_chan k (\<lambda>ch. ch\<lparr>ch_modes := (if on then ch_modes ch OR b else ch_modes ch AND NOT b)\<rparr>) sv
      in if \<not> on \<and> b = CMODE_DELAYJOIN then reveal_all k sv1 else sv1)"

definition throttle_mode :: "bool \<Rightarrow> string \<Rightarrow> channel \<Rightarrow> (channel \<times> string option) option" where
  "throttle_mode on a ch =
     (if on then
        (case scan_pair a of
           None \<Rightarrow> None
         | Some (n, secs) \<Rightarrow>
             Some (ch\<lparr>ch_jt_joins := n, ch_jt_secs := secs, ch_jt_count := 0, ch_jt_start := 0,
                      ch_modes := ch_modes ch OR CMODE_JTHROT\<rparr>, Some a))
      else Some (ch\<lparr>ch_modes := ch_modes ch AND NOT CMODE_JTHROT, ch_jt_joins := 0, ch_jt_secs := 0\<rparr>, None))"

text \<open>A letter that changes only the channel: the channel and the argument shown, if it counts.\<close>

definition param_mode :: "int \<Rightarrow> bool \<Rightarrow> char \<Rightarrow> string option \<Rightarrow> channel \<Rightarrow> (channel \<times> string option) option" where
  "param_mode now on c arg ch =
     (if c = CHR ''k'' then
        (case (on, arg) of
           (True, Some a) \<Rightarrow> Some (ch\<lparr>ch_key := clip CHAN_KEYLEN a, ch_modes := ch_modes ch OR CMODE_K\<rparr>, Some a)
         | _ \<Rightarrow> Some (ch\<lparr>ch_key := [], ch_modes := ch_modes ch AND NOT CMODE_K\<rparr>, Some ''*''))
      else if c = CHR ''l'' then
        (case (on, arg) of
           (True, Some a) \<Rightarrow> Some (ch\<lparr>ch_limit := atoi a, ch_modes := ch_modes ch OR CMODE_L\<rparr>, Some a)
         | _ \<Rightarrow> Some (ch\<lparr>ch_limit := 0, ch_modes := ch_modes ch AND NOT CMODE_L\<rparr>, None))
      else if c = CHR ''f'' then
        (case (on, arg) of
           (True, Some a) \<Rightarrow> map_option (\<lambda>c2. (c2, Some a)) (channel_set_flood ch a)
         | (True, None) \<Rightarrow> None
         | _ \<Rightarrow> Some (channel_clear_flood ch, None))
      else if c = CHR ''j'' then
        (case (on, arg) of (True, None) \<Rightarrow> None | _ \<Rightarrow> throttle_mode on (case arg of Some a \<Rightarrow> a | None \<Rightarrow> []) ch)
      else if c = CHR ''L'' then
        (case (on, arg) of
           (True, Some a) \<Rightarrow> Some (ch\<lparr>ch_redirect := clip CHAN_NAMELEN a, ch_modes := ch_modes ch OR CMODE_REDIRECT\<rparr>, Some a)
         | _ \<Rightarrow> Some (ch\<lparr>ch_redirect := [], ch_modes := ch_modes ch AND NOT CMODE_REDIRECT\<rparr>, None))
      else
        (case (arg, bmask_list c ch) of
           (Some a, Some ml) \<Rightarrow>
             (let (r, ml2) = (if on then masklist_add now a ml else masklist_del a ml)
              in if r = 0 then Some (set_bmask_list c ml2 ch, Some a) else None)
         | _ \<Rightarrow> None))"

definition rank_mode :: "bool \<Rightarrow> char \<Rightarrow> string option \<Rightarrow> string \<Rightarrow> server \<Rightarrow> (server \<times> string) option" where
  "rank_mode on c arg k sv =
     (case arg of
        None \<Rightarrow> None
      | Some uid \<Rightarrow>
          (case map_of (sv_by_uid sv) uid of
             None \<Rightarrow> None
           | Some t \<Rightarrow>
               (case channel_find_member (chan_of sv k) t of
                  None \<Rightarrow> None
                | Some m \<Rightarrow>
                    (let b = mode_rank c;
                         r = (if on then mb_rank m OR b OR (if c = CHR ''q'' \<or> c = CHR ''a'' then RANK_OP else 0)
                              else mb_rank m AND NOT b AND (if c = CHR ''o'' then NOT (RANK_ADMIN OR RANK_OWNER) else - 1));
                         sv1 = on_chan k (\<lambda>ch. set_member ch t (m\<lparr>mb_rank := r\<rparr>)) sv
                     in Some (if on then channel_reveal_member k t sv1 else sv1, clip NICKLEN (c_nick (sv_client sv t)))))))"

definition mode_takes :: "bool \<Rightarrow> char \<Rightarrow> bool" where
  "mode_takes on c \<longleftrightarrow> c \<in> set ''kbeIohvqa'' \<or> (on \<and> c \<in> set ''lfjL'')"

text \<open>One letter: the server and the argument to show, \<open>None\<close> if nothing is shown of it.\<close>

definition mode_letter :: "int \<Rightarrow> bool \<Rightarrow> char \<Rightarrow> string option \<Rightarrow> string \<Rightarrow> server \<Rightarrow> (server \<times> string option) option" where
  "mode_letter now on c arg k sv =
     (if channel_flag_bit c \<noteq> 0 then Some (flag_mode on c k sv, None)
      else if c \<in> set ''ohvqa'' then map_option (\<lambda>(sv2, n). (sv2, Some n)) (rank_mode on c arg k sv)
      else map_option (\<lambda>(ch, a). (set_chan k ch sv, a)) (param_mode now on c arg (chan_of sv k)))"

fun mode_loop :: "int \<Rightarrow> string \<Rightarrow> string \<Rightarrow> mode_run \<Rightarrow> mode_run" where
  "mode_loop now k [] r = r"
| "mode_loop now k (c # cs) r =
     (if length (mr_flags r) + 3 \<ge> 64 \<or> length (mr_params r) \<ge> 8 then r
      else if c = CHR ''+'' \<or> c = CHR ''-'' then mode_loop now k cs (r\<lparr>mr_sign := c\<rparr>)
      else (let on = (mr_sign r = CHR ''+''); takes = mode_takes on c \<and> mr_args r \<noteq> [];
                arg = (if takes then Some (hd (mr_args r)) else None);
                r1 = (if takes then r\<lparr>mr_args := tl (mr_args r)\<rparr> else r)
            in case mode_letter now on c arg k (mr_sv r) of
                 None \<Rightarrow> mode_loop now k cs r1
               | Some (sv, a) \<Rightarrow>
                   mode_loop now k cs (r1\<lparr>mr_sv := sv,
                     mr_flags := mr_flags r @ (if mr_shown r \<noteq> mr_sign r then [mr_sign r, c] else [c]),
                     mr_params := mr_params r @ (case a of None \<Rightarrow> [] | Some t \<Rightarrow> [clip 260 t]),
                     mr_shown := mr_sign r\<rparr>)))"

definition run_modes :: "int \<Rightarrow> string \<Rightarrow> string \<Rightarrow> string list \<Rightarrow> server \<Rightarrow> mode_run" where
  "run_modes now k modes args sv =
     mode_loop now k modes
       \<lparr>mr_sv = sv, mr_flags = [], mr_params = [], mr_sign = CHR ''+'', mr_shown = CHR 0x00, mr_args = args\<rparr>"

definition handle_mode :: "world \<Rightarrow> nat \<Rightarrow> nat option \<Rightarrow> irc_message \<Rightarrow> net \<Rightarrow> net" where
  "handle_mode W l lns msg N =
     (let ps = msg_params msg
      in if length ps < 2 then N
         else (case actor N lns (msg_prefix msg) of
                 None \<Rightarrow> N
               | Some pre \<Rightarrow>
                   if take 1 (ps ! 0) \<noteq> ''#'' then N
                   else (let N1 = (case server_find_channel (ps ! 0) (n_sv N) of
                                     None \<Rightarrow> N
                                   | Some (k, chan) \<Rightarrow>
                                       (let r = run_modes (w_now W) k (ps ! 1) (drop 2 ps) (n_sv N)
                                        in N\<lparr>n_sv := (if length (mr_flags r) > 1
                                              then server_broadcast_channel W k
                                                     (reply_line 900 (Some pre) ''MODE'' (ch_name chan # mr_flags r # mr_params r) None) None (mr_sv r)
                                              else mr_sv r)\<rparr>))
                         in flood (Some l) (reply_line 900 (msg_prefix msg) ''MODE'' (take 12 ps) None) N1)))"

section \<open>Messages\<close>

text \<open>A line with tags, as \<open>irc_build\<close> leaves it in its buffer.\<close>

definition tag_pieces :: "irc_tag list \<Rightarrow> string list" where
  "tag_pieces tags =
     (if tags = [] then []
      else ''@'' # concat (map (\<lambda>(n, k, v). (if n > 0 then ['';''] else []) @ [k] @ (if v \<noteq> [] then [''='', escape_tag_value 1024 v] else []))
                             (zip [0..<length tags] tags)) @ ['' ''])"

definition tagged_line :: "nat \<Rightarrow> irc_tag list \<Rightarrow> string option \<Rightarrow> string \<Rightarrow> string list \<Rightarrow> string option \<Rightarrow> string" where
  "tagged_line outsz tags pfx command params trailing =
     (case fill outsz (tag_pieces tags @ reply_pieces pfx command params) [] of
        (out, False) \<Rightarrow> out
      | (out, True) \<Rightarrow> (case build_trailing outsz trailing out of None \<Rightarrow> out | Some o2 \<Rightarrow> o2))"

definition fwd_message :: "nat \<Rightarrow> irc_message \<Rightarrow> nat option option \<Rightarrow> net \<Rightarrow> net" where
  "fwd_message l msg only_dest N =
     (let ps = msg_params msg;
          line = tagged_line 1500 (msg_tags msg) (msg_prefix msg) (msg_command msg) [hd ps] (if length ps > 1 then Some (last ps) else None)
      in case only_dest of Some d \<Rightarrow> route_to d line N | None \<Rightarrow> flood (Some l) line N)"

text \<open>A target that is a UID names that user, whatever else it could be.\<close>

definition uid_target :: "net \<Rightarrow> string \<Rightarrow> client_id option" where
  "uid_target N target = (if length target = UID_LEN then netsync_find_uid N target else None)"

definition handle_message :: "nat \<Rightarrow> nat option \<Rightarrow> irc_message \<Rightarrow> net \<Rightarrow> net" where
  "handle_message l lns msg N =
     (case (src_user N lns (msg_prefix msg), msg_params msg) of
        (Some from, target # ps) \<Rightarrow>
          (let deliver = tell (Deliver from msg (if ps \<noteq> [] then last ps else []))
           in case uid_target N target of
                Some u \<Rightarrow>
                  if \<not> c_remote (n_client N u) then deliver N
                  else (case c_nserver (n_client N u) of Some d \<Rightarrow> fwd_message l msg (Some (Some d)) N | None \<Rightarrow> fwd_message l msg None N)
              | None \<Rightarrow> fwd_message l msg None (deliver N))
      | _ \<Rightarrow> N)"

definition handle_mline :: "nat \<Rightarrow> nat option \<Rightarrow> irc_message \<Rightarrow> net \<Rightarrow> net" where
  "handle_mline l lns msg N =
     (let ps = msg_params msg
      in case src_user N lns (msg_prefix msg) of
           None \<Rightarrow> N
         | Some from \<Rightarrow>
             if length ps < 4 then N
             else (let line = reply_line 700 (msg_prefix msg) ''MLINE'' (take 3 ps) (Some (ps ! 3));
                       part = tell (Ml_Part from (ps ! 1) (take 1 (ps ! 2) = ''c'') (ps ! 3))
                   in case uid_target N (ps ! 0) of
                        Some u \<Rightarrow> if c_remote (n_client N u) then route_to (c_nserver (n_client N u)) line N else part N
                      | None \<Rightarrow> part (flood (Some l) line N)))"

definition handle_redact :: "nat \<Rightarrow> nat option \<Rightarrow> irc_message \<Rightarrow> net \<Rightarrow> net" where
  "handle_redact l lns msg N =
     (let ps = msg_params msg
      in case src_user N lns (msg_prefix msg) of
           None \<Rightarrow> N
         | Some from \<Rightarrow>
             if length ps < 2 then N
             else (let target = ps ! 0; msgid = ps ! 1; reason = (if length ps > 2 then Some (last ps) else None);
                       line = reply_line 700 (msg_prefix msg) ''REDACT'' [target, msgid] reason
                   in case (if take 1 target \<noteq> ''#'' then uid_target N target else None) of
                        Some u \<Rightarrow>
                          if \<not> c_remote (n_client N u) then tell (Redact from None (Some u) msgid reason) N
                          else route_to (c_nserver (n_client N u)) line N
                      | None \<Rightarrow>
                          flood (Some l) line
                            (case server_find_channel target (n_sv N) of
                               Some (k, _) \<Rightarrow> tell (Redact from (Some k) None msgid reason) N | None \<Rightarrow> N)))"

text \<open>The invitation of a user of ours, remembered for \<open>+i\<close> under the key of the client.\<close>

definition note_invite :: "client_id \<Rightarrow> string \<Rightarrow> server \<Rightarrow> server" where
  "note_invite t k sv =
     (let (key, cl) = client_invite_key (sv_client sv t)
      in on_chan k (\<lambda>c. c\<lparr>ch_invited := channel_invite_add key (ch_invited c)\<rparr>) (sv_write t cl sv))"

definition handle_invite :: "nat \<Rightarrow> nat option \<Rightarrow> irc_message \<Rightarrow> net \<Rightarrow> net" where
  "handle_invite l lns msg N =
     (let ps = msg_params msg
      in case src_user N lns (msg_prefix msg) of
           None \<Rightarrow> N
         | Some from \<Rightarrow>
             if length ps < 2 then N
             else (let prefix = client_prefix (n_client N from) 320;
                       target = netsync_find_uid N (ps ! 0); chan = server_find_channel (ps ! 1) (n_sv N);
                       N1 = (case target of
                               Some t \<Rightarrow>
                                 if c_remote (n_client N t) then N
                                 else on_sv (\<lambda>sv. case chan of
                                                Some (k, c) \<Rightarrow> if has (ch_modes c) CMODE_I then note_invite t k sv else sv | None \<Rightarrow> sv)
                                        (on_sv (srv_send t (reply_line 400 (Some prefix) ''INVITE'' [c_nick (n_client N t)] (Some (ps ! 1)))) N)
                             | None \<Rightarrow> N);
                       N2 = (case chan of
                               None \<Rightarrow> N1
                             | Some (k, c) \<Rightarrow>
                                 (let tn = (case target of Some t \<Rightarrow> c_nick (n_client N t) | None \<Rightarrow> ps ! 0);
                                      nl = reply_line 400 (Some prefix) ''INVITE'' [tn, ch_name c] None
                                  in on_sv (\<lambda>sv. fold (\<lambda>(i, m) s.
                                         if \<not> c_remote (sv_client s i) \<and> target \<noteq> Some i \<and> has (mb_rank m) (RANK_OP OR RANK_HALFOP) \<and>
                                            has (c_caps (sv_client s i)) CAP_INVITE_NOTIFY
                                         then srv_send i nl s else s) (ch_members c) sv) N1))
                   in flood (Some l) (net_line 300 (c_uid (n_client N from)) ''INVITE'' [ps ! 0, ps ! 1] None) N2))"

definition handle_push :: "irc_message \<Rightarrow> net \<Rightarrow> net" where
  "handle_push msg N =
     (let ps = msg_params msg
      in if length ps < 2 then N
         else (case netsync_find_uid N (ps ! 0) of
                 None \<Rightarrow> N
               | Some t \<Rightarrow>
                   if \<not> c_remote (n_client N t) then on_sv (srv_send t (last ps)) N
                   else route_to (c_nserver (n_client N t)) (reply_line 900 (msg_prefix msg) ''PUSH'' [ps ! 0] (Some (last ps))) N))"

definition handle_wallops :: "nat \<Rightarrow> nat option \<Rightarrow> irc_message \<Rightarrow> net \<Rightarrow> net" where
  "handle_wallops l lns msg N =
     (case src_user N lns (msg_prefix msg) of
        None \<Rightarrow> N
      | Some from \<Rightarrow>
          if msg_params msg = [] then N
          else (let t = last_param msg; globops = strcaseeq (msg_command msg) ''GLOBOPS''; verb = (if globops then ''GLOBOPS'' else ''WALLOPS'');
                    line = reply_line 600 (Some (client_prefix (n_client N from) 320)) verb [] (Some t)
                in flood (Some l) (net_line 600 (c_uid (n_client N from)) verb [] (Some t))
                     (on_sv (\<lambda>sv. fold (\<lambda>(_, i) s.
                          if \<not> c_remote (sv_client s i) \<and> has (c_umodes (sv_client s i)) (if globops then UMODE_O else UMODE_W)
                          then srv_send i line s else s) (sv_users sv) sv) N)))"

section \<open>Network-wide lines\<close>

definition notify_all :: "world \<Rightarrow> string list \<Rightarrow> server \<Rightarrow> server" where
  "notify_all W notes sv = fold (server_notify_opers W) notes sv"

definition add_line :: "world \<Rightarrow> string \<Rightarrow> string \<Rightarrow> string \<Rightarrow> string \<Rightarrow> int \<Rightarrow> server \<Rightarrow> server" where
  "add_line W msk reason setter type dur sv =
     (let (kt, notes) = server_kline_add (w_now W) msk reason setter type dur (sv_lines sv)
      in notify_all W notes (sv\<lparr>sv_lines := kt\<rparr>))"

definition enforce_line :: "world \<Rightarrow> string \<Rightarrow> string \<Rightarrow> string \<Rightarrow> server \<Rightarrow> server" where
  "enforce_line W msk type reason sv =
     sv\<lparr>sv_q := snd (server_kline_enforce (w_inet W) (sv_lines sv) msk type reason None (sv_all sv) (sv_q sv))\<rparr>"

definition handle_gline :: "world \<Rightarrow> nat \<Rightarrow> nat option \<Rightarrow> irc_message \<Rightarrow> net \<Rightarrow> net" where
  "handle_gline W l lns msg N =
     (let ps = msg_params msg
      in case src_peer N lns (msg_prefix msg) of
           None \<Rightarrow> N
         | Some src \<Rightarrow>
             if length ps < 4 then N
             else (let expires = atol (ps ! 2); dur = (if expires > 0 then expires - w_now W else 0); shun = (msg_command msg = ''SHUN'')
                   in if expires > 0 \<and> dur \<le> 0 then N
                      else (let N1 = on_sv (add_line W (ps ! 0) (ps ! 3) (ps ! 1) (if shun then ''S'' else ''G'') dur) N;
                                N2 = (if shun then N1
                                      else on_sv (enforce_line W (ps ! 0) ''G'' (clip 300 (''G-Lined: '' @ (ps ! 3)))) N1)
                            in flood (Some l) (net_line 600 (ns_sid (the_server N src)) (msg_command msg) (take 3 ps) (Some (ps ! 3))) N2)))"

definition handle_ungline :: "world \<Rightarrow> nat \<Rightarrow> irc_message \<Rightarrow> net \<Rightarrow> net" where
  "handle_ungline W l msg N =
     (case msg_params msg of
        [] \<Rightarrow> N
      | m # _ \<Rightarrow>
          (let (ok, kt, notes) = server_kline_remove_typed m (Some (if msg_command msg = ''UNSHUN'' then CHR ''S'' else CHR ''G'')) (sv_lines (n_sv N))
           in flood (Some l) (reply_line 300 (msg_prefix msg) (msg_command msg) [m] None)
                (on_sv (\<lambda>sv. notify_all W notes (sv\<lparr>sv_lines := kt\<rparr>)) N)))"

section \<open>Requests to other servers\<close>

text \<open>The link behind which a server hangs directly.\<close>

definition direct_link :: "net \<Rightarrow> nat \<Rightarrow> nat option" where
  "direct_link N s =
     (case ns_route (the_server N s) of
        None \<Rightarrow> None
      | Some l \<Rightarrow> (case map_of (n_links N) l of
          None \<Rightarrow> None
        | Some lk \<Rightarrow> if lk_nserver lk = Some s then Some l else None))"

definition handle_rsquit :: "irc_message \<Rightarrow> net \<Rightarrow> net" where
  "handle_rsquit msg N =
     (case msg_params msg of
        [] \<Rightarrow> N
      | p # ps \<Rightarrow>
          (case netsync_find_sid N p of
             None \<Rightarrow> N
           | Some s \<Rightarrow>
               if s = n_self N then N
               else (case direct_link N s of
                       Some l \<Rightarrow> link_close l N
                     | None \<Rightarrow> route_to (Some s)
                         (reply_line 300 (msg_prefix msg) ''RSQUIT'' [p] (Some (if ps \<noteq> [] then last ps else ''SQUIT''))) N)))"

definition rename_target :: "net \<Rightarrow> string list \<Rightarrow> string option" where
  "rename_target N ps =
     (case (server_find_channel (ps ! 0) (n_sv N), server_find_channel (ps ! 1) (n_sv N)) of
        (Some (k, _), None) \<Rightarrow> Some k
      | _ \<Rightarrow> None)"

definition handle_rename :: "nat \<Rightarrow> nat option \<Rightarrow> irc_message \<Rightarrow> net \<Rightarrow> net" where
  "handle_rename l lns msg N =
     (let ps = msg_params msg
      in case src_user N lns (msg_prefix msg) of
           None \<Rightarrow> N
         | Some u \<Rightarrow>
             if length ps < 2 then N
             else (let reason = (if length ps > 2 then last ps else ''No reason'')
                   in flood (Some l) (net_line 500 (c_uid (n_client N u)) ''RENAME'' (take 2 ps) (Some reason))
                        (case rename_target N ps of Some k \<Rightarrow> tell (Rename k u (ps ! 1) reason) N | None \<Rightarrow> N)))"

definition RQUERY_CMDS :: "string list" where
  "RQUERY_CMDS = [''WHOIS'', ''VERSION'', ''TIME'', ''ADMIN'', ''MOTD'', ''INFO'']"

definition ENCAP_CMDS :: "string list" where
  "ENCAP_CMDS = [''SAJOIN'', ''SAPART'', ''SANICK'', ''CHGHOST'', ''CHGIDENT'']"

definition handle_rquery :: "nat option \<Rightarrow> irc_message \<Rightarrow> net \<Rightarrow> net" where
  "handle_rquery lns msg N =
     (let ps = msg_params msg
      in case src_user N lns (msg_prefix msg) of
           None \<Rightarrow> N
         | Some u \<Rightarrow>
             if length ps < 2 then N
             else (case netsync_find_sid N (ps ! 0) of
                     None \<Rightarrow> N
                   | Some dest \<Rightarrow>
                       if dest \<noteq> n_self N then route_to (Some dest) (net_line 600 (c_uid (n_client N u)) ''RQUERY'' ps None) N
                       else (case find (\<lambda>c. strcaseeq (ps ! 1) c) RQUERY_CMDS of
                               None \<Rightarrow> N
                             | Some c \<Rightarrow> if c = ''WHOIS'' \<and> length ps \<noteq> 3 then N else tell (Run_Query u c (drop 2 ps)) N)))"

definition netsync_rquery :: "client_id \<Rightarrow> nat \<Rightarrow> string \<Rightarrow> string list \<Rightarrow> net \<Rightarrow> net" where
  "netsync_rquery i dest verb args N =
     (if c_uid (n_client N i) = [] \<or> dest = n_self N then N
      else route_to (Some dest)
             (net_line 600 (c_uid (n_client N i)) ''RQUERY'' (take IRC_MAX_PARAMS (ns_sid (the_server N dest) # verb # args)) None) N)"

definition handle_encap :: "nat option \<Rightarrow> irc_message \<Rightarrow> net \<Rightarrow> net" where
  "handle_encap lns msg N =
     (let ps = msg_params msg
      in case src_user N lns (msg_prefix msg) of
           None \<Rightarrow> N
         | Some oper \<Rightarrow>
             if \<not> has (c_umodes (n_client N oper)) UMODE_O \<or> length ps < 3 then N
             else (case netsync_find_uid N (ps ! 0) of
                     None \<Rightarrow> N
                   | Some t \<Rightarrow>
                       if c_remote (n_client N t)
                       then route_to (c_nserver (n_client N t)) (reply_line 900 (msg_prefix msg) ''ENCAP'' ps None) N
                       else (case find (\<lambda>c. strcaseeq (ps ! 1) c) ENCAP_CMDS of
                               None \<Rightarrow> N
                             | Some c \<Rightarrow> tell (Run_Override oper c (take IRC_MAX_PARAMS (c_nick (n_client N t) # drop 2 ps))) N)))"

definition netsync_encap :: "world \<Rightarrow> client_id \<Rightarrow> client_id \<Rightarrow> string \<Rightarrow> string list \<Rightarrow> net \<Rightarrow> net" where
  "netsync_encap W oper t command args N =
     (let c = n_client N t
      in case c_nserver c of
           None \<Rightarrow> N
         | Some s \<Rightarrow>
             if c_uid (n_client N oper) = [] \<or> \<not> c_remote c then N
             else on_sv (notice_self W oper (clip 300 (c_nick c @ '' is on '' @ ns_name (the_server N s) @ '' -- '' @ command @ '' sent there'')))
                    (route_to (Some s)
                       (net_line 900 (c_uid (n_client N oper)) ''ENCAP'' (take IRC_MAX_PARAMS (c_uid c # command # args)) None) N))"

text \<open>Account services: the server a UID or a connection id \<open>sid.number\<close> belongs to.\<close>

definition svc_route :: "net \<Rightarrow> string \<Rightarrow> nat option" where
  "svc_route N dest =
     (case split_chr CHR ''.'' dest of
        Some (sid, _) \<Rightarrow> if length sid \<noteq> SID_LEN then None else netsync_find_sid N sid
      | None \<Rightarrow> (case netsync_find_uid N dest of None \<Rightarrow> None | Some u \<Rightarrow> c_nserver (n_client N u)))"

definition netsync_svcrelay :: "string \<Rightarrow> string \<Rightarrow> net \<Rightarrow> net" where
  "netsync_svcrelay dest line N =
     (case svc_route N dest of
        None \<Rightarrow> N
      | Some to \<Rightarrow>
          if to = n_self N then N
          else route_to (Some to) (net_line 1000 (self_sid N) ''SVCRELAY'' [dest] (Some line)) N)"

text \<open>The services link a bot came over.\<close>

definition bot_link :: "net \<Rightarrow> client_id \<Rightarrow> nat option" where
  "bot_link N u = map_option fst (find (\<lambda>(l, lk). u \<in> set (lk_bots lk)) (n_links N))"

definition handle_svcrelay :: "nat option \<Rightarrow> irc_message \<Rightarrow> net \<Rightarrow> net" where
  "handle_svcrelay lns msg N =
     (let ps = msg_params msg
      in if length ps < 2 \<or> src_server N lns (msg_prefix msg) = None then N
         else (let dest = ps ! 0; line = last ps;
                   here = (case irc_parse_line (clip 1000 line) of Some m \<Rightarrow> tell (Svc_Command m) N | None \<Rightarrow> N)
               in case svc_route N dest of
                    None \<Rightarrow> N
                  | Some to \<Rightarrow>
                      if to \<noteq> n_self N then route_to (Some to) (reply_line 1000 (msg_prefix msg) ''SVCRELAY'' [dest] (Some line)) N
                      else (case (if CHR ''.'' \<in> set dest then None else netsync_find_uid N dest) of
                              None \<Rightarrow> here
                            | Some u \<Rightarrow>
                                (case (c_is_service (n_client N u), bot_link N u) of
                                   (True, Some bl) \<Rightarrow> link_forward_line bl line N
                                 | _ \<Rightarrow> here))))"

section \<open>The dispatcher\<close>

text \<open>The joins of a link that is bursting go into its netjoin batch.\<close>

definition in_netjoin :: "nat \<Rightarrow> (net \<Rightarrow> net) \<Rightarrow> net \<Rightarrow> net" where
  "in_netjoin l handler N =
     (let prev = sv_fb_cur (n_sv N);
          N1 = (if n_netjoin N = Some l then on_sv (\<lambda>sv. sv\<lparr>sv_fb_cur := FB_NETJOIN\<rparr>) N else N)
      in on_sv (\<lambda>sv. sv\<lparr>sv_fb_cur := prev\<rparr>) (handler N1))"

definition end_of_burst :: "world \<Rightarrow> nat \<Rightarrow> net \<Rightarrow> net" where
  "end_of_burst W l N =
     (if n_netjoin N = Some l then (on_sv (server_fbatch_end W FB_NETJOIN) N)\<lparr>n_netjoin := None\<rparr> else N)"

definition handlers :: "world \<Rightarrow> nat \<Rightarrow> nat option \<Rightarrow> irc_message \<Rightarrow> (string \<times> (net \<Rightarrow> net)) list" where
  "handlers W l lns msg =
     [(''SERVER'', handle_server W l lns msg), (''UID'', handle_uid W l lns msg), (''NICK'', handle_nick W l lns msg),
      (''QUIT'', handle_quit W l lns msg), (''UMODE'', handle_umode l lns msg), (''AWAY'', handle_away W l lns msg),
      (''CHGHOST'', handle_chghost W l lns msg), (''SETNAME'', handle_setname W l lns msg), (''ACCOUNT'', handle_account W l lns msg),
      (''KILL'', handle_kill W msg), (''SQUIT'', handle_squit W l lns msg),
      (''SJOIN'', in_netjoin l (handle_sjoin W l lns msg)), (''JOIN'', in_netjoin l (handle_join W l lns msg)),
      (''BMASK'', handle_bmask W l lns msg), (''TB'', handle_tb W l lns msg), (''PART'', handle_part W l lns msg),
      (''KICK'', handle_kick W l lns msg), (''TOPIC'', handle_topic W l lns msg), (''MODE'', handle_mode W l lns msg),
      (''PRIVMSG'', handle_message l lns msg), (''NOTICE'', handle_message l lns msg), (''TAGMSG'', handle_message l lns msg),
      (''INVITE'', handle_invite l lns msg), (''PUSH'', handle_push msg),
      (''WALLOPS'', handle_wallops l lns msg), (''GLOBOPS'', handle_wallops l lns msg),
      (''GLINE'', handle_gline W l lns msg), (''SHUN'', handle_gline W l lns msg),
      (''UNGLINE'', handle_ungline W l msg), (''UNSHUN'', handle_ungline W l msg),
      (''RQUERY'', handle_rquery lns msg), (''RENAME'', handle_rename l lns msg), (''REDACT'', handle_redact l lns msg),
      (''MLINE'', handle_mline l lns msg), (''RSQUIT'', handle_rsquit msg), (''SVCRELAY'', handle_svcrelay lns msg),
      (''CERTFP'', handle_certfp l lns msg), (''ENCAP'', handle_encap lns msg), (''EOB'', end_of_burst W l)]"

definition netsync_handle :: "world \<Rightarrow> nat \<Rightarrow> irc_message \<Rightarrow> net \<Rightarrow> net" where
  "netsync_handle W l msg N =
     (case map_of (n_links N) l of
        None \<Rightarrow> N
      | Some lk \<Rightarrow>
          if lk_nserver lk = None then N
          else (case map_of (handlers W l (lk_nserver lk) msg) (msg_command msg) of Some f \<Rightarrow> f N | None \<Rightarrow> N))"

section \<open>Local events\<close>

text \<open>Nothing is said of a user that has no UID yet, or when there is nobody to tell.\<close>

definition said :: "net \<Rightarrow> client_id \<Rightarrow> bool" where
  "said N i \<longleftrightarrow> c_uid (n_client N i) \<noteq> [] \<and> netsync_has_links N"

definition say :: "client_id \<Rightarrow> string \<Rightarrow> net \<Rightarrow> net" where
  "say i line N = (if said N i then flood None line N else N)"

definition uid_of :: "net \<Rightarrow> client_id \<Rightarrow> string" where
  "uid_of N i = c_uid (n_client N i)"

definition netsync_introduce_user :: "world \<Rightarrow> client_id \<Rightarrow> net \<Rightarrow> net" where
  "netsync_introduce_user W i N =
     (let N1 = on_sv (change_client i (\<lambda>c. if c_nick_ts c = 0 then c\<lparr>c_nick_ts := w_now W\<rparr> else c)) (netsync_assign_uid i N);
          N2 = on_sv (emit (Svc_User i SVC_EV_USER)) N1
      in if \<not> netsync_has_links N2 then N2
         else fold (\<lambda>l N. link_lines l (uid_lines N (n_client N i)) N) (map fst (n_links N2)) N2)"

definition netsync_user_quit :: "client_id \<Rightarrow> string option \<Rightarrow> net \<Rightarrow> net" where
  "netsync_user_quit i reason N =
     (if c_remote (n_client N i) then N
      else say i (net_line 500 (uid_of N i) ''QUIT'' [] (Some (case reason of Some r \<Rightarrow> r | None \<Rightarrow> []))) N)"

definition netsync_user_nick :: "world \<Rightarrow> client_id \<Rightarrow> net \<Rightarrow> net" where
  "netsync_user_nick W i N =
     (let N1 = on_sv (emit (Svc_User i SVC_EV_NICK)) (on_sv (change_client i (\<lambda>c. c\<lparr>c_nick_ts := w_now W\<rparr>)) N)
      in say i (net_line 300 (uid_of N1 i) ''NICK'' [c_nick (n_client N1 i), show_int (w_now W)] None) N1)"

definition netsync_user_modes :: "client_id \<Rightarrow> net \<Rightarrow> net" where
  "netsync_user_modes i N = say i (net_line 200 (uid_of N i) ''UMODE'' [umodes_to_string (n_client N i)] None) N"

definition netsync_user_away :: "client_id \<Rightarrow> net \<Rightarrow> net" where
  "netsync_user_away i N =
     say i (net_line 500 (uid_of N i) ''AWAY'' [] (Some (if c_is_away (n_client N i) then c_away (n_client N i) else []))) N"

definition netsync_user_chghost :: "client_id \<Rightarrow> net \<Rightarrow> net" where
  "netsync_user_chghost i N =
     (let c = n_client N i
      in say i (net_line 400 (self_sid N) ''CHGHOST'' [c_uid c, c_user c, c_host c, if c_ident_confirmed c then ''1'' else ''0''] None) N)"

definition netsync_user_setname :: "client_id \<Rightarrow> net \<Rightarrow> net" where
  "netsync_user_setname i N = say i (net_line 500 (uid_of N i) ''SETNAME'' [] (Some (c_realname (n_client N i)))) N"

definition netsync_user_account :: "client_id \<Rightarrow> net \<Rightarrow> net" where
  "netsync_user_account i N =
     (let N1 = on_sv (emit (Svc_User i SVC_EV_ACCOUNT)) N; c = n_client N1 i
      in say i (net_line 300 (self_sid N1) ''ACCOUNT'' [c_uid c, if c_account c \<noteq> [] then c_account c else ''*''] None) N1)"

text \<open>A channel that was made here is announced with its modes and the rank of its founder.\<close>

definition netsync_chan_join :: "string \<Rightarrow> client_id \<Rightarrow> bool \<Rightarrow> net \<Rightarrow> net" where
  "netsync_chan_join k i created N =
     (let chan = chan_of (n_sv N) k; ts = show_int (ch_created chan); rank = (case channel_find_member chan i of Some m \<Rightarrow> mb_rank m | None \<Rightarrow> 0)
      in say i (if \<not> created then net_line 900 (uid_of N i) ''JOIN'' [ts, ch_name chan] None
                else net_line 900 (self_sid N) ''SJOIN'' (ts # ch_name chan # burst_modes chan) (Some (member_token rank (uid_of N i)))) N)"

definition netsync_chan_part :: "string \<Rightarrow> client_id \<Rightarrow> string option \<Rightarrow> net \<Rightarrow> net" where
  "netsync_chan_part k i reason N = say i (net_line 500 (uid_of N i) ''PART'' [ch_name (chan_of (n_sv N) k)] reason) N"

text \<open>What acts in the name of nobody, or of somebody without a UID, is done by the server.\<close>

definition acting :: "net \<Rightarrow> client_id option \<Rightarrow> string" where
  "acting N i = (case i of None \<Rightarrow> self_sid N | Some j \<Rightarrow> if uid_of N j \<noteq> [] then uid_of N j else self_sid N)"

definition netsync_chan_kick :: "string \<Rightarrow> client_id option \<Rightarrow> client_id \<Rightarrow> string \<Rightarrow> net \<Rightarrow> net" where
  "netsync_chan_kick k kicker target reason N =
     say target (net_line 500 (acting N kicker) ''KICK'' [ch_name (chan_of (n_sv N) k), uid_of N target] (Some reason)) N"

definition netsync_chan_topic :: "string \<Rightarrow> client_id option \<Rightarrow> string \<Rightarrow> net \<Rightarrow> net" where
  "netsync_chan_topic k setter txt N =
     (if \<not> netsync_has_links N then N
      else flood None (net_line 700 (acting N setter) ''TOPIC'' [ch_name (chan_of (n_sv N) k)] (Some txt)) N)"

text \<open>The arguments of a mode change with UIDs for the nicks, at most twelve.\<close>

fun wire_args :: "net \<Rightarrow> nat \<Rightarrow> char \<Rightarrow> string \<Rightarrow> string list \<Rightarrow> string list" where
  "wire_args N room sign [] args = []"
| "wire_args N room sign (c # cs) args =
     (if room = 0 then []
      else if c = CHR ''+'' \<or> c = CHR ''-'' then wire_args N room c cs args
      else if \<not> mode_takes (sign = CHR ''+'') c then wire_args N room sign cs args
      else (case args of
              [] \<Rightarrow> wire_args N room sign cs []
            | a # args2 \<Rightarrow>
                (if c \<in> set ''ohvqa'' then
                   (case server_find_user a (n_sv N) of Some t \<Rightarrow> if uid_of N t \<noteq> [] then uid_of N t else a | None \<Rightarrow> a) else a)
                # wire_args N (room - 1) sign cs args2))"

definition netsync_chan_mode :: "string \<Rightarrow> client_id option \<Rightarrow> string \<Rightarrow> string list \<Rightarrow> net \<Rightarrow> net" where
  "netsync_chan_mode k setter modes args N =
     (if \<not> netsync_has_links N then N
      else flood None (net_line 900 (acting N setter) ''MODE''
             (ch_name (chan_of (n_sv N) k) # modes # wire_args N 12 CHR ''+'' modes args) None) N)"

definition netsync_chan_rename :: "string \<Rightarrow> client_id \<Rightarrow> string \<Rightarrow> string \<Rightarrow> net \<Rightarrow> net" where
  "netsync_chan_rename k i oldname reason N =
     say i (net_line 500 (uid_of N i) ''RENAME'' [oldname, ch_name (chan_of (n_sv N) k)] (Some reason)) N"

definition netsync_invite :: "client_id \<Rightarrow> client_id \<Rightarrow> string \<Rightarrow> net \<Rightarrow> net" where
  "netsync_invite from target k N =
     (if uid_of N target = [] then N
      else say from (net_line 300 (uid_of N from) ''INVITE'' [uid_of N target, ch_name (chan_of (n_sv N) k)] None) N)"

text \<open>To the server of the user it is for, or to all links.\<close>

definition say_to :: "client_id \<Rightarrow> client_id option \<Rightarrow> string \<Rightarrow> net \<Rightarrow> net" where
  "say_to from dest line N =
     (if \<not> said N from then N
      else (case dest of Some t \<Rightarrow> route_to (c_nserver (n_client N t)) line N | None \<Rightarrow> flood None line N))"

definition wire_target :: "net \<Rightarrow> string \<Rightarrow> client_id option \<Rightarrow> string" where
  "wire_target N target dest = (case dest of Some t \<Rightarrow> uid_of N t | None \<Rightarrow> target)"

definition netsync_message :: "client_id \<Rightarrow> string \<Rightarrow> string \<Rightarrow> client_id option \<Rightarrow> string option \<Rightarrow> irc_tag list \<Rightarrow> net \<Rightarrow> net" where
  "netsync_message from verb target dest txt tags N =
     say_to from dest (tagged_line 1500 tags (Some (uid_of N from)) verb [wire_target N target dest] txt) N"

definition netsync_mline :: "client_id \<Rightarrow> string \<Rightarrow> client_id option \<Rightarrow> string \<Rightarrow> bool \<Rightarrow> string \<Rightarrow> net \<Rightarrow> net" where
  "netsync_mline from target dest msgid joined txt N =
     say_to from dest (net_line 700 (uid_of N from) ''MLINE'' [wire_target N target dest, msgid, if joined then ''c'' else ''-''] (Some txt)) N"

definition netsync_redact :: "client_id \<Rightarrow> string option \<Rightarrow> client_id option \<Rightarrow> string \<Rightarrow> string option \<Rightarrow> net \<Rightarrow> net" where
  "netsync_redact from chan dest msgid reason N =
     (case chan of
        Some c \<Rightarrow> say from (net_line 700 (uid_of N from) ''REDACT'' [c, msgid] reason) N
      | None \<Rightarrow>
          (case dest of
             None \<Rightarrow> N
           | Some t \<Rightarrow>
               if \<not> c_remote (n_client N t) then N
               else say_to from (Some t) (net_line 700 (uid_of N from) ''REDACT'' [uid_of N t, msgid] reason) N))"

definition netsync_kill :: "client_id \<Rightarrow> client_id \<Rightarrow> string \<Rightarrow> net \<Rightarrow> net" where
  "netsync_kill oper target reason N =
     (if \<not> c_remote (n_client N target) then N
      else route_to (c_nserver (n_client N target)) (net_line 400 (acting N (Some oper)) ''KILL'' [uid_of N target] (Some reason)) N)"

definition netsync_wallops :: "client_id \<Rightarrow> string \<Rightarrow> string \<Rightarrow> net \<Rightarrow> net" where
  "netsync_wallops from verb txt N = say from (net_line 600 (uid_of N from) verb [] (Some txt)) N"

definition broadcast_line :: "nat \<Rightarrow> string \<Rightarrow> string list \<Rightarrow> string option \<Rightarrow> net \<Rightarrow> net" where
  "broadcast_line sz verb ps reason N =
     (if \<not> netsync_has_links N then N else flood None (net_line sz (self_sid N) verb ps reason) N)"

definition netsync_gline :: "string \<Rightarrow> string \<Rightarrow> int \<Rightarrow> string \<Rightarrow> net \<Rightarrow> net" where
  "netsync_gline msk setter expires reason = broadcast_line 600 ''GLINE'' [msk, setter, show_int expires] (Some reason)"

definition netsync_ungline :: "string \<Rightarrow> net \<Rightarrow> net" where
  "netsync_ungline msk = broadcast_line 300 ''UNGLINE'' [msk] None"

definition netsync_shun :: "string \<Rightarrow> string \<Rightarrow> int \<Rightarrow> string \<Rightarrow> net \<Rightarrow> net" where
  "netsync_shun msk setter expires reason = broadcast_line 600 ''SHUN'' [msk, setter, show_int expires] (Some reason)"

definition netsync_unshun :: "string \<Rightarrow> net \<Rightarrow> net" where
  "netsync_unshun msk = broadcast_line 300 ''UNSHUN'' [msk] None"

definition netsync_push :: "client_id \<Rightarrow> string \<Rightarrow> net \<Rightarrow> net" where
  "netsync_push target line N =
     (if \<not> c_remote (n_client N target) then N
      else route_to (c_nserver (n_client N target)) (net_line 900 (self_sid N) ''PUSH'' [uid_of N target] (Some line)) N)"

definition netsync_squit_command :: "world \<Rightarrow> client_id \<Rightarrow> string \<Rightarrow> string \<Rightarrow> net \<Rightarrow> net" where
  "netsync_squit_command W oper name reason N =
     (case netsync_find_name N name of
        None \<Rightarrow> on_sv (notice_self W oper ''No such server'') N
      | Some s \<Rightarrow>
          if s = n_self N then on_sv (notice_self W oper ''No such server'') N
          else (case direct_link N s of
                  Some l \<Rightarrow> link_close l (on_sv (notice_self W oper (clip 200 (''Closed link to '' @ ns_name (the_server N s) @ '' ('' @ reason @ '')''))) N)
                | None \<Rightarrow> on_sv (notice_self W oper ''SQUIT request sent toward that server'')
                    (route_to (Some s) (net_line 300 (self_sid N) ''RSQUIT'' [ns_sid (the_server N s)] (Some reason)) N)))"

section \<open>Closed links\<close>

text \<open>
  One link that is closing is taken off the list (\<open>link_reap\<close>): what hangs behind it goes, and so
  do the bots of a services link.
\<close>

definition reap_link :: "world \<Rightarrow> nat \<Rightarrow> net \<Rightarrow> net" where
  "reap_link W l N =
     (case map_of (n_links N) l of
        None \<Rightarrow> N
      | Some lk \<Rightarrow>
          (let N1 = (if lk_is_server lk then netsync_link_down W l ''Link closed'' N else N);
               N2 = N1\<lparr>n_links := AList.delete l (n_links N1)\<rparr>;
               N3 = on_sv (\<lambda>sv. fold (\<lambda>b s. server_remove_client W b (Some ''Service disconnected'') s) (lk_bots lk) sv) N2
           in if lk_peer_name lk \<noteq> [] then on_sv (server_notify_opers W (clip 200 (''Link with '' @ lk_peer_name lk @ '' lost''))) N3 else N3))"

definition link_reap :: "world \<Rightarrow> net \<Rightarrow> net" where
  "link_reap W N = fold (reap_link W) (map fst (filter (\<lambda>(l, lk). lk_closing lk) (n_links N))) N"

end
