(* ===== verification/Netframe.thy ===== *)
theory Netframe
  imports Netchan
begin

text \<open>
  What the handlers of server lines leave alone. A step is steady when the registries of the server
  stay in order and no client comes, goes, changes its nick, UID or server, and no server comes or
  goes; most handlers are a chain of such steps, which the collection \<open>steady_intros\<close> takes apart
  from the last one to the first.
\<close>

unbundle bit_operations_syntax

section \<open>Steady steps of the server\<close>

text \<open>The part of a client the network depends on, and the part the registries depend on.\<close>

definition netid :: "client \<Rightarrow> nat option \<times> bool \<times> int \<times> string \<times> string" where
  "netid c = (c_nserver c, c_remote c, c_fd c, c_uid c, c_casefold_nick c)"

definition regs :: "client \<Rightarrow> (string \<times> string \<times> string list \<times> int \<times> string \<times> string list \<times> string list) \<times> bool \<times> bool \<times> bool \<times> nat option \<times> bool" where
  "regs c = (keyed c, c_dirty_q c, c_dead_q c, c_quitting c, c_nserver c, c_remote c)"

definition chan_keys :: "server \<Rightarrow> string set" where
  "chan_keys sv = fst ` set (sv_channels sv)"

definition keeps :: "server \<Rightarrow> server \<Rightarrow> bool" where
  "keeps sv sv' \<longleftrightarrow> (server_ok sv \<longrightarrow>
     server_ok sv' \<and> tree_of sv' = tree_of sv \<and> live sv' = live sv \<and> sv_users sv' = sv_users sv \<and> sv_by_uid sv' = sv_by_uid sv \<and>
     (\<forall>i \<in> live sv. netid (sv_client sv' i) = netid (sv_client sv i)))"

definition steady :: "server \<Rightarrow> server \<Rightarrow> bool" where
  "steady sv sv' \<longleftrightarrow> keeps sv sv' \<and> (server_ok sv \<longrightarrow> chan_keys sv \<subseteq> chan_keys sv')"

named_theorems steady_intros "a steady step after steady ones"

lemma steady_refl [simp, steady_intros]: "steady sv sv"
  by (simp add: steady_def keeps_def)

lemma steady_trans: "steady a b \<Longrightarrow> steady b c \<Longrightarrow> steady a c"
  by (auto simp: steady_def keeps_def)

lemma keeps_trans: "keeps a b \<Longrightarrow> keeps b c \<Longrightarrow> keeps a c"
  by (auto simp: keeps_def)

lemma steady_keeps: "steady a b \<Longrightarrow> keeps a b"
  by (simp add: steady_def)

lemma steadyD:
  assumes "steady sv s" and "server_ok sv"
  shows "server_ok s" and "live s = live sv" and "sv_users s = sv_users sv" and "sv_by_uid s = sv_by_uid sv"
    and "k \<in> chan_keys sv \<Longrightarrow> k \<in> chan_keys s"
  using assms by (auto simp: steady_def keeps_def)

text \<open>A step may use that the registries are in order and that the same clients are there.\<close>

lemma steady_step:
  assumes "steady sv s"
    and "server_ok sv \<Longrightarrow> server_ok s \<Longrightarrow> live s = live sv \<Longrightarrow> chan_keys sv \<subseteq> chan_keys s \<Longrightarrow> steady s s'"
  shows "steady sv s'"
proof (cases "server_ok sv")
  case True
  with assms show ?thesis by (metis steadyD(1,2) steady_def steady_trans)
qed (simp add: steady_def keeps_def)

lemma netid_core: "core c' = core c \<Longrightarrow> netid c' = netid c"
  using core_fields [of c' c] by (simp add: netid_def)

lemma tells_steady:
  assumes t: "tells sv sv'"
  shows "steady sv sv'"
proof -
  have "sv_users sv' = sv_users sv" "sv_by_uid sv' = sv_by_uid sv" "sv_servers sv' = sv_servers sv" "sv_channels sv' = sv_channels sv"
    and c: "core (sv_client sv' i) = core (sv_client sv i)" for i
    using t by (simp_all add: tells_def)
  then show ?thesis
    using tells_ok [OF t] tells_live [OF t] netid_core [OF c] by (simp add: steady_def keeps_def tree_of_def chan_keys_def)
qed

lemma steady_tells: "steady sv s \<Longrightarrow> tells s s' \<Longrightarrow> steady sv s'"
  by (rule steady_trans [OF _ tells_steady])

lemma steady_emits [steady_intros]:
  "steady sv s \<Longrightarrow> steady sv (emit e s)" "steady sv s \<Longrightarrow> steady sv (srv_send i l s)" "steady sv s \<Longrightarrow> steady sv (notice_self W i t s)"
  "steady sv s \<Longrightarrow> steady sv (server_history_event W k l s)" "steady sv s \<Longrightarrow> steady sv (server_notify_opers W m s)"
  "steady sv s \<Longrightarrow> steady sv (server_fbatch_end W slot s)" "steady sv s \<Longrightarrow> steady sv (server_fbatch_begin W slot ty a b s)"
  "steady sv s \<Longrightarrow> steady sv (server_monitor_notify W i on s)" "steady sv s \<Longrightarrow> steady sv (server_watch_notify W i on s)"
  "steady sv s \<Longrightarrow> steady sv (server_monitor_extend W i l cap s)"
  by (rule steady_tells, assumption, rule tells_intros)+

lemma steady_fold:
  assumes "steady sv s" and "\<And>x t. x \<in> set xs \<Longrightarrow> steady sv t \<Longrightarrow> steady sv (f x t)"
  shows "steady sv (fold f xs s)"
  using assms by (induction xs arbitrary: s) auto

lemma steady_broadcast [steady_intros]: "steady sv s \<Longrightarrow> steady sv (server_broadcast_channel W k l ex s)"
  unfolding server_broadcast_channel_def Let_def
  by (rule steady_fold) (auto intro: steady_intros)

lemma steady_notify_all [steady_intros]: "steady sv s \<Longrightarrow> steady sv (notify_all W notes s)"
  unfolding notify_all_def by (rule steady_fold) (auto intro: steady_intros)

lemma steady_common [steady_intros]: "steady sv s \<Longrightarrow> (server_ok sv \<Longrightarrow> i \<in> live sv) \<Longrightarrow> steady sv (server_send_common_channels W i l cap s)"
  by (rule steady_step, assumption) (auto intro!: tells_steady tells_common)

lemma steady_fb_cur [steady_intros]: "steady sv s \<Longrightarrow> steady sv (s\<lparr>sv_fb_cur := x\<rparr>)"
  by (rule steady_tells, assumption) (simp add: tells_def)

lemma steady_lines [steady_intros]: "steady sv s \<Longrightarrow> steady sv (s\<lparr>sv_lines := x\<rparr>)"
  by (rule steady_tells, assumption) (simp add: tells_def)

subsection \<open>Writing a client\<close>

lemma regs_fields:
  assumes "regs c' = regs c"
  shows "keyed c' = keyed c" "c_dirty_q c' = c_dirty_q c" "c_dead_q c' = c_dead_q c" "c_quitting c' = c_quitting c"
    "c_nserver c' = c_nserver c" "c_remote c' = c_remote c"
  using assms by (simp_all add: regs_def)

lemma write_ok:
  assumes ok: "server_ok sv" and i: "i \<in> live sv" and r: "regs cl = regs (sv_client sv i)"
  shows "server_ok (sv_write i cl sv)"
proof -
  note f = regs_fields [OF r] keyed_fields [OF regs_fields(1) [OF r]]
  have q: "queues_ok (sv_write i cl sv)" using ok i f by (intro queues_write) (simp_all add: server_ok_def)
  have e: "sv_write i cl sv = sv\<lparr>sv_q := ev_write (sv_q sv) i cl\<rparr>" by (simp add: sv_write_def)
  have l: "live (sv_write i cl sv) = live sv" using i by simp
  have k: "keyed (ev_client (ev_write (sv_q sv) i cl) j) = keyed (sv_client sv j)" for j
    using f(1) by (simp add: ev_client_write)
  show ?thesis unfolding e by (rule queue_step_ok [OF ok]) (use q l k in \<open>simp_all add: e\<close>)
qed

lemma regs_netid: "regs c' = regs c \<Longrightarrow> netid c' = netid c"
  by (simp add: regs_def keyed_def netid_def)

lemma steady_write:
  assumes "i \<in> live sv" and "regs cl = regs (sv_client sv i)"
  shows "steady sv (sv_write i cl sv)"
  using write_ok [OF _ assms] assms regs_netid [OF assms(2)]
  by (simp add: steady_def keeps_def tree_of_def chan_keys_def)

lemma steady_change [steady_intros]:
  assumes "steady sv s" and "server_ok sv \<Longrightarrow> i \<in> live sv" and "\<And>c. regs (f c) = regs c"
  shows "steady sv (change_client i f s)"
  by (rule steady_step [OF assms(1)]) (use assms in \<open>auto simp: change_client_def intro!: steady_write\<close>)

lemma steady_tell_change [steady_intros]:
  "steady sv s \<Longrightarrow> (server_ok sv \<Longrightarrow> i \<in> live sv) \<Longrightarrow> steady sv (tell_change W i l cap s)"
  unfolding tell_change_def by (auto intro!: steady_intros)

lemma steady_fbatch_send [steady_intros]:
  "steady sv s \<Longrightarrow> (server_ok sv \<Longrightarrow> i \<in> live sv) \<Longrightarrow> steady sv (server_fbatch_send W i l s)"
  by (rule steady_step, assumption) (auto intro!: tells_steady tells_fbatch_send)

lemma steady_quit [steady_intros]:
  assumes "steady sv s" and "server_ok sv \<Longrightarrow> i \<in> live sv"
  shows "steady sv (s\<lparr>sv_q := client_mark_quit i (sv_q s)\<rparr>)"
proof (rule steady_step [OF assms(1)])
  assume ok: "server_ok sv" "server_ok s" "live s = live sv"
  then have i: "i \<in> live s" using assms(2) by simp
  have "netid (ev_client (client_mark_quit i (sv_q s)) j) = netid (ev_client (sv_q s) j)" for j
    by (simp add: client_mark_quit_def Let_def ev_client_def ev_write_def update_conv netid_def)
  then show "steady s (s\<lparr>sv_q := client_mark_quit i (sv_q s)\<rparr>)"
    using mark_quit_ok [OF ok(2) i] by (auto simp: steady_def keeps_def tree_of_def chan_keys_def)
qed

lemma enforce_steady:
  assumes "set is \<subseteq> live sv"
  shows "steady sv (sv\<lparr>sv_q := snd (server_kline_enforce I kt m t r ex is (sv_q sv))\<rparr>)"
  using assms
proof (induction "is" arbitrary: sv)
  case (Cons i "is")
  show ?case
  proof (cases "enforce_hit I kt m t ex i (sv_client sv i)")
    case True
    define s1 where "s1 = change_client i (\<lambda>c. c\<lparr>c_quit_reason := clip 256 r\<rparr>) sv"
    define s2 where "s2 = s1\<lparr>sv_q := client_mark_quit i (sv_q s1)\<rparr>"
    have st: "steady sv s2"
      unfolding s2_def s1_def using Cons.prems by (auto intro!: steady_intros simp: regs_def keyed_def)
    have q: "sv_q s2 = client_mark_quit i (ev_write (sv_q sv) i ((sv_client sv i)\<lparr>c_quit_reason := clip 256 r\<rparr>))"
      by (simp add: s2_def s1_def change_client_def sv_write_def)
    have e: "s2\<lparr>sv_q := x\<rparr> = sv\<lparr>sv_q := x\<rparr>" for x by (simp add: s2_def s1_def change_client_def sv_write_def)
    show ?thesis
    proof (rule steady_step [OF st])
      assume "live s2 = live sv"
      then have "steady s2 (s2\<lparr>sv_q := snd (server_kline_enforce I kt m t r ex is (sv_q s2))\<rparr>)"
        using Cons by (intro Cons.IH) auto
      then show "steady s2 (sv\<lparr>sv_q := snd (server_kline_enforce I kt m t r ex (i # is) (sv_q sv))\<rparr>)"
        unfolding e using True by (simp add: q Let_def split_def)
    qed
  next
    case False
    then show ?thesis using Cons by simp
  qed
qed simp

lemma steady_enforce [steady_intros]: "steady sv s \<Longrightarrow> steady sv (enforce_line W m t r s)"
  by (rule steady_step, assumption) (auto simp: enforce_line_def server_ok_def conns_ok_def intro!: enforce_steady)

lemma steady_add_line [steady_intros]: "steady sv s \<Longrightarrow> steady sv (add_line W m r b t d s)"
  by (auto simp: add_line_def Let_def split_def intro!: steady_intros)

subsection \<open>Channels\<close>

lemma chan_keys_dom: "chan_keys sv = dom (map_of (sv_channels sv))"
  by (simp add: chan_keys_def dom_map_of_conv_image_fst)

lemma chan_keys_Some: "k \<in> chan_keys sv \<longleftrightarrow> map_of (sv_channels sv) k = Some (chan_of sv k)"
  by (auto simp: chan_keys_dom chan_of_def)

lemma set_chan_simps [simp]:
  "live (set_chan k c sv) = live sv" "sv_q (set_chan k c sv) = sv_q sv" "sv_users (set_chan k c sv) = sv_users sv"
  "sv_by_uid (set_chan k c sv) = sv_by_uid sv" "tree_of (set_chan k c sv) = tree_of sv" "chan_of (set_chan k c sv) k = c"
  "sv_servers (set_chan k c sv) = sv_servers sv"
  by (simp_all add: set_chan_def live_def tree_of_def chan_of_def map_of_AList_set)

lemma chan_keys_set [simp]: "chan_keys (set_chan k c sv) = insert k (chan_keys sv)"
  by (simp add: chan_keys_dom set_chan_def map_of_update)

lemma steady_set_chan:
  assumes k: "k \<in> chan_keys sv" and m: "member_ids c = member_ids (chan_of sv k)"
  shows "steady sv (set_chan k c sv)"
proof -
  have "server_ok (set_chan k c sv)" if ok: "server_ok sv"
  proof -
    have C: "channels_ok sv" using ok by (simp add: server_ok_def)
    note D = channels_okD [OF C]
    have km: "map_of (sv_channels sv) k = Some (chan_of sv k)" using k by (simp add: chan_keys_Some)
    let ?r = "sv\<lparr>sv_channels := AList.update k c (sv_channels sv)\<rparr>"
    have u: "map_of (sv_channels ?r) k' = (if k' = k then Some c else map_of (sv_channels sv) k')" for k' by (simp add: map_of_AList_set)
    have "channels_ok ?r"
    proof (rule channels_okI, unfold set_chan_fields u)
      show "distinct (map fst (sv_channels ?r))" using D(1) by (simp add: distinct_update)
      show "distinct (member_ids d) \<and> set (member_ids d) \<subseteq> live sv"
        if "(if k' = k then Some c else map_of (sv_channels sv) k') = Some d" for k' d
        using that D(2) [of k' d] D(2) [OF km] m by (auto split: if_splits)
      show "distinct (c_channels (sv_client ?r j))" if "j \<in> live sv" for j using D(3) [OF that] by simp
      show "k' \<in> set (c_channels (sv_client ?r j)) \<longleftrightarrow>
          (\<exists>d. (if k' = k then Some c else map_of (sv_channels sv) k') = Some d \<and> j \<in> set (member_ids d))" if "j \<in> live sv" for j k'
        using D(4) [OF that, of k'] km m by auto
    qed
    then show ?thesis unfolding set_chan_def by (rule set_channels_ok [OF ok])
  qed
  then show ?thesis by (auto simp: steady_def keeps_def)
qed

lemma steady_on_chan [steady_intros]:
  assumes "steady sv s" and "server_ok sv \<Longrightarrow> k \<in> chan_keys sv" and "\<And>c. member_ids (f c) = member_ids c"
  shows "steady sv (on_chan k f s)"
  by (rule steady_step [OF assms(1)]) (use assms in \<open>auto simp: on_chan_def intro!: steady_set_chan\<close>)

text \<open>A client joins: its channel gets it as the last member.\<close>

lemma steady_join:
  assumes st: "steady sv s" and i: "server_ok sv \<Longrightarrow> i \<in> live sv" and k: "server_ok sv \<Longrightarrow> k \<in> chan_keys sv"
    and n: "i \<notin> set (member_ids (chan_of s k))" and f: "member_ids (f (chan_of s k)) = member_ids (chan_of s k) @ [i]"
  shows "steady sv (server_attach_membership i k (on_chan k f s))"
proof (rule steady_step [OF st])
  assume ok: "server_ok sv" "server_ok s" "live s = live sv" "chan_keys sv \<subseteq> chan_keys s"
  define c where "c = chan_of s k"
  define j where "j = join_channel i k s"
  have km: "map_of (sv_channels s) k = Some c" using k ok by (auto simp: c_def simp flip: chan_keys_Some)
  have i': "i \<in> live s" using i ok by simp
  have o: "server_ok j" unfolding j_def by (rule join_channel_ok [OF ok(2) i' km]) (use n in \<open>simp add: c_def\<close>)
  have l: "live j = live s"
    using i' by (simp add: j_def join_channel_def server_attach_membership_def Let_def)
  have ks: "chan_keys j = chan_keys s" using km
    by (simp add: j_def join_channel_def server_attach_membership_def Let_def chan_keys_def sv_write_def) (auto simp: chan_keys_Some chan_keys_def [symmetric] c_def)
  have "steady s j"
    using o l ks by (simp add: steady_def keeps_def)
      (simp add: j_def join_channel_def server_attach_membership_def Let_def netid_def tree_of_def set_chan_def)
  moreover have "steady j (set_chan k (f c) j)"
  proof (rule steady_set_chan)
    show "k \<in> chan_keys j" using km ks by (simp add: chan_keys_Some c_def)
    have "chan_of j k = channel_add_member c i"
      by (simp add: j_def join_channel_def server_attach_membership_def Let_def c_def chan_of_def set_chan_def map_of_AList_set)
    then show "member_ids (f c) = member_ids (chan_of j k)" using n f by (simp add: c_def member_ids_add)
  qed
  moreover have "set_chan k (f c) j = server_attach_membership i k (on_chan k f s)"
    by (simp add: j_def join_channel_def server_attach_membership_def Let_def on_chan_def c_def set_chan_def sv_write_def)
  ultimately show "steady s (server_attach_membership i k (on_chan k f s))" using steady_trans by metis
qed

lemma keeps_part:
  assumes st: "steady sv s" and i: "server_ok sv \<Longrightarrow> i \<in> live sv" and k: "server_ok sv \<Longrightarrow> k \<in> chan_keys sv"
    and n: "i \<in> set (member_ids (chan_of s k))"
  shows "keeps sv (part_channel i k s)"
proof -
  have "server_ok sv \<Longrightarrow> keeps s (part_channel i k s)"
  proof -
    assume ok: "server_ok sv"
    note D = steadyD [OF st ok]
    have km: "map_of (sv_channels s) k = Some (chan_of s k)" using k ok D(5) by (simp flip: chan_keys_Some)
    have i': "i \<in> live s" using i ok D by simp
    have "server_ok (part_channel i k s)" by (rule part_channel_ok(1) [OF D(1) i' km n])
    moreover have "live (part_channel i k s) = live s" "tree_of (part_channel i k s) = tree_of s"
      "sv_users (part_channel i k s) = sv_users s" "sv_by_uid (part_channel i k s) = sv_by_uid s"
      "netid (sv_client (part_channel i k s) j) = netid (sv_client s j)" for j
      using i' by (simp_all add: part_channel_def server_maybe_drop_channel_def server_detach_membership_def Let_def netid_def
          tree_of_def sv_write_fields)
    ultimately show ?thesis by (simp add: keeps_def)
  qed
  then show ?thesis using st steady_keeps keeps_trans by (metis keeps_def)
qed

lemma steady_create:
  assumes "steady sv s"
  shows "steady sv (snd (server_get_or_create_channel W name s))"
    and "fst (server_get_or_create_channel W name s) \<in> chan_keys (snd (server_get_or_create_channel W name s))"
proof -
  show "fst (server_get_or_create_channel W name s) \<in> chan_keys (snd (server_get_or_create_channel W name s))"
    by (auto simp: server_get_or_create_channel_def server_find_channel_def Let_def chan_keys_dom split: option.split)
  have "steady s (snd (server_get_or_create_channel W name s))"
    using create_channel_ok [of s W name]
    by (auto simp: steady_def keeps_def server_get_or_create_channel_def server_find_channel_def Let_def chan_keys_def tree_of_def netid_def live_def
        split: option.split)
  with assms show "steady sv (snd (server_get_or_create_channel W name s))" by (rule steady_trans)
qed

section \<open>Calm steps of the network\<close>

text \<open>Of a link: the server behind it, whether it is a server link, and the bots that came over it.\<close>

definition link_state :: "link \<Rightarrow> nat option \<times> bool \<times> client_id list" where
  "link_state lk = (lk_nserver lk, lk_is_server lk, lk_bots lk)"

definition link_view :: "net \<Rightarrow> (nat \<times> nat option \<times> bool \<times> client_id list) list" where
  "link_view N = map (\<lambda>(l, lk). (l, link_state lk)) (n_links N)"

definition calm :: "net \<Rightarrow> net \<Rightarrow> bool" where
  "calm N M \<longleftrightarrow> n_self M = n_self N \<and> link_view M = link_view N \<and> keeps (n_sv N) (n_sv M)"

lemma calm_refl [simp]: "calm N N"
  by (simp add: calm_def keeps_def)

lemma calm_steady: "n_self M = n_self N \<Longrightarrow> link_view M = link_view N \<Longrightarrow> steady (n_sv N) (n_sv M) \<Longrightarrow> calm N M"
  by (simp add: calm_def steady_keeps)

lemma link_view_update:
  assumes "map_of L l = Some lk" and "link_state lk' = link_state lk"
  shows "map (\<lambda>(l, lk). (l, link_state lk)) (AList.update l lk' L) = map (\<lambda>(l, lk). (l, link_state lk)) L"
  using assms by (induction L) (auto split: if_splits)

lemma link_state_closing [simp]: "link_state (lk\<lparr>lk_closing := b\<rparr>) = link_state lk"
  by (simp add: link_state_def)

lemma fold_same: "(\<And>x N. x \<in> set xs \<Longrightarrow> g (f x N) = g N) \<Longrightarrow> g (fold f xs N) = g N"
  by (induction xs arbitrary: N) auto

lemma on_sv_frame [simp]: "n_sv (on_sv f N) = f (n_sv N)" "n_links (on_sv f N) = n_links N" "n_self (on_sv f N) = n_self N"
  "n_netjoin (on_sv f N) = n_netjoin N" "link_view (on_sv f N) = link_view N"
  by (simp_all add: on_sv_def link_view_def)

lemma link_view_simps [simp]: "link_view (N\<lparr>n_sv := x\<rparr>) = link_view N" "link_view (N\<lparr>n_netjoin := y\<rparr>) = link_view N"
  "link_view (N\<lparr>n_uid_counter := z\<rparr>) = link_view N" "link_view (N\<lparr>n_out := v\<rparr>) = link_view N"
  by (simp_all add: link_view_def)

lemma tell_frame [simp]: "n_sv (tell e N) = n_sv N" "n_links (tell e N) = n_links N" "n_self (tell e N) = n_self N"
  "n_netjoin (tell e N) = n_netjoin N" "link_view (tell e N) = link_view N"
  by (simp_all add: tell_def link_view_def)

lemma send_link_frame [simp]: "n_sv (send_link l x N) = n_sv N" "n_links (send_link l x N) = n_links N" "n_self (send_link l x N) = n_self N"
  "n_netjoin (send_link l x N) = n_netjoin N" "link_view (send_link l x N) = link_view N"
  by (simp_all add: send_link_def split: option.split)

lemma flood_frame [simp]: "n_sv (flood e x N) = n_sv N" "n_links (flood e x N) = n_links N" "n_self (flood e x N) = n_self N"
  "n_netjoin (flood e x N) = n_netjoin N" "link_view (flood e x N) = link_view N"
  unfolding flood_def by (rule fold_same; simp)+

lemma link_lines_frame [simp]: "n_sv (link_lines l xs N) = n_sv N" "n_links (link_lines l xs N) = n_links N"
  "n_self (link_lines l xs N) = n_self N" "n_netjoin (link_lines l xs N) = n_netjoin N" "link_view (link_lines l xs N) = link_view N"
  unfolding link_lines_def by (rule fold_same; simp)+

lemma route_to_frame [simp]: "n_sv (route_to d x N) = n_sv N" "n_links (route_to d x N) = n_links N" "n_self (route_to d x N) = n_self N"
  "n_netjoin (route_to d x N) = n_netjoin N" "link_view (route_to d x N) = link_view N"
  by (simp_all add: route_to_def split: option.split)

lemma link_close_frame [simp]: "n_sv (link_close l N) = n_sv N" "n_self (link_close l N) = n_self N"
  "n_netjoin (link_close l N) = n_netjoin N" "link_view (link_close l N) = link_view N"
  by (simp_all add: link_close_def link_view_def link_view_update split: option.split)

lemma link_forward_frame [simp]: "n_sv (link_forward_line l x N) = n_sv N" "n_links (link_forward_line l x N) = n_links N"
  "n_self (link_forward_line l x N) = n_self N" "n_netjoin (link_forward_line l x N) = n_netjoin N"
  "link_view (link_forward_line l x N) = link_view N"
  by (simp_all add: link_forward_line_def split: option.split)

lemma find_uid_live: "server_ok (n_sv N) \<Longrightarrow> netsync_find_uid N u = Some i \<Longrightarrow> i \<in> live (n_sv N)"
  unfolding server_ok_def netsync_find_uid_def by (blast dest: users_okD(2))

lemma src_user_live: "server_ok (n_sv N) \<Longrightarrow> src_user N lns p = Some i \<Longrightarrow> i \<in> live (n_sv N)"
  by (auto simp: src_user_def find_uid_live split: option.splits if_splits)

lemma spoken_of_live: "server_ok (n_sv N) \<Longrightarrow> spoken_of N lns u = Some i \<Longrightarrow> i \<in> live (n_sv N)"
  by (auto simp: spoken_of_def find_uid_live split: option.splits if_splits)

lemma find_channel_key: "server_find_channel name sv = Some (k, c) \<Longrightarrow> k \<in> chan_keys sv \<and> chan_of sv k = c"
  by (auto simp: server_find_channel_def Let_def chan_keys_dom chan_of_def)

lemmas live_facts = find_uid_live src_user_live spoken_of_live

subsection \<open>Users\<close>

lemma regs_same [simp]:
  "regs (c\<lparr>c_umodes := u\<rparr>) = regs c" "regs (c\<lparr>c_is_away := b\<rparr>) = regs c" "regs (c\<lparr>c_away := t\<rparr>) = regs c"
  "regs (c\<lparr>c_realname := t\<rparr>) = regs c" "regs (c\<lparr>c_user := t\<rparr>) = regs c" "regs (c\<lparr>c_host := t\<rparr>) = regs c"
  "regs (c\<lparr>c_ident_confirmed := b\<rparr>) = regs c" "regs (c\<lparr>c_account := t\<rparr>) = regs c"
  "regs (c\<lparr>c_quit_reason := t\<rparr>) = regs c" "regs (c\<lparr>c_certfp := t\<rparr>) = regs c" "regs (c\<lparr>c_nick_ts := n\<rparr>) = regs c"
  "regs (c\<lparr>c_invite_key := t\<rparr>) = regs c"
  by (simp_all add: regs_def keyed_def)

lemma calm_umode: "calm N (handle_umode l lns msg N)"
  by (auto simp: handle_umode_def Let_def split: option.split list.split intro!: calm_steady steady_intros intro: live_facts)

lemma calm_away: "calm N (handle_away W l lns msg N)"
  by (auto simp: handle_away_def Let_def split: option.split intro!: calm_steady steady_intros intro: live_facts)

lemma calm_chghost: "calm N (handle_chghost W l lns msg N)"
  by (auto simp: handle_chghost_def Let_def split: option.split intro!: calm_steady steady_intros intro: live_facts)

lemma calm_setname: "calm N (handle_setname W l lns msg N)"
  by (auto simp: handle_setname_def Let_def split: option.split intro!: calm_steady steady_intros intro: live_facts)

lemma calm_account: "calm N (handle_account W l lns msg N)"
  by (auto simp: handle_account_def Let_def split: option.split intro!: calm_steady steady_intros intro: live_facts)

lemma calm_kill: "calm N (handle_kill W msg N)"
  by (auto simp: handle_kill_def kill_local_def Let_def split: option.split list.split intro!: calm_steady steady_intros intro: live_facts)

lemma calm_certfp: "calm N (handle_certfp l lns msg N)"
  by (auto simp: handle_certfp_def Let_def split: option.split list.split intro!: calm_steady steady_intros intro: live_facts)

subsection \<open>Channels\<close>

lemma member_found: "channel_find_member c i \<noteq> None \<longleftrightarrow> i \<in> set (member_ids c)"
  by (simp add: channel_find_member_def member_ids_def map_of_eq_None_iff)

lemma member_ids_set: "i \<in> set (member_ids c) \<Longrightarrow> member_ids (set_member c i m) = member_ids c"
  by (simp add: member_ids_def set_member_def keys_update_in)

lemma members_live: "server_ok s \<Longrightarrow> k \<in> chan_keys s \<Longrightarrow> im \<in> set (ch_members (chan_of s k)) \<Longrightarrow> fst im \<in> live s"
  unfolding server_ok_def chan_keys_Some by (fastforce dest: channels_okD(2) simp: member_ids_def)

lemma steady_send_if [steady_intros]: "steady sv s \<Longrightarrow> steady sv (if b then srv_send i l s else s)"
  by (simp add: steady_intros)

lemma steady_tell_join: "steady sv s \<Longrightarrow> (server_ok sv \<Longrightarrow> fst vm \<in> live sv) \<Longrightarrow> steady sv (tell_join W chan i vm s)"
  unfolding tell_join_def Let_def by (auto intro!: steady_intros)

lemma announce_frame [simp]: "link_view (announce_join W k i N) = link_view N" "n_self (announce_join W k i N) = n_self N"
  "n_links (announce_join W k i N) = n_links N"
  by (simp_all add: announce_join_def Let_def)

lemma steady_announce:
  assumes "steady sv (n_sv N)" and "server_ok sv \<Longrightarrow> k \<in> chan_keys sv"
  shows "steady sv (n_sv (announce_join W k i N))"
proof (rule steady_step [OF assms(1)])
  assume ok: "server_ok sv" "server_ok (n_sv N)" "live (n_sv N) = live sv" "chan_keys sv \<subseteq> chan_keys (n_sv N)"
  then have "k \<in> chan_keys (n_sv N)" using assms(2) by auto
  then have "fst im \<in> live (n_sv N)" if "im \<in> set (ch_members (chan_of (n_sv N) k))" for im
    using members_live [OF ok(2)] that by blast
  then show "steady (n_sv N) (n_sv (announce_join W k i N))"
    by (auto simp: announce_join_def Let_def intro!: steady_fold steady_tell_join steady_intros)
qed

lemma steady_reveal [steady_intros]:
  assumes "steady sv s" and "server_ok sv \<Longrightarrow> k \<in> chan_keys sv"
  shows "steady sv (channel_reveal_member k i s)"
proof (rule steady_step [OF assms(1)])
  assume ok: "server_ok sv" "server_ok s" "live s = live sv" "chan_keys sv \<subseteq> chan_keys s"
  show "steady s (channel_reveal_member k i s)"
  proof (cases "channel_find_member (chan_of s k) i")
    case (Some m)
    then have "member_ids (set_member (chan_of s k) i x) = member_ids (chan_of s k)" for x
      using member_found [of "chan_of s k" i] by (simp add: member_ids_set)
    then have "steady s (on_chan k (\<lambda>c. set_member c i x) s)" for x
      using ok assms(2) unfolding on_chan_def by (intro steady_set_chan) auto
    then have "steady s (on_chan k (\<lambda>c. set_member c i (m\<lparr>mb_hidden := False\<rparr>)) s)" .
    then have F: "steady s (fold (\<lambda>vm t. if P vm t then t else srv_send (fst vm) (line vm t) t) xs
        (on_chan k (\<lambda>c. set_member c i (m\<lparr>mb_hidden := False\<rparr>)) s))" for P line xs
      by (rule steady_fold) (simp add: steady_intros)
    show ?thesis
    proof (cases "mb_hidden m")
      case True
      have e: "(\<not> mb_hidden m) = False" using True by simp
      show ?thesis unfolding channel_reveal_member_def Let_def Some option.case e if_False by (rule F)
    qed (simp add: channel_reveal_member_def Some)
  qed (simp add: channel_reveal_member_def)
qed

lemma steady_rank_modes [steady_intros]: "steady sv s \<Longrightarrow> steady sv (broadcast_rank_modes W k src sign cs s)"
  unfolding broadcast_rank_modes_def by (rule steady_fold) (auto intro: steady_intros)

lemma member_ids_fields [simp]:
  "member_ids (c\<lparr>ch_modes := m\<rparr>) = member_ids c" "member_ids (c\<lparr>ch_created := t\<rparr>) = member_ids c"
  "member_ids (c\<lparr>ch_topic := a\<rparr>) = member_ids c" "member_ids (c\<lparr>ch_topic_setter := a\<rparr>) = member_ids c"
  "member_ids (c\<lparr>ch_topic_time := t\<rparr>) = member_ids c" "member_ids (c\<lparr>ch_key := a\<rparr>) = member_ids c"
  "member_ids (c\<lparr>ch_limit := t\<rparr>) = member_ids c" "member_ids (c\<lparr>ch_redirect := a\<rparr>) = member_ids c"
  "member_ids (c\<lparr>ch_jt_joins := t\<rparr>) = member_ids c" "member_ids (c\<lparr>ch_jt_secs := t\<rparr>) = member_ids c"
  "member_ids (c\<lparr>ch_jt_count := t\<rparr>) = member_ids c" "member_ids (c\<lparr>ch_jt_start := t\<rparr>) = member_ids c"
  "member_ids (c\<lparr>ch_bans := l\<rparr>) = member_ids c" "member_ids (c\<lparr>ch_exceptions := l\<rparr>) = member_ids c"
  "member_ids (c\<lparr>ch_invex := l\<rparr>) = member_ids c" "member_ids (c\<lparr>ch_invited := is\<rparr>) = member_ids c"
  "member_ids (c\<lparr>ch_flood_lines := t\<rparr>) = member_ids c" "member_ids (c\<lparr>ch_flood_secs := t\<rparr>) = member_ids c"
  "member_ids (c\<lparr>ch_fp := fp\<rparr>) = member_ids c"
  by (simp_all add: member_ids_def)

lemma member_ids_reset [simp]: "member_ids (reset_channel c) = member_ids c"
  by (simp add: reset_channel_def member_ids_def split_def)

lemma clear_flood_members [simp]: "member_ids (channel_clear_flood c) = member_ids c"
  by (simp add: channel_clear_flood_def)

lemma flood_members: "channel_set_flood c a = Some c2 \<Longrightarrow> member_ids c2 = member_ids c"
  by (auto simp: channel_set_flood_def Let_def split: option.splits if_splits)

lemma state_param_members [simp]: "member_ids (state_param l a c) = member_ids c"
  by (auto simp: state_param_def Let_def flood_members split: option.split)

lemma state_modes_members [simp]: "member_ids (set_state_modes c modes args r) = member_ids c"
proof -
  have "member_ids (state_loop modes args c) = member_ids c" for c
    by (induction modes args c rule: state_loop.induct) (auto split: list.split)
  then show ?thesis by (simp add: set_state_modes_def clear_modes_def)
qed

lemma steady_reset [steady_intros]:
  assumes "steady sv (n_sv N)" and "server_ok sv \<Longrightarrow> k \<in> chan_keys sv"
  shows "steady sv (n_sv (reset_channel_for_ts W k N))"
  using assms unfolding reset_channel_for_ts_def Let_def
  by (auto intro!: steady_intros steady_fold)

lemma reset_frame [simp]: "link_view (reset_channel_for_ts W k N) = link_view N" "n_self (reset_channel_for_ts W k N) = n_self N"
  by (simp_all add: reset_channel_for_ts_def Let_def)

lemma sjoin_member_ids: "u \<notin> set (member_ids c) \<Longrightarrow> member_ids (sjoin_member keep (u, r) c) = member_ids c @ [u]"
  using member_found [of c u] by (auto simp: sjoin_member_def member_ids_set member_ids_add)

lemma steady_joins:
  assumes st: "steady sv (n_sv N)" and u: "server_ok sv \<Longrightarrow> u \<in> live sv" and k: "server_ok sv \<Longrightarrow> k \<in> chan_keys sv"
    and n: "channel_find_member (chan_of (n_sv N) k) u = None"
    and f: "\<And>c. u \<notin> set (member_ids c) \<Longrightarrow> member_ids (f c) = member_ids c @ [u]"
  shows "steady sv (n_sv (announce_join W k u (on_sv (\<lambda>sv. server_attach_membership u k (on_chan k f sv)) N)))"
  by (rule steady_announce [OF _ k]) (use assms member_found [of "chan_of (n_sv N) k" u] in \<open>auto intro!: steady_join\<close>)

lemma sjoin_step_steady:
  assumes "steady sv (n_sv N)" and "server_ok sv \<Longrightarrow> k \<in> chan_keys sv"
  shows "steady sv (n_sv (fst (sjoin_step W keep k tok (N, js))))"
proof -
  have "u \<in> live sv" if "server_ok sv" "netsync_find_uid N uid = Some u" for u uid
    using steadyD [OF assms(1) that(1)] find_uid_live [OF _ that(2)] by simp
  then show ?thesis
    using assms by (auto simp: sjoin_step_def split_def Let_def sjoin_member_ids split: option.split intro!: steady_joins)
qed

lemma sjoin_step_frame: "link_view (fst (sjoin_step W keep k tok st)) = link_view (fst st) \<and> n_self (fst (sjoin_step W keep k tok st)) = n_self (fst st)"
  by (auto simp: sjoin_step_def split_def Let_def split: option.split)

lemma sjoin_steps:
  assumes "server_ok sv \<Longrightarrow> k \<in> chan_keys sv"
  shows "steady sv (n_sv (fst st)) \<Longrightarrow> steady sv (n_sv (fst (fold (sjoin_step W keep k) toks st))) \<and>
    link_view (fst (fold (sjoin_step W keep k) toks st)) = link_view (fst st) \<and> n_self (fst (fold (sjoin_step W keep k) toks st)) = n_self (fst st)"
proof (induction toks arbitrary: st)
  case (Cons tok toks)
  have "steady sv (n_sv (fst (sjoin_step W keep k tok st)))"
    using sjoin_step_steady [OF _ assms, of "fst st" W keep tok "snd st"] Cons.prems by simp
  then show ?case using Cons.IH [of "sjoin_step W keep k tok st"] sjoin_step_frame [of W keep k tok st] by simp
qed simp

lemma sjoin_modes_members: "member_ids (fst (sjoin_modes ts modes args c)) = member_ids c"
  by (simp add: sjoin_modes_def)

lemma member_ids_lists: "member_ids (chan_of (n_sv (reset_channel_for_ts W k N)) k) = member_ids (chan_of (n_sv N) k)"
proof -
  have h: "sv_channels (server_history_event W k l s) = sv_channels s" for l s
    by (simp add: server_history_event_def Let_def split_def server_next_msgid_def split: option.split)
  have b: "sv_channels (server_broadcast_channel W k l ex s) = sv_channels s" for l ex s
    unfolding server_broadcast_channel_def Let_def
    by (rule fold_same [where g = sv_channels, THEN trans]) (auto simp: srv_send_def emit_def h split: prod.split)
  have r: "sv_channels (broadcast_rank_modes W k src sg cs s) = sv_channels s" for src sg cs s
    unfolding broadcast_rank_modes_def by (rule fold_same) (rule b)
  define s1 where "s1 = fold (\<lambda>(b, l) sv. broadcast_rank_modes W k (ns_name (the_server N (n_self N))) CHR ''-''
       (take 64 (map (\<lambda>(i, m). (l, c_nick (sv_client sv i))) (filter (\<lambda>(i, m). has (mb_rank m) b) (ch_members (chan_of sv k))))) sv)
     rank_passes (n_sv N)"
  have s1: "sv_channels s1 = sv_channels (n_sv N)"
    unfolding s1_def by (rule fold_same) (simp add: r split: prod.split)
  have "sv_channels s = sv_channels (n_sv N) \<Longrightarrow> member_ids (chan_of (on_chan k reset_channel s) k) = member_ids (chan_of (n_sv N) k)" for s
    by (simp add: on_chan_def) (simp add: chan_of_def)
  then show ?thesis
    unfolding reset_channel_for_ts_def Let_def s1_def [symmetric] using b s1 by simp
qed

lemma sjoin_channel_steady:
  assumes "sjoin_channel W name ts modes margs N = (k, keep, vet, N1)"
  shows "steady (n_sv N) (n_sv N1)" and "k \<in> chan_keys (n_sv N1)" and "link_view N1 = link_view N" and "n_self N1 = n_self N"
proof -
  have "steady (n_sv N) (n_sv N1) \<and> k \<in> chan_keys (n_sv N1) \<and> link_view N1 = link_view N \<and> n_self N1 = n_self N"
  proof (cases "server_find_channel name (n_sv N)")
    case None
    define p where "p = server_get_or_create_channel W name (n_sv N)"
    have c: "steady (n_sv N) (snd p)" "fst p \<in> chan_keys (snd p)"
      unfolding p_def using steady_create [of "n_sv N" "n_sv N" W name] by simp_all
    have "k = fst p" "N1 = N\<lparr>n_sv := on_chan (fst p) (sjoin_new ts modes margs) (snd p)\<rparr>"
      using assms None by (auto simp: sjoin_channel_def p_def split_def Let_def)
    moreover have "steady (snd p) (on_chan (fst p) (sjoin_new ts modes margs) (snd p))"
      using c(2) by (intro steady_on_chan) (simp_all add: sjoin_new_def)
    ultimately show ?thesis using c steady_trans [OF c(1)] by (simp add: on_chan_def)
  next
    case (Some kc)
    obtain k' c where kc: "kc = (k', c)" by force
    note f = find_channel_key [OF Some [unfolded kc]]
    define M where "M = (if ts < ch_created c then reset_channel_for_ts W k' N else N)"
    define c2 where "c2 = fst (sjoin_modes ts modes margs c)"
    have e: "k = k'" "N1 = on_sv (on_chan k' (\<lambda>_. c2)) M"
      using assms Some by (auto simp: sjoin_channel_def kc M_def c2_def split_def Let_def)
    have st: "steady (n_sv N) (n_sv M)" using f by (auto simp: M_def intro!: steady_reset)
    have m: "member_ids c2 = member_ids (chan_of (n_sv M) k')"
      using f member_ids_lists [of W k' N] by (simp add: c2_def sjoin_modes_members M_def)
    have "steady (n_sv N) (set_chan k' c2 (n_sv M))"
      by (rule steady_step [OF st]) (use f m in \<open>auto intro!: steady_set_chan\<close>)
    then show ?thesis by (simp add: e on_chan_def M_def)
  qed
  then show "steady (n_sv N) (n_sv N1)" "k \<in> chan_keys (n_sv N1)" "link_view N1 = link_view N" "n_self N1 = n_self N" by blast+
qed

lemma fold_tell_frame: "n_sv (fold (\<lambda>x. tell (f x)) xs N) = n_sv N" "link_view (fold (\<lambda>x. tell (f x)) xs N) = link_view N"
  "n_self (fold (\<lambda>x. tell (f x)) xs N) = n_self N"
  by (rule fold_same; simp)+

lemma calm_sjoin: "calm N (handle_sjoin W l lns msg N)"
proof -
  have main: "calm N (case sjoin_channel W name ts modes margs N of (k, keep, vet, N1) \<Rightarrow>
      case fold (sjoin_step W keep k) toks (N1, []) of (N2, joined) \<Rightarrow>
        flood e line (G vet k joined (on_sv (\<lambda>sv. fold (\<lambda>p s. broadcast_rank_modes W k src CHR ''+'' (gained_modes s joined p) s) ps sv) N2)))"
    if G: "\<And>vet k js M. n_sv (G vet k js M) = n_sv M \<and> link_view (G vet k js M) = link_view M \<and> n_self (G vet k js M) = n_self M"
    for name ts modes margs toks e line src ps and G :: "nat \<Rightarrow> string \<Rightarrow> (nat \<times> flags) list \<Rightarrow> net \<Rightarrow> net"
  proof -
    obtain k keep vet N1 where s: "sjoin_channel W name ts modes margs N = (k, keep, vet, N1)" by (metis prod_cases4)
    obtain N2 js where f: "fold (sjoin_step W keep k) toks (N1, []) = (N2, js)" by force
    note a = sjoin_channel_steady [OF s]
    have b: "steady (n_sv N1) (n_sv N2)" "link_view N2 = link_view N1" "n_self N2 = n_self N1"
      using sjoin_steps [of "n_sv N1" k "(N1, [])" W keep toks] a(2) by (simp_all add: f)
    show ?thesis using a G steady_trans [OF a(1) b(1)] b(2,3)
      by (auto simp: s f intro!: calm_steady steady_fold steady_intros)
  qed
  define G where "G vet k joined M = (if vet = 1 then tell (Chan_New k) M
      else if vet = 2 then fold (\<lambda>(i, r). tell (Merge_Ranks k i r)) (filter (\<lambda>(i, r). r \<noteq> 0) joined) M else M)"
    for vet :: nat and k joined M
  have G: "n_sv (G vet k js M) = n_sv M \<and> link_view (G vet k js M) = link_view M \<and> n_self (G vet k js M) = n_self M" for vet k js M
    using fold_tell_frame [of "\<lambda>p. Merge_Ranks k (fst p) (snd p)" "filter (\<lambda>(i, r). r \<noteq> 0) js" M] by (simp add: G_def split_def)
  show ?thesis
    unfolding handle_sjoin_def Let_def G_def [symmetric]
    using main [OF G] by (auto split: option.split)
qed

lemma steady_on_known:
  assumes "steady sv s" and "server_ok sv \<Longrightarrow> k \<in> chan_keys sv" and "member_ids c = member_ids (chan_of s k)"
  shows "steady sv (set_chan k c s)"
  by (rule steady_step [OF assms(1)]) (use assms(2,3) in \<open>auto intro!: steady_set_chan\<close>)

lemma bmask_members [simp]: "member_ids (bmask_merge now ts kind ms c) = member_ids c"
  by (simp add: bmask_merge_def set_bmask_list_def split: option.split)

lemma tb_members [simp]: "member_ids (tb_merge ts b t c) = member_ids c"
  by (simp add: tb_merge_def)

lemma calm_bmask: "calm N (handle_bmask W l lns msg N)"
  by (auto simp: handle_bmask_def Let_def split: option.split intro!: calm_steady steady_intros dest: find_channel_key)

lemma calm_tb: "calm N (handle_tb W l lns msg N)"
  by (auto simp: handle_tb_def Let_def split: option.split intro!: calm_steady steady_intros dest: find_channel_key)

lemma calm_topic: "calm N (handle_topic W l lns msg N)"
  by (auto simp: handle_topic_def Let_def split: option.split intro!: calm_steady steady_intros dest: find_channel_key)

lemma add_hidden_members: "u \<notin> set (member_ids c) \<Longrightarrow> member_ids (add_hidden u c) = member_ids c @ [u]"
  by (simp add: add_hidden_def Let_def member_ids_set member_ids_add)

lemma calm_join: "calm N (handle_join W l lns msg N)"
proof -
  have main: "calm N (flood e line (if known then X else tell t X))"
    if u: "src_user N lns p = Some u" and p: "server_get_or_create_channel W name (n_sv N) = (k, sv1)"
      and N1: "N1 = N\<lparr>n_sv := (if known then sv1 else on_chan k (\<lambda>c. c\<lparr>ch_modes := 0, ch_created := ts\<rparr>) sv1)\<rparr>"
      and X: "X = (if channel_find_member (chan_of (n_sv N1) k) u \<noteq> None then N1
         else announce_join W k u (on_sv (\<lambda>sv. server_attach_membership u k (on_chan k (add_hidden u) sv)) N1))"
    for e line known t p u name k sv1 ts N1 X
  proof -
    note c = steady_create [of "n_sv N" "n_sv N" W name, simplified, unfolded p, simplified]
    have 1: "steady (n_sv N) (n_sv N1)" "k \<in> chan_keys (n_sv N1)"
      using c steady_trans [OF c(1) steady_on_chan [of sv1 sv1 k "\<lambda>c. c\<lparr>ch_modes := 0, ch_created := ts\<rparr>"]]
      by (auto simp: N1 on_chan_def)
    have "steady (n_sv N) (n_sv X)"
    proof (rule steady_step [OF 1(1)])
      assume "server_ok (n_sv N)" "live (n_sv N1) = live (n_sv N)"
      then have "u \<in> live (n_sv N1)" using src_user_live [OF _ u] by simp
      then show "steady (n_sv N1) (n_sv X)"
        unfolding X using 1(2) by (auto intro!: steady_joins add_hidden_members)
    qed
    then show ?thesis by (auto simp: X N1 intro!: calm_steady)
  qed
  show ?thesis
  proof (cases "src_user N lns (msg_prefix msg)")
    case (Some u)
    obtain k sv1 where p: "server_get_or_create_channel W (msg_params msg ! 1) (n_sv N) = (k, sv1)" by force
    show ?thesis
      unfolding handle_join_def Let_def Some option.case p prod.case by (rule if_split [THEN iffD2]) (blast intro: calm_refl main [OF Some p refl refl])
  qed (simp add: handle_join_def)
qed

lemma find_member_ids: "channel_find_member c i = Some m \<Longrightarrow> i \<in> set (member_ids c)"
  using member_found [of c i] by simp

lemma channels_fold: "(\<And>x s. sv_channels (f x s) = sv_channels s) \<Longrightarrow> sv_channels (fold f xs s) = sv_channels s"
  by (rule fold_same) simp

lemma history_channels [simp]: "sv_channels (server_history_event W k l s) = sv_channels s"
  by (simp add: server_history_event_def Let_def split_def server_next_msgid_def split: option.split)

lemma send_channels [simp]: "sv_channels (srv_send i l s) = sv_channels s" "sv_channels (emit e s) = sv_channels s"
  by (simp_all add: srv_send_def emit_def)

lemma broadcast_channels [simp]: "sv_channels (server_broadcast_channel W k l ex s) = sv_channels s"
  unfolding server_broadcast_channel_def Let_def
  by (rule trans [OF channels_fold]) (auto split: prod.split)

lemma chan_of_cong: "sv_channels s = sv_channels s' \<Longrightarrow> chan_of s k = chan_of s' k"
  by (simp add: chan_of_def)

lemma calm_part: "calm N (handle_part W l lns msg N)"
proof -
  have main: "keeps (n_sv N) (drop_member u k (fold (\<lambda>vm s. if P vm then srv_send (fst vm) line s else s) ms (server_history_event W k line (n_sv N))))"
    if "src_user N lns p = Some u" "server_find_channel name (n_sv N) = Some (k, chan)" "channel_find_member chan u = Some m"
    for p u name k chan m P line and ms :: "(nat \<times> member) list"
    unfolding drop_member_def
  proof (rule keeps_part)
    show "steady (n_sv N) (fold (\<lambda>vm s. if P vm then srv_send (fst vm) line s else s) ms (server_history_event W k line (n_sv N)))"
      by (rule steady_fold) (auto intro: steady_intros)
    show "u \<in> live (n_sv N)" if "server_ok (n_sv N)" using that \<open>src_user N lns p = Some u\<close> by (rule src_user_live)
    show "k \<in> chan_keys (n_sv N)" using find_channel_key [OF that(2)] by simp
    have "sv_channels (fold (\<lambda>vm s. if P vm then srv_send (fst vm) line s else s) ms (server_history_event W k line (n_sv N))) = sv_channels (n_sv N)"
      by (rule trans [OF channels_fold]) auto
    from chan_of_cong [OF this, of k] find_member_ids [OF that(3)] find_channel_key [OF that(2)]
    show "u \<in> set (member_ids (chan_of (fold (\<lambda>vm s. if P vm then srv_send (fst vm) line s else s) ms (server_history_event W k line (n_sv N))) k))"
      by simp
  qed
  show ?thesis
    unfolding handle_part_def Let_def by (auto simp: calm_def keeps_def [of x x for x] split: option.split list.split intro!: main)
qed

lemma calm_kick: "calm N (handle_kick W l lns msg N)"
proof -
  have main: "keeps (n_sv N) (drop_member u k (server_broadcast_channel W k line None (n_sv N)))"
    if "netsync_find_uid N p = Some u" "server_find_channel name (n_sv N) = Some (k, chan)" "channel_find_member chan u \<noteq> None"
    for p u name k chan line
    unfolding drop_member_def
  proof (rule keeps_part)
    show "steady (n_sv N) (server_broadcast_channel W k line None (n_sv N))" by (intro steady_intros)
    show "u \<in> live (n_sv N)" if "server_ok (n_sv N)" using that \<open>netsync_find_uid N p = Some u\<close> by (rule find_uid_live)
    show "k \<in> chan_keys (n_sv N)" using find_channel_key [OF that(2)] by simp
    show "u \<in> set (member_ids (chan_of (server_broadcast_channel W k line None (n_sv N)) k))"
      using that(3) find_channel_key [OF that(2)] member_found [of chan u]
        chan_of_cong [OF broadcast_channels [of W k line None "n_sv N"], of k] by simp
  qed
  show ?thesis
    unfolding handle_kick_def Let_def by (auto simp: calm_def keeps_def [of x x for x] split: option.split intro!: main)
qed

subsection \<open>Channel modes\<close>

lemma flag_mode_steady:
  assumes "steady sv s" and "server_ok sv \<Longrightarrow> k \<in> chan_keys sv"
  shows "steady sv (flag_mode on c k s)"
  using assms unfolding flag_mode_def Let_def reveal_all_def by (auto intro!: steady_fold steady_intros)

lemma param_mode_members: "param_mode now on c arg ch = Some (ch2, a) \<Longrightarrow> member_ids ch2 = member_ids ch"
  by (auto simp: param_mode_def throttle_mode_def flood_members set_bmask_list_def split: if_splits bool.splits option.splits prod.splits)

lemma rank_mode_steady:
  assumes "steady sv s" and "server_ok sv \<Longrightarrow> k \<in> chan_keys sv" and "rank_mode on c arg k s = Some (s2, n)"
  shows "steady sv s2"
proof -
  obtain t m r where t: "channel_find_member (chan_of s k) t = Some m"
    and s2: "s2 = (if on then channel_reveal_member k t (set_chan k (set_member (chan_of s k) t (m\<lparr>mb_rank := r\<rparr>)) s)
                   else set_chan k (set_member (chan_of s k) t (m\<lparr>mb_rank := r\<rparr>)) s)"
    using assms(3) by (auto simp: rank_mode_def Let_def on_chan_def split: option.splits)
  have "steady sv (set_chan k (set_member (chan_of s k) t x) s)" for x
    by (rule steady_on_known [OF assms(1,2)]) (simp_all add: member_ids_set find_member_ids [OF t])
  then show ?thesis using assms(2) unfolding s2 by (auto intro: steady_intros)
qed

lemma mode_letter_steady:
  assumes "steady sv s" and "server_ok sv \<Longrightarrow> k \<in> chan_keys sv" and "mode_letter now on c arg k s = Some (s2, a)"
  shows "steady sv s2"
proof (cases "channel_flag_bit c \<noteq> 0")
  case True
  then show ?thesis using assms by (auto simp: mode_letter_def intro: flag_mode_steady)
next
  case no_flag: False
  show ?thesis
  proof (cases "c \<in> set ''ohvqa''")
    case True
    then have "\<exists>n. rank_mode on c arg k s = Some (s2, n)" using assms(3) no_flag by (auto simp: mode_letter_def)
    then show ?thesis using rank_mode_steady [OF assms(1,2)] by blast
  next
    case False
    then obtain ch where "param_mode now on c arg (chan_of s k) = Some (ch, a)" and s2: "s2 = set_chan k ch s"
      using assms(3) no_flag by (auto simp: mode_letter_def)
    then show ?thesis unfolding s2 using param_mode_members by (intro steady_on_known [OF assms(1,2)]) auto
  qed
qed

lemma mode_loop_steady:
  assumes k: "server_ok sv \<Longrightarrow> k \<in> chan_keys sv"
  shows "steady sv (mr_sv r) \<Longrightarrow> steady sv (mr_sv (mode_loop now k cs r))"
proof (induction cs arbitrary: r)
  case (Cons c cs)
  show ?case
  proof (cases "length (mr_flags r) + 3 \<ge> 64 \<or> length (mr_params r) \<ge> 8")
    case True
    then show ?thesis using Cons.prems by simp
  next
    case run: False
    show ?thesis
    proof (cases "c = CHR ''+'' \<or> c = CHR ''-''")
      case True
      then show ?thesis using run Cons.prems Cons.IH [of "r\<lparr>mr_sign := c\<rparr>"] by simp
    next
      case False
      define takes where "takes = (mode_takes (mr_sign r = CHR ''+'') c \<and> mr_args r \<noteq> [])"
      define arg where "arg = (if takes then Some (hd (mr_args r)) else None)"
      define r1 where "r1 = (if takes then r\<lparr>mr_args := tl (mr_args r)\<rparr> else r)"
      have e: "mode_loop now k (c # cs) r = (case mode_letter now (mr_sign r = CHR ''+'') c arg k (mr_sv r) of
          None \<Rightarrow> mode_loop now k cs r1
        | Some (sv, a) \<Rightarrow> mode_loop now k cs (r1\<lparr>mr_sv := sv, mr_flags := mr_flags r @ (if mr_shown r \<noteq> mr_sign r then [mr_sign r, c] else [c]),
             mr_params := mr_params r @ (case a of None \<Rightarrow> [] | Some t \<Rightarrow> [clip 260 t]), mr_shown := mr_sign r\<rparr>))"
        using run False by (simp only: mode_loop.simps if_False Let_def takes_def [symmetric] arg_def [symmetric] r1_def [symmetric])
      have "steady sv (mr_sv r1)" using Cons.prems by (simp add: r1_def)
      then show ?thesis
        unfolding e using mode_letter_steady [OF Cons.prems k] by (auto intro!: Cons.IH split: option.split)
    qed
  qed
qed simp

lemma calm_mode: "calm N (handle_mode W l lns msg N)"
proof -
  have main: "steady (n_sv N) (mr_sv (run_modes now k ms args (n_sv N)))" if "server_find_channel name (n_sv N) = Some (k, chan)" for now k ms args name chan
    unfolding run_modes_def using find_channel_key [OF that] by (intro mode_loop_steady) auto
  then show ?thesis
    by (auto simp: handle_mode_def Let_def split: option.split intro!: calm_steady steady_intros)
qed

subsection \<open>The rest\<close>

lemma calm_frame: "n_self M = n_self N \<Longrightarrow> link_view M = link_view N \<Longrightarrow> n_sv M = n_sv N \<Longrightarrow> calm N M"
  by (simp add: calm_steady)

lemma fwd_frame [simp]: "n_sv (fwd_message l m d N) = n_sv N" "link_view (fwd_message l m d N) = link_view N" "n_self (fwd_message l m d N) = n_self N"
  by (simp_all add: fwd_message_def Let_def split: option.split)

lemma calm_message: "calm N (handle_message l lns msg N)"
  by (auto simp: handle_message_def Let_def split: option.split list.split intro!: calm_frame)

lemma calm_mline: "calm N (handle_mline l lns msg N)"
  by (auto simp: handle_mline_def Let_def split: option.split intro!: calm_frame)

lemma calm_redact: "calm N (handle_redact l lns msg N)"
  by (auto simp: handle_redact_def Let_def split: option.split intro!: calm_frame)

lemma calm_rsquit: "calm N (handle_rsquit msg N)"
  by (auto simp: handle_rsquit_def split: option.split list.split intro!: calm_frame)

lemma calm_rename: "calm N (handle_rename l lns msg N)"
  by (auto simp: handle_rename_def Let_def split: option.split intro!: calm_frame)

lemma calm_rquery: "calm N (handle_rquery lns msg N)"
  by (auto simp: handle_rquery_def Let_def split: option.split intro!: calm_frame)

lemma calm_encap: "calm N (handle_encap lns msg N)"
  by (auto simp: handle_encap_def Let_def split: option.split intro!: calm_frame)

lemma calm_svcrelay: "calm N (handle_svcrelay lns msg N)"
  by (auto simp: handle_svcrelay_def Let_def split: option.split bool.split intro!: calm_frame)

lemma calm_push: "calm N (handle_push msg N)"
  by (auto simp: handle_push_def Let_def split: option.split intro!: calm_steady steady_intros)

lemma calm_wallops: "calm N (handle_wallops l lns msg N)"
  by (auto simp: handle_wallops_def Let_def split: option.split intro!: calm_steady steady_fold steady_intros)

lemma calm_gline: "calm N (handle_gline W l lns msg N)"
  by (auto simp: handle_gline_def Let_def split: option.split intro!: calm_steady steady_intros)

lemma calm_ungline: "calm N (handle_ungline W l msg N)"
  by (auto simp: handle_ungline_def Let_def split: list.split prod.split intro!: calm_steady steady_intros)

lemma calm_eob: "calm N (end_of_burst W l N)"
  by (auto simp: end_of_burst_def intro!: calm_steady steady_intros)

lemma invite_key_regs: "client_invite_key c = (key, c2) \<Longrightarrow> regs c2 = regs c"
  by (auto simp: client_invite_key_def Let_def)

lemma steady_note_invite:
  assumes "steady sv s" and "server_ok sv \<Longrightarrow> t \<in> live sv" and "server_ok sv \<Longrightarrow> k \<in> chan_keys sv"
  shows "steady sv (note_invite t k s)"
proof -
  obtain key c2 where c: "client_invite_key (sv_client s t) = (key, c2)" by force
  have "steady sv (sv_write t c2 s)"
    by (rule steady_step [OF assms(1)]) (use assms(2) invite_key_regs [OF c] in \<open>auto intro: steady_write\<close>)
  then show ?thesis using assms(3) by (auto simp: note_invite_def c intro!: steady_on_chan)
qed

lemma calm_invite: "calm N (handle_invite l lns msg N)"
proof -
  have told: "steady sv (fold (\<lambda>(i, m) s. if P i m s then srv_send i nl s else s) ms s)" if "steady sv s" for sv s P nl and ms :: "(nat \<times> member) list"
    using that by (rule steady_fold) (auto intro: steady_intros)
  show ?thesis
    unfolding handle_invite_def Let_def
    by (auto split: option.split prod.split intro!: calm_steady told steady_note_invite steady_intros dest: find_channel_key intro: live_facts)
qed

lemma calm_keeps: "calm N M \<Longrightarrow> keeps (n_sv M) s \<Longrightarrow> calm N (M\<lparr>n_sv := s\<rparr>)"
  by (auto simp: calm_def intro: keeps_trans)

lemma calm_trans: "calm N M \<Longrightarrow> calm M M2 \<Longrightarrow> calm N M2"
  by (auto simp: calm_def intro: keeps_trans)

lemma calm_in_netjoin:
  assumes "\<And>M. calm M (h M)"
  shows "calm N (in_netjoin l h N)"
proof -
  define N1 where "N1 = (if n_netjoin N = Some l then on_sv (\<lambda>sv. sv\<lparr>sv_fb_cur := FB_NETJOIN\<rparr>) N else N)"
  have 1: "calm N N1" by (auto simp: N1_def intro!: calm_steady steady_intros)
  have 2: "calm M (on_sv (\<lambda>sv. sv\<lparr>sv_fb_cur := x\<rparr>) M)" for M x by (auto intro!: calm_steady steady_intros)
  show ?thesis
    unfolding in_netjoin_def Let_def N1_def [symmetric]
    by (rule calm_trans [OF calm_trans [OF 1 assms] 2])
qed

lemmas calm_handlers = calm_umode calm_away calm_chghost calm_setname calm_account calm_kill calm_certfp calm_bmask calm_tb calm_part calm_kick
  calm_topic calm_mode calm_message calm_invite calm_push calm_wallops calm_gline calm_ungline calm_rquery calm_rename calm_redact calm_mline
  calm_rsquit calm_svcrelay calm_encap calm_eob calm_in_netjoin [OF calm_sjoin] calm_in_netjoin [OF calm_join]

end
