(* ===== verification/Chanmode.thy ===== *)
theory Chanmode
  imports Netframe
begin

text \<open>
  The MODE command (src/src/cmd_chan.c): the modes of a channel, of the members of a channel and of
  the user itself, with what is announced to the channel and to the other servers. The properties
  say what a mode line can do to the ranks of the members, and that what is announced fits.
\<close>

unbundle bit_operations_syntax

section \<open>Replies\<close>

definition err_no_such_channel :: "world \<Rightarrow> client_id \<Rightarrow> string \<Rightarrow> server \<Rightarrow> server" where
  "err_no_such_channel W i chan = srv_reply W i ''403'' [chan] (Some ''No such channel'')"

definition err_no_such_nick :: "world \<Rightarrow> client_id \<Rightarrow> string \<Rightarrow> server \<Rightarrow> server" where
  "err_no_such_nick W i nick = srv_reply W i ''401'' [nick] (Some ''No such nick/channel'')"

definition err_not_channel_op :: "world \<Rightarrow> client_id \<Rightarrow> string \<Rightarrow> server \<Rightarrow> server" where
  "err_not_channel_op W i chan = srv_reply W i ''482'' [chan] (Some ''You're not channel operator'')"

section \<open>The letters of a channel\<close>

text \<open>\<open>n:secs\<close> with n in 1..100 and secs in 1..600, and nothing after it.\<close>

definition parse_rate :: "string \<Rightarrow> (int \<times> int) option" where
  "parse_rate s =
     (case strtol s of
        None \<Rightarrow> None
      | Some (a, e1) \<Rightarrow>
          if take 1 e1 \<noteq> '':'' then None
          else (case strtol (drop 1 e1) of
                  None \<Rightarrow> None
                | Some (b, e2) \<Rightarrow>
                    if e2 \<noteq> [] \<or> a < 1 \<or> a > 100 \<or> b < 1 \<or> b > 600 then None else Some (a, b)))"

definition MAX_MODE_PARAMS :: nat where "MAX_MODE_PARAMS = 6"

text \<open>A letter that changed something is shown, after a sign if that is another one than before.\<close>

definition shown :: "char \<Rightarrow> string option \<Rightarrow> mode_run \<Rightarrow> mode_run" where
  "shown c a r =
     r\<lparr>mr_flags := mr_flags r @ (if mr_shown r \<noteq> mr_sign r then [mr_sign r, c] else [c]),
       mr_params := mr_params r @ (case a of None \<Rightarrow> [] | Some t \<Rightarrow> [clip 256 t]),
       mr_shown := mr_sign r\<rparr>"

definition in_run :: "(server \<Rightarrow> server) \<Rightarrow> mode_run \<Rightarrow> mode_run" where
  "in_run f r = r\<lparr>mr_sv := f (mr_sv r)\<rparr>"

definition next_arg :: "mode_run \<Rightarrow> mode_run" where
  "next_arg r = r\<lparr>mr_args := tl (mr_args r)\<rparr>"

abbreviation adding :: "mode_run \<Rightarrow> bool" where
  "adding r \<equiv> mr_sign r = CHR ''+''"

definition flag_letter :: "string \<Rightarrow> char \<Rightarrow> mode_run \<Rightarrow> mode_run" where
  "flag_letter k c r =
     (if adding r = has (ch_modes (chan_of (mr_sv r) k)) (channel_flag_bit c) then r
      else shown c None (in_run (flag_mode (adding r) c k) r))"

definition redirect_letter :: "world \<Rightarrow> client_id \<Rightarrow> string \<Rightarrow> mode_run \<Rightarrow> mode_run" where
  "redirect_letter W i k r =
     (let chan = chan_of (mr_sv r) k
      in if adding r then
           (case mr_args r of
              [] \<Rightarrow> r
            | target # _ \<Rightarrow>
                if \<not> irc_valid_channel target 50 \<or> irc_casefold CHAN_NAMELEN target = irc_casefold CHAN_NAMELEN (ch_name chan)
                then in_run (err_no_such_channel W i target) (next_arg r)
                else shown CHR ''L'' (Some target) (in_run (on_chan k (\<lambda>ch. ch\<lparr>ch_modes := ch_modes ch OR CMODE_REDIRECT,
                       ch_redirect := clip CHAN_NAMELEN target\<rparr>)) (next_arg r)))
         else if \<not> has (ch_modes chan) CMODE_REDIRECT then r
         else shown CHR ''L'' None (in_run (on_chan k (\<lambda>ch. ch\<lparr>ch_modes := ch_modes ch AND NOT CMODE_REDIRECT, ch_redirect := []\<rparr>)) r))"

definition flood_letter :: "string \<Rightarrow> mode_run \<Rightarrow> mode_run" where
  "flood_letter k r =
     (let chan = chan_of (mr_sv r) k
      in if adding r then
           (case mr_args r of
              [] \<Rightarrow> r
            | a # _ \<Rightarrow>
                (case channel_set_flood chan a of
                   None \<Rightarrow> next_arg r
                 | Some c2 \<Rightarrow> shown CHR ''f'' (Some (channel_flood_param c2 256)) (in_run (set_chan k c2) (next_arg r))))
         else if \<not> has (ch_modes chan) CMODE_FLOOD then r
         else shown CHR ''f'' None (in_run (on_chan k channel_clear_flood) r))"

definition join_rate_letter :: "string \<Rightarrow> mode_run \<Rightarrow> mode_run" where
  "join_rate_letter k r =
     (let chan = chan_of (mr_sv r) k
      in if adding r then
           (case mr_args r of
              [] \<Rightarrow> r
            | a # _ \<Rightarrow>
                (case parse_rate a of
                   None \<Rightarrow> next_arg r
                 | Some (n, secs) \<Rightarrow>
                     shown CHR ''j'' (Some (show_int n @ '':'' @ show_int secs))
                       (in_run (on_chan k (\<lambda>ch. ch\<lparr>ch_modes := ch_modes ch OR CMODE_JTHROT, ch_jt_joins := n, ch_jt_secs := secs,
                          ch_jt_count := 0, ch_jt_start := 0\<rparr>)) (next_arg r))))
         else if \<not> has (ch_modes chan) CMODE_JTHROT then r
         else shown CHR ''j'' None (in_run (on_chan k (\<lambda>ch. ch\<lparr>ch_modes := ch_modes ch AND NOT CMODE_JTHROT,
                ch_jt_joins := 0, ch_jt_secs := 0\<rparr>)) r))"

definition key_letter :: "string \<Rightarrow> mode_run \<Rightarrow> mode_run" where
  "key_letter k r =
     (if adding r then
        (case mr_args r of
           [] \<Rightarrow> r
         | a # _ \<Rightarrow>
             if SP \<in> set a then next_arg r
             else shown CHR ''k'' (Some a) (in_run (on_chan k (\<lambda>ch. ch\<lparr>ch_key := clip CHAN_KEYLEN a, ch_modes := ch_modes ch OR CMODE_K\<rparr>))
                    (next_arg r)))
      else (let r1 = next_arg r
            in if \<not> has (ch_modes (chan_of (mr_sv r) k)) CMODE_K then r1
               else shown CHR ''k'' None (in_run (on_chan k (\<lambda>ch. ch\<lparr>ch_modes := ch_modes ch AND NOT CMODE_K, ch_key := []\<rparr>)) r1)))"

definition INT_MAX :: int where "INT_MAX = 2147483647"

definition limit_letter :: "string \<Rightarrow> mode_run \<Rightarrow> mode_run" where
  "limit_letter k r =
     (if adding r then
        (case mr_args r of
           [] \<Rightarrow> r
         | a # _ \<Rightarrow>
             (case strtol a of
                None \<Rightarrow> next_arg r
              | Some (lim, e) \<Rightarrow>
                  if e \<noteq> [] \<or> lim < 1 \<or> lim > INT_MAX then next_arg r
                  else shown CHR ''l'' (Some (show_int lim))
                         (in_run (on_chan k (\<lambda>ch. ch\<lparr>ch_limit := lim, ch_modes := ch_modes ch OR CMODE_L\<rparr>)) (next_arg r))))
      else if \<not> has (ch_modes (chan_of (mr_sv r) k)) CMODE_L then r
      else shown CHR ''l'' None (in_run (on_chan k (\<lambda>ch. ch\<lparr>ch_modes := ch_modes ch AND NOT CMODE_L, ch_limit := 0\<rparr>)) r))"

text \<open>How senior the setter is; operators and services are above everybody.\<close>

definition setter_level :: "server \<Rightarrow> string \<Rightarrow> client_id \<Rightarrow> nat" where
  "setter_level sv k i =
     (let cl = sv_client sv i
      in if has (c_umodes cl) UMODE_O \<or> c_is_service cl then 99
         else case channel_find_member (chan_of sv k) i of Some m \<Rightarrow> channel_rank_level (mb_rank m) | None \<Rightarrow> 0)"

definition new_rank :: "bool \<Rightarrow> char \<Rightarrow> flags \<Rightarrow> flags" where
  "new_rank on c rank =
     (if on then rank OR mode_rank c OR (if c = CHR ''q'' \<or> c = CHR ''a'' then RANK_OP else 0)
      else (let r1 = rank AND NOT (mode_rank c) in if c = CHR ''o'' then r1 AND NOT (RANK_ADMIN OR RANK_OWNER) else r1))"

definition rank_letter :: "world \<Rightarrow> client_id \<Rightarrow> string \<Rightarrow> char \<Rightarrow> mode_run \<Rightarrow> mode_run" where
  "rank_letter W i k c r =
     (case mr_args r of
        [] \<Rightarrow> r
      | a # _ \<Rightarrow>
          (let sv = mr_sv r; chan = chan_of sv k; r1 = next_arg r
           in case server_find_user a sv of
                None \<Rightarrow> in_run (err_no_such_nick W i a) r1
              | Some t \<Rightarrow>
                  (case channel_find_member chan t of
                     None \<Rightarrow> in_run (srv_reply W i ''441'' [c_nick (sv_client sv t), ch_name chan] (Some ''They aren't on that channel'')) r1
                   | Some m \<Rightarrow>
                       (let lvl = setter_level sv k i; need = (if c = CHR ''q'' then 5 else if c = CHR ''a'' then 4 else 0)
                        in if c_is_service (sv_client sv t) \<and> \<not> adding r \<and> \<not> c_is_service (sv_client sv i)
                           then in_run (srv_reply W i ''484'' [c_nick (sv_client sv t), ch_name chan]
                                  (Some ''Cannot kick or deop a network service'')) r1
                           else if \<not> (t = i \<and> \<not> adding r) \<and> (lvl < need \<or> (\<not> adding r \<and> channel_rank_level (mb_rank m) > lvl))
                           then in_run (srv_reply W i ''482'' [ch_name chan]
                                  (Some ''You are not senior enough to change that user's status'')) r1
                           else if adding r = has (mb_rank m) (mode_rank c) then r1
                           else (let sv1 = on_chan k (\<lambda>ch. set_member ch t (m\<lparr>mb_rank := new_rank (adding r) c (mb_rank m)\<rparr>)) sv
                                 in shown c (Some (c_nick (sv_client sv t)))
                                      (in_run (\<lambda>_. if adding r then channel_reveal_member k t sv1 else sv1) r1))))))"

definition mask_set_by :: "string \<Rightarrow> masklist \<Rightarrow> masklist" where
  "mask_set_by nick ml =
     (let es = ml_entries ml in ml\<lparr>ml_entries := butlast es @ [(last es)\<lparr>me_set_by := clip 64 nick\<rparr>]\<rparr>)"

definition mask_letter :: "world \<Rightarrow> client_id \<Rightarrow> string \<Rightarrow> char \<Rightarrow> mode_run \<Rightarrow> mode_run" where
  "mask_letter W i k c r =
     (case mr_args r of
        [] \<Rightarrow> r
      | a # _ \<Rightarrow>
          if SP \<in> set a then next_arg r
          else (let r1 = next_arg r; chan = chan_of (mr_sv r) k; m = channel_normalize_mask a 256
                in case bmask_list c chan of
                     None \<Rightarrow> r1
                   | Some ml \<Rightarrow>
                       if adding r \<and> length (ml_entries ml) \<ge> CHAN_MAX_MASKLIST
                       then in_run (srv_reply W i ''478'' [ch_name chan, m] (Some ''Channel list is full'')) r1
                       else (let (e, ml2) = (if adding r then masklist_add (w_now W) m ml else masklist_del m ml)
                             in if e \<noteq> 0 then r1
                                else shown c (Some m) (in_run (set_chan k (set_bmask_list c
                                       (if adding r then mask_set_by (c_nick (sv_client (mr_sv r) i)) ml2 else ml2) chan)) r1))))"

definition mode_step :: "world \<Rightarrow> client_id \<Rightarrow> string \<Rightarrow> bool \<Rightarrow> char \<Rightarrow> mode_run \<Rightarrow> mode_run" where
  "mode_step W i k full c r =
     (let cl = sv_client (mr_sv r) i; name = ch_name (chan_of (mr_sv r) k)
      in if c = CHR ''+'' \<or> c = CHR ''-'' then r\<lparr>mr_sign := c\<rparr>
         else if c = CHR ''r'' \<and> \<not> c_is_service cl
         then in_run (srv_reply W i ''482'' [name] (Some ''Mode +r is set by services only'')) r
         else if c = CHR ''P'' \<and> adding r \<and> \<not> c_is_service cl \<and> \<not> has (c_umodes cl) UMODE_O
         then in_run (srv_reply W i ''482'' [name] (Some ''Mode +P is set by operators only'')) r
         else if \<not> full \<and> c \<notin> set ''vbeI'' \<and> c \<noteq> CHR ''r'' then in_run (err_not_channel_op W i name) r
         else if channel_flag_bit c \<noteq> 0 then flag_letter k c r
         else if c = CHR ''L'' then redirect_letter W i k r
         else if c = CHR ''f'' then flood_letter k r
         else if c = CHR ''j'' then join_rate_letter k r
         else if c = CHR ''k'' then key_letter k r
         else if c = CHR ''l'' then limit_letter k r
         else if c \<in> set ''ohvqa'' then rank_letter W i k c r
         else if c \<in> set ''beI'' then mask_letter W i k c r
         else in_run (srv_reply W i ''472'' [name, [c]] (Some ''is unknown mode char to me'')) r)"

fun mode_steps :: "world \<Rightarrow> client_id \<Rightarrow> string \<Rightarrow> bool \<Rightarrow> string \<Rightarrow> mode_run \<Rightarrow> mode_run" where
  "mode_steps W i k full [] r = r"
| "mode_steps W i k full (c # cs) r =
     (if length (mr_flags r) + 2 \<ge> 64 \<or> length (mr_params r) \<ge> MAX_MODE_PARAMS then r
      else mode_steps W i k full cs (mode_step W i k full c r))"

definition start_run :: "string list \<Rightarrow> server \<Rightarrow> mode_run" where
  "start_run args sv = \<lparr>mr_sv = sv, mr_flags = [], mr_params = [], mr_sign = CHR ''+'', mr_shown = CHR 0x00, mr_args = args\<rparr>"

definition cmd_apply_channel_mode :: "world \<Rightarrow> client_id \<Rightarrow> string \<Rightarrow> string \<Rightarrow> string list \<Rightarrow> bool \<Rightarrow> net \<Rightarrow> net" where
  "cmd_apply_channel_mode W i k modes args full N =
     (let r = mode_steps W i k full modes (start_run args (n_sv N)); N1 = N\<lparr>n_sv := mr_sv r\<rparr>
      in if length (mr_flags r) \<le> 1 then N1
         else (let prefix = client_prefix (n_client N1 i) 320; name = ch_name (chan_of (mr_sv r) k);
                   N2 = (case irc_build 510 [] (Some prefix) ''MODE'' (name # mr_flags r # mr_params r) None of
                           None \<Rightarrow> N1
                         | Some line \<Rightarrow> on_sv (server_broadcast_channel W k line None) N1)
               in netsync_chan_mode k (Some i) (mr_flags r) (take 8 (mr_params r)) N2))"

section \<open>The command\<close>

definition reply_masklist :: "world \<Rightarrow> client_id \<Rightarrow> string \<Rightarrow> char \<Rightarrow> server \<Rightarrow> server" where
  "reply_masklist W i k letter sv =
     (let chan = chan_of sv k;
          (ml, list_n, end_n, desc) =
            (if letter = CHR ''b'' then (ch_bans chan, ''367'', ''368'', ''End of channel ban list'')
             else if letter = CHR ''e'' then (ch_exceptions chan, ''348'', ''349'', ''End of channel exception list'')
             else (ch_invex chan, ''346'', ''347'', ''End of channel invite exception list''))
      in srv_reply W i end_n [ch_name chan] (Some desc)
           (fold (\<lambda>e. srv_reply W i list_n
                    [ch_name chan, me_mask e, if me_set_by e \<noteq> [] then me_set_by e else sc_name (w_cfg W), clip 24 (show_int (me_set_at e))] None)
             (ml_entries ml) sv))"

text \<open>The modes as parameters; a non-member is not shown the key, which is the first argument.\<close>

definition mode_query :: "world \<Rightarrow> client_id \<Rightarrow> string \<Rightarrow> server \<Rightarrow> server" where
  "mode_query W i k sv =
     (let chan = chan_of sv k; ps = take 9 (strtok (\<lambda>c. c = SP) (channel_modes_string chan 360));
          member = (channel_find_member chan i \<noteq> None \<or> has (c_umodes (sv_client sv i)) UMODE_O);
          ps1 = (if length ps > 1 \<and> CHR ''k'' \<in> set (ps ! 0) \<and> \<not> member then ps[1 := ''*''] else ps)
      in srv_reply W i ''329'' [ch_name chan, clip 32 (show_int (ch_created chan))] None
           (srv_reply W i ''324'' (ch_name chan # ps1) None sv))"

definition given_args :: "irc_message \<Rightarrow> string list" where
  "given_args msg = take 16 (drop 2 (msg_params msg))"

definition cmd_mode_channel :: "world \<Rightarrow> client_id \<Rightarrow> irc_message \<Rightarrow> string \<Rightarrow> net \<Rightarrow> net" where
  "cmd_mode_channel W i msg name N =
     (case server_find_channel name (n_sv N) of
        None \<Rightarrow> on_sv (err_no_such_channel W i name) N
      | Some (k, chan) \<Rightarrow>
          if length (msg_params msg) < 2 then on_sv (mode_query W i k) N
          else (let modes = msg_params msg ! 1; lp = dropWhile (\<lambda>c. c = CHR ''+'' \<or> c = CHR ''-'') (clip 4 modes);
                    oper = has (c_umodes (n_client N i)) UMODE_O
                in if lp \<in> {''b'', ''e'', ''I''} \<and> length (msg_params msg) < 3 then on_sv (reply_masklist W i k (hd lp)) N
                   else if \<not> channel_has_ops chan i \<and> \<not> oper then on_sv (err_not_channel_op W i (ch_name chan)) N
                   else cmd_apply_channel_mode W i k modes (given_args msg) (oper \<or> channel_is_op chan i) N))"

definition cmd_samode :: "world \<Rightarrow> client_id \<Rightarrow> irc_message \<Rightarrow> net \<Rightarrow> net" where
  "cmd_samode W i msg N =
     (let name = msg_params msg ! 0
      in if take 1 name \<noteq> ''#'' then on_sv (err_no_such_channel W i name) N
         else case server_find_channel name (n_sv N) of
           None \<Rightarrow> on_sv (err_no_such_channel W i name) N
         | Some (k, chan) \<Rightarrow>
             on_sv (server_notify_opers W (clip 400 (c_nick (n_client N i) @ '' used SAMODE on '' @ ch_name chan @ '': '' @ msg_params msg ! 1)))
               (cmd_apply_channel_mode W i k (msg_params msg ! 1) (given_args msg) True N))"

section \<open>The modes of a user\<close>

text \<open>The bit of a letter a user may set or take away, 0 for the letters that are passed over.\<close>

definition own_umode :: "bool \<Rightarrow> bool \<Rightarrow> char \<Rightarrow> flags" where
  "own_umode on oper c =
     (if c = CHR ''o'' then (if on then 0 else UMODE_O)
      else if c = CHR ''W'' then (if oper then UMODE_WHOISNOTE else 0)
      else if c = CHR ''q'' then (if oper then UMODE_Q else 0)
      else if c = CHR ''H'' then (if oper then UMODE_H else 0)
      else case map_of [(CHR ''i'', UMODE_I), (CHR ''w'', UMODE_W), (CHR ''d'', UMODE_DEAF), (CHR ''T'', UMODE_D), (CHR ''Z'', UMODE_SECUREONLY),
        (CHR ''x'', UMODE_X), (CHR ''s'', UMODE_S), (CHR ''p'', UMODE_P), (CHR ''I'', UMODE_HIDEIDLE), (CHR ''R'', UMODE_REGONLY),
        (CHR ''D'', UMODE_NOPM), (CHR ''B'', UMODE_B), (CHR ''g'', UMODE_G)] c of Some b \<Rightarrow> b | None \<Rightarrow> 0)"

definition drop_oper :: "client \<Rightarrow> client" where
  "drop_oper cl = cl\<lparr>c_umodes := c_umodes cl AND NOT (UMODE_Q OR UMODE_H OR UMODE_WHOISNOTE), c_oper_name := [], c_oper_privs := 0\<rparr>"

text \<open>The client, what is shown, the sign that holds and the one shown last.\<close>

fun umode_loop :: "string \<Rightarrow> char \<Rightarrow> char \<Rightarrow> string \<Rightarrow> client \<Rightarrow> string \<times> client" where
  "umode_loop [] sign last_sign applied cl = (applied, cl)"
| "umode_loop (c # cs) sign last_sign applied cl =
     (if length applied + 3 > 32 then (applied, cl)
      else if c = CHR ''+'' \<or> c = CHR ''-'' then umode_loop cs c last_sign applied cl
      else (let on = (sign = CHR ''+''); b = own_umode on (has (c_umodes cl) UMODE_O) c
            in if b = 0 \<or> on = has (c_umodes cl) b then umode_loop cs sign last_sign applied cl
               else (let cl1 = cl\<lparr>c_umodes := (if on then c_umodes cl OR b else c_umodes cl AND NOT b)\<rparr>
                     in umode_loop cs sign sign (applied @ (if last_sign \<noteq> sign then [sign, c] else [c]))
                          (if c = CHR ''o'' \<and> \<not> on then drop_oper cl1 else cl1))))"

text \<open>\<open>cloak\<close> is the cloak of a client (\<open>apply_masked_host\<close> of src/src/net.c).\<close>

definition net_reset_host :: "(client \<Rightarrow> string) \<Rightarrow> client \<Rightarrow> client" where
  "net_reset_host cloak cl = cl\<lparr>c_host := (if has (c_umodes cl) UMODE_X then cloak cl else clip HOSTLEN (c_realhost cl))\<rparr>"

definition broadcast_chghost :: "world \<Rightarrow> client_id \<Rightarrow> string \<Rightarrow> net \<Rightarrow> net" where
  "broadcast_chghost W i old_prefix N =
     (let cl = n_client N i; line = reply_line 400 (Some old_prefix) ''CHGHOST'' [client_ident cl, c_host cl] None
      in netsync_user_chghost i (on_sv (\<lambda>sv. server_monitor_extend W i line CAP_CHGHOST (server_send_common_channels W i line CAP_CHGHOST
           (if has (c_caps cl) CAP_CHGHOST then srv_send i line sv else sv))) N))"

definition cmd_mode_user :: "world \<Rightarrow> (client \<Rightarrow> string) \<Rightarrow> client_id \<Rightarrow> irc_message \<Rightarrow> string \<Rightarrow> net \<Rightarrow> net" where
  "cmd_mode_user W cloak i msg target N =
     (let cl = n_client N i
      in if irc_casefold NICKLEN target \<noteq> c_casefold_nick cl
         then on_sv (srv_reply W i ''502'' [] (Some ''Cannot change mode for other users'')) N
         else if length (msg_params msg) < 2 then on_sv (srv_reply W i ''221'' [] (Some (client_mode_string cl 32))) N
         else (let old_prefix = client_prefix cl 320;
                   (applied, cl1) = umode_loop (msg_params msg ! 1) CHR ''+'' CHR ''+'' ''+'' cl;
                   N1 = on_sv (sv_write i cl1) N
               in if length applied \<le> 1 then N1
                  else (let line = reply_line 200 (Some (client_prefix cl1 320)) ''MODE'' [c_nick cl1, applied] None;
                            N2 = netsync_user_modes i (on_sv (srv_send i line) N1)
                        in if (c_umodes cl1 AND UMODE_X) = (c_umodes cl AND UMODE_X) then N2
                           else (let N3 = broadcast_chghost W i old_prefix (on_sv (change_client i (net_reset_host cloak)) N2)
                                 in on_sv (srv_reply W i ''396'' [c_host (n_client N3 i)] (Some ''is now your displayed host'')) N3))))"

definition cmd_mode :: "world \<Rightarrow> (client \<Rightarrow> string) \<Rightarrow> client_id \<Rightarrow> irc_message \<Rightarrow> net \<Rightarrow> net" where
  "cmd_mode W cloak i msg N =
     (let target = msg_params msg ! 0
      in if take 1 target = ''#'' then cmd_mode_channel W i msg target N else cmd_mode_user W cloak i msg target N)"

section \<open>A user's own modes\<close>

definition oper_only :: flags where
  "oper_only = UMODE_Q OR UMODE_H OR UMODE_WHOISNOTE"

definition given_by_server :: flags where
  "given_by_server = UMODE_Z OR UMODE_R"

lemmas umode_bits = UMODE_I_def UMODE_W_def UMODE_D_def UMODE_S_def UMODE_O_def UMODE_Z_def UMODE_R_def UMODE_P_def UMODE_HIDEIDLE_def
  UMODE_H_def UMODE_Q_def UMODE_REGONLY_def UMODE_NOPM_def UMODE_G_def UMODE_B_def UMODE_SECUREONLY_def UMODE_DEAF_def UMODE_X_def
  UMODE_WHOISNOTE_def

lemma own_umode_values:
  "own_umode on oper c \<in> {0, UMODE_I, UMODE_W, UMODE_DEAF, UMODE_D, UMODE_SECUREONLY, UMODE_X, UMODE_S, UMODE_P, UMODE_HIDEIDLE, UMODE_REGONLY,
     UMODE_NOPM, UMODE_B, UMODE_G} \<or> (own_umode on oper c = UMODE_O \<and> c = CHR ''o'' \<and> \<not> on) \<or>
   (own_umode on oper c \<in> {UMODE_Q, UMODE_H, UMODE_WHOISNOTE} \<and> oper)"
  by (auto simp: own_umode_def split: option.split if_splits)

lemma own_umode_safe:
  "own_umode on oper c AND given_by_server = 0" "on \<Longrightarrow> own_umode on oper c AND UMODE_O = 0"
  "\<not> oper \<Longrightarrow> own_umode on oper c AND oper_only = 0"
  "own_umode on oper c AND UMODE_O \<noteq> 0 \<Longrightarrow> c = CHR ''o'' \<and> own_umode on oper c = UMODE_O"
  using own_umode_values [of on oper c] by (auto simp: umode_bits given_by_server_def oper_only_def)

lemma or_keeps: "b AND m = 0 \<Longrightarrow> (u OR b) AND m = u AND (m :: flags)"
  by (metis and.commute bit.conj_disj_distrib or.right_neutral)

lemma and_not_keeps: "b AND m = 0 \<Longrightarrow> (u AND NOT b) AND m = u AND (m :: flags)"
proof -
  assume "b AND m = 0"
  then have "\<not> (bit b n \<and> bit m n)" for n by (metis bit_and_iff bit_0_eq bot_apply bot_bool_def)
  then show ?thesis by (intro bit_word_eqI) (auto simp: bit_simps)
qed

definition tame :: "client \<Rightarrow> client \<Rightarrow> bool" where
  "tame cl cl' \<longleftrightarrow> c_umodes cl' AND given_by_server = c_umodes cl AND given_by_server \<and>
    (has (c_umodes cl') UMODE_O \<longrightarrow> has (c_umodes cl) UMODE_O) \<and>
    ((has (c_umodes cl) UMODE_O \<or> \<not> has (c_umodes cl) oper_only) \<longrightarrow> (has (c_umodes cl') UMODE_O \<or> \<not> has (c_umodes cl') oper_only))"

lemma tame_refl: "tame cl cl"
  unfolding tame_def by simp

lemma tame_trans: "tame a b \<Longrightarrow> tame b c \<Longrightarrow> tame a c"
  unfolding tame_def by simp

definition set_umode :: "bool \<Rightarrow> char \<Rightarrow> client \<Rightarrow> client" where
  "set_umode on c cl =
     (let b = own_umode on (has (c_umodes cl) UMODE_O) c;
          cl1 = cl\<lparr>c_umodes := (if on then c_umodes cl OR b else c_umodes cl AND NOT b)\<rparr>
      in if c = CHR ''o'' \<and> \<not> on then drop_oper cl1 else cl1)"

lemma tame_set: "tame cl (set_umode on c cl)"
proof -
  let ?b = "own_umode on (has (c_umodes cl) UMODE_O) c"
  note o = own_umode_safe [where on = on and c = c and oper = "has (c_umodes cl) UMODE_O"]
  have d: "UMODE_O AND given_by_server = 0" "UMODE_O AND oper_only = 0" "oper_only AND given_by_server = 0"
    "(UMODE_Q OR UMODE_H OR UMODE_WHOISNOTE) = oper_only" "UMODE_O \<noteq> 0" "oper_only AND UMODE_O = 0" "UMODE_O AND UMODE_O \<noteq> 0"
    by (simp_all add: umode_bits given_by_server_def oper_only_def)
  show ?thesis
  proof (cases "c = CHR ''o'' \<and> \<not> on")
    case True
    then have b: "?b = UMODE_O" by (simp add: own_umode_def)
    define w where "w = (c_umodes cl AND NOT UMODE_O) AND NOT oper_only"
    have z: "(x AND NOT m) AND m = 0" for x m :: flags by (intro bit_word_eqI) (auto simp: bit_simps)
    have "w AND given_by_server = c_umodes cl AND given_by_server" "w AND UMODE_O = 0" "w AND oper_only = 0"
      using and_not_keeps [OF d(3), of "c_umodes cl AND NOT UMODE_O"] and_not_keeps [OF d(1), of "c_umodes cl"]
        and_not_keeps [OF d(6), of "c_umodes cl AND NOT UMODE_O"] z
      by (simp_all only: w_def)
    moreover have "c_umodes (set_umode on c cl) = w"
      using True b unfolding set_umode_def Let_def drop_oper_def d(4) w_def by simp
    ultimately show ?thesis by (simp add: tame_def)
  next
    case False
    then have bo: "?b AND UMODE_O = 0" using o(2,4) by blast
    have bq: "has (c_umodes cl) UMODE_O \<or> ?b AND oper_only = 0" using o(3) by blast
    define w where "w = c_umodes (set_umode on c cl)"
    have "w = (if on then c_umodes cl OR ?b else c_umodes cl AND NOT ?b)" using False by (simp add: w_def set_umode_def Let_def)
    then have e: "?b AND m = 0 \<Longrightarrow> w AND m = c_umodes cl AND m" for m
      using or_keeps [of ?b m "c_umodes cl"] and_not_keeps [of ?b m "c_umodes cl"] by presburger
    show ?thesis using e [OF o(1)] e [OF bo] e [of oper_only] bq unfolding tame_def w_def [symmetric] by presburger
  qed
qed

lemma umode_loop_step:
  "umode_loop (c # cs) sign last_sign applied cl =
     (if length applied + 3 > 32 then (applied, cl)
      else if c = CHR ''+'' \<or> c = CHR ''-'' then umode_loop cs c last_sign applied cl
      else if own_umode (sign = CHR ''+'') (has (c_umodes cl) UMODE_O) c = 0
        \<or> (sign = CHR ''+'') = has (c_umodes cl) (own_umode (sign = CHR ''+'') (has (c_umodes cl) UMODE_O) c)
      then umode_loop cs sign last_sign applied cl
      else umode_loop cs sign sign (applied @ (if last_sign \<noteq> sign then [sign, c] else [c])) (set_umode (sign = CHR ''+'') c cl))"
  by (simp add: Let_def set_umode_def)

declare umode_loop.simps(2) [simp del]

text \<open>
  C8. No MODE line makes a user an operator or gives it a mode only the server gives: whatever the
  letters, the modes for a secure connection and for an account stay as they were, the operator
  mode can only be lost, and somebody who is not an operator at the end has none of the modes that
  are for operators, if that was so before.
\<close>

theorem umode_never_opers:
  assumes "umode_loop modes sign last_sign applied cl = (out, cl')"
  shows "c_umodes cl' AND given_by_server = c_umodes cl AND given_by_server \<and>
    (has (c_umodes cl') UMODE_O \<longrightarrow> has (c_umodes cl) UMODE_O) \<and>
    ((has (c_umodes cl) UMODE_O \<or> \<not> has (c_umodes cl) oper_only) \<longrightarrow> (has (c_umodes cl') UMODE_O \<or> \<not> has (c_umodes cl') oper_only))"
proof -
  have "tame cl cl'" using assms
  proof (induction modes arbitrary: sign last_sign applied cl)
    case (Cons c cs)
    then show ?case using tame_trans [OF tame_set [of cl "sign = CHR ''+''" c]]
      by (auto simp: umode_loop_step tame_refl split: if_splits)
  qed (simp add: tame_refl)
  then show ?thesis by (simp add: tame_def)
qed

lemma umode_replay:
  assumes "umode_loop modes sign last_sign applied cl = (out, cl')" and "sign = CHR ''+'' \<or> sign = CHR ''-''"
  shows "\<exists>sh. out = applied @ sh \<and> umode_loop sh last_sign last_sign applied cl = (out, cl')"
  using assms
proof (induction modes arbitrary: sign last_sign applied cl)
  case (Cons c cs)
  let ?b = "own_umode (sign = CHR ''+'') (has (c_umodes cl) UMODE_O) c"
  let ?x = "if last_sign \<noteq> sign then [sign, c] else [c]"
  show ?case
  proof (cases "length applied + 3 > 32 \<or> c = CHR ''+'' \<or> c = CHR ''-'' \<or> ?b = 0 \<or> (sign = CHR ''+'') = has (c_umodes cl) ?b")
    case True
    then show ?thesis using Cons.prems Cons.IH by (auto simp: umode_loop_step split: if_splits)
  next
    case False
    then have "umode_loop cs sign sign (applied @ ?x) (set_umode (sign = CHR ''+'') c cl) = (out, cl')"
      using Cons.prems(1) by (simp add: umode_loop_step)
    from Cons.IH [OF this Cons.prems(2)] obtain sh where
      sh: "out = (applied @ ?x) @ sh" "umode_loop sh sign sign (applied @ ?x) (set_umode (sign = CHR ''+'') c cl) = (out, cl')" by blast
    have "umode_loop (?x @ sh) last_sign last_sign applied cl = (out, cl')"
      using False sh(2) Cons.prems(2) by (auto simp: umode_loop_step)
    then show ?thesis using sh(1) by (intro exI [of _ "?x @ sh"]) simp
  qed
qed simp

text \<open>
  C9. What a user is told of its MODE line is exactly what happened: the announced letters, taken
  as a MODE line of the same user, change the modes in the same way and are announced as they are.
\<close>

theorem umode_announced_exactly:
  assumes "umode_loop modes CHR ''+'' CHR ''+'' ''+'' cl = (out, cl')"
  shows "umode_loop out CHR ''+'' CHR ''+'' ''+'' cl = (out, cl')"
proof -
  obtain sh where "out = ''+'' @ sh" "umode_loop sh CHR ''+'' CHR ''+'' ''+'' cl = (out, cl')"
    using umode_replay [OF assms] by blast
  then show ?thesis by (simp add: umode_loop_step)
qed

section \<open>What a mode line does to ranks\<close>

definition ranks :: "string \<Rightarrow> server \<Rightarrow> (client_id \<times> flags) list" where
  "ranks k sv = map (\<lambda>(i, m). (i, mb_rank m)) (ch_members (chan_of sv k))"

definition level :: "string \<Rightarrow> server \<Rightarrow> client_id \<Rightarrow> nat" where
  "level k sv j = (case map_of (ranks k sv) j of Some r \<Rightarrow> channel_rank_level r | None \<Rightarrow> 0)"

lemma map_of_ranks: "map_of (ranks k sv) j = map_option mb_rank (channel_find_member (chan_of sv k) j)"
  by (simp add: ranks_def channel_find_member_def map_of_map)

lemma ranks_cong: "sv_channels s = sv_channels s' \<Longrightarrow> ranks k s = ranks k s'"
  using chan_of_cong [of s s' k] by (simp add: ranks_def)

lemma ranks_send [simp]: "ranks k (srv_send i l s) = ranks k s" "ranks k (srv_reply W i c ps t s) = ranks k s"
  by (simp_all add: ranks_def chan_of_def srv_reply_def Let_def)

lemma ranks_on_chan: "ch_members (f (chan_of sv k)) = ch_members (chan_of sv k) \<Longrightarrow> ranks k (on_chan k f sv) = ranks k sv"
  by (simp add: ranks_def on_chan_def)

lemma ranks_set_chan: "ch_members c = ch_members (chan_of sv k) \<Longrightarrow> ranks k (set_chan k c sv) = ranks k sv"
  by (simp add: ranks_def)

lemma ranks_update: "map_of ms i = Some m \<Longrightarrow> map (\<lambda>(i, m). (i, mb_rank m)) (AList.update i m' ms) =
    AList.update i (mb_rank m') (map (\<lambda>(i, m). (i, mb_rank m)) ms)"
  by (induction ms) auto

lemma update_same: "map_of ms i = Some r \<Longrightarrow> AList.update i r ms = ms"
  by (induction ms) auto

lemma ranks_set_member: "channel_find_member (chan_of sv k) i = Some m \<Longrightarrow>
    ranks k (on_chan k (\<lambda>c. set_member c i m') sv) = AList.update i (mb_rank m') (ranks k sv)"
  by (simp add: ranks_def on_chan_def set_member_def channel_find_member_def ranks_update)

lemma ranks_fold: "(\<And>x s. ranks k (f x s) = ranks k s) \<Longrightarrow> ranks k (fold f xs s) = ranks k s"
  by (induction xs arbitrary: s) simp_all

lemma ranks_reveal [simp]: "ranks k (channel_reveal_member k i sv) = ranks k sv"
proof (cases "channel_find_member (chan_of sv k) i")
  case (Some m)
  have f: "ranks k (fold (\<lambda>vm s. if P vm then s else srv_send (fst vm) (g vm s) s) ms s) = ranks k s" for P g ms s
    by (rule ranks_fold) simp
  have "ranks k (on_chan k (\<lambda>c. set_member c i (m\<lparr>mb_hidden := False\<rparr>)) sv) = ranks k sv"
    using ranks_set_member [OF Some, of "m\<lparr>mb_hidden := False\<rparr>"] update_same [of "ranks k sv" i "mb_rank m"] by (simp add: map_of_ranks Some)
  then show ?thesis unfolding channel_reveal_member_def Let_def Some option.case by (cases "mb_hidden m") (simp_all only: f if_True if_False simp_thms)
qed (simp add: channel_reveal_member_def)

lemma ranks_flag [simp]: "ranks k (flag_mode on c k sv) = ranks k sv"
proof -
  have "ranks k (reveal_all k s) = ranks k s" for s unfolding reveal_all_def by (rule ranks_fold) simp
  then show ?thesis by (simp add: flag_mode_def Let_def ranks_on_chan)
qed

lemma ranks_shown [simp]: "mr_sv (shown c a r) = mr_sv r" "mr_sv (next_arg r) = mr_sv r" "mr_sv (in_run f r) = f (mr_sv r)"
  by (simp_all add: shown_def next_arg_def in_run_def)

lemma queue_send [simp]: "sv_q (srv_send i l s) = sv_q s" "sv_q (srv_reply W i c ps t s) = sv_q s" "sv_q (on_chan k f s) = sv_q s"
    "sv_q (set_chan k ch s) = sv_q s"
  by (simp_all add: srv_reply_def Let_def on_chan_def set_chan_def srv_send_def emit_def)

lemma queue_fold: "(\<And>x s. sv_q (f x s) = sv_q s) \<Longrightarrow> sv_q (fold f xs s) = sv_q s"
  by (induction xs arbitrary: s) simp_all

lemma queue_reveal [simp]: "sv_q (channel_reveal_member k i sv) = sv_q sv"
proof -
  have "sv_q (fold (\<lambda>vm s. if P vm then s else srv_send (fst vm) (g vm s) s) ms s) = sv_q s" for P g ms s
    by (rule queue_fold) simp
  note f = this
  show ?thesis
    by (cases "channel_find_member (chan_of sv k) i")
       (simp_all only: channel_reveal_member_def Let_def option.case f queue_send if_split_eq1 simp_thms split: if_split)
qed

lemma queue_flag [simp]: "sv_q (flag_mode on c k sv) = sv_q sv"
proof -
  have "sv_q (reveal_all k s) = sv_q s" for s unfolding reveal_all_def by (rule queue_fold) simp
  then show ?thesis by (simp add: flag_mode_def Let_def)
qed

text \<open>
  What somebody of level \<open>L\<close> may do: raise nobody above that level, and take nothing from those who
  stand above it.
\<close>

definition rank_of :: "string \<Rightarrow> server \<Rightarrow> client_id \<Rightarrow> flags" where
  "rank_of k sv j = (case map_of (ranks k sv) j of Some r \<Rightarrow> r | None \<Rightarrow> 0)"

definition modest :: "nat \<Rightarrow> string \<Rightarrow> server \<Rightarrow> server \<Rightarrow> bool" where
  "modest L k sv sv' \<longleftrightarrow> sv_q sv' = sv_q sv \<and> map fst (ranks k sv') = map fst (ranks k sv) \<and>
     (\<forall>j. level k sv' j \<le> max (level k sv j) L) \<and> (\<forall>j. L < level k sv j \<longrightarrow> level k sv' j = level k sv j) \<and>
     (\<forall>j. L < level k sv j \<longrightarrow> rank_of k sv' j AND rank_of k sv j = rank_of k sv j)"

lemma rank_cong: "ranks k s = ranks k s' \<Longrightarrow> rank_of k s = rank_of k s'"
  by (simp add: rank_of_def fun_eq_iff)

lemma level_cong: "ranks k s = ranks k s' \<Longrightarrow> level k s = level k s'"
  by (simp add: level_def fun_eq_iff)

lemma modest_same: "sv_q sv' = sv_q sv \<Longrightarrow> ranks k sv' = ranks k sv \<Longrightarrow> modest L k sv sv'"
  using level_cong [of k sv' sv] rank_cong [of k sv' sv] by (simp add: modest_def)

lemma and_sub_trans: "b AND a = a \<Longrightarrow> c AND b = b \<Longrightarrow> c AND a = (a :: flags)"
  by (metis and.assoc)

lemma modest_trans:
  assumes ab: "modest L k a b" and bc: "modest L k b c"
  shows "modest L k a c"
proof -
  have "level k c j \<le> max (level k a j) L" for j
    using ab bc unfolding modest_def by (metis max.bounded_iff max.cobounded2 order.trans)
  moreover have "level k c j = level k a j \<and> rank_of k c j AND rank_of k a j = rank_of k a j" if "L < level k a j" for j
    using ab bc that and_sub_trans [of "rank_of k b j" "rank_of k a j" "rank_of k c j"] unfolding modest_def by simp
  ultimately show ?thesis using ab bc unfolding modest_def by simp
qed

lemmas rank_bits = RANK_OWNER_def RANK_ADMIN_def RANK_OP_def RANK_HALFOP_def RANK_VOICE_def

definition letter_level :: "char \<Rightarrow> nat" where
  "letter_level c = (if c = CHR ''q'' then 5 else if c = CHR ''a'' then 4 else if c = CHR ''o'' then 3 else if c = CHR ''h'' then 2 else 1)"

lemma has_or: "has (a OR b) m \<longleftrightarrow> has a m \<or> has b m"
  by (simp add: bit.conj_disj_distrib2 or_eq_0_iff)

lemma has_and_not: "has (a AND b) m \<Longrightarrow> has a m"
proof (rule ccontr)
  assume h: "has (a AND b) m" and "\<not> has a m"
  then have "a AND m = 0" by simp
  then have "(a AND b) AND m = 0" by (metis and.left_commute and.commute and_zero_eq)
  then show False using h by simp
qed

lemma rank_char: "c \<in> set ''ohvqa'' \<Longrightarrow> c = CHR ''q'' \<or> c = CHR ''a'' \<or> c = CHR ''o'' \<or> c = CHR ''h'' \<or> c = CHR ''v''"
  unfolding list.set insert_iff empty_iff by blast

lemma op_values: "has RANK_OP RANK_OP" "\<not> has RANK_OP RANK_OWNER" "\<not> has RANK_OP RANK_ADMIN" "\<not> has RANK_OP RANK_HALFOP" "\<not> has RANK_OP RANK_VOICE"
  "\<not> has 0 m"
  by (simp_all add: rank_bits)

lemma raised_level:
  assumes "c \<in> set ''ohvqa''"
  shows "channel_rank_level (new_rank True c r) = max (channel_rank_level r) (letter_level c)"
  using rank_char [OF assms]
proof (elim disjE)
  assume "c = CHR ''q''"
  moreover have "has RANK_OWNER RANK_OWNER" by (simp add: rank_bits)
  ultimately show ?thesis by (simp add: new_rank_def channel_rank_level_def letter_level_def mode_rank_def has_or)
next
  assume c: "c = CHR ''a''"
  have "has RANK_ADMIN RANK_ADMIN" "\<not> has RANK_ADMIN RANK_OWNER" by (simp_all add: rank_bits)
  then show ?thesis using op_values unfolding c new_rank_def channel_rank_level_def letter_level_def mode_rank_def
    by (simp only: has_or if_True char.inject simp_thms) simp
next
  assume c: "c = CHR ''o''"
  then show ?thesis using op_values unfolding c new_rank_def channel_rank_level_def letter_level_def mode_rank_def
    by (simp add: has_or)
next
  assume c: "c = CHR ''h''"
  have "has RANK_HALFOP RANK_HALFOP" "\<not> has RANK_HALFOP RANK_OWNER" "\<not> has RANK_HALFOP RANK_ADMIN" "\<not> has RANK_HALFOP RANK_OP"
    by (simp_all add: rank_bits)
  then show ?thesis unfolding c new_rank_def channel_rank_level_def letter_level_def mode_rank_def by (simp add: has_or)
next
  assume c: "c = CHR ''v''"
  have "has RANK_VOICE RANK_VOICE" "\<not> has RANK_VOICE RANK_OWNER" "\<not> has RANK_VOICE RANK_ADMIN" "\<not> has RANK_VOICE RANK_OP"
    "\<not> has RANK_VOICE RANK_HALFOP"
    by (simp_all add: rank_bits)
  then show ?thesis unfolding c new_rank_def channel_rank_level_def letter_level_def mode_rank_def by (simp add: has_or)
qed

lemma lowered_level: "channel_rank_level (new_rank False c r) \<le> channel_rank_level r"
proof -
  have "has (new_rank False c r) m \<Longrightarrow> has r m" for m
    unfolding new_rank_def Let_def if_False
    by (split if_split_asm) (blast dest: has_and_not)+
  from this [of RANK_OWNER] this [of RANK_ADMIN] this [of RANK_OP] this [of RANK_HALFOP] this [of RANK_VOICE]
  show ?thesis unfolding channel_rank_level_def by auto
qed

lemma level_found: "channel_find_member (chan_of sv k) t = Some m \<Longrightarrow> level k sv t = channel_rank_level (mb_rank m)"
  by (simp add: level_def map_of_ranks)

lemma modest_set_rank:
  assumes m: "channel_find_member (chan_of sv k) t = Some m"
    and lo: "channel_rank_level r \<le> max (channel_rank_level (mb_rank m)) L"
    and hi: "L < channel_rank_level (mb_rank m) \<Longrightarrow> channel_rank_level r = channel_rank_level (mb_rank m)"
    and sub: "L < channel_rank_level (mb_rank m) \<Longrightarrow> r AND mb_rank m = mb_rank m"
  shows "modest L k sv (on_chan k (\<lambda>ch. set_member ch t (m\<lparr>mb_rank := r\<rparr>)) sv)"
proof -
  let ?s = "on_chan k (\<lambda>ch. set_member ch t (m\<lparr>mb_rank := r\<rparr>)) sv"
  have r: "ranks k ?s = AList.update t r (ranks k sv)" using ranks_set_member [OF m, of "m\<lparr>mb_rank := r\<rparr>"] by simp
  have t: "map_of (ranks k sv) t = Some (mb_rank m)" by (simp add: map_of_ranks m)
  then have d: "map fst (ranks k ?s) = map fst (ranks k sv)"
    unfolding r update_keys by (metis map_of_eq_None_iff option.discI list.set_map)
  have l: "level k ?s j = (if j = t then channel_rank_level r else level k sv j)" for j
    unfolding level_def r by (simp add: update_conv')
  have rk: "rank_of k ?s j = (if j = t then r else rank_of k sv j)" "rank_of k sv t = mb_rank m" for j
    using t unfolding rank_of_def r by (simp_all add: update_conv')
  show ?thesis unfolding modest_def d using lo hi sub l rk level_found [OF m] by simp
qed

lemma or_absorbs: "(a OR b) AND a = (a :: flags)" "(a OR b OR c) AND a = (a :: flags)"
  by (simp_all add: word_ao_absorbs(7))

lemma modest_if: "(b \<Longrightarrow> modest L k s (mr_sv x)) \<Longrightarrow> (\<not> b \<Longrightarrow> modest L k s (mr_sv y)) \<Longrightarrow> modest L k s (mr_sv (if b then x else y))"
  by simp

lemma modest_rank_letter:
  assumes c: "c \<in> set ''ohvqa''" and full: "letter_level c \<le> 3 \<Longrightarrow> letter_level c \<le> L" and i: "level k (mr_sv r) i \<le> L"
    and u: "\<not> has (c_umodes (sv_client (mr_sv r) i)) UMODE_O" "\<not> c_is_service (sv_client (mr_sv r) i)"
  shows "modest L k (mr_sv r) (mr_sv (rank_letter W i k c r))"
proof -
  let ?sv = "mr_sv r"
  have lvl: "setter_level ?sv k i = level k ?sv i"
    using u by (simp add: setter_level_def level_def map_of_ranks Let_def split: option.split)
  have go: "modest L k ?sv (on_chan k (\<lambda>ch. set_member ch t (m\<lparr>mb_rank := new_rank on c (mb_rank m)\<rparr>)) ?sv)"
    if m: "channel_find_member (chan_of ?sv k) t = Some m"
      and ok: "(t = i \<and> \<not> on) \<or> \<not> (setter_level ?sv k i < (if c = CHR ''q'' then 5 else if c = CHR ''a'' then 4 else 0) \<or>
        (\<not> on \<and> channel_rank_level (mb_rank m) > setter_level ?sv k i))" for t m on
  proof (rule modest_set_rank [OF m])
    have on: "letter_level c \<le> L" if on
      using ok that i full lvl unfolding letter_level_def by (cases "c = CHR ''q''"; cases "c = CHR ''a''") auto
    have off: "channel_rank_level (mb_rank m) \<le> L" if "\<not> on"
      using ok that i lvl level_found [OF m] by (auto split: if_splits)
    show "channel_rank_level (new_rank on c (mb_rank m)) \<le> max (channel_rank_level (mb_rank m)) L"
      using on lowered_level [of c "mb_rank m"] raised_level [OF c, of "mb_rank m"] by (cases on) auto
    show "channel_rank_level (new_rank on c (mb_rank m)) = channel_rank_level (mb_rank m)" if "L < channel_rank_level (mb_rank m)"
      using on off that raised_level [OF c, of "mb_rank m"] by (cases on) auto
    show "new_rank on c (mb_rank m) AND mb_rank m = mb_rank m" if "L < channel_rank_level (mb_rank m)"
      using off that by (cases on) (auto simp: new_rank_def or_absorbs)
  qed
  have rev: "modest L k a (channel_reveal_member k t b)" if "modest L k a b" for a b t
    using modest_trans [OF that modest_same [of "channel_reveal_member k t b" b k L]] by simp
  note same = modest_same [where L = L and k = k]
  show ?thesis
  proof (cases "mr_args r")
    case (Cons a as)
    show ?thesis
    proof (cases "server_find_user a ?sv")
      case None
      then show ?thesis by (simp add: rank_letter_def Cons Let_def err_no_such_nick_def same)
    next
      case t: (Some t)
      show ?thesis
      proof (cases "channel_find_member (chan_of ?sv k) t")
        case None
        then show ?thesis by (simp add: rank_letter_def Cons Let_def t same)
      next
        case m: (Some m)
        let ?s1 = "on_chan k (\<lambda>ch. set_member ch t (m\<lparr>mb_rank := new_rank (adding r) c (mb_rank m)\<rparr>)) ?sv"
        have g: "modest L k ?sv (if adding r then channel_reveal_member k t ?s1 else ?s1)"
          if "(t = i \<and> \<not> adding r) \<or> \<not> (setter_level ?sv k i < (if c = CHR ''q'' then 5 else if c = CHR ''a'' then 4 else 0) \<or>
            (\<not> adding r \<and> channel_rank_level (mb_rank m) > setter_level ?sv k i))"
          using go [OF m that] rev [OF go [OF m that]] by (simp only: split: if_split) blast
        show ?thesis unfolding rank_letter_def Cons list.case Let_def t option.case m
          by (rule modest_if, simp add: same, rule modest_if, simp add: same, rule modest_if, simp add: same)
             (simp only: ranks_shown, rule g, blast)
      qed
    qed
  qed (simp add: rank_letter_def same)
qed

lemma members_mask [simp]: "ch_members (set_bmask_list c ml chan) = ch_members chan"
  by (simp add: set_bmask_list_def)

lemma members_flood [simp]: "channel_set_flood chan a = Some c2 \<Longrightarrow> ch_members c2 = ch_members chan"
  "ch_members (channel_clear_flood chan) = ch_members chan"
  by (auto simp: channel_set_flood_def channel_clear_flood_def Let_def split: if_splits option.splits)

lemma modest_letters:
  "modest L k (mr_sv r) (mr_sv (flag_letter k c r))" "modest L k (mr_sv r) (mr_sv (redirect_letter W i k r))"
  "modest L k (mr_sv r) (mr_sv (flood_letter k r))" "modest L k (mr_sv r) (mr_sv (join_rate_letter k r))"
  "modest L k (mr_sv r) (mr_sv (key_letter k r))" "modest L k (mr_sv r) (mr_sv (limit_letter k r))"
  "modest L k (mr_sv r) (mr_sv (mask_letter W i k c r))"
  by (auto intro!: modest_same simp: flag_letter_def redirect_letter_def flood_letter_def join_rate_letter_def key_letter_def
      limit_letter_def mask_letter_def err_no_such_channel_def Let_def ranks_on_chan ranks_set_chan split: list.split option.split prod.split)

lemma modest_step:
  assumes full: "full \<Longrightarrow> 3 \<le> L" and half: "1 \<le> L" and i: "level k (mr_sv r) i \<le> L"
    and u: "\<not> has (c_umodes (sv_client (mr_sv r) i)) UMODE_O" "\<not> c_is_service (sv_client (mr_sv r) i)"
  shows "modest L k (mr_sv r) (mr_sv (mode_step W i k full c r))"
proof -
  have rank: "modest L k (mr_sv r) (mr_sv (rank_letter W i k c r))" if "c \<in> set ''ohvqa''" "\<not> (\<not> full \<and> c \<notin> set ''vbeI'' \<and> c \<noteq> CHR ''r'')"
  proof (rule modest_rank_letter [OF that(1) _ i u])
    show "letter_level c \<le> L" if "letter_level c \<le> 3"
    proof (cases full)
      case True
      then show ?thesis using full that by linarith
    next
      case False
      then have "c = CHR ''v''" using \<open>\<not> (\<not> full \<and> c \<notin> set ''vbeI'' \<and> c \<noteq> CHR ''r'')\<close> rank_char [OF \<open>c \<in> set ''ohvqa''\<close>] by auto
      then show ?thesis using half by (simp add: letter_level_def)
    qed
  qed
  note same = modest_same [where L = L and k = k]
  show ?thesis unfolding mode_step_def Let_def
    by (rule modest_if, simp add: same, rule modest_if, simp add: same, rule modest_if, simp add: same,
        rule modest_if, simp add: same err_not_channel_op_def, rule modest_if, rule modest_letters, rule modest_if, rule modest_letters,
        rule modest_if, rule modest_letters, rule modest_if, rule modest_letters, rule modest_if, rule modest_letters,
        rule modest_if, rule modest_letters, rule modest_if, rule rank, assumption, assumption, rule modest_if, rule modest_letters)
       (simp add: same)
qed

lemma modest_steps:
  assumes full: "full \<Longrightarrow> 3 \<le> L" and half: "1 \<le> L" and "level k (mr_sv r) i \<le> L"
    and "\<not> has (c_umodes (sv_client (mr_sv r) i)) UMODE_O" and "\<not> c_is_service (sv_client (mr_sv r) i)"
  shows "modest L k (mr_sv r) (mr_sv (mode_steps W i k full cs r))"
  using assms(3-)
proof (induction cs arbitrary: r)
  case (Cons c cs)
  have m: "modest L k (mr_sv r) (mr_sv (mode_step W i k full c r))" using modest_step [OF full half] Cons.prems by blast
  then have "sv_q (mr_sv (mode_step W i k full c r)) = sv_q (mr_sv r)" "level k (mr_sv (mode_step W i k full c r)) i \<le> L"
    using Cons.prems(1) unfolding modest_def by (simp, metis max.absorb2)
  then show ?case using modest_trans [OF m Cons.IH] Cons.prems by (simp add: modest_same)
qed (simp add: modest_same)

lemma ranks_apply: "ranks k (n_sv (cmd_apply_channel_mode W i k modes args full N)) =
    ranks k (mr_sv (mode_steps W i k full modes (start_run args (n_sv N))))"
proof -
  have f: "n_sv (netsync_chan_mode k s m a N) = n_sv N" for s m a N
    by (simp add: netsync_chan_mode_def)
  show ?thesis unfolding cmd_apply_channel_mode_def Let_def
    by (auto simp: f on_sv_def intro: ranks_cong split: option.split)
qed

lemma level_held:
  assumes "member_has (chan_of sv k) i b" and "b = RANK_OP \<and> n = 3 \<or> b = RANK_OP OR RANK_HALFOP \<and> n = (2::nat)"
  shows "n \<le> level k sv i"
proof -
  obtain m where m: "channel_find_member (chan_of sv k) i = Some m" and b: "has (mb_rank m) b"
    using assms(1) by (auto simp: member_has_def split: option.splits)
  have d: "has r (RANK_OP OR RANK_HALFOP) \<Longrightarrow> has r RANK_OP \<or> has r RANK_HALFOP" for r
    by (simp add: bit.conj_disj_distrib or_eq_0_iff)
  show ?thesis using assms(2) b d [of "mb_rank m"] unfolding level_found [OF m] channel_rank_level_def by auto
qed

text \<open>
  C5. A member cannot lift itself or a friend over its own head, nor take anything from its seniors:
  whatever MODE line a user sends who is neither an operator nor a service, afterwards the channel has
  the same members, nobody stands higher than before and higher than the sender stood before the line,
  and those who stood above the sender stand where they stood and have every rank they had. (A rank
  below the sender's own can be given to a senior too.)
\<close>

theorem mode_never_outranks:
  assumes "server_find_channel name (n_sv N) = Some (k, chan)"
    and "\<not> has (c_umodes (n_client N i)) UMODE_O" and "\<not> c_is_service (n_client N i)"
  shows "map fst (ranks k (n_sv (cmd_mode_channel W i msg name N))) = map fst (ranks k (n_sv N)) \<and>
    (\<forall>j. level k (n_sv (cmd_mode_channel W i msg name N)) j \<le> max (level k (n_sv N) j) (level k (n_sv N) i)) \<and>
    (\<forall>j. level k (n_sv N) i < level k (n_sv N) j \<longrightarrow> level k (n_sv (cmd_mode_channel W i msg name N)) j = level k (n_sv N) j) \<and>
    (\<forall>j. level k (n_sv N) i < level k (n_sv N) j \<longrightarrow>
       rank_of k (n_sv (cmd_mode_channel W i msg name N)) j AND rank_of k (n_sv N) j = rank_of k (n_sv N) j)"
proof -
  let ?N = "cmd_mode_channel W i msg name N" and ?L = "level k (n_sv N) i"
  have c: "chan = chan_of (n_sv N) k" using assms(1) by (auto simp: server_find_channel_def chan_of_def Let_def)
  consider (same) "ranks k (n_sv ?N) = ranks k (n_sv N)"
    | (steps) modes args where "channel_has_ops chan i" "?N = cmd_apply_channel_mode W i k modes args (channel_is_op chan i) N"
  proof -
    have q: "ranks k (mode_query W i k sv) = ranks k sv" "ranks k (err_not_channel_op W i x sv) = ranks k sv" for x sv
      by (simp_all add: mode_query_def err_not_channel_op_def Let_def)
    have m: "ranks k (reply_masklist W i k letter sv) = ranks k sv" for letter sv
    proof -
      have "ranks k (fold (\<lambda>e. srv_reply W i n (g e) None) xs s) = ranks k s" for n g s and xs :: "mask_entry list"
        by (rule ranks_fold) simp
      then show ?thesis by (simp add: reply_masklist_def Let_def split: prod.split)
    qed
    show thesis
    proof (cases "length (msg_params msg) < 2 \<or> \<not> channel_has_ops chan i \<or>
        (dropWhile (\<lambda>c. c = CHR ''+'' \<or> c = CHR ''-'') (clip 4 (msg_params msg ! 1)) \<in> {''b'', ''e'', ''I''} \<and> length (msg_params msg) < 3)")
      case True
      then have "ranks k (n_sv ?N) = ranks k (n_sv N)"
        using assms(2) by (auto simp: cmd_mode_channel_def assms(1) on_sv_def q m Let_def)
      then show ?thesis by (rule same)
    next
      case False
      then have "?N = cmd_apply_channel_mode W i k (msg_params msg ! 1) (given_args msg) (channel_is_op chan i) N"
        using assms(2) by (simp add: cmd_mode_channel_def assms(1) Let_def del: insert_iff) blast
      then show ?thesis using False steps by blast
    qed
  qed
  then show ?thesis
  proof cases
    case same
    then show ?thesis using level_cong [OF same] rank_cong [OF same] by simp
  next
    case steps
    have L: "channel_is_op chan i \<Longrightarrow> 3 \<le> ?L" "2 \<le> ?L"
      using level_held steps(1) by (auto simp: channel_is_op_def channel_has_ops_def c)
    have "modest ?L k (n_sv N) (mr_sv (mode_steps W i k (channel_is_op chan i) modes (start_run args (n_sv N))))"
      using modest_steps [OF L(1), where r = "start_run args (n_sv N)"] L(2) assms(2,3) by (simp add: start_run_def)
    moreover have "level k (n_sv ?N) = level k (mr_sv (mode_steps W i k (channel_is_op chan i) modes (start_run args (n_sv N))))"
      unfolding steps(2) by (rule level_cong) (rule ranks_apply)
    moreover have "rank_of k (n_sv ?N) = rank_of k (mr_sv (mode_steps W i k (channel_is_op chan i) modes (start_run args (n_sv N))))"
      unfolding steps(2) by (rule rank_cong) (rule ranks_apply)
    ultimately show ?thesis unfolding modest_def steps(2) ranks_apply by simp
  qed
qed

section \<open>What is announced fits\<close>

definition grows :: "mode_run \<Rightarrow> mode_run \<Rightarrow> bool" where
  "grows r r' \<longleftrightarrow> length (mr_flags r') \<le> length (mr_flags r) + 2 \<and>
     (\<exists>ps. mr_params r' = mr_params r @ ps \<and> length ps \<le> 1 \<and> list_all (\<lambda>p. length p < 256) ps)"

lemma grows_refl: "mr_flags r' = mr_flags r \<Longrightarrow> mr_params r' = mr_params r \<Longrightarrow> grows r r'"
  by (simp add: grows_def)

lemma grows_shown: "mr_flags r' = mr_flags r \<Longrightarrow> mr_params r' = mr_params r \<Longrightarrow> grows r (shown c a r')"
  unfolding grows_def shown_def by (auto simp: clip_def split: option.split)

lemma in_run_fields [simp]: "mr_flags (in_run f r) = mr_flags r" "mr_params (in_run f r) = mr_params r"
  "mr_flags (next_arg r) = mr_flags r" "mr_params (next_arg r) = mr_params r"
  by (simp_all add: in_run_def next_arg_def)

lemma grows_if: "(b \<Longrightarrow> grows r x) \<Longrightarrow> (\<not> b \<Longrightarrow> grows r y) \<Longrightarrow> grows r (if b then x else y)"
  by simp

lemma grows_args: "grows r x \<Longrightarrow> (\<And>a as. grows r (f a as)) \<Longrightarrow> grows r (case xs of [] \<Rightarrow> x | a # as \<Rightarrow> f a as)"
  by (simp split: list.split)

lemma grows_option: "grows r x \<Longrightarrow> (\<And>a. grows r (f a)) \<Longrightarrow> grows r (case xs of None \<Rightarrow> x | Some a \<Rightarrow> f a)"
  by (simp split: option.split)

lemma grows_pair: "(\<And>a b. grows r (f a b)) \<Longrightarrow> grows r (case p of (a, b) \<Rightarrow> f a b)"
  by (simp split: prod.split)

lemmas grows_rules = grows_if grows_args grows_option grows_pair grows_shown grows_refl

lemma grows_letters:
  "grows r (flag_letter k c r)" "grows r (redirect_letter W i k r)" "grows r (flood_letter k r)" "grows r (join_rate_letter k r)"
  "grows r (key_letter k r)" "grows r (limit_letter k r)" "grows r (mask_letter W i k c r)" "grows r (rank_letter W i k c r)"
  unfolding flag_letter_def redirect_letter_def flood_letter_def join_rate_letter_def key_letter_def
      limit_letter_def mask_letter_def rank_letter_def Let_def
  by ((rule grows_rules | simp only: in_run_fields)+)

lemma grows_step: "grows r (mode_step W i k full c r)"
  unfolding mode_step_def Let_def by (rule grows_if | rule grows_letters | (rule grows_refl; simp))+

text \<open>
  C12. Whatever the letters and their arguments, the letters to be announced and their terminator fit
  into the 64 bytes kept for them, and there are at most six parameters, each within its 256 bytes.
\<close>

theorem mode_announcement_fits:
  "length (mr_flags (mode_steps W i k full cs (start_run args sv))) < 64 \<and>
   length (mr_params (mode_steps W i k full cs (start_run args sv))) \<le> MAX_MODE_PARAMS \<and>
   list_all (\<lambda>p. length p < 256) (mr_params (mode_steps W i k full cs (start_run args sv)))"
proof -
  have "length (mr_flags (mode_steps W i k full cs r)) < 64 \<and> length (mr_params (mode_steps W i k full cs r)) \<le> MAX_MODE_PARAMS \<and>
      list_all (\<lambda>p. length p < 256) (mr_params (mode_steps W i k full cs r))"
    if "length (mr_flags r) < 64 \<and> length (mr_params r) \<le> MAX_MODE_PARAMS \<and> list_all (\<lambda>p. length p < 256) (mr_params r)" for r
    using that
  proof (induction cs arbitrary: r)
    case (Cons c cs)
    show ?case
    proof (cases "length (mr_flags r) + 2 \<ge> 64 \<or> length (mr_params r) \<ge> MAX_MODE_PARAMS")
      case True
      then show ?thesis using Cons.prems by simp
    next
      case False
      have "length (mr_flags (mode_step W i k full c r)) < 64 \<and> length (mr_params (mode_step W i k full c r)) \<le> MAX_MODE_PARAMS \<and>
          list_all (\<lambda>p. length p < 256) (mr_params (mode_step W i k full c r))"
        using False Cons.prems grows_step [of r W i k full c] unfolding grows_def by auto
      from Cons.IH [OF this] show ?thesis using False by simp
    qed
  qed simp
  then show ?thesis by (simp add: start_run_def)
qed

section \<open>Small runs\<close>

definition demo_user :: client where
  "demo_user = (client_new 5 0)\<lparr>c_umodes := UMODE_Z\<rparr>"

theorem umode_never_opers_witness:
  "\<not> has (c_umodes (snd (umode_loop ''+oqiZ'' CHR ''+'' CHR ''+'' ''+'' demo_user))) (UMODE_O OR oper_only) \<and>
   has (c_umodes (snd (umode_loop ''+oqiZ'' CHR ''+'' CHR ''+'' ''+'' demo_user))) UMODE_Z"
proof -
  obtain out cl' where l: "umode_loop ''+oqiZ'' CHR ''+'' CHR ''+'' ''+'' demo_user = (out, cl')" by force
  have u: "c_umodes demo_user = UMODE_Z" by (simp add: demo_user_def)
  have v: "UMODE_Z AND given_by_server = UMODE_Z" "\<not> has UMODE_Z UMODE_O" "\<not> has UMODE_Z oper_only" "UMODE_Z \<noteq> 0"
    "given_by_server AND UMODE_Z = UMODE_Z"
    by (simp_all add: umode_bits given_by_server_def oper_only_def)
  note r = umode_never_opers [OF l, unfolded u]
  then have o: "\<not> has (c_umodes cl') UMODE_O" "\<not> has (c_umodes cl') oper_only" 
    using v by blast+
  have g: "c_umodes cl' AND given_by_server = UMODE_Z" by (rule r [THEN conjunct1, unfolded v(1)])
  have "c_umodes cl' AND UMODE_Z = UMODE_Z" using arg_cong [OF g, of "\<lambda>x. x AND UMODE_Z"] v(5) by (simp add: and.assoc)
  moreover note o v(4)
  ultimately show ?thesis unfolding l snd_conv bit.conj_disj_distrib or_eq_0_iff by simp
qed

theorem umode_announced_exactly_witness:
  "umode_loop ''+iw'' CHR ''+'' CHR ''+'' ''+'' demo_user = umode_loop ''-i+oiw-x+w'' CHR ''+'' CHR ''+'' ''+'' demo_user"
proof -
  have "fst (umode_loop ''-i+oiw-x+w'' CHR ''+'' CHR ''+'' ''+'' demo_user) = ''+iw''" by code_simp
  then obtain cl' where l: "umode_loop ''-i+oiw-x+w'' CHR ''+'' CHR ''+'' ''+'' demo_user = (''+iw'', cl')" by (metis prod.collapse)
  show ?thesis unfolding umode_announced_exactly [OF l] l ..
qed

definition demo_den :: channel where
  "demo_den = (channel_new ''#den'' ''#den'' 7)\<lparr>ch_members := [(1, new_member\<lparr>mb_rank := RANK_HALFOP\<rparr>), (2, new_member\<lparr>mb_rank := RANK_OWNER\<rparr>)]\<rparr>"

definition demo_halfop :: net where
  "demo_halfop = \<lparr>n_sv = empty_server\<lparr>sv_channels := [(''#den'', demo_den)], sv_q := \<lparr>ev_clients = [(1, demo_user)], ev_dirty = [], ev_dead = []\<rparr>\<rparr>,
     n_links = [], n_self = 1, n_uid_counter = 0, n_netjoin = None, n_out = []\<rparr>"

definition demo_mode :: irc_message where
  "demo_mode = \<lparr>msg_tags = [], msg_prefix = None, msg_command = ''MODE'', msg_params = [''#den'', ''+ov-q'', ''x'', ''y'', ''z'']\<rparr>"

theorem mode_never_outranks_witness:
  "level ''#den'' (n_sv (cmd_mode_channel demo_world 1 demo_mode ''#den'' demo_halfop)) 2 = 5 \<and>
   level ''#den'' (n_sv (cmd_mode_channel demo_world 1 demo_mode ''#den'' demo_halfop)) 1 \<le> 2"
proof -
  have c: "irc_casefold CHAN_NAMELEN ''#den'' = ''#den''" by code_simp
  have f: "server_find_channel ''#den'' (n_sv demo_halfop) = Some (''#den'', demo_den)"
    by (simp add: server_find_channel_def Let_def c demo_halfop_def)
  have m: "chan_of (n_sv demo_halfop) ''#den'' = demo_den" by (simp add: chan_of_def demo_halfop_def)
  have "channel_rank_level RANK_HALFOP = 2" "channel_rank_level RANK_OWNER = 5" by code_simp+
  then have l: "level ''#den'' (n_sv demo_halfop) 1 = 2" "level ''#den'' (n_sv demo_halfop) 2 = 5"
    by (simp_all add: level_def ranks_def m demo_den_def)
  have u: "n_client demo_halfop 1 = demo_user" by (simp add: demo_halfop_def ev_client_def)
  have o: "\<not> has (c_umodes demo_user) UMODE_O" "\<not> c_is_service demo_user" by (simp_all add: demo_user_def client_new_def umode_bits)
  note r = mode_never_outranks [OF f, of 1, unfolded u, OF o, of demo_world demo_mode]
  have "level ''#den'' (n_sv (cmd_mode_channel demo_world 1 demo_mode ''#den'' demo_halfop)) 1 \<le> 2" using r l by (metis max.idem)
  then show ?thesis using r l by simp
qed

end
