(* ===== verification/Chancmd.thy ===== *)
theory Chancmd
  imports Chanmode Spam
begin

text \<open>
  The other channel commands (src/src/cmd_chan.c): NAMES, JOIN with its redirects, PART, RENAME,
  TOPIC, LIST, LINKS, MAP, INVITE, KNOCK, KICK, their overrides for operators, the flood protection
  and the clean-up that runs every few seconds. The properties say who gets into a channel and who
  may be thrown out of one, and that no list of channels shows a secret one.
\<close>

unbundle bit_operations_syntax

section \<open>What the commands read\<close>

definition CAP_MULTI_PREFIX :: flags where "CAP_MULTI_PREFIX = 0x0002"
definition CAP_USERHOST_IN_NAMES :: flags where "CAP_USERHOST_IN_NAMES = 0x0004"
definition CAP_NO_IMPLICIT_NAMES :: flags where "CAP_NO_IMPLICIT_NAMES = 0x20000"
definition CAP_CHANNEL_RENAME :: flags where "CAP_CHANNEL_RENAME = 0x100000"
definition CAP_READ_MARKER :: flags where "CAP_READ_MARKER = 0x400000"

definition MAX_CHANNELS_PER_CLIENT :: nat where "MAX_CHANNELS_PER_CLIENT = 200"

text \<open>The clocks and the configuration: the name of the debug channel if there is one, and whether
  only the channels of a list may be made.\<close>

record chan_env =
  ce_world :: world
  ce_regex :: regex
  ce_spam :: spam_cfg
  ce_debug :: "string option"
  ce_restrict :: bool
  ce_allowed :: "string list"

definition chan_reply :: "chan_env \<Rightarrow> client_id \<Rightarrow> string \<Rightarrow> string list \<Rightarrow> string \<Rightarrow> net \<Rightarrow> net" where
  "chan_reply E i code ps t = on_sv (srv_reply (ce_world E) i code ps (Some t))"

definition not_on_channel :: "world \<Rightarrow> client_id \<Rightarrow> string \<Rightarrow> server \<Rightarrow> server" where
  "not_on_channel W i name = srv_reply W i ''442'' [name] (Some ''You're not on that channel'')"

section \<open>NAMES\<close>

definition name_token :: "server \<Rightarrow> client \<Rightarrow> client_id \<times> member \<Rightarrow> string" where
  "name_token sv cl im =
     (let c = sv_client sv (fst im); rank = channel_rank_prefix (mb_rank (snd im)) (has (c_caps cl) CAP_MULTI_PREFIX)
      in clip (NICKLEN + HOSTLEN + 8)
           (if has (c_caps cl) CAP_USERHOST_IN_NAMES then rank @ c_nick c @ ''!'' @ client_ident c @ ''@'' @ c_host c else rank @ c_nick c))"

text \<open>The lines the names are spread over; the last one is sent even when it is empty.\<close>

fun name_lines :: "nat \<Rightarrow> string list \<Rightarrow> string \<Rightarrow> string list" where
  "name_lines budget [] cur = [cur]"
| "name_lines budget (t # ts) cur =
     (if cur \<noteq> [] \<and> length cur + length t + 1 > budget then cur # name_lines budget ts t
      else name_lines budget ts (if cur \<noteq> [] then cur @ SP # t else t))"

definition names_budget :: "world \<Rightarrow> client \<Rightarrow> channel \<Rightarrow> nat" where
  "names_budget W cl chan =
     (let overhead = length (sc_name (w_cfg W)) + length (c_nick cl) + length (ch_name chan) + 16
      in min (if overhead < 510 - 64 then 510 - overhead else 64) 399)"

definition shown_names :: "server \<Rightarrow> client_id \<Rightarrow> channel \<Rightarrow> (client_id \<times> member) list" where
  "shown_names sv i chan =
     filter (\<lambda>(j, m). channel_member_visible chan j m (map_option (Pair i) (channel_find_member chan i))) (ch_members chan)"

definition send_names :: "world \<Rightarrow> client_id \<Rightarrow> string \<Rightarrow> server \<Rightarrow> server" where
  "send_names W i k sv =
     (let cl = sv_client sv i; chan = chan_of sv k;
          chantype = (if has (ch_modes chan) CMODE_S then ''@'' else if has (ch_modes chan) CMODE_P then ''*'' else ''='');
          ls = name_lines (names_budget W cl chan) (map (name_token sv cl) (shown_names sv i chan)) []
      in srv_reply W i ''366'' [ch_name chan] (Some ''End of /NAMES list.'')
           (fold (\<lambda>l. srv_reply W i ''353'' [chantype, ch_name chan] (Some l)) ls sv))"

definition end_of_names :: "world \<Rightarrow> client_id \<Rightarrow> string \<Rightarrow> server \<Rightarrow> server" where
  "end_of_names W i name = srv_reply W i ''366'' [name] (Some ''End of /NAMES list.'')"

definition comma_list :: "string \<Rightarrow> string list" where
  "comma_list s = strtok (\<lambda>c. c = CHR '','') (clip 600 s)"

definition cmd_names :: "world \<Rightarrow> client_id \<Rightarrow> irc_message \<Rightarrow> server \<Rightarrow> server" where
  "cmd_names W i msg sv =
     (case msg_params msg of
        [] \<Rightarrow> end_of_names W i ''*'' sv
      | a # _ \<Rightarrow>
          fold (\<lambda>tok s. case server_find_channel tok s of
                  None \<Rightarrow> end_of_names W i tok s
                | Some (k, chan) \<Rightarrow>
                    if has (ch_modes chan) (CMODE_S OR CMODE_P) \<and> channel_find_member chan i = None then end_of_names W i (ch_name chan) s
                    else send_names W i k s) (comma_list a) sv)"

section \<open>What a client gets when it joins\<close>

definition send_topic :: "world \<Rightarrow> client_id \<Rightarrow> channel \<Rightarrow> server \<Rightarrow> server" where
  "send_topic W i chan sv =
     (if ch_topic chan \<noteq> []
      then srv_reply W i ''333'' [ch_name chan, ch_topic_setter chan, clip 32 (show_int (ch_topic_time chan))] None
             (srv_reply W i ''332'' [ch_name chan] (Some (ch_topic chan)) sv)
      else srv_reply W i ''331'' [ch_name chan] (Some ''No topic is set'') sv)"

definition read_marker_line :: "world \<Rightarrow> client \<Rightarrow> channel \<Rightarrow> server \<Rightarrow> string" where
  "read_marker_line W cl chan sv =
     (let ms = server_marker_get (c_account cl) (ch_name chan) (sv_markers sv);
          val = (if ms > 0 then clip 80 (''timestamp='' @ irc_iso8601_from_ms 40 ms) else ''timestamp=*'')
      in reply_line 300 (Some (sc_name (w_cfg W))) ''MARKREAD'' [ch_name chan, val] None)"

definition send_join_burst :: "world \<Rightarrow> client_id \<Rightarrow> string \<Rightarrow> server \<Rightarrow> server" where
  "send_join_burst W i k sv =
     (let cl = sv_client sv i; chan = chan_of sv k;
          sv1 = (if has (c_caps cl) CAP_READ_MARKER \<and> c_account cl \<noteq> [] then srv_send i (read_marker_line W cl chan sv) sv else sv);
          sv2 = send_topic W i chan sv1
      in if has (c_caps cl) CAP_NO_IMPLICIT_NAMES then sv2 else send_names W i k sv2)"

definition cmd_announce_join :: "world \<Rightarrow> string \<Rightarrow> client_id \<Rightarrow> net \<Rightarrow> net" where
  "cmd_announce_join W k i N =
     (let N1 = announce_join W k i N in if c_remote (n_client N1 i) then N1 else on_sv (send_join_burst W i k) N1)"

section \<open>Modes set by the server\<close>

definition server_chan_mode :: "world \<Rightarrow> string \<Rightarrow> string \<Rightarrow> string option \<Rightarrow> net \<Rightarrow> net" where
  "server_chan_mode W k modes arg N =
     (let args = (case arg of None \<Rightarrow> [] | Some a \<Rightarrow> [a]);
          N1 = (case irc_build 600 [] (Some (sc_name (w_cfg W))) ''MODE'' (ch_name (chan_of (n_sv N) k) # modes # args) None of
                  None \<Rightarrow> N | Some line \<Rightarrow> on_sv (server_broadcast_channel W k line None) N)
      in netsync_chan_mode k None modes args N1)"

text \<open>An event of a channel with \<open>+f\<close>: the counters after it, and whether the limit is passed.\<close>

definition flood_count :: "int \<Rightarrow> int \<Rightarrow> nat \<Rightarrow> floodprot \<Rightarrow> floodprot \<times> bool" where
  "flood_count now secs x f =
     (let f1 = (if now - fp_start f ! x \<ge> secs then f\<lparr>fp_start := (fp_start f)[x := now], fp_count := (fp_count f)[x := 0]\<rparr> else f);
          n = fp_count f1 ! x + 1
      in (f1\<lparr>fp_count := (fp_count f1)[x := if n \<le> fp_limit f ! x then n else 0]\<rparr>, n > fp_limit f ! x))"

definition channel_flood_event :: "world \<Rightarrow> string \<Rightarrow> char \<Rightarrow> net \<Rightarrow> bool \<times> net" where
  "channel_flood_event W k type N =
     (let chan = chan_of (n_sv N) k
      in case (ch_fp chan, index_of type FP_TYPES) of
           (Some f, Some x) \<Rightarrow>
             if fp_limit f ! x = 0 then (False, N)
             else (let now = w_now W; (f1, over) = flood_count now (ch_flood_secs chan) x f; act = fp_action f ! x; b = channel_flag_bit act;
                       store = (\<lambda>f. on_sv (on_chan k (\<lambda>c. c\<lparr>ch_fp := Some f\<rparr>)))
                   in if \<not> over then (False, store f1 N)
                      else if b \<noteq> 0 \<and> \<not> has (ch_modes chan) b then
                        (let f2 = (if fp_unset_mins f ! x \<noteq> 0 then f1\<lparr>fp_unset_at := (fp_unset_at f1)[x := now + fp_unset_mins f ! x * 60]\<rparr> else f1);
                             N1 = server_chan_mode W k [CHR ''+'', act] None (on_sv (on_chan k (\<lambda>c. c\<lparr>ch_modes := ch_modes c OR b\<rparr>)) N);
                             note = clip 200 (''Channel '' @ ch_name chan @ '': flood protection (+f '' @ [type] @ '') set +'' @ [act])
                         in (True, store f2 (on_sv (server_notify_opers W note) N1)))
                      else (True, store f1 N))
         | _ \<Rightarrow> (False, N))"

section \<open>JOIN\<close>

definition who_of :: "client \<Rightarrow> who" where
  "who_of cl = \<lparr>w_nick = c_nick cl, w_user = c_user cl, w_host = c_host cl, w_realhost = c_realhost cl, w_ip = c_ip cl,
     w_account = c_account cl, w_ident = c_ident_confirmed cl\<rparr>"

text \<open>What the extended bans are matched against; a client lists the folded names of its channels.\<close>

definition extra_of :: "client \<Rightarrow> ban_extra option" where
  "extra_of cl = Some \<lparr>be_realname = c_realname cl, be_secure = has (c_umodes cl) UMODE_Z,
     be_cl = Some \<lparr>ec_certfp = c_certfp cl, ec_channels = c_channels cl\<rparr>\<rparr>"

text \<open>The key of an invitation is built from the connection when it is first asked for; a join stores it.\<close>

definition invited :: "client \<Rightarrow> channel \<Rightarrow> bool" where
  "invited cl chan = channel_is_invited (extra_of cl) (ch_invited chan) (ch_invex chan) (fst (client_invite_key cl)) (who_of cl)"

definition banned :: "client \<Rightarrow> channel \<Rightarrow> bool" where
  "banned cl chan = channel_is_banned (extra_of cl) (ch_bans chan) (ch_exceptions chan) (who_of cl)"

definition forward_of :: "client \<Rightarrow> channel \<Rightarrow> string option" where
  "forward_of cl chan = channel_ban_forward (extra_of cl) (ch_bans chan) (who_of cl) CHAN_NAMELEN"

text \<open>The member is put into the channel and told to everybody; the founder is an operator.\<close>

definition new_joiner :: "bool \<Rightarrow> client_id \<Rightarrow> channel \<Rightarrow> channel" where
  "new_joiner created i chan =
     (let r = (if created then RANK_OP else 0)
      in set_member (channel_add_member chan i) i
           (new_member\<lparr>mb_rank := r, mb_hidden := has (ch_modes chan) CMODE_DELAYJOIN \<and> r = 0\<rparr>))"

definition enter :: "world \<Rightarrow> bool \<Rightarrow> string \<Rightarrow> client_id \<Rightarrow> (channel \<Rightarrow> channel) \<Rightarrow> net \<Rightarrow> net" where
  "enter W created k i f N =
     netsync_chan_join k i created (cmd_announce_join W k i (on_sv (\<lambda>sv. server_attach_membership i k (on_chan k f sv)) N))"

definition cmd_force_join :: "world \<Rightarrow> client_id \<Rightarrow> string \<Rightarrow> net \<Rightarrow> net" where
  "cmd_force_join W i name N =
     (if \<not> irc_valid_channel name 50 then N
      else (let created = (server_find_channel name (n_sv N) = None);
                (k, sv1) = server_get_or_create_channel W name (n_sv N); N1 = N\<lparr>n_sv := sv1\<rparr>
            in if channel_find_member (chan_of sv1 k) i \<noteq> None then N1
               else enter W created k i (\<lambda>c. set_member (channel_add_member c i) i (new_member\<lparr>mb_rank := (if created then RANK_OP else 0)\<rparr>)) N1))"

text \<open>
  One JOIN. \<open>redirect\<close> is the join that a redirect makes, \<open>None\<close> inside of one: there is one hop
  only. \<open>try_redirect\<close> gives nothing when there is nowhere to send the client.
\<close>

definition try_redirect :: "chan_env \<Rightarrow> (string \<Rightarrow> net \<Rightarrow> net) option \<Rightarrow> client_id \<Rightarrow> channel \<Rightarrow> string option \<Rightarrow> net \<Rightarrow> net option" where
  "try_redirect E redirect i chan fwd N =
     (let dest = (case fwd of Some t \<Rightarrow> t | None \<Rightarrow> ch_redirect chan)
      in if fwd = None \<and> (\<not> has (ch_modes chan) CMODE_REDIRECT \<or> ch_redirect chan = []) then None
         else case redirect of
           None \<Rightarrow> None
         | Some go \<Rightarrow>
             if \<not> irc_valid_channel dest 50 then None
             else Some (go (clip CHAN_NAMELEN dest)
                    (chan_reply E i ''470'' [ch_name chan, clip CHAN_NAMELEN dest] ''Forwarding to another channel'' N)))"

definition or_reply :: "chan_env \<Rightarrow> client_id \<Rightarrow> string \<Rightarrow> channel \<Rightarrow> string \<Rightarrow> net \<Rightarrow> net option \<Rightarrow> net" where
  "or_reply E i code chan t N r = (case r of Some N1 \<Rightarrow> N1 | None \<Rightarrow> chan_reply E i code [ch_name chan] t N)"

text \<open>The join counter of \<open>+j\<close>; attempts count too.\<close>

definition throttle_count :: "int \<Rightarrow> channel \<Rightarrow> channel \<times> bool" where
  "throttle_count now chan =
     (let c1 = (if now - ch_jt_start chan \<ge> ch_jt_secs chan then chan\<lparr>ch_jt_start := now, ch_jt_count := 0\<rparr> else chan);
          n = ch_jt_count c1 + 1
      in (c1\<lparr>ch_jt_count := n\<rparr>, n > ch_jt_joins c1))"

definition join_refusal ::
  "chan_env \<Rightarrow> (string \<Rightarrow> net \<Rightarrow> net) option \<Rightarrow> client_id \<Rightarrow> string \<Rightarrow> string option \<Rightarrow> net \<Rightarrow> net option" where
  "join_refusal E redirect i k key N =
     (let cl = n_client N i; chan = chan_of (n_sv N) k; m = ch_modes chan
      in if has m CMODE_I \<and> \<not> invited cl chan
         then Some (or_reply E i ''473'' chan ''Cannot join channel (+i)'' N (try_redirect E redirect i chan None N))
         else if has m CMODE_K \<and> ch_key chan \<noteq> [] \<and> key \<noteq> Some (ch_key chan)
         then Some (chan_reply E i ''475'' [ch_name chan] ''Cannot join channel (+k)'' N)
         else if has m CMODE_L \<and> ch_limit chan > 0 \<and> int (channel_member_count chan) \<ge> ch_limit chan
         then Some (or_reply E i ''471'' chan ''Cannot join channel (+l)'' N (try_redirect E redirect i chan None N))
         else if banned cl chan
         then Some (or_reply E i ''474'' chan ''Cannot join channel (+b)'' N
                (case forward_of cl chan of None \<Rightarrow> None | Some t \<Rightarrow> try_redirect E redirect i chan (Some t) N))
         else if has m CMODE_Z \<and> \<not> has (c_umodes cl) UMODE_Z
         then Some (chan_reply E i ''489'' [ch_name chan] ''Cannot join channel (+z, requires a secure connection)'' N)
         else if has m CMODE_REGONLY \<and> c_account cl = []
         then Some (chan_reply E i ''477'' [ch_name chan] ''Cannot join channel (+R, requires a registered account)'' N)
         else if has m CMODE_OPERONLY
         then Some (chan_reply E i ''477'' [ch_name chan] ''Cannot join channel (+O, IRC operators only)'' N)
         else None)"

definition finish_join :: "chan_env \<Rightarrow> bool \<Rightarrow> bool \<Rightarrow> string \<Rightarrow> client_id \<Rightarrow> net \<Rightarrow> net" where
  "finish_join E created oper k i N =
     (let W = ce_world E; (ikey, cl1) = client_invite_key (n_client N i);
          N1 = enter W created k i (\<lambda>c. (new_joiner created i c)\<lparr>ch_invited := channel_invite_remove ikey (ch_invited c)\<rparr>)
                 (on_sv (sv_write i cl1) N)
      in if \<not> created \<and> \<not> oper then snd (channel_flood_event W k CHR ''j'' N1) else N1)"

definition join_with :: "chan_env \<Rightarrow> (string \<Rightarrow> net \<Rightarrow> net) option \<Rightarrow> client_id \<Rightarrow> string \<Rightarrow> string option \<Rightarrow> net \<Rightarrow> net" where
  "join_with E redirect i name key N =
     (let W = ce_world E; cl = n_client N i; oper = has (c_umodes cl) UMODE_O
      in if \<not> irc_valid_channel name 50 then on_sv (err_no_such_channel W i name) N
         else if \<not> oper \<and> (case ce_debug E of None \<Rightarrow> False | Some d \<Rightarrow> irc_casefold CHAN_NAMELEN name = irc_casefold CHAN_NAMELEN d)
         then on_sv (err_no_such_channel W i name) N
         else if (case server_find_channel name (n_sv N) of None \<Rightarrow> False | Some (k, c) \<Rightarrow> channel_find_member c i \<noteq> None)
         then chan_reply E i ''443'' [ch_name (snd (the (server_find_channel name (n_sv N))))] ''You're already on that channel'' N
         else if length (c_channels cl) \<ge> MAX_CHANNELS_PER_CLIENT \<and> \<not> oper
         then chan_reply E i ''405'' [name] ''You have joined too many channels'' N
         else case server_find_channel name (n_sv N) of
           None \<Rightarrow>
             if ce_restrict E \<and> \<not> oper \<and> \<not> list_ex (\<lambda>a. strcaseeq a name) (ce_allowed E)
             then on_sv (err_no_such_channel W i name) N
             else (let (k, sv1) = server_get_or_create_channel W name (n_sv N) in finish_join E True oper k i (N\<lparr>n_sv := sv1\<rparr>))
         | Some (k, chan) \<Rightarrow>
             if oper then finish_join E False oper k i N
             else case join_refusal E redirect i k key N of
               Some N1 \<Rightarrow> N1
             | None \<Rightarrow>
                 if has (ch_modes chan) CMODE_JTHROT \<and> ch_jt_joins chan > 0
                 then (let (c1, over) = throttle_count (w_now W) chan; N1 = on_sv (on_chan k (\<lambda>_. c1)) N
                       in if over
                          then chan_reply E i ''471'' [ch_name chan] ''Cannot join channel (+j, joining too fast -- try again shortly)'' N1
                          else finish_join E False oper k i N1)
                 else finish_join E False oper k i N)"

definition do_join_one :: "chan_env \<Rightarrow> client_id \<Rightarrow> string \<Rightarrow> string option \<Rightarrow> net \<Rightarrow> net" where
  "do_join_one E i = join_with E (Some (\<lambda>name. join_with E None i name None)) i"

section \<open>PART and the spam filters\<close>

text \<open>\<open>spam_check_text\<close> on the lines and clients of the server; its outputs are sent where they belong.\<close>

definition spam_tell :: "world \<Rightarrow> client_id \<Rightarrow> spam_output \<Rightarrow> net \<Rightarrow> net" where
  "spam_tell W i e N =
     (case e of
        To_Opers t \<Rightarrow> on_sv (server_notify_opers W t) N
      | To_Self t \<Rightarrow> on_sv (notice_self W i t) N
      | To_Network msk setter expires reason \<Rightarrow> netsync_shun msk setter expires reason N)"

definition check_text :: "chan_env \<Rightarrow> client_id \<Rightarrow> flags \<Rightarrow> string \<Rightarrow> net \<times> spam_state \<Rightarrow> bool \<times> net \<times> spam_state" where
  "check_text E i kind t st =
     (case st of (N, ss) \<Rightarrow>
        (let (v, ss1, outs) = spam_check_text (ce_regex E) (ce_spam E) (w_now (ce_world E)) (sv_all (n_sv N)) i kind t
               (ss\<lparr>ss_lines := sv_lines (n_sv N), ss_q := sv_q (n_sv N)\<rparr>)
         in (v \<noteq> 0, fold (spam_tell (ce_world E) i) outs (on_sv (\<lambda>sv. sv\<lparr>sv_lines := ss_lines ss1, sv_q := ss_q ss1\<rparr>) N), ss1)))"

definition part_one :: "world \<Rightarrow> client_id \<Rightarrow> string option \<Rightarrow> string \<Rightarrow> net \<Rightarrow> net" where
  "part_one W i reason tok N =
     (case server_find_channel tok (n_sv N) of
        None \<Rightarrow> on_sv (not_on_channel W i tok) N
      | Some (k, chan) \<Rightarrow>
          (case channel_find_member chan i of
             None \<Rightarrow> on_sv (not_on_channel W i tok) N
           | Some m \<Rightarrow>
               (let line = reply_line 510 (Some (client_prefix (n_client N i) 320)) ''PART'' [ch_name chan] reason
                in on_sv (\<lambda>sv. part_channel i k
                     (fold (\<lambda>vm s. if channel_member_visible chan i m (Some vm) then srv_send (fst vm) line s else s) (ch_members chan)
                        (server_history_event W k line sv))) (netsync_chan_part k i reason N))))"

definition cmd_part :: "chan_env \<Rightarrow> client_id \<Rightarrow> irc_message \<Rightarrow> net \<times> spam_state \<Rightarrow> net \<times> spam_state" where
  "cmd_part E i msg st =
     (let ps = msg_params msg;
          (reason, N, ss) = (if length ps > 1
             then (case check_text E i SPAM_T_PART (last ps) st of (bad, st1) \<Rightarrow> (if bad then None else Some (last ps), st1))
             else (None, st))
      in (fold (part_one (ce_world E) i reason) (comma_list (ps ! 0)) N, ss))"

text \<open>The keys are given out to the channels in order.\<close>

fun join_pairs :: "string list \<Rightarrow> string list \<Rightarrow> (string \<times> string option) list" where
  "join_pairs [] keys = []"
| "join_pairs (c # cs) [] = (c, None) # join_pairs cs []"
| "join_pairs (c # cs) (k # ks) = (c, Some k) # join_pairs cs ks"

definition plain_part :: "string \<Rightarrow> irc_message" where
  "plain_part name = \<lparr>msg_tags = [], msg_prefix = None, msg_command = ''PART'', msg_params = [name]\<rparr>"

definition cmd_join :: "chan_env \<Rightarrow> client_id \<Rightarrow> irc_message \<Rightarrow> net \<times> spam_state \<Rightarrow> net \<times> spam_state" where
  "cmd_join E i msg st =
     (let ps = msg_params msg
      in if ps ! 0 = ''0''
         then fold (\<lambda>name. cmd_part E i (plain_part name))
                (map (\<lambda>k. clip CHAN_NAMELEN (ch_name (chan_of (n_sv (fst st)) k)))
                   (take MAX_CHANNELS_PER_CLIENT (c_channels (n_client (fst st) i)))) st
         else (fold (\<lambda>(c, key). do_join_one E i c key)
                 (join_pairs (comma_list (ps ! 0)) (if length ps > 1 then comma_list (ps ! 1) else [])) (fst st), snd st))"

section \<open>RENAME\<close>

text \<open>The channel moves to the end of the table under its new name, and its members with it.\<close>

definition rekey_channel :: "string \<Rightarrow> string \<Rightarrow> string \<Rightarrow> server \<Rightarrow> server" where
  "rekey_channel k ncf newname sv =
     (let chan = chan_of sv k;
          sv1 = sv\<lparr>sv_channels := AList.delete k (sv_channels sv) @ [(ncf, chan\<lparr>ch_name := clip CHAN_NAMELEN newname, ch_casefold_name := ncf\<rparr>)]\<rparr>
      in fold (\<lambda>(i, m). change_client i (\<lambda>c. c\<lparr>c_channels := map (\<lambda>x. if x = k then ncf else x) (c_channels c)\<rparr>)) (ch_members chan) sv1)"

definition renamed_member :: "world \<Rightarrow> string \<Rightarrow> string \<Rightarrow> string \<Rightarrow> string \<Rightarrow> client_id \<Rightarrow> server \<Rightarrow> server" where
  "renamed_member W old k line reason i sv =
     (let c = sv_client sv i; prefix = Some (client_prefix c 320)
      in if c_remote c then sv
         else if has (c_caps c) CAP_CHANNEL_RENAME then srv_send i line sv
         else send_join_burst W i k
                (srv_send i (reply_line 400 prefix ''JOIN'' [ch_name (chan_of sv k)] None)
                  (srv_send i (reply_line 500 prefix ''PART'' [old] (Some reason)) sv)))"

definition cmd_channel_rename_apply :: "world \<Rightarrow> string \<Rightarrow> client_id \<Rightarrow> string \<Rightarrow> string \<Rightarrow> net \<Rightarrow> net" where
  "cmd_channel_rename_apply W k i newname reason N =
     (let ncf = irc_casefold CHAN_NAMELEN newname; old = ch_name (chan_of (n_sv N) k);
          line = reply_line 500 (Some (client_prefix (n_client N i) 320)) ''RENAME'' [old, newname] (Some reason);
          N1 = tell (Chan_New ncf) (on_sv (\<lambda>sv. sv\<lparr>sv_markers := server_marker_rename old newname (sv_markers sv)\<rparr>)
                 (on_sv (rekey_channel k ncf newname) (on_sv (\<lambda>sv. sv\<lparr>sv_history := history_rename_channel old newname (sv_history sv)\<rparr>) N)))
      in on_sv (fold (\<lambda>(j, m). renamed_member W old ncf line reason j) (ch_members (chan_of (n_sv N1) ncf))) N1)"

definition rename_refusal :: "chan_env \<Rightarrow> string \<Rightarrow> channel \<Rightarrow> string \<Rightarrow> net \<Rightarrow> (string \<times> string) option" where
  "rename_refusal E k chan newname N =
     (if \<not> irc_valid_channel newname 50 then Some (''CANNOT_RENAME'', ''That is not a valid channel name'')
      else if (case server_find_channel newname (n_sv N) of None \<Rightarrow> False | Some (k2, _) \<Rightarrow> k2 \<noteq> k)
      then Some (''CHANNEL_NAME_IN_USE'', ''A channel with that name already exists'')
      else if has (ch_modes chan) CMODE_R then Some (''CANNOT_RENAME'', ''A registered channel can't be renamed'')
      else case ce_debug E of
        None \<Rightarrow> None
      | Some d \<Rightarrow> if irc_casefold CHAN_NAMELEN d = irc_casefold CHAN_NAMELEN newname then Some (''CANNOT_RENAME'', ''That name is reserved'') else None)"

definition cmd_rename :: "chan_env \<Rightarrow> client_id \<Rightarrow> irc_message \<Rightarrow> net \<Rightarrow> net" where
  "cmd_rename E i msg N =
     (let W = ce_world E; ps = msg_params msg; oldname = ps ! 0; newname = ps ! 1;
          reason = (if length ps > 2 then last ps else ''No reason''); oper = has (c_umodes (n_client N i)) UMODE_O
      in case server_find_channel oldname (n_sv N) of
           None \<Rightarrow> on_sv (err_no_such_channel W i oldname) N
         | Some (k, chan) \<Rightarrow>
             if channel_find_member chan i = None \<and> \<not> oper then on_sv (not_on_channel W i (ch_name chan)) N
             else if \<not> oper \<and> \<not> channel_has_ops chan i then on_sv (err_not_channel_op W i (ch_name chan)) N
             else case rename_refusal E k chan newname N of
               Some (code, desc) \<Rightarrow>
                 on_sv (srv_send i (reply_line 300 (Some (sc_name (w_cfg W))) ''FAIL'' [''RENAME'', code, ch_name chan, newname] (Some desc))) N
             | None \<Rightarrow>
                 netsync_chan_rename (irc_casefold CHAN_NAMELEN newname) i (ch_name chan) reason
                   (cmd_channel_rename_apply W k i newname reason N))"

section \<open>Overrides of operators\<close>

text \<open>A list of names in a buffer of 600 bytes, with commas between them.\<close>

definition listed :: "string \<Rightarrow> string \<Rightarrow> string" where
  "listed acc name = clip 600 ((if acc \<noteq> [] then clip 600 (acc @ '', '') else []) @ name)"

definition override_done :: "world \<Rightarrow> client_id \<Rightarrow> client_id \<Rightarrow> string \<Rightarrow> string \<Rightarrow> string \<Rightarrow> string \<Rightarrow> net \<Rightarrow> net" where
  "override_done W i t did verb prep names N =
     (if names = [] then N
      else on_sv (server_notify_opers W (clip 800 (c_nick (n_client N i) @ '' used '' @ verb @ c_nick (n_client N t) @ prep @ names)))
             (on_sv (notice_self W i (clip 700 (c_nick (n_client N t) @ did @ names))) N))"

definition sajoin_one :: "world \<Rightarrow> client_id \<Rightarrow> string \<Rightarrow> string \<times> net \<Rightarrow> string \<times> net" where
  "sajoin_one W t tok st =
     (case st of (acc, N) \<Rightarrow>
        if \<not> irc_valid_channel tok 50 \<or>
           (case server_find_channel tok (n_sv N) of None \<Rightarrow> False | Some (k, c) \<Rightarrow> channel_find_member c t \<noteq> None) then (acc, N)
        else (listed acc tok, cmd_force_join W t tok N))"

definition cmd_sajoin :: "world \<Rightarrow> client_id \<Rightarrow> irc_message \<Rightarrow> net \<Rightarrow> net" where
  "cmd_sajoin W i msg N =
     (let ps = msg_params msg
      in case server_find_user (ps ! 0) (n_sv N) of
           None \<Rightarrow> on_sv (err_no_such_nick W i (ps ! 0)) N
         | Some t \<Rightarrow>
             if c_remote (n_client N t) then netsync_encap W i t ''SAJOIN'' (tl ps) N
             else (let (names, N1) = fold (sajoin_one W t) (comma_list (ps ! 1)) ([], N)
                   in override_done W i t '' joined: '' ''SAJOIN to put '' '' in '' names N1))"

definition sapart_one :: "world \<Rightarrow> client_id \<Rightarrow> string \<Rightarrow> string \<Rightarrow> string \<times> net \<Rightarrow> string \<times> net" where
  "sapart_one W t reason tok st =
     (case st of (acc, N) \<Rightarrow>
        (case server_find_channel tok (n_sv N) of
           None \<Rightarrow> (acc, N)
         | Some (k, chan) \<Rightarrow>
             if channel_find_member chan t = None then (acc, N)
             else (let line = reply_line 500 (Some (client_prefix (n_client N t) 320)) ''PART'' [ch_name chan] (Some reason);
                       N1 = netsync_chan_part k t (Some reason) (on_sv (server_broadcast_channel W k line None) N)
                   in (listed acc (clip CHAN_NAMELEN (ch_name chan)), on_sv (part_channel t k) N1))))"

definition cmd_sapart :: "world \<Rightarrow> client_id \<Rightarrow> irc_message \<Rightarrow> net \<Rightarrow> net" where
  "cmd_sapart W i msg N =
     (let ps = msg_params msg
      in case server_find_user (ps ! 0) (n_sv N) of
           None \<Rightarrow> on_sv (err_no_such_nick W i (ps ! 0)) N
         | Some t \<Rightarrow>
             if c_remote (n_client N t) then netsync_encap W i t ''SAPART'' (tl ps) N
             else (let reason = (if length ps > 2 then ps ! 2 else c_nick (n_client N i));
                       (names, N1) = fold (sapart_one W t reason) (comma_list (ps ! 1)) ([], N)
                   in override_done W i t '' parted: '' ''SAPART to remove '' '' from '' names N1))"

section \<open>TOPIC\<close>

definition cmd_topic :: "chan_env \<Rightarrow> client_id \<Rightarrow> irc_message \<Rightarrow> net \<times> spam_state \<Rightarrow> net \<times> spam_state" where
  "cmd_topic E i msg st =
     (let W = ce_world E; (N, ss) = st; ps = msg_params msg; oper = has (c_umodes (n_client N i)) UMODE_O
      in case server_find_channel (ps ! 0) (n_sv N) of
           None \<Rightarrow> (on_sv (err_no_such_channel W i (ps ! 0)) N, ss)
         | Some (k, chan) \<Rightarrow>
             if channel_find_member chan i = None then (on_sv (not_on_channel W i (ch_name chan)) N, ss)
             else if length ps < 2 then (on_sv (send_topic W i chan) N, ss)
             else if has (ch_modes chan) CMODE_T \<and> \<not> channel_has_ops chan i \<and> \<not> oper then (on_sv (err_not_channel_op W i (ch_name chan)) N, ss)
             else (case check_text E i SPAM_T_TOPIC (last ps) st of
                     (True, st1) \<Rightarrow> st1
                   | (False, N1, ss1) \<Rightarrow>
                       (let cl = n_client N1 i; topic = clip (TOPIC_MAX_LEN + 1) (last ps);
                            N2 = on_sv (on_chan k (\<lambda>c. c\<lparr>ch_topic := topic, ch_topic_setter := client_prefix cl 128, ch_topic_time := w_now W\<rparr>)) N1;
                            line = reply_line 510 (Some (client_prefix cl 320)) ''TOPIC'' [ch_name chan] (Some topic)
                        in (netsync_chan_topic k (Some i) topic (on_sv (server_broadcast_channel W k line None) N2), ss1))))"

section \<open>LIST, LINKS, MAP\<close>

text \<open>What was asked for: names, masks, masks that exclude, and bounds for the number of users.\<close>

record list_query =
  lq_wanted :: "string list"
  lq_masks :: "string list"
  lq_neg :: "string list"
  lq_min :: int
  lq_max :: int

definition add_to :: "string list \<Rightarrow> string \<Rightarrow> string list" where
  "add_to xs body = (if length xs < 32 then xs @ [irc_casefold CHAN_NAMELEN body] else xs)"

definition list_token :: "string \<Rightarrow> list_query \<Rightarrow> list_query" where
  "list_token tok q =
     (let negate = (take 1 tok = ''!'' \<and> length tok > 1); body = (if negate then drop 1 tok else tok);
          pattern = (CHR ''*'' \<in> set body \<or> CHR ''?'' \<in> set body); digit = (length tok > 1 \<and> c_isdigit (tok ! 1))
      in if \<not> negate \<and> take 1 tok = ''>'' \<and> digit then q\<lparr>lq_min := atoi (drop 1 tok)\<rparr>
         else if \<not> negate \<and> take 1 tok = ''<'' \<and> digit then q\<lparr>lq_max := atoi (drop 1 tok)\<rparr>
         else if negate then q\<lparr>lq_neg := add_to (lq_neg q) body\<rparr>
         else if take 1 body = ''#'' \<and> \<not> pattern then q\<lparr>lq_wanted := add_to (lq_wanted q) body\<rparr>
         else q\<lparr>lq_masks := add_to (lq_masks q) body\<rparr>)"

definition list_query_of :: "string list \<Rightarrow> list_query" where
  "list_query_of ps =
     fold list_token (case ps of a # _ \<Rightarrow> comma_list a | [] \<Rightarrow> []) \<lparr>lq_wanted = [], lq_masks = [], lq_neg = [], lq_min = - 1, lq_max = - 1\<rparr>"

definition list_matches :: "list_query \<Rightarrow> channel \<Rightarrow> bool" where
  "list_matches q c \<longleftrightarrow>
     (lq_wanted q \<noteq> [] \<longrightarrow> ch_casefold_name c \<in> set (lq_wanted q)) \<and>
     (lq_masks q \<noteq> [] \<longrightarrow> list_ex (\<lambda>m. irc_glob_match m (ch_casefold_name c)) (lq_masks q)) \<and>
     \<not> list_ex (\<lambda>m. irc_glob_match m (ch_casefold_name c)) (lq_neg q) \<and>
     \<not> (lq_min q \<ge> 0 \<and> int (channel_member_count c) \<le> lq_min q) \<and> \<not> (lq_max q \<ge> 0 \<and> int (channel_member_count c) \<ge> lq_max q)"

text \<open>The parameters and the text of the line for a channel, if there is one.\<close>

definition list_line_for :: "client_id \<Rightarrow> list_query \<Rightarrow> channel \<Rightarrow> (string list \<times> string) option" where
  "list_line_for i q c =
     (let member = (channel_find_member c i \<noteq> None); cnt = clip 16 (show_nat (channel_member_count c))
      in if \<not> list_matches q c \<or> (has (ch_modes c) CMODE_S \<and> \<not> member) then None
         else if has (ch_modes c) CMODE_P \<and> \<not> member then Some ([''*'', cnt], [])
         else Some ([ch_name c, cnt], ch_topic c))"

definition cmd_list :: "world \<Rightarrow> client_id \<Rightarrow> irc_message \<Rightarrow> server \<Rightarrow> server" where
  "cmd_list W i msg sv =
     srv_reply W i ''323'' [] (Some ''End of /LIST'')
       (fold (\<lambda>(ps, t). srv_reply W i ''322'' ps (Some t)) (List.map_filter (list_line_for i (list_query_of (msg_params msg)) \<circ> snd) (sv_channels sv))
          (srv_reply W i ''321'' [''Channel''] (Some ''Users  Name'') sv))"

text \<open>The links of services are not in the table of servers.\<close>

definition service_links :: "net \<Rightarrow> link list" where
  "service_links N = filter (\<lambda>lk. lk_authenticated lk \<and> \<not> lk_is_server lk) (map snd (n_links N))"

definition cmd_links :: "world \<Rightarrow> client_id \<Rightarrow> net \<Rightarrow> net" where
  "cmd_links W i N =
     (let me = sc_name (w_cfg W);
          sv1 = fold (\<lambda>(s, ns). srv_reply W i ''364'' [ns_name ns, case ns_uplink ns of Some u \<Rightarrow> ns_name (the_server N u) | None \<Rightarrow> me]
                       (Some (clip 200 (show_int (ns_hop ns) @ SP # ns_desc ns)))) (servers N) (n_sv N);
          sv2 = fold (\<lambda>lk. srv_reply W i ''364'' [lk_peer_name lk, me] (Some (clip 128 (''1 '' @ lk_peer_name lk)))) (service_links N) sv1
      in N\<lparr>n_sv := srv_reply W i ''365'' [''*''] (Some ''End of /LINKS list.'') sv2\<rparr>)"

definition map_pad :: "nat \<Rightarrow> string" where
  "map_pad depth = clip 64 (concat (map (\<lambda>d. if d + 1 = depth then ''|-- '' else ''    '') [0..<min depth 20]))"

text \<open>The tree below a server; it has no more levels than there are servers.\<close>

fun map_lines :: "nat \<Rightarrow> (nat \<times> netserver) list \<Rightarrow> nat \<Rightarrow> nat \<times> netserver \<Rightarrow> string list" where
  "map_lines 0 S depth node = []"
| "map_lines (Suc n) S depth (s, ns) =
     clip 200 (map_pad depth @ ns_name ns @ '' ('' @ show_int (ns_n_users ns) @ '' users)'') #
     concat (map (map_lines n S (depth + 1)) (filter (\<lambda>(x, xs). ns_uplink xs = Some s) S))"

definition cmd_map :: "world \<Rightarrow> client_id \<Rightarrow> net \<Rightarrow> net" where
  "cmd_map W i N =
     (let ls = map_lines (length (servers N)) (servers N) 0 (n_self N, the_server N (n_self N)) @
               map (\<lambda>lk. clip 160 (''|-- '' @ lk_peer_name lk)) (service_links N)
      in N\<lparr>n_sv := srv_reply W i ''007'' [] (Some ''End of /MAP'') (fold (\<lambda>l. srv_reply W i ''006'' [] (Some l)) ls (n_sv N))\<rparr>)"

section \<open>INVITE\<close>

definition client_is_silencing :: "client \<Rightarrow> client \<Rightarrow> bool" where
  "client_is_silencing cl from =
     list_ex (\<lambda>m. irc_mask_match (c_nick from) (c_user from) (c_host from) m (c_ident_confirmed from)) (c_silence cl)"

definition invite_refusal :: "chan_env \<Rightarrow> client_id \<Rightarrow> client_id \<Rightarrow> channel \<Rightarrow> net \<Rightarrow> net option" where
  "invite_refusal E i t chan N =
     (let W = ce_world E; oper = has (c_umodes (n_client N i)) UMODE_O
      in if channel_find_member chan i = None then Some (on_sv (not_on_channel W i (ch_name chan)) N)
         else if channel_find_member chan t \<noteq> None
         then Some (chan_reply E i ''443'' [c_nick (n_client N t), ch_name chan] ''is already on channel'' N)
         else if has (ch_modes chan) CMODE_I \<and> \<not> channel_has_ops chan i \<and> \<not> oper then Some (on_sv (err_not_channel_op W i (ch_name chan)) N)
         else if has (ch_modes chan) CMODE_NOINVITE \<and> \<not> channel_has_ops chan i \<and> \<not> oper
         then Some (on_sv (err_not_channel_op W i (ch_name chan)) N)
         else None)"

text \<open>The other operators of the channel that want to hear of invitations.\<close>

definition invite_notify :: "client_id \<Rightarrow> client_id \<Rightarrow> string \<Rightarrow> string \<Rightarrow> server \<Rightarrow> server" where
  "invite_notify i t k line sv =
     fold (\<lambda>(j, m) s. if j = i \<or> j = t then s
             else if has (mb_rank m) (RANK_OP OR RANK_HALFOP) \<and> has (c_caps (sv_client s j)) CAP_INVITE_NOTIFY then srv_send j line s else s)
       (ch_members (chan_of sv k)) sv"

definition send_invite :: "world \<Rightarrow> client_id \<Rightarrow> client_id \<Rightarrow> string \<Rightarrow> string option \<Rightarrow> net \<Rightarrow> net" where
  "send_invite W i t name k N =
     (let prefix = Some (client_prefix (n_client N i) 320); tn = c_nick (n_client N t);
          N1 = on_sv (\<lambda>sv. srv_send t (reply_line 300 prefix ''INVITE'' [tn] (Some name)) (srv_reply W i ''341'' [tn, name] None sv)) N
      in case k of
           None \<Rightarrow> N1
         | Some ck \<Rightarrow> on_sv (invite_notify i t ck (reply_line 300 prefix ''INVITE'' [tn, name] None)) (netsync_invite i t ck N1))"

definition cmd_invite :: "chan_env \<Rightarrow> client_id \<Rightarrow> irc_message \<Rightarrow> net \<Rightarrow> net" where
  "cmd_invite E i msg N =
     (let W = ce_world E; ps = msg_params msg; cl = n_client N i; oper = has (c_umodes cl) UMODE_O; name = ps ! 1
      in case server_find_user (ps ! 0) (n_sv N) of
           None \<Rightarrow> on_sv (err_no_such_nick W i (ps ! 0)) N
         | Some t \<Rightarrow>
             (let tc = n_client N t
              in if \<not> c_registered tc then on_sv (err_no_such_nick W i (ps ! 0)) N
                 else if \<not> irc_valid_channel name 50 then on_sv (err_no_such_channel W i name) N
                 else if client_is_silencing tc cl then N
                 else if has (c_umodes tc) UMODE_NOPM \<and> \<not> oper \<and> i \<noteq> t
                 then chan_reply E i ''486'' [c_nick tc] ''is not accepting private messages'' N
                 else if has (c_umodes tc) UMODE_REGONLY \<and> c_account cl = [] \<and> \<not> oper \<and> i \<noteq> t
                 then chan_reply E i ''486'' [c_nick tc] ''is only accepting messages from registered users'' N
                 else case server_find_channel name (n_sv N) of
                   None \<Rightarrow> send_invite W i t name None N
                 | Some (k, chan) \<Rightarrow>
                     (case invite_refusal E i t chan N of
                        Some N1 \<Rightarrow> N1
                      | None \<Rightarrow> send_invite W i t (ch_name chan) (Some k)
                                 (if has (ch_modes chan) CMODE_I then on_sv (note_invite t k) N else N))))"

section \<open>What runs every few seconds\<close>

text \<open>The entries of a list from the last one to the first.\<close>

fun tick_masks :: "world \<Rightarrow> string \<Rightarrow> char \<Rightarrow> nat \<Rightarrow> net \<Rightarrow> net" where
  "tick_masks W k c 0 N = N"
| "tick_masks W k c (Suc x) N =
     tick_masks W k c x
       (let chan = chan_of (n_sv N) k
        in case bmask_list c chan of
             None \<Rightarrow> N
           | Some ml \<Rightarrow>
               if \<not> channel_mask_expired ml x (w_now W) then N
               else (let m = clip 256 (me_mask (ml_entries ml ! x))
                     in server_chan_mode W k [CHR ''-'', c] (Some m)
                          (on_sv (on_chan k (set_bmask_list c (snd (masklist_del m ml)))) N)))"

definition tick_flood :: "world \<Rightarrow> string \<Rightarrow> nat \<Rightarrow> net \<Rightarrow> net" where
  "tick_flood W k x N =
     (let chan = chan_of (n_sv N) k
      in case ch_fp chan of
           None \<Rightarrow> N
         | Some f \<Rightarrow>
             if fp_unset_at f ! x = 0 \<or> w_now W < fp_unset_at f ! x then N
             else (let act = fp_action f ! x; b = channel_flag_bit act;
                       N1 = on_sv (on_chan k (\<lambda>c. c\<lparr>ch_fp := Some (f\<lparr>fp_unset_at := (fp_unset_at f)[x := 0]\<rparr>)\<rparr>)) N
                   in if b = 0 \<or> \<not> has (ch_modes chan) b then N1
                      else server_chan_mode W k [CHR ''-'', act] None (on_sv (on_chan k (\<lambda>c. c\<lparr>ch_modes := ch_modes c AND NOT b\<rparr>)) N1)))"

definition list_size :: "char \<Rightarrow> string \<Rightarrow> net \<Rightarrow> nat" where
  "list_size c k N = (case bmask_list c (chan_of (n_sv N) k) of Some ml \<Rightarrow> length (ml_entries ml) | None \<Rightarrow> 0)"

definition tick_channel :: "world \<Rightarrow> string \<Rightarrow> net \<Rightarrow> net" where
  "tick_channel W k N =
     fold (tick_flood W k) [0..<7] (fold (\<lambda>c N. tick_masks W k c (list_size c k N) N) ''beI'' N)"

text \<open>With the time of the last run.\<close>

definition cmd_channels_tick :: "world \<Rightarrow> int \<times> net \<Rightarrow> int \<times> net" where
  "cmd_channels_tick W st =
     (case st of (prev, N) \<Rightarrow>
        if w_now W - prev < 5 then st else (w_now W, fold (tick_channel W) (map fst (sv_channels (n_sv N))) N))"

section \<open>KNOCK and KICK\<close>

definition cmd_knock :: "chan_env \<Rightarrow> client_id \<Rightarrow> irc_message \<Rightarrow> net \<Rightarrow> net" where
  "cmd_knock E i msg N =
     (let W = ce_world E; name = msg_params msg ! 0
      in case server_find_channel name (n_sv N) of
           None \<Rightarrow> on_sv (err_no_such_channel W i name) N
         | Some (k, chan) \<Rightarrow>
             if channel_find_member chan i \<noteq> None then chan_reply E i ''714'' [ch_name chan] ''You are already on that channel'' N
             else if has (ch_modes chan) CMODE_NOKNOCK then chan_reply E i ''480'' [ch_name chan] ''No knocks are allowed! (+K)'' N
             else if \<not> has (ch_modes chan) (CMODE_I OR CMODE_K) then chan_reply E i ''713'' [ch_name chan] ''Channel is open'' N
             else (case channel_flood_event W k CHR ''k'' N of
                     (True, N1) \<Rightarrow> N1
                   | (False, N1) \<Rightarrow>
                       (let prefix = client_prefix (n_client N1 i) 320;
                            N2 = on_sv (\<lambda>sv. fold (\<lambda>(j, m) s. if has (mb_rank m) RANK_OP
                                   then srv_reply W j ''710'' [ch_name chan, prefix] (Some ''has asked for an invite'') s else s)
                                   (ch_members chan) sv) N1
                        in chan_reply E i ''711'' [ch_name chan] ''Your KNOCK has been delivered'' N2)))"

definition kick_refusal :: "chan_env \<Rightarrow> client_id \<Rightarrow> member \<Rightarrow> client_id \<Rightarrow> member \<Rightarrow> channel \<Rightarrow> net \<Rightarrow> net option" where
  "kick_refusal E i me t tm chan N =
     (let W = ce_world E; oper = has (c_umodes (n_client N i)) UMODE_O; no = Some (on_sv (err_not_channel_op W i (ch_name chan)) N)
      in if has (c_umodes (n_client N t)) UMODE_Q \<and> \<not> oper then no
         else if c_is_service (n_client N t) \<and> \<not> c_is_service (n_client N i)
         then Some (chan_reply E i ''484'' [c_nick (n_client N t), ch_name chan] ''Cannot kick or deop a network service'' N)
         else if has (mb_rank me) RANK_HALFOP \<and> \<not> has (mb_rank me) RANK_OP \<and> \<not> oper \<and> has (mb_rank tm) (RANK_OP OR RANK_HALFOP) then no
         else if \<not> oper \<and> channel_rank_level (mb_rank tm) > channel_rank_level (mb_rank me) then no
         else None)"

definition kick_out :: "world \<Rightarrow> client_id \<Rightarrow> client_id \<Rightarrow> string \<Rightarrow> string \<Rightarrow> net \<Rightarrow> net" where
  "kick_out W i t k reason N =
     (let line = reply_line 500 (Some (client_prefix (n_client N i) 320)) ''KICK'' [ch_name (chan_of (n_sv N) k), c_nick (n_client N t)] (Some reason)
      in on_sv (part_channel t k) (netsync_chan_kick k (Some i) t reason (on_sv (server_broadcast_channel W k line None) N)))"

definition cmd_kick :: "chan_env \<Rightarrow> client_id \<Rightarrow> irc_message \<Rightarrow> net \<Rightarrow> net" where
  "cmd_kick E i msg N =
     (let W = ce_world E; ps = msg_params msg; oper = has (c_umodes (n_client N i)) UMODE_O;
          reason = (if length ps > 2 then last ps else c_nick (n_client N i))
      in case server_find_channel (ps ! 0) (n_sv N) of
           None \<Rightarrow> on_sv (err_no_such_channel W i (ps ! 0)) N
         | Some (k, chan) \<Rightarrow>
             (case channel_find_member chan i of
                None \<Rightarrow> on_sv (not_on_channel W i (ch_name chan)) N
              | Some me \<Rightarrow>
                  if \<not> has (mb_rank me) (RANK_OP OR RANK_HALFOP) \<and> \<not> oper then on_sv (err_not_channel_op W i (ch_name chan)) N
                  else if has (ch_modes chan) CMODE_NOKICK \<and> \<not> oper then on_sv (err_not_channel_op W i (ch_name chan)) N
                  else (case server_find_user (ps ! 1) (n_sv N) of
                          None \<Rightarrow> chan_reply E i ''441'' [ps ! 1, ch_name chan] ''They aren't on that channel'' N
                        | Some t \<Rightarrow>
                            (case channel_find_member chan t of
                               None \<Rightarrow> chan_reply E i ''441'' [ps ! 1, ch_name chan] ''They aren't on that channel'' N
                             | Some tm \<Rightarrow>
                                 (case kick_refusal E i me t tm chan N of Some N1 \<Rightarrow> N1 | None \<Rightarrow> kick_out W i t k reason N)))))"

section \<open>The names of a channel\<close>

lemma strtok_snoc: "t \<noteq> [] \<Longrightarrow> SP \<notin> set t \<Longrightarrow> strtok (\<lambda>c. c = SP) t = [t]"
proof -
  assume t: "t \<noteq> []" "SP \<notin> set t"
  then obtain x xs where x: "t = x # xs" "x \<noteq> SP" "SP \<notin> set xs" by (cases t) auto
  have "takeWhile (\<lambda>c. c \<noteq> SP) xs = xs" "dropWhile (\<lambda>c. c \<noteq> SP) xs = []" using x(3) by (auto simp: takeWhile_eq_all_conv dropWhile_eq_Nil_conv)
  moreover have "strtok (\<lambda>c. c = SP) [] = []" by (subst strtok.simps) simp
  ultimately show ?thesis using x(2) unfolding x(1) by (subst strtok.simps) (simp del: takeWhile_eq_all_conv dropWhile_eq_Nil_conv)
qed

lemma strtok_front:
  assumes "t \<noteq> []" "SP \<notin> set t"
  shows "strtok (\<lambda>c. c = SP) (t @ SP # u) = t # strtok (\<lambda>c. c = SP) u"
proof -
  obtain x xs where x: "t = x # xs" "x \<noteq> SP" "SP \<notin> set xs" using assms by (cases t) auto
  have "takeWhile (\<lambda>c. c \<noteq> SP) (xs @ SP # u) = xs" "dropWhile (\<lambda>c. c \<noteq> SP) (xs @ SP # u) = SP # u"
    using x(3) by (auto simp: takeWhile_append dropWhile_append takeWhile_eq_all_conv dropWhile_eq_Nil_conv)
  moreover have "strtok (\<lambda>c. c = SP) (SP # u) = strtok (\<lambda>c. c = SP) u" by (subst (1 2) strtok.simps) simp
  ultimately show ?thesis using x(2) unfolding x(1) by (subst strtok.simps) simp
qed

definition joined :: "string list \<Rightarrow> string" where
  "joined ts = concat (map (\<lambda>t. t @ [SP]) (butlast ts)) @ (if ts = [] then [] else last ts)"

lemma joined_snoc: "joined (ts @ [t]) = (if ts = [] then t else joined ts @ SP # t)"
  by (cases ts rule: rev_cases) (simp_all add: joined_def butlast_append)

lemma strtok_joined: "list_all (\<lambda>t. t \<noteq> [] \<and> SP \<notin> set t) ts \<Longrightarrow> strtok (\<lambda>c. c = SP) (joined ts) = ts"
proof (induction ts)
  case Nil
  show ?case by (subst strtok.simps) (simp add: joined_def)
next
  case (Cons t ts)
  show ?case
  proof (cases "ts = []")
    case True
    then show ?thesis using Cons.prems strtok_snoc [of t] by (simp add: joined_def)
  next
    case False
    then have "joined (t # ts) = t @ SP # joined ts" by (simp add: joined_def)
    then show ?thesis using Cons strtok_front [of t "joined ts"] by simp
  qed
qed

lemma name_lines_spread:
  assumes "list_all (\<lambda>t. t \<noteq> [] \<and> SP \<notin> set t \<and> length t < 400) ts" and "b < 400" and "length cur < 400"
    and "cur = joined us" and "list_all (\<lambda>t. t \<noteq> [] \<and> SP \<notin> set t) us"
  shows "concat (map (strtok (\<lambda>c. c = SP)) (name_lines b ts cur)) = us @ ts \<and> list_all (\<lambda>l. length l < 400) (name_lines b ts cur)"
  using assms
proof (induction ts arbitrary: cur us)
  case Nil
  then show ?case using strtok_joined [of us] by simp
next
  case (Cons t ts)
  have ne: "cur = [] \<longleftrightarrow> us = []"
  proof (cases us rule: rev_cases)
    case (snoc vs v)
    then show ?thesis using Cons.prems(4,5) by (simp add: joined_snoc)
  qed (use Cons.prems(4) in \<open>simp add: joined_def\<close>)
  have t: "t = joined [t]" by (simp add: joined_def)
  show ?case
  proof (cases "cur \<noteq> [] \<and> length cur + length t + 1 > b")
    case True
    from Cons.IH [of t "[t]"] Cons.prems t have
      "concat (map (strtok (\<lambda>c. c = SP)) (name_lines b ts t)) = [t] @ ts \<and> list_all (\<lambda>l. length l < 400) (name_lines b ts t)" by simp
    then show ?thesis using True Cons.prems(3-5) strtok_joined [of us] by simp
  next
    case False
    have j: "(if cur \<noteq> [] then cur @ SP # t else t) = joined (us @ [t])" using ne Cons.prems(4) by (simp add: joined_snoc)
    have l: "length (if cur \<noteq> [] then cur @ SP # t else t) < 400" using False Cons.prems(1,2) by auto
    from Cons.IH [OF _ _ l j] Cons.prems show ?thesis using False by auto
  qed
qed

text \<open>What a client is told by a numeric.\<close>

definition reply_text :: "world \<Rightarrow> client \<Rightarrow> string \<Rightarrow> string list \<Rightarrow> string option \<Rightarrow> string" where
  "reply_text W cl code ps t =
     reply_line 1024 (Some (sc_name (w_cfg W))) code (take IRC_MAX_PARAMS ((if c_nick cl \<noteq> [] then c_nick cl else ''*'') # ps)) t"

lemma reply_out: "sv_out (srv_reply W i code ps t s) = sv_out s @ [To i (reply_text W (sv_client s i) code ps t)]"
  by (simp add: srv_reply_def reply_text_def Let_def srv_send_def emit_def)

lemma replies_out: "sv_out (fold (\<lambda>l. srv_reply W i code ps (Some l)) ls s) = sv_out s @ map (\<lambda>l. To i (reply_text W (sv_client s i) code ps (Some l))) ls \<and>
    sv_q (fold (\<lambda>l. srv_reply W i code ps (Some l)) ls s) = sv_q s"
  by (induction ls arbitrary: s) (auto simp: reply_out)

text \<open>A name that \<open>strtok\<close> gives back whole.\<close>

definition plain_name :: "client \<Rightarrow> bool" where
  "plain_name c \<longleftrightarrow> c_nick c \<noteq> [] \<and> SP \<notin> set (c_nick c @ client_ident c @ c_host c)"

lemma token_plain:
  assumes "plain_name (sv_client sv (fst im))"
  shows "name_token sv cl im \<noteq> [] \<and> SP \<notin> set (name_token sv cl im) \<and> length (name_token sv cl im) < 400"
proof -
  have r: "SP \<notin> set (channel_rank_prefix f b)" for f b
    by (auto simp: channel_rank_prefix_def rank_table_def Let_def dest!: in_set_takeD split: if_splits)
  have c: "SP \<notin> set s \<Longrightarrow> SP \<notin> set (clip n s)" for s n by (auto simp: clip_def dest: in_set_takeD)
  have n: "s \<noteq> [] \<Longrightarrow> clip (NICKLEN + HOSTLEN + 8) s \<noteq> []" for s by (simp add: clip_def NICKLEN_def)
  show ?thesis using assms r unfolding name_token_def Let_def
    by (intro conjI n c) (auto simp: plain_name_def clip_def NICKLEN_def HOSTLEN_def)
qed

text \<open>
  C11. NAMES loses nobody: what a client is sent for a channel are the 353 lines and then the end of
  the list, and splitting the lines at their spaces gives exactly the members the client may see, once
  each and in the order of the channel, with the rank (all ranks with multi-prefix) before the nick and
  user and host behind it if it asked for them; no line runs over its buffer of 400 bytes. This is for
  members whose nick is not empty and whose nick, user and host have no space in them.
\<close>

theorem names_complete:
  assumes "\<forall>(j, m) \<in> set (ch_members (chan_of sv k)). plain_name (sv_client sv j)"
  shows "\<exists>kind ls. sv_out (send_names W i k sv) = sv_out sv @
      map (\<lambda>l. To i (reply_text W (sv_client sv i) ''353'' [kind, ch_name (chan_of sv k)] (Some l))) ls @
      [To i (reply_text W (sv_client sv i) ''366'' [ch_name (chan_of sv k)] (Some ''End of /NAMES list.''))] \<and>
    concat (map (strtok (\<lambda>c. c = SP)) ls) =
      map (\<lambda>(j, m). clip (NICKLEN + HOSTLEN + 8)
          (channel_rank_prefix (mb_rank m) (has (c_caps (sv_client sv i)) CAP_MULTI_PREFIX) @ c_nick (sv_client sv j) @
           (if has (c_caps (sv_client sv i)) CAP_USERHOST_IN_NAMES then ''!'' @ client_ident (sv_client sv j) @ ''@'' @ c_host (sv_client sv j) else [])))
        (filter (\<lambda>(j, m). channel_member_visible (chan_of sv k) j m (map_option (Pair i) (channel_find_member (chan_of sv k) i)))
          (ch_members (chan_of sv k))) \<and>
    list_all (\<lambda>l. length l < 400) ls"
proof -
  let ?cl = "sv_client sv i" and ?chan = "chan_of sv k"
  let ?ms = "shown_names sv i ?chan"
  let ?ls = "name_lines (names_budget W ?cl ?chan) (map (name_token sv ?cl) ?ms) []"
  have "\<forall>im \<in> set ?ms. plain_name (sv_client sv (fst im))" using assms by (auto simp: shown_names_def)
  then have "list_all (\<lambda>t. t \<noteq> [] \<and> SP \<notin> set t \<and> length t < 400) (map (name_token sv ?cl) ?ms)"
    using token_plain by (auto simp: list_all_iff)
  moreover have "names_budget W ?cl ?chan < 400" by (simp add: names_budget_def Let_def)
  ultimately have "concat (map (strtok (\<lambda>c. c = SP)) ?ls) = map (name_token sv ?cl) ?ms \<and> list_all (\<lambda>l. length l < 400) ?ls"
    using name_lines_spread [of _ _ "[]" "[]"] by (simp add: joined_def)
  moreover have "map (name_token sv ?cl) ?ms = map (\<lambda>(j, m). clip (NICKLEN + HOSTLEN + 8)
          (channel_rank_prefix (mb_rank m) (has (c_caps ?cl) CAP_MULTI_PREFIX) @ c_nick (sv_client sv j) @
           (if has (c_caps ?cl) CAP_USERHOST_IN_NAMES then ''!'' @ client_ident (sv_client sv j) @ ''@'' @ c_host (sv_client sv j) else [])))
      (filter (\<lambda>(j, m). channel_member_visible ?chan j m (map_option (Pair i) (channel_find_member ?chan i))) (ch_members ?chan))"
    by (simp add: shown_names_def name_token_def Let_def split_def cong: if_cong)
  ultimately show ?thesis unfolding send_names_def Let_def reply_out
    using replies_out [of W i "''353''" _ ?ls sv] by (intro exI [of _ ?ls] exI) simp
qed


section \<open>Who is on a channel\<close>

definition on_channel :: "server \<Rightarrow> string \<Rightarrow> client_id \<Rightarrow> bool" where
  "on_channel sv k j = (case map_of (sv_channels sv) k of None \<Rightarrow> False | Some c \<Rightarrow> channel_find_member c j \<noteq> None)"

lemma on_channel_cong: "sv_channels s = sv_channels s' \<Longrightarrow> on_channel s k j = on_channel s' k j"
  by (simp add: on_channel_def)

lemma chans_write [simp]: "sv_channels (sv_write i c s) = sv_channels s"
  by (simp add: sv_write_def)

lemma channels_reply [simp]: "sv_channels (srv_reply W i c ps t s) = sv_channels s"
  by (simp add: srv_reply_def Let_def)

lemma net_says [simp]:
  "n_sv (netsync_chan_join k i b N) = n_sv N" "n_sv (netsync_chan_kick k s t r N) = n_sv N" "n_sv (netsync_chan_mode k s m a N) = n_sv N"
  "n_sv (netsync_chan_part k i r2 N) = n_sv N" "n_sv (netsync_invite i t k N) = n_sv N" "n_sv (netsync_chan_rename k i a2 r3 N) = n_sv N"
  "n_sv (netsync_chan_topic k s x N) = n_sv N" "n_sv (netsync_shun m x e r N) = n_sv N"
  by (simp_all add: netsync_chan_join_def netsync_chan_kick_def netsync_chan_mode_def netsync_chan_part_def netsync_invite_def
      netsync_chan_rename_def netsync_chan_topic_def netsync_shun_def broadcast_line_def say_def Let_def)

lemma on_channel_part:
  assumes "k \<in> chan_keys sv"
  shows "on_channel (part_channel t k sv) k' j \<longleftrightarrow> on_channel sv k' j \<and> \<not> (k' = k \<and> j = t)"
proof -
  obtain c where c: "map_of (sv_channels sv) k = Some c" using assms by (auto simp: chan_keys_dom)
  then have co: "chan_of sv k = c" by (simp add: chan_of_def)
  let ?c = "channel_remove_member c t"
  let ?s = "server_detach_membership t k (set_chan k ?c sv)"
  have s: "sv_channels ?s = AList.update k ?c (sv_channels sv)" by (simp add: server_detach_membership_def Let_def set_chan_def)
  have m: "map_of (sv_channels ?s) = (map_of (sv_channels sv))(k \<mapsto> ?c)" unfolding s by (simp add: update_conv')
  have f: "channel_find_member ?c j = (if j = t then None else channel_find_member c j)" for j
    by (simp add: channel_find_member_def channel_remove_member_def delete_conv')
  have co2: "chan_of ?s k = ?c" by (simp add: chan_of_def m)
  show ?thesis
  proof (cases "channel_member_count ?c > 0 \<or> has (ch_modes ?c) CMODE_PERM")
    case True
    then have "part_channel t k sv = ?s" unfolding part_channel_def server_maybe_drop_channel_def Let_def co co2 by auto
    then show ?thesis using c by (simp add: on_channel_def m f)
  next
    case False
    then have p: "part_channel t k sv = ?s\<lparr>sv_channels := AList.delete k (sv_channels ?s)\<rparr>"
      unfolding part_channel_def server_maybe_drop_channel_def Let_def co co2 by simp
    have "ch_members ?c = []" using False by (simp add: channel_member_count_def)
    then have "channel_find_member ?c j = None" for j by (simp add: channel_find_member_def)
    then have "j = t \<or> channel_find_member c j = None" for j using f by metis
    then show ?thesis using c by (auto simp: on_channel_def p m delete_conv')
  qed
qed

lemma on_channel_kick_out:
  assumes "kc \<in> chan_keys (n_sv N)"
  shows "on_channel (n_sv (kick_out W i t kc reason N)) k j \<longleftrightarrow> on_channel (n_sv N) k j \<and> \<not> (k = kc \<and> j = t)"
proof -
  let ?b = "server_broadcast_channel W kc (reply_line 500 (Some (client_prefix (n_client N i) 320)) ''KICK''
    [ch_name (chan_of (n_sv N) kc), c_nick (n_client N t)] (Some reason)) None (n_sv N)"
  have "kc \<in> chan_keys ?b" using assms by (simp add: chan_keys_def)
  from on_channel_part [OF this, of t k j] on_channel_cong [of ?b "n_sv N"]
  show ?thesis by (simp add: kick_out_def Let_def)
qed

text \<open>
  C7. A KICK by somebody who is not an operator of the network takes at most one member out of one
  channel: the user it names, who stands no higher than the kicker, has no kick protection and is
  no service unless the kicker is one; and the kicker is at least a half operator of that channel
  and, if it is no more than that, the user has neither half operator nor operator.
\<close>

theorem kick_only_downward:
  assumes "\<not> has (c_umodes (n_client N i)) UMODE_O"
    and "on_channel (n_sv N) k j" and "\<not> on_channel (n_sv (cmd_kick E i msg N)) k j"
  shows "server_find_user (msg_params msg ! 1) (n_sv N) = Some j \<and>
    level k (n_sv N) j \<le> level k (n_sv N) i \<and> 2 \<le> level k (n_sv N) i \<and>
    \<not> has (c_umodes (n_client N j)) UMODE_Q \<and> (c_is_service (n_client N j) \<longrightarrow> c_is_service (n_client N i)) \<and>
    (level k (n_sv N) i = 2 \<longrightarrow> \<not> member_has (chan_of (n_sv N) k) j (RANK_OP OR RANK_HALFOP))"
proof -
  let ?M = "cmd_kick E i msg N"
  have r: "sv_channels (n_sv (chan_reply E i c ps t N)) = sv_channels (n_sv N)" for c ps t by (simp add: chan_reply_def)
  have e: "sv_channels (err_no_such_channel W i x s) = sv_channels s" "sv_channels (err_not_channel_op W i x s) = sv_channels s"
    "sv_channels (not_on_channel W i x s) = sv_channels s" for W x s
    by (simp_all add: err_no_such_channel_def err_not_channel_op_def not_on_channel_def)
  have refused: "sv_channels (n_sv M) = sv_channels (n_sv N)" if "kick_refusal E i me t tm chan N = Some M" for me t tm chan M
    using that by (auto simp: kick_refusal_def Let_def r e split: if_splits)
  have ne: "sv_channels (n_sv ?M) \<noteq> sv_channels (n_sv N)" using assms(2,3) on_channel_cong by metis
  obtain kc chan where fc: "server_find_channel (msg_params msg ! 0) (n_sv N) = Some (kc, chan)"
    using ne by (cases "server_find_channel (msg_params msg ! 0) (n_sv N)") (auto simp: cmd_kick_def Let_def e)
  have ck: "kc \<in> chan_keys (n_sv N)" "chan_of (n_sv N) kc = chan" using find_channel_key [OF fc] by auto
  obtain me where me: "channel_find_member chan i = Some me"
    using ne fc by (cases "channel_find_member chan i") (auto simp: cmd_kick_def Let_def e)
  have rank: "has (mb_rank me) (RANK_OP OR RANK_HALFOP)"
    using ne fc me assms(1) by (auto simp: cmd_kick_def Let_def e split: if_splits)
  obtain t where t: "server_find_user (msg_params msg ! 1) (n_sv N) = Some t"
    using ne fc me by (cases "server_find_user (msg_params msg ! 1) (n_sv N)") (auto simp: cmd_kick_def Let_def e r split: if_splits)
  obtain tm where tm: "channel_find_member chan t = Some tm"
    using ne fc me t by (cases "channel_find_member chan t") (auto simp: cmd_kick_def Let_def e r split: if_splits)
  have kr: "kick_refusal E i me t tm chan N = None"
    using ne fc me t tm refused by (cases "kick_refusal E i me t tm chan N") (auto simp: cmd_kick_def Let_def e r split: if_splits)
  have M: "\<exists>reason. ?M = kick_out (ce_world E) i t kc reason N"
    using ne fc me t tm kr by (auto simp: cmd_kick_def Let_def e r split: if_splits)
  from on_channel_kick_out [OF ck(1)] have "on_channel (n_sv (kick_out W i t kc reason N)) k j \<longleftrightarrow> on_channel (n_sv N) k j \<and> \<not> (k = kc \<and> j = t)"
    for W reason .
  then have k: "k = kc" and j: "j = t" using M assms(2,3) by auto
  have lv: "level kc (n_sv N) i = channel_rank_level (mb_rank me)" "level kc (n_sv N) t = channel_rank_level (mb_rank tm)"
    using level_found me tm ck(2) by blast+
  have two: "2 \<le> channel_rank_level (mb_rank me)" "channel_rank_level (mb_rank me) = 2 \<longrightarrow> has (mb_rank me) RANK_HALFOP \<and> \<not> has (mb_rank me) RANK_OP"
  proof -
    have "has (mb_rank me) RANK_OP \<or> has (mb_rank me) RANK_HALFOP" using rank by (simp add: bit.conj_disj_distrib or_eq_0_iff)
    then show "2 \<le> channel_rank_level (mb_rank me)" "channel_rank_level (mb_rank me) = 2 \<longrightarrow> has (mb_rank me) RANK_HALFOP \<and> \<not> has (mb_rank me) RANK_OP"
      by (auto simp: channel_rank_level_def)
  qed
  show ?thesis using kr assms(1) two unfolding k j lv t kick_refusal_def Let_def member_has_def ck(2) tm
    by (auto split: if_splits)
qed

section \<open>LIST tells nothing of secret channels\<close>

lemma list_out: "sv_out (fold (\<lambda>(ps, t). srv_reply W i code ps (Some t)) xs s) =
    sv_out s @ map (\<lambda>(ps, t). To i (reply_text W (sv_client s i) code ps (Some t))) xs \<and>
    sv_q (fold (\<lambda>(ps, t). srv_reply W i code ps (Some t)) xs s) = sv_q s"
  by (induction xs arbitrary: s) (auto simp: reply_out)

lemma map_filter_filter: "(\<And>x. \<not> P x \<Longrightarrow> f x = None) \<Longrightarrow> List.map_filter f (filter P xs) = List.map_filter f xs"
  by (induction xs) (auto simp: List.map_filter_simps split: option.split)

definition secret_to :: "client_id \<Rightarrow> channel \<Rightarrow> bool" where
  "secret_to i c \<longleftrightarrow> has (ch_modes c) CMODE_S \<and> channel_find_member c i = None"

text \<open>
  C10. LIST tells nothing of secret channels: whatever is asked for, the answer is to the letter the
  one that would be given if the secret channels the user is not on did not exist.
\<close>

theorem list_blind_to_secret:
  "sv_out (cmd_list W i msg sv) =
   sv_out (cmd_list W i msg (sv\<lparr>sv_channels := filter (\<lambda>(k, c). \<not> secret_to i c) (sv_channels sv)\<rparr>))"
proof -
  let ?f = "list_line_for i (list_query_of (msg_params msg)) \<circ> snd"
  have "List.map_filter ?f (filter (\<lambda>(k, c). \<not> secret_to i c) (sv_channels sv)) = List.map_filter ?f (sv_channels sv)"
    by (rule map_filter_filter) (auto simp: list_line_for_def secret_to_def Let_def)
  then show ?thesis unfolding cmd_list_def reply_out list_out [THEN conjunct1] list_out [THEN conjunct2]
    by (simp add: reply_out)
qed

section \<open>Who gets in\<close>

lemma channels_fbatch [simp]: "sv_channels (server_fbatch_send W i l s) = sv_channels s"
  by (simp add: server_fbatch_send_def Let_def)

lemma channels_tell_join [simp]: "sv_channels (tell_join W c i vm s) = sv_channels s"
  by (simp add: tell_join_def Let_def)

lemma channels_topic [simp]: "sv_channels (send_topic W i c s) = sv_channels s"
  by (simp add: send_topic_def)

lemma channels_names [simp]: "sv_channels (send_names W i k s) = sv_channels s"
proof -
  have "sv_channels (fold (\<lambda>l. srv_reply W i n ps (Some l)) ls s) = sv_channels s" for n ps ls s by (rule channels_fold) simp
  then show ?thesis by (simp add: send_names_def Let_def)
qed

lemma channels_burst [simp]: "sv_channels (send_join_burst W i k s) = sv_channels s"
  by (simp add: send_join_burst_def Let_def)

lemma channels_announce [simp]: "sv_channels (n_sv (cmd_announce_join W k i N)) = sv_channels (n_sv N)"
proof -
  have f: "sv_channels (fold (tell_join W c i) ms s) = sv_channels s" for c ms s by (rule channels_fold) simp
  have "sv_channels (n_sv (announce_join W k i N)) = sv_channels (n_sv N)" by (simp add: announce_join_def Let_def f)
  then show ?thesis by (simp add: cmd_announce_join_def Let_def)
qed

lemma on_channel_set:
  "on_channel (set_chan k c sv) k' j = (if k' = k then channel_find_member c j \<noteq> None else on_channel sv k' j)"
  by (simp add: on_channel_def set_chan_def update_conv')

lemma on_channel_chan: "k \<in> chan_keys sv \<Longrightarrow> on_channel sv k j = (channel_find_member (chan_of sv k) j \<noteq> None)"
  by (auto simp: on_channel_def chan_keys_Some)

lemma on_channel_same:
  assumes "k \<in> chan_keys sv" "ch_members (f (chan_of sv k)) = ch_members (chan_of sv k)"
  shows "on_channel (on_chan k f sv) k' j = on_channel sv k' j"
  using on_channel_chan [OF assms(1)] assms(2) by (simp add: on_chan_def on_channel_set channel_find_member_def)

lemma keys_on_chan [simp]: "chan_keys (on_chan k f sv) = insert k (chan_keys sv)"
  by (simp add: on_chan_def)

lemma keys_cong: "sv_channels s = sv_channels s' \<Longrightarrow> chan_keys s = chan_keys s'"
  by (simp add: chan_keys_def)

lemma channels_server_mode [simp]: "sv_channels (n_sv (server_chan_mode W k m a N)) = sv_channels (n_sv N)"
  by (simp add: server_chan_mode_def Let_def split: option.split)

lemma channels_notify [simp]: "sv_channels (server_notify_opers W m s) = sv_channels s"
proof -
  have "sv_channels (fold (\<lambda>(_, i) s. if P i s then notice_self W i t s else s) us s) = sv_channels s" for P t and us :: "(string \<times> nat) list" and s
    by (rule channels_fold) (auto simp: notice_self_def Let_def)
  then show ?thesis unfolding server_notify_opers_def Let_def by (simp split: prod.split option.split)
qed

lemma keys_unchanged [simp]: "chan_keys (server_notify_opers W m s) = chan_keys s" "chan_keys (n_sv (server_chan_mode W k c a N)) = chan_keys (n_sv N)"
  by (simp_all add: chan_keys_def)

lemma on_channel_unchanged [simp]: "on_channel (server_notify_opers W m s) k j = on_channel s k j"
  "on_channel (n_sv (server_chan_mode W kk c a N)) k j = on_channel (n_sv N) k j"
  by (simp_all add: on_channel_def)

lemma on_channel_fields:
  "k \<in> chan_keys s \<Longrightarrow> on_channel (on_chan k (\<lambda>c. c\<lparr>ch_fp := F\<rparr>) s) k' j = on_channel s k' j"
  "k \<in> chan_keys s \<Longrightarrow> on_channel (on_chan k (\<lambda>c. c\<lparr>ch_modes := M c\<rparr>) s) k' j = on_channel s k' j"
  by (simp_all add: on_channel_same)

lemma on_channel_flood:
  assumes "k \<in> chan_keys (n_sv N)"
  shows "on_channel (n_sv (snd (channel_flood_event W k t N))) k' j = on_channel (n_sv N) k' j"
  using assms unfolding channel_flood_event_def Let_def
  by (auto simp: on_channel_fields split: option.split prod.split)

lemma on_channel_enter:
  "on_channel (n_sv (enter W b k i f N)) k' j =
     (if k' = k then channel_find_member (f (chan_of (n_sv N) k)) j \<noteq> None else on_channel (n_sv N) k' j)"
proof -
  let ?N = "on_sv (\<lambda>sv. server_attach_membership i k (on_chan k f sv)) N"
  have "sv_channels (n_sv (enter W b k i f N)) = sv_channels (n_sv ?N)" by (simp add: enter_def)
  moreover have "sv_channels (n_sv ?N) = sv_channels (on_chan k f (n_sv N))" by (simp add: server_attach_membership_def Let_def)
  ultimately have "on_channel (n_sv (enter W b k i f N)) k' j = on_channel (on_chan k f (n_sv N)) k' j" by (simp add: on_channel_def)
  then show ?thesis by (simp add: on_chan_def on_channel_set)
qed

lemma find_added: "channel_find_member (set_member (channel_add_member c i) i m) j = (if j = i then Some m else channel_find_member c j)"
  by (auto simp: channel_find_member_def set_member_def channel_add_member_def update_conv' map_add_def split: option.split)

lemma on_channel_finish:
  assumes "k \<in> chan_keys (n_sv N)"
  shows "on_channel (n_sv (finish_join E b oper k i N)) k' j \<longleftrightarrow> on_channel (n_sv N) k' j \<or> (k' = k \<and> j = i)"
proof -
  obtain key cl1 where ik: "client_invite_key (n_client N i) = (key, cl1)" by force
  let ?N = "enter (ce_world E) b k i (\<lambda>c. (new_joiner b i c)\<lparr>ch_invited := channel_invite_remove key (ch_invited c)\<rparr>) (on_sv (sv_write i cl1) N)"
  have f: "channel_find_member ((new_joiner b i c)\<lparr>ch_invited := x\<rparr>) j = (if j = i then channel_find_member (new_joiner b i c) i else channel_find_member c j)"
    "channel_find_member (new_joiner b i c) i \<noteq> None" for c x j
    using find_added by (simp_all add: new_joiner_def Let_def channel_find_member_def)
  have c: "chan_of (sv_write i cl1 s) k = chan_of s k" for s by (simp add: chan_of_def)
  have o: "on_channel (n_sv ?N) k' j \<longleftrightarrow> on_channel (n_sv N) k' j \<or> (k' = k \<and> j = i)" for j
    using f on_channel_chan [OF assms] on_channel_cong [of "sv_write i cl1 (n_sv N)" "n_sv N"] by (simp add: on_channel_enter c)
  have "on_channel (n_sv ?N) k i" using f(2) on_channel_enter by (simp add: f(1))
  then have kk: "k \<in> chan_keys (n_sv ?N)" by (auto simp: on_channel_def chan_keys_dom split: option.splits)
  show ?thesis
  proof (cases "\<not> b \<and> \<not> oper")
    case True
    then have "finish_join E b oper k i N = snd (channel_flood_event (ce_world E) k CHR ''j'' ?N)"
      by (simp add: finish_join_def Let_def ik)
    then show ?thesis by (simp only: on_channel_flood [OF kk] o)
  next
    case False
    then have "finish_join E b oper k i N = ?N" by (auto simp: finish_join_def Let_def ik)
    then show ?thesis by (simp only: o)
  qed
qed

text \<open>What a client must have, or a channel must not have, for a join to be let through.\<close>

definition admitted :: "client \<Rightarrow> channel \<Rightarrow> string option \<Rightarrow> bool" where
  "admitted cl chan key \<longleftrightarrow>
     (has (ch_modes chan) CMODE_I \<longrightarrow> invited cl chan) \<and>
     (has (ch_modes chan) CMODE_K \<longrightarrow> ch_key chan = [] \<or> key = Some (ch_key chan)) \<and>
     (has (ch_modes chan) CMODE_L \<longrightarrow> ch_limit chan \<le> 0 \<or> int (channel_member_count chan) < ch_limit chan) \<and>
     \<not> banned cl chan \<and>
     (has (ch_modes chan) CMODE_Z \<longrightarrow> has (c_umodes cl) UMODE_Z) \<and>
     (has (ch_modes chan) CMODE_REGONLY \<longrightarrow> c_account cl \<noteq> []) \<and>
     \<not> has (ch_modes chan) CMODE_OPERONLY \<and>
     length (c_channels cl) < MAX_CHANNELS_PER_CLIENT"

definition alike :: "net \<Rightarrow> net \<Rightarrow> bool" where
  "alike N M \<longleftrightarrow> sv_channels (n_sv M) = sv_channels (n_sv N) \<and> sv_q (n_sv M) = sv_q (n_sv N)"

lemma alike_reply: "alike N (chan_reply E i c ps t N)" "alike N (on_sv (err_no_such_channel W i x) N)"
  by (simp_all add: alike_def chan_reply_def err_no_such_channel_def)

text \<open>A refusal changes nothing, or goes on to the channel of a redirect.\<close>

definition went :: "(string \<Rightarrow> net \<Rightarrow> net) option \<Rightarrow> net \<Rightarrow> net \<Rightarrow> bool" where
  "went r N M \<longleftrightarrow> alike N M \<or> (\<exists>go name N'. r = Some go \<and> M = go name N' \<and> alike N N')"

lemma redirected: "try_redirect E r i chan f N = Some M \<Longrightarrow> \<exists>go name N'. r = Some go \<and> M = go name N' \<and> alike N N'"
  unfolding try_redirect_def Let_def by (auto split: if_splits option.splits) (blast intro: alike_reply)+

lemma went_or_reply: "went r N (or_reply E i c chan t N (try_redirect E r i chan f N))" "went r N (or_reply E i c chan t N None)"
  "went r N (chan_reply E i c ps t N)"
  using redirected by (auto simp: went_def or_reply_def alike_reply split: option.split)

lemma went_forward: "went r N (or_reply E i c chan t N (case f of None \<Rightarrow> None | Some d \<Rightarrow> try_redirect E r i chan (Some d) N))"
  by (cases f) (simp_all only: option.case went_or_reply)

lemma some_if: "went r N x \<Longrightarrow> y = Some M \<longrightarrow> went r N M \<Longrightarrow> (if b then Some x else y) = Some M \<longrightarrow> went r N M"
  by auto

lemma refusal_went: "join_refusal E r i k key N = Some M \<longrightarrow> went r N M"
  unfolding join_refusal_def Let_def
  by (rule some_if, rule went_or_reply)
     (rule some_if, rule went_or_reply, rule some_if, rule went_or_reply, rule some_if, rule went_forward,
      rule some_if, rule went_or_reply, rule some_if, rule went_or_reply, rule some_if, rule went_or_reply, simp)

lemma refusal_none:
  "join_refusal E r i k key N = None \<Longrightarrow> length (c_channels (n_client N i)) < MAX_CHANNELS_PER_CLIENT \<Longrightarrow>
   admitted (n_client N i) (chan_of (n_sv N) k) key"
  unfolding join_refusal_def Let_def admitted_def by (auto split: if_splits)

lemma alike_admitted:
  "alike N M \<Longrightarrow> admitted (n_client M i) (chan_of (n_sv M) k) key = admitted (n_client N i) (chan_of (n_sv N) k) key"
  using chan_of_cong [of "n_sv M" "n_sv N" k] by (simp add: alike_def)

lemma join_passes:
  assumes "\<not> alike N (join_with E r i name key N)" and "\<not> has (c_umodes (n_client N i)) UMODE_O"
  shows "length (c_channels (n_client N i)) < MAX_CHANNELS_PER_CLIENT"
    and "server_find_channel name (n_sv N) = None \<Longrightarrow> join_with E r i name key N =
      (let (k, sv1) = server_get_or_create_channel (ce_world E) name (n_sv N) in finish_join E True False k i (N\<lparr>n_sv := sv1\<rparr>))"
    and "server_find_channel name (n_sv N) = Some (k, chan) \<Longrightarrow> join_with E r i name key N =
      (case join_refusal E r i k key N of
         Some N1 \<Rightarrow> N1
       | None \<Rightarrow>
           if has (ch_modes chan) CMODE_JTHROT \<and> ch_jt_joins chan > 0
           then (let (c1, over) = throttle_count (w_now (ce_world E)) chan; N1 = on_sv (on_chan k (\<lambda>_. c1)) N
                 in if over
                    then chan_reply E i ''471'' [ch_name chan] ''Cannot join channel (+j, joining too fast -- try again shortly)'' N1
                    else finish_join E False False k i N1)
           else finish_join E False False k i N)"
proof -
  have b1: "irc_valid_channel name 50" by (rule ccontr) (use assms(1) in \<open>simp add: join_with_def alike_reply\<close>)
  have b2: "\<not> (case ce_debug E of None \<Rightarrow> False | Some d \<Rightarrow> irc_casefold CHAN_NAMELEN name = irc_casefold CHAN_NAMELEN d)"
    by (rule notI) (use assms b1 in \<open>simp add: join_with_def alike_reply\<close>)
  have b3: "\<not> (case server_find_channel name (n_sv N) of None \<Rightarrow> False | Some (k, c) \<Rightarrow> channel_find_member c i \<noteq> None)"
    by (rule notI) (use assms b1 b2 in \<open>simp add: join_with_def alike_reply\<close>)
  show b4: "length (c_channels (n_client N i)) < MAX_CHANNELS_PER_CLIENT"
    by (rule ccontr) (use assms b1 b2 b3 in \<open>simp add: join_with_def alike_reply\<close>)
  show "join_with E r i name key N =
      (let (k, sv1) = server_get_or_create_channel (ce_world E) name (n_sv N) in finish_join E True False k i (N\<lparr>n_sv := sv1\<rparr>))"
    if f: "server_find_channel name (n_sv N) = None"
  proof -
    have "\<not> (ce_restrict E \<and> \<not> list_ex (\<lambda>a. strcaseeq a name) (ce_allowed E))"
      by (rule notI) (use assms b1 b2 b4 f in \<open>simp add: join_with_def alike_reply\<close>)
    then show ?thesis using assms(2) b1 b2 b4 f by (auto simp: join_with_def Let_def)
  qed
  show "join_with E r i name key N =
      (case join_refusal E r i k key N of
         Some N1 \<Rightarrow> N1
       | None \<Rightarrow>
           if has (ch_modes chan) CMODE_JTHROT \<and> ch_jt_joins chan > 0
           then (let (c1, over) = throttle_count (w_now (ce_world E)) chan; N1 = on_sv (on_chan k (\<lambda>_. c1)) N
                 in if over
                    then chan_reply E i ''471'' [ch_name chan] ''Cannot join channel (+j, joining too fast -- try again shortly)'' N1
                    else finish_join E False False k i N1)
           else finish_join E False False k i N)"
    if f: "server_find_channel name (n_sv N) = Some (k, chan)"
    using assms(2) b1 b2 b3 b4 f by (simp add: join_with_def)
qed

lemma join_cases:
  assumes "\<not> has (c_umodes (n_client N i)) UMODE_O" and "k' \<in> chan_keys (n_sv N)"
    and "\<not> on_channel (n_sv N) k' i" and "on_channel (n_sv (join_with E r i name key N)) k' i"
  shows "admitted (n_client N i) (chan_of (n_sv N) k') key \<or>
    (\<exists>go name' N'. r = Some go \<and> join_with E r i name key N = go name' N' \<and> alike N N')"
proof -
  let ?M = "join_with E r i name key N"
  have na: "\<not> alike N ?M" using assms(3,4) on_channel_cong by (metis alike_def)
  note p = join_passes [OF na assms(1)]
  show ?thesis
  proof (cases "server_find_channel name (n_sv N)")
    case None
    obtain k sv1 where g: "server_get_or_create_channel (ce_world E) name (n_sv N) = (k, sv1)" by force
    have "?M = finish_join E True False k i (N\<lparr>n_sv := sv1\<rparr>)"
      using p(2) [OF None] g by simp
    moreover have g2: "k = irc_casefold CHAN_NAMELEN name" "map_of (sv_channels (n_sv N)) k = None" "k \<in> chan_keys sv1"
      "map_of (sv_channels sv1) = (map_of (sv_channels (n_sv N)))(k \<mapsto> chan_of sv1 k)"
      using g None by (auto simp: server_get_or_create_channel_def server_find_channel_def Let_def chan_keys_dom chan_of_def map_add_def split: option.split)
    moreover have "k' \<noteq> k" using assms(2) g2(2) by (auto simp: chan_keys_dom)
    moreover from this g2(4) have "on_channel sv1 k' i = on_channel (n_sv N) k' i" by (simp add: on_channel_def)
    ultimately show ?thesis using assms(3,4) on_channel_finish [of k "N\<lparr>n_sv := sv1\<rparr>" E True False i k' i] by simp
  next
    case (Some kc)
    obtain k chan where kc: "kc = (k, chan)" by force
    have key: "k \<in> chan_keys (n_sv N)" "chan_of (n_sv N) k = chan" using find_channel_key Some kc by auto
    show ?thesis
    proof (cases "join_refusal E r i k key N")
      case (Some M)
      then have "?M = M" using p(3) \<open>server_find_channel name (n_sv N) = Some kc\<close> kc by simp
      then show ?thesis using refusal_went [THEN mp, OF Some] na by (simp add: went_def)
    next
      case none: None
      have ad: "admitted (n_client N i) (chan_of (n_sv N) k) key" by (rule refusal_none [OF none p(1)])
      obtain c1 over where t: "throttle_count (w_now (ce_world E)) chan = (c1, over)" by force
      have mt: "ch_members c1 = ch_members chan" using t by (auto simp: throttle_count_def Let_def)
      let ?N1 = "on_sv (on_chan k (\<lambda>_. c1)) N"
      have o1: "on_channel (n_sv ?N1) k' i = on_channel (n_sv N) k' i" "k \<in> chan_keys (n_sv ?N1)"
        using key mt by (simp_all add: on_channel_same)
      have "?M = finish_join E False False k i N \<or> ?M = finish_join E False False k i ?N1 \<or> (\<exists>c ps t. ?M = chan_reply E i c ps t ?N1)"
        unfolding p(3) [OF Some [unfolded kc]] none option.case Let_def t prod.case by (simp split: if_split) blast
      moreover have "on_channel (n_sv (chan_reply E i c ps t ?N1)) k' i = on_channel (n_sv ?N1) k' i" for c ps t
        by (rule on_channel_cong) (simp add: chan_reply_def)
      ultimately have "k' = k" using assms(3,4) o1 on_channel_finish [OF key(1)] on_channel_finish [OF o1(2)] by auto
      then show ?thesis using ad by blast
    qed
  qed
qed

text \<open>
  C6. Nobody but a network operator gets into an existing channel by JOIN, or by the redirect a JOIN
  leads to, without what the channel asks for: an invitation under +i, the key under +k (a redirect
  has none to give), room under +l, no ban that is not excepted, a secure connection under +z, an
  account under +R, and never under +O; nor when it is in 200 channels already.
\<close>

theorem join_needs_admission:
  assumes "\<not> has (c_umodes (n_client N i)) UMODE_O" and "k \<in> chan_keys (n_sv N)"
    and "\<not> on_channel (n_sv N) k i" and "on_channel (n_sv (do_join_one E i name key N)) k i"
  shows "admitted (n_client N i) (chan_of (n_sv N) k) key \<or> admitted (n_client N i) (chan_of (n_sv N) k) None"
proof -
  let ?go = "\<lambda>name. join_with E None i name None"
  consider "admitted (n_client N i) (chan_of (n_sv N) k) key"
    | (hop) name' N' where "do_join_one E i name key N = join_with E None i name' None N'" "alike N N'"
    using join_cases [OF assms(1-3), of E "Some ?go" name key] assms(4) unfolding do_join_one_def by blast
  then show ?thesis
  proof cases
    case hop
    have "\<not> has (c_umodes (n_client N' i)) UMODE_O" "k \<in> chan_keys (n_sv N')" "\<not> on_channel (n_sv N') k i"
      using assms(1-3) hop(2) on_channel_cong [of "n_sv N'" "n_sv N" k i] keys_cong [of "n_sv N'" "n_sv N"] by (simp_all add: alike_def)
    from join_cases [OF this, of E None name' None] assms(4) hop(1) alike_admitted [OF hop(2)] show ?thesis by simp
  qed simp
qed

section \<open>Small runs\<close>

definition demo_env :: chan_env where
  "demo_env = \<lparr>ce_world = demo_world, ce_regex = \<lparr>rx_comp = \<lambda>p. None, rx_exec = \<lambda>p t. False\<rparr>,
     ce_spam = \<lparr>sp_enabled = True, sp_filters_enabled = True, sp_has_path = False, sp_exempt_opers = True,
       sp_exempt_identified = True, sp_new_user_period = 0, sp_max_targets = 0, sp_max_repeat = 0, sp_target_window = 0, sp_trust_age = 0,
       sp_zline_duration = 0, sp_limit_action = ''block''\<rparr>, ce_debug = None, ce_restrict = False, ce_allowed = []\<rparr>"

definition demo_hall :: net where
  "demo_hall = on_sv (\<lambda>sv. sv\<lparr>sv_users := [(''ann'', 3)],
       sv_channels := [(''#den'', demo_den\<lparr>ch_members := [(4, new_member\<lparr>mb_rank := RANK_HALFOP\<rparr>), (3, new_member)]\<rparr>), (''#hall'', channel_new ''#hall'' ''#hall'' 8)],
       sv_q := \<lparr>ev_clients = [(4, demo_user), (3, demo_user)], ev_dirty = [], ev_dead = []\<rparr>\<rparr>) demo_halfop"

definition demo_kick :: irc_message where
  "demo_kick = \<lparr>msg_tags = [], msg_prefix = None, msg_command = ''KICK'', msg_params = [''#den'', ''Ann'', ''out'']\<rparr>"

lemma demo_hall_facts:
  "server_find_channel ''#den'' (n_sv demo_hall) = Some (''#den'', demo_den\<lparr>ch_members := [(4, new_member\<lparr>mb_rank := RANK_HALFOP\<rparr>), (3, new_member)]\<rparr>)"
  "server_find_channel ''#hall'' (n_sv demo_hall) = Some (''#hall'', channel_new ''#hall'' ''#hall'' 8)"
  "server_find_user ''Ann'' (n_sv demo_hall) = Some 3"
  "n_client demo_hall 4 = demo_user" "n_client demo_hall 3 = demo_user" "\<not> has (c_umodes demo_user) UMODE_O" "\<not> c_is_service demo_user"
  "\<not> has (c_umodes demo_user) UMODE_Q" "c_channels demo_user = []" "c_caps demo_user = 0"
proof -
  have c: "irc_casefold CHAN_NAMELEN ''#den'' = ''#den''" "irc_casefold CHAN_NAMELEN ''#hall'' = ''#hall''" "irc_casefold NICKLEN ''Ann'' = ''ann''"
    by code_simp+
  show "server_find_channel ''#den'' (n_sv demo_hall) = Some (''#den'', demo_den\<lparr>ch_members := [(4, new_member\<lparr>mb_rank := RANK_HALFOP\<rparr>), (3, new_member)]\<rparr>)"
    "server_find_channel ''#hall'' (n_sv demo_hall) = Some (''#hall'', channel_new ''#hall'' ''#hall'' 8)"
    "server_find_user ''Ann'' (n_sv demo_hall) = Some 3" "n_client demo_hall 4 = demo_user" "n_client demo_hall 3 = demo_user"
    by (simp_all add: server_find_channel_def server_find_user_def Let_def c demo_hall_def ev_client_def)
qed (simp_all add: demo_user_def client_new_def umode_bits)

definition demo_named :: server where
  "demo_named = (n_sv demo_hall)\<lparr>sv_q := \<lparr>ev_clients = [(4, demo_user\<lparr>c_nick := ''Zoe''\<rparr>), (3, demo_user\<lparr>c_nick := ''Ann''\<rparr>)], ev_dirty = [], ev_dead = []\<rparr>\<rparr>"

theorem names_complete_witness:
  "\<exists>kind ls. sv_out (send_names demo_world 3 ''#den'' demo_named) =
     sv_out demo_named @ map (\<lambda>l. To 3 (reply_text demo_world (sv_client demo_named 3) ''353'' [kind, ''#den''] (Some l))) ls @
     [To 3 (reply_text demo_world (sv_client demo_named 3) ''366'' [''#den''] (Some ''End of /NAMES list.''))] \<and>
   concat (map (strtok (\<lambda>c. c = SP)) ls) = [''%Zoe'', ''Ann'']"
proof -
  let ?c = "chan_of demo_named ''#den''"
  have c: "?c = demo_den\<lparr>ch_members := [(4, new_member\<lparr>mb_rank := RANK_HALFOP\<rparr>), (3, new_member)]\<rparr>"
    by (simp add: demo_named_def demo_hall_def chan_of_def)
  have cl: "sv_client demo_named 4 = demo_user\<lparr>c_nick := ''Zoe''\<rparr>" "sv_client demo_named 3 = demo_user\<lparr>c_nick := ''Ann''\<rparr>"
    by (simp_all add: demo_named_def ev_client_def)
  have r: "channel_rank_prefix RANK_HALFOP False = ''%''" "channel_rank_prefix 0 False = []" by code_simp+
  have n: "ch_name ?c = ''#den''" by (simp add: c demo_den_def channel_new_def clip_def CHAN_NAMELEN_def)
  have d: "ch_modes ?c = 0" by (simp add: c demo_den_def channel_new_def)
  have i: "SP \<notin> set (irc_ident_for 66 [] False)" by code_simp
  have p: "\<forall>(j, m) \<in> set (ch_members ?c). plain_name (sv_client demo_named j)"
    by (simp add: c cl plain_name_def client_ident_def demo_user_def client_new_def i)
  have v: "channel_member_visible ?c j m v" if "\<not> mb_hidden m" for j m v
    unfolding channel_member_visible_def using that d by simp
  have h: "\<not> mb_hidden new_member" "mb_rank new_member = 0" "c_caps (demo_user\<lparr>c_nick := x\<rparr>) = 0" for x
    using demo_hall_facts(10) by (simp_all add: new_member_def)
  have m: "ch_members ?c = [(4, new_member\<lparr>mb_rank := RANK_HALFOP\<rparr>), (3, new_member)]" by (simp add: c)
  have l: "map (\<lambda>(j, m). clip (NICKLEN + HOSTLEN + 8)
          (channel_rank_prefix (mb_rank m) (has (c_caps (sv_client demo_named 3)) CAP_MULTI_PREFIX) @ c_nick (sv_client demo_named j) @
           (if has (c_caps (sv_client demo_named 3)) CAP_USERHOST_IN_NAMES then ''!'' @ client_ident (sv_client demo_named j) @ ''@'' @ c_host (sv_client demo_named j) else [])))
        (filter (\<lambda>(j, m). channel_member_visible ?c j m (map_option (Pair 3) (channel_find_member ?c 3))) (ch_members ?c)) = [''%Zoe'', ''Ann'']"
    unfolding m using v h r by (simp add: cl clip_def NICKLEN_def HOSTLEN_def)
  show ?thesis using names_complete [OF p, of demo_world 3] unfolding l n by blast
qed

theorem kick_only_downward_witness: "level ''#den'' (n_sv demo_hall) 3 \<le> level ''#den'' (n_sv demo_hall) 4"
proof -
  let ?c = "demo_den\<lparr>ch_members := [(4, new_member\<lparr>mb_rank := RANK_HALFOP\<rparr>), (3, new_member)]\<rparr>"
  note f = demo_hall_facts
  have m: "channel_find_member ?c 4 = Some (new_member\<lparr>mb_rank := RANK_HALFOP\<rparr>)" "channel_find_member ?c 3 = Some new_member"
    by (simp_all add: channel_find_member_def demo_den_def)
  have d: "ch_modes ?c = 0" by (simp add: demo_den_def channel_new_def)
  have l: "channel_rank_level (mb_rank new_member) = 0" "RANK_HALFOP \<noteq> 0" "\<not> has (mb_rank new_member) (RANK_OP OR RANK_HALFOP)"
    by (simp_all add: new_member_def channel_rank_level_def rank_bits)
  have "cmd_kick demo_env 4 demo_kick demo_hall = kick_out (ce_world demo_env) 4 3 ''#den'' ''out'' demo_hall"
    by (simp add: cmd_kick_def demo_kick_def f m d l kick_refusal_def Let_def nth_Cons_Suc)
  moreover have k: "''#den'' \<in> chan_keys (n_sv demo_hall)" using find_channel_key [OF f(1)] by blast
  ultimately have n: "\<not> on_channel (n_sv (cmd_kick demo_env 4 demo_kick demo_hall)) ''#den'' 3" using on_channel_kick_out [OF k] by simp
  have "on_channel (n_sv demo_hall) ''#den'' 3" using on_channel_chan [OF k] find_channel_key [OF f(1)] m by simp
  from kick_only_downward [OF _ this n] show ?thesis using f by simp
qed

theorem join_needs_admission_witness: "admitted demo_user (channel_new ''#hall'' ''#hall'' 8) None"
proof -
  let ?c = "channel_new ''#hall'' ''#hall'' 8"
  note f = demo_hall_facts
  have k: "''#hall'' \<in> chan_keys (n_sv demo_hall)" "chan_of (n_sv demo_hall) ''#hall'' = ?c" using find_channel_key [OF f(2)] by blast+
  have v: "irc_valid_channel ''#hall'' 50" by code_simp
  have e: "ch_modes ?c = 0" "ch_bans ?c = empty_masklist" "ch_members ?c = []" by (simp_all add: channel_new_def)
  have "join_refusal demo_env r 3 ''#hall'' None demo_hall = None" for r
    by (simp add: join_refusal_def Let_def k e banned_def channel_is_banned_def empty_masklist_def)
  then have j: "do_join_one demo_env 3 ''#hall'' None demo_hall = finish_join demo_env False False ''#hall'' 3 demo_hall"
    by (simp add: do_join_one_def join_with_def Let_def f v e demo_env_def channel_find_member_def MAX_CHANNELS_PER_CLIENT_def)
  have a: "on_channel (n_sv (do_join_one demo_env 3 ''#hall'' None demo_hall)) ''#hall'' 3" unfolding j on_channel_finish [OF k(1)] by simp
  have b: "\<not> on_channel (n_sv demo_hall) ''#hall'' 3" using on_channel_chan [OF k(1)] k e by (simp add: channel_find_member_def)
  from join_needs_admission [OF _ k(1) b a] f show ?thesis by (simp add: k(2))
qed

end
