(* ===== verification/Chanorder.thy ===== *)
theory Chanorder
  imports Chancmd
begin

text \<open>
  The channel commands keep the registries in order: whatever a connected client sends, no registry
  names a freed client, a channel and its members name each other, and the tree of servers stands.
\<close>

section \<open>Steps of a client that is there\<close>

definition sane :: "client_id \<Rightarrow> net \<Rightarrow> bool" where
  "sane i N \<longleftrightarrow> server_ok (n_sv N) \<and> i \<in> live (n_sv N)"

lemma sane_calm: "sane i N \<Longrightarrow> calm N M \<Longrightarrow> sane i M"
  by (simp add: sane_def calm_def keeps_def)

lemma calm_then: "sane i N \<Longrightarrow> calm N M \<Longrightarrow> (sane i M \<Longrightarrow> calm M K) \<Longrightarrow> calm N K"
  using sane_calm calm_trans by blast

lemma calm_fold: "(\<And>x M. sane i M \<Longrightarrow> calm M (f x M)) \<Longrightarrow> sane i N \<Longrightarrow> calm N (fold f xs N)"
proof (induction xs arbitrary: N)
  case (Cons x xs)
  show ?case unfolding fold_Cons comp_apply
    by (rule calm_then [OF Cons.prems(2) Cons.prems(1) [OF Cons.prems(2)]], rule Cons.IH [OF Cons.prems(1)], assumption, assumption)
qed simp

lemma calm_on_sv: "steady (n_sv N) (f (n_sv N)) \<Longrightarrow> calm N (on_sv f N)"
  by (rule calm_steady) simp_all

lemma steady_reply [steady_intros]: "steady sv s \<Longrightarrow> steady sv (srv_reply W i c ps t s)"
  by (simp add: srv_reply_def Let_def steady_intros)

lemma steady_errors [steady_intros]:
  "steady sv s \<Longrightarrow> steady sv (err_no_such_channel W i x s)" "steady sv s \<Longrightarrow> steady sv (err_not_channel_op W i x s)"
  "steady sv s \<Longrightarrow> steady sv (err_no_such_nick W i x s)" "steady sv s \<Longrightarrow> steady sv (not_on_channel W i x s)"
  by (simp_all add: err_no_such_channel_def err_not_channel_op_def err_no_such_nick_def not_on_channel_def steady_intros)

lemma calm_reply: "calm N (chan_reply E i c ps t N)"
  by (auto simp: chan_reply_def intro!: calm_on_sv steady_intros)

lemma link_view_says [simp]:
  "link_view (netsync_chan_join k i b N) = link_view N" "link_view (netsync_chan_kick k s t r N) = link_view N"
  "link_view (netsync_chan_mode k s m a N) = link_view N" "link_view (netsync_chan_part k i r2 N) = link_view N"
  "link_view (netsync_invite i t k N) = link_view N" "link_view (netsync_chan_rename k i a2 r3 N) = link_view N"
  "link_view (netsync_chan_topic k s x N) = link_view N" "link_view (netsync_shun m x e r N) = link_view N"
  "link_view (netsync_user_modes i N) = link_view N" "link_view (netsync_user_chghost i N) = link_view N"
  "link_view (netsync_encap W i t c ps N) = link_view N"
  by (simp_all add: netsync_chan_join_def netsync_chan_kick_def netsync_chan_mode_def netsync_chan_part_def netsync_invite_def
      netsync_chan_rename_def netsync_chan_topic_def netsync_shun_def broadcast_line_def netsync_user_modes_def netsync_user_chghost_def
      netsync_encap_def say_def Let_def split: option.split)

lemma self_says [simp]:
  "n_self (netsync_chan_join k i b N) = n_self N" "n_self (netsync_chan_kick k s t r N) = n_self N"
  "n_self (netsync_chan_mode k s m a N) = n_self N" "n_self (netsync_chan_part k i r2 N) = n_self N"
  "n_self (netsync_invite i t k N) = n_self N" "n_self (netsync_chan_rename k i a2 r3 N) = n_self N"
  "n_self (netsync_chan_topic k s x N) = n_self N" "n_self (netsync_shun m x e r N) = n_self N"
  "n_self (netsync_user_modes i N) = n_self N" "n_self (netsync_user_chghost i N) = n_self N"
  "n_self (netsync_encap W i t c ps N) = n_self N"
  by (simp_all add: netsync_chan_join_def netsync_chan_kick_def netsync_chan_mode_def netsync_chan_part_def netsync_invite_def
      netsync_chan_rename_def netsync_chan_topic_def netsync_shun_def broadcast_line_def netsync_user_modes_def netsync_user_chghost_def
      netsync_encap_def say_def Let_def split: option.split)

lemma says_user [simp]: "n_sv (netsync_user_modes i N) = n_sv N" "n_sv (netsync_user_chghost i N) = n_sv N"
  by (simp_all add: netsync_user_modes_def netsync_user_chghost_def say_def Let_def)

lemma calm_says:
  "calm N (netsync_chan_join k i b N)" "calm N (netsync_chan_kick k s t r N)" "calm N (netsync_chan_mode k s m a N)"
  "calm N (netsync_chan_part k i r2 N)" "calm N (netsync_invite i t k N)" "calm N (netsync_chan_rename k i a2 r3 N)"
  "calm N (netsync_chan_topic k s x N)" "calm N (netsync_shun m x e r N)" "calm N (netsync_user_modes i N)"
  "calm N (netsync_user_chghost i N)"
  by (rule calm_frame; simp)+

lemma calm_ask: "calm N (netsync_encap W i t c ps N)"
proof (rule calm_steady)
  show "steady (n_sv N) (n_sv (netsync_encap W i t c ps N))"
    by (auto simp: netsync_encap_def Let_def split: option.split intro!: steady_intros)
qed simp_all

section \<open>Joining\<close>

lemma steady_names [steady_intros]: "steady sv s \<Longrightarrow> steady sv (send_names W i k s)"
  unfolding send_names_def Let_def by (intro steady_intros steady_fold)

lemma steady_topic [steady_intros]: "steady sv s \<Longrightarrow> steady sv (send_topic W i c s)"
  unfolding send_topic_def by (auto intro!: steady_intros)

lemma steady_join_burst [steady_intros]: "steady sv s \<Longrightarrow> steady sv (send_join_burst W i k s)"
  unfolding send_join_burst_def Let_def by (auto intro!: steady_intros)

lemma calm_announce_join:
  assumes "k \<in> chan_keys (n_sv N)"
  shows "calm N (cmd_announce_join W k i N)"
proof (rule calm_steady)
  have a: "steady (n_sv N) (n_sv (announce_join W k i N))" by (rule steady_announce) (use assms in simp_all)
  then show "steady (n_sv N) (n_sv (cmd_announce_join W k i N))"
    by (auto simp: cmd_announce_join_def Let_def intro: steady_intros)
qed (simp_all add: cmd_announce_join_def Let_def)

lemma calm_server_mode: "calm N (server_chan_mode W k m a N)"
proof (rule calm_steady)
  show "steady (n_sv N) (n_sv (server_chan_mode W k m a N))"
    by (auto simp: server_chan_mode_def Let_def split: option.split intro!: steady_intros)
qed (simp_all add: server_chan_mode_def Let_def split: option.split)

lemma calm_enter:
  assumes s: "sane i N" and k: "k \<in> chan_keys (n_sv N)" and n: "i \<notin> set (member_ids (chan_of (n_sv N) k))"
    and f: "member_ids (f (chan_of (n_sv N) k)) = member_ids (chan_of (n_sv N) k) @ [i]"
  shows "calm N (enter W b k i f N)"
proof -
  let ?M = "on_sv (\<lambda>sv. server_attach_membership i k (on_chan k f sv)) N"
  have "calm N ?M" using s k n f by (intro calm_on_sv steady_join) (simp_all add: sane_def)
  moreover have "k \<in> chan_keys (n_sv ?M)"
    using k by (simp add: server_attach_membership_def Let_def chan_keys_def sv_write_def on_chan_def set_chan_def image_iff map_of_update dom_update)
  then have "calm ?M (cmd_announce_join W k i ?M)" by (rule calm_announce_join)
  ultimately show ?thesis unfolding enter_def using calm_trans calm_says(1) by blast
qed

lemma calm_flood_event:
  assumes "k \<in> chan_keys (n_sv N)"
  shows "calm N (snd (channel_flood_event W k t N))"
proof -
  have set: "calm M (on_sv (on_chan k f) M)" if "k \<in> chan_keys (n_sv M)" "\<And>c. member_ids (f c) = member_ids c" for M f
    using that by (intro calm_on_sv steady_intros) simp_all
  have store: "calm M (on_sv (on_chan k (\<lambda>c. c\<lparr>ch_fp := F\<rparr>)) M)" if "k \<in> chan_keys (n_sv M)" for M F
    by (rule set [OF that]) simp
  have mode: "calm N (on_sv (on_chan k (\<lambda>c. c\<lparr>ch_fp := F\<rparr>)) (on_sv (server_notify_opers W nt)
      (server_chan_mode W k m None (on_sv (on_chan k (\<lambda>c. c\<lparr>ch_modes := ch_modes c OR b\<rparr>)) N))))" for F nt m b
  proof (rule calm_trans, rule calm_trans, rule calm_trans)
    show "calm N (on_sv (on_chan k (\<lambda>c. c\<lparr>ch_modes := ch_modes c OR b\<rparr>)) N)" using assms by (rule set) simp
    show "calm M (server_chan_mode W k m None M)" for M by (rule calm_server_mode)
    show "calm M (on_sv (server_notify_opers W nt) M)" for M by (intro calm_on_sv steady_intros)
    show "calm (on_sv (server_notify_opers W nt) (server_chan_mode W k m None (on_sv (on_chan k (\<lambda>c. c\<lparr>ch_modes := ch_modes c OR b\<rparr>)) N)))
       (on_sv (on_chan k (\<lambda>c. c\<lparr>ch_fp := F\<rparr>)) (on_sv (server_notify_opers W nt)
      (server_chan_mode W k m None (on_sv (on_chan k (\<lambda>c. c\<lparr>ch_modes := ch_modes c OR b\<rparr>)) N))))"
      using assms by (intro store) simp
  qed
  show ?thesis unfolding channel_flood_event_def Let_def
    by (auto simp: split_def intro!: store [OF assms] mode split: option.split)
qed

lemma on_key: "server_find_channel name sv = Some (k, c) \<Longrightarrow> k \<in> chan_keys sv"
  using find_channel_key by blast

lemma not_member: "channel_find_member c i = None \<longleftrightarrow> i \<notin> set (member_ids c)"
  using member_found [of c i] by auto

lemma joiner_members: "i \<notin> set (member_ids c) \<Longrightarrow> member_ids ((new_joiner b i c)\<lparr>ch_invited := x\<rparr>) = member_ids c @ [i]"
  by (simp add: new_joiner_def Let_def member_ids_set member_ids_add)

lemma calm_either: "calm N K \<Longrightarrow> calm N J \<Longrightarrow> calm N (if P then J else K)"
  by simp

lemma calm_finish:
  assumes s: "sane i N" and k: "k \<in> chan_keys (n_sv N)" and n: "i \<notin> set (member_ids (chan_of (n_sv N) k))"
  shows "calm N (finish_join E b oper k i N)"
proof -
  obtain key cl1 where ik: "client_invite_key (n_client N i) = (key, cl1)" by force
  let ?f = "\<lambda>c. (new_joiner b i c)\<lparr>ch_invited := channel_invite_remove key (ch_invited c)\<rparr>"
  let ?M = "on_sv (sv_write i cl1) N"
  let ?K = "enter (ce_world E) b k i ?f ?M"
  have 1: "calm N ?M" by (rule calm_on_sv, rule steady_write) (use s invite_key_regs [OF ik] in \<open>simp_all add: sane_def\<close>)
  have c: "chan_of (n_sv ?M) k = chan_of (n_sv N) k" "k \<in> chan_keys (n_sv ?M)" using k by (simp_all add: chan_of_def chan_keys_def)
  have "calm ?M ?K" by (rule calm_enter [OF sane_calm [OF s 1] c(2)]) (use n c(1) joiner_members in simp_all)
  then have 2: "calm N ?K" using 1 calm_trans by blast
  have "on_channel (n_sv ?K) k i"
    unfolding on_channel_enter using joiner_members [OF n, where b = b] c(1) member_found [of "?f (chan_of (n_sv N) k)" i] by simp
  then have "k \<in> chan_keys (n_sv ?K)" by (auto simp: on_channel_def chan_keys_dom split: option.splits)
  then have "calm N (snd (channel_flood_event (ce_world E) k CHR ''j'' ?K))" using calm_flood_event 2 calm_trans by blast
  with 2 show ?thesis unfolding finish_join_def Let_def ik prod.case by (rule calm_either)
qed

lemma calm_force_join:
  assumes "sane i N"
  shows "calm N (cmd_force_join W i name N)"
proof -
  obtain k sv1 where g: "server_get_or_create_channel W name (n_sv N) = (k, sv1)" by force
  note c = steady_create [of "n_sv N" "n_sv N" W name, simplified, unfolded g, simplified]
  have 1: "calm N (N\<lparr>n_sv := sv1\<rparr>)" using c by (intro calm_steady) simp_all
  have "calm (N\<lparr>n_sv := sv1\<rparr>) (enter W b k i (\<lambda>c. set_member (channel_add_member c i) i m) (N\<lparr>n_sv := sv1\<rparr>))"
    if "channel_find_member (chan_of sv1 k) i = None" for b m
    by (rule calm_enter [OF sane_calm [OF assms 1]]) (use c that in \<open>simp_all add: not_member member_ids_set member_ids_add\<close>)
  then show ?thesis using calm_trans [OF 1] 1 by (simp add: cmd_force_join_def Let_def g)
qed


lemma calm_errors:
  "calm N (on_sv (err_no_such_channel W i x) N)" "calm N (on_sv (err_not_channel_op W i x) N)"
  "calm N (on_sv (err_no_such_nick W i x) N)" "calm N (on_sv (not_on_channel W i x) N)"
  by (intro calm_on_sv steady_intros)+

lemma calm_or_reply: "(\<And>M. r = Some M \<Longrightarrow> calm N M) \<Longrightarrow> calm N (or_reply E i c chan t N r)"
  by (simp add: or_reply_def calm_reply split: option.split)

definition goes :: "client_id \<Rightarrow> (string \<Rightarrow> net \<Rightarrow> net) option \<Rightarrow> bool" where
  "goes i redirect \<longleftrightarrow> (\<forall>go name M. redirect = Some go \<longrightarrow> sane i M \<longrightarrow> calm M (go name M))"

lemma calm_redirect:
  assumes "sane i N" and "goes i redirect" and "try_redirect E redirect i chan fwd N = Some M"
  shows "calm N M"
proof -
  obtain go d t where g: "redirect = Some go" "M = go d (chan_reply E i ''470'' [ch_name chan, d] t N)"
    using assms(3) unfolding try_redirect_def Let_def by (auto split: if_splits option.splits)
  show ?thesis unfolding g(2)
    by (rule calm_then [OF assms(1) calm_reply [of N E i "''470''" "[ch_name chan, d]" t]]) (use assms(2) g(1) in \<open>simp add: goes_def\<close>)
qed

definition bland :: "net \<Rightarrow> net option \<Rightarrow> bool" where
  "bland N r \<longleftrightarrow> (\<forall>M. r = Some M \<longrightarrow> calm N M)"

lemma bland_intros: "bland N None" "calm N A \<Longrightarrow> bland N (Some A)" "bland N x \<Longrightarrow> bland N y \<Longrightarrow> bland N (if P then x else y)"
  by (simp_all add: bland_def)

lemma bland_reply: "bland N r \<Longrightarrow> calm N (or_reply E i c chan t N r)"
  by (auto simp: bland_def intro: calm_or_reply)

lemma bland_redirect: "sane i N \<Longrightarrow> goes i redirect \<Longrightarrow> bland N (try_redirect E redirect i chan fwd N)"
  using calm_redirect by (simp add: bland_def)

lemma bland_forward: "sane i N \<Longrightarrow> goes i redirect \<Longrightarrow> bland N (case x of None \<Rightarrow> None | Some d \<Rightarrow> try_redirect E redirect i chan (Some d) N)"
  by (cases x) (simp_all add: bland_redirect bland_intros)

lemma bland_refusal:
  assumes "sane i N" and "goes i redirect"
  shows "bland N (join_refusal E redirect i k key N)"
  unfolding join_refusal_def Let_def by (intro bland_intros calm_reply bland_reply bland_redirect [OF assms] bland_forward [OF assms])

lemma calm_join_with:
  assumes s: "sane i N" and go: "goes i redirect"
  shows "calm N (join_with E redirect i name key N)"
proof -
  have new: "calm N (finish_join E True b k i (N\<lparr>n_sv := sv1\<rparr>))"
    if f: "server_find_channel name (n_sv N) = None" and g: "server_get_or_create_channel W name (n_sv N) = (k, sv1)" for W b k sv1
  proof -
    note c = steady_create [of "n_sv N" "n_sv N" W name, simplified, unfolded g, simplified]
    have 1: "calm N (N\<lparr>n_sv := sv1\<rparr>)" using c by (intro calm_steady) simp_all
    have "member_ids (chan_of sv1 k) = []"
      using f g by (auto simp: server_get_or_create_channel_def server_find_channel_def Let_def chan_of_def channel_new_def member_ids_def map_add_def split: option.splits)
    then show ?thesis by (intro calm_then [OF s 1] calm_finish) (use c in simp_all)
  qed
  have old: "calm N (finish_join E False b k i N)"
    if "server_find_channel name (n_sv N) = Some (k, chan)" "channel_find_member chan i = None" for b k chan
    using that s by (intro calm_finish) (auto dest!: find_channel_key simp: not_member)
  have throttled: "calm N (case throttle_count (w_now W) chan of (c1, over) \<Rightarrow>
       let N1 = on_sv (on_chan k (\<lambda>_. c1)) N
       in if over then chan_reply E i c ps t N1 else finish_join E False b k i N1)"
    if f: "server_find_channel name (n_sv N) = Some (k, chan)" and n: "channel_find_member chan i = None" for W b k chan c ps t
  proof -
    obtain c1 over where e: "throttle_count (w_now W) chan = (c1, over)" by force
    let ?M = "on_sv (on_chan k (\<lambda>_. c1)) N"
    have kc: "k \<in> chan_keys (n_sv N)" "chan_of (n_sv N) k = chan" using find_channel_key [OF f] by simp_all
    have m: "member_ids c1 = member_ids chan" using e by (auto simp: throttle_count_def Let_def member_ids_def split: if_splits)
    have 1: "calm N ?M" using kc m by (intro calm_on_sv) (simp add: on_chan_def steady_set_chan)
    have "calm ?M (finish_join E False b k i ?M)"
      by (rule calm_finish [OF sane_calm [OF s 1]]) (use kc m n in \<open>simp_all add: on_chan_def not_member\<close>)
    then show ?thesis unfolding e prod.case Let_def
      by (intro calm_either calm_trans [OF 1] calm_reply)
  qed
  show ?thesis
  proof (cases "server_find_channel name (n_sv N)")
    case None
    show ?thesis unfolding join_with_def Let_def None option.case
      by (intro calm_either calm_errors calm_reply) (auto simp: split_def intro!: new [OF None] simp del: server_get_or_create_channel_def)
  next
    case (Some kc)
    obtain k chan where kc: "kc = (k, chan)" by force
    note f = Some [unfolded kc]
    have body: "calm N (if b then finish_join E False a k i N
        else case join_refusal E redirect i k key N of Some N1 \<Rightarrow> N1
          | None \<Rightarrow> if P then (case throttle_count (w_now (ce_world E)) chan of (c1, over) \<Rightarrow>
              let N1 = on_sv (on_chan k (\<lambda>_. c1)) N in if over then chan_reply E i c ps t N1 else finish_join E False a k i N1)
            else finish_join E False a k i N)" if "channel_find_member chan i = None" for a b P c ps t
      using bland_refusal [OF s go, of E k key] old [OF f that] throttled [OF f that]
      by (auto simp: bland_def split: option.split)
    show ?thesis
    proof (cases "channel_find_member chan i = None")
      case True
      show ?thesis unfolding join_with_def Let_def f option.case prod.case
        by (intro calm_either calm_errors calm_reply body [unfolded Let_def] True)
    next
      case False
      then show ?thesis unfolding join_with_def Let_def f option.case prod.case by (simp add: calm_errors calm_reply)
    qed
  qed
qed

lemma calm_join_one: "sane i N \<Longrightarrow> calm N (do_join_one E i name key N)"
  unfolding do_join_one_def by (intro calm_join_with) (auto simp: goes_def intro!: calm_join_with)

section \<open>The spam filters\<close>

lemma steady_drop:
  assumes "steady sv (sv\<lparr>sv_q := q\<rparr>)" and "i \<in> live sv"
  shows "steady sv (sv\<lparr>sv_q := client_mark_quit i (ev_write q i ((ev_client q i)\<lparr>c_quit_reason := x\<rparr>))\<rparr>)"
proof -
  have "steady sv (sv\<lparr>sv_q := q\<rparr>\<lparr>sv_q := client_mark_quit i (sv_q (change_client i (\<lambda>c. c\<lparr>c_quit_reason := x\<rparr>) (sv\<lparr>sv_q := q\<rparr>)))\<rparr>)"
  proof -
    have "steady sv ((change_client i (\<lambda>c. c\<lparr>c_quit_reason := x\<rparr>) (sv\<lparr>sv_q := q\<rparr>))\<lparr>sv_q := client_mark_quit i (sv_q (change_client i (\<lambda>c. c\<lparr>c_quit_reason := x\<rparr>) (sv\<lparr>sv_q := q\<rparr>)))\<rparr>)"
      using assms by (intro steady_intros) simp_all
    then show ?thesis by (simp add: change_client_def sv_write_def)
  qed
  then show ?thesis by (simp add: change_client_def sv_write_def)
qed

lemma steady_same_ip: "steady sv (sv\<lparr>sv_q := q\<rparr>) \<Longrightarrow> set is \<subseteq> live sv \<Longrightarrow> steady sv (sv\<lparr>sv_q := drop_same_ip me ip r is q\<rparr>)"
  by (induction "is" arbitrary: q) (simp_all add: Let_def steady_drop)

lemma steady_action:
  assumes "steady sv (sv\<lparr>sv_q := ss_q ss\<rparr>)" and "i \<in> live sv" and "set all \<subseteq> live sv"
  shows "steady sv (sv\<lparr>sv_q := ss_q (fst (snd (apply_action cfg now all i act d r w t quiet ss)))\<rparr>)"
  using assms unfolding apply_action_def Let_def
  by (cases act) (simp_all add: steady_drop steady_same_ip split_def)

lemma steady_check:
  assumes "i \<in> live sv" and "set all \<subseteq> live sv" and "ss_q ss = sv_q sv"
  shows "steady sv (sv\<lparr>sv_q := ss_q (fst (snd (spam_check_text R cfg now all i kind txt ss)))\<rparr>)"
  using assms by (auto simp: spam_check_text_def run_filters_def intro!: steady_action split: option.split)

definition still :: "net \<Rightarrow> net \<Rightarrow> bool" where
  "still N M \<longleftrightarrow> n_self M = n_self N \<and> link_view M = link_view N \<and> steady (n_sv N) (n_sv M)"

lemma still_calm: "still N M \<Longrightarrow> calm N M"
  by (simp add: still_def calm_steady)

lemma still_trans: "still N M \<Longrightarrow> still M K \<Longrightarrow> still N K"
  by (auto simp: still_def intro: steady_trans)

lemma still_fold: "(\<And>x M. still M (f x M)) \<Longrightarrow> still N (fold f xs N)"
proof (induction xs arbitrary: N)
  case (Cons x xs)
  show ?case unfolding fold_Cons comp_apply by (rule still_trans [OF Cons.prems]) (rule Cons.IH [OF Cons.prems])
qed (simp add: still_def)

lemma still_tell: "still N (spam_tell W i e N)"
  by (auto simp: spam_tell_def still_def intro!: steady_intros split: spam_output.split)

lemma still_keys: "still N M \<Longrightarrow> server_ok (n_sv N) \<Longrightarrow> k \<in> chan_keys (n_sv N) \<Longrightarrow> k \<in> chan_keys (n_sv M)"
  by (auto simp: still_def steady_def)

lemma still_check:
  assumes "sane i N"
  shows "still N (fst (snd (check_text E i kind t (N, ss))))"
proof -
  obtain v ss1 outs where e: "spam_check_text (ce_regex E) (ce_spam E) (w_now (ce_world E)) (sv_all (n_sv N)) i kind t
      (ss\<lparr>ss_lines := sv_lines (n_sv N), ss_q := sv_q (n_sv N)\<rparr>) = (v, ss1, outs)" by (metis prod_cases3)
  have "set (sv_all (n_sv N)) \<subseteq> live (n_sv N)" using assms by (simp add: sane_def server_ok_def conns_ok_def)
  from steady_check [OF _ this, of i "ss\<lparr>ss_lines := sv_lines (n_sv N), ss_q := sv_q (n_sv N)\<rparr>" "ce_regex E" "ce_spam E" "w_now (ce_world E)" kind t]
  have "steady (n_sv N) (n_sv N\<lparr>sv_q := ss_q ss1\<rparr>)" using assms by (simp add: e sane_def)
  then have "steady (n_sv N) (n_sv N\<lparr>sv_q := ss_q ss1\<rparr>\<lparr>sv_lines := ss_lines ss1\<rparr>)" by (rule steady_lines)
  moreover have "s\<lparr>sv_q := a\<rparr>\<lparr>sv_lines := b\<rparr> = s\<lparr>sv_lines := b, sv_q := a\<rparr>" for s :: server and a b by simp
  ultimately have "steady (n_sv N) ((n_sv N)\<lparr>sv_lines := ss_lines ss1, sv_q := ss_q ss1\<rparr>)" by metis
  then have 1: "still N (on_sv (\<lambda>sv. sv\<lparr>sv_lines := ss_lines ss1, sv_q := ss_q ss1\<rparr>) N)" by (simp add: still_def)
  have "still M (fold (spam_tell (ce_world E) i) outs M)" for M by (rule still_fold [OF still_tell])
  then show ?thesis using still_trans [OF 1] by (simp add: check_text_def e)
qed

lemma calm_check: "sane i N \<Longrightarrow> calm N (fst (snd (check_text E i kind t (N, ss))))"
  using still_check still_calm by blast

section \<open>Leaving\<close>

lemma calm_left:
  assumes "sane i N" and "server_find_channel name (n_sv N) = Some (k, chan)" and "channel_find_member chan i \<noteq> None"
    and "n_self M = n_self N" "link_view M = link_view N" "steady (n_sv N) s" "sv_channels s = sv_channels (n_sv N)"
    and f: "f (n_sv M) = part_channel i k s"
  shows "calm N (on_sv f M)"
proof -
  note k = find_channel_key [OF assms(2)]
  have "keeps (n_sv N) (part_channel i k s)"
    by (rule keeps_part [OF assms(6)])
      (use assms(1,3) k chan_of_cong [OF assms(7), of k] member_found [of chan i] in \<open>simp_all add: sane_def\<close>)
  then show ?thesis using assms(4,5) f by (simp add: calm_def link_view_def on_sv_def)
qed

lemma calm_part_one:
  assumes "sane i N"
  shows "calm N (part_one W i reason tok N)"
proof (cases "server_find_channel tok (n_sv N)")
  case (Some kc)
  obtain k chan where kc: "kc = (k, chan)" by force
  show ?thesis
  proof (cases "channel_find_member chan i")
    case (Some m)
    let ?s = "\<lambda>l. fold (\<lambda>vm s. if channel_member_visible chan i m (Some vm) then srv_send (fst vm) l s else s) (ch_members chan)
      (server_history_event W k l (n_sv N))"
    have sv: "n_sv (netsync_chan_part k i reason N) = n_sv N" by (simp add: netsync_chan_part_def say_def Let_def)
    have "calm N (on_sv (\<lambda>sv. part_channel i k (fold (\<lambda>vm s. if channel_member_visible chan i m (Some vm) then srv_send (fst vm) l s else s)
      (ch_members chan) (server_history_event W k l sv))) (netsync_chan_part k i reason N))" for l
    proof (rule calm_left [OF assms \<open>server_find_channel tok (n_sv N) = Some kc\<close> [unfolded kc]])
      show "steady (n_sv N) (?s l)" by (rule steady_fold) (auto intro: steady_intros)
      show "sv_channels (?s l) = sv_channels (n_sv N)" by (rule trans [OF channels_fold]) auto
    qed (use Some sv in simp_all)
    then show ?thesis unfolding part_one_def Let_def \<open>server_find_channel tok (n_sv N) = Some kc\<close> kc option.case prod.case Some .
  qed (use Some in \<open>simp add: part_one_def kc calm_errors\<close>)
qed (simp add: part_one_def calm_errors)

lemma calm_cmd_part:
  assumes "sane i (fst st)"
  shows "calm (fst st) (fst (cmd_part E i msg st))"
proof -
  obtain N ss where st: "st = (N, ss)" by force
  have s: "sane i N" using assms st by simp
  have 1: "calm N (fst (snd (check_text E i SPAM_T_PART t (N, ss))))" for t using s by (rule calm_check)
  have 2: "calm M (fold (part_one (ce_world E) i r) ts M)" if "sane i M" for r ts M
    by (rule calm_fold [OF calm_part_one that])
  show ?thesis unfolding cmd_part_def Let_def st
    by (auto simp: split_def intro: 2 s calm_trans [OF 1] sane_calm [OF s 1])
qed

lemma calm_fold_pair:
  assumes "\<And>x st. sane i (fst st) \<Longrightarrow> calm (fst st) (fst (f x st))" and "sane i (fst st)"
  shows "calm (fst st) (fst (fold f xs st))"
  using assms(2)
proof (induction xs arbitrary: st)
  case (Cons x xs)
  show ?case unfolding fold_Cons comp_apply
    by (rule calm_then [OF Cons.prems assms(1) [OF Cons.prems]]) (rule Cons.IH)
qed simp

lemma calm_cmd_join: "sane i (fst st) \<Longrightarrow> calm (fst st) (fst (cmd_join E i msg st))"
  unfolding cmd_join_def Let_def
  by (auto intro!: calm_fold_pair calm_cmd_part calm_fold simp: calm_join_one split: prod.split)

section \<open>Overrides, topics, invitations and kicks\<close>

lemma found_live: "server_ok sv \<Longrightarrow> server_find_user n sv = Some t \<Longrightarrow> t \<in> live sv"
  using users_okD(1) [of sv] by (auto simp: server_ok_def server_find_user_def)

lemma sane_user: "sane i N \<Longrightarrow> server_find_user n (n_sv N) = Some t \<Longrightarrow> sane t N"
  using found_live by (auto simp: sane_def)

lemma calm_override: "calm N (override_done W i t a b c d N)"
  by (auto simp: override_done_def intro!: calm_trans [OF calm_on_sv calm_on_sv] steady_intros)

lemma calm_fold_names:
  assumes "\<And>x st. sane t (snd st) \<Longrightarrow> calm (snd st) (snd (f x st))" and "sane t (snd st)"
  shows "calm (snd st) (snd (fold f xs st))"
  using assms(2)
proof (induction xs arbitrary: st)
  case (Cons x xs)
  show ?case unfolding fold_Cons comp_apply
    by (rule calm_then [OF Cons.prems assms(1) [OF Cons.prems]]) (rule Cons.IH)
qed simp

lemma calm_sajoin:
  assumes "sane i N"
  shows "calm N (cmd_sajoin W i msg N)"
proof -
  have one: "calm (snd st) (snd (sajoin_one W t x st))" if "sane t (snd st)" for t x st
    using that by (cases st) (simp add: sajoin_one_def calm_force_join)
  have all: "calm N (snd (fold (sajoin_one W t) xs (a, N)))" if "sane t N" for t xs a
    using calm_fold_names [of t "sajoin_one W t" "(a, N)", OF one] that by simp
  show ?thesis unfolding cmd_sajoin_def Let_def
    by (auto simp: calm_errors calm_ask split_def split: option.split intro!: calm_trans [OF all calm_override] dest: sane_user [OF assms])
qed

lemma calm_sapart:
  assumes "sane i N"
  shows "calm N (cmd_sapart W i msg N)"
proof -
  have one: "calm (snd st) (snd (sapart_one W t r x st))" if "sane t (snd st)" for t r x st
  proof (cases "server_find_channel x (n_sv (snd st))")
    case (Some kc)
    obtain k chan where kc: "server_find_channel x (n_sv (snd st)) = Some (k, chan)" using Some by (cases kc) simp
    have n: "n_sv (netsync_chan_part k t z M) = n_sv M" for z M by (simp add: netsync_chan_part_def say_def Let_def)
    have "calm (snd st) (on_sv (part_channel t k) (netsync_chan_part k t z (on_sv (server_broadcast_channel W k l None) (snd st))))"
      if "channel_find_member chan t \<noteq> None" for z l
      by (rule calm_left [OF \<open>sane t (snd st)\<close> kc that]) (auto simp: n intro!: steady_intros)
    then show ?thesis using kc by (cases st) (auto simp: sapart_one_def Let_def)
  qed (cases st; simp add: sapart_one_def)
  have all: "calm N (snd (fold (sapart_one W t r) xs (a, N)))" if "sane t N" for t r xs a
    using calm_fold_names [of t "sapart_one W t r" "(a, N)", OF one] that by simp
  show ?thesis unfolding cmd_sapart_def Let_def
    by (auto simp: calm_errors calm_ask split_def split: option.split intro!: calm_trans [OF all calm_override] dest: sane_user [OF assms])
qed

lemma calm_on_known: "k \<in> chan_keys (n_sv N) \<Longrightarrow> (\<And>c. member_ids (f c) = member_ids c) \<Longrightarrow> calm N (on_sv (on_chan k f) N)"
  by (intro calm_on_sv steady_intros)

lemma calm_set_topic:
  assumes "sane i N" and "k \<in> chan_keys (n_sv N)" and "\<And>c. member_ids (f c) = member_ids c"
  shows "calm N (netsync_chan_topic k s x (on_sv (server_broadcast_channel W k l e) (on_sv (on_chan k f) N)))"
  using assms by (intro calm_trans [OF calm_trans [OF calm_on_known calm_on_sv] calm_says(7)] steady_intros)

lemma calm_topic_cmd:
  assumes "sane i (fst st)"
  shows "calm (fst st) (fst (cmd_topic E i msg st))"
proof -
  obtain N ss where st: "st = (N, ss)" by force
  have s: "sane i N" using assms st by simp
  obtain v N1 ss1 where c: "check_text E i SPAM_T_TOPIC (last (msg_params msg)) (N, ss) = (v, N1, ss1)" by (metis prod_cases3)
  note q = still_check [OF s, of E SPAM_T_TOPIC "last (msg_params msg)" ss, unfolded c, simplified]
  have t: "calm N (netsync_chan_topic k z x (on_sv (server_broadcast_channel W k l e) (on_sv (on_chan k f) N1)))"
    if "k \<in> chan_keys (n_sv N)" "\<And>c. member_ids (f c) = member_ids c" for k z x W l e f
    using calm_trans [OF still_calm [OF q] calm_set_topic [OF sane_calm [OF s still_calm [OF q]] still_keys [OF q] that(2)]] s that(1)
    by (simp add: sane_def)
  show ?thesis unfolding cmd_topic_def Let_def st prod.case c
    by (auto simp: calm_errors still_calm [OF q] intro!: t calm_on_sv steady_intros dest: on_key split: option.split bool.split)
qed

lemma steady_told [steady_intros]:
  "steady sv s \<Longrightarrow> steady sv (fold (\<lambda>(j, m) s. if P j m then srv_reply W j c ps t s else s) ms s)"
  by (rule steady_fold) (auto intro: steady_intros)

lemma calm_knock: "calm N (cmd_knock E i msg N)"
proof (cases "server_find_channel (msg_params msg ! 0) (n_sv N)")
  case (Some kc)
  obtain k chan where kc: "server_find_channel (msg_params msg ! 0) (n_sv N) = Some (k, chan)" using Some by (cases kc) simp
  obtain b N1 where f: "channel_flood_event (ce_world E) k CHR ''k'' N = (b, N1)" by force
  have 1: "calm N N1" using calm_flood_event [OF on_key [OF kc], of "ce_world E" "CHR ''k''"] f by simp
  have 2: "calm N1 (chan_reply E i c ps t (on_sv g N1))" if "steady (n_sv N1) (g (n_sv N1))" for c ps t g
    by (rule calm_trans [OF calm_on_sv calm_reply]) (rule that)
  show ?thesis unfolding cmd_knock_def Let_def kc option.case prod.case f
    by (auto simp: calm_reply 1 split: bool.split intro!: calm_trans [OF 1 2] steady_intros)
qed (simp add: cmd_knock_def Let_def calm_errors)

lemma steady_invite_notify [steady_intros]: "steady sv s \<Longrightarrow> steady sv (invite_notify i t k l s)"
  unfolding invite_notify_def by (rule steady_fold) (auto intro: steady_intros)

lemma calm_send_invite: "calm N (send_invite W i t name k N)"
proof -
  have n: "n_sv (netsync_invite i t k M) = n_sv M" for k M by (simp add: netsync_invite_def say_def Let_def)
  have 1: "calm M (on_sv (invite_notify i t ck l) (netsync_invite i t ck M))" for ck l M
    by (rule calm_trans [OF calm_says(5) calm_on_sv]) (intro steady_intros)
  show ?thesis unfolding send_invite_def Let_def
    by (auto intro!: calm_trans [OF calm_on_sv 1] calm_on_sv steady_intros split: option.split)
qed

lemma calm_invite_cmd:
  assumes "sane i N"
  shows "calm N (cmd_invite E i msg N)"
proof (cases "server_find_user (msg_params msg ! 0) (n_sv N)")
  case (Some t)
  note t = sane_user [OF assms Some]
  have r: "bland N (invite_refusal E i t chan N)" for chan
    unfolding invite_refusal_def Let_def by (intro bland_intros calm_errors calm_reply)
  have inv: "calm N (send_invite W i t name (Some k) (on_sv (note_invite t k) N))"
    if "k \<in> chan_keys (n_sv N)" for W name k
  proof -
    have "calm N (on_sv (note_invite t k) N)"
      by (rule calm_on_sv, rule steady_note_invite) (use t that in \<open>simp_all add: sane_def\<close>)
    then show ?thesis by (rule calm_trans [OF _ calm_send_invite])
  qed
  show ?thesis unfolding cmd_invite_def Let_def Some option.case
    using r by (auto simp: bland_def calm_errors calm_reply intro!: calm_send_invite inv dest: on_key split: option.split)
qed (simp add: cmd_invite_def calm_errors)

lemma calm_cmd_kick:
  assumes "sane i N"
  shows "calm N (cmd_kick E i msg N)"
proof (cases "server_find_channel (msg_params msg ! 0) (n_sv N)")
  case (Some kc)
  obtain k chan where kc: "server_find_channel (msg_params msg ! 0) (n_sv N) = Some (k, chan)" using Some by (cases kc) simp
  have n: "n_sv (netsync_chan_kick k s t z M) = n_sv M" for s t z M by (simp add: netsync_chan_kick_def say_def Let_def split: option.split)
  have out: "calm N (kick_out W i t k x N)" if "server_find_user u (n_sv N) = Some t" "channel_find_member chan t \<noteq> None" for W t x u
    unfolding kick_out_def Let_def by (rule calm_left [OF sane_user [OF assms that(1)] kc that(2)]) (auto simp: n intro!: steady_intros)
  have r: "bland N (kick_refusal E i me t tm chan N)" for me t tm
    unfolding kick_refusal_def Let_def by (intro bland_intros calm_errors calm_reply)
  show ?thesis unfolding cmd_kick_def Let_def kc option.case prod.case
    using r by (auto simp: bland_def calm_errors calm_reply intro!: out split: option.split)
qed (simp add: cmd_kick_def Let_def calm_errors)

section \<open>The clock of the channels\<close>

lemma still_server_mode: "still N (server_chan_mode W k m a N)"
  by (auto simp: still_def server_chan_mode_def Let_def split: option.split intro!: steady_intros)

lemma still_on_chan: "k \<in> chan_keys (n_sv N) \<Longrightarrow> (\<And>c. member_ids (f c) = member_ids c) \<Longrightarrow> still N (on_sv (on_chan k f) N)"
  by (auto simp: still_def intro!: steady_intros)

lemma listed_members [simp]: "member_ids (set_bmask_list c ml chan) = member_ids chan"
  by (simp add: set_bmask_list_def)

lemma still_masks: "server_ok (n_sv N) \<Longrightarrow> k \<in> chan_keys (n_sv N) \<Longrightarrow> still N (tick_masks W k c x N)"
proof (induction x arbitrary: N)
  case (Suc x)
  let ?M = "\<lambda>m ml. server_chan_mode W k [CHR ''-'', c] (Some m) (on_sv (on_chan k (set_bmask_list c (snd (masklist_del m ml)))) N)"
  have 1: "still N (?M m ml)" for m ml using still_trans [OF still_on_chan still_server_mode] Suc.prems(2) by simp
  have 2: "still N (tick_masks W k c x (?M m ml))" for m ml
    by (rule still_trans [OF 1 Suc.IH])
      (use Suc.prems 1 [of m ml] still_keys [OF 1] in \<open>auto simp: still_def steady_def keeps_def\<close>)
  show ?case using 2 Suc by (simp add: Let_def split: option.split)
qed (simp add: still_def)

lemma still_flood: "server_ok (n_sv N) \<Longrightarrow> k \<in> chan_keys (n_sv N) \<Longrightarrow> still N (tick_flood W k x N)"
proof -
  assume k: "server_ok (n_sv N)" "k \<in> chan_keys (n_sv N)"
  have 1: "still N (on_sv (on_chan k (\<lambda>c. c\<lparr>ch_fp := F\<rparr>)) N)" for F using k by (intro still_on_chan) simp_all
  have 2: "still N (on_sv (on_chan k (\<lambda>c. c\<lparr>ch_modes := ch_modes c AND B\<rparr>)) (on_sv (on_chan k (\<lambda>c. c\<lparr>ch_fp := F\<rparr>)) N))" for F B
    by (rule still_trans [OF 1 still_on_chan]) (use still_keys [OF 1 k] in simp_all)
  show ?thesis unfolding tick_flood_def Let_def
    using 1 still_trans [OF 2 still_server_mode] by (auto simp: still_def [of N N] split: option.split)
qed

lemma still_sane: "still N M \<Longrightarrow> server_ok (n_sv N) \<Longrightarrow> server_ok (n_sv M)"
  by (simp add: still_def steady_def keeps_def)

lemma still_refl [simp]: "still N N"
  by (simp add: still_def)

lemma still_fold_chan:
  assumes "\<And>x M. server_ok (n_sv M) \<Longrightarrow> k \<in> chan_keys (n_sv M) \<Longrightarrow> still M (f x M)"
    and "server_ok (n_sv N)" and "k \<in> chan_keys (n_sv N)"
  shows "still N (fold f xs N)"
  using assms(2,3)
proof (induction xs arbitrary: N)
  case (Cons x xs)
  note 1 = assms(1) [OF Cons.prems, of x]
  show ?case unfolding fold_Cons comp_apply
    by (rule still_trans [OF 1 Cons.IH]) (use 1 still_sane [OF 1] still_keys [OF 1] Cons.prems in simp_all)
qed simp

lemma still_tick_channel: "server_ok (n_sv N) \<Longrightarrow> k \<in> chan_keys (n_sv N) \<Longrightarrow> still N (tick_channel W k N)"
proof -
  assume k: "server_ok (n_sv N)" "k \<in> chan_keys (n_sv N)"
  have 1: "still N (fold (\<lambda>c N. tick_masks W k c (list_size c k N) N) cs N)" for cs
    by (rule still_fold_chan [OF still_masks k])
  show ?thesis unfolding tick_channel_def
    by (rule still_trans [OF 1 still_fold_chan [OF still_flood still_sane [OF 1 k(1)] still_keys [OF 1 k]]])
qed

lemma calm_tick:
  assumes "server_ok (n_sv (snd st))"
  shows "calm (snd st) (snd (cmd_channels_tick W st))"
proof -
  have "still N (fold (tick_channel W) ks N)" if "server_ok (n_sv N)" "set ks \<subseteq> chan_keys (n_sv N)" for ks N
    using that
  proof (induction ks arbitrary: N)
    case (Cons k ks)
    have 1: "still N (tick_channel W k N)" using Cons.prems by (intro still_tick_channel) simp_all
    show ?case unfolding fold_Cons comp_apply
      by (rule still_trans [OF 1 Cons.IH]) (use Cons.prems still_sane [OF 1] still_keys [OF 1] in auto)
  qed simp
  then have "still (snd st) (fold (tick_channel W) (map fst (sv_channels (n_sv (snd st)))) (snd st))"
    using assms by (simp add: chan_keys_def)
  then show ?thesis using still_calm by (cases st) (simp add: cmd_channels_tick_def)
qed

section \<open>MODE\<close>

lemma steady_set_known [steady_intros]:
  assumes "steady sv s" and "server_ok sv \<Longrightarrow> k \<in> chan_keys sv" and "member_ids c = member_ids (chan_of s k)"
  shows "steady sv (set_chan k c s)"
  by (rule steady_step [OF assms(1)]) (use assms(2,3) in \<open>auto intro!: steady_set_chan\<close>)

lemma steady_set_member:
  assumes "steady sv s" and "server_ok sv \<Longrightarrow> k \<in> chan_keys sv" and "channel_find_member (chan_of s k) t = Some m"
  shows "steady sv (on_chan k (\<lambda>ch. set_member ch t m2) s)"
proof -
  have "t \<in> set (member_ids (chan_of s k))" using assms(3) by (rule find_member_ids)
  then show ?thesis unfolding on_chan_def
    by (intro steady_set_known assms(1,2)) (simp_all add: member_ids_set)
qed

lemma mask_set_by_members [simp]: "member_ids (set_bmask_list c (mask_set_by n ml) chan) = member_ids chan"
  by simp

lemma chan_of_next [simp]: "chan_of (mr_sv (next_arg r)) k = chan_of (mr_sv r) k"
  by simp

lemma steady_plain_letters:
  assumes "steady sv (mr_sv r)" and "server_ok sv \<Longrightarrow> k \<in> chan_keys sv"
  shows "steady sv (mr_sv (flag_letter k c r))" "steady sv (mr_sv (redirect_letter W i k r))" "steady sv (mr_sv (flood_letter k r))"
    "steady sv (mr_sv (join_rate_letter k r))" "steady sv (mr_sv (key_letter k r))" "steady sv (mr_sv (limit_letter k r))"
    "steady sv (mr_sv (mask_letter W i k c r))"
  using assms
  by (auto simp: flag_letter_def redirect_letter_def flood_letter_def join_rate_letter_def key_letter_def limit_letter_def mask_letter_def
      Let_def flood_members split_def intro!: steady_intros flag_mode_steady split: list.split option.split)

lemma steady_rank_letter:
  assumes "steady sv (mr_sv r)" and "server_ok sv \<Longrightarrow> k \<in> chan_keys sv"
  shows "steady sv (mr_sv (rank_letter W i k c r))"
proof -
  have 1: "steady sv (if b then channel_reveal_member k t (on_chan k (\<lambda>ch. set_member ch t m2) (mr_sv r))
      else on_chan k (\<lambda>ch. set_member ch t m2) (mr_sv r))" if "channel_find_member (chan_of (mr_sv r) k) t = Some m" for b t m m2
    using steady_set_member [OF assms that] steady_reveal assms(2) by simp
  show ?thesis
  proof (cases "mr_args r")
    case (Cons a as)
    show ?thesis
    proof (cases "server_find_user a (mr_sv r)")
      case (Some t)
      note t = Some
      show ?thesis
      proof (cases "channel_find_member (chan_of (mr_sv r) k) t")
        case (Some m)
        have e: "steady sv (mr_sv (in_run (srv_reply W i x ps y) (next_arg r)))" "steady sv (mr_sv (next_arg r))" for x ps y
          using assms(1) by (simp_all add: steady_intros)
        have f: "steady sv (mr_sv (shown c z (in_run (\<lambda>_. if adding r then channel_reveal_member k t (on_chan k (\<lambda>ch. set_member ch t m2) (mr_sv r))
          else on_chan k (\<lambda>ch. set_member ch t m2) (mr_sv r)) (next_arg r))))" for z m2
          using 1 [OF Some] by simp
        have i: "steady sv (mr_sv (if P then x else y))" if "steady sv (mr_sv x)" "steady sv (mr_sv y)" for P x y
          using that by simp
        show ?thesis unfolding rank_letter_def Let_def Cons list.case t Some option.case by (intro i e f)
      qed (use assms(1) Cons t in \<open>simp add: rank_letter_def Let_def steady_intros\<close>)
    qed (use assms(1) Cons in \<open>simp add: rank_letter_def Let_def steady_intros\<close>)
  qed (use assms(1) in \<open>simp add: rank_letter_def\<close>)
qed

lemma steady_mode_step:
  assumes "steady sv (mr_sv r)" and "server_ok sv \<Longrightarrow> k \<in> chan_keys sv"
  shows "steady sv (mr_sv (mode_step W i k full c r))"
proof -
  have i: "steady sv (mr_sv (if P then x else y))" if "steady sv (mr_sv x)" "steady sv (mr_sv y)" for P x y
    using that by simp
  have e: "steady sv (mr_sv (in_run (srv_reply W i x ps y) r))" "steady sv (mr_sv (in_run (err_not_channel_op W i z) r))"
    "steady sv (mr_sv (r\<lparr>mr_sign := w\<rparr>))" for x ps y z w
    using assms(1) by (simp_all add: steady_intros)
  show ?thesis unfolding mode_step_def Let_def
    by (intro i e steady_plain_letters steady_rank_letter assms; assumption)
qed

lemma steady_mode_steps:
  "steady sv (mr_sv r) \<Longrightarrow> (server_ok sv \<Longrightarrow> k \<in> chan_keys sv) \<Longrightarrow> steady sv (mr_sv (mode_steps W i k full modes r))"
  by (induction modes arbitrary: r) (auto intro: steady_mode_step)

lemma calm_apply_mode:
  assumes "k \<in> chan_keys (n_sv N)"
  shows "calm N (cmd_apply_channel_mode W i k modes args full N)"
proof -
  let ?r = "mode_steps W i k full modes (start_run args (n_sv N))"
  have "steady (n_sv N) (mr_sv ?r)" by (rule steady_mode_steps) (use assms in \<open>simp_all add: start_run_def\<close>)
  then have 1: "calm N (N\<lparr>n_sv := mr_sv ?r\<rparr>)" by (intro calm_steady) simp_all
  have 2: "calm M (case l of None \<Rightarrow> M | Some l \<Rightarrow> on_sv (server_broadcast_channel W k l None) M)" for l M
    by (auto split: option.split intro!: calm_on_sv steady_intros)
  show ?thesis unfolding cmd_apply_channel_mode_def Let_def
    by (intro calm_either 1 calm_trans [OF 1 calm_trans [OF 2 calm_says(3)]])
qed

lemma steady_masklist_reply [steady_intros]: "steady sv s \<Longrightarrow> steady sv (reply_masklist W i k c s)"
  unfolding reply_masklist_def Let_def split_def by (intro steady_intros steady_fold)

lemma calm_mode_channel: "calm N (cmd_mode_channel W i msg name N)"
  unfolding cmd_mode_channel_def Let_def mode_query_def
  by (auto simp: calm_errors intro!: calm_apply_mode calm_on_sv steady_intros dest: on_key split: option.split)

lemma calm_samode: "calm N (cmd_samode W i msg N)"
proof -
  have "calm N (on_sv (server_notify_opers W t) (cmd_apply_channel_mode W i k modes args True N))" if "k \<in> chan_keys (n_sv N)" for t k modes args
    by (rule calm_trans [OF calm_apply_mode [OF that] calm_on_sv]) (intro steady_intros)
  then show ?thesis unfolding cmd_samode_def Let_def
    by (auto simp: calm_errors dest: on_key split: option.split)
qed

lemma umode_loop_regs: "umode_loop modes s l a cl = (out, cl') \<Longrightarrow> regs cl' = regs cl"
proof (induction modes arbitrary: s l a cl)
  case (Cons c cs)
  have "regs (set_umode on c cl) = regs cl" for on by (simp add: set_umode_def drop_oper_def Let_def regs_def keyed_def)
  with Cons show ?case by (auto simp: umode_loop_step split: if_splits)
qed simp

lemma regs_host [simp]: "regs (net_reset_host cloak c) = regs c"
  by (simp add: net_reset_host_def)

lemma calm_chghost_told: "sane i N \<Longrightarrow> calm N (broadcast_chghost W i p N)"
  unfolding broadcast_chghost_def Let_def
  by (rule calm_trans [OF calm_on_sv calm_says(10)]) (auto simp: sane_def intro!: steady_intros)

lemma calm_mode_user:
  assumes s: "sane i N"
  shows "calm N (cmd_mode_user W cloak i msg target N)"
proof -
  obtain applied cl1 where u: "umode_loop (msg_params msg ! 1) CHR ''+'' CHR ''+'' ''+'' (n_client N i) = (applied, cl1)" by force
  let ?N1 = "on_sv (sv_write i cl1) N"
  have 1: "calm N ?N1" by (rule calm_on_sv, rule steady_write) (use s umode_loop_regs [OF u] in \<open>simp_all add: sane_def\<close>)
  let ?N2 = "\<lambda>l. netsync_user_modes i (on_sv (srv_send i l) ?N1)"
  have 2: "calm N (?N2 l)" for l
    by (rule calm_trans [OF 1 calm_trans [OF calm_on_sv calm_says(9)]]) (intro steady_intros)
  have 3: "calm M (on_sv (change_client i (net_reset_host cloak)) M)" if "sane i M" for M
    using that by (auto simp: sane_def intro!: calm_on_sv steady_intros)
  have 4: "calm N (on_sv (srv_reply W i c ps t) (broadcast_chghost W i p (on_sv (change_client i (net_reset_host cloak)) (?N2 l))))" for l p c ps t
  proof (rule calm_trans [OF calm_trans [OF calm_trans [OF 2 3] calm_chghost_told] calm_on_sv])
    show 5: "sane i (?N2 l)" by (rule sane_calm [OF s 2])
    show "sane i (on_sv (change_client i (net_reset_host cloak)) (?N2 l))" by (rule sane_calm [OF 5 3 [OF 5]])
  qed (intro steady_intros)
  show ?thesis unfolding cmd_mode_user_def Let_def u prod.case
    by (intro calm_either 1 2 4 calm_on_sv steady_intros)
qed

lemma calm_mode_cmd: "sane i N \<Longrightarrow> calm N (cmd_mode W cloak i msg N)"
  by (simp add: cmd_mode_def Let_def calm_mode_channel calm_mode_user)

section \<open>RENAME\<close>

definition others_ok :: "server \<Rightarrow> bool" where
  "others_ok sv \<longleftrightarrow> queues_ok sv \<and> users_ok sv \<and> conns_ok sv \<and>
     watch_ok (\<lambda>i. c_monitor (sv_client sv i)) (live sv) (sv_mon_idx sv) \<and> watch_ok (\<lambda>i. c_watch (sv_client sv i)) (live sv) (sv_watch_idx sv)"

lemma others_channels: "server_ok sv \<longleftrightarrow> others_ok sv \<and> channels_ok sv"
  by (auto simp: server_ok_def others_ok_def)

lemma others_relist:
  assumes "others_ok sv" and i: "i \<in> live sv"
  shows "others_ok (change_client i (\<lambda>c. c\<lparr>c_channels := g c\<rparr>) sv)"
proof -
  have l: "live (sv_write i cl sv) = live sv" for cl using i by simp
  have "watch_ok (\<lambda>j. c_monitor (sv_client (sv_write i ((sv_client sv i)\<lparr>c_channels := ks\<rparr>) sv) j)) (live sv) (sv_mon_idx sv)"
    "watch_ok (\<lambda>j. c_watch (sv_client (sv_write i ((sv_client sv i)\<lparr>c_channels := ks\<rparr>) sv) j)) (live sv) (sv_watch_idx sv)" for ks
    using assms(1) unfolding others_ok_def watch_ok_def by (auto simp: if_distrib [of c_monitor] if_distrib [of c_watch])
  then show ?thesis using assms l unfolding change_client_def others_ok_def
    by (auto intro!: queues_write users_write conns_write)
qed

lemma others_relist_all:
  fixes g :: "string list \<Rightarrow> string list"
  assumes "others_ok sv" and "set is \<subseteq> live sv" and "distinct is"
  defines "s \<equiv> fold (\<lambda>i. change_client i (\<lambda>c. c\<lparr>c_channels := g (c_channels c)\<rparr>)) is sv"
  shows "others_ok s \<and> live s = live sv \<and> sv_channels s = sv_channels sv \<and> sv_users s = sv_users sv \<and> sv_by_uid s = sv_by_uid sv \<and>
    sv_servers s = sv_servers sv \<and>
    (\<forall>j. sv_client s j = (if j \<in> set is then (sv_client sv j)\<lparr>c_channels := g (c_channels (sv_client sv j))\<rparr> else sv_client sv j))"
  using assms(1-3) unfolding s_def
proof (induction "is" arbitrary: sv)
  case (Cons i "is")
  let ?c = "change_client i (\<lambda>c. c\<lparr>c_channels := g (c_channels c)\<rparr>) sv"
  have l: "live ?c = live sv" using Cons.prems by (simp add: change_client_def)
  have o: "others_ok ?c" using Cons.prems by (intro others_relist) simp_all
  have j: "sv_client ?c j = (if j = i then (sv_client sv i)\<lparr>c_channels := g (c_channels (sv_client sv i))\<rparr> else sv_client sv j)" for j
    by (simp add: change_client_def)
  have f: "sv_channels ?c = sv_channels sv" "sv_users ?c = sv_users sv" "sv_by_uid ?c = sv_by_uid sv" "sv_servers ?c = sv_servers sv"
    by (simp_all add: change_client_def)
  have "set is \<subseteq> live ?c" "distinct is" "i \<notin> set is" using Cons.prems l by auto
  from Cons.IH [OF o this(1,2)] \<open>i \<notin> set is\<close> show ?case unfolding fold_Cons comp_apply l f j by auto
qed simp

lemma keeps_rekey:
  assumes k: "k \<in> chan_keys sv" and n: "ncf \<notin> chan_keys sv - {k}"
  shows "keeps sv (rekey_channel k ncf newname sv)"
proof -
  have "server_ok (rekey_channel k ncf newname sv) \<and> tree_of (rekey_channel k ncf newname sv) = tree_of sv \<and> live (rekey_channel k ncf newname sv) = live sv \<and>
      sv_users (rekey_channel k ncf newname sv) = sv_users sv \<and> sv_by_uid (rekey_channel k ncf newname sv) = sv_by_uid sv \<and>
      (\<forall>i. netid (sv_client (rekey_channel k ncf newname sv) i) = netid (sv_client sv i))" if ok: "server_ok sv"
  proof -
    define chan where "chan = chan_of sv k"
    define c2 where "c2 = chan\<lparr>ch_name := clip CHAN_NAMELEN newname, ch_casefold_name := ncf\<rparr>"
    define sv1 where "sv1 = sv\<lparr>sv_channels := AList.delete k (sv_channels sv) @ [(ncf, c2)]\<rparr>"
    define g where "g = map (\<lambda>x. if x = k then ncf else x)"
    define s where "s = rekey_channel k ncf newname sv"
    have C: "channels_ok sv" and o1: "others_ok sv1" using ok by (simp_all add: others_channels) (simp add: others_ok_def sv1_def)
    note D = channels_okD [OF C]
    have km: "map_of (sv_channels sv) k = Some chan" using k by (simp add: chan_keys_Some chan_def)
    have m2: "member_ids c2 = member_ids chan" by (simp add: c2_def member_ids_def)
    have s: "s = fold (\<lambda>i. change_client i (\<lambda>c. c\<lparr>c_channels := g (c_channels c)\<rparr>)) (member_ids chan) sv1"
      by (simp add: s_def rekey_channel_def Let_def sv1_def c2_def chan_def g_def member_ids_def fold_map comp_def split_def)
    have l1: "live sv1 = live sv" "sv_client sv1 = sv_client sv" by (simp_all add: sv1_def fun_eq_iff)
    have "set (member_ids chan) \<subseteq> live sv1" "distinct (member_ids chan)" using D(2) [OF km] l1 by simp_all
    from others_relist_all [OF o1 this, of g] have
      r: "others_ok s" "live s = live sv" "sv_channels s = sv_channels sv1" "sv_users s = sv_users sv" "sv_by_uid s = sv_by_uid sv" "sv_servers s = sv_servers sv"
      and cl: "\<And>j. sv_client s j = (if j \<in> set (member_ids chan) then (sv_client sv j)\<lparr>c_channels := g (c_channels (sv_client sv j))\<rparr> else sv_client sv j)"
      unfolding s [symmetric] l1 by (auto simp: sv1_def)
    have look: "map_of (sv_channels sv1) x = (if x = ncf then Some c2 else if x = k then None else map_of (sv_channels sv) x)" for x
    proof -
      have "map_of (sv_channels sv) ncf = None \<or> ncf = k" using n by (auto simp: chan_keys_def map_of_eq_None_iff)
      then have z: "map_of (AList.delete k (sv_channels sv)) ncf = None" by (auto simp: delete_conv)
      show ?thesis using z by (auto simp: sv1_def map_add_def delete_conv split: option.split)
    qed
    have lists: "set (c_channels (sv_client s j)) = (if j \<in> set (member_ids chan) then insert ncf (set (c_channels (sv_client sv j)) - {k})
        else set (c_channels (sv_client sv j)))" if j: "j \<in> live sv" for j
    proof -
      have "k \<in> set (c_channels (sv_client sv j)) \<longleftrightarrow> j \<in> set (member_ids chan)" using D(4) [OF j, of k] km by simp
      then show ?thesis by (auto simp: cl g_def)
    qed
    have dist: "distinct (c_channels (sv_client s j))" if j: "j \<in> live sv" for j
    proof -
      have "ncf \<in> set (c_channels (sv_client sv j)) \<Longrightarrow> ncf = k"
        using D(4) [OF j, of ncf] n by (auto simp: chan_keys_dom)
      then have "inj_on (\<lambda>x. if x = k then ncf else x) (set (c_channels (sv_client sv j)))" by (auto simp: inj_on_def)
      then show ?thesis using D(3) [OF j] by (simp add: cl g_def distinct_map)
    qed
    have "channels_ok s"
    proof (rule channels_okI, unfold r(2,3) look)
      have "ncf \<notin> fst ` set (AList.delete k (sv_channels sv))" using n by (auto simp: chan_keys_def AList.delete_eq)
      then show "distinct (map fst (sv_channels sv1))" using D(1) by (simp add: sv1_def distinct_delete)
      show "distinct (member_ids c) \<and> set (member_ids c) \<subseteq> live sv"
        if "(if x = ncf then Some c2 else if x = k then None else map_of (sv_channels sv) x) = Some c" for x c
        using that D(2) [OF km] D(2) [of x c] m2 by (auto split: if_splits)
      show "distinct (c_channels (sv_client s i))" if "i \<in> live sv" for i using dist [OF that] .
      show "x \<in> set (c_channels (sv_client s i)) \<longleftrightarrow>
          (\<exists>c. (if x = ncf then Some c2 else if x = k then None else map_of (sv_channels sv) x) = Some c \<and> i \<in> set (member_ids c))" if "i \<in> live sv" for i x
      proof -
        have "map_of (sv_channels sv) ncf = None \<or> ncf = k" using n by (auto simp: chan_keys_def map_of_eq_None_iff)
        then show ?thesis using D(4) [OF that, of x] D(4) [OF that, of k] km m2 by (auto simp: lists [OF that])
      qed
    qed
    then show ?thesis using r cl by (simp add: others_channels s_def [symmetric] tree_of_def netid_def)
  qed
  then show ?thesis by (simp add: keeps_def)
qed

lemma calm_on_keeps: "keeps (n_sv N) (f (n_sv N)) \<Longrightarrow> calm N (on_sv f N)"
  by (simp add: calm_def link_view_def on_sv_def)

lemma steady_renamed: "steady sv s \<Longrightarrow> steady sv (renamed_member W old k l r i s)"
  by (auto simp: renamed_member_def Let_def intro!: steady_intros)

lemma calm_rename_apply:
  assumes k: "k \<in> chan_keys (n_sv N)" and n: "irc_casefold CHAN_NAMELEN newname \<notin> chan_keys (n_sv N) - {k}"
  shows "calm N (cmd_channel_rename_apply W k i newname reason N)"
proof -
  let ?ncf = "irc_casefold CHAN_NAMELEN newname"
  have h: "steady sv (sv\<lparr>sv_history := x\<rparr>)" "steady sv (sv\<lparr>sv_markers := y\<rparr>)" for sv x y
    by (rule tells_steady, simp add: tells_def)+
  have 1: "calm N (on_sv (\<lambda>sv. sv\<lparr>sv_history := X sv\<rparr>) N)" for X by (rule calm_on_sv) (rule h)
  have 2: "calm (on_sv (\<lambda>sv. sv\<lparr>sv_history := X sv\<rparr>) N) (on_sv (rekey_channel k ?ncf newname) (on_sv (\<lambda>sv. sv\<lparr>sv_history := X sv\<rparr>) N))" for X
    by (rule calm_on_keeps, rule keeps_rekey) (use k n in \<open>simp_all add: chan_keys_def\<close>)
  have 3: "calm M (tell e (on_sv (\<lambda>sv. sv\<lparr>sv_markers := Y sv\<rparr>) M))" for M e Y
    by (rule calm_trans [OF calm_on_sv calm_frame]) (simp_all add: h)
  have 4: "calm M (on_sv (fold (\<lambda>(j, m). renamed_member W old ?ncf l r j) ms) M)" for M old l r and ms :: "(client_id \<times> member) list"
    by (rule calm_on_sv, rule steady_fold) (auto intro: steady_renamed)
  show ?thesis unfolding cmd_channel_rename_apply_def Let_def
    by (rule calm_trans [OF calm_trans [OF calm_trans [OF 1 2] 3] 4])
qed

lemma calm_rename_cmd: "calm N (cmd_rename E i msg N)"
proof (cases "server_find_channel (msg_params msg ! 0) (n_sv N)")
  case (Some kc)
  obtain k chan where kc: "server_find_channel (msg_params msg ! 0) (n_sv N) = Some (k, chan)" using Some by (cases kc) simp
  have go: "calm N (netsync_chan_rename a i b c (cmd_channel_rename_apply W k i nm r N))"
    if "rename_refusal E k chan nm N = None" for a b c W r nm
  proof (rule calm_trans [OF calm_rename_apply [OF on_key [OF kc]] calm_says(6)])
    show "irc_casefold CHAN_NAMELEN nm \<notin> chan_keys (n_sv N) - {k}"
      using that by (auto simp: rename_refusal_def server_find_channel_def Let_def chan_keys_dom split: if_splits option.splits)
  qed
  show ?thesis unfolding cmd_rename_def Let_def kc option.case prod.case
    by (auto simp: calm_errors intro!: go calm_on_sv steady_intros split: option.split)
qed (simp add: cmd_rename_def Let_def calm_errors)

section \<open>All of them\<close>

text \<open>
  One step of the channel commands: a client that is there sends one of them, with whatever
  parameters, or the clock ticks. The state is the network with the state of the spam filters and
  the time of the last tick.
\<close>

inductive chan_step :: "net \<times> spam_state \<Rightarrow> net \<times> spam_state \<Rightarrow> bool" where
  join: "i \<in> live (n_sv (fst st)) \<Longrightarrow> chan_step st (cmd_join E i msg st)"
| part: "i \<in> live (n_sv (fst st)) \<Longrightarrow> chan_step st (cmd_part E i msg st)"
| topic: "i \<in> live (n_sv (fst st)) \<Longrightarrow> chan_step st (cmd_topic E i msg st)"
| mode: "i \<in> live (n_sv N) \<Longrightarrow> chan_step (N, ss) (cmd_mode W cloak i msg N, ss)"
| samode: "i \<in> live (n_sv N) \<Longrightarrow> chan_step (N, ss) (cmd_samode W i msg N, ss)"
| kick: "i \<in> live (n_sv N) \<Longrightarrow> chan_step (N, ss) (cmd_kick E i msg N, ss)"
| invite: "i \<in> live (n_sv N) \<Longrightarrow> chan_step (N, ss) (cmd_invite E i msg N, ss)"
| knock: "i \<in> live (n_sv N) \<Longrightarrow> chan_step (N, ss) (cmd_knock E i msg N, ss)"
| rename: "i \<in> live (n_sv N) \<Longrightarrow> chan_step (N, ss) (cmd_rename E i msg N, ss)"
| sajoin: "i \<in> live (n_sv N) \<Longrightarrow> chan_step (N, ss) (cmd_sajoin W i msg N, ss)"
| sapart: "i \<in> live (n_sv N) \<Longrightarrow> chan_step (N, ss) (cmd_sapart W i msg N, ss)"
| tick: "chan_step (N, ss) (snd (cmd_channels_tick W (prev, N)), ss)"

inductive_cases chan_stepE: "chan_step st st'"

lemma chan_step_calm: "chan_step st st' \<Longrightarrow> server_ok (n_sv (fst st)) \<Longrightarrow> calm (fst st) (fst st')"
proof (induction rule: chan_step.induct)
  case (tick N ss W prev)
  then show ?case using calm_tick [of "(prev, N)" W] by simp
qed (simp_all add: sane_def calm_cmd_join calm_cmd_part calm_topic_cmd calm_mode_cmd calm_samode calm_cmd_kick calm_invite_cmd
    calm_knock calm_rename_cmd calm_sajoin calm_sapart)

end
