(* ===== verification/Nettree.thy ===== *)
theory Nettree
  imports Netframe
begin

text \<open>
  The network of servers as a tree (src/src/netsync.c). In every state that lines, links and local
  events lead to, the servers form a tree below this one, each is reached over the link of the
  branch it is on, every user of another server has a server that is there and is found by its
  nick, and the registries are in order. The properties about what a link may say and what a split
  removes follow.
\<close>

section \<open>The tree\<close>

type_synonym tree = "(nat \<times> netserver) list"
type_synonym links = "(nat \<times> nat option \<times> bool \<times> client_id list) list"

text \<open>A server and the one it hangs below.\<close>

definition below :: "tree \<Rightarrow> (nat \<times> nat) set" where
  "below T = {(s, u). \<exists>ns. map_of T s = Some ns \<and> ns_uplink ns = Some u}"

definition root_of :: "links \<Rightarrow> nat \<Rightarrow> nat option" where
  "root_of L l = (case map_of L l of Some (Some s, _) \<Rightarrow> Some s | _ \<Rightarrow> None)"

text \<open>The place of a server other than this one: its uplink is known, and its route is that of its branch.\<close>

definition placed :: "nat \<Rightarrow> tree \<Rightarrow> links \<Rightarrow> nat \<Rightarrow> netserver \<Rightarrow> bool" where
  "placed me T L s ns \<longleftrightarrow> (\<exists>u l. ns_uplink ns = Some u \<and> ns_route ns = Some l \<and>
     (if u = me then root_of L l = Some s else \<exists>us. map_of T u = Some us \<and> ns_route us = Some l))"

definition tree_ok :: "nat \<Rightarrow> tree \<Rightarrow> links \<Rightarrow> bool" where
  "tree_ok me T L \<longleftrightarrow> distinct (map fst T) \<and> distinct (map fst L) \<and>
     (\<exists>ns. map_of T me = Some ns \<and> ns_uplink ns = None \<and> ns_route ns = None) \<and>
     (\<forall>s ns. map_of T s = Some ns \<longrightarrow> s \<noteq> me \<longrightarrow> placed me T L s ns) \<and>
     (\<forall>l s. root_of L l = Some s \<longrightarrow> s \<noteq> me \<and> (\<exists>ns. map_of T s = Some ns \<and> ns_uplink ns = Some me \<and> ns_route ns = Some l)) \<and>
     acyclic (below T)"

lemma tree_okD:
  assumes "tree_ok me T L"
  shows "distinct (map fst T)" and "distinct (map fst L)" and "\<exists>ns. map_of T me = Some ns \<and> ns_uplink ns = None \<and> ns_route ns = None"
    and "map_of T s = Some ns \<Longrightarrow> s \<noteq> me \<Longrightarrow> placed me T L s ns"
    and "root_of L l = Some s \<Longrightarrow> s \<noteq> me \<and> (\<exists>ns. map_of T s = Some ns \<and> ns_uplink ns = Some me \<and> ns_route ns = Some l)"
    and "acyclic (below T)"
  using assms unfolding tree_ok_def by blast+

lemma tree_okI:
  assumes "distinct (map fst T)" and "distinct (map fst L)" and "\<exists>ns. map_of T me = Some ns \<and> ns_uplink ns = None \<and> ns_route ns = None"
    and "\<And>s ns. map_of T s = Some ns \<Longrightarrow> s \<noteq> me \<Longrightarrow> placed me T L s ns"
    and "\<And>l s. root_of L l = Some s \<Longrightarrow> s \<noteq> me \<and> (\<exists>ns. map_of T s = Some ns \<and> ns_uplink ns = Some me \<and> ns_route ns = Some l)"
    and "acyclic (below T)"
  shows "tree_ok me T L"
  using assms unfolding tree_ok_def by blast

text \<open>The walk up the tree with as many steps as there are servers finds exactly the ancestors.\<close>

lemma below_fun: "(s, u) \<in> below T \<Longrightarrow> (s, v) \<in> below T \<Longrightarrow> u = v"
  by (auto simp: below_def)

definition up :: "tree \<Rightarrow> nat \<Rightarrow> nat set" where
  "up T s = {a. (s, a) \<in> (below T)\<^sup>*}"

lemma up_self [simp]: "s \<in> up T s"
  by (simp add: up_def)

lemma up_step: "(s, u) \<in> below T \<Longrightarrow> up T s = insert s (up T u)"
  by (auto simp: up_def elim: converse_rtranclE dest: below_fun)

lemma up_root: "(\<forall>u. (s, u) \<notin> below T) \<Longrightarrow> up T s = {s}"
  by (auto simp: up_def elim: converse_rtranclE)

lemma up_in:
  assumes "\<And>s u. (s, u) \<in> below T \<Longrightarrow> u \<in> fst ` set T" and "s \<in> fst ` set T"
  shows "up T s \<subseteq> fst ` set T"
proof
  fix a assume "a \<in> up T s"
  then have "(s, a) \<in> (below T)\<^sup>*" by (simp add: up_def)
  then show "a \<in> fst ` set T" using assms by (induction rule: rtrancl_induct) auto
qed

lemma walk_up: "behind_walk n T s a \<Longrightarrow> a \<in> up T s"
proof (induction n arbitrary: s)
  case (Suc n)
  show ?case
  proof (cases "s = a")
    case False
    then obtain u where "(s, u) \<in> below T" "behind_walk n T u a"
      using Suc.prems by (auto simp: below_def split: option.splits)
    then show ?thesis using Suc.IH by (auto simp: up_step)
  qed simp
qed simp

lemma up_walk:
  assumes ac: "acyclic (below T)" and cl: "\<And>s u. (s, u) \<in> below T \<Longrightarrow> u \<in> fst ` set T"
  shows "s \<in> fst ` set T \<Longrightarrow> a \<in> up T s \<Longrightarrow> card (up T s) \<le> n \<Longrightarrow> behind_walk n T s a"
proof (induction n arbitrary: s)
  case 0
  have "finite (up T s)" by (rule finite_subset [OF up_in [OF cl 0(1)]]) simp_all
  with 0 show ?case using card_eq_0_iff [of "up T s"] up_self [of s T] by auto
next
  case (Suc n)
  show ?case
  proof (cases "s = a")
    case False
    then have "up T s \<noteq> {s}" using Suc.prems(2) by auto
    then obtain u where u: "(s, u) \<in> below T" using up_root by blast
    then have ut: "u \<in> fst ` set T" by (rule cl)
    have "s \<notin> up T u" using ac u unfolding acyclic_def up_def by (auto dest: rtrancl_into_trancl2)
    moreover have f: "finite (up T u)" by (rule finite_subset [OF up_in [OF cl ut]]) simp_all
    ultimately have "card (up T u) \<le> n" using Suc.prems(3) up_step [OF u] by simp
    then have "behind_walk n T u a" using Suc.prems(2) False up_step [OF u] ut by (intro Suc.IH) auto
    then show ?thesis using u by (auto simp: below_def)
  qed simp
qed

lemma tree_closed:
  assumes "tree_ok me T L" and "(s, u) \<in> below T"
  shows "u \<in> fst ` set T" and "s \<noteq> me"
proof -
  obtain ns where ns: "map_of T s = Some ns" "ns_uplink ns = Some u" using assms(2) by (auto simp: below_def)
  show s: "s \<noteq> me" using ns tree_okD(3) [OF assms(1)] by auto
  have "placed me T L s ns" by (rule tree_okD(4) [OF assms(1) ns(1) s])
  then show "u \<in> fst ` set T" using ns tree_okD(3) [OF assms(1)]
    by (auto simp: placed_def split: if_splits) (metis domI dom_map_of_conv_image_fst)+
qed

lemma is_behind_up:
  assumes "tree_ok me T L" and "s \<in> fst ` set T"
  shows "netsync_is_behind T s a \<longleftrightarrow> a \<in> up T s"
proof
  assume "a \<in> up T s"
  moreover have "card (up T s) \<le> length T"
    using card_mono [OF _ up_in [OF tree_closed(1) [OF assms(1)] assms(2)]] card_image_le [of "set T" fst] card_length [of T] by force
  ultimately show "netsync_is_behind T s a"
    unfolding netsync_is_behind_def using assms(2)
    by (intro up_walk [OF tree_okD(6) [OF assms(1)] tree_closed(1) [OF assms(1)]]) auto
next
  assume "netsync_is_behind T s a"
  then show "a \<in> up T s" unfolding netsync_is_behind_def by (rule walk_up)
qed

text \<open>Everything behind a link goes over it.\<close>

lemma route_up:
  assumes ok: "tree_ok me T L" and r: "root_of L l = Some r"
  shows "map_of T s = Some ns \<Longrightarrow> s \<noteq> me \<Longrightarrow> r \<in> up T s \<longleftrightarrow> ns_route ns = Some l"
proof (induction "card (up T s)" arbitrary: s ns rule: less_induct)
  case less
  note p = tree_okD(4) [OF ok less.prems]
  obtain u l' where ul: "ns_uplink ns = Some u" "ns_route ns = Some l'"
    and u: "if u = me then root_of L l' = Some s else \<exists>us. map_of T u = Some us \<and> ns_route us = Some l'"
    using p by (auto simp: placed_def)
  have b: "(s, u) \<in> below T" using less.prems(1) ul(1) by (auto simp: below_def)
  have r': "r \<noteq> me" "\<exists>ns. map_of T r = Some ns \<and> ns_uplink ns = Some me \<and> ns_route ns = Some l" using tree_okD(5) [OF ok r] by auto
  show ?case
  proof (cases "u = me")
    case True
    have "up T me = {me}" using tree_closed(2) [OF ok] by (intro up_root) auto
    then have "r \<in> up T s \<longleftrightarrow> r = s" using r' up_step [OF b] True by auto
    also have "\<dots> \<longleftrightarrow> ns_route ns = Some l"
      using u True ul r r' less.prems(1) tree_okD(5) [OF ok, of l'] by auto
    finally show ?thesis .
  next
    case False
    then obtain us where us: "map_of T u = Some us" "ns_route us = Some l'" using u by auto
    have f: "finite (up T u)" by (rule finite_subset [OF up_in [OF tree_closed(1) [OF ok] tree_closed(1) [OF ok b]]]) simp_all
    have "s \<notin> up T u" using tree_okD(6) [OF ok] b unfolding acyclic_def up_def by (auto dest: rtrancl_into_trancl2)
    then have "card (up T u) < card (up T s)" using f up_step [OF b] by simp
    then have IH: "r \<in> up T u \<longleftrightarrow> ns_route us = Some l" using less.hyps us(1) False by blast
    have "r \<noteq> s" if "ns_route us \<noteq> Some l" using that us ul r' less.prems(1) by auto
    moreover have "r = s \<Longrightarrow> False" using r' less.prems(1) ul(1) False by auto
    ultimately show ?thesis using IH us ul up_step [OF b] by auto
  qed
qed

section \<open>Growing and cutting the tree\<close>

lemma map_of_append: "s \<notin> fst ` set T \<Longrightarrow> map_of (T @ [(s, ns)]) x = (if x = s then Some ns else map_of T x)"
  using map_of_eq_None_iff [of T s] by (auto simp: map_add_def split: option.split)

lemma below_append:
  assumes "s \<notin> fst ` set T"
  shows "below (T @ [(s, ns)]) = below T \<union> (case ns_uplink ns of None \<Rightarrow> {} | Some u \<Rightarrow> {(s, u)})"
proof -
  have "map_of T s = None" using assms by (simp add: map_of_eq_None_iff)
  then show ?thesis unfolding below_def map_of_append [OF assms] by (auto split: option.split if_splits)
qed

lemma tree_grow:
  assumes ok: "tree_ok me T L" and s: "s \<notin> fst ` set T" and u: "ns_uplink ns = Some u" "u \<in> fst ` set T"
    and L': "distinct (map fst L')" "\<And>l r. root_of L l = Some r \<Longrightarrow> root_of L' l = Some r"
    and new: "placed me (T @ [(s, ns)]) L' s ns"
    and roots: "\<And>l r. root_of L' l = Some r \<Longrightarrow> root_of L l \<noteq> Some r \<Longrightarrow> r = s \<and> u = me \<and> ns_route ns = Some l"
  shows "tree_ok me (T @ [(s, ns)]) L'"
proof -
  let ?T = "T @ [(s, ns)]"
  note m = map_of_append [OF s, of ns]
  have me: "me \<in> fst ` set T" using tree_okD(3) [OF ok] by (metis domI dom_map_of_conv_image_fst)
  have "(u, s) \<notin> (below T)\<^sup>*"
  proof
    assume "(u, s) \<in> (below T)\<^sup>*"
    then have "s \<in> up T u" by (simp add: up_def)
    moreover have "up T u \<subseteq> fst ` set T" by (rule up_in [OF tree_closed(1) [OF ok] u(2)])
    ultimately show False using s by auto
  qed
  then have "acyclic (below ?T)" using tree_okD(6) [OF ok] by (simp add: below_append [OF s] u acyclic_insert)
  moreover have "placed me ?T L' x xs" if "map_of ?T x = Some xs" "x \<noteq> me" for x xs
  proof (cases "x = s")
    case False
    then have "placed me T L x xs" using that m by (intro tree_okD(4) [OF ok]) auto
    then show ?thesis using L'(2) s unfolding placed_def m by (metis domI dom_map_of_conv_image_fst)
  qed (use that m new in auto)
  moreover have "r \<noteq> me \<and> (\<exists>xs. map_of ?T r = Some xs \<and> ns_uplink xs = Some me \<and> ns_route xs = Some l)" if "root_of L' l = Some r" for l r
  proof (cases "root_of L l = Some r")
    case True
    then obtain xs where "r \<noteq> me" "map_of T r = Some xs" "ns_uplink xs = Some me" "ns_route xs = Some l" using tree_okD(5) [OF ok] by blast
    then show ?thesis using s unfolding m by (metis domI dom_map_of_conv_image_fst)
  qed (use roots [OF that] u s me m in auto)
  ultimately show ?thesis
    unfolding tree_ok_def using tree_okD(1,3) [OF ok] s L'(1) me m by (auto simp: map_of_eq_None_iff)
qed

lemma tree_cut:
  assumes ok: "tree_ok me T L" and r: "r \<noteq> me" "r \<in> fst ` set T"
    and L': "distinct (map fst L')" "\<And>l s. root_of L' l = Some s \<longleftrightarrow> root_of L l = Some s \<and> s \<noteq> r"
    and top: "\<And>l s. root_of L l = Some s \<Longrightarrow> r \<in> up T s \<Longrightarrow> s = r"
  shows "tree_ok me (filter (\<lambda>(s, _). \<not> (s \<noteq> me \<and> netsync_is_behind T s r)) T) L'"
proof -
  let ?T = "filter (\<lambda>(s, _). \<not> (s \<noteq> me \<and> netsync_is_behind T s r)) T"
  note D = tree_okD(1) [OF ok]
  have in_T: "s \<in> fst ` set T" if "map_of T s = Some ns" for s ns using that by (metis domI dom_map_of_conv_image_fst)
  have m: "map_of ?T s = (if s \<noteq> me \<and> r \<in> up T s then None else map_of T s)" for s
  proof -
    have "map_of (filter (\<lambda>(s, _). P s) T) s = (if P s then map_of T s else None)" for P :: "nat \<Rightarrow> bool"
      by (induction T) auto
    then show ?thesis using is_behind_up [OF ok, of s r] in_T [of s] by (cases "map_of T s") auto
  qed
  have me: "up T me = {me}" using tree_closed(2) [OF ok] by (intro up_root) auto
  have sub: "below ?T \<subseteq> below T" unfolding below_def m by (auto split: if_splits)
  have "placed me ?T L' s ns" if s: "map_of ?T s = Some ns" "s \<noteq> me" for s ns
  proof -
    have st: "map_of T s = Some ns" "r \<notin> up T s" using s m by (auto split: if_splits)
    obtain u l where ul: "ns_uplink ns = Some u" "ns_route ns = Some l"
      and u: "if u = me then root_of L l = Some s else \<exists>us. map_of T u = Some us \<and> ns_route us = Some l"
      using tree_okD(4) [OF ok st(1) s(2)] unfolding placed_def by blast
    have b: "(s, u) \<in> below T" using st ul by (auto simp: below_def)
    have "r \<notin> up T u" "s \<noteq> r" using st(2) up_step [OF b] by auto
    then show ?thesis unfolding placed_def ul using u L'(2) m by (cases "u = me") auto
  qed
  moreover have "s \<noteq> me \<and> (\<exists>ns. map_of ?T s = Some ns \<and> ns_uplink ns = Some me \<and> ns_route ns = Some l)" if "root_of L' l = Some s" for l s
  proof -
    have s: "root_of L l = Some s" "s \<noteq> r" using that L'(2) by blast+
    then have "r \<notin> up T s" using top by blast
    then show ?thesis using tree_okD(5) [OF ok s(1)] m by auto
  qed
  moreover have "acyclic (below ?T)" using acyclic_subset [OF tree_okD(6) [OF ok] sub] .
  moreover have "distinct (map fst ?T)" using D by (simp add: distinct_map_filter)
  moreover have "\<exists>ns. map_of ?T me = Some ns \<and> ns_uplink ns = None \<and> ns_route ns = None" using tree_okD(3) [OF ok] unfolding m by simp
  ultimately show ?thesis using L'(1) by (intro tree_okI)
qed

text \<open>The links a change of one of them leaves alone.\<close>

lemma root_of_update: "root_of (AList.update l (Some r, b) L) l' = (if l' = l then Some r else root_of L l')"
  "root_of (AList.update l (None, b) L) l' = (if l' = l then None else root_of L l')"
  by (simp_all add: root_of_def map_of_update)

section \<open>The network in order\<close>

definition server_keys :: "server \<Rightarrow> nat set" where
  "server_keys sv = fst ` set (sv_servers sv)"

text \<open>
  Where a client is: the server it names is there. A remote one has no connection, is on another
  server than this one, and is found by its nick.
\<close>

definition located :: "nat \<Rightarrow> server \<Rightarrow> client_id \<Rightarrow> bool" where
  "located me sv i \<longleftrightarrow>
     (let c = sv_client sv i
      in (case c_nserver c of None \<Rightarrow> \<not> c_remote c | Some s \<Rightarrow> s \<in> server_keys sv \<and> (c_remote c \<longleftrightarrow> s \<noteq> me)) \<and>
         (c_remote c \<longrightarrow> c_fd c < 0 \<and> map_of (sv_users sv) (c_casefold_nick c) = Some i))"

definition plain_links :: "links \<Rightarrow> bool" where
  "plain_links L \<longleftrightarrow> list_all (\<lambda>(l, s, is, bots). (s \<noteq> None \<longrightarrow> is) \<and> bots = []) L"

lemma plain_linksD: "plain_links L \<Longrightarrow> (l, s, is, bots) \<in> set L \<Longrightarrow> (s \<noteq> None \<longrightarrow> is) \<and> bots = []"
  by (simp add: plain_links_def list_all_iff split_def) (metis fst_conv option.distinct(1) snd_conv)

lemma plain_append: "plain_links (L @ [(l, s, b, bs)]) \<longleftrightarrow> plain_links L \<and> (s \<noteq> None \<longrightarrow> b) \<and> bs = []"
  by (simp add: plain_links_def)

lemma plain_filter: "plain_links L \<Longrightarrow> plain_links (filter P L)"
  by (simp add: plain_links_def list_all_iff split_def)

definition orderly :: "nat \<Rightarrow> links \<Rightarrow> server \<Rightarrow> bool" where
  "orderly me L sv \<longleftrightarrow> server_ok sv \<and> tree_ok me (tree_of sv) L \<and> (\<forall>i \<in> live sv. located me sv i)"

definition net_ok :: "net \<Rightarrow> bool" where
  "net_ok N \<longleftrightarrow> orderly (n_self N) (link_view N) (n_sv N) \<and> plain_links (link_view N)"

lemma orderlyD:
  assumes "orderly me L sv"
  shows "server_ok sv" and "tree_ok me (tree_of sv) L" and "i \<in> live sv \<Longrightarrow> located me sv i"
  using assms by (simp_all add: orderly_def)

lemma net_okD:
  assumes "net_ok N"
  shows "server_ok (n_sv N)" and "tree_ok (n_self N) (tree_of (n_sv N)) (link_view N)"
    and "i \<in> live (n_sv N) \<Longrightarrow> located (n_self N) (n_sv N) i" and "plain_links (link_view N)"
  using assms by (simp_all add: net_ok_def orderly_def)

lemma net_okI:
  assumes "server_ok (n_sv N)" and "tree_ok (n_self N) (tree_of (n_sv N)) (link_view N)"
    and "\<And>i. i \<in> live (n_sv N) \<Longrightarrow> located (n_self N) (n_sv N) i" and "plain_links (link_view N)"
  shows "net_ok N"
  using assms by (simp add: net_ok_def orderly_def)

lemma tree_of_keys: "fst ` set (tree_of sv) = server_keys sv"
  by (force simp: tree_of_def server_keys_def)

lemma tree_of_lookup: "map_of (tree_of sv) s = map_option (\<lambda>ns. ns\<lparr>ns_n_users := 0\<rparr>) (map_of (sv_servers sv) s)"
proof -
  have "map_of (map (\<lambda>(s, ns). (s, ns\<lparr>ns_n_users := 0\<rparr>)) S) s = map_option (\<lambda>ns. ns\<lparr>ns_n_users := 0\<rparr>) (map_of S s)" for S
    by (induction S) auto
  then show ?thesis by (simp add: tree_of_def)
qed

lemma behind_tree_of: "netsync_is_behind (tree_of sv) s a = netsync_is_behind (sv_servers sv) s a"
proof -
  have "behind_walk n (tree_of sv) s a = behind_walk n (sv_servers sv) s a" for n
    by (induction n arbitrary: s) (auto simp: tree_of_lookup split: option.splits)
  then show ?thesis by (simp add: netsync_is_behind_def tree_of_def)
qed

lemma located_mono:
  assumes loc: "located me sv i" and id: "netid (sv_client sv' i) = netid (sv_client sv i)" and t: "server_keys sv \<subseteq> server_keys sv'"
    and u: "map_of (sv_users sv) (c_casefold_nick (sv_client sv i)) = Some i \<Longrightarrow> map_of (sv_users sv') (c_casefold_nick (sv_client sv i)) = Some i"
  shows "located me sv' i"
proof -
  have e: "c_nserver (sv_client sv' i) = c_nserver (sv_client sv i)" "c_remote (sv_client sv' i) = c_remote (sv_client sv i)"
    "c_fd (sv_client sv' i) = c_fd (sv_client sv i)" "c_casefold_nick (sv_client sv' i) = c_casefold_nick (sv_client sv i)"
    using id by (simp_all add: netid_def)
  show ?thesis using loc t u unfolding located_def Let_def e by (auto split: option.splits)
qed

lemma same_tree_keys: "tree_of sv' = tree_of sv \<Longrightarrow> server_keys sv' = server_keys sv"
  using tree_of_keys by metis

lemma calm_ok:
  assumes c: "calm N M" and ok: "net_ok N"
  shows "net_ok M"
proof -
  note D = net_okD [OF ok]
  have k: "server_ok (n_sv M)" "tree_of (n_sv M) = tree_of (n_sv N)" "live (n_sv M) = live (n_sv N)" "sv_users (n_sv M) = sv_users (n_sv N)"
    "\<And>i. i \<in> live (n_sv N) \<Longrightarrow> netid (n_client M i) = netid (n_client N i)" "n_self M = n_self N" "link_view M = link_view N"
    using c D(1) by (auto simp: calm_def keeps_def)
  have "located (n_self M) (n_sv M) i" if "i \<in> live (n_sv M)" for i
    unfolding k(6) using that k(3-5) same_tree_keys [OF k(2)] by (intro located_mono [OF D(3)]) auto
  then show ?thesis using k D by (intro net_okI) auto
qed

subsection \<open>A client goes\<close>

lemma remove_facts:
  fixes W :: world and q :: "string option"
  assumes ok: "server_ok sv" and i: "i \<in> live sv" and qs: "i \<notin> set (ev_dirty (sv_q sv))" "i \<notin> set (ev_dead (sv_q sv))"
  defines "r \<equiv> server_remove_client W i q sv"
  shows "server_ok r" and "live r = live sv - {i}" and "tree_of r = tree_of sv"
    and "j \<noteq> i \<Longrightarrow> netid (sv_client r j) = netid (sv_client sv j)"
    and "map_of (sv_users r) k = Some j \<longleftrightarrow> map_of (sv_users sv) k = Some j \<and> j \<noteq> i"
    and "map_of (sv_by_uid r) u = Some j \<Longrightarrow> map_of (sv_by_uid sv) u = Some j"
proof -
  show "server_ok r" "live r = live sv - {i}" unfolding r_def using server_remove_client_ok [OF ok i qs] by blast+
  obtain sv6 where s: "r = finish_removal i sv6" "server_ok sv6" "live sv6 = live sv"
    "\<And>j. core (sv_client sv6 j) = core (sv_client sv j)" "sv_users sv6 = sv_users sv" "tree_of sv6 = tree_of sv"
    "sv_by_uid sv6 = sv_by_uid (drop_uid i sv)"
    unfolding r_def using remove_client_split [OF ok i, of W q] by blast
  have i6: "i \<in> live sv6" using i s(3) by simp
  note f = finish_removal_fields [OF s(2) i6, folded s(1)]
  show "tree_of r = tree_of sv" using f(16) s(6) by (simp add: tree_of_def)
  show "netid (sv_client r j) = netid (sv_client sv j)" if "j \<noteq> i" using f(2) [OF that] netid_core [OF s(4) [of j]] by simp
  have us: "users_ok sv" "users_ok sv6" using ok s(2) by (simp_all add: server_ok_def)
  have "sv_users r = nick_freed i sv6 \<or> (sv_users r = sv_users sv6 \<and> (\<forall>k. map_of (sv_users sv6) k \<noteq> Some i))"
  proof (cases "map_of (sv_users sv6) (c_casefold_nick (sv_client sv6 i)) = Some i")
    case True
    then have "sv_users r = nick_freed i sv6" unfolding f(8) using users_okD(1) [OF us(2) True] by (simp add: nick_freed_def)
    then show ?thesis ..
  next
    case False
    then have "map_of (sv_users sv6) k \<noteq> Some i" for k using users_okD(1) [OF us(2), of k i] by auto
    then show ?thesis unfolding f(8) using False by simp
  qed
  then show "map_of (sv_users r) k = Some j \<longleftrightarrow> map_of (sv_users sv) k = Some j \<and> j \<noteq> i"
    using nick_freed_Some [OF us(2), of i k j] s(5) by auto
  show "map_of (sv_by_uid r) u = Some j \<Longrightarrow> map_of (sv_by_uid sv) u = Some j"
    unfolding f(9) s(7) drop_uid_by_uid by (auto simp: alist_facts split: if_splits)
qed

lemma remove_orderly:
  assumes ok: "orderly me L sv" and i: "i \<in> live sv" and qs: "i \<notin> set (ev_dirty (sv_q sv))" "i \<notin> set (ev_dead (sv_q sv))"
  shows "orderly me L (server_remove_client W i q sv)"
proof -
  note D = orderlyD [OF ok]
  note f = remove_facts [OF D(1) i qs, where W = W and q = q]
  have "located me (server_remove_client W i q sv) j" if "j \<in> live sv - {i}" for j
    using that f(4) [of j] f(5) [of _ j] same_tree_keys [OF f(3)] by (intro located_mono [OF D(3)]) auto
  then show ?thesis using D f by (simp add: orderly_def)
qed

lemma remote_idle:
  assumes ok: "orderly me L sv" and i: "i \<in> live sv" and r: "c_remote (sv_client sv i)"
  shows "i \<notin> set (ev_dirty (sv_q sv))" and "i \<notin> set (ev_dead (sv_q sv))"
proof -
  have "c_fd (sv_client sv i) < 0" using orderlyD(3) [OF ok i] r by (simp add: located_def Let_def)
  then show "i \<notin> set (ev_dirty (sv_q sv))" "i \<notin> set (ev_dead (sv_q sv))"
    using orderlyD(1) [OF ok] unfolding server_ok_def queues_ok_def by force+
qed

lemma net_order: "net_ok N \<Longrightarrow> orderly (n_self N) (link_view N) (n_sv N)"
  by (simp add: net_ok_def)

lemma remove_ok:
  assumes ok: "net_ok N" and i: "i \<in> live (n_sv N)" and r: "c_remote (n_client N i)"
  shows "net_ok (on_sv (server_remove_client W i q) N)"
  using remove_orderly [OF net_order [OF ok] i remote_idle [OF net_order [OF ok] i r]] ok by (simp add: net_ok_def)

subsection \<open>A client loses its nick, or its place\<close>

text \<open>The tree and the links are as before; nobody but the given client has gone or changed.\<close>

definition spares :: "client_id \<Rightarrow> net \<Rightarrow> net \<Rightarrow> bool" where
  "spares i N M \<longleftrightarrow> n_self M = n_self N \<and> link_view M = link_view N \<and> tree_of (n_sv M) = tree_of (n_sv N) \<and>
     live (n_sv N) - {i} \<subseteq> live (n_sv M) \<and> live (n_sv M) \<subseteq> live (n_sv N) \<and>
     (\<forall>j \<in> live (n_sv N) - {i}. netid (n_client M j) = netid (n_client N j)) \<and>
     (\<forall>k j. map_of (sv_users (n_sv M)) k = Some j \<longleftrightarrow> map_of (sv_users (n_sv N)) k = Some j \<and> j \<noteq> i) \<and>
     (\<forall>u j. map_of (sv_by_uid (n_sv M)) u = Some j \<longrightarrow> map_of (sv_by_uid (n_sv N)) u = Some j)"

lemma sparesI:
  assumes "n_self M = n_self N" and "link_view M = link_view N" and "tree_of (n_sv M) = tree_of (n_sv N)"
    and "live (n_sv N) - {i} \<subseteq> live (n_sv M)" and "live (n_sv M) \<subseteq> live (n_sv N)"
    and "\<And>j. j \<in> live (n_sv N) \<Longrightarrow> j \<noteq> i \<Longrightarrow> netid (n_client M j) = netid (n_client N j)"
    and "\<And>k j. map_of (sv_users (n_sv M)) k = Some j \<longleftrightarrow> map_of (sv_users (n_sv N)) k = Some j \<and> j \<noteq> i"
    and "\<And>u j. map_of (sv_by_uid (n_sv M)) u = Some j \<Longrightarrow> map_of (sv_by_uid (n_sv N)) u = Some j"
  shows "spares i N M"
  unfolding spares_def using assms by blast

lemma removed_spares:
  assumes ok: "net_ok N" and i: "i \<in> live (n_sv N)" and r: "c_remote (n_client N i)"
  shows "spares i N (on_sv (server_remove_client W i q) N)"
proof -
  note f = remove_facts [OF net_okD(1) [OF ok] i remote_idle [OF net_order [OF ok] i r], where W = W and q = q]
  show ?thesis by (rule sparesI) (use f(2-6) in simp_all)
qed

lemma evict_ok:
  assumes ok: "net_ok N" and i: "i \<in> live (n_sv N)" and r: "\<not> c_remote (n_client N i)"
  shows "net_ok (on_sv (evict_local_for_collision i) N)" and "spares i N (on_sv (evict_local_for_collision i) N)"
proof -
  note D = net_okD [OF ok]
  define sv where "sv = n_sv N"
  define cl where "cl = (sv_client sv i)\<lparr>c_casefold_nick := [], c_quit_reason := ''Nick collision''\<rparr>"
  define t where "t = sv_write i cl (sv\<lparr>sv_users := nick_freed i sv\<rparr>)"
  define s where "s = t\<lparr>sv_q := client_mark_quit i (sv_q t)\<rparr>"
  have us: "users_ok sv" using D(1) by (simp add: sv_def server_ok_def)
  have e: "evict_local_for_collision i sv = s"
    by (simp add: evict_local_for_collision_def Let_def s_def t_def cl_def nick_freed_def)
  have t: "server_ok t" "live t = live sv" unfolding t_def using nick_freed_ok [of sv i cl] D(1) i by (simp_all add: cl_def sv_def)
  have s: "server_ok s" "live s = live sv" using mark_quit_ok [OF t(1), of i] t(2) i by (simp_all add: s_def sv_def)
  have n: "netid (sv_client s j) = netid (if j = i then cl else sv_client sv j)" for j
    by (simp add: s_def t_def client_mark_quit_def Let_def ev_client_def ev_write_def sv_write_def update_conv netid_def)
  have u: "map_of (sv_users s) k = Some j \<longleftrightarrow> map_of (sv_users sv) k = Some j \<and> j \<noteq> i" for k j
    using nick_freed_Some [OF us, of i k j] by (simp add: s_def t_def)
  have tr: "tree_of s = tree_of sv" by (simp add: s_def t_def tree_of_def)
  have b: "sv_by_uid s = sv_by_uid sv" by (simp add: s_def t_def)
  have M: "n_sv (on_sv (evict_local_for_collision i) N) = s" using e by (simp add: sv_def)
  show "spares i N (on_sv (evict_local_for_collision i) N)"
  proof (rule sparesI, unfold M)
    show "netid (sv_client s j) = netid (n_client N j)" if "j \<noteq> i" for j using n [of j] that by (simp add: sv_def)
    show "tree_of s = tree_of (n_sv N)" using tr by (simp add: sv_def)
    show "live (n_sv N) - {i} \<subseteq> live s" "live s \<subseteq> live (n_sv N)" using s(2) by (auto simp: sv_def)
    show "map_of (sv_users s) k = Some j \<longleftrightarrow> map_of (sv_users (n_sv N)) k = Some j \<and> j \<noteq> i" for k j using u [of k j] by (simp only: sv_def)
    show "map_of (sv_by_uid s) x = Some j \<Longrightarrow> map_of (sv_by_uid (n_sv N)) x = Some j" for x j using b by (simp only: sv_def)
  qed simp_all
  have "located (n_self N) s j" if j: "j \<in> live sv" for j
  proof (cases "j = i")
    case True
    have loc: "located (n_self N) sv i" using D(3) i by (simp add: sv_def)
    have "c_nserver (sv_client s i) = c_nserver (sv_client sv i)" "c_remote (sv_client s i) = c_remote (sv_client sv i)"
      using n [of i] by (simp_all add: netid_def cl_def)
    then show ?thesis using loc r same_tree_keys [OF tr] unfolding located_def sv_def True by (simp add: Let_def split: option.splits)
  next
    case False
    have "located (n_self N) sv j" using D(3) j by (simp add: sv_def)
    then show ?thesis
    proof (rule located_mono)
      show "netid (sv_client s j) = netid (sv_client sv j)" using n [of j] False by simp
      show "server_keys sv \<subseteq> server_keys s" using same_tree_keys [OF tr] by simp
    qed (use u [of _ j] False in blast)
  qed
  then show "net_ok (on_sv (evict_local_for_collision i) N)"
    using s tr D by (intro net_okI, unfold M) (simp_all add: sv_def)
qed

lemma net_frame_ok: "n_sv M = n_sv N \<Longrightarrow> n_self M = n_self N \<Longrightarrow> link_view M = link_view N \<Longrightarrow> net_ok N \<Longrightarrow> net_ok M"
  by (rule calm_ok [OF calm_frame])

lemma flood_ok [simp]: "net_ok (flood e x N) = net_ok N" "net_ok (send_link l x N) = net_ok N" "net_ok (tell y N) = net_ok N"
  "net_ok (link_close l N) = net_ok N" "net_ok (link_forward_line l x N) = net_ok N" "net_ok (link_lines l xs N) = net_ok N"
  by (simp_all add: net_ok_def)

lemma spares_flood [simp]: "spares i (flood e x N) M = spares i N M" "spares i (send_link l x N) M = spares i N M"
  by (simp_all add: spares_def)

lemma drop_holder_ok:
  assumes ok: "net_ok N" and i: "i \<in> live (n_sv N)"
  shows "net_ok (drop_holder W i N)" and "spares i N (drop_holder W i N)"
proof -
  define M where "M = flood None (kill_line N (c_uid (n_client N i))) N"
  have M: "net_ok M" "i \<in> live (n_sv M)" "n_sv M = n_sv N" "\<And>X. spares i M X = spares i N X" using ok i by (simp_all add: M_def)
  have r: "net_ok (on_sv (server_remove_client W i (Some ''Nick collision'')) M)"
    "spares i N (on_sv (server_remove_client W i (Some ''Nick collision'')) M)" if "c_remote (n_client N i)"
    using remove_ok [OF M(1,2)] removed_spares [OF M(1,2)] that unfolding M(3,4) by blast+
  show "net_ok (drop_holder W i N)" "spares i N (drop_holder W i N)"
    using r evict_ok [OF ok i] unfolding drop_holder_def M_def [symmetric] by presburger+
qed

section \<open>Who a line is from\<close>

lemma unused_notin: "unused xs \<notin> set xs"
proof -
  have "x \<le> foldr max xs 0" if "x \<in> set xs" for x using that by (induction xs) auto
  then show ?thesis unfolding unused_def using not_less_eq_eq by blast
qed

lemma key_Some: "s \<in> server_keys sv \<longleftrightarrow> map_of (tree_of sv) s \<noteq> None"
  by (simp add: tree_of_keys [symmetric] map_of_eq_None_iff)

text \<open>The branch of the tree a link leads to.\<close>

definition branch :: "net \<Rightarrow> nat \<Rightarrow> nat set" where
  "branch N l = {s \<in> server_keys (n_sv N). s \<noteq> n_self N \<and> ns_route (the_server N s) = Some l}"

lemma root_branch:
  assumes ok: "net_ok N" and r: "root_of (link_view N) l = Some r"
  shows "r \<in> branch N l" and "r \<noteq> n_self N"
  using tree_okD(5) [OF net_okD(2) [OF ok] r] by (auto simp: branch_def key_Some tree_of_lookup)

lemma behind_branch:
  assumes ok: "net_ok N" and r: "root_of (link_view N) l = Some r"
  shows "netsync_is_behind (servers N) s r \<longleftrightarrow> s \<in> branch N l"
proof -
  let ?T = "tree_of (n_sv N)"
  note T = net_okD(2) [OF ok]
  have rk: "r \<in> fst ` set ?T" using root_branch [OF ok r] by (simp add: branch_def tree_of_keys)
  show ?thesis
  proof (cases "map_of ?T s")
    case None
    have "\<not> behind_walk n ?T s r" for n
    proof
      assume w: "behind_walk n ?T s r"
      then obtain m where "n = Suc m" by (cases n) auto
      moreover have "s \<noteq> r" using rk None by (auto simp: map_of_eq_None_iff)
      ultimately show False using w None by simp
    qed
    then have "\<not> netsync_is_behind ?T s r" by (simp only: netsync_is_behind_def not_False_eq_True)
    then show ?thesis using None by (simp only: behind_tree_of) (simp add: branch_def key_Some)
  next
    case (Some ns)
    then have sk: "s \<in> fst ` set ?T" by (metis domI dom_map_of_conv_image_fst)
    have e: "netsync_is_behind (servers N) s r \<longleftrightarrow> r \<in> up ?T s" by (simp add: behind_tree_of [symmetric] is_behind_up [OF T sk])
    show ?thesis
    proof (cases "s = n_self N")
      case True
      have "up ?T (n_self N) = {n_self N}" using tree_closed(2) [OF T] by (intro up_root) auto
      then show ?thesis using e True root_branch(2) [OF ok r] by (simp add: branch_def)
    next
      case False
      have "ns_route (the_server N s) = ns_route ns" using Some by (auto simp: tree_of_lookup)
      then show ?thesis using e route_up [OF T r Some False] False Some by (simp add: branch_def key_Some)
    qed
  qed
qed

lemma src_server_branch:
  assumes "net_ok N" and "root_of (link_view N) l = Some r" and "src_server N (Some r) p = Some s"
  shows "s \<in> branch N l"
  using assms behind_branch [OF assms(1,2)] by (auto simp: src_server_def behind_def split: option.splits if_splits)

lemma src_peer_branch:
  assumes "net_ok N" and "root_of (link_view N) l = Some r" and "src_peer N (Some r) p = Some s"
  shows "s \<in> branch N l"
  using src_server_branch [OF assms(1,2)] root_branch [OF assms(1,2)] assms(3)
  by (auto simp: src_peer_def split: option.splits if_splits)

lemma found_branch:
  assumes ok: "net_ok N" and r: "root_of (link_view N) l = Some r"
    and i: "netsync_find_uid N u = Some i" "c_remote (n_client N i)" "behind N (c_nserver (n_client N i)) (Some r)"
  shows "i \<in> live (n_sv N) \<and> (\<exists>s. c_nserver (n_client N i) = Some s \<and> s \<in> branch N l)"
  using find_uid_live [OF net_okD(1) [OF ok] i(1)] i(3) behind_branch [OF ok r] by (auto simp: behind_def split: option.splits)

lemma src_user_branch:
  assumes "net_ok N" and "root_of (link_view N) l = Some r" and "src_user N (Some r) p = Some i"
  shows "i \<in> live (n_sv N)" and "c_remote (n_client N i)" and "\<exists>s. c_nserver (n_client N i) = Some s \<and> s \<in> branch N l"
  using assms(3) found_branch [OF assms(1,2)] by (auto simp: src_user_def split: option.splits if_splits)

section \<open>Servers and users that are introduced\<close>

lemma servers_irrelevant [simp]: "server_ok (sv\<lparr>sv_servers := X\<rparr>) = server_ok sv" "live (sv\<lparr>sv_servers := X\<rparr>) = live sv"
  by (simp_all add: server_ok_def queues_ok_def users_ok_def channels_ok_def conns_ok_def count_of_def live_def)

lemma add_server_facts:
  assumes "add_server ns N = (s, N1)"
  shows "s \<notin> server_keys (n_sv N)" and "tree_of (n_sv N1) = tree_of (n_sv N) @ [(s, ns\<lparr>ns_n_users := 0\<rparr>)]"
    and "n_sv N1 = (n_sv N)\<lparr>sv_servers := servers N @ [(s, ns)]\<rparr>" and "n_self N1 = n_self N" and "n_links N1 = n_links N"
proof -
  have s: "s = unused (map fst (servers N))" "N1 = on_sv (\<lambda>sv. sv\<lparr>sv_servers := sv_servers sv @ [(s, ns)]\<rparr>) N"
    using assms by (auto simp: add_server_def Let_def)
  then show "n_sv N1 = (n_sv N)\<lparr>sv_servers := servers N @ [(s, ns)]\<rparr>" "n_self N1 = n_self N" "n_links N1 = n_links N" by simp_all
  show "s \<notin> server_keys (n_sv N)" using unused_notin [of "map fst (servers N)"] s(1) by (simp add: server_keys_def)
  show "tree_of (n_sv N1) = tree_of (n_sv N) @ [(s, ns\<lparr>ns_n_users := 0\<rparr>)]" by (simp add: s(2) tree_of_def)
qed

lemma grown_orderly:
  assumes ok: "orderly me L sv" and t: "tree_ok me (tree_of sv @ [(s, ns)]) L'"
    and sv': "sv' = sv\<lparr>sv_servers := X\<rparr>" "tree_of sv' = tree_of sv @ [(s, ns)]"
  shows "orderly me L' sv'"
proof -
  have k: "server_keys sv \<subseteq> server_keys sv'" unfolding tree_of_keys [symmetric] sv'(2) by auto
  have "located me sv' i" if "i \<in> live sv" for i
    by (rule located_mono [OF orderlyD(3) [OF ok that]]) (use k in \<open>simp_all add: sv'(1)\<close>)
  then show ?thesis using orderlyD(1) [OF ok] t sv' by (simp add: orderly_def)
qed

lemma handle_server_ok:
  assumes ok: "net_ok N" and r: "root_of (link_view N) l = Some r"
  shows "net_ok (handle_server W l (Some r) msg N)"
proof -
  have main: "net_ok N1" if s: "src_peer N (Some r) (msg_prefix msg) = Some src" and a: "add_server ns N = (x, N1)"
    and ns: "ns_uplink ns = Some src" "ns_route ns = Some l" "ns_n_users ns = 0" for src ns x N1
  proof -
    note f = add_server_facts [OF a]
    have b: "src \<in> server_keys (n_sv N)" "src \<noteq> n_self N" "ns_route (the_server N src) = Some l"
      using src_peer_branch [OF ok r s] by (auto simp: branch_def)
    have x: "x \<notin> fst ` set (tree_of (n_sv N))" using f(1) by (simp add: tree_of_keys)
    have "\<exists>us. map_of (tree_of (n_sv N) @ [(x, ns)]) src = Some us \<and> ns_route us = Some l"
      using b x by (auto simp: map_of_append [OF x] tree_of_keys key_Some tree_of_lookup)
    then have "tree_ok (n_self N) (tree_of (n_sv N) @ [(x, ns)]) (link_view N)"
      using tree_okD(2) [OF net_okD(2) [OF ok]] b ns
      by (intro tree_grow [OF net_okD(2) [OF ok] x ns(1)]) (auto simp: tree_of_keys placed_def)
    moreover have e: "ns\<lparr>ns_n_users := 0\<rparr> = ns" using ns(3) by simp
    ultimately have "orderly (n_self N) (link_view N) (n_sv N1)"
      using f(2) by (intro grown_orderly [OF net_order [OF ok] _ f(3)]) (simp_all only: e)
    then show ?thesis using ok f(4,5) by (simp add: net_ok_def link_view_def)
  qed
  have note_ok: "net_ok (on_sv (server_notify_opers W m) M) = net_ok M" if "net_ok M" for m M
    using calm_ok [OF calm_steady [of "on_sv (server_notify_opers W m) M" M]] that by (auto intro!: steady_intros)
  show ?thesis
    using main ok unfolding handle_server_def Let_def
    by (auto simp: note_ok split: option.split prod.split)
qed

lemma keeps_orderly:
  assumes k: "keeps sv sv'" and ok: "orderly me L sv"
  shows "orderly me L sv'"
proof -
  note D = orderlyD [OF ok]
  have f: "server_ok sv'" "tree_of sv' = tree_of sv" "live sv' = live sv" "sv_users sv' = sv_users sv"
    "\<And>i. i \<in> live sv \<Longrightarrow> netid (sv_client sv' i) = netid (sv_client sv i)"
    using k D(1) by (auto simp: keeps_def)
  have "located me sv' i" if "i \<in> live sv'" for i
    using that f(3-5) same_tree_keys [OF f(2)] by (intro located_mono [OF D(3)]) auto
  then show ?thesis using f D by (simp add: orderly_def)
qed

lemma steady_orderly: "steady sv sv' \<Longrightarrow> orderly me L sv \<Longrightarrow> orderly me L sv'"
  by (rule keeps_orderly [OF steady_keeps])

lemma count_users_facts [simp]:
  "tree_of (add_n_users d s sv) = tree_of sv" "server_ok (add_n_users d s sv) = server_ok sv" "live (add_n_users d s sv) = live sv"
  "sv_client (add_n_users d s sv) j = sv_client sv j" "sv_users (add_n_users d s sv) = sv_users sv" "sv_by_uid (add_n_users d s sv) = sv_by_uid sv"
  by (simp_all add: add_n_users_def tree_of_def tree_count split: option.split)

lemma add_uid_ok:
  assumes ok: "server_ok sv" and i: "i \<in> live sv" and u: "c_uid (sv_client sv i) = u" "u \<noteq> []" "map_of (sv_by_uid sv) u = None"
  shows "server_ok (sv\<lparr>sv_by_uid := sv_by_uid sv @ [(u, i)]\<rparr>)" (is "server_ok ?r")
proof -
  have us: "users_ok sv" using ok by (simp add: server_ok_def)
  have l: "live ?r = live sv" by (simp add: live_def)
  have m: "map_of (sv_by_uid ?r) x = (if x = u then Some i else map_of (sv_by_uid sv) x)" for x
    using u(3) by (auto simp: map_add_def split: option.split)
  have "users_ok ?r"
  proof (rule users_okI, unfold l m)
    show "distinct (map fst (sv_users ?r))" using users_okD(3) [OF us] by simp
    show "distinct (map fst (sv_by_uid ?r))" using users_okD(4) [OF us] u(3) by (auto simp: map_of_eq_None_iff)
    show "j \<in> live sv \<and> k \<noteq> [] \<and> c_casefold_nick (sv_client ?r j) = k" if "map_of (sv_users ?r) k = Some j" for k j
      using users_okD(1) [OF us, of k j] that by simp
    show "j \<in> live sv \<and> k \<noteq> [] \<and> c_uid (sv_client ?r j) = k" if "(if k = u then Some i else map_of (sv_by_uid sv) k) = Some j" for k j
      using users_okD(2) [OF us, of k j] that i u by (auto split: if_splits)
  qed
  then show ?thesis using ok l
    by (simp add: server_ok_def queues_ok_def channels_ok_def conns_ok_def count_of_def)
qed

lemma tree_by_uid [simp]: "tree_of (sv\<lparr>sv_by_uid := X\<rparr>) = tree_of sv" "live (sv\<lparr>sv_by_uid := X\<rparr>) = live sv"
  by (simp_all add: tree_of_def live_def)

lemma new_remote_ok:
  assumes ok: "server_ok sv" and i: "i \<notin> live sv" and f: "fresh_client cl" and fd: "c_fd cl < 0"
  shows "server_ok (new_client i cl sv)"
proof -
  note oks = ok [unfolded server_ok_def]
  have m: "mostly_ok i (new_client i cl sv)" by (rule new_client_mostly_ok [OF ok i f])
  have c: "conns_ok sv" and a: "i \<notin> set (sv_all sv)" using oks i by (auto simp: conns_ok_def)
  have "c_fd (sv_client (new_client i cl sv) j) = c_fd (sv_client sv j)" "c_count_key (sv_client (new_client i cl sv) j) = c_count_key (sv_client sv j)"
    if "j \<in> set (sv_all sv)" for j using that a by auto
  moreover from this have "count_of (new_client i cl sv) k = count_of sv k" for k
    by (simp add: count_of_def cong: filter_cong)
  ultimately have "conns_ok (new_client i cl sv)"
    using c fd unfolding conns_ok_def by auto
  then show ?thesis using m by (simp add: server_ok_def mostly_ok_def)
qed

lemma enter_orderly:
  assumes ok: "orderly me L sv" and i: "i \<notin> live sv" and f: "fresh_client cl" and fd: "c_fd cl < 0" and rm: "c_remote cl"
    and src: "c_nserver cl = Some src" "src \<in> server_keys sv" "src \<noteq> me"
    and u: "c_uid cl \<noteq> []" "map_of (sv_by_uid sv) (c_uid cl) = None"
    and n: "c_casefold_nick cl \<noteq> []" "map_of (sv_users sv) (c_casefold_nick cl) = None"
  shows "orderly me L (enter_user src i cl sv)"
proof -
  define a where "a = add_n_users 1 src (new_client i cl sv)"
  define b where "b = a\<lparr>sv_by_uid := sv_by_uid a @ [(c_uid cl, i)]\<rparr>"
  have e: "enter_user src i cl sv = server_add_user i b"
    by (simp add: enter_user_def Let_def b_def a_def new_client_def)
  have a: "server_ok a" "live a = insert i (live sv)" using new_remote_ok [OF orderlyD(1) [OF ok] i f fd] by (simp_all add: a_def)
  have bo: "server_ok b" unfolding b_def by (rule add_uid_ok [OF a(1)]) (use a u in \<open>simp_all add: a_def\<close>)
  have b: "live b = insert i (live sv)" "sv_users b = sv_users sv" "\<And>j. sv_client b j = (if j = i then cl else sv_client sv j)"
    using a(2) by (simp_all add: b_def a_def)
  note r = add_user_ok [OF bo, of i]
  have r: "server_ok (server_add_user i b)" "live (server_add_user i b) = insert i (live sv)" using r b n by simp_all
  have cl: "sv_client (server_add_user i b) j = (if j = i then cl else sv_client sv j)" for j
    using b(3) by (simp add: server_add_user_def Let_def)
  have t: "tree_of (server_add_user i b) = tree_of sv"
    by (simp add: server_add_user_def Let_def b_def a_def tree_of_def [of "server_add_user i b"] tree_of_def [of "_\<lparr>sv_users := _, sv_max_users := _\<rparr>"])
      (simp add: tree_of_def [symmetric], simp add: tree_of_def new_client_def)
  have us: "map_of (sv_users (server_add_user i b)) k = (if k = c_casefold_nick cl then Some i else map_of (sv_users sv) k)" for k
    using b n by (auto simp: server_add_user_def Let_def map_add_def split: option.split)
  have "located me (server_add_user i b) j" if "j \<in> insert i (live sv)" for j
  proof (cases "j = i")
    case True
    then show ?thesis using src rm fd same_tree_keys [OF t] cl us by (simp add: located_def)
  next
    case False
    then have "located me sv j" using that orderlyD(3) [OF ok] by simp
    then show ?thesis by (rule located_mono) (use False cl us n same_tree_keys [OF t] in auto)
  qed
  then show ?thesis using r t orderlyD(2) [OF ok] by (simp add: e orderly_def)
qed

lemma find_user_live:
  assumes "server_ok sv" and "server_find_user nick sv = Some i"
  shows "i \<in> live sv" and "map_of (sv_users sv) (irc_casefold NICKLEN nick) = Some i"
  using assms users_okD(1) [of sv "irc_casefold NICKLEN nick" i] by (auto simp: server_find_user_def server_ok_def)

lemma net_calm: "net_ok N \<Longrightarrow> steady (n_sv N) (f (n_sv N)) \<Longrightarrow> net_ok (on_sv f N)"
  by (rule calm_ok [OF calm_steady]) simp_all

lemma sparesD:
  assumes "spares i N M"
  shows "n_self M = n_self N" and "link_view M = link_view N" and "tree_of (n_sv M) = tree_of (n_sv N)"
    and "live (n_sv N) - {i} \<subseteq> live (n_sv M)" and "live (n_sv M) \<subseteq> live (n_sv N)"
    and "j \<in> live (n_sv N) - {i} \<Longrightarrow> netid (n_client M j) = netid (n_client N j)"
    and "map_of (sv_users (n_sv M)) k = Some j \<longleftrightarrow> map_of (sv_users (n_sv N)) k = Some j \<and> j \<noteq> i"
    and "map_of (sv_by_uid (n_sv M)) u = Some j \<Longrightarrow> map_of (sv_by_uid (n_sv N)) u = Some j"
  using assms unfolding spares_def by blast+

text \<open>After a collision the network is in order; when the newcomer may come in, the nick is free.\<close>

lemma collision_ok:
  assumes ok: "net_ok N" and c: "resolve_collision W l nick ts uid N = (b, M)"
  shows "net_ok M" and "n_self M = n_self N" and "link_view M = link_view N" and "tree_of (n_sv M) = tree_of (n_sv N)"
    and "b \<Longrightarrow> map_of (sv_users (n_sv M)) (irc_casefold NICKLEN nick) = None"
    and "map_of (sv_by_uid (n_sv N)) u = None \<Longrightarrow> map_of (sv_by_uid (n_sv M)) u = None"
proof -
  have "net_ok M \<and> n_self M = n_self N \<and> link_view M = link_view N \<and> tree_of (n_sv M) = tree_of (n_sv N) \<and>
    (b \<longrightarrow> map_of (sv_users (n_sv M)) (irc_casefold NICKLEN nick) = None) \<and>
    (\<forall>u. map_of (sv_by_uid (n_sv N)) u = None \<longrightarrow> map_of (sv_by_uid (n_sv M)) u = None)"
  proof (cases "server_find_user nick (n_sv N)")
    case None
    then show ?thesis using c ok by (auto simp: resolve_collision_def server_find_user_def)
  next
    case (Some old)
    define N1 where "N1 = (if ts = c_nick_ts (n_client N old) \<or> \<not> ts < c_nick_ts (n_client N old) then send_link l (kill_line N uid) N else N)"
    have N1: "net_ok N1" "n_sv N1 = n_sv N" "n_self N1 = n_self N" "link_view N1 = link_view N" using ok by (auto simp: N1_def)
    have i: "old \<in> live (n_sv N1)" "map_of (sv_users (n_sv N1)) (irc_casefold NICKLEN nick) = Some old"
      using find_user_live [OF net_okD(1) [OF ok] Some] N1(2) by simp_all
    note d = drop_holder_ok [OF N1(1) i(1), of W]
    note D = sparesD [OF d(2)]
    have M: "M = (if ts \<le> c_nick_ts (n_client N old) then drop_holder W old N1 else N1)" "b \<longleftrightarrow> ts < c_nick_ts (n_client N old)"
      using c Some by (auto simp: resolve_collision_def Let_def N1_def)
    show ?thesis
    proof (cases "ts \<le> c_nick_ts (n_client N old)")
      case True
      have "map_of (sv_users (n_sv M)) (irc_casefold NICKLEN nick) = None"
        using True M(1) D(7) [of "irc_casefold NICKLEN nick"] i(2) by (cases "map_of (sv_users (n_sv M)) (irc_casefold NICKLEN nick)") auto
      moreover have "map_of (sv_by_uid (n_sv M)) u = None" if "map_of (sv_by_uid (n_sv N)) u = None" for u
        using True M(1) D(8) [of u] N1(2) that by (cases "map_of (sv_by_uid (n_sv M)) u") auto
      ultimately show ?thesis using True M(1) d(1) D(1-3) N1 by simp
    qed (use M N1 in simp)
  qed
  then show "net_ok M" "n_self M = n_self N" "link_view M = link_view N" "tree_of (n_sv M) = tree_of (n_sv N)"
    "b \<Longrightarrow> map_of (sv_users (n_sv M)) (irc_casefold NICKLEN nick) = None"
    "map_of (sv_by_uid (n_sv N)) u = None \<Longrightarrow> map_of (sv_by_uid (n_sv M)) u = None" by blast+
qed

lemma valid_nick_casefold: "irc_valid_nick nick n \<Longrightarrow> irc_casefold NICKLEN nick \<noteq> []"
  by (cases nick) (simp_all add: irc_valid_nick_def irc_casefold_def NICKLEN_def)

lemma remote_client_facts [simp]:
  "c_remote (remote_client src ps now)" "c_fd (remote_client src ps now) = - 1" "c_nserver (remote_client src ps now) = Some src"
  "c_uid (remote_client src ps now) = clip (UID_LEN + 1) (ps ! 8)" "c_casefold_nick (remote_client src ps now) = irc_casefold NICKLEN (ps ! 0)"
  "fresh_client (remote_client src ps now)"
  by (simp_all add: remote_client_def client_new_def fresh_client_def split_def Let_def)

lemma steady_announce_user [steady_intros]: "steady sv s \<Longrightarrow> steady sv (announce_user W i s)"
  unfolding announce_user_def by (intro steady_intros)

lemma handle_uid_ok:
  assumes ok: "net_ok N" and r: "root_of (link_view N) l = Some r"
  shows "net_ok (handle_uid W l (Some r) msg N)"
proof -
  define ps where "ps = msg_params msg"
  have main: "net_ok (on_sv (\<lambda>sv. announce_user W (unused (map fst (ev_clients (sv_q (n_sv M)))))
      (enter_user src (unused (map fst (ev_clients (sv_q (n_sv M))))) (remote_client src ps (w_now W)) sv)) M)"
    if s: "src_peer N (Some r) (msg_prefix msg) = Some src" and v: "irc_valid_nick (ps ! 0) (int NICKLEN - 1)" and u: "length (ps ! 8) = UID_LEN"
      "netsync_find_uid N (ps ! 8) = None" and c: "resolve_collision W l (ps ! 0) ts (ps ! 8) N = (True, M)" for src M ts
  proof -
    note C = collision_ok [OF ok c]
    let ?i = "unused (map fst (ev_clients (sv_q (n_sv M))))"
    have b: "src \<in> server_keys (n_sv M)" "src \<noteq> n_self M"
      using src_peer_branch [OF ok r s] C(2) same_tree_keys [OF C(4)] by (auto simp: branch_def)
    have i: "?i \<notin> live (n_sv M)" using unused_notin [of "map fst (ev_clients (sv_q (n_sv M)))"] by (simp only: live_def not_False_eq_True)
    have uid: "clip (UID_LEN + 1) (ps ! 8) = ps ! 8" using u(1) by (simp add: clip_def)
    have "ps ! 8 \<noteq> []" using u(1) by (auto simp: UID_LEN_def)
    moreover have "map_of (sv_by_uid (n_sv M)) (ps ! 8) = None" using C(6) u(2) by (simp add: netsync_find_uid_def)
    ultimately have "orderly (n_self M) (link_view M) (enter_user src ?i (remote_client src ps (w_now W)) (n_sv M))"
      by (intro enter_orderly [OF net_order [OF C(1)] i]) (use b uid C(5) valid_nick_casefold [OF v] in simp_all)
    then have "orderly (n_self M) (link_view M) (announce_user W ?i (enter_user src ?i (remote_client src ps (w_now W)) (n_sv M)))"
      by (rule steady_orderly [rotated]) (intro steady_intros)
    then show ?thesis using C(1) by (simp add: net_ok_def)
  qed
  have coll: "net_ok M" if "resolve_collision W l (ps ! 0) ts (ps ! 8) N = (b, M)" for b M ts
    using collision_ok(1) [OF ok that] .
  show ?thesis unfolding handle_uid_def Let_def ps_def [symmetric]
    using ok main coll by (auto split: option.split prod.split bool.split)
qed

section \<open>A nick that changes, a user that leaves\<close>

lemma rekey_orderly:
  assumes ok: "orderly me L sv" and i: "i \<in> live sv" and ne: "irc_casefold NICKLEN n \<noteq> []"
    and free: "map_of (sv_users sv) (irc_casefold NICKLEN n) \<in> {None, Some i}"
  shows "orderly me L (rekey_nick i n sv)"
proof -
  define cl where "cl = (sv_client sv i)\<lparr>c_nick := clip NICKLEN n, c_casefold_nick := irc_casefold NICKLEN n\<rparr>"
  define t where "t = sv_write i cl (sv\<lparr>sv_users := nick_freed i sv\<rparr>)"
  note D = orderlyD [OF ok]
  have us: "users_ok sv" using D(1) by (simp add: server_ok_def)
  have e: "rekey_nick i n sv = server_add_user i t"
    by (simp add: rekey_nick_def Let_def t_def cl_def nick_freed_def)
  note r = rekey_nick_ok [OF D(1) i ne free]
  have cl: "sv_client (rekey_nick i n sv) j = (if j = i then cl else sv_client sv j)" for j
    by (simp add: e t_def server_add_user_def Let_def)
  have tr: "tree_of (rekey_nick i n sv) = tree_of sv" by (simp add: e t_def server_add_user_def Let_def tree_of_def)
  have "map_of (sv_users (rekey_nick i n sv)) k = (case map_of (nick_freed i sv) k of Some j \<Rightarrow> Some j
      | None \<Rightarrow> if k = irc_casefold NICKLEN n then Some i else None)" for k
    by (auto simp: e t_def cl_def server_add_user_def Let_def map_add_def split: option.split)
  then have u: "map_of (sv_users sv) k = Some j \<Longrightarrow> j \<noteq> i \<Longrightarrow> map_of (sv_users (rekey_nick i n sv)) k = Some j"
    "map_of (sv_users (rekey_nick i n sv)) (irc_casefold NICKLEN n) = Some i" for k j
    using nick_freed_Some [OF us, of i k j] nick_freed_Some [OF us, of i "irc_casefold NICKLEN n"] free by (auto split: option.split)
  have "located me (rekey_nick i n sv) j" if "j \<in> live sv" for j
  proof (cases "j = i")
    case True
    then show ?thesis using D(3) [OF i] same_tree_keys [OF tr] cl u(2) by (simp add: located_def Let_def cl_def split: option.splits)
  next
    case False
    show ?thesis by (rule located_mono [OF D(3) [OF that]]) (use False cl u(1) same_tree_keys [OF tr] in auto)
  qed
  then show ?thesis using r tr D(2) by (simp add: orderly_def)
qed

lemma rename_orderly:
  assumes ok: "orderly me L sv" and i: "i \<in> live sv" and ne: "irc_casefold NICKLEN n \<noteq> []"
    and free: "map_of (sv_users sv) (irc_casefold NICKLEN n) \<in> {None, Some i}"
  shows "orderly me L (rename_user W i n ts sv)"
proof -
  define line where "line = reply_line 400 (Some (client_prefix (sv_client sv i) 320)) ''NICK'' [] (Some n)"
  define sv1 where "sv1 = server_watch_notify W i False (server_monitor_notify W i False (server_send_common_channels W i line 0 sv))"
  have st: "steady sv sv1" unfolding sv1_def using i by (intro steady_intros) simp_all
  have s1: "orderly me L sv1" "live sv1 = live sv" "sv_users sv1 = sv_users sv"
    using steady_orderly [OF st ok] steadyD [OF st orderlyD(1) [OF ok]] by simp_all
  have s2: "orderly me L (rekey_nick i n sv1)" "live (rekey_nick i n sv1) = live sv1"
    using rekey_orderly [OF s1(1)] rekey_nick_ok(2) [OF orderlyD(1) [OF s1(1)]] s1(2,3) i ne free by simp_all
  have "steady (rekey_nick i n sv1) (rename_user W i n ts sv)"
    unfolding rename_user_def Let_def line_def [symmetric] sv1_def [symmetric] change_client_def [symmetric]
    using i s1(2) s2(2) by (intro steady_intros) (auto simp: change_client_def [symmetric] intro!: steady_intros)
  then show ?thesis by (rule steady_orderly [OF _ s2(1)])
qed

lemma handle_nick_ok:
  assumes ok: "net_ok N" and r: "root_of (link_view N) l = Some r"
  shows "net_ok (handle_nick W l (Some r) msg N)"
proof (cases "src_user N (Some r) (msg_prefix msg)")
  case None
  then show ?thesis using ok by (simp add: handle_nick_def)
next
  case (Some u)
  note u = src_user_branch [OF ok r Some]
  define n where "n = msg_params msg ! 0"
  have go: "net_ok (on_sv (rename_user W u n ts) M)" if "net_ok M" "u \<in> live (n_sv M)" "irc_valid_nick n (int NICKLEN - 1)"
    "map_of (sv_users (n_sv M)) (irc_casefold NICKLEN n) \<in> {None, Some u}" for M ts
    using rename_orderly [OF net_order [OF that(1)] that(2) valid_nick_casefold [OF that(3)] that(4)] that(1) by (simp add: net_ok_def)
  have clash: "net_ok (drop_holder W c N) \<and> u \<in> live (n_sv (drop_holder W c N)) \<and> map_of (sv_users (n_sv (drop_holder W c N))) (irc_casefold NICKLEN n) = None"
    if c: "server_find_user n (n_sv N) = Some c" "c \<noteq> u" for c
  proof -
    note f = find_user_live [OF net_okD(1) [OF ok] c(1)]
    note d = drop_holder_ok [OF ok f(1), of W]
    note D = sparesD [OF d(2)]
    have "map_of (sv_users (n_sv (drop_holder W c N))) (irc_casefold NICKLEN n) \<noteq> Some j" for j
      using D(7) [of "irc_casefold NICKLEN n" j] f(2) by simp
    then have "map_of (sv_users (n_sv (drop_holder W c N))) (irc_casefold NICKLEN n) = None" by (meson not_None_eq)
    then show ?thesis using d(1) D(4) u(1) c(2) by auto
  qed
  have rm: "net_ok (on_sv (server_remove_client W u q) (flood e x (send_link l y N)))" for q e x y
    by (rule remove_ok) (use ok u in simp_all)
  show ?thesis
  proof (cases "length (msg_params msg) < 2 \<or> \<not> irc_valid_nick n (int NICKLEN - 1)")
    case True
    then show ?thesis using ok unfolding handle_nick_def Some option.case Let_def n_def [symmetric] by auto
  next
    case False
    then have e: "length (msg_params msg) < 2 \<longleftrightarrow> False" "irc_valid_nick n (int NICKLEN - 1) \<longleftrightarrow> True" by auto
    show ?thesis
    proof (cases "server_find_user n (n_sv N)")
      case None
      then have "map_of (sv_users (n_sv N)) (irc_casefold NICKLEN n) \<in> {None, Some u}" by (simp add: server_find_user_def)
      then show ?thesis using go [OF ok u(1)] e
        unfolding handle_nick_def Some option.case Let_def n_def [symmetric] None by simp
    next
      case c: (Some c)
      show ?thesis
      proof (cases "c = u")
        case True
        then have "map_of (sv_users (n_sv N)) (irc_casefold NICKLEN n) \<in> {None, Some u}" using c by (simp add: server_find_user_def)
        then show ?thesis using go [OF ok u(1)] e True
          unfolding handle_nick_def Some option.case Let_def n_def [symmetric] c by simp
      next
        case ne: False
        have "net_ok (on_sv (rename_user W u n ts) (drop_holder W c N))" for ts
          using clash [OF c ne] e by (intro go) auto
        then show ?thesis using rm e ne
          unfolding handle_nick_def Some option.case Let_def n_def [symmetric] c by simp
      qed
    qed
  qed
qed

lemma handle_quit_ok:
  assumes ok: "net_ok N" and r: "root_of (link_view N) l = Some r"
  shows "net_ok (handle_quit W l (Some r) msg N)"
  using ok src_user_branch [OF ok r] remove_ok [OF ok]
  by (auto simp: handle_quit_def Let_def split: option.split)

section \<open>A part of the tree goes away\<close>

text \<open>What a split does to one user.\<close>

definition split_client :: "world \<Rightarrow> nat \<Rightarrow> string \<Rightarrow> client_id \<Rightarrow> server \<Rightarrow> server" where
  "split_client W root reason i sv =
     (if c_remote (sv_client sv i) \<and> (case c_nserver (sv_client sv i) of None \<Rightarrow> False | Some s \<Rightarrow> netsync_is_behind (sv_servers sv) s root)
      then server_remove_client W i (Some reason) sv else sv)"

lemma split_user_client: "split_user W root reason i N = on_sv (split_client W root reason i) N"
  unfolding split_user_def split_client_def behind_def on_sv_def Let_def
  by (cases "c_nserver (n_client N i)") auto

lemma split_users_client: "fold (split_user W root reason) is N = on_sv (\<lambda>sv. fold (split_client W root reason) is sv) N"
  by (induction "is" arbitrary: N) (simp_all add: split_user_client on_sv_def)

definition behind_root :: "tree \<Rightarrow> nat \<Rightarrow> client \<Rightarrow> bool" where
  "behind_root T root c \<longleftrightarrow> c_remote c \<and> (case c_nserver c of None \<Rightarrow> False | Some s \<Rightarrow> netsync_is_behind T s root)"

lemma behind_root_netid: "netid c' = netid c \<Longrightarrow> behind_root T root c' = behind_root T root c"
  by (simp add: behind_root_def netid_def)

lemma split_client_facts:
  fixes W :: world and root :: nat and reason :: string
  assumes ok: "orderly me L sv" and i: "i \<in> live sv"
  defines "r \<equiv> split_client W root reason i sv"
  shows "orderly me L r" and "tree_of r = tree_of sv" and "live r = live sv - {j. j = i \<and> behind_root (tree_of sv) root (sv_client sv i)}"
    and "j \<in> live r \<Longrightarrow> netid (sv_client r j) = netid (sv_client sv j)"
proof -
  have e: "r = (if behind_root (tree_of sv) root (sv_client sv i) then server_remove_client W i (Some reason) sv else sv)"
    unfolding r_def split_client_def behind_root_def behind_tree_of ..
  show "orderly me L r" "tree_of r = tree_of sv" "live r = live sv - {j. j = i \<and> behind_root (tree_of sv) root (sv_client sv i)}"
    "j \<in> live r \<Longrightarrow> netid (sv_client r j) = netid (sv_client sv j)"
  proof -
    have f: "orderly me L (server_remove_client W i (Some reason) sv)" "live (server_remove_client W i (Some reason) sv) = live sv - {i}"
      "tree_of (server_remove_client W i (Some reason) sv) = tree_of sv"
      "j \<noteq> i \<Longrightarrow> netid (sv_client (server_remove_client W i (Some reason) sv) j) = netid (sv_client sv j)"
      if "behind_root (tree_of sv) root (sv_client sv i)" for j
    proof -
      have q: "i \<notin> set (ev_dirty (sv_q sv))" "i \<notin> set (ev_dead (sv_q sv))" using remote_idle [OF ok i] that by (simp_all add: behind_root_def)
      show "orderly me L (server_remove_client W i (Some reason) sv)" by (rule remove_orderly [OF ok i q])
      show "live (server_remove_client W i (Some reason) sv) = live sv - {i}" "tree_of (server_remove_client W i (Some reason) sv) = tree_of sv"
        "j \<noteq> i \<Longrightarrow> netid (sv_client (server_remove_client W i (Some reason) sv) j) = netid (sv_client sv j)"
        using remove_facts(2-4) [OF orderlyD(1) [OF ok] i q, where W = W and q = "Some reason"] by blast+
    qed
    show "orderly me L r" "tree_of r = tree_of sv" "live r = live sv - {j. j = i \<and> behind_root (tree_of sv) root (sv_client sv i)}"
      "j \<in> live r \<Longrightarrow> netid (sv_client r j) = netid (sv_client sv j)"
      using f ok i unfolding e by auto
  qed
qed

lemma split_clients_facts:
  fixes W :: world and root :: nat and reason :: string
  assumes "orderly me L sv" and "distinct is" and "set is \<subseteq> live sv"
  defines "r \<equiv> fold (split_client W root reason) is sv"
  shows "orderly me L r \<and> tree_of r = tree_of sv \<and> live r = live sv - {i \<in> set is. behind_root (tree_of sv) root (sv_client sv i)} \<and>
    (\<forall>j \<in> live r. netid (sv_client r j) = netid (sv_client sv j))"
  using assms(1-3) unfolding r_def
proof (induction "is" arbitrary: sv)
  case (Cons i "is")
  let ?s = "split_client W root reason i sv"
  have i: "i \<in> live sv" using Cons.prems by simp
  note f = split_client_facts [OF Cons.prems(1) i, where W = W and root = root and reason = reason]
  have sub: "set is \<subseteq> live ?s" using Cons.prems f(3) by auto
  note IH = Cons.IH [OF f(1) _ sub]
  have b: "behind_root (tree_of sv) root (sv_client ?s j) = behind_root (tree_of sv) root (sv_client sv j)" if "j \<in> set is" for j
    using f(4) sub that by (intro behind_root_netid) blast
  have "{j \<in> set is. behind_root (tree_of ?s) root (sv_client ?s j)} = {j \<in> set is. behind_root (tree_of sv) root (sv_client sv j)}"
    using b f(2) by auto
  then have IH: "orderly me L (fold (split_client W root reason) is ?s)" "tree_of (fold (split_client W root reason) is ?s) = tree_of ?s"
    "live (fold (split_client W root reason) is ?s) = live ?s - {j \<in> set is. behind_root (tree_of sv) root (sv_client sv j)}"
    "\<forall>j \<in> live (fold (split_client W root reason) is ?s). netid (sv_client (fold (split_client W root reason) is ?s) j) = netid (sv_client ?s j)"
    using IH Cons.prems(2) by simp_all
  then show ?case using f(2-4) by auto
qed simp

lemma users_values_distinct:
  assumes "users_ok sv"
  shows "distinct (map snd (sv_users sv))" and "snd ` set (sv_users sv) \<subseteq> live sv"
proof -
  note D = users_okD [OF assms]
  have f: "k = c_casefold_nick (sv_client sv i)" "i \<in> live sv" if "(k, i) \<in> set (sv_users sv)" for k i
    using D(1) [of k i] that D(3) by simp_all
  have "inj_on snd (set (sv_users sv))" using f(1) by (intro inj_onI) (metis prod.collapse)
  then show "distinct (map snd (sv_users sv))" using D(3) by (simp add: distinct_map)
  show "snd ` set (sv_users sv) \<subseteq> live sv" using f(2) by auto
qed

text \<open>The clients a split leaves, and the servers.\<close>

lemma split_tree:
  fixes W :: world and r :: nat
  assumes ok: "orderly (n_self N) L (n_sv N)"
  defines "M \<equiv> remove_server_tree W r N"
  shows "server_ok (n_sv M)"
    and "tree_of (n_sv M) = filter (\<lambda>(s, _). \<not> (s \<noteq> n_self N \<and> netsync_is_behind (tree_of (n_sv N)) s r)) (tree_of (n_sv N))"
    and "live (n_sv M) = {i \<in> live (n_sv N). \<not> behind_root (tree_of (n_sv N)) r (n_client N i)}"
    and "i \<in> live (n_sv M) \<Longrightarrow> netid (n_client M i) = netid (n_client N i)"
    and "i \<in> live (n_sv M) \<Longrightarrow> located (n_self N) (n_sv M) i"
    and "n_self M = n_self N" and "n_links M = n_links N"
proof -
  let ?T = "tree_of (n_sv N)"
  obtain up reason where M: "M = unlink_servers r (on_sv (\<lambda>sv. server_fbatch_end W FB_NETSPLIT (sv\<lparr>sv_fb_cur :=
      sv_fb_cur (server_fbatch_begin W FB_NETSPLIT ''netsplit'' up (ns_name (the_server N r)) (n_sv N))\<rparr>))
      (let N2 = on_sv (\<lambda>sv. sv\<lparr>sv_fb_cur := FB_NETSPLIT\<rparr>) (on_sv (server_fbatch_begin W FB_NETSPLIT ''netsplit'' up (ns_name (the_server N r))) N)
       in fold (split_user W r reason) (map snd (sv_users (n_sv N2))) N2))"
    unfolding M_def remove_server_tree_def Let_def on_sv_frame by blast
  define sv2 where "sv2 = (server_fbatch_begin W FB_NETSPLIT ''netsplit'' up (ns_name (the_server N r)) (n_sv N))\<lparr>sv_fb_cur := FB_NETSPLIT\<rparr>"
  define sv3 where "sv3 = fold (split_client W r reason) (map snd (sv_users sv2)) sv2"
  define sv4 where "sv4 = server_fbatch_end W FB_NETSPLIT (sv3\<lparr>sv_fb_cur :=
      sv_fb_cur (server_fbatch_begin W FB_NETSPLIT ''netsplit'' up (ns_name (the_server N r)) (n_sv N))\<rparr>)"
  have Mv: "n_sv M = sv4\<lparr>sv_servers := filter (\<lambda>(s, _). \<not> (s \<noteq> n_self N \<and> netsync_is_behind (sv_servers sv4) s r)) (sv_servers sv4)\<rparr>"
    "n_self M = n_self N" "n_links M = n_links N"
    by (simp_all add: M split_users_client Let_def unlink_servers_def sv4_def sv3_def sv2_def)
  then show "n_self M = n_self N" "n_links M = n_links N" by blast+
  have st2: "steady (n_sv N) sv2" unfolding sv2_def by (intro steady_intros)
  note D = steadyD [OF st2 orderlyD(1) [OF ok]]
  have s2: "orderly (n_self N) L sv2" "tree_of sv2 = ?T" "live sv2 = live (n_sv N)" "sv_users sv2 = sv_users (n_sv N)"
    "\<And>i. i \<in> live (n_sv N) \<Longrightarrow> netid (sv_client sv2 i) = netid (n_client N i)"
    using steady_orderly [OF st2 ok] st2 orderlyD(1) [OF ok] by (simp_all add: steady_def keeps_def)
  have us: "users_ok sv2" using orderlyD(1) [OF s2(1)] by (simp add: server_ok_def)
  have f3: "orderly (n_self N) L sv3" "tree_of sv3 = ?T"
    "live sv3 = live sv2 - {i \<in> snd ` set (sv_users sv2). behind_root ?T r (sv_client sv2 i)}"
    "\<And>j. j \<in> live sv3 \<Longrightarrow> netid (sv_client sv3 j) = netid (sv_client sv2 j)"
    using split_clients_facts [OF s2(1) users_values_distinct(1) [OF us], where W = W and root = r and reason = reason] users_values_distinct(2) [OF us] s2(2)
    by (simp_all add: sv3_def)
  have st4: "steady sv3 sv4" unfolding sv4_def by (intro steady_intros)
  have s4: "orderly (n_self N) L sv4" "tree_of sv4 = ?T" "live sv4 = live sv3" "\<And>i. i \<in> live sv3 \<Longrightarrow> netid (sv_client sv4 i) = netid (sv_client sv3 i)"
    using steady_orderly [OF st4 f3(1)] st4 orderlyD(1) [OF f3(1)] f3(2) by (simp_all add: steady_def keeps_def)
  have tr: "tree_of (n_sv M) = filter (\<lambda>(s, _). \<not> (s \<noteq> n_self N \<and> netsync_is_behind ?T s r)) (tree_of sv4)"
    unfolding Mv(1) s4(2) [symmetric] behind_tree_of by (simp add: tree_of_def filter_map comp_def split_def)
  then show "tree_of (n_sv M) = filter (\<lambda>(s, _). \<not> (s \<noteq> n_self N \<and> netsync_is_behind ?T s r)) ?T" using s4(2) by simp
  show "server_ok (n_sv M)" using orderlyD(1) [OF s4(1)] by (simp add: Mv(1))
  have lv: "live (n_sv M) = live sv3" using s4(3) by (simp add: Mv(1))
  have cl: "n_client M i = sv_client sv4 i" for i by (simp add: Mv(1))
  have all: "i \<in> snd ` set (sv_users sv2)" if "i \<in> live sv2" "behind_root ?T r (sv_client sv2 i)" for i
  proof -
    have "map_of (sv_users sv2) (c_casefold_nick (sv_client sv2 i)) = Some i"
      using orderlyD(3) [OF s2(1) that(1)] that(2) by (simp add: located_def behind_root_def Let_def)
    then show ?thesis by (force dest: map_of_SomeD)
  qed
  have br: "behind_root ?T r (sv_client sv2 i) = behind_root ?T r (n_client N i)" if "i \<in> live (n_sv N)" for i
    by (rule behind_root_netid) (rule s2(5) [OF that])
  show L: "live (n_sv M) = {i \<in> live (n_sv N). \<not> behind_root ?T r (n_client N i)}"
    using f3(3) all br s2(3) unfolding lv by auto
  show nid: "netid (n_client M i) = netid (n_client N i)" if "i \<in> live (n_sv M)" for i
    using that s2(3,5) f3(3,4) s4(4) unfolding cl lv by auto
  show "located (n_self N) (n_sv M) i" if i: "i \<in> live (n_sv M)" for i
  proof -
    have i4: "i \<in> live sv4" using i lv s4(3) by simp
    have "\<not> behind_root ?T r (sv_client sv4 i)"
      using behind_root_netid [OF nid [OF i]] i L unfolding cl by simp
    then have "c_nserver (sv_client sv4 i) = Some s \<Longrightarrow> s \<in> server_keys sv4 \<Longrightarrow> s \<in> server_keys (n_sv M)" for s
      using orderlyD(3) [OF s4(1) i4] s4(2)
      unfolding tree_of_keys [symmetric] tr by (force simp: behind_root_def located_def Let_def)
    then show ?thesis using orderlyD(3) [OF s4(1) i4] cl unfolding located_def Mv(1) by (simp add: Let_def split: option.splits)
  qed
qed

lemma split_orderly:
  assumes ok: "orderly (n_self N) L (n_sv N)" and r: "r \<noteq> n_self N" "r \<in> server_keys (n_sv N)"
    and L': "distinct (map fst L')" "\<And>l s. root_of L' l = Some s \<longleftrightarrow> root_of L l = Some s \<and> s \<noteq> r"
  shows "orderly (n_self N) L' (n_sv (remove_server_tree W r N))"
proof -
  let ?T = "tree_of (n_sv N)"
  note T = orderlyD(2) [OF ok] and f = split_tree [OF ok, where W = W and r = r]
  have top: "s = r" if "root_of L l = Some s" "r \<in> up ?T s" for l s
  proof -
    have "(s, n_self N) \<in> below ?T" using tree_okD(5) [OF T that(1)] by (auto simp: below_def)
    moreover have "up ?T (n_self N) = {n_self N}" using tree_closed(2) [OF T] by (intro up_root) auto
    ultimately show ?thesis using that(2) r(1) up_step by fastforce
  qed
  have "tree_ok (n_self N) (tree_of (n_sv (remove_server_tree W r N))) L'"
    unfolding f(2) using r top by (intro tree_cut [OF T _ _ L']) (simp_all add: tree_of_keys)
  then show ?thesis using f(1,5) by (simp add: orderly_def)
qed

lemma handle_squit_ok:
  assumes ok: "net_ok N" and r: "root_of (link_view N) l = Some r"
  shows "net_ok (handle_squit W l (Some r) msg N)"
proof -
  have main: "net_ok (remove_server_tree W s N)" if s: "s \<noteq> n_self N" "netsync_is_behind (servers N) s r" "s \<noteq> r" for s
  proof -
    have b: "s \<in> branch N l" using s behind_branch [OF ok r] by simp
    have "root_of (link_view N) l' \<noteq> Some s" for l'
    proof
      assume a: "root_of (link_view N) l' = Some s"
      then have "l' = l" using b root_branch [OF ok a] by (simp add: branch_def)
      then show False using a r s(3) by simp
    qed
    then have "orderly (n_self N) (link_view N) (n_sv (remove_server_tree W s N))"
      using b tree_okD(2) [OF net_okD(2) [OF ok]] s(1) by (intro split_orderly [OF net_order [OF ok]]) (auto simp: branch_def)
    then show ?thesis using ok split_tree(6,7) [OF net_order [OF ok], where W = W and r = s] by (simp add: net_ok_def link_view_def)
  qed
  show ?thesis
    using ok main unfolding handle_squit_def Let_def
    by (auto simp: behind_def split: list.split option.split)
qed

lemma plain_update:
  assumes "plain_links L" and "map_of L l = Some (s, is, bots)" and "s' \<noteq> None \<longrightarrow> is'"
  shows "plain_links (AList.update l (s', is', bots) L)"
proof -
  have "bots = []" using plain_linksD [OF assms(1) map_of_SomeD [OF assms(2)]] by simp
  then show ?thesis using assms(1,3) unfolding plain_links_def by (induction L) (auto split: if_splits)
qed

lemma set_link_view:
  assumes "map_of (n_links N) l = Some lk"
  shows "link_view (set_link l f N) = AList.update l (link_state (f lk)) (link_view N)" and "map_of (link_view N) l = Some (link_state lk)"
proof -
  have "map (\<lambda>(l, lk). (l, link_state lk)) (AList.update l v L) = AList.update l (link_state v) (map (\<lambda>(l, lk). (l, link_state lk)) L)" for v L
    by (induction L) auto
  then show "link_view (set_link l f N) = AList.update l (link_state (f lk)) (link_view N)" using assms by (simp add: set_link_def link_view_def)
  show "map_of (link_view N) l = Some (link_state lk)" using assms by (simp add: link_view_def map_of_map)
qed

lemma lns_root: "map_of (n_links N) l = Some lk \<Longrightarrow> root_of (link_view N) l = lk_nserver lk"
  by (simp add: root_of_def set_link_view(2) link_state_def split: option.split)

lemma set_link_frame [simp]: "n_sv (set_link l f N) = n_sv N" "n_self (set_link l f N) = n_self N" "n_netjoin (set_link l f N) = n_netjoin N"
  by (simp_all add: set_link_def split: option.split)

text \<open>What a link that goes down takes with it, and what it leaves.\<close>

lemma link_down_facts:
  fixes W :: world and reason :: string
  assumes ok: "net_ok N" and l: "map_of (n_links N) l = Some lk" "lk_nserver lk = Some r"
  defines "M \<equiv> netsync_link_down W l reason N"
  shows "net_ok M" and "n_self M = n_self N"
    and "server_keys (n_sv M) = server_keys (n_sv N) - branch N l"
    and "live (n_sv M) = {i \<in> live (n_sv N). \<not> (c_remote (n_client N i) \<and> (\<exists>s. c_nserver (n_client N i) = Some s \<and> s \<in> branch N l))}"
    and "link_view M = AList.update l (None, lk_is_server lk, lk_bots lk) (link_view N)"
proof -
  have r: "root_of (link_view N) l = Some r" using lns_root [OF l(1)] l(2) by simp
  define N1 where "N1 = (if n_netjoin N = Some l then (on_sv (server_fbatch_end W FB_NETJOIN) N)\<lparr>n_netjoin := None\<rparr> else N)"
  define N2 where "N2 = set_link l (\<lambda>lk. lk\<lparr>lk_nserver := None\<rparr>) N1"
  define M1 where "M1 = remove_server_tree W r N2"
  have st1: "steady (n_sv N) (n_sv N1)" unfolding N1_def by (auto intro!: steady_intros)
  have v1: "n_links N1 = n_links N" "n_self N1 = n_self N" by (simp_all add: N1_def)
  then have lv1: "link_view N1 = link_view N" by (simp add: link_view_def)
  have v2: "link_view N2 = AList.update l (None, lk_is_server lk, lk_bots lk) (link_view N)" "n_sv N2 = n_sv N1" "n_self N2 = n_self N"
    using set_link_view(1) [of N1 l lk] l v1 lv1 by (simp_all add: N2_def link_state_def)
  have o2: "orderly (n_self N2) (link_view N) (n_sv N2)" using steady_orderly [OF st1 net_order [OF ok]] v2 v1 by simp
  have k: "keeps (n_sv N) (n_sv N1)" by (rule steady_keeps [OF st1])
  then have t1: "tree_of (n_sv N1) = tree_of (n_sv N)" "live (n_sv N1) = live (n_sv N)"
    "\<And>i. i \<in> live (n_sv N) \<Longrightarrow> netid (n_client N1 i) = netid (n_client N i)"
    using net_okD(1) [OF ok] by (simp_all add: keeps_def)
  have rk: "r \<in> server_keys (n_sv N)" "r \<noteq> n_self N" using root_branch [OF ok r] by (auto simp: branch_def)
  have one: "root_of (link_view N) l' = Some s \<and> s \<noteq> r \<longleftrightarrow> root_of (link_view N) l' = Some s \<and> l' \<noteq> l" for l' s
    using root_branch(1) [OF ok, of l' s] root_branch(1) [OF ok r] r by (auto simp: branch_def)
  have dL: "distinct (map fst (link_view N2))" using tree_okD(2) [OF net_okD(2) [OF ok]] by (simp add: v2(1) distinct_keys_update)
  have roots: "root_of (link_view N2) l' = Some s \<longleftrightarrow> root_of (link_view N) l' = Some s \<and> s \<noteq> r" for l' s
    unfolding v2(1) root_of_update one by simp
  have o3: "orderly (n_self N2) (link_view N2) (n_sv M1)" unfolding M1_def
    by (rule split_orderly [OF o2 _ _ dL roots]) (use rk v2(2,3) same_tree_keys [OF t1(1)] in simp_all)
  note f = split_tree [OF o2, where W = W and r = r, folded M1_def]
  have lvM: "link_view M1 = link_view N2" using f(7) by (simp add: link_view_def)
  define M2 where "M2 = flood (Some l) (net_line 300 (self_sid M1) ''SQUIT'' [ns_sid (the_server N r)] (Some reason)) M1"
  have M: "M = on_sv (server_notify_opers W (clip 240 (''Netsplit: '' @ ns_name (the_server N (n_self N)) @ '' '' @ ns_name (the_server N r)))) M2"
    unfolding M_def netsync_link_down_def l option.case Let_def N1_def [symmetric] N2_def [symmetric] M1_def [symmetric] M2_def ..
  have st: "steady (n_sv M1) (n_sv M)" by (simp add: M M2_def) (intro steady_intros)
  have pl: "plain_links (link_view N2)" unfolding v2(1)
    by (rule plain_update [OF net_okD(4) [OF ok]]) (use set_link_view(2) [OF l(1)] in \<open>simp_all add: link_state_def\<close>)
  have Mf: "n_self M = n_self N" "link_view M = link_view N2" using f(6) v2(3) lvM by (simp_all add: M M2_def)
  show "n_self M = n_self N" by (rule Mf(1))
  show "link_view M = AList.update l (None, lk_is_server lk, lk_bots lk) (link_view N)" using Mf(2) v2(1) by simp
  show "net_ok M" using steady_orderly [OF st o3] Mf v2(3) pl by (simp add: net_ok_def)
  have kM: "tree_of (n_sv M) = tree_of (n_sv M1)" "live (n_sv M) = live (n_sv M1)" using st orderlyD(1) [OF o3] by (simp_all add: steady_def keeps_def)
  have br: "netsync_is_behind (tree_of (n_sv N)) s r \<longleftrightarrow> s \<in> branch N l" for s using behind_branch [OF ok r] by (simp add: behind_tree_of)
  have T2: "tree_of (n_sv N2) = tree_of (n_sv N)" using v2(2) t1(1) by simp
  show "server_keys (n_sv M) = server_keys (n_sv N) - branch N l"
    unfolding tree_of_keys [symmetric] kM f(2) T2 br v2(3) by (force simp: branch_def)
  have "behind_root (tree_of (n_sv N)) r (n_client N2 i) \<longleftrightarrow>
      c_remote (n_client N i) \<and> (\<exists>s. c_nserver (n_client N i) = Some s \<and> s \<in> branch N l)" if "i \<in> live (n_sv N)" for i
    using behind_root_netid [OF t1(3) [OF that]] v2(2) by (simp add: behind_root_def br split: option.split)
  then show "live (n_sv M) = {i \<in> live (n_sv N). \<not> (c_remote (n_client N i) \<and> (\<exists>s. c_nserver (n_client N i) = Some s \<and> s \<in> branch N l))}"
    unfolding kM(2) f(3) T2 using v2(2) t1(2) by auto
qed

section \<open>Links that come and go\<close>

lemma burst_frame [simp]: "n_sv (send_burst l N) = n_sv N" "n_self (send_burst l N) = n_self N" "link_view (send_burst l N) = link_view N"
  by (simp_all add: send_burst_def)

lemma link_up_ok:
  assumes ok: "net_ok N" and l: "map_of (n_links N) l = Some lk" "lk_nserver lk = None"
  shows "net_ok (snd (netsync_link_up W l name sid desc N))"
proof (cases "netsync_find_sid N sid \<noteq> None \<or> netsync_find_name N name \<noteq> None")
  case True
  then show ?thesis using ok by (simp add: netsync_link_up_def)
next
  case False
  define ns where "ns = \<lparr>ns_name = clip 128 name, ns_sid = clip (SID_LEN + 1) sid, ns_desc = clip 128 desc, ns_hop = 1,
                      ns_uplink = Some (n_self N), ns_route = Some l, ns_n_users = 0\<rparr>"
  obtain s N1 where a: "add_server ns N = (s, N1)" by (cases "add_server ns N") auto
  note f = add_server_facts [OF a]
  define N2 where "N2 = set_link l (\<lambda>lk. lk\<lparr>lk_is_server := True, lk_nserver := Some s\<rparr>) N1"
  have v1: "link_view N1 = link_view N" using f(5) by (simp add: link_view_def)
  have v2: "link_view N2 = AList.update l (Some s, True, lk_bots lk) (link_view N)" "n_sv N2 = n_sv N1" "n_self N2 = n_self N"
    using set_link_view(1) [of N1 l lk] l f(4,5) v1 by (simp_all add: N2_def link_state_def)
  have x: "s \<notin> fst ` set (tree_of (n_sv N))" using f(1) by (simp add: tree_of_keys)
  have me: "n_self N \<in> server_keys (n_sv N)" using tree_okD(3) [OF net_okD(2) [OF ok]] by (auto simp: key_Some)
  have free: "root_of (link_view N) l = None" using lns_root [OF l(1)] l(2) by simp
  have "tree_ok (n_self N) (tree_of (n_sv N) @ [(s, ns)]) (link_view N2)"
  proof (rule tree_grow [OF net_okD(2) [OF ok] x])
    show "ns_uplink ns = Some (n_self N)" "n_self N \<in> fst ` set (tree_of (n_sv N))" using me by (simp_all add: ns_def tree_of_keys)
    show "distinct (map fst (link_view N2))" using tree_okD(2) [OF net_okD(2) [OF ok]] by (simp add: v2(1) distinct_keys_update)
    show "root_of (link_view N) l' = Some r \<Longrightarrow> root_of (link_view N2) l' = Some r" for l' r using free by (auto simp: v2(1) root_of_update)
    show "placed (n_self N) (tree_of (n_sv N) @ [(s, ns)]) (link_view N2) s ns" by (simp add: placed_def ns_def v2(1) root_of_update)
    show "r = s \<and> n_self N = n_self N \<and> ns_route ns = Some l'" if "root_of (link_view N2) l' = Some r" "root_of (link_view N) l' \<noteq> Some r" for l' r
      using that by (auto simp: v2(1) root_of_update ns_def split: if_splits)
  qed
  moreover have e: "ns\<lparr>ns_n_users := 0\<rparr> = ns" by (simp add: ns_def)
  ultimately have o2: "orderly (n_self N) (link_view N2) (n_sv N1)"
    using f(2) by (intro grown_orderly [OF net_order [OF ok] _ f(3)]) (simp_all only: e)
  have pl: "plain_links (link_view N2)" unfolding v2(1)
    by (rule plain_update [OF net_okD(4) [OF ok]]) (use set_link_view(2) [OF l(1)] in \<open>simp_all add: link_state_def\<close>)
  have "net_ok N2" using o2 pl v2 by (simp add: net_ok_def)
  then have n3: "net_ok (on_sv (server_fbatch_begin W FB_NETJOIN ''netjoin'' q name) N2)" for q
    by (rule net_calm) (intro steady_intros)
  have "net_ok (snd (netsync_link_up W l name sid desc N))
    = net_ok (on_sv (server_fbatch_begin W FB_NETJOIN ''netjoin'' (ns_name (the_server N (n_self N))) name) N2)"
    using False unfolding netsync_link_up_def Let_def ns_def [symmetric] a prod.case N2_def [symmetric] if_not_P [OF False]
    by (simp add: net_ok_def)
  then show ?thesis using n3 by simp
qed

lemma tree_ok_other_links: "tree_ok me T L \<Longrightarrow> distinct (map fst L') \<Longrightarrow> (\<And>l. root_of L' l = root_of L l) \<Longrightarrow> tree_ok me T L'"
proof -
  assume ok: "tree_ok me T L" and "distinct (map fst L')" and e: "\<And>l. root_of L' l = root_of L l"
  then show "tree_ok me T L'" unfolding tree_ok_def placed_def e by blast
qed

lemma drop_link_ok:
  assumes ok: "net_ok N" and l: "root_of (link_view N) l = None"
  shows "net_ok (N\<lparr>n_links := AList.delete l (n_links N)\<rparr>)"
proof -
  have v: "link_view (N\<lparr>n_links := AList.delete l (n_links N)\<rparr>) = AList.delete l (link_view N)"
    by (simp add: link_view_def AList.delete_eq filter_map comp_def split_def)
  have "root_of (AList.delete l (link_view N)) l' = root_of (link_view N) l'" for l'
    using l by (cases "l' = l") (simp_all add: root_of_def map_of_delete)
  moreover have "distinct (map fst (AList.delete l (link_view N)))"
    using tree_okD(2) [OF net_okD(2) [OF ok]] by (rule distinct_keys_delete)
  ultimately have "tree_ok (n_self N) (tree_of (n_sv N)) (AList.delete l (link_view N))"
    by (intro tree_ok_other_links [OF net_okD(2) [OF ok]])
  moreover have "plain_links (AList.delete l (link_view N))"
    using net_okD(4) [OF ok] unfolding AList.delete_eq by (rule plain_filter)
  ultimately show ?thesis using ok v by (simp add: net_ok_def orderly_def)
qed

lemma reap_link_ok:
  assumes ok: "net_ok N"
  shows "net_ok (reap_link W l N)"
proof (cases "map_of (n_links N) l")
  case None
  then show ?thesis using ok by (simp add: reap_link_def)
next
  case (Some lk)
  define N1 where "N1 = (if lk_is_server lk then netsync_link_down W l ''Link closed'' N else N)"
  have pl: "(lk_nserver lk \<noteq> None \<longrightarrow> lk_is_server lk) \<and> lk_bots lk = []"
    by (rule plain_linksD [OF net_okD(4) [OF ok] map_of_SomeD [OF set_link_view(2) [OF Some], unfolded link_state_def]])
  have n1: "net_ok N1 \<and> root_of (link_view N1) l = None"
  proof (cases "lk_nserver lk")
    case None
    then have "N1 = N" by (simp add: N1_def netsync_link_down_def Some)
    then show ?thesis using ok lns_root [OF Some] None by simp
  next
    case r: (Some r)
    note f = link_down_facts [OF ok Some r, where W = W and reason = "''Link closed''"]
    have "N1 = netsync_link_down W l ''Link closed'' N" using pl r by (simp add: N1_def)
    then show ?thesis using f(1,5) by (simp add: root_of_update)
  qed
  then have n2: "net_ok (N1\<lparr>n_links := AList.delete l (n_links N1)\<rparr>)" by (intro drop_link_ok) simp_all
  have "net_ok (on_sv (server_notify_opers W m) (N1\<lparr>n_links := AList.delete l (n_links N1)\<rparr>))" for m
    by (rule net_calm [OF n2]) (intro steady_intros)
  moreover have "on_sv id M = M" for M by (simp add: on_sv_def)
  ultimately show ?thesis
    using n2 pl unfolding reap_link_def Some option.case Let_def N1_def [symmetric] by simp
qed

lemma link_reap_ok: "net_ok N \<Longrightarrow> net_ok (link_reap W N)"
proof -
  have "net_ok N \<Longrightarrow> net_ok (fold (reap_link W) ls N)" for ls by (induction ls arbitrary: N) (simp_all add: reap_link_ok)
  then show "net_ok N \<Longrightarrow> net_ok (link_reap W N)" by (simp add: link_reap_def)
qed

section \<open>Every line\<close>

lemma handled_ok:
  assumes ok: "net_ok N"
  shows "net_ok (netsync_handle W l msg N)"
proof (cases "map_of (n_links N) l")
  case None
  then show ?thesis using ok by (simp add: netsync_handle_def)
next
  case (Some lk)
  show ?thesis
  proof (cases "lk_nserver lk")
    case None
    then show ?thesis using ok Some by (simp add: netsync_handle_def)
  next
    case r: (Some r)
    have rt: "root_of (link_view N) l = Some r" using lns_root [OF Some] r by simp
    have c: "net_ok M" if "calm N M" for M using calm_ok [OF that ok] .
    have "\<forall>(cmd, f) \<in> set (handlers W l (Some r) msg). net_ok (f N)"
      unfolding handlers_def list.set(2) list.set(1) ball_simps prod.case
      by (intro conjI TrueI ballI) (intro handle_server_ok [OF ok rt] handle_uid_ok [OF ok rt] handle_nick_ok [OF ok rt] handle_quit_ok [OF ok rt]
          handle_squit_ok [OF ok rt] c calm_handlers)+
    then have "map_of (handlers W l (Some r) msg) (msg_command msg) = Some f \<Longrightarrow> net_ok (f N)" for f
      by (auto dest!: map_of_SomeD)
    then show ?thesis using ok by (simp add: netsync_handle_def Some r split: option.split)
  qed
qed

section \<open>The states of the network\<close>

lemma accept_orderly:
  assumes ok: "orderly me L sv" and i: "i \<notin> live sv" and f: "fresh_client cl" and fd: "c_fd cl \<ge> 0"
    and own: "\<not> c_remote cl" "c_nserver cl = None"
  shows "orderly me L (server_add_connection W i (new_client i cl sv))"
proof -
  let ?r = "server_add_connection W i (new_client i cl sv)"
  have o: "server_ok ?r" by (rule add_connection_ok [OF orderlyD(1) [OF ok] i f fd])
  have n: "sv_client ?r j = (if j = i then sv_client ?r i else sv_client sv j)" for j
    by (simp add: server_add_connection_def Let_def client_mark_dirty_def ev_client_write)
  have m: "c_remote (sv_client ?r i) = c_remote cl" "c_nserver (sv_client ?r i) = c_nserver cl"
    by (simp_all add: server_add_connection_def Let_def client_mark_dirty_def ev_client_write)
  have l: "live ?r \<subseteq> insert i (live sv)"
    by (auto simp: server_add_connection_def Let_def client_mark_dirty_def live_def ev_write_def sv_write_def new_client_def update_keys)
  have t: "tree_of ?r = tree_of sv" "sv_users ?r = sv_users sv"
    by (simp_all add: server_add_connection_def Let_def tree_of_def new_client_def)
  have "located me ?r j" if "j \<in> live ?r" for j
  proof (cases "j = i")
    case True
    then show ?thesis using own m by (simp add: located_def)
  next
    case False
    then have "located me sv j" using that l orderlyD(3) [OF ok] by auto
    then show ?thesis by (rule located_mono) (use n [of j] False t same_tree_keys [OF t(1)] in simp_all)
  qed
  then show ?thesis using o t orderlyD(2) [OF ok] by (simp add: orderly_def)
qed

lemma reap_one_orderly:
  assumes ok: "orderly me L sv" and d: "ev_dead (sv_q sv) = i # rest"
  shows "orderly me L (reap_one W sv)"
proof -
  define sva where "sva = sv\<lparr>sv_q := (sv_q sv)\<lparr>ev_dead := rest\<rparr>\<rparr>"
  define svb where "svb = sva\<lparr>sv_q := client_unmark_dirty i (sv_q sva)\<rparr>"
  have qs: "queues_ok sv" using orderlyD(1) [OF ok] by (simp add: server_ok_def)
  have i: "i \<in> live sv" and ir: "i \<notin> set rest" using qs d by (auto simp: queues_ok_def)
  have l: "live sva = live sv" by (simp add: sva_def live_def)
  have cla: "sv_client sva j = sv_client sv j" for j by (simp add: sva_def ev_client_def)
  have "queues_ok sva" using qs d unfolding queues_ok_def l cla by (auto simp: sva_def)
  then have oka: "server_ok sva" unfolding sva_def
    by (intro queue_step_ok [OF orderlyD(1) [OF ok]]) (simp_all add: live_def ev_client_def)
  note u = unmark_dirty_ok [OF oka, of i, unfolded l, OF i, folded svb_def]
  have b: "i \<in> live svb" "i \<notin> set (ev_dirty (sv_q svb))" "i \<notin> set (ev_dead (sv_q svb))"
    using u i ir by (simp_all add: svb_def sva_def)
  have t: "tree_of svb = tree_of sv" "sv_users svb = sv_users sv" by (simp_all add: svb_def sva_def tree_of_def)
  have n: "netid (sv_client svb j) = netid (sv_client sv j)" for j
    using cla by (simp add: svb_def client_unmark_dirty_def Let_def ev_client_write netid_def)
  have "located me svb j" if "j \<in> live sv" for j
    by (rule located_mono [OF orderlyD(3) [OF ok that] n]) (simp_all add: t same_tree_keys [OF t(1)])
  then have "orderly me L svb" using u t orderlyD(2) [OF ok] l by (simp add: orderly_def)
  moreover have "\<exists>r. reap_one W sv = server_remove_client W i r svb"
    by (auto simp: reap_one_def d Let_def svb_def sva_def)
  ultimately show ?thesis using remove_orderly b by metis
qed

lemma introduce_ok:
  assumes ok: "net_ok N" and i: "i \<in> live (n_sv N)" and own: "\<not> c_remote (n_client N i)"
    and u: "c_uid (n_client N i) = [] \<Longrightarrow> map_of (sv_by_uid (n_sv N)) (make_uid (self_sid N) (unat (n_uid_counter N + 1))) = None"
      "make_uid (self_sid N) (unat (n_uid_counter N + 1)) \<noteq> []"
  shows "net_ok (netsync_introduce_user W i N)"
proof -
  define N1 where "N1 = netsync_assign_uid i N"
  have n1: "net_ok N1 \<and> live (n_sv N1) = live (n_sv N)"
  proof (cases "c_uid (n_client N i) = []")
    case False
    then show ?thesis using ok by (simp add: N1_def netsync_assign_uid_def)
  next
    case True
    define uid where "uid = make_uid (self_sid N) (unat (n_uid_counter N + 1))"
    define cl where "cl = (n_client N i)\<lparr>c_uid := uid, c_nserver := Some (n_self N)\<rparr>"
    define a where "a = add_n_users 1 (n_self N) (sv_write i cl (n_sv N))"
    define b where "b = a\<lparr>sv_by_uid := sv_by_uid (n_sv N) @ [(uid, i)]\<rparr>"
    note D = net_okD [OF ok]
    note oks = D(1) [unfolded server_ok_def]
    have N1: "n_sv N1 = b" "n_self N1 = n_self N" "link_view N1 = link_view N"
      using True by (simp_all add: N1_def netsync_assign_uid_def Let_def b_def a_def cl_def uid_def self_sid_def)
    have nu: "map_of (sv_by_uid (n_sv N)) k \<noteq> Some i" for k using users_okD(2) [of "n_sv N" k i] oks True by auto
    have us: "users_ok (sv_write i cl (n_sv N))"
    proof (rule users_okI, unfold sv_write_fields live_write [OF i] sv_client_write)
      have U: "users_ok (n_sv N)" using oks by blast
      show "distinct (map fst (sv_users (n_sv N)))" "distinct (map fst (sv_by_uid (n_sv N)))" using users_okD(3,4) [OF U] by blast+
      show "j \<in> live (n_sv N) \<and> k \<noteq> [] \<and> c_casefold_nick (if j = i then cl else n_client N j) = k"
        if "map_of (sv_users (n_sv N)) k = Some j" for k j using users_okD(1) [OF U that] by (cases "j = i") (simp_all add: cl_def)
      show "j \<in> live (n_sv N) \<and> k \<noteq> [] \<and> c_uid (if j = i then cl else n_client N j) = k"
        if "map_of (sv_by_uid (n_sv N)) k = Some j" for k j using users_okD(2) [OF U that] nu [of k] that by auto
    qed
    have w: "server_ok (sv_write i cl (n_sv N))"
    proof -
      have "watch_ok (\<lambda>j. c_monitor (sv_client (sv_write i cl (n_sv N)) j)) (live (sv_write i cl (n_sv N))) (sv_mon_idx (n_sv N))"
        "watch_ok (\<lambda>j. c_watch (sv_client (sv_write i cl (n_sv N)) j)) (live (sv_write i cl (n_sv N))) (sv_watch_idx (n_sv N))"
        using oks watch_write [where lst = c_monitor, OF _ i, of _ cl] watch_write [where lst = c_watch, OF _ i, of _ cl]
        by (simp_all add: cl_def)
      then show ?thesis using us queues_write [OF _ i, of cl] conns_write [OF _ i, of cl] channels_write [OF _ i, of cl] oks
        by (simp add: server_ok_def cl_def)
    qed
    have b: "server_ok b" "live b = live (n_sv N)" "tree_of b = tree_of (n_sv N)" "sv_users b = sv_users (n_sv N)"
      "\<And>j. sv_client b j = (if j = i then cl else n_client N j)"
    proof -
      have a: "server_ok a" "live a = live (n_sv N)" "sv_by_uid a = sv_by_uid (n_sv N)" "sv_client a i = cl"
        using w i by (simp_all add: a_def)
      have "server_ok (a\<lparr>sv_by_uid := sv_by_uid a @ [(uid, i)]\<rparr>)"
        by (rule add_uid_ok [OF a(1)]) (use a i u True in \<open>simp_all add: cl_def uid_def\<close>)
      then show "server_ok b" by (simp add: b_def a(3))
      show "live b = live (n_sv N)" "sv_users b = sv_users (n_sv N)" "\<And>j. sv_client b j = (if j = i then cl else n_client N j)"
        using a(2) by (simp_all add: b_def a_def)
      show "tree_of b = tree_of (n_sv N)" by (simp add: b_def a_def) (simp add: tree_of_def)
    qed
    have me: "n_self N \<in> server_keys (n_sv N)" using tree_okD(3) [OF D(2)] by (auto simp: key_Some)
    have "located (n_self N) b j" if j: "j \<in> live (n_sv N)" for j
    proof (cases "j = i")
      case True
      then show ?thesis using me own b(5) same_tree_keys [OF b(3)] by (simp add: located_def cl_def)
    next
      case False
      show ?thesis by (rule located_mono [OF D(3) [OF j]]) (use False b(4,5) same_tree_keys [OF b(3)] in simp_all)
    qed
    then show ?thesis using b N1 D by (simp add: net_ok_def orderly_def)
  qed
  have i1: "i \<in> live (n_sv N1)" using n1 i by simp
  define f :: "client \<Rightarrow> client" where "f = (\<lambda>c. if c_nick_ts c = 0 then c\<lparr>c_nick_ts := w_now W\<rparr> else c)"
  define N2 where "N2 = on_sv (emit (Svc_User i SVC_EV_USER)) (on_sv (change_client i f) N1)"
  have "net_ok (on_sv (change_client i f) N1)"
    using n1 i1 by (intro net_calm) (auto intro!: steady_intros simp: f_def)
  then have n2: "net_ok N2" unfolding N2_def by (rule net_calm) (intro steady_intros)
  have fr: "net_ok (fold (\<lambda>l N. link_lines l (uid_lines N (n_client N i)) N) ls M) = net_ok M" for ls M
    by (induction ls arbitrary: M) simp_all
  show ?thesis using n2 fr unfolding netsync_introduce_user_def Let_def N1_def [symmetric] f_def [symmetric] N2_def [symmetric] by simp
qed

definition netsync_init :: "nat \<Rightarrow> string \<Rightarrow> string \<Rightarrow> string \<Rightarrow> server \<Rightarrow> net" where
  "netsync_init me name sid desc sv =
     \<lparr>n_sv = sv\<lparr>sv_servers := [(me, \<lparr>ns_name = clip 128 name, ns_sid = (if sid \<noteq> [] then clip (SID_LEN + 1) sid else netsync_default_sid (clip 128 name)),
        ns_desc = clip 128 desc, ns_hop = 0, ns_uplink = None, ns_route = None, ns_n_users = 0\<rparr>)]\<rparr>,
      n_links = [], n_self = me, n_uid_counter = 0, n_netjoin = None, n_out = []\<rparr>"

lemma init_ok: "net_ok (netsync_init me name sid desc empty_server)"
proof -
  have "below [(me, ns)] = {}" if "ns_uplink ns = None" for ns using that by (auto simp: below_def)
  then have "acyclic (below [(me, ns)])" if "ns_uplink ns = None" for ns using that by (simp add: acyclic_def)
  then show ?thesis
    by (simp add: net_ok_def orderly_def netsync_init_def empty_server_ok tree_ok_def tree_of_def link_view_def plain_links_def root_of_def)
      (simp add: empty_server_def live_def)
qed

text \<open>
  What happens to a network: a line on a link, a link that is opened, comes up, is closed or taken
  off the list, a connection that is accepted or dropped, a client that takes a nick or is given a
  UID no client has, and whatever leaves clients, nicks, UIDs and servers as they are.
\<close>

inductive net_step :: "net \<Rightarrow> net \<Rightarrow> bool" where
  line: "net_step N (netsync_handle W l msg N)"
| opened: "l \<notin> fst ` set (n_links N) \<Longrightarrow> lk_nserver lk = None \<Longrightarrow> lk_bots lk = [] \<Longrightarrow> net_step N (N\<lparr>n_links := n_links N @ [(l, lk)]\<rparr>)"
| up: "map_of (n_links N) l = Some lk \<Longrightarrow> lk_nserver lk = None \<Longrightarrow> net_step N (snd (netsync_link_up W l name sid desc N))"
| closed: "net_step N (link_close l N)"
| dropped: "net_step N (link_reap W N)"
| accepted: "i \<notin> live (n_sv N) \<Longrightarrow> fresh_client cl \<Longrightarrow> c_fd cl \<ge> 0 \<Longrightarrow> \<not> c_remote cl \<Longrightarrow> c_nserver cl = None \<Longrightarrow>
    net_step N (on_sv (\<lambda>sv. server_add_connection W i (new_client i cl sv)) N)"
| nick: "i \<in> live (n_sv N) \<Longrightarrow> irc_casefold NICKLEN n \<noteq> [] \<Longrightarrow> map_of (sv_users (n_sv N)) (irc_casefold NICKLEN n) \<in> {None, Some i} \<Longrightarrow>
    net_step N (on_sv (rekey_nick i n) N)"
| introduced: "i \<in> live (n_sv N) \<Longrightarrow> \<not> c_remote (n_client N i) \<Longrightarrow>
    netsync_find_uid N (make_uid (self_sid N) (unat (n_uid_counter N + 1))) = None \<Longrightarrow> net_step N (netsync_introduce_user W i N)"
| gone: "net_step N (on_sv (reap_one W) N)"
| other: "keeps (n_sv N) sv \<Longrightarrow> net_step N (N\<lparr>n_sv := sv\<rparr>)"

inductive reachable_net :: "net \<Rightarrow> bool" where
  start: "reachable_net (netsync_init me name sid desc empty_server)"
| step: "reachable_net N \<Longrightarrow> net_step N M \<Longrightarrow> reachable_net M"

lemma b36_length [simp]: "length (b36_tail k n) = k"
  by (induction k arbitrary: n) simp_all

lemma net_step_ok: "net_step N M \<Longrightarrow> net_ok N \<Longrightarrow> net_ok M"
proof (induction rule: net_step.induct)
  case (line N W l msg)
  then show ?case by (rule handled_ok)
next
  case (opened l N lk)
  have v: "link_view (N\<lparr>n_links := n_links N @ [(l, lk)]\<rparr>) = link_view N @ [(l, link_state lk)]" by (simp add: link_view_def)
  have n: "l \<notin> fst ` set (link_view N)" using opened(1) by (force simp: link_view_def)
  have r: "root_of (link_view N @ [(l, link_state lk)]) l' = root_of (link_view N) l'" for l'
    using n opened(2) map_of_eq_None_iff [of "link_view N" l] unfolding root_of_def map_of_append [OF n] link_state_def by (cases "l' = l") simp_all
  have "tree_ok (n_self N) (tree_of (n_sv N)) (link_view N @ [(l, link_state lk)])"
    by (rule tree_ok_other_links [OF net_okD(2) [OF opened(4)] _ r]) (use n tree_okD(2) [OF net_okD(2) [OF opened(4)]] in simp)
  moreover have "plain_links (link_view N @ [(l, link_state lk)])"
    using net_okD(4) [OF opened(4)] opened(2,3) by (simp add: plain_append link_state_def)
  ultimately show ?case using opened(4) unfolding net_ok_def orderly_def v by simp
next
  case (up N l lk W name sid desc)
  then show ?case by (intro link_up_ok)
next
  case (dropped N W)
  then show ?case by (rule link_reap_ok)
next
  case (accepted i N cl W)
  then show ?case using accept_orderly [OF net_order] by (simp add: net_ok_def)
next
  case (nick i N n)
  then show ?case using rekey_orderly [OF net_order] by (simp add: net_ok_def)
next
  case (introduced i N W)
  have "make_uid (self_sid N) n \<noteq> []" for n
  proof -
    have "b36_tail 6 n \<noteq> []" using b36_length [of 6 n] by (metis length_0_conv zero_neq_numeral)
    then show ?thesis by (simp add: make_uid_def clip_def UID_LEN_def)
  qed
  then show ?case using introduced by (intro introduce_ok) (simp_all add: netsync_find_uid_def)
next
  case (gone N W)
  show ?case
  proof (cases "ev_dead (sv_q (n_sv N))")
    case Nil
    then have "on_sv (reap_one W) N = N" by (simp add: on_sv_def reap_one_def)
    then show ?thesis using gone by simp
  next
    case (Cons i rest)
    then show ?thesis using reap_one_orderly [OF net_order [OF gone]] gone by (simp add: net_ok_def)
  qed
next
  case (other N sv)
  then show ?case using keeps_orderly [OF other(1) net_order] by (simp add: net_ok_def)
qed simp

lemma reachable_net_ok: "reachable_net N \<Longrightarrow> net_ok N"
  by (induction rule: reachable_net.induct) (simp_all add: init_ok net_step_ok)

section \<open>What holds of every network\<close>

lemma climb:
  assumes ok: "tree_ok me T L"
  shows "map_of T s = Some ns \<Longrightarrow> me \<in> up T s \<and> (s \<noteq> me \<longrightarrow> (\<exists>l r. ns_route ns = Some l \<and> root_of L l = Some r))"
proof (induction "card (up T s)" arbitrary: s ns rule: less_induct)
  case less
  show ?case
  proof (cases "s = me")
    case False
    obtain u l where ul: "ns_uplink ns = Some u" "ns_route ns = Some l"
      and u: "if u = me then root_of L l = Some s else \<exists>us. map_of T u = Some us \<and> ns_route us = Some l"
      using tree_okD(4) [OF ok less.prems False] by (auto simp: placed_def)
    have b: "(s, u) \<in> below T" using less.prems ul(1) by (auto simp: below_def)
    have f: "finite (up T u)" by (rule finite_subset [OF up_in [OF tree_closed(1) [OF ok] tree_closed(1) [OF ok b]]]) simp_all
    have "s \<notin> up T u" using tree_okD(6) [OF ok] b unfolding acyclic_def up_def by (auto dest: rtrancl_into_trancl2)
    then have c: "card (up T u) < card (up T s)" using f up_step [OF b] by simp
    show ?thesis
    proof (cases "u = me")
      case True
      then show ?thesis using u ul up_step [OF b] by auto
    next
      case ne: False
      then obtain us where us: "map_of T u = Some us" "ns_route us = Some l" using u by auto
      show ?thesis using less.hyps [OF c us(1)] us(2) ul ne up_step [OF b] by auto
    qed
  qed simp
qed

lemma link_of_root: "root_of (link_view N) l = Some r \<longleftrightarrow> (\<exists>lk. map_of (n_links N) l = Some lk \<and> lk_nserver lk = Some r)"
proof (cases "map_of (n_links N) l")
  case None
  then have "map_of (link_view N) l = None" by (simp add: link_view_def map_of_map)
  then show ?thesis using None by (simp add: root_of_def)
qed (simp add: lns_root)

lemma order_parts:
  assumes ok: "net_ok N"
  shows "server_ok (n_sv N)"
    and "map_of (servers N) s = Some ns \<Longrightarrow> s \<noteq> n_self N \<Longrightarrow>
      netsync_is_behind (servers N) s (n_self N) \<and> (\<exists>u. ns_uplink ns = Some u \<and> map_of (servers N) u \<noteq> None) \<and>
      (\<exists>l lk. ns_route ns = Some l \<and> map_of (n_links N) l = Some lk \<and> lk_nserver lk \<noteq> None)"
    and "i \<in> live (n_sv N) \<Longrightarrow> c_remote (n_client N i) \<Longrightarrow>
      (\<exists>s. c_nserver (n_client N i) = Some s \<and> s \<noteq> n_self N \<and> map_of (servers N) s \<noteq> None) \<and>
      c_fd (n_client N i) < 0 \<and> map_of (sv_users (n_sv N)) (c_casefold_nick (n_client N i)) = Some i"
proof -
  note T = net_okD(2) [OF ok]
  show "server_ok (n_sv N)" by (rule net_okD(1) [OF ok])
  show "netsync_is_behind (servers N) s (n_self N) \<and> (\<exists>u. ns_uplink ns = Some u \<and> map_of (servers N) u \<noteq> None) \<and>
      (\<exists>l lk. ns_route ns = Some l \<and> map_of (n_links N) l = Some lk \<and> lk_nserver lk \<noteq> None)"
    if s: "map_of (servers N) s = Some ns" "s \<noteq> n_self N"
  proof -
    have t: "map_of (tree_of (n_sv N)) s = Some (ns\<lparr>ns_n_users := 0\<rparr>)" using s by (simp add: tree_of_lookup)
    have k: "s \<in> fst ` set (tree_of (n_sv N))" using t by (metis domI dom_map_of_conv_image_fst)
    note c = climb [OF T t]
    have "netsync_is_behind (servers N) s (n_self N)" using is_behind_up [OF T k] c by (simp add: behind_tree_of)
    moreover obtain u where u: "ns_uplink ns = Some u" using tree_okD(4) [OF T t s(2)] by (auto simp: placed_def)
    moreover have "(s, u) \<in> below (tree_of (n_sv N))" using t u by (auto simp: below_def)
    then have "map_of (servers N) u \<noteq> None" using tree_closed(1) [OF T] key_Some [of u "n_sv N"] by (auto simp: tree_of_keys tree_of_lookup)
    moreover have "\<exists>l r. ns_route ns = Some l \<and> root_of (link_view N) l = Some r" using c s(2) by simp
    then have "\<exists>l lk. ns_route ns = Some l \<and> map_of (n_links N) l = Some lk \<and> lk_nserver lk \<noteq> None" using link_of_root by (metis option.distinct(1))
    ultimately show ?thesis by blast
  qed
  show "(\<exists>s. c_nserver (n_client N i) = Some s \<and> s \<noteq> n_self N \<and> map_of (servers N) s \<noteq> None) \<and>
      c_fd (n_client N i) < 0 \<and> map_of (sv_users (n_sv N)) (c_casefold_nick (n_client N i)) = Some i"
    if "i \<in> live (n_sv N)" "c_remote (n_client N i)"
    using net_okD(3) [OF ok that(1)] that(2) by (auto simp: located_def Let_def key_Some tree_of_lookup split: option.splits)
qed

text \<open>
  C23. The network is always in order. In every state that lines, links and local events lead to:
  no registry names a client that is gone; every other server has an uplink that is known, is
  reached over a link that is up, and by going up from it this server is reached, so the walk of
  netsync_is_behind ends; every user of another server names a server that is known and is not
  this one, has no connection of its own and is found by its nick.
\<close>

theorem network_in_order:
  assumes "reachable_net N"
  shows "server_ok (n_sv N) \<and>
    (\<forall>s ns. map_of (servers N) s = Some ns \<longrightarrow> s \<noteq> n_self N \<longrightarrow>
      netsync_is_behind (servers N) s (n_self N) \<and> (\<exists>u. ns_uplink ns = Some u \<and> map_of (servers N) u \<noteq> None) \<and>
      (\<exists>l lk. ns_route ns = Some l \<and> map_of (n_links N) l = Some lk \<and> lk_nserver lk \<noteq> None)) \<and>
    (\<forall>i \<in> live (n_sv N). c_remote (n_client N i) \<longrightarrow>
      (\<exists>s. c_nserver (n_client N i) = Some s \<and> s \<noteq> n_self N \<and> map_of (servers N) s \<noteq> None) \<and>
      c_fd (n_client N i) < 0 \<and> map_of (sv_users (n_sv N)) (c_casefold_nick (n_client N i)) = Some i)"
  using order_parts [OF reachable_net_ok [OF assms]] by blast

text \<open>
  The two ways the code answers where a server is always agree: a server is behind the one at
  the other end of a link, by the walk up the tree, exactly when its route is that link.
\<close>

theorem routes_lead_there:
  assumes "reachable_net N" and "map_of (n_links N) l = Some lk" and "lk_nserver lk = Some r"
  shows "netsync_is_behind (servers N) s r \<longleftrightarrow>
    (\<exists>ns. map_of (servers N) s = Some ns \<and> s \<noteq> n_self N \<and> ns_route ns = Some l)"
proof -
  have "root_of (link_view N) l = Some r" using assms(2,3) link_of_root by blast
  then show ?thesis
    using behind_branch [OF reachable_net_ok [OF assms(1)], of l r s] by (auto simp: branch_def key_Some tree_of_lookup)
qed

lemma split_parts:
  assumes "reachable_net N" and "map_of (n_links N) l = Some lk" and "lk_nserver lk = Some r"
  shows "fst ` set (servers (netsync_link_down W l reason N)) =
      fst ` set (servers N) - {s. s \<noteq> n_self N \<and> ns_route (the_server N s) = Some l}"
    and "live (n_sv (netsync_link_down W l reason N)) = live (n_sv N) -
      {i. c_remote (n_client N i) \<and> ns_route (the_server N (the (c_nserver (n_client N i)))) = Some l}"
    and "server_ok (n_sv (netsync_link_down W l reason N))"
proof -
  note ok = reachable_net_ok [OF assms(1)]
  note f = link_down_facts [OF ok assms(2,3), where W = W and reason = reason]
  show "server_ok (n_sv (netsync_link_down W l reason N))" using net_okD(1) [OF f(1)] .
  show "fst ` set (servers (netsync_link_down W l reason N)) =
      fst ` set (servers N) - {s. s \<noteq> n_self N \<and> ns_route (the_server N s) = Some l}"
    using f(3) by (auto simp: server_keys_def branch_def)
  have "(\<exists>s. c_nserver (n_client N i) = Some s \<and> s \<in> branch N l) \<longleftrightarrow> ns_route (the_server N (the (c_nserver (n_client N i)))) = Some l"
    if "i \<in> live (n_sv N)" "c_remote (n_client N i)" for i
    using net_okD(3) [OF ok that(1)] that(2) by (auto simp: located_def branch_def Let_def split: option.splits)
  then show "live (n_sv (netsync_link_down W l reason N)) = live (n_sv N) -
      {i. c_remote (n_client N i) \<and> ns_route (the_server N (the (c_nserver (n_client N i)))) = Some l}"
    unfolding f(4) by auto
qed

text \<open>
  C24. When a link goes down exactly what is reached over it goes: every server whose route is the
  link and every user of such a server, and no other server and no other client. What is left is
  again in order.
\<close>

theorem split_removes_exactly:
  assumes "reachable_net N" and "map_of (n_links N) l = Some lk" and "lk_nserver lk = Some r"
  shows "fst ` set (servers (netsync_link_down W l reason N)) =
      fst ` set (servers N) - {s. s \<noteq> n_self N \<and> ns_route (the_server N s) = Some l} \<and>
    live (n_sv (netsync_link_down W l reason N)) = live (n_sv N) -
      {i. c_remote (n_client N i) \<and> ns_route (the_server N (the (c_nserver (n_client N i)))) = Some l} \<and>
    server_ok (n_sv (netsync_link_down W l reason N))"
  using split_parts [OF assms] by blast

text \<open>
  C25. A link speaks only for what is behind it. A line whose source is neither a server nor a user
  reached over the link, nor the SID of the server at its other end, changes nothing and is not
  passed on, whatever it says. Only EOB, which ends the burst of the link itself, and the commands
  KILL, SQUIT, PUSH, UNGLINE, UNSHUN and RSQUIT are carried out whoever they claim to be from.
\<close>

theorem no_line_for_others:
  assumes "reachable_net N" and "map_of (n_links N) l = Some lk" and "lk_nserver lk = Some r" and "msg_prefix msg = Some p"
    and "\<And>s. netsync_find_sid N p = Some s \<Longrightarrow> s = n_self N \<or> ns_route (the_server N s) \<noteq> Some l"
    and "\<And>i. netsync_find_uid N p = Some i \<Longrightarrow> \<not> c_remote (n_client N i) \<or> ns_route (the_server N (the (c_nserver (n_client N i)))) \<noteq> Some l"
    and "p \<noteq> ns_sid (the_server N r)"
    and "msg_command msg \<notin> {''KILL'', ''SQUIT'', ''PUSH'', ''UNGLINE'', ''UNSHUN'', ''RSQUIT'', ''EOB''}"
  shows "netsync_handle W l msg N = N"
proof -
  note ok = reachable_net_ok [OF assms(1)]
  have rt: "root_of (link_view N) l = Some r" using assms(2,3) link_of_root by blast
  have s: "src_server N (Some r) (Some p) = None"
  proof (cases "src_server N (Some r) (Some p)")
    case (Some x)
    then have "netsync_find_sid N p = Some x" by (simp add: src_server_def split: option.splits if_splits)
    then show ?thesis using src_server_branch [OF ok rt Some] assms(5) [of x] by (auto simp: branch_def)
  qed simp
  have u: "src_user N (Some r) (Some p) = None"
  proof (cases "src_user N (Some r) (Some p)")
    case (Some i)
    then have "netsync_find_uid N p = Some i" by (auto simp: src_user_def split: option.splits if_splits)
    then show ?thesis using src_user_branch [OF ok rt Some] assms(6) [of i] by (auto simp: branch_def)
  qed simp
  have pe: "src_peer N (Some r) (Some p) = None" using s assms(7) by (simp add: src_peer_def)
  have ac: "actor N (Some r) (Some p) = None" using s u by (simp add: actor_def)
  have nj: "src_peer (N\<lparr>n_sv := (n_sv N)\<lparr>sv_fb_cur := x\<rparr>\<rparr>) (Some r) (Some p) = None"
    "src_user (N\<lparr>n_sv := (n_sv N)\<lparr>sv_fb_cur := x\<rparr>\<rparr>) (Some r) (Some p) = None" for x
    using pe u by (simp_all add: src_peer_def src_server_def src_user_def netsync_find_sid_def netsync_find_uid_def behind_def cong: option.case_cong)
  note src = s u pe ac assms(4)
  have h:
    "handle_server W l (Some r) msg N = N"
    "handle_uid W l (Some r) msg N = N"
    "handle_nick W l (Some r) msg N = N"
    "handle_quit W l (Some r) msg N = N"
    "handle_umode l (Some r) msg N = N"
    "handle_away W l (Some r) msg N = N"
    "handle_chghost W l (Some r) msg N = N"
    "handle_setname W l (Some r) msg N = N"
    "handle_account W l (Some r) msg N = N"
    "handle_bmask W l (Some r) msg N = N"
    "handle_tb W l (Some r) msg N = N"
    "handle_part W l (Some r) msg N = N"
    "handle_kick W l (Some r) msg N = N"
    "handle_topic W l (Some r) msg N = N"
    "handle_mode W l (Some r) msg N = N"
    "handle_message l (Some r) msg N = N"
    "handle_invite l (Some r) msg N = N"
    "handle_wallops l (Some r) msg N = N"
    "handle_gline W l (Some r) msg N = N"
    "handle_rename l (Some r) msg N = N"
    "handle_redact l (Some r) msg N = N"
    "handle_mline l (Some r) msg N = N"
    "handle_certfp l (Some r) msg N = N"
    "handle_rquery (Some r) msg N = N" "handle_svcrelay (Some r) msg N = N" "handle_encap (Some r) msg N = N"
    by (simp_all add: src Let_def handle_server_def handle_uid_def handle_nick_def handle_quit_def handle_umode_def handle_away_def handle_chghost_def handle_setname_def handle_account_def handle_bmask_def handle_tb_def handle_part_def handle_kick_def handle_topic_def handle_mode_def handle_message_def handle_invite_def handle_wallops_def handle_gline_def handle_rename_def handle_redact_def handle_mline_def handle_certfp_def
      handle_rquery_def handle_svcrelay_def handle_encap_def)
  have j: "in_netjoin l (handle_sjoin W l (Some r) msg) N = N" "in_netjoin l (handle_join W l (Some r) msg) N = N"
    by (simp_all add: in_netjoin_def on_sv_def Let_def nj src handle_sjoin_def handle_join_def)
  have "\<forall>(cmd, f) \<in> set (handlers W l (Some r) msg). cmd \<notin> {''KILL'', ''SQUIT'', ''PUSH'', ''UNGLINE'', ''UNSHUN'', ''RSQUIT'', ''EOB''} \<longrightarrow> f N = N"
    unfolding handlers_def list.set(2) list.set(1) ball_simps prod.case using h j by simp
  then have "f N = N" if "map_of (handlers W l (Some r) msg) (msg_command msg) = Some f" for f
    using map_of_SomeD [OF that] assms(8) by blast
  then show ?thesis by (simp add: netsync_handle_def assms(2,3) split: option.split)
qed

text \<open>
  C26. Two servers that each have a user of the same nick decide alike, without asking each other:
  the user keeps the nick on its own server exactly when the other server lets it in, the user
  with the older nick stays, and when both are as old neither keeps it.
\<close>

theorem collision_decided_alike:
  assumes "reachable_net A" and "reachable_net B"
    and "server_find_user nick (n_sv A) = Some x" and "server_find_user nick (n_sv B) = Some y"
  defines "tx \<equiv> c_nick_ts (n_client A x)" and "ty \<equiv> c_nick_ts (n_client B y)"
  shows "fst (resolve_collision W l nick ty uy A) = (ty < tx) \<and> fst (resolve_collision V k nick tx ux B) = (tx < ty) \<and>
    server_find_user nick (n_sv (snd (resolve_collision W l nick ty uy A))) = (if tx < ty then Some x else None) \<and>
    server_find_user nick (n_sv (snd (resolve_collision V k nick tx ux B))) = (if ty < tx then Some y else None)"
proof -
  have *: "fst (resolve_collision W l nick t u N) = (t < c_nick_ts (n_client N i)) \<and>
    server_find_user nick (n_sv (snd (resolve_collision W l nick t u N))) = (if c_nick_ts (n_client N i) < t then Some i else None)"
    if r: "reachable_net N" and i: "server_find_user nick (n_sv N) = Some i" for W l t u N i
  proof -
    note ok = reachable_net_ok [OF r]
    define M where "M = (if t = c_nick_ts (n_client N i) \<or> \<not> t < c_nick_ts (n_client N i) then send_link l (kill_line N u) N else N)"
    have M: "net_ok M" "n_sv M = n_sv N" using ok by (simp_all add: M_def)
    note f = find_user_live [OF net_okD(1) [OF ok] i]
    have d: "spares i M (drop_holder W i M)" using M f(1) by (intro drop_holder_ok) simp_all
    have "map_of (sv_users (n_sv (drop_holder W i M))) (irc_casefold NICKLEN nick) \<noteq> Some j" for j
      using sparesD(7) [OF d, of "irc_casefold NICKLEN nick" j] f(2) M(2) by simp
    then have "server_find_user nick (n_sv (drop_holder W i M)) = None" unfolding server_find_user_def by (meson not_None_eq)
    moreover have "resolve_collision W l nick t u N =
      (t < c_nick_ts (n_client N i), if t \<le> c_nick_ts (n_client N i) then drop_holder W i M else M)"
      by (auto simp: resolve_collision_def i Let_def M_def)
    ultimately show ?thesis using i M(2) by (auto simp: server_find_user_def)
  qed
  show ?thesis using * [OF assms(1,3)] * [OF assms(2,4)] by (simp add: tx_def ty_def)
qed

section \<open>Names on the wire\<close>

lemma B36_inj: "a < 36 \<Longrightarrow> b < 36 \<Longrightarrow> B36 ! a = B36 ! b \<Longrightarrow> a = b"
proof -
  have "distinct B36 \<and> length B36 = 36" by code_simp
  then have "distinct B36" "length B36 = 36" by blast+
  then show "a < 36 \<Longrightarrow> b < 36 \<Longrightarrow> B36 ! a = B36 ! b \<Longrightarrow> a = b" by (simp add: nth_eq_iff_index_eq)
qed

lemma b36_tail_eq: "b36_tail k n = b36_tail k m \<longleftrightarrow> n mod 36 ^ k = m mod 36 ^ k"
proof (induction k arbitrary: n m)
  case (Suc k)
  have e: "x mod 36 ^ Suc k = 36 * (x div 36 mod 36 ^ k) + x mod 36" for x :: nat unfolding power_Suc by (rule mod_mult2_eq)
  have key: "36 * a + b = 36 * c + d \<longleftrightarrow> a = c \<and> b = d" if "b < 36" "d < 36" for a b c d :: nat
  proof -
    have "(36 * a + b) div 36 = a \<and> (36 * c + d) div 36 = c" using that by simp
    then show ?thesis by (metis add_left_cancel)
  qed
  have "n mod 36 ^ Suc k = m mod 36 ^ Suc k \<longleftrightarrow> n div 36 mod 36 ^ k = m div 36 mod 36 ^ k \<and> n mod 36 = m mod 36"
    unfolding e [of n] e [of m] by (rule key) simp_all
  moreover have "B36 ! (n mod 36) = B36 ! (m mod 36) \<longleftrightarrow> n mod 36 = m mod 36" using B36_inj [of "n mod 36" "m mod 36"] by auto
  ultimately show ?case using Suc.IH [of "n div 36" "m div 36"] by simp
qed simp

text \<open>
  A UID is the SID of its server and six base 36 digits of the counter, nine characters in
  all; two numbers give the same UID exactly when they differ by a multiple of 36^6, so the first
  36^6 users of a server have different ones and the next one meets the first again.
\<close>

theorem make_uid_unique:
  assumes "length sid = SID_LEN"
  shows "length (make_uid sid n) = UID_LEN \<and> take SID_LEN (make_uid sid n) = sid \<and>
    (make_uid sid n = make_uid sid m \<longleftrightarrow> n mod 36 ^ 6 = m mod 36 ^ 6)"
proof -
  have l: "length (b36_tail 6 x) = 6" for x by simp
  have "make_uid sid x = sid @ b36_tail 6 x" for x
    using assms l [of x] by (simp add: make_uid_def clip_def UID_LEN_def SID_LEN_def del: b36_tail.simps b36_length)
  then show ?thesis using assms l [of n] b36_tail_eq [of 6 n m]
    by (simp add: UID_LEN_def SID_LEN_def del: b36_tail.simps b36_length)
qed

definition umode_mask :: flags where
  "umode_mask = foldr (OR) (map snd umode_map) 0"

lemma umode_single: "(l, b) \<in> set umode_map \<Longrightarrow> m AND b = (if has m b then b else 0)"
proof -
  have s: "m AND b = (if m AND b \<noteq> 0 then b else 0)" if "b = push_bit k (1 :: flags)" for b k
  proof (cases "bit m k")
    case True
    then have "m AND b = b" using that by (intro bit_word_eqI) (auto simp: bit_simps)
    then show ?thesis by simp
  next
    case False
    then have "m AND b = 0" using that by (intro bit_word_eqI) (auto simp: bit_simps)
    then show ?thesis by simp
  qed
  have "list_all (\<lambda>(l, b). b \<in> set (map (\<lambda>k. push_bit k 1) [0..<32])) umode_map" by code_simp
  then show "(l, b) \<in> set umode_map \<Longrightarrow> m AND b = (if has m b then b else 0)"
  proof -
    assume "(l, b) \<in> set umode_map"
    then have "b \<in> set (map (\<lambda>k. push_bit k 1) [0..<32])" using \<open>list_all _ umode_map\<close> unfolding list_all_iff by fast
    then obtain k where "b = push_bit k 1" by (auto simp del: push_bit_of_1)
    then show "m AND b = (if has m b then b else 0)" by (rule s)
  qed
qed

lemma umode_letter: "(l, b) \<in> set umode_map \<Longrightarrow> umodes_from_string (l # s) = (fst (umodes_from_string s) OR b, snd (umodes_from_string s))"
proof -
  have "distinct (map fst umode_map) \<and> CHR ''S'' \<notin> fst ` set umode_map" by code_simp
  then have d: "distinct (map fst umode_map)" "CHR ''S'' \<notin> fst ` set umode_map" by auto
  have none: "l \<notin> fst ` set L \<Longrightarrow> fold (\<lambda>(l', b) m. if l' = l then m OR b else m) L m = m" for L :: "(char \<times> flags) list" and l m
    by (induction L arbitrary: m) auto
  have "distinct (map fst L) \<Longrightarrow> (l, b) \<in> set L \<Longrightarrow> fold (\<lambda>(l', b) m. if l' = l then m OR b else m) L m = m OR b"
    for L :: "(char \<times> flags) list" and m
    using none by (induction L arbitrary: m) force+
  then show "(l, b) \<in> set umode_map \<Longrightarrow> umodes_from_string (l # s) = (fst (umodes_from_string s) OR b, snd (umodes_from_string s))"
    using d by (force simp: split_def Let_def)
qed

text \<open>
The modes of a user survive the trip to another server: what the UID and UMODE lines say is
  read back as the modes that have a letter, and whether the user is a service.
\<close>

theorem umodes_roundtrip: "umodes_from_string (umodes_to_string cl) = (c_umodes cl AND umode_mask, c_is_service cl)"
proof -
  let ?s = "if c_is_service cl then ''S'' else []"
  have "umodes_from_string (map fst (filter (\<lambda>(c, b). has (c_umodes cl) b) L) @ ?s) =
      (c_umodes cl AND foldr (OR) (map snd L) 0, c_is_service cl)" if "set L \<subseteq> set umode_map" for L
    using that
  proof (induction L)
    case (Cons e L)
    obtain l b where e: "e = (l, b)" by (cases e)
    then have m: "(l, b) \<in> set umode_map" using Cons.prems by simp
    have IH: "umodes_from_string (map fst (filter (\<lambda>(c, b). has (c_umodes cl) b) L) @ ?s) =
      (c_umodes cl AND foldr (OR) (map snd L) 0, c_is_service cl)" using Cons by simp
    have d: "c_umodes cl AND (b OR x) = (c_umodes cl AND b) OR (c_umodes cl AND x)" for x by (rule bit.conj_disj_distrib)
    show ?case
    proof (cases "has (c_umodes cl) b")
      case True
      then have "umodes_from_string (map fst (filter (\<lambda>(c, b). has (c_umodes cl) b) (e # L)) @ ?s)
        = umodes_from_string (l # map fst (filter (\<lambda>(c, b). has (c_umodes cl) b) L) @ ?s)" by (simp add: e)
      also have "\<dots> = ((c_umodes cl AND foldr (OR) (map snd L) 0) OR b, c_is_service cl)" unfolding umode_letter [OF m] IH by simp
      finally show ?thesis using True umode_single [OF m, of "c_umodes cl"] unfolding e by (simp only: d list.map foldr.simps comp_apply snd_conv if_True) (simp add: or.commute)
    next
      case False
      then have "umodes_from_string (map fst (filter (\<lambda>(c, b). has (c_umodes cl) b) (e # L)) @ ?s)
        = umodes_from_string (map fst (filter (\<lambda>(c, b). has (c_umodes cl) b) L) @ ?s)" by (simp add: e)
      then show ?thesis using False umode_single [OF m, of "c_umodes cl"] IH unfolding e by (simp only: d list.map foldr.simps comp_apply snd_conv if_False) simp
    qed
  qed simp
  moreover have "umodes_from_string (CHR ''+'' # s) = umodes_from_string s" for s
    by (simp add: umode_map_def split_def)
  ultimately show ?thesis unfolding umodes_to_string_def umode_mask_def append_Cons append_Nil by (simp only: subset_refl)
qed

section \<open>A small network\<close>

lemma link_up_view:
  fixes W :: world and l :: nat and desc :: string
  assumes f: "netsync_find_sid N sid = None" "netsync_find_name N name = None"
  defines "M \<equiv> snd (netsync_link_up W l name sid desc N)" and "s \<equiv> unused (map fst (servers N))"
  shows "n_links M = n_links (set_link l (\<lambda>lk. lk\<lparr>lk_is_server := True, lk_nserver := Some s\<rparr>) N)"
    and "servers M = servers N @ [(s, \<lparr>ns_name = clip 128 name, ns_sid = clip (SID_LEN + 1) sid, ns_desc = clip 128 desc, ns_hop = 1,
                      ns_uplink = Some (n_self N), ns_route = Some l, ns_n_users = 0\<rparr>)]"
    and "n_self M = n_self N" and "sv_by_uid (n_sv M) = sv_by_uid (n_sv N)"
proof -
  define N1 where "N1 = snd (add_server \<lparr>ns_name = clip 128 name, ns_sid = clip (SID_LEN + 1) sid, ns_desc = clip 128 desc, ns_hop = 1,
                      ns_uplink = Some (n_self N), ns_route = Some l, ns_n_users = 0\<rparr> N)"
  define N2 where "N2 = set_link l (\<lambda>lk. lk\<lparr>lk_is_server := True, lk_nserver := Some s\<rparr>) N1"
  have t: "tells (n_sv N1) (server_fbatch_begin W FB_NETJOIN ''netjoin'' q name (n_sv N1))" for q by (rule tells_fbatch_begin)
  have b: "n_links (send_burst l X) = n_links X" for X by (simp add: send_burst_def)
  have M: "n_links M = n_links N2 \<and> n_self M = n_self N2 \<and> (\<exists>q. n_sv M = server_fbatch_begin W FB_NETJOIN ''netjoin'' q name (n_sv N2))"
    using f by (auto simp: M_def netsync_link_up_def Let_def split_def N2_def N1_def s_def add_server_def b)
  have N1: "n_links N1 = n_links N" "servers N1 = servers N @ [(s, \<lparr>ns_name = clip 128 name, ns_sid = clip (SID_LEN + 1) sid, ns_desc = clip 128 desc, ns_hop = 1,
                      ns_uplink = Some (n_self N), ns_route = Some l, ns_n_users = 0\<rparr>)]" "n_self N1 = n_self N" "sv_by_uid (n_sv N1) = sv_by_uid (n_sv N)"
    by (simp_all add: N1_def add_server_def Let_def s_def)
  show "n_links M = n_links (set_link l (\<lambda>lk. lk\<lparr>lk_is_server := True, lk_nserver := Some s\<rparr>) N)"
    using M N1(1) by (simp add: N2_def set_link_def split: option.split)
  show "servers M = servers N @ [(s, \<lparr>ns_name = clip 128 name, ns_sid = clip (SID_LEN + 1) sid, ns_desc = clip 128 desc, ns_hop = 1,
                      ns_uplink = Some (n_self N), ns_route = Some l, ns_n_users = 0\<rparr>)]" "n_self M = n_self N" "sv_by_uid (n_sv M) = sv_by_uid (n_sv N)"
    using M N1 t by (auto simp: N2_def tells_def)
qed

definition demo_start :: net where "demo_start = netsync_init 1 ''a.net'' ''0AA'' ''net'' empty_server"

definition demo_open :: net where
  "demo_open = demo_start\<lparr>n_links := [(5, \<lparr>lk_authenticated = True, lk_is_server = True, lk_closing = False, lk_nserver = None,
     lk_peer_name = ''b.net'', lk_bots = []\<rparr>)]\<rparr>"

definition demo_linked :: net where "demo_linked = snd (netsync_link_up demo_world 5 ''b.net'' ''0BB'' ''net'' demo_open)"

lemma demo_open_facts:
  "netsync_find_sid demo_open ''0BB'' = None" "netsync_find_name demo_open ''b.net'' = None" "n_self demo_open = 1"
  "map fst (servers demo_open) = [1]" "sv_by_uid (n_sv demo_open) = []" "n_links demo_start = []"
  "map_of (n_links demo_open) 5 = Some \<lparr>lk_authenticated = True, lk_is_server = True, lk_closing = False, lk_nserver = None,
     lk_peer_name = ''b.net'', lk_bots = []\<rparr>"
proof -
  have c: "clip (Suc SID_LEN) ''0AA'' = ''0AA''" "clip 128 ''a.net'' = ''a.net''" "\<not> strcaseeq ''a.net'' ''b.net''" by code_simp+
  show "netsync_find_sid demo_open ''0BB'' = None" "netsync_find_name demo_open ''b.net'' = None"
    by (simp_all add: demo_open_def demo_start_def netsync_init_def netsync_find_sid_def netsync_find_name_def c)
qed (simp_all add: demo_open_def demo_start_def netsync_init_def empty_server_def)

lemma demo_linked_reachable: "reachable_net demo_linked"
proof -
  have "reachable_net demo_start" unfolding demo_start_def by (rule reachable_net.start)
  moreover have "net_step demo_start demo_open"
    using net_step.opened [of 5 demo_start "\<lparr>lk_authenticated = True, lk_is_server = True, lk_closing = False, lk_nserver = None,
     lk_peer_name = ''b.net'', lk_bots = []\<rparr>"] demo_open_facts(6) by (simp add: demo_open_def)
  moreover have "net_step demo_open demo_linked" unfolding demo_linked_def by (rule net_step.up [OF demo_open_facts(7)]) simp
  ultimately show ?thesis by (blast intro: reachable_net.step)
qed

lemma demo_linked_facts:
  "\<exists>lk. map_of (n_links demo_linked) 5 = Some lk \<and> lk_nserver lk = Some 2" "n_self demo_linked = 1" "sv_by_uid (n_sv demo_linked) = []"
  "map fst (servers demo_linked) = [1, 2]" "map (\<lambda>(s, ns). ns_sid ns) (servers demo_linked) = [''0AA'', ''0BB'']"
  "map_of (servers demo_linked) 2 = Some \<lparr>ns_name = clip 128 ''b.net'', ns_sid = clip (SID_LEN + 1) ''0BB'', ns_desc = clip 128 ''net'', ns_hop = 1,
     ns_uplink = Some 1, ns_route = Some 5, ns_n_users = 0\<rparr>"
proof -
  note v = link_up_view [OF demo_open_facts(1,2), of demo_world 5 "''net''", folded demo_linked_def, unfolded demo_open_facts(3-5)]
  have u: "unused [Suc 0] = 2" by (simp add: unused_def)
  have c: "clip (Suc SID_LEN) ''0BB'' = ''0BB''" "clip (Suc SID_LEN) ''0AA'' = ''0AA''" by code_simp+
  show "\<exists>lk. map_of (n_links demo_linked) 5 = Some lk \<and> lk_nserver lk = Some 2"
    using v(1) demo_open_facts(7) by (simp add: set_link_def u map_of_update)
  show "n_self demo_linked = 1" "sv_by_uid (n_sv demo_linked) = []" using v(3,4) by simp_all
  have s: "servers demo_open = [(1, \<lparr>ns_name = clip 128 ''a.net'', ns_sid = ''0AA'', ns_desc = clip 128 ''net'', ns_hop = 0,
      ns_uplink = None, ns_route = None, ns_n_users = 0\<rparr>)]" by (simp add: demo_open_def demo_start_def netsync_init_def c)
  show "map fst (servers demo_linked) = [1, 2]" "map (\<lambda>(s, ns). ns_sid ns) (servers demo_linked) = [''0AA'', ''0BB'']"
    "map_of (servers demo_linked) 2 = Some \<lparr>ns_name = clip 128 ''b.net'', ns_sid = clip (SID_LEN + 1) ''0BB'', ns_desc = clip 128 ''net'', ns_hop = 1,
     ns_uplink = Some 1, ns_route = Some 5, ns_n_users = 0\<rparr>"
    using v(2) by (simp_all add: s u c)
qed

theorem network_in_order_witness: "netsync_is_behind (servers demo_linked) 2 1"
  using network_in_order [OF demo_linked_reachable] demo_linked_facts(2,6) by simp

theorem routes_lead_there_witness: "netsync_is_behind (servers demo_linked) 2 2 \<and> \<not> netsync_is_behind (servers demo_linked) 1 2"
proof -
  obtain lk where "map_of (n_links demo_linked) 5 = Some lk" "lk_nserver lk = Some 2" using demo_linked_facts(1) by blast
  note r = routes_lead_there [OF demo_linked_reachable this]
  show ?thesis using r [of 1] r [of 2] demo_linked_facts(2,6) by simp
qed

theorem split_removes_exactly_witness: "fst ` set (servers (netsync_link_down demo_world 5 ''gone'' demo_linked)) = {1}"
proof -
  obtain lk where "map_of (n_links demo_linked) 5 = Some lk" "lk_nserver lk = Some 2" using demo_linked_facts(1) by blast
  note r = split_removes_exactly [OF demo_linked_reachable this, of demo_world "''gone''"]
  have "fst ` set (servers demo_linked) = {1, 2}" using arg_cong [OF demo_linked_facts(4), of set] by simp
  then show ?thesis using r demo_linked_facts(2,6) by auto
qed

definition demo_stranger :: irc_message where
  "demo_stranger = \<lparr>msg_tags = [], msg_prefix = Some ''0ZZ'', msg_command = ''GLINE'', msg_params = [''*@*'', ''x'', ''0'', ''out'']\<rparr>"

theorem no_line_for_others_witness: "netsync_handle demo_world 5 demo_stranger demo_linked = demo_linked"
proof -
  obtain lk where l: "map_of (n_links demo_linked) 5 = Some lk" "lk_nserver lk = Some 2" using demo_linked_facts(1) by blast
  have n: "netsync_find_sid demo_linked ''0ZZ'' = None"
  proof -
    have "ns_sid (snd e) \<in> {''0AA'', ''0BB''}" if "e \<in> set (servers demo_linked)" for e
      using arg_cong [OF demo_linked_facts(5), of set] that by (auto simp: split_def)
    then show ?thesis by (force simp: netsync_find_sid_def find_None_iff)
  qed
  have c: "clip (Suc SID_LEN) ''0BB'' = ''0BB''" by code_simp
  show ?thesis
    by (rule no_line_for_others [OF demo_linked_reachable l, of demo_stranger "''0ZZ''"])
      (simp_all add: n demo_stranger_def netsync_find_uid_def demo_linked_facts c)
qed

definition demo_ann :: net where
  "demo_ann = on_sv (rekey_nick 1 ''Ann'') (on_sv (demo_come 1) demo_start)"

definition demo_late :: net where
  "demo_late = demo_ann\<lparr>n_sv := change_client 1 (\<lambda>c. c\<lparr>c_nick_ts := 7\<rparr>) (n_sv demo_ann)\<rparr>"

lemma demo_ann_facts: "reachable_net demo_ann" "reachable_net demo_late"
  "server_find_user ''ann'' (n_sv demo_ann) = Some 1" "server_find_user ''ann'' (n_sv demo_late) = Some 1"
  "c_nick_ts (n_client demo_ann 1) = 0" "c_nick_ts (n_client demo_late 1) = 7"
proof -
  define a where "a = on_sv (demo_come 1) demo_start"
  have s: "live (n_sv demo_start) = {}" "sv_users (n_sv demo_start) = []" "n_sv a = demo_come 1 (n_sv demo_start)"
    by (simp_all add: demo_start_def netsync_init_def empty_server_def live_def a_def)
  have ra: "reachable_net a" unfolding a_def demo_come_def comp_def
    by (rule reachable_net.step, unfold demo_start_def, rule reachable_net.start, rule net_step.accepted)
      (auto simp: s(1) [unfolded demo_start_def One_nat_def] fresh_client_def client_new_def)
  have k: "irc_casefold NICKLEN ''Ann'' = ''ann''" "irc_casefold NICKLEN ''ann'' = ''ann''" by code_simp+
  have lv: "1 \<in> live (n_sv a)" "sv_users (n_sv a) = []" by (simp_all add: s demo_come_fields)
  note lv1 = lv(1) [unfolded One_nat_def]
  have da: "demo_ann = on_sv (rekey_nick 1 ''Ann'') a" by (simp add: demo_ann_def a_def)
  show rd: "reachable_net demo_ann" unfolding da by (rule reachable_net.step [OF ra net_step.nick [OF lv(1)]]) (simp_all add: lv k)
  have ld: "1 \<in> live (n_sv demo_ann)"
    using lv rekey_nick_ok(2) [OF net_okD(1) [OF reachable_net_ok [OF ra]] lv(1), of "''Ann''"] k by (simp add: da)
  show "reachable_net demo_late" unfolding demo_late_def
    by (rule reachable_net.step [OF rd net_step.other]) (rule steady_keeps, rule steady_change, use ld in simp_all)
  show "server_find_user ''ann'' (n_sv demo_ann) = Some 1" "server_find_user ''ann'' (n_sv demo_late) = Some 1"
    by (simp_all add: demo_late_def change_client_def server_find_user_def k da rekey_nick_def server_add_user_def Let_def lv lv1)
  show "c_nick_ts (n_client demo_ann 1) = 0" "c_nick_ts (n_client demo_late 1) = 7"
    by (simp_all add: demo_late_def change_client_def da rekey_nick_def server_add_user_def Let_def lv lv1 s demo_come_def demo_ops)
qed

theorem collision_decided_alike_witness:
  "fst (resolve_collision demo_world 5 ''ann'' 7 ''0BBAAAAAA'' demo_ann) = False \<and>
   fst (resolve_collision demo_world 5 ''ann'' 0 ''0AAAAAAAA'' demo_late) = True"
  using collision_decided_alike [OF demo_ann_facts(1-4), of demo_world 5 "''0BBAAAAAA''" demo_world 5 "''0AAAAAAAA''"] demo_ann_facts(5,6) by simp

theorem make_uid_unique_witness: "make_uid ''0AA'' 1 \<noteq> make_uid ''0AA'' 37 \<and> make_uid ''0AA'' 1 = make_uid ''0AA'' (36 ^ 6 + 1)"
  using make_uid_unique [of "''0AA''" 1 37] make_uid_unique [of "''0AA''" 1 "36 ^ 6 + 1"] by (simp add: SID_LEN_def)

end
