(* ===== verification/Network.thy ===== *)
theory Network
  imports Nettree Chanorder
begin

text \<open>
  The daemon as a whole: what arrives over the links, connections that come and go and the channel
  commands of the clients, in any order.
\<close>

inductive running :: "net \<times> spam_state \<Rightarrow> bool" where
  start: "running (netsync_init me name sid desc empty_server, ss)"
| net: "running (N, ss) \<Longrightarrow> net_step N M \<Longrightarrow> running (M, ss)"
| chan: "running st \<Longrightarrow> chan_step st st2 \<Longrightarrow> running st2"

lemma running_ok: "running st \<Longrightarrow> net_ok (fst st)"
proof (induction rule: running.induct)
  case (start me name sid desc ss)
  then show ?case using reachable_net_ok [OF reachable_net.start] by simp
next
  case (net N ss M)
  then show ?case using net_step_ok by simp
next
  case (chan st st2)
  then show ?case using chan_step_calm net_okD(1) calm_ok by blast
qed

text \<open>
  C4. Whatever the clients send to channels, between lines of other servers, links that come and go,
  new connections and clients that leave: the members of a channel are clients that are there and
  that list it among theirs, every channel a client lists has it as a member, no index of the server
  names a client that is gone, and the tree of servers stands.
\<close>

theorem commands_keep_order:
  assumes "running (N, ss)"
  shows "server_ok (n_sv N) \<and>
    (\<forall>k c. map_of (sv_channels (n_sv N)) k = Some c \<longrightarrow> distinct (member_ids c) \<and>
       (\<forall>i \<in> set (member_ids c). i \<in> live (n_sv N) \<and> k \<in> set (c_channels (n_client N i)))) \<and>
    (\<forall>i \<in> live (n_sv N). \<forall>k \<in> set (c_channels (n_client N i)). \<exists>c. map_of (sv_channels (n_sv N)) k = Some c \<and> i \<in> set (member_ids c)) \<and>
    (\<forall>s ns. map_of (servers N) s = Some ns \<longrightarrow> s \<noteq> n_self N \<longrightarrow> netsync_is_behind (servers N) s (n_self N)) \<and>
    (\<forall>i \<in> live (n_sv N). c_remote (n_client N i) \<longrightarrow> (\<exists>s. c_nserver (n_client N i) = Some s \<and> map_of (servers N) s \<noteq> None))"
proof -
  have ok: "net_ok N" using running_ok [OF assms] by simp
  note P = order_parts [OF ok]
  have C: "channels_ok (n_sv N)" using P(1) by (simp add: server_ok_def)
  note D = channels_okD [OF C]
  show ?thesis
    using P D(2) D(4) by (intro conjI) (blast | metis subsetD)+
qed

definition demo_spam :: spam_state where
  "demo_spam = \<lparr>ss_filters = [], ss_hits = 0, ss_lines = \<lparr>kt_lines = [], kt_gen = 0, kt_dirty = False\<rparr>,
     ss_q = \<lparr>ev_clients = [], ev_dirty = [], ev_dead = []\<rparr>\<rparr>"

theorem commands_keep_order_witness:
  "server_ok (n_sv (fst (cmd_join demo_env 1 \<lparr>msg_tags = [], msg_prefix = None, msg_command = ''JOIN'', msg_params = [''#a'']\<rparr> (demo_ann, demo_spam))))"
proof -
  have "running (demo_ann, demo_spam)" using demo_ann_facts(1)
  proof (induction rule: reachable_net.induct)
    case (start me name sid desc)
    then show ?case by (rule running.start)
  next
    case (step N M)
    then show ?case by (blast intro: running.net)
  qed
  moreover have "1 \<in> live (n_sv demo_ann)"
    by (rule found_live [OF net_okD(1) [OF reachable_net_ok [OF demo_ann_facts(1)]] demo_ann_facts(3)])
  then have "chan_step (demo_ann, demo_spam) (cmd_join demo_env 1 m (demo_ann, demo_spam))" for m by (intro chan_step.join) simp
  ultimately have "running (cmd_join demo_env 1 m (demo_ann, demo_spam))" for m by (rule running.chan)
  then have "running (fst (cmd_join demo_env 1 m (demo_ann, demo_spam)), snd (cmd_join demo_env 1 m (demo_ann, demo_spam)))" for m by simp
  from commands_keep_order [OF this] show ?thesis by blast
qed

end
